(* ===== verification/Prelude.thy ===== *)
theory Prelude
  imports Main "HOL-Library.Word" "HOL-Library.Monad_Syntax"
begin

text \<open>
  Shared vocabulary of the development. Unsigned machine integers of the C++ code that are used
  arithmetically are natural numbers whose wrap-around is written out (\<open>u8\<close>, \<open>u32\<close>, \<open>u64\<close>,
  \<open>u128\<close>, \<open>sub64\<close>, \<open>sub128\<close>); signed 64-bit integers, which the code compiles with
  \<^verbatim>\<open>-fwrapv\<close>, are integers wrapped by \<open>i64\<close>. Bit vectors are \<open>64 word\<close>.
  An operation with no defined result in C++ (division by zero, a shift by at least the width)
  is \<open>None\<close>; a thrown exception is \<open>Inl e\<close>.
  The collection \<open>wrap_defs\<close> holds the wrap functions, \<open>bounds\<close> the range facts.
\<close>

named_theorems wrap_defs \<open>definitions of the wrap-around functions\<close>
named_theorems bounds \<open>range facts of wrapped arithmetic\<close>

section \<open>Machine integers\<close>

definition u8 :: "nat \<Rightarrow> nat" where
  [wrap_defs]: "u8 n = n mod 2 ^ 8"

definition u32 :: "nat \<Rightarrow> nat" where
  [wrap_defs]: "u32 n = n mod 2 ^ 32"

definition u64 :: "nat \<Rightarrow> nat" where
  [wrap_defs]: "u64 n = n mod 2 ^ 64"

definition u128 :: "nat \<Rightarrow> nat" where
  [wrap_defs]: "u128 n = n mod 2 ^ 128"

definition sub64 :: "nat \<Rightarrow> nat \<Rightarrow> nat" where
  [wrap_defs]: "sub64 a b = (a + (2 ^ 64 - b)) mod 2 ^ 64"

definition sub128 :: "nat \<Rightarrow> nat \<Rightarrow> nat" where
  [wrap_defs]: "sub128 a b = (a + (2 ^ 128 - b)) mod 2 ^ 128"

definition i64 :: "int \<Rightarrow> int" where
  [wrap_defs]: "i64 x = (x + 2 ^ 63) mod 2 ^ 64 - 2 ^ 63"

definition in_i64 :: "int \<Rightarrow> bool" where
  "in_i64 x \<longleftrightarrow> - (2 ^ 63) \<le> x \<and> x < 2 ^ 63"

abbreviation INT64_MAX :: int where "INT64_MAX \<equiv> 2 ^ 63 - 1"
abbreviation INT64_MIN :: int where "INT64_MIN \<equiv> - (2 ^ 63)"
abbreviation UINT64_MAX :: nat where "UINT64_MAX \<equiv> 2 ^ 64 - 1"

lemma u64_id [simp]: "n < 2 ^ 64 \<Longrightarrow> u64 n = n"
  by (simp add: u64_def)

lemma u128_id [simp]: "n < 2 ^ 128 \<Longrightarrow> u128 n = n"
  by (simp add: u128_def)

lemma u64_less [bounds]: "u64 n < 2 ^ 64"
  by (simp add: u64_def)

lemma u128_less [bounds]: "u128 n < 2 ^ 128"
  by (simp add: u128_def)

lemmas u_less_numeral [simp] = u64_less [simplified] u128_less [simplified]

lemma u128_le: "u128 n \<le> n"
  by (simp add: u128_def)

lemma sub64_id: "b \<le> a \<Longrightarrow> a < 2 ^ 64 \<Longrightarrow> sub64 a b = a - b"
proof -
  assume le: "b \<le> a" and less: "a < 2 ^ 64"
  then have "a + (2 ^ 64 - b) = (a - b) + 2 ^ 64" by linarith
  then have "sub64 a b = ((a - b) + 2 ^ 64) mod 2 ^ 64" by (simp only: sub64_def)
  also have "\<dots> = (a - b) mod 2 ^ 64" by (rule mod_add_self2)
  also have "\<dots> = a - b" using less by (intro mod_less) linarith
  finally show ?thesis .
qed

lemma sub128_id: "b \<le> a \<Longrightarrow> a < 2 ^ 128 \<Longrightarrow> sub128 a b = a - b"
proof -
  assume le: "b \<le> a" and less: "a < 2 ^ 128"
  then have "a + (2 ^ 128 - b) = (a - b) + 2 ^ 128" by linarith
  then have "sub128 a b = ((a - b) + 2 ^ 128) mod 2 ^ 128" by (simp only: sub128_def)
  also have "\<dots> = (a - b) mod 2 ^ 128" by (rule mod_add_self2)
  also have "\<dots> = a - b" using less by (intro mod_less) linarith
  finally show ?thesis .
qed

lemma i64_range [bounds, simp]: "in_i64 (i64 x)"
  by (simp add: in_i64_def i64_def)

lemma i64_id [simp]: "in_i64 x \<Longrightarrow> i64 x = x"
  by (simp add: in_i64_def i64_def)

lemma i64_mod: "i64 x mod 2 ^ 64 = x mod 2 ^ 64"
proof -
  have "i64 x mod 2 ^ 64 = ((x + 2 ^ 63) mod 2 ^ 64 - 2 ^ 63) mod 2 ^ 64"
    by (simp add: i64_def)
  also have "\<dots> = (x + 2 ^ 63 - 2 ^ 63) mod 2 ^ 64"
    by (rule mod_diff_left_eq)
  finally show ?thesis by simp
qed

lemma i64_cong: "x mod 2 ^ 64 = y mod 2 ^ 64 \<Longrightarrow> i64 x = i64 y"
  unfolding i64_def by (metis mod_add_left_eq)

lemma i64_add_left [simp]: "i64 (i64 x + y) = i64 (x + y)"
  by (rule i64_cong) (metis i64_mod mod_add_left_eq)

lemma i64_add_right [simp]: "i64 (x + i64 y) = i64 (x + y)"
  by (rule i64_cong) (metis i64_mod mod_add_right_eq)

lemma i64_diff_left [simp]: "i64 (i64 x - y) = i64 (x - y)"
  by (rule i64_cong) (metis i64_mod mod_diff_left_eq)

lemma i64_diff_right [simp]: "i64 (x - i64 y) = i64 (x - y)"
  by (rule i64_cong) (metis i64_mod mod_diff_right_eq)

lemma i64_minus_i64 [simp]: "i64 (- i64 x) = i64 (- x)"
  using i64_diff_right [of 0 x] by simp

lemma i64_add_cong: "i64 x = i64 y \<Longrightarrow> i64 (x + c) = i64 (y + c)"
  by (metis i64_add_left)

lemmas i64_ring = i64_add_left i64_add_right i64_diff_left i64_diff_right i64_minus_i64

section \<open>Errors\<close>

text \<open>
  The exceptions the modelled code throws, undefined C++ behaviour, and a call that never returns.
\<close>

datatype error =
    RuntimeError string
  | OutOfRange
  | UndefinedBehaviour
  | NoReturn

type_synonym 'a result = "error + 'a"

definition from_ub :: "'a option \<Rightarrow> 'a result" where
  "from_ub x = (case x of None \<Rightarrow> Inl UndefinedBehaviour | Some v \<Rightarrow> Inr v)"

definition bind_result :: "'a result \<Rightarrow> ('a \<Rightarrow> 'b result) \<Rightarrow> 'b result" where
  "bind_result r f = (case r of Inl e \<Rightarrow> Inl e | Inr v \<Rightarrow> f v)"

lemma bind_result_simps [simp]:
  "bind_result (Inl e) f = Inl e"
  "bind_result (Inr v) f = f v"
  by (simp_all add: bind_result_def)

lemma bind_result_Inr: "bind_result r f = Inr y \<longleftrightarrow> (\<exists>x. r = Inr x \<and> f x = Inr y)"
  by (cases r) simp_all

lemma from_ub_simps [simp]:
  "from_ub None = Inl UndefinedBehaviour"
  "from_ub (Some v) = Inr v"
  by (simp_all add: from_ub_def)

lemma from_ub_Inr [simp]: "from_ub x = Inr y \<longleftrightarrow> x = Some y"
  by (cases x) simp_all

definition from_loop :: "'a option \<Rightarrow> 'a result" where
  "from_loop x = (case x of None \<Rightarrow> Inl NoReturn | Some v \<Rightarrow> Inr v)"

lemma from_loop_simps [simp]:
  "from_loop None = Inl NoReturn"
  "from_loop (Some v) = Inr v"
  by (simp_all add: from_loop_def)

text \<open>Reading a \<^verbatim>\<open>std::vector\<close> with \<^verbatim>\<open>at\<close>.\<close>

definition vec_at :: "'a list \<Rightarrow> nat \<Rightarrow> 'a result" where
  "vec_at xs i = (if i < length xs then Inr (xs ! i) else Inl OutOfRange)"

lemma vec_at_simps [simp]:
  "i < length xs \<Longrightarrow> vec_at xs i = Inr (xs ! i)"
  "\<not> i < length xs \<Longrightarrow> vec_at xs i = Inl OutOfRange"
  by (simp_all add: vec_at_def)

lemma vec_at_Inr: "vec_at xs i = Inr x \<longleftrightarrow> i < length xs \<and> xs ! i = x"
  by (simp add: vec_at_def)

section \<open>Big-endian byte strings\<close>

text \<open>\<open>be_bytes k n\<close> is the \<open>k\<close>-byte big-endian form of \<open>n\<close>, \<open>be_value\<close> reads one back.\<close>

fun be_bytes :: "nat \<Rightarrow> nat \<Rightarrow> nat list" where
  "be_bytes 0 n = []"
| "be_bytes (Suc k) n = (n div 256 ^ k) mod 256 # be_bytes k n"

fun be_value :: "nat list \<Rightarrow> nat" where
  "be_value [] = 0"
| "be_value (b # bs) = b * 256 ^ length bs + be_value bs"

definition bytes :: "nat list \<Rightarrow> bool" where
  "bytes bs \<longleftrightarrow> (\<forall>b \<in> set bs. b < 256)"

lemma length_be_bytes [simp]: "length (be_bytes k n) = k"
  by (induction k) simp_all

lemma bytes_be_bytes [simp]: "bytes (be_bytes k n)"
  by (induction k) (simp_all add: bytes_def)

lemma be_value_be_bytes: "be_value (be_bytes k n) = n mod 256 ^ k"
proof (induction k)
  case 0
  show ?case by simp
next
  case (Suc k)
  have "n mod 256 ^ Suc k = 256 ^ k * (n div 256 ^ k mod 256) + n mod 256 ^ k"
    by (metis mod_mult2_eq mult.commute power_Suc)
  with Suc show ?case by simp
qed

lemma be_value_less: "bytes bs \<Longrightarrow> be_value bs < 256 ^ length bs"
proof (induction bs)
  case Nil
  show ?case by simp
next
  case (Cons b bs)
  then have "be_value bs < 256 ^ length bs" and "b \<le> 255"
    by (auto simp: bytes_def)
  then have "b * 256 ^ length bs + be_value bs < (b + 1) * 256 ^ length bs"
    by simp
  also have "\<dots> \<le> 256 * 256 ^ length bs"
    using \<open>b \<le> 255\<close> by (intro mult_right_mono) auto
  finally show ?case by simp
qed

lemma be_value_append: "be_value (xs @ ys) = be_value xs * 256 ^ length ys + be_value ys"
  by (induction xs) (simp_all add: power_add algebra_simps)

section \<open>Lists\<close>

lemma sum_list_update_nat:
  fixes xs :: "nat list"
  assumes "i < length xs"
  shows "sum_list (xs[i := v]) + xs ! i = sum_list xs + v"
  using assms
proof (induction xs arbitrary: i)
  case Nil
  then show ?case by simp
next
  case (Cons x xs)
  then show ?case by (cases i) auto
qed

lemma nth_image_drop: "(\<lambda>i. xs ! i) ` {k..<length xs} = set (drop k xs)"
proof -
  have "drop k xs = map (\<lambda>i. xs ! i) [k..<length xs]"
    by (intro nth_equalityI) simp_all
  then show ?thesis by simp
qed

lemma option_eqI: "(\<And>v. x = Some v \<longleftrightarrow> y = Some v) \<Longrightarrow> x = y"
  by (cases x; cases y) auto

definition upd_at :: "'a list \<Rightarrow> nat \<Rightarrow> ('a \<Rightarrow> 'a) \<Rightarrow> 'a list" where
  "upd_at xs i f = xs[i := f (xs ! i)]"

lemma length_upd_at [simp]: "length (upd_at xs i f) = length xs"
  by (simp add: upd_at_def)

lemma upd_at_nth: "j < length xs \<Longrightarrow> upd_at xs i f ! j = (if i = j then f (xs ! j) else xs ! j)"
  by (auto simp: upd_at_def nth_list_update)

lemma upd_at_upd_at: "upd_at (upd_at xs n f) n g = upd_at xs n (\<lambda>x. g (f x))"
  by (cases "n < length xs") (auto simp: upd_at_def list_update_beyond)

lemma upd_at_swap:
  assumes "i = j \<Longrightarrow> f (g (xs ! i)) = g (f (xs ! i))"
  shows "upd_at (upd_at xs i f) j g = upd_at (upd_at xs j g) i f"
proof (cases "i = j")
  case True
  then show ?thesis using assms by (simp only: upd_at_upd_at) (simp add: upd_at_def)
next
  case False
  then show ?thesis by (simp add: upd_at_def list_update_swap)
qed

lemma upd_at_beyond [simp]: "length xs \<le> i \<Longrightarrow> upd_at xs i f = xs"
  by (simp add: upd_at_def list_update_beyond)

end
