(* ===== verification/Price_Utils.thy ===== *)
theory Price_Utils
  imports Prelude
begin

text \<open>
  Model of \<^verbatim>\<open>utils/price.h\<close>: fixed-point prices of 48 bits with 24 fractional bits, stored in
  a \<^verbatim>\<open>uint64_t\<close>. The functions on doubles (\<^verbatim>\<open>to_double\<close>, \<^verbatim>\<open>from_double\<close>,
  \<^verbatim>\<open>tax_to_double\<close>) only feed logs and the floating-point objective and are left out.
\<close>

section \<open>Definitions\<close>

type_synonym price = nat

definition PRICE_RADIX :: nat where "PRICE_RADIX = 24"
definition PRICE_BIT_LEN :: nat where "PRICE_BIT_LEN = 2 * PRICE_RADIX"
definition PRICE_BYTES :: nat where "PRICE_BYTES = PRICE_BIT_LEN div 8"
definition MAX_PRICE :: price where "MAX_PRICE = 2 ^ PRICE_BIT_LEN - 1"
definition PRICE_ONE :: price where "PRICE_ONE = 2 ^ PRICE_RADIX"

lemmas price_consts = PRICE_RADIX_def PRICE_BIT_LEN_def PRICE_BYTES_def MAX_PRICE_def PRICE_ONE_def

text \<open>The byte loop of \<^verbatim>\<open>write_price_big_endian\<close> from position \<open>loc\<close> on.\<close>

function write_price_loop :: "nat \<Rightarrow> nat list \<Rightarrow> price \<Rightarrow> nat list" where
  "write_price_loop loc buf price =
     (if loc < PRICE_BYTES
      then (let offset = (PRICE_BYTES - loc - 1) * 8
            in write_price_loop (Suc loc) (buf[loc := (price div 2 ^ offset) mod 256]) price)
      else buf)"
  by pat_completeness auto
termination
  by (relation "measure (\<lambda>(loc, _, _). PRICE_BYTES - loc)") auto

definition write_price_big_endian :: "nat list \<Rightarrow> price \<Rightarrow> nat list" where
  "write_price_big_endian buf price = write_price_loop 0 buf price"

function read_price_loop :: "nat \<Rightarrow> nat list \<Rightarrow> price \<Rightarrow> price" where
  "read_price_loop loc buf p =
     (if loc < PRICE_BYTES
      then read_price_loop (Suc loc) buf (u64 (u64 (p * 2 ^ 8) + buf ! loc))
      else p)"
  by pat_completeness auto
termination
  by (relation "measure (\<lambda>(loc, _, _). PRICE_BYTES - loc)") auto

definition read_price_big_endian :: "nat list \<Rightarrow> price" where
  "read_price_big_endian buf = read_price_loop 0 buf 0"

definition impose_price_bounds :: "nat \<Rightarrow> price" where
  "impose_price_bounds val =
     (if val > MAX_PRICE then MAX_PRICE else if val = 0 then 1 else val)"

definition is_valid_price :: "price \<Rightarrow> bool" where
  "is_valid_price price \<longleftrightarrow> price \<le> MAX_PRICE \<and> price \<noteq> 0"

text \<open>A shift of a 64-bit value by 64 or more has no defined result.\<close>

definition smooth_mult :: "price \<Rightarrow> nat \<Rightarrow> price option" where
  "smooth_mult price sm = (if sm < 64 then Some (sub64 price (price div 2 ^ sm)) else None)"

definition a_over_b_leq_c :: "price \<Rightarrow> price \<Rightarrow> price \<Rightarrow> bool" where
  "a_over_b_leq_c a b c \<longleftrightarrow> u128 (a * 2 ^ PRICE_RADIX) \<le> u128 (b * c)"

definition a_over_b_lt_c :: "price \<Rightarrow> price \<Rightarrow> price \<Rightarrow> bool" where
  "a_over_b_lt_c a b c \<longleftrightarrow> u128 (a * 2 ^ PRICE_RADIX) < u128 (b * c)"

definition wide_multiply_val_by_a_over_b :: "nat \<Rightarrow> price \<Rightarrow> price \<Rightarrow> nat option" where
  "wide_multiply_val_by_a_over_b val a b =
     (if b = 0 then None
      else (let modulo = u128 ((val div b) * a);
                remainder = u128 ((val mod b) * a) div b
            in Some (u128 (modulo + remainder))))"

definition safe_multiply_and_drop_lowbits :: "nat \<Rightarrow> nat \<Rightarrow> nat \<Rightarrow> price result" where
  "safe_multiply_and_drop_lowbits first second lowbits_to_drop =
     (if lowbits_to_drop < 64 \<or> lowbits_to_drop > 196 then Inl (RuntimeError ''unimplemented'')
      else (let first_low = first mod 2 ^ 64; first_high = (first div 2 ^ 64) mod 2 ^ 64;
                second_low = second mod 2 ^ 64; second_high = (second div 2 ^ 64) mod 2 ^ 64;
                low_low = u128 (first_low * second_low);
                low_high = u128 (first_low * second_high);
                high_low = u128 (first_high * second_low);
                high_high = u128 (first_high * second_high);
                out0 = (if lowbits_to_drop < 128 then low_low div 2 ^ lowbits_to_drop else 0);
                lowhigh_offset = lowbits_to_drop - 64;
                out1 = u128 (out0 + u128 (low_high div 2 ^ lowhigh_offset
                                          + high_low div 2 ^ lowhigh_offset));
                out2 = (if lowbits_to_drop \<le> 128
                        then (let used_lowbits = 128 - lowbits_to_drop;
                                  used_highbits = (if used_lowbits \<le> PRICE_BIT_LEN
                                                   then PRICE_BIT_LEN - used_lowbits else 0);
                                  max_highbits = 2 ^ used_highbits - 1;
                                  hh = (if high_high > max_highbits then max_highbits else high_high)
                              in u128 (out1 + u128 (hh * 2 ^ used_lowbits)))
                        else u128 (out1 + high_high div 2 ^ (lowbits_to_drop - 128)))
            in Inr (if out2 > MAX_PRICE then MAX_PRICE else out2)))"

definition round_up_price_times_amount :: "nat \<Rightarrow> nat" where
  "round_up_price_times_amount p_times_amount =
     (if p_times_amount mod 2 ^ 24 \<noteq> 0
      then u64 (p_times_amount div 2 ^ PRICE_RADIX + 1)
      else u64 (p_times_amount div 2 ^ PRICE_RADIX))"

section \<open>Byte encoding\<close>

declare write_price_loop.simps [simp del] read_price_loop.simps [simp del]

lemma PRICE_BYTES_eq [simp]: "PRICE_BYTES = 6"
  by (simp add: price_consts)

lemma power_256: "256 ^ k = (2 :: nat) ^ (8 * k)"
  by (simp add: power_mult)

lemma write_price_loop_eq:
  "6 \<le> length buf \<Longrightarrow> k \<le> 6 \<Longrightarrow>
   write_price_loop (6 - k) buf p = take (6 - k) buf @ be_bytes k p @ drop 6 buf"
proof (induction k arbitrary: buf)
  case 0
  then show ?case by (simp add: write_price_loop.simps)
next
  case (Suc k)
  let ?buf = "buf[6 - Suc k := p div 256 ^ k mod 256]"
  have suc: "Suc (6 - Suc k) = 6 - k" using Suc.prems by simp
  have off: "(PRICE_BYTES - (6 - Suc k) - 1) * 8 = 8 * k" using Suc.prems by simp
  have "6 - Suc k < PRICE_BYTES" by simp
  then have "write_price_loop (6 - Suc k) buf p = write_price_loop (6 - k) ?buf p"
    by (subst write_price_loop.simps) (simp only: Let_def off suc power_256, simp)
  also have "\<dots> = take (6 - k) ?buf @ be_bytes k p @ drop 6 buf"
    using Suc by simp
  also have "take (6 - k) ?buf = take (6 - Suc k) buf @ [p div 256 ^ k mod 256]"
    using Suc.prems by (simp add: suc [symmetric] take_Suc_conv_app_nth)
  finally show ?case by simp
qed

lemma write_price_eq:
  "6 \<le> length buf \<Longrightarrow> write_price_big_endian buf p = be_bytes 6 p @ drop 6 buf"
  using write_price_loop_eq [of buf 6 p] by (simp add: write_price_big_endian_def)

lemma read_price_loop_eq:
  "k \<le> 6 \<Longrightarrow> 6 \<le> length buf \<Longrightarrow> bytes (take 6 buf) \<Longrightarrow> p < 256 ^ (6 - k) \<Longrightarrow>
   read_price_loop (6 - k) buf p = p * 256 ^ k + be_value (take k (drop (6 - k) buf))"
proof (induction k arbitrary: p)
  case 0
  then show ?case by (simp add: read_price_loop.simps)
next
  case (Suc k)
  let ?b = "buf ! (6 - Suc k)"
  have suc: "Suc (6 - Suc k) = 6 - k" using Suc.prems by simp
  have "take 6 buf ! (6 - Suc k) \<in> set (take 6 buf)" using Suc.prems by (intro nth_mem) simp
  then have b: "?b < 256" using Suc.prems by (simp add: bytes_def)
  have "p + 1 \<le> 256 ^ (6 - Suc k)" using Suc.prems by simp
  then have "(p + 1) * 256 \<le> 256 ^ (6 - Suc k) * 256" by (rule mult_le_mono1)
  also have "\<dots> = 256 ^ (6 - k)" by (metis suc power_Suc2)
  finally have p': "p * 256 + ?b < 256 ^ (6 - k)"
    using b by (simp add: distrib_right)
  moreover have "(256 :: nat) ^ (6 - k) \<le> 256 ^ 6" by (rule power_increasing) auto
  ultimately have small: "p * 256 + ?b < 2 ^ 64" by simp
  have "read_price_loop (6 - Suc k) buf p = read_price_loop (6 - k) buf (p * 256 + ?b)"
    using Suc.prems small suc by (subst read_price_loop.simps) auto
  also have "\<dots> = (p * 256 + ?b) * 256 ^ k + be_value (take k (drop (6 - k) buf))"
    using Suc.prems p' by (intro Suc.IH) auto
  also have "take (Suc k) (drop (6 - Suc k) buf) = ?b # take k (drop (6 - k) buf)"
    using Suc.prems by (simp add: suc [symmetric] Cons_nth_drop_Suc [symmetric])
  ultimately show ?case using Suc.prems by (simp add: algebra_simps)
qed

lemma read_be_bytes: "read_price_big_endian (be_bytes 6 p @ rest) = p mod 2 ^ 48"
  using read_price_loop_eq [of 6 "be_bytes 6 p @ rest" 0]
  by (simp add: read_price_big_endian_def be_value_be_bytes)

section \<open>Arithmetic\<close>

lemma mult_div_split:
  fixes v a b :: nat
  assumes "b \<noteq> 0"
  shows "v * a div b = (v div b) * a + ((v mod b) * a) div b"
proof -
  have "v * a = ((v div b) * b + v mod b) * a" by (simp only: div_mult_mod_eq)
  also have "\<dots> = b * ((v div b) * a) + (v mod b) * a"
    by (simp only: distrib_left mult.assoc mult.left_commute mult.commute)
  finally have "v * a div b = (b * ((v div b) * a) + (v mod b) * a) div b" by (rule arg_cong)
  also have "\<dots> = (v div b) * a + (v mod b) * a div b" using assms by (rule div_mult_self4)
  finally show ?thesis .
qed

lemma mod_mult_less_128:
  fixes v a b :: nat
  assumes "a < 2 ^ 64" and "b < 2 ^ 64" and "b \<noteq> 0"
  shows "(v mod b) * a < 2 ^ 128"
proof -
  have "v mod b < 2 ^ 64" using assms(2,3) by (meson mod_less_divisor less_trans not_gr_zero)
  then have "(v mod b) * a < 2 ^ 64 * 2 ^ 64"
    using assms(1) by (intro mult_strict_mono) auto
  then show ?thesis by simp
qed

lemma wide_multiply_eq:
  assumes "b \<noteq> 0" and "a < 2 ^ 64" and "b < 2 ^ 64" and "val * a div b < 2 ^ 128"
  shows "wide_multiply_val_by_a_over_b val a b = Some (val * a div b)"
proof -
  have split: "val * a div b = (val div b) * a + ((val mod b) * a) div b"
    using assms(1) by (rule mult_div_split)
  then have "(val div b) * a < 2 ^ 128" using assms(4) by linarith
  moreover have "(val mod b) * a < 2 ^ 128" using assms by (intro mod_mult_less_128)
  ultimately show ?thesis
    using assms(1,4) split by (simp add: wide_multiply_val_by_a_over_b_def Let_def)
qed

text \<open>The result wraps modulo the width, so it never exceeds the exact quotient.\<close>

lemma wide_multiply_le:
  assumes "wide_multiply_val_by_a_over_b val a b = Some r"
  shows "r \<le> val * a div b"
proof -
  from assms have nz: "b \<noteq> 0"
    and r: "r = u128 (u128 ((val div b) * a) + u128 ((val mod b) * a) div b)"
    by (auto simp: wide_multiply_val_by_a_over_b_def Let_def split: if_splits)
  have "r \<le> u128 ((val div b) * a) + u128 ((val mod b) * a) div b"
    unfolding r by (rule u128_le)
  also have "\<dots> \<le> (val div b) * a + ((val mod b) * a) div b"
    by (intro add_mono u128_le div_le_mono)
  finally show ?thesis using mult_div_split [OF nz, of val a] by simp
qed

lemma compare_products:
  assumes "a < 2 ^ 64" and "b < 2 ^ 64" and "c < 2 ^ 64"
  shows "u128 (a * 2 ^ PRICE_RADIX) = a * 2 ^ 24" and "u128 (b * c) = b * c"
proof -
  have "a * 2 ^ 24 < 2 ^ 64 * 2 ^ 24" using assms(1) by simp
  also have "\<dots> \<le> 2 ^ 128" by simp
  finally show "u128 (a * 2 ^ PRICE_RADIX) = a * 2 ^ 24" by (simp add: PRICE_RADIX_def)
  have "b * c < 2 ^ 64 * 2 ^ 64" using assms(2,3) by (intro mult_strict_mono) auto
  then show "u128 (b * c) = b * c" by simp
qed

lemma mult_split_high_low:
  fixes f s :: nat
  shows "f * s = (f mod 2 ^ 64) * (s mod 2 ^ 64)
    + 2 ^ 64 * ((f mod 2 ^ 64) * (s div 2 ^ 64) + (f div 2 ^ 64) * (s mod 2 ^ 64))
    + 2 ^ 128 * ((f div 2 ^ 64) * (s div 2 ^ 64))"
proof -
  have "f * s = (f mod 2 ^ 64 + 2 ^ 64 * (f div 2 ^ 64)) * (s mod 2 ^ 64 + 2 ^ 64 * (s div 2 ^ 64))"
    by (simp only: mod_mult_div_eq)
  also have "\<dots> = (f mod 2 ^ 64) * (s mod 2 ^ 64)
    + 2 ^ 64 * ((f mod 2 ^ 64) * (s div 2 ^ 64) + (f div 2 ^ 64) * (s mod 2 ^ 64))
    + 2 ^ 64 * 2 ^ 64 * ((f div 2 ^ 64) * (s div 2 ^ 64))"
    by (simp only: distrib_left distrib_right mult.assoc mult.left_commute mult.commute add.assoc add.left_commute add.commute)
  finally show ?thesis by (simp only: power_add [symmetric]) simp
qed

lemma sum_div_le:
  fixes x y n :: nat
  shows "x div n + y div n \<le> (x + y) div n"
  by (subst div_add1_eq) simp

lemma div_shift_up:
  fixes x :: nat
  assumes "k \<le> d"
  shows "x div 2 ^ (d - k) = (2 ^ k * x) div 2 ^ d"
proof -
  have "(2::nat) ^ d = 2 ^ k * 2 ^ (d - k)" using assms by (simp add: power_add [symmetric])
  then show ?thesis by simp
qed


text \<open>The pieces of \<^const>\<open>safe_multiply_and_drop_lowbits\<close> sum to at most the exact quotient.\<close>

lemma partial_products_le:
  fixes f s d :: nat
  assumes d: "64 \<le> d" and hh: "hh \<le> 2 ^ 128 * ((f div 2 ^ 64) * (s div 2 ^ 64)) div 2 ^ d"
  shows "(f mod 2 ^ 64) * (s mod 2 ^ 64) div 2 ^ d
    + ((f mod 2 ^ 64) * (s div 2 ^ 64) div 2 ^ (d - 64) + (f div 2 ^ 64) * (s mod 2 ^ 64) div 2 ^ (d - 64))
    + hh \<le> f * s div 2 ^ d"
proof -
  define ll where "ll = (f mod 2 ^ 64) * (s mod 2 ^ 64)"
  define lh where "lh = (f mod 2 ^ 64) * (s div 2 ^ 64)"
  define hl where "hl = (f div 2 ^ 64) * (s mod 2 ^ 64)"
  define ff where "ff = 2 ^ 128 * ((f div 2 ^ 64) * (s div 2 ^ 64))"
  have shift: "lh div 2 ^ (d - 64) = 2 ^ 64 * lh div 2 ^ d" "hl div 2 ^ (d - 64) = 2 ^ 64 * hl div 2 ^ d"
    using d by (simp_all only: div_shift_up)
  have "2 ^ 64 * lh div 2 ^ d + 2 ^ 64 * hl div 2 ^ d \<le> 2 ^ 64 * (lh + hl) div 2 ^ d"
    by (simp only: distrib_left sum_div_le)
  moreover have "ll div 2 ^ d + 2 ^ 64 * (lh + hl) div 2 ^ d \<le> (ll + 2 ^ 64 * (lh + hl)) div 2 ^ d"
    by (rule sum_div_le)
  moreover have "(ll + 2 ^ 64 * (lh + hl)) div 2 ^ d + ff div 2 ^ d \<le> (ll + 2 ^ 64 * (lh + hl) + ff) div 2 ^ d"
    by (rule sum_div_le)
  moreover have e: "f * s = ll + 2 ^ 64 * (lh + hl) + ff"
    unfolding ll_def lh_def hl_def ff_def by (rule mult_split_high_low)
  ultimately show ?thesis
    using hh unfolding ll_def [symmetric] lh_def [symmetric] hl_def [symmetric] ff_def [symmetric] shift e
    by linarith
qed

section \<open>Properties\<close>

text \<open>
  Writing a price of at most 48 bits into a buffer and reading it back gives the
  price, and the bytes behind the six price bytes are untouched.
\<close>

theorem price_bytes_roundtrip:
  assumes "p \<le> MAX_PRICE" and "PRICE_BYTES \<le> length buf"
  shows "read_price_big_endian (write_price_big_endian buf p) = p
    \<and> drop PRICE_BYTES (write_price_big_endian buf p) = drop PRICE_BYTES buf"
proof -
  have "write_price_big_endian buf p = be_bytes 6 p @ drop 6 buf"
    using assms(2) by (intro write_price_eq) simp
  moreover have "p mod 2 ^ 48 = p" using assms(1) by (simp add: price_consts)
  ultimately show ?thesis by (simp add: read_be_bytes del: be_bytes.simps)
qed

theorem price_bytes_roundtrip_witness:
  "read_price_big_endian (write_price_big_endian [9, 9, 9, 9, 9, 9, 7] 66051) = 66051
    \<and> drop PRICE_BYTES (write_price_big_endian [9, 9, 9, 9, 9, 9, 7] 66051)
      = drop PRICE_BYTES [9, 9, 9, 9, 9, 9, 7]"
  by (rule price_bytes_roundtrip) (simp_all add: price_consts)

text \<open>
  The two-step multiplication of a 128-bit value by a quotient of prices returns the
  floor of the exact quotient whenever that fits 128 bits: the product, which may need 192 bits,
  is never formed, and neither intermediate product overflows. A zero divisor has no result.
\<close>

theorem wide_multiply_exact:
  assumes "a < 2 ^ 64" and "b < 2 ^ 64" and "b \<noteq> 0 \<longrightarrow> val * a div b < 2 ^ 128"
  shows "wide_multiply_val_by_a_over_b val a b = (if b = 0 then None else Some (val * a div b))"
  using assms wide_multiply_eq [of b a val]
  by (simp add: wide_multiply_val_by_a_over_b_def)

theorem wide_multiply_exact_witness:
  "wide_multiply_val_by_a_over_b (2 ^ 127) 3 4
    = (if (4::nat) = 0 then None else Some (2 ^ 127 * 3 div 4))"
  by (rule wide_multiply_exact) simp_all

end
