(* ===== verification/Xdr_Types.thy ===== *)
theory Xdr_Types
  imports Price_Utils
begin

text \<open>
  The wire types of \<^verbatim>\<open>xdr/types.x\<close> and \<^verbatim>\<open>xdr/transaction.x\<close> that the modelled code reads:
  offers, operations, transactions and the processing status codes. Account and asset ids,
  sequence numbers and offer ids are natural numbers below their width; signed amounts are
  integers. Opaque byte strings the model never looks into (public keys, signatures) are the type
  variables \<open>'pk\<close> and \<open>'sig\<close>.
\<close>

type_synonym account_id = nat
type_synonym asset_id = nat

datatype offer_type = SELL | OTHER_TYPE int

record offer_category =
  sellAsset :: asset_id
  buyAsset :: asset_id
  cat_type :: offer_type

record offer =
  category :: offer_category
  offerId :: nat
  owner :: account_id
  amount :: nat
  minPrice :: price

datatype tx_status =
    SUCCESS | SOURCE_ACCOUNT_NEXIST | INVALID_OPERATION_TYPE | SEQ_NUM_TOO_LOW | SEQ_NUM_TOO_HIGH
  | SEQ_NUM_TEMP_IN_USE | STARTING_BALANCE_TOO_LOW | NEW_ACCOUNT_ALREADY_EXISTS
  | NEW_ACCOUNT_TEMP_RESERVED | INSUFFICIENT_BALANCE | INVALID_TX_FORMAT | INVALID_OFFER_CATEGORY
  | INVALID_PRICE | CANCEL_OFFER_TARGET_NEXIST | RECIPIENT_ACCOUNT_NEXIST
  | INVALID_PRINT_MONEY_AMOUNT | INVALID_AMOUNT | BAD_SIGNATURE | FEE_BID_TOO_LOW

record 'pk create_account_op =
  startingBalance :: int
  newAccountId :: account_id
  newAccountPublicKey :: 'pk

record create_sell_offer_op =
  cso_category :: offer_category
  cso_amount :: int
  cso_minPrice :: price

record cancel_sell_offer_op =
  can_category :: offer_category
  can_offerId :: nat
  can_minPrice :: price

record payment_op =
  receiver :: account_id
  pay_asset :: asset_id
  pay_amount :: int

record money_printer_op =
  mp_asset :: asset_id
  mp_amount :: int

datatype 'pk operation =
    CREATE_ACCOUNT "'pk create_account_op"
  | CREATE_SELL_OFFER create_sell_offer_op
  | CANCEL_SELL_OFFER cancel_sell_offer_op
  | PAYMENT payment_op
  | MONEY_PRINTER money_printer_op

definition MAX_OPS_PER_TX :: nat where "MAX_OPS_PER_TX = 256"
definition RESERVED_SEQUENCE_NUM_LOWBITS :: nat where "RESERVED_SEQUENCE_NUM_LOWBITS = 255"
definition CREATE_ACCOUNT_MIN_STARTING_BALANCE :: int where "CREATE_ACCOUNT_MIN_STARTING_BALANCE = 100"
definition BASE_FEE_PER_TX :: int where "BASE_FEE_PER_TX = 10"
definition FEE_PER_OP :: int where "FEE_PER_OP = 5"
definition NUM_OFFER_TYPES :: nat where "NUM_OFFER_TYPES = 1"

record tx_metadata =
  sourceAccount :: account_id
  sequenceNumber :: nat

record 'pk transaction =
  metadata :: tx_metadata
  operations :: "'pk operation list"
  maxFee :: nat

record ('pk, 'sig) signed_transaction =
  stx :: "'pk transaction"
  signature :: 'sig

record block_state_update_stats =
  new_offer_count :: nat
  cancel_offer_count :: nat
  fully_clear_offer_count :: nat
  partial_clear_offer_count :: nat
  payment_count :: nat
  new_account_count :: nat

definition empty_stats :: block_state_update_stats where
  "empty_stats = \<lparr>new_offer_count = 0, cancel_offer_count = 0, fully_clear_offer_count = 0,
     partial_clear_offer_count = 0, payment_count = 0, new_account_count = 0\<rparr>"

text \<open>\<^verbatim>\<open>operator+=\<close> of \<^verbatim>\<open>BlockStateUpdateStatsWrapper\<close> (\<^verbatim>\<open>stats/block_update_stats.h\<close>).\<close>

definition stats_add ::
  "block_state_update_stats \<Rightarrow> block_state_update_stats \<Rightarrow> block_state_update_stats" where
  "stats_add s t =
     \<lparr>new_offer_count = u32 (new_offer_count s + new_offer_count t),
      cancel_offer_count = u32 (cancel_offer_count s + cancel_offer_count t),
      fully_clear_offer_count = u32 (fully_clear_offer_count s + fully_clear_offer_count t),
      partial_clear_offer_count = u32 (partial_clear_offer_count s + partial_clear_offer_count t),
      payment_count = u32 (payment_count s + payment_count t),
      new_account_count = u32 (new_account_count s + new_account_count t)\<rparr>"

end
