(* ===== verification/Orderbook_Utils.thy ===== *)
theory Orderbook_Utils
  imports Xdr_Types
begin

text \<open>
  Model of \<^verbatim>\<open>orderbook/utils.h\<close> (the numbering of the orderbooks) and of the offer keys of
  \<^verbatim>\<open>orderbook/typedefs.h\<close>. The keys are written with \<^verbatim>\<open>utils::write_unsigned_big_endian\<close>
  of the utility submodule, which is the argument \<open>wr\<close> of \<open>generate_orderbook_trie_key\<close>.
  The lemmas: the numbering is a bijection between the valid categories and the indices below
  \<open>n * (n - 1)\<close>, and the byte order of keys is the order of (price, owner, id).
\<close>

section \<open>Numbering of orderbooks\<close>

definition i32 :: "int \<Rightarrow> int" where
  [wrap_defs]: "i32 x = (x + 2 ^ 31) mod 2 ^ 32 - 2 ^ 31"

lemma i32_id [simp]: "- (2 ^ 31) \<le> x \<Longrightarrow> x < 2 ^ 31 \<Longrightarrow> i32 x = x"
  by (simp add: i32_def)

definition map_type_to_int :: "offer_type \<Rightarrow> int result" where
  "map_type_to_int t = (case t of SELL \<Rightarrow> Inr 0 | _ \<Rightarrow> Inl (RuntimeError ''invalid offer type''))"

definition map_int_to_type :: "int \<Rightarrow> offer_type" where
  "map_int_to_type t = (if t = 0 then SELL else OTHER_TYPE (- 1))"

definition category_to_idx :: "offer_category \<Rightarrow> nat \<Rightarrow> int result" where
  "category_to_idx cid asset_count =
     (if sellAsset cid \<ge> asset_count \<or> buyAsset cid \<ge> asset_count
      then Inl (RuntimeError ''invalid asset number'')
      else (let units_per_order_type = i32 (int (u32 (asset_count * (asset_count - 1))));
                idx_in_order_type =
                  i32 (int (u32 (sellAsset cid * (asset_count - 1)
                       + (buyAsset cid - (if buyAsset cid > sellAsset cid then 1 else 0)))))
            in bind_result (map_type_to_int (cat_type cid))
                 (\<lambda>t. Inr (i32 (units_per_order_type * t + idx_in_order_type)))))"

text \<open>Integer division by zero (fewer than two assets) is undefined.\<close>

definition category_from_idx :: "nat \<Rightarrow> nat \<Rightarrow> offer_category option" where
  "category_from_idx idx asset_count =
     (let units_per_order_type = asset_count * (asset_count - 1)
      in if units_per_order_type = 0 then None
         else (let type = map_int_to_type (int (idx div units_per_order_type));
                   remainder = idx mod units_per_order_type;
                   sell_asset = remainder div (asset_count - 1);
                   buy_asset = remainder mod (asset_count - 1);
                   buy_asset' = (if buy_asset \<ge> sell_asset then buy_asset + 1 else buy_asset)
               in Some \<lparr>sellAsset = sell_asset, buyAsset = buy_asset', cat_type = type\<rparr>))"

definition validate_category :: "offer_category \<Rightarrow> nat \<Rightarrow> bool" where
  "validate_category cid asset_count =
     (if sellAsset cid = buyAsset cid then False
      else if sellAsset cid \<ge> asset_count \<or> buyAsset cid \<ge> asset_count then False
      else if cat_type cid \<noteq> SELL then False
      else True)"

definition get_num_orderbooks_by_asset_count :: "nat \<Rightarrow> nat" where
  "get_num_orderbooks_by_asset_count asset_count =
     u32 (NUM_OFFER_TYPES * (asset_count * (asset_count - 1)))"

section \<open>Offer keys\<close>

type_synonym offer_key = "nat list"

definition ORDERBOOK_KEY_LEN :: nat where "ORDERBOOK_KEY_LEN = 22"

definition generate_orderbook_trie_key ::
  "(offer_key \<Rightarrow> nat \<Rightarrow> nat \<Rightarrow> offer_key) \<Rightarrow> price \<Rightarrow> account_id \<Rightarrow> nat \<Rightarrow> offer_key \<Rightarrow> offer_key" where
  "generate_orderbook_trie_key wr min_price own offer_id buf =
     (let buf1 = write_price_big_endian buf min_price;
          buf2 = wr buf1 own PRICE_BYTES;
          buf3 = wr buf2 offer_id (PRICE_BYTES + 8)
      in buf3)"

definition offer_trie_key ::
  "(offer_key \<Rightarrow> nat \<Rightarrow> nat \<Rightarrow> offer_key) \<Rightarrow> offer \<Rightarrow> offer_key \<Rightarrow> offer_key" where
  "offer_trie_key wr off buf =
     generate_orderbook_trie_key wr (minPrice off) (owner off) (offerId off) buf"

text \<open>\<^verbatim>\<open>memcmp\<close> on two byte strings of the same length, as its sign.\<close>

fun memcmp :: "nat list \<Rightarrow> nat list \<Rightarrow> int" where
  "memcmp (a # as) (b # bs) = (if a < b then - 1 else if b < a then 1 else memcmp as bs)"
| "memcmp _ _ = 0"

text \<open>
  The documented behaviour of \<^verbatim>\<open>write_unsigned_big_endian\<close> on 64-bit values: it overwrites
  the eight bytes at the offset with the value, most significant byte first.
\<close>

definition writes_be8 :: "(offer_key \<Rightarrow> nat \<Rightarrow> nat \<Rightarrow> offer_key) \<Rightarrow> bool" where
  "writes_be8 wr \<longleftrightarrow>
     (\<forall>buf v off. off + 8 \<le> length buf \<longrightarrow>
        wr buf v off = take off buf @ be_bytes 8 v @ drop (off + 8) buf)"

definition be8_writer :: "offer_key \<Rightarrow> nat \<Rightarrow> nat \<Rightarrow> offer_key" where
  "be8_writer buf v off = take off buf @ be_bytes 8 v @ drop (off + 8) buf"

lemma writes_be8_be8_writer: "writes_be8 be8_writer"
  by (simp add: writes_be8_def be8_writer_def)

section \<open>The numbering is a bijection\<close>

lemma pair_index_less:
  fixes s b n :: nat
  assumes "s < n" and "b < n - 1"
  shows "s * (n - 1) + b < n * (n - 1)"
proof -
  have "s * (n - 1) + b < (s + 1) * (n - 1)" using assms by simp
  also have "\<dots> \<le> n * (n - 1)" using assms by (intro mult_le_mono1) simp
  finally show ?thesis .
qed

lemma div_mod_index:
  fixes s b m :: nat
  assumes "b < m"
  shows "(s * m + b) div m = s" and "(s * m + b) mod m = b"
  using assms by simp_all

lemma num_orderbooks_less:
  fixes n :: nat
  assumes "n \<le> 46340"
  shows "n * (n - 1) < 2 ^ 31"
proof -
  have "n * (n - 1) \<le> 46340 * 46340" using assms by (intro mult_le_mono) auto
  then show ?thesis by simp
qed

lemma num_orderbooks_eq:
  "n \<le> 46340 \<Longrightarrow> get_num_orderbooks_by_asset_count n = n * (n - 1)"
  using num_orderbooks_less [of n]
  by (simp add: get_num_orderbooks_by_asset_count_def NUM_OFFER_TYPES_def u32_def)

lemma i32_u32_id: "k < 2 ^ 31 \<Longrightarrow> i32 (i32 (int (u32 k))) = int k"
  by (simp add: u32_def)

lemma category_to_idx_valid:
  assumes n: "n \<le> 46340" and v: "validate_category c n"
  shows "category_to_idx c n =
    Inr (int (sellAsset c * (n - 1) + (buyAsset c - (if buyAsset c > sellAsset c then 1 else 0))))"
proof -
  let ?b = "buyAsset c - (if buyAsset c > sellAsset c then 1 else 0)"
  have s: "sellAsset c < n" "buyAsset c < n" "cat_type c = SELL" "sellAsset c \<noteq> buyAsset c"
    using v by (auto simp: validate_category_def split: if_splits)
  then have "?b < n - 1" by auto
  then have "sellAsset c * (n - 1) + ?b < n * (n - 1)" using s by (intro pair_index_less)
  then have "sellAsset c * (n - 1) + ?b < 2 ^ 31" using num_orderbooks_less [OF n] by linarith
  then have "i32 (i32 (int (u32 (sellAsset c * (n - 1) + ?b)))) = int (sellAsset c * (n - 1) + ?b)"
    by (rule i32_u32_id)
  then show ?thesis
    using s by (simp add: category_to_idx_def Let_def map_type_to_int_def)
qed

lemma category_from_idx_eq:
  assumes "idx < n * (n - 1)"
  shows "category_from_idx idx n =
    Some \<lparr>sellAsset = idx div (n - 1),
          buyAsset = (if idx mod (n - 1) \<ge> idx div (n - 1) then idx mod (n - 1) + 1 else idx mod (n - 1)),
          cat_type = SELL\<rparr>"
  using assms by (auto simp: category_from_idx_def Let_def map_int_to_type_def)

lemma category_index:
  assumes n: "n \<le> 46340" and v: "validate_category c n"
  shows "\<exists>i. category_to_idx c n = Inr (int i) \<and> i < get_num_orderbooks_by_asset_count n
      \<and> category_from_idx i n = Some c"
proof -
  let ?b = "buyAsset c - (if buyAsset c > sellAsset c then 1 else 0)"
  let ?i = "sellAsset c * (n - 1) + ?b"
  from v have s: "sellAsset c < n" "buyAsset c < n" "cat_type c = SELL" "sellAsset c \<noteq> buyAsset c"
    by (auto simp: validate_category_def split: if_splits)
  then have b: "?b < n - 1" by auto
  then have less: "?i < n * (n - 1)" using s by (intro pair_index_less)
  have dm: "?i div (n - 1) = sellAsset c" "?i mod (n - 1) = ?b"
    using div_mod_index [OF b] by blast+
  have "category_from_idx ?i n = Some c"
    unfolding category_from_idx_eq [OF less] dm using s by (cases c) auto
  then show ?thesis
    using category_to_idx_valid [OF n v] less num_orderbooks_eq [OF n] by metis
qed

lemma index_category:
  assumes n: "n \<le> 46340" and less: "i < get_num_orderbooks_by_asset_count n"
  shows "\<exists>d. category_from_idx i n = Some d \<and> validate_category d n
      \<and> category_to_idx d n = Inr (int i)"
proof -
  have i: "i < n * (n - 1)" using less num_orderbooks_eq [OF n] by simp
  then have n0: "0 < n - 1" by (cases "n - 1") auto
  let ?d = "\<lparr>sellAsset = i div (n - 1),
    buyAsset = (if i mod (n - 1) \<ge> i div (n - 1) then i mod (n - 1) + 1 else i mod (n - 1)),
    cat_type = SELL\<rparr>"
  have "i div (n - 1) < n" using i n0 by (simp add: less_mult_imp_div_less)
  moreover have "i mod (n - 1) < n - 1" using n0 by simp
  ultimately have v: "validate_category ?d n" by (auto simp: validate_category_def)
  have "category_to_idx ?d n = Inr (int (i div (n - 1) * (n - 1) + i mod (n - 1)))"
    unfolding category_to_idx_valid [OF n v] by auto
  then show ?thesis
    using category_from_idx_eq [OF i] v by (simp only: div_mult_mod_eq) blast
qed

section \<open>Key order\<close>

lemma memcmp_be_value:
  assumes "length xs = length ys" and "bytes xs" and "bytes ys"
  shows "(memcmp xs ys < 0 \<longleftrightarrow> be_value xs < be_value ys) \<and> (memcmp xs ys = 0 \<longleftrightarrow> xs = ys)"
  using assms
proof (induction xs ys rule: list_induct2)
  case Nil
  show ?case by simp
next
  case (Cons x xs y ys)
  then have IH: "memcmp xs ys < 0 \<longleftrightarrow> be_value xs < be_value ys" "memcmp xs ys = 0 \<longleftrightarrow> xs = ys"
    and less: "be_value xs < 256 ^ length ys" "be_value ys < 256 ^ length ys"
    using be_value_less [of xs] be_value_less [of ys] by (auto simp: bytes_def)
  have step: "a * 256 ^ length ys + be_value u < b * 256 ^ length ys + be_value v"
    if "a < b" and "be_value u < 256 ^ length ys" for a b u v
  proof -
    have "a * 256 ^ length ys + be_value u < (a + 1) * 256 ^ length ys" using that by simp
    also have "\<dots> \<le> b * 256 ^ length ys" using that by (intro mult_le_mono1) simp
    finally show ?thesis by simp
  qed
  show ?case
    using IH step [of x y xs ys] step [of y x ys xs] less Cons.hyps
    by (cases x y rule: linorder_cases) auto
qed

lemma generate_key_eq:
  assumes wr: "writes_be8 wr" and len: "length buf = ORDERBOOK_KEY_LEN"
  shows "generate_orderbook_trie_key wr p own i buf = be_bytes 6 p @ be_bytes 8 own @ be_bytes 8 i"
proof -
  have b1: "write_price_big_endian buf p = be_bytes 6 p @ drop 6 buf"
    using len by (intro write_price_eq) (simp add: ORDERBOOK_KEY_LEN_def)
  have b2: "wr (be_bytes 6 p @ drop 6 buf) own 6 = be_bytes 6 p @ be_bytes 8 own @ drop 14 buf"
    using wr len by (simp add: writes_be8_def ORDERBOOK_KEY_LEN_def)
  have b3: "wr (be_bytes 6 p @ be_bytes 8 own @ drop 14 buf) i 14
      = be_bytes 6 p @ be_bytes 8 own @ be_bytes 8 i"
    using wr len by (simp add: writes_be8_def ORDERBOOK_KEY_LEN_def)
  show ?thesis
    by (simp add: generate_orderbook_trie_key_def Let_def b1 b2 b3)
qed

lemma key_value:
  "be_value (be_bytes 6 p @ be_bytes 8 own @ be_bytes 8 i)
   = (p mod 2 ^ 48) * 2 ^ 128 + (own mod 2 ^ 64) * 2 ^ 64 + i mod 2 ^ 64"
  by (simp add: be_value_append be_value_be_bytes)

lemma lex3_less:
  fixes p q o1 o2 i j B :: nat
  assumes "o1 < B" "o2 < B" "i < B" "j < B"
  shows "p * B\<^sup>2 + o1 * B + i < q * B\<^sup>2 + o2 * B + j \<longleftrightarrow>
    p < q \<or> p = q \<and> (o1 < o2 \<or> o1 = o2 \<and> i < j)"
proof -
  have two: "a * B + x < b * B + y \<longleftrightarrow> a < b \<or> a = b \<and> x < y" if "x < B" "y < B" for a b x y :: nat
  proof (cases a b rule: linorder_cases)
    case less
    then have "a * B + x < (a + 1) * B" using that by simp
    also have "\<dots> \<le> b * B" using less by (intro mult_le_mono1) simp
    finally show ?thesis using less by simp
  next
    case equal
    then show ?thesis by simp
  next
    case greater
    then have "b * B + y < (b + 1) * B" using that by simp
    also have "\<dots> \<le> a * B" using greater by (intro mult_le_mono1) simp
    finally show ?thesis using greater by simp
  qed
  have "p * B\<^sup>2 + o1 * B + i = (p * B + o1) * B + i" "q * B\<^sup>2 + o2 * B + j = (q * B + o2) * B + j"
    by (simp_all add: power2_eq_square algebra_simps)
  moreover have "p * B + o1 = q * B + o2 \<longleftrightarrow> p = q \<and> o1 = o2"
    using two [of o1 o2 p q] two [of o2 o1 q p] assms
    by (metis nat_neq_iff)
  ultimately show ?thesis using assms by (auto simp: two)
qed

section \<open>Properties\<close>

text \<open>
  For up to 46340 assets the numbering of orderbooks is a bijection between the
  categories that pass validation and the indices of the orderbook vector:
  \<open>category_from_idx\<close> inverts \<open>category_to_idx\<close> on every valid category, and
  every index below the number of orderbooks is the index of the valid category it decodes to.
\<close>

theorem category_index_bijection:
  assumes n: "n \<le> 46340"
  shows "(validate_category c n \<longrightarrow>
      (\<exists>i. category_to_idx c n = Inr (int i) \<and> i < get_num_orderbooks_by_asset_count n
         \<and> category_from_idx i n = Some c))
    \<and> (i < get_num_orderbooks_by_asset_count n \<longrightarrow>
      (\<exists>d. category_from_idx i n = Some d \<and> validate_category d n
         \<and> category_to_idx d n = Inr (int i)))"
  using category_index [OF n] index_category [OF n] by blast

theorem category_index_bijection_witness:
  "(\<exists>i. category_to_idx \<lparr>sellAsset = 2, buyAsset = 0, cat_type = SELL\<rparr> 3 = Inr (int i)
       \<and> i < get_num_orderbooks_by_asset_count 3
       \<and> category_from_idx i 3 = Some \<lparr>sellAsset = 2, buyAsset = 0, cat_type = SELL\<rparr>)
    \<and> (\<exists>d. category_from_idx 5 3 = Some d \<and> validate_category d 3
       \<and> category_to_idx d 3 = Inr (int 5))"
proof -
  have "validate_category \<lparr>sellAsset = 2, buyAsset = 0, cat_type = SELL\<rparr> 3"
    by (simp add: validate_category_def)
  moreover have "5 < get_num_orderbooks_by_asset_count 3"
    by (simp add: num_orderbooks_eq)
  ultimately show ?thesis
    using category_index_bijection [of 3 "\<lparr>sellAsset = 2, buyAsset = 0, cat_type = SELL\<rparr>" 5]
    by simp
qed

text \<open>
  Byte-wise comparison of two offer keys orders the offers of a book by price, then
  by owner, then by offer id, and two keys are equal only for the same triple: the key order of
  the trie is the order in which offers clear.
\<close>

theorem offer_key_order:
  assumes "writes_be8 wr" and "length b1 = ORDERBOOK_KEY_LEN" and "length b2 = ORDERBOOK_KEY_LEN"
    and "p \<le> MAX_PRICE" "q \<le> MAX_PRICE" "o1 < 2 ^ 64" "o2 < 2 ^ 64" "i < 2 ^ 64" "j < 2 ^ 64"
  shows "(memcmp (generate_orderbook_trie_key wr p o1 i b1) (generate_orderbook_trie_key wr q o2 j b2) < 0
      \<longleftrightarrow> p < q \<or> p = q \<and> (o1 < o2 \<or> o1 = o2 \<and> i < j))
    \<and> (generate_orderbook_trie_key wr p o1 i b1 = generate_orderbook_trie_key wr q o2 j b2
      \<longleftrightarrow> p = q \<and> o1 = o2 \<and> i = j)"
proof -
  let ?k = "be_bytes 6 p @ be_bytes 8 o1 @ be_bytes 8 i"
  let ?l = "be_bytes 6 q @ be_bytes 8 o2 @ be_bytes 8 j"
  have keys: "generate_orderbook_trie_key wr p o1 i b1 = ?k" "generate_orderbook_trie_key wr q o2 j b2 = ?l"
    using assms by (simp_all only: generate_key_eq)
  have val: "be_value ?k = p * (2 ^ 64)\<^sup>2 + o1 * 2 ^ 64 + i" "be_value ?l = q * (2 ^ 64)\<^sup>2 + o2 * 2 ^ 64 + j"
    using assms unfolding key_value by (simp_all add: price_consts)
  have bts: "bytes ?k" "bytes ?l"
    using bytes_be_bytes by (auto simp: bytes_def simp del: be_bytes.simps)
  have less: "be_value ?k < be_value ?l \<longleftrightarrow> p < q \<or> p = q \<and> (o1 < o2 \<or> o1 = o2 \<and> i < j)"
    unfolding val using assms by (intro lex3_less) auto
  have "p = q \<and> o1 = o2 \<and> i = j" if eq: "be_value ?k = be_value ?l"
    using eq lex3_less [of o1 "2 ^ 64" o2 i j p q] lex3_less [of o2 "2 ^ 64" o1 j i q p] assms
    unfolding val by (metis less_irrefl linorder_neqE_nat)
  then have "?k = ?l \<longleftrightarrow> p = q \<and> o1 = o2 \<and> i = j" by metis
  moreover have "memcmp ?k ?l < 0 \<longleftrightarrow> be_value ?k < be_value ?l"
    using memcmp_be_value [of ?k ?l] bts by (simp del: be_bytes.simps)
  ultimately show ?thesis unfolding keys less by simp
qed

theorem offer_key_order_witness:
  "(memcmp (generate_orderbook_trie_key be8_writer 300 2 7 (replicate 22 0))
        (generate_orderbook_trie_key be8_writer 300 3 1 (replicate 22 0)) < 0
      \<longleftrightarrow> (300::nat) < 300 \<or> (300::nat) = 300 \<and> ((2::nat) < 3 \<or> (2::nat) = 3 \<and> (7::nat) < 1))
    \<and> (generate_orderbook_trie_key be8_writer 300 2 7 (replicate 22 0)
        = generate_orderbook_trie_key be8_writer 300 3 1 (replicate 22 0)
      \<longleftrightarrow> (300::nat) = 300 \<and> (2::nat) = 3 \<and> (7::nat) = 1)"
  by (rule offer_key_order [OF writes_be8_be8_writer])
    (simp_all add: ORDERBOOK_KEY_LEN_def price_consts)

end
