(* ===== verification/Fixed_Point.thy ===== *)
theory Fixed_Point
  imports Price_Utils
begin

unbundle bit_operations_syntax

text \<open>
  Model of \<^verbatim>\<open>utils/fixed_point_value.h\<close>: unsigned fixed-point values over a 128-bit integer.
  A \<^verbatim>\<open>FixedPrecision<radix, uint128>\<close> is its raw value; \<^verbatim>\<open>FractionalAsset\<close> has radix 10.
  The tax functions shift by an 8-bit rate; a rate of 128 or more is an undefined shift.
  The lemmas show that taxing and rounding is superadditive, the fact on which the solvency of a
  clearing rests.
\<close>

section \<open>Definitions\<close>

type_synonym fractional_asset = nat

definition FRACTIONAL_RADIX :: nat where "FRACTIONAL_RADIX = 10"

definition get_lowbits_mask :: "nat \<Rightarrow> nat option" where
  "get_lowbits_mask query_radix = (if query_radix < 128 then Some (2 ^ query_radix - 1) else None)"

definition fp_from_raw :: "nat \<Rightarrow> nat" where
  "fp_from_raw v = u128 v"

definition fp_from_integral :: "nat \<Rightarrow> nat \<Rightarrow> nat" where
  "fp_from_integral radix v = u128 (v * 2 ^ radix)"

definition fp_add :: "nat \<Rightarrow> nat \<Rightarrow> nat \<Rightarrow> nat \<Rightarrow> nat" where
  "fp_add radix other_radix v other = u128 (v + u128 (other * 2 ^ (radix - other_radix)))"

definition fp_sub :: "nat \<Rightarrow> nat \<Rightarrow> nat \<Rightarrow> nat \<Rightarrow> nat" where
  "fp_sub radix other_radix v other = sub128 v (u128 (other * 2 ^ (radix - other_radix)))"

definition fp_mult :: "nat \<Rightarrow> nat \<Rightarrow> nat" where
  "fp_mult v other = u128 (v * other)"

definition fp_floor :: "nat \<Rightarrow> nat \<Rightarrow> nat" where
  "fp_floor radix v = v div 2 ^ radix"

definition fp_ceil :: "nat \<Rightarrow> nat \<Rightarrow> nat" where
  "fp_ceil radix v = u128 (fp_floor radix v + (if v AND (2 ^ radix - 1) \<noteq> 0 then 1 else 0))"

definition tax_amount :: "nat \<Rightarrow> nat \<Rightarrow> nat option" where
  "tax_amount v tax_rate =
     (case get_lowbits_mask tax_rate of
        None \<Rightarrow> None
      | Some tax_lowbits_mask \<Rightarrow>
          (let t = v div 2 ^ tax_rate
           in Some (if v AND tax_lowbits_mask \<noteq> 0 then u128 (t + 1) else t)))"

definition fp_tax_and_round :: "nat \<Rightarrow> nat \<Rightarrow> nat \<Rightarrow> nat option" where
  "fp_tax_and_round radix v tax_rate =
     (case tax_amount v tax_rate of
        None \<Rightarrow> None
      | Some t \<Rightarrow> Some (sub128 v t div 2 ^ radix))"

definition fp_tax :: "nat \<Rightarrow> nat \<Rightarrow> nat option" where
  "fp_tax v tax_rate =
     (case tax_amount v tax_rate of None \<Rightarrow> None | Some t \<Rightarrow> Some (fp_from_raw (sub128 v t)))"

abbreviation fa_from_integral :: "nat \<Rightarrow> fractional_asset" where
  "fa_from_integral \<equiv> fp_from_integral FRACTIONAL_RADIX"

abbreviation fa_add :: "fractional_asset \<Rightarrow> fractional_asset \<Rightarrow> fractional_asset" where
  "fa_add \<equiv> fp_add FRACTIONAL_RADIX FRACTIONAL_RADIX"

abbreviation fa_sub :: "fractional_asset \<Rightarrow> fractional_asset \<Rightarrow> fractional_asset" where
  "fa_sub \<equiv> fp_sub FRACTIONAL_RADIX FRACTIONAL_RADIX"

abbreviation fa_floor :: "fractional_asset \<Rightarrow> nat" where
  "fa_floor \<equiv> fp_floor FRACTIONAL_RADIX"

abbreviation fa_ceil :: "fractional_asset \<Rightarrow> nat" where
  "fa_ceil \<equiv> fp_ceil FRACTIONAL_RADIX"

abbreviation fa_tax_and_round :: "fractional_asset \<Rightarrow> nat \<Rightarrow> nat option" where
  "fa_tax_and_round \<equiv> fp_tax_and_round FRACTIONAL_RADIX"

section \<open>Rounding up\<close>

lemma and_lowbits [simp]: "v AND (2 ^ n - Suc 0) = v mod 2 ^ n" for v :: nat
  by (metis One_nat_def mask_eq_exp_minus_1 take_bit_eq_mask take_bit_eq_mod)

definition cdiv :: "nat \<Rightarrow> nat \<Rightarrow> nat" where
  "cdiv v n = v div n + (if v mod n \<noteq> 0 then 1 else 0)"

lemma cdiv_le: "n \<noteq> 0 \<Longrightarrow> cdiv v n \<le> k \<longleftrightarrow> v \<le> k * n"
proof -
  assume n: "n \<noteq> 0"
  have v: "v = v div n * n + v mod n" by simp
  show ?thesis
  proof (cases "v mod n = 0")
    case True
    then have v: "v = v div n * n" using v by simp
    have "v div n \<le> k \<longleftrightarrow> v div n * n \<le> k * n" using n by simp
    with True show ?thesis using v by (simp add: cdiv_def)
  next
    case False
    have "v div n < k \<longleftrightarrow> v < k * n" using n by (simp add: less_mult_imp_div_less div_less_iff_less_mult)
    moreover have "v \<noteq> k * n" using False by auto
    ultimately show ?thesis using False by (auto simp: cdiv_def)
  qed
qed

lemma cdiv_mult_ge: "n \<noteq> 0 \<Longrightarrow> v \<le> cdiv v n * n"
  using cdiv_le [of n v "cdiv v n"] by simp

lemma cdiv_add_le: "n \<noteq> 0 \<Longrightarrow> cdiv (v + w) n \<le> cdiv v n + cdiv w n"
  using cdiv_mult_ge [of n v] cdiv_mult_ge [of n w] by (simp add: cdiv_le distrib_right)

lemma cdiv_le_self: "n \<noteq> 0 \<Longrightarrow> cdiv v n \<le> v"
  by (simp add: cdiv_le)

lemma cdiv_mult_add: "n \<noteq> 0 \<Longrightarrow> cdiv (k * n + r) n = k + cdiv r n"
  by (simp add: cdiv_def)

lemma cdiv_power_less:
  fixes v :: nat
  assumes "v < 2 ^ 128"
  shows "cdiv v (2 ^ r) < 2 ^ 128"
  using assms cdiv_le_self [of "2 ^ r" v] by simp

section \<open>The value left after tax\<close>

definition net :: "nat \<Rightarrow> nat \<Rightarrow> nat" where
  "net t v = v - cdiv v (2 ^ t)"

definition payout :: "nat \<Rightarrow> nat \<Rightarrow> nat" where
  "payout t v = net t v div 2 ^ FRACTIONAL_RADIX"

lemma fp_ceil_eq: "v < 2 ^ 128 \<Longrightarrow> fp_ceil radix v = cdiv v (2 ^ radix)"
  using cdiv_power_less [of v radix] by (simp add: fp_ceil_def fp_floor_def cdiv_def split: if_splits)

lemma tax_amount_eq:
  assumes "v < 2 ^ 128" and "t < 128"
  shows "tax_amount v t = Some (cdiv v (2 ^ t))"
  using assms cdiv_power_less [of v t]
  by (auto simp: tax_amount_def get_lowbits_mask_def cdiv_def Let_def)

lemma tax_and_round_eq:
  assumes "v < 2 ^ 128" and "t < 128"
  shows "fp_tax_and_round radix v t = Some (net t v div 2 ^ radix)"
  using assms cdiv_le_self [of "2 ^ t" v]
  by (simp add: fp_tax_and_round_def tax_amount_eq net_def sub128_id)

lemma fa_tax_and_round_eq:
  "v < 2 ^ 128 \<Longrightarrow> t < 128 \<Longrightarrow> fa_tax_and_round v t = Some (payout t v)"
  by (simp add: tax_and_round_eq payout_def)

lemma net_add: "net t v + net t w \<le> net t (v + w)"
  using cdiv_add_le [of "2 ^ t" v w] cdiv_le_self [of "2 ^ t" v] cdiv_le_self [of "2 ^ t" w]
  by (simp add: net_def)

lemma net_mono: "v \<le> w \<Longrightarrow> net t v \<le> net t w"
  using net_add [of t v "w - v"] by simp

lemma net_le: "net t v \<le> v"
  by (simp add: net_def)

lemma payout_add: "payout t v + payout t w \<le> payout t (v + w)"
proof -
  have "payout t v + payout t w \<le> (net t v + net t w) div 2 ^ FRACTIONAL_RADIX"
    unfolding payout_def by (rule sum_div_le)
  also have "\<dots> \<le> payout t (v + w)"
    unfolding payout_def by (intro div_le_mono net_add)
  finally show ?thesis .
qed

lemma payout_mono: "v \<le> w \<Longrightarrow> payout t v \<le> payout t w"
  unfolding payout_def by (intro div_le_mono net_mono)

lemma payout_0 [simp]: "payout t 0 = 0"
  by (simp add: payout_def net_def)

lemma payout_sum_list: "sum_list (map (payout t) vs) \<le> payout t (sum_list vs)"
proof (induction vs)
  case Nil
  show ?case by simp
next
  case (Cons v vs)
  then have "payout t v + sum_list (map (payout t) vs) \<le> payout t v + payout t (sum_list vs)" by simp
  also have "\<dots> \<le> payout t (v + sum_list vs)" by (rule payout_add)
  finally show ?case by simp
qed

section \<open>Exact values of the operations inside the range\<close>

lemma fa_add_eq: "v + w < 2 ^ 128 \<Longrightarrow> fa_add v w = v + w"
  by (simp add: fp_add_def)

lemma fa_sub_eq: "w \<le> v \<Longrightarrow> v < 2 ^ 128 \<Longrightarrow> fa_sub v w = v - w"
  by (simp add: fp_sub_def sub128_id)

lemma fa_from_integral_eq: "v * 1024 < 2 ^ 128 \<Longrightarrow> fa_from_integral v = v * 1024"
  by (simp add: fp_from_integral_def FRACTIONAL_RADIX_def)

lemma fa_add_0 [simp]: "v < 2 ^ 128 \<Longrightarrow> fa_add v 0 = v" "v < 2 ^ 128 \<Longrightarrow> fa_add 0 v = v"
  by (simp_all add: fp_add_def)

lemma fa_add_less [bounds, simp]: "fa_add v w < 2 ^ 128"
  by (simp add: fp_add_def)

lemma fa_add_le: "fa_add v w \<le> v + w"
  unfolding fp_add_def by (metis add_left_mono diff_self_eq_0 mult.right_neutral order_trans power_0 u128_le)

lemma fa_from_integral_le: "fa_from_integral v \<le> v * 1024"
  unfolding fp_from_integral_def FRACTIONAL_RADIX_def by (rule order_trans [OF u128_le]) simp

section \<open>Properties\<close>

text \<open>
  Property C29. Taxing and rounding the shares of a split amount one by one never pays out more
  than taxing and rounding the whole amount: whatever way an amount is split among recipients,
  the sum of the payouts is at most the payout of the sum, which is at most the amount itself.
\<close>

theorem tax_and_round_split:
  assumes "sum_list vs < 2 ^ 128" and "t < 128"
  shows "\<exists>total. fa_tax_and_round (sum_list vs) t = Some total
    \<and> total * 2 ^ FRACTIONAL_RADIX \<le> sum_list vs
    \<and> (\<exists>ps. map (\<lambda>v. fa_tax_and_round v t) vs = map Some ps \<and> sum_list ps \<le> total)"
proof -
  have "v < 2 ^ 128" if "v \<in> set vs" for v
    using member_le_sum_list [OF that] assms(1) by linarith
  then have "map (\<lambda>v. fa_tax_and_round v t) vs = map Some (map (payout t) vs)"
    using assms(2) by (simp add: fa_tax_and_round_eq)
  moreover have "payout t (sum_list vs) * 2 ^ FRACTIONAL_RADIX \<le> sum_list vs"
    using net_le [of t "sum_list vs"] unfolding payout_def
    by (metis div_times_less_eq_dividend order_trans)
  ultimately show ?thesis
    using assms payout_sum_list [of t vs] by (auto simp: fa_tax_and_round_eq intro!: exI)
qed

theorem tax_and_round_split_witness:
  "\<exists>total. fa_tax_and_round (sum_list [5000, 7000]) 4 = Some total
    \<and> total * 2 ^ FRACTIONAL_RADIX \<le> sum_list [5000, 7000]
    \<and> (\<exists>ps. map (\<lambda>v. fa_tax_and_round v 4) [5000, 7000] = map Some ps \<and> sum_list ps \<le> total)"
  by (rule tax_and_round_split) simp_all

end
