(* ===== verification/Offer_Clearing.thy ===== *)
theory Offer_Clearing
  imports Orderbook_Utils Fixed_Point "HOL-Library.Multiset"
begin

text \<open>
  Model of the arithmetic of a batch clearing: \<^verbatim>\<open>orderbook/offer_clearing_logic.h\<close> (what one
  offer receives), \<^verbatim>\<open>orderbook/offer_clearing_params.{h,cc}\<close> (the producer's check that a
  clearing balances) and \<^verbatim>\<open>orderbook/commitment_checker.{h,cc}\<close> (the validator's checks of the
  clearing a block header declares). A database is the argument \<open>transfer\<close>, the template parameter
  of the code; the big-endian reader of the utility submodule is the argument \<open>rd\<close>.
  The main result is solvency: a clearing that passes the check pays out, asset by asset, no more
  than the offers it clears give up.
\<close>

section \<open>Clearing one offer\<close>

type_synonym ('p, 'db) transfer = "'p \<Rightarrow> asset_id \<Rightarrow> int \<Rightarrow> 'db \<Rightarrow> 'db"

text \<open>The taxed integral amount of the bought asset for a fractional amount sold.\<close>

definition taxed_buy_amount :: "nat \<Rightarrow> price \<Rightarrow> price \<Rightarrow> nat \<Rightarrow> nat option" where
  "taxed_buy_amount sold sellPrice buyPrice tax_rate =
     do {
       r \<leftarrow> wide_multiply_val_by_a_over_b sold sellPrice buyPrice;
       fa_tax_and_round (fp_from_raw r) tax_rate
     }"

definition clear_offer_full ::
  "('p, 'db) transfer \<Rightarrow> offer \<Rightarrow> price \<Rightarrow> price \<Rightarrow> nat \<Rightarrow> 'p \<Rightarrow> 'db \<Rightarrow> 'db option" where
  "clear_offer_full transfer off sellPrice buyPrice tax_rate db_idx db =
     do {
       let amt = fa_from_integral (amount off);
       bought \<leftarrow> taxed_buy_amount amt sellPrice buyPrice tax_rate;
       Some (transfer db_idx (buyAsset (category off)) (i64 (int bought)) db)
     }"

text \<open>The result is the database, \<^verbatim>\<open>out_sell_amount\<close> and \<^verbatim>\<open>out_buy_amount\<close>.\<close>

definition clear_offer_partial ::
  "('p, 'db) transfer \<Rightarrow> offer \<Rightarrow> price \<Rightarrow> price \<Rightarrow> nat \<Rightarrow> fractional_asset \<Rightarrow> 'p \<Rightarrow> 'db
     \<Rightarrow> ('db \<times> int \<times> int) option" where
  "clear_offer_partial transfer off sellPrice buyPrice tax_rate remaining_to_clear db_idx db =
     do {
       bought \<leftarrow> taxed_buy_amount remaining_to_clear sellPrice buyPrice tax_rate;
       let out_buy_amount = i64 (int bought);
       let out_sell_amount = i64 (int (fa_ceil remaining_to_clear));
       Some (transfer db_idx (buyAsset (category off)) out_buy_amount db, out_sell_amount, out_buy_amount)
     }"

section \<open>The clearing check of the producer\<close>

record clearing_params =
  tax_rate :: nat
  supply_activated :: "fractional_asset list"

definition get_null_clearing :: "nat \<Rightarrow> nat \<Rightarrow> clearing_params" where
  "get_null_clearing tax num_orderbooks =
     \<lparr>tax_rate = tax, supply_activated = replicate num_orderbooks 0\<rparr>"

text \<open>
  The first loop of both \<^verbatim>\<open>check_clearing\<close> functions, from orderbook \<open>i\<close> on, with the
  activated supplies of the remaining orderbooks and the accumulated supplies and demands.
\<close>

fun clearing_loop ::
  "price list \<Rightarrow> nat \<Rightarrow> fractional_asset list \<Rightarrow> fractional_asset list \<Rightarrow> fractional_asset list
     \<Rightarrow> (fractional_asset list \<times> fractional_asset list) option" where
  "clearing_loop prices i [] supplies demands = Some (supplies, demands)"
| "clearing_loop prices i (s # ss) supplies demands =
     do {
       c \<leftarrow> category_from_idx i (length prices);
       let supplies' = upd_at supplies (sellAsset c) (\<lambda>v. fa_add v (fa_from_integral (fa_ceil s)));
       demanded \<leftarrow> wide_multiply_val_by_a_over_b s (prices ! sellAsset c) (prices ! buyAsset c);
       let demands' = upd_at demands (buyAsset c) (\<lambda>v. fa_add v (fp_from_raw demanded));
       clearing_loop prices (Suc i) ss supplies' demands'
     }"

text \<open>The second loop: every supply covers the taxed demand.\<close>

fun covers_loop :: "nat \<Rightarrow> fractional_asset list \<Rightarrow> fractional_asset list \<Rightarrow> bool option" where
  "covers_loop tax (s # supplies) (d # demands) =
     do {
       t \<leftarrow> fa_tax_and_round d tax;
       if s < fa_from_integral t then Some False else covers_loop tax supplies demands
     }"
| "covers_loop tax _ _ = Some True"

definition clears :: "nat \<Rightarrow> price list \<Rightarrow> fractional_asset list \<Rightarrow> bool option" where
  "clears tax prices ss =
     do {
       (supplies, demands) \<leftarrow>
         clearing_loop prices 0 ss (replicate (length prices) 0) (replicate (length prices) 0);
       covers_loop tax supplies demands
     }"

definition cp_check_clearing :: "price list \<Rightarrow> clearing_params \<Rightarrow> bool option" where
  "cp_check_clearing prices cp = clears (tax_rate cp) prices (supply_activated cp)"

section \<open>The checks of the validator\<close>

record single_validation_statistics =
  activated_supply :: fractional_asset

definition svs_empty :: single_validation_statistics where
  "svs_empty = \<lparr>activated_supply = 0\<rparr>"

definition svs_add ::
  "single_validation_statistics \<Rightarrow> single_validation_statistics \<Rightarrow> single_validation_statistics" where
  "svs_add s other = s\<lparr>activated_supply := fa_add (activated_supply s) (activated_supply other)\<rparr>"

type_synonym validation_statistics = "single_validation_statistics list"

definition vs_resize :: "nat \<Rightarrow> validation_statistics \<Rightarrow> validation_statistics" where
  "vs_resize sz stats = take sz stats @ replicate (sz - length stats) svs_empty"

fun vs_add_loop :: "nat \<Rightarrow> validation_statistics \<Rightarrow> validation_statistics \<Rightarrow> validation_statistics" where
  "vs_add_loop i [] stats = stats"
| "vs_add_loop i (t # other) stats = vs_add_loop (Suc i) other (upd_at stats i (\<lambda>s. svs_add s t))"

definition vs_add :: "validation_statistics \<Rightarrow> validation_statistics \<Rightarrow> validation_statistics" where
  "vs_add stats other =
     vs_add_loop 0 other (if length stats < length other then vs_resize (length other) stats else stats)"

definition make_minimum_size :: "nat \<Rightarrow> validation_statistics \<Rightarrow> validation_statistics" where
  "make_minimum_size sz stats = (if length stats \<le> sz then vs_resize (sz + 1) stats else stats)"

record 'h single_orderbook_state_commitment =
  rootHash :: 'h
  fractionalSupplyActivated_bytes :: "nat list"
  partialExecThresholdKey :: offer_key
  thresholdKeyIsNull :: int
  partialExecOfferActivationAmount_bytes :: "nat list"

definition fractionalSupplyActivated ::
  "(nat list \<Rightarrow> nat) \<Rightarrow> 'h single_orderbook_state_commitment \<Rightarrow> fractional_asset" where
  "fractionalSupplyActivated rd c = fp_from_raw (rd (fractionalSupplyActivated_bytes c))"

definition partialExecOfferActivationAmount ::
  "(nat list \<Rightarrow> nat) \<Rightarrow> 'h single_orderbook_state_commitment \<Rightarrow> fractional_asset" where
  "partialExecOfferActivationAmount rd c = fp_from_raw (rd (partialExecOfferActivationAmount_bytes c))"

definition check_threshold_key :: "'h single_orderbook_state_commitment \<Rightarrow> bool" where
  "check_threshold_key c =
     (if memcmp (replicate ORDERBOOK_KEY_LEN 0) (partialExecThresholdKey c) \<noteq> 0
      then thresholdKeyIsNull c = 0
      else thresholdKeyIsNull c = 1)"

record 'h commitment_checker =
  commitments :: "'h single_orderbook_state_commitment list"
  ck_prices :: "price list"
  ck_tax_rate :: nat

definition ck_check_clearing :: "(nat list \<Rightarrow> nat) \<Rightarrow> 'h commitment_checker \<Rightarrow> bool option" where
  "ck_check_clearing rd ck =
     clears (ck_tax_rate ck) (ck_prices ck) (map (fractionalSupplyActivated rd) (commitments ck))"

fun check_stats_loop ::
  "(nat list \<Rightarrow> nat) \<Rightarrow> nat \<Rightarrow> 'h single_orderbook_state_commitment list \<Rightarrow> validation_statistics
     \<Rightarrow> bool result" where
  "check_stats_loop rd i [] stats = Inr True"
| "check_stats_loop rd i (c # cs) stats =
     bind_result (vec_at stats i) (\<lambda>s.
       if fa_add (activated_supply s) (partialExecOfferActivationAmount rd c) \<noteq> fractionalSupplyActivated rd c
       then Inr False
       else if \<not> check_threshold_key c then Inr False
       else check_stats_loop rd (Suc i) cs stats)"

definition check_stats ::
  "(nat list \<Rightarrow> nat) \<Rightarrow> 'h commitment_checker \<Rightarrow> validation_statistics \<Rightarrow> validation_statistics \<times> bool result" where
  "check_stats rd ck stats =
     (let stats' = make_minimum_size (length (commitments ck)) stats
      in (stats', check_stats_loop rd 0 (commitments ck) stats'))"

section \<open>What the check establishes\<close>

definition book_sells :: "nat \<Rightarrow> nat \<Rightarrow> asset_id" where
  "book_sells n i = (case category_from_idx i n of None \<Rightarrow> 0 | Some c \<Rightarrow> sellAsset c)"

definition book_buys :: "nat \<Rightarrow> nat \<Rightarrow> asset_id" where
  "book_buys n i = (case category_from_idx i n of None \<Rightarrow> 0 | Some c \<Rightarrow> buyAsset c)"

text \<open>The exact value an amount sold on book \<open>i\<close> buys.\<close>

definition exact_demand :: "price list \<Rightarrow> nat \<Rightarrow> nat \<Rightarrow> nat" where
  "exact_demand prices i s =
     s * prices ! book_sells (length prices) i div prices ! book_buys (length prices) i"

definition valid_prices :: "price list \<Rightarrow> bool" where
  "valid_prices prices \<longleftrightarrow> list_all is_valid_price prices"

lemma category_from_idx_range:
  assumes "category_from_idx i n = Some c"
  shows "sellAsset c < n" and "buyAsset c < n"
proof -
  have nz: "n * (n - 1) \<noteq> 0" using assms by (auto simp: category_from_idx_def Let_def split: if_splits)
  then have n: "0 < n - 1" by auto
  let ?r = "i mod (n * (n - 1))"
  have r: "?r < n * (n - 1)" using nz by simp
  have c: "sellAsset c = ?r div (n - 1)" "buyAsset c \<le> ?r mod (n - 1) + 1"
    using assms nz by (auto simp: category_from_idx_def Let_def split: if_splits)
  show "sellAsset c < n" using c(1) r by (simp add: less_mult_imp_div_less)
  have "?r mod (n - 1) < n - 1" using n by simp
  then show "buyAsset c < n" using c(2) by linarith
qed

lemma category_from_idx_some: "2 \<le> n \<Longrightarrow> \<exists>c. category_from_idx i n = Some c"
  by (auto simp: category_from_idx_def Let_def)

lemma valid_prices_nth:
  "valid_prices prices \<Longrightarrow> a < length prices \<Longrightarrow> prices ! a \<noteq> 0 \<and> prices ! a < 2 ^ 48"
  by (auto simp: valid_prices_def list_all_length is_valid_price_def price_consts)

lemma sum_Cons_shift:
  "(\<Sum>j < length (x # xs). f (i + j) ((x # xs) ! j)) = f i x + (\<Sum>j < length xs. f (Suc i + j) (xs ! j))"
  for f :: "nat \<Rightarrow> 'a \<Rightarrow> nat"
  by (simp only: list.size sum.lessThan_Suc_shift add_Suc_right add_Suc nth_Cons_Suc nth_Cons_0 add_0_right)

lemma clearing_loop_supplies:
  assumes "clearing_loop prices i ss sp dem = Some (sp', dem')"
    and "length sp = length prices" and "length dem = length prices" and "\<forall>s \<in> set ss. s < 2 ^ 128"
  shows "length sp' = length prices \<and> length dem' = length prices
    \<and> (\<forall>a < length prices. sp' ! a \<le> sp ! a
         + 1024 * (\<Sum>j < length ss. if book_sells (length prices) (i + j) = a then cdiv (ss ! j) 1024 else 0))"
  using assms
proof (induction ss arbitrary: i sp dem)
  case Nil
  then show ?case by simp
next
  case (Cons s ss)
  let ?n = "length prices"
  from Cons.prems(1) obtain c d where c: "category_from_idx i ?n = Some c"
    and d: "wide_multiply_val_by_a_over_b s (prices ! sellAsset c) (prices ! buyAsset c) = Some d"
    and rest: "clearing_loop prices (Suc i) ss
      (upd_at sp (sellAsset c) (\<lambda>v. fa_add v (fa_from_integral (fa_ceil s))))
      (upd_at dem (buyAsset c) (\<lambda>v. fa_add v (fp_from_raw d))) = Some (sp', dem')"
    by (auto simp: Let_def split: Option.bind_splits)
  have sell: "book_sells ?n i = sellAsset c" using c by (simp add: book_sells_def)
  define sp1 where "sp1 = upd_at sp (sellAsset c) (\<lambda>v. fa_add v (fa_from_integral (fa_ceil s)))"
  let ?f = "\<lambda>i ss a. (\<Sum>j < length ss. if book_sells ?n (i + j) = a then cdiv (ss ! j) 1024 else 0)"
  have IH: "length sp' = ?n \<and> length dem' = ?n \<and> (\<forall>a < ?n. sp' ! a \<le> sp1 ! a + 1024 * ?f (Suc i) ss a)"
    using Cons.prems(2,3,4) unfolding sp1_def by (intro Cons.IH [OF rest]) simp_all
  have "fa_add v (fa_from_integral (fa_ceil s)) \<le> v + 1024 * cdiv s 1024" for v
  proof -
    have "fa_ceil s = cdiv s 1024" using Cons.prems(4) by (simp add: fp_ceil_eq FRACTIONAL_RADIX_def)
    then have "fa_from_integral (fa_ceil s) \<le> 1024 * cdiv s 1024"
      using fa_from_integral_le [of "fa_ceil s"] by simp
    then show ?thesis using fa_add_le [of v "fa_from_integral (fa_ceil s)"] by linarith
  qed
  then have step: "sp1 ! a \<le> sp ! a + 1024 * (if book_sells ?n i = a then cdiv s 1024 else 0)" if "a < ?n" for a
    using that Cons.prems(2) by (simp add: upd_at_nth sell sp1_def)
  have sum: "?f i (s # ss) a = (if book_sells ?n i = a then cdiv s 1024 else 0) + ?f (Suc i) ss a" for a
    by (rule sum_Cons_shift [of "\<lambda>k v. if book_sells ?n k = a then cdiv v 1024 else 0"])
  have "sp' ! a \<le> sp ! a + 1024 * ?f i (s # ss) a" if "a < ?n" for a
  proof -
    have "sp' ! a \<le> sp1 ! a + 1024 * ?f (Suc i) ss a" using IH that by blast
    then show ?thesis using step [OF that] unfolding sum distrib_left by linarith
  qed
  then show ?case using IH by blast
qed

lemma exact_demand_category:
  "category_from_idx i (length prices) = Some c \<Longrightarrow>
   exact_demand prices i s = s * prices ! sellAsset c div prices ! buyAsset c"
  by (simp add: exact_demand_def book_sells_def book_buys_def)

lemma wide_multiply_exact_demand:
  assumes "valid_prices prices" and "category_from_idx i (length prices) = Some c"
    and "exact_demand prices i s < 2 ^ 128"
  shows "wide_multiply_val_by_a_over_b s (prices ! sellAsset c) (prices ! buyAsset c)
    = Some (exact_demand prices i s)"
proof -
  have "prices ! sellAsset c < 2 ^ 64" "prices ! buyAsset c < 2 ^ 64" "prices ! buyAsset c \<noteq> 0"
    using valid_prices_nth [OF assms(1)] category_from_idx_range [OF assms(2)] by fastforce+
  then show ?thesis
    using assms(3) unfolding exact_demand_category [OF assms(2)] by (intro wide_multiply_eq)
qed

lemma clearing_loop_demands:
  assumes "valid_prices prices" and "2 \<le> length prices" and "length dem = length prices"
    and "\<And>a. a < length prices \<Longrightarrow> dem ! a
      + (\<Sum>j < length ss. if book_buys (length prices) (i + j) = a then exact_demand prices (i + j) (ss ! j) else 0)
      < 2 ^ 128"
  shows "\<exists>sp' dem'. clearing_loop prices i ss sp dem = Some (sp', dem')
    \<and> (\<forall>a < length prices. dem' ! a = dem ! a
         + (\<Sum>j < length ss. if book_buys (length prices) (i + j) = a then exact_demand prices (i + j) (ss ! j) else 0))"
  using assms(3,4)
proof (induction ss arbitrary: i sp dem)
  case Nil
  then show ?case by simp
next
  case (Cons s ss)
  let ?n = "length prices"
  let ?d = "exact_demand prices i s"
  let ?f = "\<lambda>i ss a. (\<Sum>j < length ss. if book_buys ?n (i + j) = a then exact_demand prices (i + j) (ss ! j) else 0)"
  obtain c where c: "category_from_idx i ?n = Some c" using category_from_idx_some [OF assms(2)] by blast
  have buy: "book_buys ?n i = buyAsset c" using c by (simp add: book_buys_def)
  have b: "buyAsset c < ?n" using category_from_idx_range [OF c] by simp
  have sum: "?f i (s # ss) a = (if buyAsset c = a then ?d else 0) + ?f (Suc i) ss a" for a
    using sum_Cons_shift [of "\<lambda>k v. if book_buys ?n k = a then exact_demand prices k v else 0" i s ss]
    unfolding buy .
  have bound: "dem ! a + ((if buyAsset c = a then ?d else 0) + ?f (Suc i) ss a) < 2 ^ 128" if "a < ?n" for a
    using Cons.prems(2) [OF that] unfolding sum .
  have small: "dem ! buyAsset c + ?d < 2 ^ 128" using bound [OF b] by simp
  define dem1 where "dem1 = upd_at dem (buyAsset c) (\<lambda>v. fa_add v (fp_from_raw ?d))"
  have len: "length dem1 = ?n" using Cons.prems(1) by (simp add: dem1_def)
  have dem1: "dem1 ! a = dem ! a + (if buyAsset c = a then ?d else 0)" if "a < ?n" for a
    using that Cons.prems(1) small fa_add_eq [OF small]
    by (auto simp: dem1_def upd_at_nth fp_from_raw_def)
  define sp1 where "sp1 = upd_at sp (sellAsset c) (\<lambda>v. fa_add v (fa_from_integral (fa_ceil s)))"
  have step: "clearing_loop prices i (s # ss) sp dem = clearing_loop prices (Suc i) ss sp1 dem1"
    using c wide_multiply_exact_demand [OF assms(1) c] small by (simp add: Let_def dem1_def sp1_def)
  have "\<exists>sp' dem'. clearing_loop prices (Suc i) ss sp1 dem1 = Some (sp', dem')
    \<and> (\<forall>a < ?n. dem' ! a = dem1 ! a + ?f (Suc i) ss a)"
    using len bound by (intro Cons.IH) (simp_all add: dem1 add.assoc)
  then show ?case unfolding step sum by (simp add: dem1 add.assoc)
qed

lemma covers_loop_nth:
  "covers_loop t ss ds = Some True \<Longrightarrow> length ss = length ds \<Longrightarrow> a < length ds \<Longrightarrow>
   \<exists>d. fa_tax_and_round (ds ! a) t = Some d \<and> fa_from_integral d \<le> ss ! a"
proof (induction t ss ds arbitrary: a rule: covers_loop.induct)
  case (1 t s ss d ds)
  then show ?case by (cases a) (auto split: Option.bind_splits if_splits)
qed auto

definition asset_demand :: "price list \<Rightarrow> fractional_asset list \<Rightarrow> asset_id \<Rightarrow> nat" where
  "asset_demand prices ss a =
     (\<Sum>j < length ss. if book_buys (length prices) j = a then exact_demand prices j (ss ! j) else 0)"

definition asset_supply :: "price list \<Rightarrow> fractional_asset list \<Rightarrow> asset_id \<Rightarrow> nat" where
  "asset_supply prices ss a =
     (\<Sum>j < length ss. if book_sells (length prices) j = a then cdiv (ss ! j) 1024 else 0)"

lemma exact_demand_le:
  assumes "valid_prices prices" and "2 \<le> length prices"
  shows "exact_demand prices i s \<le> s * 2 ^ 48"
proof -
  obtain c where c: "category_from_idx i (length prices) = Some c"
    using category_from_idx_some [OF assms(2)] by blast
  have "prices ! sellAsset c < 2 ^ 48"
    using valid_prices_nth [OF assms(1)] category_from_idx_range [OF c] by blast
  then have "s * prices ! sellAsset c \<le> s * 2 ^ 48" by (intro mult_le_mono2) simp
  then show ?thesis unfolding exact_demand_category [OF c] by (meson div_le_dividend le_trans)
qed

lemma asset_demand_less:
  assumes "valid_prices prices" and "2 \<le> length prices" and "sum_list ss < 2 ^ 80"
  shows "asset_demand prices ss a < 2 ^ 128"
proof -
  have "asset_demand prices ss a \<le> (\<Sum>j < length ss. ss ! j * 2 ^ 48)"
    unfolding asset_demand_def using exact_demand_le [OF assms(1,2)] by (intro sum_mono) auto
  also have "\<dots> = sum_list ss * 2 ^ 48"
    by (simp only: sum_distrib_right [symmetric] sum_list_sum_nth atLeast0LessThan)
  finally show ?thesis using assms(3) by simp
qed

lemma sum_list_nth_less: "sum_list ss < B \<Longrightarrow> s \<in> set ss \<Longrightarrow> s < (B :: nat)"
  using member_le_sum_list [of s ss] by linarith

lemma clears_sound:
  assumes chk: "clears t prices ss = Some True" and p: "valid_prices prices" "2 \<le> length prices"
    and t: "t < 128" and ss: "sum_list ss < 2 ^ 80" and a: "a < length prices"
  shows "payout t (asset_demand prices ss a) \<le> asset_supply prices ss a"
proof -
  let ?z = "replicate (length prices) 0"
  let ?D = "asset_demand prices ss a"
  obtain sp dem where loop: "clearing_loop prices 0 ss ?z ?z = Some (sp, dem)"
    and dem: "\<forall>a < length prices. dem ! a = asset_demand prices ss a"
    using clearing_loop_demands [OF p, where dem = ?z and ss = ss and i = 0 and sp = ?z] asset_demand_less [OF p ss]
    by (auto simp: asset_demand_def cong: if_cong)
  have "\<forall>s \<in> set ss. s < 2 ^ 128" using sum_list_nth_less [OF ss] by fastforce
  then have len: "length sp = length prices" "length dem = length prices"
    and "sp ! a \<le> ?z ! a + 1024 * asset_supply prices ss a"
    using clearing_loop_supplies [OF loop] a by (simp_all add: asset_supply_def)
  then have sp: "sp ! a \<le> 1024 * asset_supply prices ss a" using a by simp
  have "covers_loop t sp dem = Some True" using chk loop by (simp add: clears_def)
  from covers_loop_nth [OF this, of a] obtain d
    where d: "fa_tax_and_round (dem ! a) t = Some d" "fa_from_integral d \<le> sp ! a"
    using len a by auto
  have D: "?D < 2 ^ 128" using asset_demand_less [OF p ss] .
  then have d_eq: "d = payout t ?D" using d(1) dem a t by (simp add: fa_tax_and_round_eq)
  have "payout t ?D * 1024 \<le> ?D"
    using net_le [of t ?D] by (simp add: payout_def FRACTIONAL_RADIX_def)
  then have "fa_from_integral d = payout t ?D * 1024"
    unfolding d_eq using D by (intro fa_from_integral_eq) simp
  then show ?thesis using d(2) sp by linarith
qed

section \<open>What a fill moves\<close>

text \<open>
  A fill of one orderbook: the amounts of the offers cleared in full and the fractional amount
  taken from one further offer. \<open>fill_receives\<close> adds up what these offers receive, \<open>fill_gives\<close>
  what they give up.
\<close>

type_synonym fill = "nat list \<times> fractional_asset"

definition fill_receives :: "price list \<Rightarrow> nat \<Rightarrow> nat \<Rightarrow> fill \<Rightarrow> nat option" where
  "fill_receives prices tax i f =
     do {
       let sellPrice = prices ! book_sells (length prices) i;
       let buyPrice = prices ! book_buys (length prices) i;
       rs \<leftarrow> those (map (\<lambda>x. taxed_buy_amount (fa_from_integral x) sellPrice buyPrice tax) (fst f));
       r \<leftarrow> taxed_buy_amount (snd f) sellPrice buyPrice tax;
       Some (sum_list rs + r)
     }"

definition fill_gives :: "fill \<Rightarrow> nat" where
  "fill_gives f = sum_list (fst f) + fa_ceil (snd f)"

definition fill_supply :: "fill \<Rightarrow> nat" where
  "fill_supply f = sum_list (fst f) * 1024 + snd f"

lemma exact_demand_add: "exact_demand prices i x + exact_demand prices i y \<le> exact_demand prices i (x + y)"
  unfolding exact_demand_def distrib_right by (rule sum_div_le)

lemma exact_demand_mono: "x \<le> y \<Longrightarrow> exact_demand prices i x \<le> exact_demand prices i y"
  unfolding exact_demand_def by (intro div_le_mono mult_le_mono1)

lemma taxed_buy_amount_eq:
  assumes "valid_prices prices" and "2 \<le> length prices" and "t < 128" and "s < 2 ^ 80"
  shows "taxed_buy_amount s (prices ! book_sells (length prices) i) (prices ! book_buys (length prices) i) t
    = Some (payout t (exact_demand prices i s))"
proof -
  obtain c where c: "category_from_idx i (length prices) = Some c"
    using category_from_idx_some [OF assms(2)] by blast
  have "exact_demand prices i s < 2 ^ 128"
    using exact_demand_le [OF assms(1,2), of i s] assms(4) by simp
  then show ?thesis
    using c wide_multiply_exact_demand [OF assms(1) c] assms(3)
    by (simp add: taxed_buy_amount_def book_sells_def book_buys_def fp_from_raw_def fa_tax_and_round_eq)
qed

lemma those_map_Some: "(\<And>x. x \<in> set xs \<Longrightarrow> f x = Some (g x)) \<Longrightarrow> those (map f xs) = Some (map g xs)"
  by (induction xs) auto

lemma fill_receives_le:
  assumes "valid_prices prices" and "2 \<le> length prices" and "t < 128" and s: "fill_supply f < 2 ^ 80"
  shows "\<exists>r. fill_receives prices t i f = Some r \<and> r \<le> payout t (exact_demand prices i (fill_supply f))"
proof -
  let ?p = "\<lambda>s. payout t (exact_demand prices i s)"
  have "taxed_buy_amount (fa_from_integral x) (prices ! book_sells (length prices) i)
      (prices ! book_buys (length prices) i) t = Some (?p (x * 1024))" if "x \<in> set (fst f)" for x
  proof -
    have x: "x * 1024 < 2 ^ 80" using member_le_sum_list [OF that] s by (simp add: fill_supply_def)
    then have "fa_from_integral x = x * 1024" by (intro fa_from_integral_eq) simp
    then show ?thesis using taxed_buy_amount_eq [OF assms(1-3) x] by simp
  qed
  then have "map (\<lambda>x. taxed_buy_amount (fa_from_integral x)
      (prices ! book_sells (length prices) i) (prices ! book_buys (length prices) i) t) (fst f)
    = map (\<lambda>x. Some (?p (x * 1024))) (fst f)"
    by simp
  then have "fill_receives prices t i f = Some (sum_list (map (\<lambda>x. ?p (x * 1024)) (fst f)) + ?p (snd f))"
    using s taxed_buy_amount_eq [OF assms(1-3), of "snd f" i]
    by (simp add: fill_receives_def Let_def fill_supply_def those_map_Some)
  moreover have p: "?p x + ?p y \<le> ?p (x + y)" for x y
    using payout_add [of t] payout_mono [OF exact_demand_add] by (rule order_trans)
  have "sum_list (map (\<lambda>x. ?p (x * 1024)) xs) \<le> ?p (sum_list xs * 1024)" for xs
  proof (induction xs)
    case (Cons x xs)
    then show ?case using p [of "x * 1024" "sum_list xs * 1024"] by (simp add: distrib_right)
  qed simp
  then have "sum_list (map (\<lambda>x. ?p (x * 1024)) (fst f)) + ?p (snd f) \<le> ?p (fill_supply f)"
    using p [of "sum_list (fst f) * 1024" "snd f"] unfolding fill_supply_def
    by (meson add_le_mono1 order_trans)
  ultimately show ?thesis by blast
qed

lemma fill_gives_eq:
  assumes "fill_supply f < 2 ^ 128"
  shows "fill_gives f = cdiv (fill_supply f) 1024"
  using assms cdiv_mult_add [of 1024 "sum_list (fst f)" "snd f"]
  by (simp add: fill_gives_def fill_supply_def fp_ceil_eq FRACTIONAL_RADIX_def)

section \<open>Merging the statistics of the worker threads\<close>

definition vs_get :: "validation_statistics \<Rightarrow> nat \<Rightarrow> fractional_asset" where
  "vs_get s i = (if i < length s then activated_supply (s ! i) else 0)"

definition vs_ok :: "validation_statistics \<Rightarrow> bool" where
  "vs_ok s \<longleftrightarrow> list_all (\<lambda>x. activated_supply x < 2 ^ 128) s"

text \<open>The merged statistics: one entry per orderbook some thread has seen, summed modulo the width.\<close>

definition longest :: "'a list list \<Rightarrow> nat" where
  "longest ts = foldr max (map length ts) 0"

definition vs_sum :: "validation_statistics list \<Rightarrow> validation_statistics" where
  "vs_sum ts = map (\<lambda>i. \<lparr>activated_supply = u128 (sum_list (map (\<lambda>t. vs_get t i) ts))\<rparr>)
     [0..<longest ts]"

lemma longest_le: "longest ts \<le> n \<longleftrightarrow> (\<forall>t \<in> set ts. length t \<le> n)"
  by (induction ts) (auto simp: longest_def)

lemma longest_cong: "set ts = set us \<Longrightarrow> longest ts = longest us"
  by (metis longest_le order_antisym order_refl)

lemma longest_Cons: "longest (t # ts) = max (length t) (longest ts)"
  by (simp add: longest_def)

lemma vs_eqI:
  assumes "length s = length t" and "\<And>i. i < length t \<Longrightarrow> vs_get s i = vs_get t i"
  shows "s = t"
  using assms by (intro nth_equalityI) (auto simp: vs_get_def)

lemma vs_get_beyond [simp]: "length s \<le> i \<Longrightarrow> vs_get s i = 0"
  by (simp add: vs_get_def)

lemma vs_get_less: "vs_ok s \<Longrightarrow> vs_get s i < 2 ^ 128"
  by (simp add: vs_get_def vs_ok_def list_all_length)

lemma vs_add_loop_get:
  assumes "i + length t \<le> length s"
  shows "length (vs_add_loop i t s) = length s
    \<and> vs_get (vs_add_loop i t s) j = (if i \<le> j \<and> j < i + length t then fa_add (vs_get s j) (vs_get t (j - i)) else vs_get s j)"
  using assms
proof (induction t arbitrary: i s)
  case Nil
  then show ?case by simp
next
  case (Cons x t)
  let ?s = "upd_at s i (\<lambda>s. svs_add s x)"
  have IH: "length (vs_add_loop (Suc i) t ?s) = length s
    \<and> vs_get (vs_add_loop (Suc i) t ?s) j
      = (if Suc i \<le> j \<and> j < Suc i + length t then fa_add (vs_get ?s j) (vs_get t (j - Suc i)) else vs_get ?s j)"
    using Cons.IH [of "Suc i" ?s] Cons.prems by simp
  have "vs_get ?s j = (if j = i then fa_add (vs_get s j) (activated_supply x) else vs_get s j)"
    using Cons.prems by (auto simp: vs_get_def upd_at_nth svs_add_def)
  moreover have "vs_get (x # t) (j - i) = (if j \<le> i then activated_supply x else vs_get t (j - Suc i))"
    by (auto simp: vs_get_def nth_Cons')
  ultimately show ?case using IH by (auto simp: less_Suc_eq_le Suc_le_eq)
qed

lemma vs_get_resize: "length s \<le> n \<Longrightarrow> length (vs_resize n s) = n \<and> vs_get (vs_resize n s) j = vs_get s j"
  by (auto simp: vs_get_def vs_resize_def nth_append svs_empty_def)

lemma vs_add_get:
  assumes "vs_ok s" and "vs_ok t"
  shows "length (vs_add s t) = max (length s) (length t) \<and> vs_get (vs_add s t) j = u128 (vs_get s j + vs_get t j)"
proof -
  let ?s = "if length s < length t then vs_resize (length t) s else s"
  have s: "length ?s = max (length s) (length t)" "vs_get ?s k = vs_get s k" for k
    using vs_get_resize [of s "length t"] by auto
  have "0 + length t \<le> length ?s" using s(1) by simp
  from vs_add_loop_get [OF this, of j] show ?thesis
    using vs_get_less [OF assms(1), of j] vs_get_less [OF assms(2), of j] s
    by (auto simp: vs_add_def fp_add_def vs_get_beyond)
qed

lemma vs_ok_add: "vs_ok s \<Longrightarrow> vs_ok t \<Longrightarrow> vs_ok (vs_add s t)"
  unfolding vs_ok_def [of "vs_add s t"] list_all_length
  by (metis vs_add_get vs_get_def u128_less)

lemma fold_vs_add:
  assumes "vs_ok s" and "list_all vs_ok ts"
  shows "fold (\<lambda>t s. vs_add s t) ts s = vs_sum (s # ts)"
  using assms
proof (induction ts arbitrary: s)
  case Nil
  then show ?case by (intro vs_eqI) (auto simp: vs_sum_def vs_get_def vs_ok_def list_all_length longest_def)
next
  case (Cons t ts)
  note st = vs_add_get [of s t]
  have "fold (\<lambda>t s. vs_add s t) (t # ts) s = vs_sum (vs_add s t # ts)"
    using Cons.prems by (simp add: Cons.IH vs_ok_add)
  also have "\<dots> = vs_sum (s # t # ts)"
  proof (intro vs_eqI)
    show len: "length (vs_sum (vs_add s t # ts)) = length (vs_sum (s # t # ts))"
      using Cons.prems st by (simp add: vs_sum_def longest_Cons max.assoc)
    fix i assume "i < length (vs_sum (s # t # ts))"
    then show "vs_get (vs_sum (vs_add s t # ts)) i = vs_get (vs_sum (s # t # ts)) i"
      using Cons.prems st len
      by (simp add: vs_get_def [of "vs_sum _"]) (simp add: vs_sum_def u128_def mod_add_left_eq add.assoc)
  qed
  finally show ?case .
qed

lemma vs_sum_mset:
  assumes "mset ts = mset us"
  shows "vs_sum ts = vs_sum us"
proof -
  have "sum_list (map f ts) = sum_list (map f us)" for f :: "validation_statistics \<Rightarrow> nat"
    using assms by (metis mset_map sum_mset_sum_list)
  moreover have "set ts = set us" using assms by (rule mset_eq_setD)
  ultimately show ?thesis by (simp add: vs_sum_def longest_cong [of ts us])
qed

section \<open>Properties\<close>

text \<open>
  The statistics the validating threads collect about fully cleared offers do not
  depend on scheduling: merging the per-thread statistics into the shared ones in any two orders
  gives the same statistics, and entry by entry they are the sum of what the threads saw.
\<close>

theorem validation_statistics_merge:
  assumes "vs_ok s" and "list_all vs_ok ts" and "mset ts = mset us"
  shows "fold (\<lambda>t s. vs_add s t) ts s = fold (\<lambda>t s. vs_add s t) us s
    \<and> vs_get (fold (\<lambda>t s. vs_add s t) ts s) i = u128 (vs_get s i + sum_list (map (\<lambda>t. vs_get t i) ts))"
proof -
  have "list_all vs_ok us" using assms(2) mset_eq_setD [OF assms(3)] by (simp add: list_all_iff)
  then have "fold (\<lambda>t s. vs_add s t) us s = vs_sum (s # us)" using assms(1) by (intro fold_vs_add)
  moreover have "vs_sum (s # ts) = vs_sum (s # us)" using assms(3) by (intro vs_sum_mset) simp
  moreover have "vs_get (vs_sum (s # ts)) i = u128 (vs_get s i + sum_list (map (\<lambda>t. vs_get t i) ts))"
  proof (cases "i < length (vs_sum (s # ts))")
    case True
    then show ?thesis by (simp add: vs_get_def [of "vs_sum _"]) (simp add: vs_sum_def)
  next
    case False
    then have "longest (s # ts) \<le> i" by (simp add: vs_sum_def)
    then have "\<forall>t \<in> set (s # ts). length t \<le> i" unfolding longest_le .
    then have z: "vs_get s i = 0" "(\<Sum>t\<leftarrow>ts. vs_get t i) = 0" by (auto simp: sum_list_eq_0_iff)
    show ?thesis using False unfolding z by (simp add: vs_get_def)
  qed
  ultimately show ?thesis using fold_vs_add [OF assms(1,2)] by simp
qed

theorem validation_statistics_merge_witness:
  "fold (\<lambda>t s. vs_add s t) [[\<lparr>activated_supply = 3\<rparr>], [\<lparr>activated_supply = 1\<rparr>, \<lparr>activated_supply = 2\<rparr>]] []
     = fold (\<lambda>t s. vs_add s t) [[\<lparr>activated_supply = 1\<rparr>, \<lparr>activated_supply = 2\<rparr>], [\<lparr>activated_supply = 3\<rparr>]] []
   \<and> vs_get (fold (\<lambda>t s. vs_add s t) [[\<lparr>activated_supply = 3\<rparr>], [\<lparr>activated_supply = 1\<rparr>, \<lparr>activated_supply = 2\<rparr>]] []) 0
     = u128 (vs_get [] 0
         + sum_list (map (\<lambda>t. vs_get t 0) [[\<lparr>activated_supply = 3\<rparr>], [\<lparr>activated_supply = 1\<rparr>, \<lparr>activated_supply = 2\<rparr>]]))"
  by (rule validation_statistics_merge) (simp_all add: vs_ok_def)

text \<open>
  Property C1. Solvency of a batch: let the clearing parameters pass \<open>check_clearing\<close> at valid
  prices and let each orderbook be filled with exactly its activated supply, some offers in full
  and a fraction of one more. Then every payment of the clearing is defined, and for every asset
  the taxed, rounded amounts paid out to offers buying it add up to at most the integral amounts
  taken from the offers selling it: clearing a batch never creates units of any asset. The supply
  bound leaves room for 128 assets whose whole 63-bit issuance is on sale.
\<close>

theorem clearing_solvent:
  assumes "cp_check_clearing prices cp = Some True"
    and "valid_prices prices" and "2 \<le> length prices" and "tax_rate cp < 128"
    and "supply_activated cp = map fill_supply fills" and "sum_list (supply_activated cp) < 2 ^ 80"
    and a: "a < length prices"
  shows "None \<notin> (\<lambda>i. fill_receives prices (tax_rate cp) i (fills ! i)) ` {..<length fills}
    \<and> (\<Sum>i < length fills. if book_buys (length prices) i = a
         then the (fill_receives prices (tax_rate cp) i (fills ! i)) else 0)
      \<le> (\<Sum>i < length fills. if book_sells (length prices) i = a then fill_gives (fills ! i) else 0)"
proof -
  let ?n = "length prices" and ?t = "tax_rate cp" and ?ss = "supply_activated cp"
  have len: "length ?ss = length fills" using assms(5) by simp
  have small: "fill_supply (fills ! i) < 2 ^ 80" if "i < length fills" for i
    using sum_list_nth_less [OF assms(6), of "fill_supply (fills ! i)"] assms(5) that by simp
  have gives: "fill_gives (fills ! i) = cdiv (fill_supply (fills ! i)) 1024" if "i < length fills" for i
    using small [OF that] by (intro fill_gives_eq) simp
  have r: "\<exists>r. fill_receives prices ?t i (fills ! i) = Some r
      \<and> r \<le> payout ?t (exact_demand prices i (?ss ! i))" if "i < length fills" for i
    using fill_receives_le [OF assms(2-4) small [OF that], of i] assms(5) that by simp
  have "(\<Sum>i < length fills. if book_buys ?n i = a
         then the (fill_receives prices ?t i (fills ! i)) else 0)
      \<le> (\<Sum>i < length fills. if book_sells ?n i = a then fill_gives (fills ! i) else 0)"
  proof -
    have "(\<Sum>i < length fills. if book_buys ?n i = a then the (fill_receives prices ?t i (fills ! i)) else 0)
        \<le> (\<Sum>i < length fills. payout ?t (if book_buys ?n i = a then exact_demand prices i (?ss ! i) else 0))"
      using r by (intro sum_mono) fastforce
    also have "\<dots> \<le> payout ?t (asset_demand prices ?ss a)"
      using payout_sum_list [of ?t "map (\<lambda>i. if book_buys ?n i = a then exact_demand prices i (?ss ! i) else 0)
          [0..<length fills]"]
      by (simp add: asset_demand_def len interv_sum_list_conv_sum_set_nat comp_def atLeast0LessThan)
    also have "\<dots> \<le> asset_supply prices ?ss a"
      using assms a unfolding cp_check_clearing_def by (intro clears_sound)
    also have "\<dots> = (\<Sum>i < length fills. if book_sells ?n i = a then fill_gives (fills ! i) else 0)"
      unfolding asset_supply_def assms(5)
      using gives by (intro sum.cong) auto
    finally show ?thesis .
  qed
  then show ?thesis using r by force
qed

lemma two_books:
  "category_from_idx 0 (Suc (Suc 0)) = Some \<lparr>sellAsset = 0, buyAsset = 1, cat_type = SELL\<rparr>"
  "category_from_idx (Suc 0) (Suc (Suc 0)) = Some \<lparr>sellAsset = 1, buyAsset = 0, cat_type = SELL\<rparr>"
  by (simp_all add: category_from_idx_def Let_def map_int_to_type_def)

theorem clearing_solvent_witness:
  "None \<notin> (\<lambda>i. fill_receives [PRICE_ONE, PRICE_ONE] 10 i ([([5, 3], 100), ([9], 0)] ! i)) ` {..<length [([5::nat, 3], 100::nat), ([9], 0)]}
    \<and> (\<Sum>i < length [([5::nat, 3], 100::nat), ([9], 0)]. if book_buys (length [PRICE_ONE, PRICE_ONE]) i = 1
         then the (fill_receives [PRICE_ONE, PRICE_ONE] 10 i ([([5, 3], 100), ([9], 0)] ! i)) else 0)
      \<le> (\<Sum>i < length [([5::nat, 3], 100::nat), ([9], 0)]. if book_sells (length [PRICE_ONE, PRICE_ONE]) i = 1 then fill_gives ([([5, 3], 100), ([9], 0)] ! i) else 0)"
proof -
  let ?cp = "\<lparr>tax_rate = 10, supply_activated = [8292, 9216]\<rparr>"
  have "cp_check_clearing [PRICE_ONE, PRICE_ONE] ?cp = Some True"
    by (simp add: cp_check_clearing_def clears_def two_books Let_def upd_at_def price_consts
        wide_multiply_val_by_a_over_b_def u128_def fp_from_raw_def fp_from_integral_def fp_add_def
        fp_ceil_def fp_floor_def fp_tax_and_round_def tax_amount_def get_lowbits_mask_def
        sub128_def FRACTIONAL_RADIX_def)
  moreover have "valid_prices [PRICE_ONE, PRICE_ONE]"
    by (simp add: valid_prices_def is_valid_price_def price_consts)
  ultimately show ?thesis
    by (rule clearing_solvent [of "[PRICE_ONE, PRICE_ONE]" ?cp "[([5, 3], 100), ([9], 0)]" 1,
          unfolded clearing_params.simps]) (simp_all add: fill_supply_def)
qed

end
