(* ===== verification/Orderbook_Demand.thy ===== *)
theory Orderbook_Demand
  imports Offer_Clearing
begin

text \<open>
  The price queries of one orderbook (\<^verbatim>\<open>orderbook/orderbook.cc\<close>, \<^verbatim>\<open>orderbook/helpers.h\<close>,
  \<^verbatim>\<open>orderbook/metadata.h\<close>): the index of accumulated endowments, its binary search, the
  execution prices, the supply bounds handed to the clearing solver and the demand and supply that
  Tatonnement evaluates. A loop that could run forever is a \<^theory_text>\<open>partial_function\<close> with result
  \<open>None\<close>; an access outside the index is \<open>None\<close> as well. The variants that work on doubles
  (\<^verbatim>\<open>max_feasible_smooth_mult_double\<close>, \<^verbatim>\<open>satisfied_and_lost_utility\<close>) are left out.
  The lemmas: the binary search is total and computes the endowment of all offers with a limit
  price up to the query, and the demand computation never reaches one of its throws within the
  stated bounds and returns the smoothed supply.
\<close>

section \<open>Accumulated endowments\<close>

definition i128 :: "int \<Rightarrow> int" where
  [wrap_defs]: "i128 x = (x + 2 ^ 127) mod 2 ^ 128 - 2 ^ 127"

definition to_u64 :: "int \<Rightarrow> nat" where
  [wrap_defs]: "to_u64 x = nat (x mod 2 ^ 64)"

definition to_u128 :: "int \<Rightarrow> nat" where
  [wrap_defs]: "to_u128 x = nat (x mod 2 ^ 128)"

text \<open>The metadata of a trie node (\<^verbatim>\<open>OrderbookMetadata\<close>) is its endowment.\<close>

definition md_of_offer :: "offer \<Rightarrow> int" where
  "md_of_offer off = i64 (int (amount off))"

definition md_add :: "int \<Rightarrow> int \<Rightarrow> int" where
  "md_add m other = i64 (m + other)"

definition md_sub :: "int \<Rightarrow> int \<Rightarrow> int" where
  "md_sub m other = i64 (m - other)"

record endow_accumulator =
  endow :: int
  endow_times_price :: int

definition ea_of :: "price \<Rightarrow> int \<Rightarrow> endow_accumulator" where
  "ea_of price md = \<lparr>endow = md, endow_times_price = i128 (md * int price)\<rparr>"

definition ea_empty :: endow_accumulator where
  "ea_empty = \<lparr>endow = 0, endow_times_price = 0\<rparr>"

definition ea_add :: "endow_accumulator \<Rightarrow> endow_accumulator \<Rightarrow> endow_accumulator" where
  "ea_add a other =
     \<lparr>endow = i64 (endow a + endow other),
      endow_times_price = i128 (endow_times_price a + endow_times_price other)\<rparr>"

record index_entry =
  key :: price
  ix_metadata :: endow_accumulator

type_synonym metadata_index = "index_entry list"

definition ix_at :: "metadata_index \<Rightarrow> int \<Rightarrow> index_entry option" where
  "ix_at ix i = (if 0 \<le> i \<and> i < int (length ix) then Some (ix ! nat i) else None)"

section \<open>Binary search in the index\<close>

partial_function (option) get_metadata_loop ::
  "metadata_index \<Rightarrow> price \<Rightarrow> int \<Rightarrow> int \<Rightarrow> int \<Rightarrow> endow_accumulator option" where
  "get_metadata_loop ix p start end' mp =
     (if end' = start then Option.bind (ix_at ix (end' - 1)) (\<lambda>e. Some (ix_metadata e))
      else Option.bind (ix_at ix mp) (\<lambda>e.
        if p \<ge> key e
        then get_metadata_loop ix p (mp + 1) end' ((end' + (mp + 1)) div 2)
        else get_metadata_loop ix p start mp ((mp + start) div 2)))"

definition get_metadata :: "metadata_index \<Rightarrow> price \<Rightarrow> endow_accumulator option" where
  "get_metadata ix p =
     (let start = 1;
          end' = int (length ix) - 1
      in if end' \<le> 0 then Some ea_empty
         else do {
           e \<leftarrow> ix_at ix end';
           if p \<ge> key e then Some (ix_metadata e)
           else get_metadata_loop ix p start end' ((end' + start) div 2)
         })"

section \<open>Execution prices and supply bounds\<close>

definition divide_prices :: "price \<Rightarrow> price \<Rightarrow> price option" where
  "divide_prices sell_price buy_price =
     (if buy_price = 0 then None
      else (let extra_bits_len = 64 - PRICE_RADIX;
                ratio = u128 (sell_price * 2 ^ 64) div buy_price
            in Some (ratio div 2 ^ extra_bits_len mod 2 ^ 64)))"

definition get_execution_prices :: "price \<Rightarrow> price \<Rightarrow> nat \<Rightarrow> (price \<times> price) option" where
  "get_execution_prices sell_price buy_price sm =
     do {
       upper_bound_price \<leftarrow> divide_prices sell_price buy_price;
       lower_bound_price \<leftarrow> (if sm \<noteq> 0 then smooth_mult upper_bound_price sm else Some upper_bound_price);
       Some (lower_bound_price, upper_bound_price)
     }"

definition get_supply_bounds :: "metadata_index \<Rightarrow> price \<Rightarrow> price \<Rightarrow> nat \<Rightarrow> (nat \<times> nat) option" where
  "get_supply_bounds ix sell_price buy_price sm =
     do {
       (lower_bound_price, upper_bound_price) \<leftarrow> get_execution_prices sell_price buy_price sm;
       upper_bound \<leftarrow> get_metadata ix upper_bound_price;
       lower_bound \<leftarrow> get_metadata ix lower_bound_price;
       Some (to_u64 (endow lower_bound), to_u64 (endow upper_bound))
     }"

section \<open>Demand and supply\<close>

definition wide_multiply_safe :: "nat \<Rightarrow> nat \<Rightarrow> nat" where
  "wide_multiply_safe endow_times_limit_price price =
     (let upper = u128 (endow_times_limit_price div 2 ^ 64 * price);
          lower = u128 (endow_times_limit_price mod 2 ^ 64 * price)
      in u128 (u128 (upper * 2 ^ (64 - PRICE_RADIX)) + lower div 2 ^ PRICE_RADIX))"

type_synonym workspace = "nat list"

definition calculate_demands_and_supplies_times_prices_from_metadata ::
  "offer_category \<Rightarrow> price list \<Rightarrow> workspace \<Rightarrow> workspace \<Rightarrow> nat \<Rightarrow> endow_accumulator
     \<Rightarrow> endow_accumulator \<Rightarrow> (workspace \<times> workspace) result" where
  "calculate_demands_and_supplies_times_prices_from_metadata cat prices demands supplies sm
       metadata_partial metadata_full =
     (let sell_price = prices ! sellAsset cat;
          buy_price = prices ! buyAsset cat;
          full_exec_endow = to_u64 (endow metadata_full);
          partial_exec_endow = sub64 (to_u64 (endow metadata_partial)) full_exec_endow;
          full_exec_endow_times_price = to_u128 (endow_times_price metadata_full);
          partial_exec_endow_times_price =
            sub128 (to_u128 (endow_times_price metadata_partial)) full_exec_endow_times_price
      in if endow_times_price metadata_full > endow_times_price metadata_partial
         then Inl (RuntimeError ''This should absolutely never happen'')
         else (let full_exec_trade_volume = u128 (full_exec_endow * sell_price)
               in bind_result
                    (if sm > 0
                     then (let part1 = u128 (sell_price * partial_exec_endow);
                               part2 = wide_multiply_safe partial_exec_endow_times_price buy_price
                           in if part1 < part2 then Inl (RuntimeError ''arithmetic error'')
                              else from_ub (if sm < 128 then Some (u128 (sub128 part1 part2 * 2 ^ sm)) else None))
                     else Inr 0)
                    (\<lambda>partial_exec_trade_volume.
                       let total_trade_volume = u128 (full_exec_trade_volume + partial_exec_trade_volume)
                       in Inr (upd_at demands (buyAsset cat) (\<lambda>v. u128 (v + total_trade_volume)),
                               upd_at supplies (sellAsset cat) (\<lambda>v. u128 (v + total_trade_volume))))))"

text \<open>The partial volumes (sold, bought) of \<^verbatim>\<open>calculate_demands_and_supplies_from_metadata\<close>.\<close>

definition partial_volumes :: "price \<Rightarrow> price \<Rightarrow> nat \<Rightarrow> nat \<Rightarrow> nat \<Rightarrow> (nat \<times> nat) result" where
  "partial_volumes sell_price buy_price sm partial_exec_endow partial_exec_endow_times_price =
     (if sm \<ge> 64 then Inl UndefinedBehaviour
      else (let endow_over_epsilon = u64 (partial_exec_endow * 2 ^ sm);
                endow_times_price_over_epsilon = u128 (partial_exec_endow_times_price * 2 ^ sm)
            in bind_result
                 (from_ub (wide_multiply_val_by_a_over_b endow_times_price_over_epsilon buy_price sell_price))
                 (\<lambda>sell_wide_multiply_result.
                    if u128 (endow_over_epsilon * 2 ^ PRICE_RADIX) < sell_wide_multiply_result
                    then Inl (RuntimeError ''this should not happen unless something has begun to overflow'')
                    else bind_result
                      (from_ub (wide_multiply_val_by_a_over_b
                         (u128 (endow_over_epsilon * 2 ^ PRICE_RADIX)) sell_price buy_price))
                      (\<lambda>buy_wide_multiply_result.
                         if buy_wide_multiply_result < endow_times_price_over_epsilon
                         then Inl (RuntimeError ''this should not happen unless something has begun to overflow'')
                         else Inr (sub128 (u128 (endow_over_epsilon * 2 ^ PRICE_RADIX)) sell_wide_multiply_result,
                                   sub128 buy_wide_multiply_result endow_times_price_over_epsilon)))))"

definition calculate_demands_and_supplies_from_metadata ::
  "offer_category \<Rightarrow> price list \<Rightarrow> workspace \<Rightarrow> workspace \<Rightarrow> nat \<Rightarrow> endow_accumulator
     \<Rightarrow> endow_accumulator \<Rightarrow> (workspace \<times> workspace) result" where
  "calculate_demands_and_supplies_from_metadata cat prices demands supplies sm
       metadata_partial metadata_full =
     (let sell_price = prices ! sellAsset cat;
          buy_price = prices ! buyAsset cat;
          full_exec_endow = to_u64 (endow metadata_full);
          partial_exec_endow = sub64 (to_u64 (endow metadata_partial)) full_exec_endow;
          full_exec_endow_times_price = to_u128 (endow_times_price metadata_full);
          partial_exec_endow_times_price =
            sub128 (to_u128 (endow_times_price metadata_partial)) full_exec_endow_times_price
      in if endow_times_price metadata_full > endow_times_price metadata_partial
         then Inl (RuntimeError ''This should absolutely never happen'')
         else bind_result
           (if sm \<noteq> 0
            then partial_volumes sell_price buy_price sm partial_exec_endow partial_exec_endow_times_price
            else Inr (0, 0))
           (\<lambda>(partial_sell_volume, partial_buy_volume).
              let full_sell_volume = u128 (partial_sell_volume + u128 (full_exec_endow * 2 ^ PRICE_RADIX))
              in bind_result
                   (from_ub (wide_multiply_val_by_a_over_b (u128 (full_exec_endow * 2 ^ PRICE_RADIX)) sell_price buy_price))
                   (\<lambda>w. let full_buy_volume = u128 (partial_buy_volume + w)
                        in Inr (upd_at demands (buyAsset cat) (\<lambda>v. u128 (v + full_buy_volume)),
                                upd_at supplies (sellAsset cat) (\<lambda>v. u128 (v + full_sell_volume))))))"

text \<open>The two queries, with the metadata looked up at the execution prices.\<close>

definition execution_metadata ::
  "offer_category \<Rightarrow> metadata_index \<Rightarrow> price list \<Rightarrow> nat \<Rightarrow> (endow_accumulator \<times> endow_accumulator) option" where
  "execution_metadata cat ix prices sm =
     do {
       (full_exec_p, partial_exec_p) \<leftarrow>
         get_execution_prices (prices ! sellAsset cat) (prices ! buyAsset cat) sm;
       metadata_partial \<leftarrow> get_metadata ix partial_exec_p;
       metadata_full \<leftarrow> (if sm \<noteq> 0 then get_metadata ix full_exec_p else Some metadata_partial);
       Some (metadata_partial, metadata_full)
     }"

definition calculate_demands_and_supplies ::
  "offer_category \<Rightarrow> metadata_index \<Rightarrow> price list \<Rightarrow> workspace \<Rightarrow> workspace \<Rightarrow> nat
     \<Rightarrow> (workspace \<times> workspace) result" where
  "calculate_demands_and_supplies cat ix prices demands supplies sm =
     bind_result (from_ub (execution_metadata cat ix prices sm))
       (\<lambda>(metadata_partial, metadata_full).
          calculate_demands_and_supplies_from_metadata cat prices demands supplies sm
            metadata_partial metadata_full)"

definition calculate_demands_and_supplies_times_prices ::
  "offer_category \<Rightarrow> metadata_index \<Rightarrow> price list \<Rightarrow> workspace \<Rightarrow> workspace \<Rightarrow> nat
     \<Rightarrow> (workspace \<times> workspace) result" where
  "calculate_demands_and_supplies_times_prices cat ix prices demands supplies sm =
     bind_result (from_ub (execution_metadata cat ix prices sm))
       (\<lambda>(metadata_partial, metadata_full).
          calculate_demands_and_supplies_times_prices_from_metadata cat prices demands supplies sm
            metadata_partial metadata_full)"

section \<open>The smoothing a clearing allows\<close>

partial_function (option) max_price_loop ::
  "metadata_index \<Rightarrow> int \<Rightarrow> nat \<Rightarrow> nat \<Rightarrow> nat \<Rightarrow> price option option" where
  "max_price_loop ix amt start end' mp =
     (if end' = start
      then Option.bind (ix_at ix (int end')) (\<lambda>e.
        if endow (ix_metadata e) > amt then Some (Some (key e))
        else if end' + 1 = length ix then Some None
        else Option.bind (ix_at ix (int end' + 1)) (\<lambda>e'. Some (Some (key e'))))
      else Option.bind (ix_at ix (int mp)) (\<lambda>e.
        if amt \<ge> endow (ix_metadata e)
        then max_price_loop ix amt (mp + 1) end' ((mp + 1 + end') div 2)
        else max_price_loop ix amt start mp ((start + mp) div 2)))"

text \<open>\<^verbatim>\<open>out\<close> is an 8-bit counter; a shift by 64 or more has no defined result.\<close>

partial_function (option) shift_loop :: "nat \<Rightarrow> nat \<Rightarrow> nat \<Rightarrow> nat option" where
  "shift_loop raw_difference rate out =
     (if out \<ge> 64 then None
      else if raw_difference \<le> rate div 2 ^ out then shift_loop raw_difference rate (u8 (out + 1))
      else Some out)"

definition max_feasible_smooth_mult ::
  "offer_category \<Rightarrow> metadata_index \<Rightarrow> int \<Rightarrow> price list \<Rightarrow> nat option" where
  "max_feasible_smooth_mult cat ix amt prices =
     do {
       let start = 1;
       let end' = sub64 (length ix) 1;
       exact_exchange_rate \<leftarrow> divide_prices (prices ! sellAsset cat) (prices ! buyAsset cat);
       if end' = 0 then Some 255
       else do {
         e \<leftarrow> ix_at ix (int end');
         if amt > endow (ix_metadata e) then Some 255
         else do {
           m \<leftarrow> max_price_loop ix amt start end' ((end' + start) div 2);
           case m of
             None \<Rightarrow> Some 255
           | Some max_activated_price \<Rightarrow>
               (let raw_difference = sub64 exact_exchange_rate max_activated_price
                in if exact_exchange_rate \<le> max_activated_price then Some 255
                   else do {
                     out \<leftarrow> shift_loop raw_difference exact_exchange_rate 0;
                     if out > 0 then Some (out - 1) else Some 0
                   })
         }
       }
     }"

section \<open>The index\<close>

text \<open>
  What the offers with a limit price of at most \<open>p\<close> add up to, and what it means that an index
  belongs to a list of offers: an empty leading entry, then one entry per limit price in
  ascending order, holding the sums up to that price. This is what the traversal of the offer
  trie delivers.
\<close>

definition endow_upto :: "offer list \<Rightarrow> price \<Rightarrow> nat" where
  "endow_upto os p = sum_list (map amount (filter (\<lambda>x. minPrice x \<le> p) os))"

definition value_upto :: "offer list \<Rightarrow> price \<Rightarrow> nat" where
  "value_upto os p = sum_list (map (\<lambda>x. amount x * minPrice x) (filter (\<lambda>x. minPrice x \<le> p) os))"

definition acc_upto :: "offer list \<Rightarrow> price \<Rightarrow> endow_accumulator" where
  "acc_upto os p =
     \<lparr>endow = i64 (int (endow_upto os p)), endow_times_price = i128 (int (value_upto os p))\<rparr>"

definition index_of :: "offer list \<Rightarrow> metadata_index \<Rightarrow> bool" where
  "index_of os ix \<longleftrightarrow>
     (if ix = [] then os = []
      else ix_metadata (hd ix) = ea_empty
        \<and> sorted_wrt (<) (map key (tl ix))
        \<and> minPrice ` set os = key ` set (tl ix)
        \<and> list_all (\<lambda>e. ix_metadata e = acc_upto os (key e)) (tl ix))"

definition build_index :: "offer list \<Rightarrow> metadata_index" where
  "build_index os =
     \<lparr>key = 0, ix_metadata = ea_empty\<rparr>
     # map (\<lambda>p. \<lparr>key = p, ix_metadata = acc_upto os p\<rparr>) (sorted_list_of_set (minPrice ` set os))"

lemma ix_at_nat: "i < length ix \<Longrightarrow> ix_at ix (int i) = Some (ix ! i)"
  by (simp add: ix_at_def)

lemma build_index_ok: "index_of os (build_index os)"
  by (simp add: index_of_def build_index_def list_all_iff image_image comp_def)

lemma acc_upto_cong:
  assumes "\<And>x. x \<in> set os \<Longrightarrow> minPrice x \<le> p \<longleftrightarrow> minPrice x \<le> q"
  shows "acc_upto os p = acc_upto os q"
proof -
  have "filter (\<lambda>x. minPrice x \<le> p) os = filter (\<lambda>x. minPrice x \<le> q) os"
    using assms by (intro filter_cong) auto
  then show ?thesis by (simp add: acc_upto_def endow_upto_def value_upto_def)
qed

lemma acc_upto_none: "(\<And>x. x \<in> set os \<Longrightarrow> p < minPrice x) \<Longrightarrow> acc_upto os p = ea_empty"
proof -
  assume "\<And>x. x \<in> set os \<Longrightarrow> p < minPrice x"
  then have none: "filter (\<lambda>x. minPrice x \<le> p) os = []" by (auto simp: filter_empty_conv not_le)
  show ?thesis unfolding acc_upto_def endow_upto_def value_upto_def none
    by (simp add: ea_empty_def i64_def i128_def)
qed

text \<open>The loop stops at the first entry above the query and returns the one before it.\<close>

lemma get_metadata_loop_correct:
  assumes "1 \<le> a" and "a \<le> b" and "b < length ix"
    and "a \<noteq> 1 \<longrightarrow> key (ix ! (a - 1)) \<le> p" and "p < key (ix ! b)"
    and "mp = (int b + int a) div 2"
  shows "\<exists>k. 1 \<le> k \<and> k < length ix \<and> p < key (ix ! k) \<and> (k \<noteq> 1 \<longrightarrow> key (ix ! (k - 1)) \<le> p)
    \<and> get_metadata_loop ix p (int a) (int b) mp = Some (ix_metadata (ix ! (k - 1)))"
  using assms
proof (induction "b - a" arbitrary: a b mp rule: less_induct)
  case less
  show ?case
  proof (cases "a = b")
    case True
    have "ix_at ix (int b - 1) = Some (ix ! (b - 1))"
      using less.prems True by (simp add: ix_at_def nat_diff_distrib)
    then have "get_metadata_loop ix p (int a) (int b) mp = Some (ix_metadata (ix ! (b - 1)))"
      using True by (subst get_metadata_loop.simps) simp
    then show ?thesis using less.prems True by blast
  next
    case False
    let ?m = "(b + a) div 2"
    have m: "mp = int ?m" using less.prems by (simp add: zdiv_int)
    have r: "a \<le> ?m" "?m < b" using False less.prems by auto
    have at: "ix_at ix mp = Some (ix ! ?m)" unfolding m using r less.prems by (intro ix_at_nat) simp
    show ?thesis
    proof (cases "key (ix ! ?m) \<le> p")
      case True
      have "get_metadata_loop ix p (int a) (int b) mp
          = get_metadata_loop ix p (int (?m + 1)) (int b) ((int b + int (?m + 1)) div 2)"
        using True False at m by (subst get_metadata_loop.simps) (simp add: ac_simps)
      then show ?thesis
        using less.hyps [of b "?m + 1" "(int b + int (?m + 1)) div 2"] r True less.prems by simp
    next
      case F2: False
      have "get_metadata_loop ix p (int a) (int b) mp
          = get_metadata_loop ix p (int a) (int ?m) ((int ?m + int a) div 2)"
        using F2 False at m by (subst get_metadata_loop.simps) simp
      then show ?thesis
        using less.hyps [of ?m a "(int ?m + int a) div 2"] r F2 less.prems by simp
    qed
  qed
qed

lemma index_entry:
  assumes "index_of os ix" and "1 \<le> k" and "k < length ix"
  shows "ix_metadata (ix ! k) = acc_upto os (key (ix ! k))"
proof -
  have "ix \<noteq> []" and "ix ! k = tl ix ! (k - 1)" and "k - 1 < length (tl ix)"
    using assms(2,3) by (auto simp: nth_tl)
  then show ?thesis using assms(1) by (auto simp: index_of_def list_all_length)
qed

lemma index_sorted:
  assumes "index_of os ix" and "1 \<le> j" and "j < k" and "k < length ix"
  shows "key (ix ! j) < key (ix ! k)"
proof -
  have ne: "ix \<noteq> []" using assms(4) by auto
  have "sorted_wrt (<) (map key (tl ix))" using assms(1) ne by (simp add: index_of_def)
  then have "map key (tl ix) ! (j - 1) < map key (tl ix) ! (k - 1)"
    by (rule sorted_wrt_nth_less) (use assms in auto)
  then show ?thesis using assms by (simp add: nth_tl)
qed

lemma index_mono:
  "index_of os ix \<Longrightarrow> 1 \<le> j \<Longrightarrow> j \<le> k \<Longrightarrow> k < length ix \<Longrightarrow> key (ix ! j) \<le> key (ix ! k)"
  using index_sorted [of os ix j k] by (cases "j = k") auto

lemma index_keys:
  assumes "index_of os ix" and "x \<in> set os"
  shows "\<exists>j. 1 \<le> j \<and> j < length ix \<and> key (ix ! j) = minPrice x"
proof -
  have ne: "ix \<noteq> []" using assms by (auto simp: index_of_def)
  then have "minPrice x \<in> key ` set (tl ix)" using assms by (auto simp: index_of_def)
  then obtain i where "i < length (tl ix)" "key (tl ix ! i) = minPrice x"
    by (auto simp: in_set_conv_nth)
  then show ?thesis using ne by (intro exI [of _ "Suc i"]) (simp add: nth_tl)
qed

lemma get_metadata_search:
  assumes "length ix = Suc b" and "1 \<le> b"
  shows "get_metadata ix p =
    (if key (ix ! b) \<le> p then Some (ix_metadata (ix ! b))
     else get_metadata_loop ix p (int 1) (int b) ((int b + int 1) div 2))"
  using assms ix_at_nat [of b ix] by (simp add: get_metadata_def Let_def)

lemma get_metadata_eq:
  assumes ix: "index_of os ix"
  shows "get_metadata ix p = Some (acc_upto os p)"
proof (cases "length ix \<le> 1")
  case True
  then have "os = []" using index_keys [OF ix] by (cases os) fastforce+
  then have "acc_upto os p = ea_empty" by (intro acc_upto_none) simp
  then show ?thesis using True by (simp add: get_metadata_def)
next
  case False
  then obtain b where len: "length ix = Suc b" and b1: "1 \<le> b" by (cases "length ix") auto
  then have b: "1 \<le> b" "b < length ix" by auto
  note search = get_metadata_search [OF len b1, of p]
  show ?thesis
  proof (cases "key (ix ! b) \<le> p")
    case True
    have "minPrice x \<le> key (ix ! b)" if x: "x \<in> set os" for x
    proof -
      obtain j where "1 \<le> j" "j < length ix" "key (ix ! j) = minPrice x" using index_keys [OF ix x] by blast
      then show ?thesis using index_mono [OF ix, of j b] b len by simp
    qed
    then have "acc_upto os (key (ix ! b)) = acc_upto os p"
      using True by (intro acc_upto_cong) fastforce
    then show ?thesis
      using True search index_entry [OF ix b] by simp
  next
    case above: False
    obtain k where k: "1 \<le> k" "k < length ix" "p < key (ix ! k)" "k \<noteq> 1 \<longrightarrow> key (ix ! (k - 1)) \<le> p"
      and res: "get_metadata_loop ix p (int 1) (int b) ((int b + int 1) div 2) = Some (ix_metadata (ix ! (k - 1)))"
      using get_metadata_loop_correct [of 1 b ix p "(int b + int 1) div 2"] above b by auto
    have gm: "get_metadata ix p = Some (ix_metadata (ix ! (k - 1)))"
      using above search res by simp
    have below: "minPrice x \<le> p \<longleftrightarrow> k \<noteq> 1 \<and> minPrice x \<le> key (ix ! (k - 1))" if x: "x \<in> set os" for x
    proof -
      obtain j where j: "1 \<le> j" "j < length ix" "key (ix ! j) = minPrice x" using index_keys [OF ix x] by blast
      have "minPrice x \<le> p \<Longrightarrow> j < k"
        using j k index_sorted [OF ix, of k j] by (cases "j = k") (auto simp: not_less nat_neq_iff)
      moreover have "minPrice x \<le> key (ix ! (k - 1))" if "j < k"
        using that j k index_mono [OF ix, of j "k - 1"] by simp
      ultimately show ?thesis using j k by (cases "k = 1") auto
    qed
    have "ix_metadata (ix ! (k - 1)) = acc_upto os p"
    proof (cases "k = 1")
      case True
      have "ix \<noteq> []" using k by auto
      then have "ix_metadata (ix ! 0) = ea_empty" using ix by (simp add: index_of_def hd_conv_nth)
      moreover have "acc_upto os p = ea_empty" using below True by (intro acc_upto_none) (meson not_le)
      ultimately show ?thesis using True by simp
    next
      case False
      then have "ix_metadata (ix ! (k - 1)) = acc_upto os (key (ix ! (k - 1)))"
        using k by (intro index_entry [OF ix]) auto
      also have "\<dots> = acc_upto os p" using below False by (intro acc_upto_cong) auto
      finally show ?thesis .
    qed
    then show ?thesis using gm by simp
  qed
qed

section \<open>Execution prices\<close>

definition exchange_rate :: "price \<Rightarrow> price \<Rightarrow> nat" where
  "exchange_rate sell_price buy_price = sell_price * 2 ^ 24 div buy_price"

definition full_exec_price :: "price \<Rightarrow> price \<Rightarrow> nat \<Rightarrow> nat" where
  "full_exec_price sell_price buy_price sm =
     (let r = exchange_rate sell_price buy_price in if sm \<noteq> 0 then r - r div 2 ^ sm else r)"

lemma divide_prices_eq:
  assumes "buy \<noteq> 0" and "sell < 2 ^ 64"
  shows "divide_prices sell buy = Some (exchange_rate sell buy mod 2 ^ 64)"
proof -
  have "sell * 2 ^ 64 < 2 ^ 64 * 2 ^ 64" using assms(2) by simp
  then have "u128 (sell * 2 ^ 64) = sell * 2 ^ 64" by simp
  moreover have "sell * 2 ^ 64 div buy div 2 ^ 40 = exchange_rate sell buy"
  proof -
    have "sell * 2 ^ 64 div buy div 2 ^ 40 = (sell * 2 ^ 24) * 2 ^ 40 div (buy * 2 ^ 40)"
      by (simp add: div_mult2_eq mult.commute)
    also have "\<dots> = sell * 2 ^ 24 div buy" by (rule div_mult_mult2) simp
    finally show ?thesis by (simp add: exchange_rate_def)
  qed
  ultimately show ?thesis using assms(1) by (simp add: divide_prices_def Let_def PRICE_RADIX_def)
qed

lemma get_execution_prices_eq:
  assumes "buy \<noteq> 0" and "sell < 2 ^ 64" and "exchange_rate sell buy < 2 ^ 64" and "sm < 64"
  shows "get_execution_prices sell buy sm = Some (full_exec_price sell buy sm, exchange_rate sell buy)"
  using assms
  by (simp add: get_execution_prices_def divide_prices_eq smooth_mult_def full_exec_price_def Let_def
      sub64_id)

lemma get_execution_prices_le: "full_exec_price sell buy sm \<le> exchange_rate sell buy"
  by (simp add: full_exec_price_def Let_def)

lemma rate_le: "b \<noteq> 0 \<Longrightarrow> exchange_rate s b * b \<le> s * 2 ^ 24"
  by (simp add: exchange_rate_def)

lemma rate_less: "b \<noteq> 0 \<Longrightarrow> s * 2 ^ 24 < (exchange_rate s b + 1) * b"
  unfolding exchange_rate_def by (metis Suc_eq_plus1 dividend_less_div_times add.commute gr0I mult_Suc)

section \<open>Exactness of the accumulators\<close>

definition total_endow :: "offer list \<Rightarrow> nat" where
  "total_endow os = sum_list (map amount os)"

lemma sum_filter_le: "sum_list (map f (filter P xs)) \<le> sum_list (map f xs)" for f :: "'a \<Rightarrow> nat"
  by (induction xs) auto

lemma sum_filter_mono:
  fixes f :: "'a \<Rightarrow> nat"
  assumes "\<And>x. P x \<Longrightarrow> Q x"
  shows "sum_list (map f (filter Q xs)) = sum_list (map f (filter P xs)) + sum_list (map f (filter (\<lambda>x. Q x \<and> \<not> P x) xs))"
  using assms by (induction xs) auto

lemma endow_upto_le: "endow_upto os p \<le> total_endow os"
  unfolding endow_upto_def total_endow_def by (rule sum_filter_le)

lemma endow_upto_mono: "p \<le> q \<Longrightarrow> endow_upto os p \<le> endow_upto os q"
  unfolding endow_upto_def by (subst sum_filter_mono [of "\<lambda>x. minPrice x \<le> p"]) auto

lemma value_upto_mono: "p \<le> q \<Longrightarrow> value_upto os p \<le> value_upto os q"
  unfolding value_upto_def by (subst sum_filter_mono [of "\<lambda>x. minPrice x \<le> p" "\<lambda>x. minPrice x \<le> q"]) auto

text \<open>The offers above \<open>p\<close> up to \<open>q\<close>.\<close>

definition between :: "offer list \<Rightarrow> price \<Rightarrow> price \<Rightarrow> offer list" where
  "between os p q = filter (\<lambda>x. minPrice x \<le> q \<and> \<not> minPrice x \<le> p) os"

definition between_value :: "offer list \<Rightarrow> price \<Rightarrow> price \<Rightarrow> nat" where
  "between_value os p q = sum_list (map (\<lambda>x. amount x * minPrice x) (between os p q))"

lemma between_endow: "p \<le> q \<Longrightarrow> endow_upto os q - endow_upto os p = total_endow (between os p q)"
  unfolding endow_upto_def total_endow_def between_def
  by (subst sum_filter_mono [of "\<lambda>x. minPrice x \<le> p" "\<lambda>x. minPrice x \<le> q"]) auto

lemma between_value: "p \<le> q \<Longrightarrow> value_upto os q - value_upto os p = between_value os p q"
  unfolding value_upto_def between_value_def between_def
  by (subst sum_filter_mono [of "\<lambda>x. minPrice x \<le> p" "\<lambda>x. minPrice x \<le> q"]) auto

lemma between_value_le: "between_value os p q \<le> total_endow (between os p q) * q"
  unfolding between_value_def total_endow_def between_def by (induction os) (auto simp: distrib_right add_mono)

lemma between_value_ge: "total_endow (between os p q) * (p + 1) \<le> between_value os p q"
  unfolding between_value_def total_endow_def between_def sum_list_mult_const [symmetric] map_map [symmetric]
  by (intro sum_list_mono mult_le_mono2) auto

lemma value_upto_le: "value_upto os p \<le> endow_upto os p * p"
  unfolding value_upto_def endow_upto_def by (induction os) (auto simp: distrib_right add_mono)

lemma acc_upto_exact:
  assumes "total_endow os < 2 ^ 63" and "p < 2 ^ 64"
  shows "acc_upto os p = \<lparr>endow = int (endow_upto os p), endow_times_price = int (value_upto os p)\<rparr>"
proof -
  have e: "endow_upto os p < 2 ^ 63" using endow_upto_le [of os p] assms(1) by linarith
  have "value_upto os p \<le> endow_upto os p * p" by (rule value_upto_le)
  also have "\<dots> \<le> (2 ^ 63 - 1) * 2 ^ 64" using e assms(2) by (intro mult_mono) auto
  finally have "value_upto os p < 2 ^ 127" by simp
  then have v: "int (value_upto os p) < 2 ^ 127" by simp
  have "int (endow_upto os p) < 2 ^ 63" using e by simp
  then show ?thesis using v by (simp add: acc_upto_def i64_def i128_def)
qed

section \<open>The demand computation\<close>

lemma to_u_exact:
  "n < 2 ^ 64 \<Longrightarrow> to_u64 (int n) = n" "n < 2 ^ 128 \<Longrightarrow> to_u128 (int n) = n"
  by (simp_all add: to_u64_def to_u128_def)

text \<open>
  The volumes an orderbook contributes at exchange rate \<open>sell / buy\<close>: offers up to the full
  execution price trade completely, those above it up to the rate trade a share that falls
  linearly from one to zero. Both volumes carry 24 fractional bits.
\<close>

definition smoothed_supply :: "offer list \<Rightarrow> price \<Rightarrow> price \<Rightarrow> nat \<Rightarrow> nat" where
  "smoothed_supply os sell buy sm =
     (let lo = full_exec_price sell buy sm; hi = exchange_rate sell buy
      in endow_upto os lo * 2 ^ 24
         + (if sm = 0 then 0
            else total_endow (between os lo hi) * 2 ^ sm * 2 ^ 24
                 - between_value os lo hi * 2 ^ sm * buy div sell))"

definition smoothed_demand :: "offer list \<Rightarrow> price \<Rightarrow> price \<Rightarrow> nat \<Rightarrow> nat" where
  "smoothed_demand os sell buy sm =
     (let lo = full_exec_price sell buy sm; hi = exchange_rate sell buy
      in endow_upto os lo * 2 ^ 24 * sell div buy
         + (if sm = 0 then 0
            else total_endow (between os lo hi) * 2 ^ sm * 2 ^ 24 * sell div buy
                 - between_value os lo hi * 2 ^ sm))"

lemma rate_mult_div_less:
  assumes "b \<noteq> 0" and "exchange_rate s b < 2 ^ 64" and "x < 2 ^ 63"
  shows "x * 2 ^ 24 * s div b < 2 ^ 127"
proof -
  have "x * 2 ^ 24 * s = x * (s * 2 ^ 24)" by simp
  also have "\<dots> \<le> x * ((exchange_rate s b + 1) * b)"
    using rate_less [OF assms(1)] by (intro mult_le_mono2 less_imp_le)
  also have "\<dots> = x * (exchange_rate s b + 1) * b" by (simp only: mult.assoc)
  finally have "x * 2 ^ 24 * s div b \<le> x * (exchange_rate s b + 1)"
    using assms(1) by (metis div_le_mono nonzero_mult_div_cancel_right)
  also have "\<dots> \<le> (2 ^ 63 - 1) * 2 ^ 64" using assms by (intro mult_le_mono) auto
  finally show ?thesis by simp
qed

lemma partial_value_bounds:
  assumes "sell \<noteq> 0" and "buy \<noteq> 0" and "V \<le> E * exchange_rate sell buy"
  shows "V * buy div sell \<le> E * 2 ^ 24" and "V \<le> E * 2 ^ 24 * sell div buy"
proof -
  have "V * buy \<le> E * (exchange_rate sell buy * buy)" using assms(3) by (metis mult.assoc mult_le_mono1)
  also have "\<dots> \<le> E * (sell * 2 ^ 24)" using rate_le [OF assms(2)] by (rule mult_le_mono2)
  finally have le: "V * buy \<le> E * 2 ^ 24 * sell" by (simp add: ac_simps)
  then show "V * buy div sell \<le> E * 2 ^ 24"
    using assms(1) by (metis div_le_mono nonzero_mult_div_cancel_right)
  show "V \<le> E * 2 ^ 24 * sell div buy"
    using le assms(2) by (metis div_le_mono nonzero_mult_div_cancel_right)
qed

lemma partial_volumes_eq:
  assumes p: "sell \<noteq> 0" "buy \<noteq> 0" "sell < 2 ^ 64" "buy < 2 ^ 64"
    and r: "exchange_rate sell buy < 2 ^ 64" and sm: "sm < 64" and E: "E * 2 ^ sm < 2 ^ 63"
    and V: "V \<le> E * exchange_rate sell buy"
  shows "partial_volumes sell buy sm E V =
    Inr (E * 2 ^ sm * 2 ^ 24 - V * 2 ^ sm * buy div sell,
         E * 2 ^ sm * 2 ^ 24 * sell div buy - V * 2 ^ sm)"
proof -
  let ?E = "E * 2 ^ sm" and ?V = "V * 2 ^ sm"
  have V': "?V \<le> ?E * exchange_rate sell buy" using V by (simp add: ac_simps)
  note b = partial_value_bounds [OF p(1,2) V']
  have big: "?E * 2 ^ 24 * sell div buy < 2 ^ 127" by (rule rate_mult_div_less [OF p(2) r E])
  then have big': "?E * 2 ^ 24 * sell div buy < 2 ^ 128" by (rule less_trans) simp
  have Vs: "?V < 2 ^ 128" by (rule le_less_trans [OF b(2) big'])
  have Es: "?E * 2 ^ 24 < 2 ^ 128" using E by simp
  have w1: "wide_multiply_val_by_a_over_b ?V buy sell = Some (?V * buy div sell)"
    using p le_less_trans [OF b(1) Es] by (intro wide_multiply_eq)
  have w2: "wide_multiply_val_by_a_over_b (?E * 2 ^ 24) sell buy = Some (?E * 2 ^ 24 * sell div buy)"
    using p big' by (intro wide_multiply_eq)
  have u: "u64 ?E = ?E" "u128 ?V = ?V" "u128 (?E * 2 ^ PRICE_RADIX) = ?E * 2 ^ 24"
    using E Vs Es by (simp_all add: PRICE_RADIX_def)
  have s: "sub128 (?E * 2 ^ 24) (?V * buy div sell) = ?E * 2 ^ 24 - ?V * buy div sell"
      "sub128 (?E * 2 ^ 24 * sell div buy) ?V = ?E * 2 ^ 24 * sell div buy - ?V"
    using b Es big' by (simp_all only: sub128_id)
  show ?thesis
    unfolding partial_volumes_def using sm b
    by (simp only: Let_def not_le [THEN iffD2, OF sm] u w1 w2 s from_ub_simps bind_result_simps not_le if_False leD)
qed

lemma full_exec_price_0: "full_exec_price sell buy 0 = exchange_rate sell buy"
  by (simp add: full_exec_price_def Let_def)

lemma calculate_from_metadata_eq:
  assumes p: "sell \<noteq> 0" "buy \<noteq> 0" "sell < 2 ^ 64" "buy < 2 ^ 64"
      "prices ! sellAsset cat = sell" "prices ! buyAsset cat = buy"
    and r: "exchange_rate sell buy < 2 ^ 64" and sm: "sm < 64" and T: "total_endow os * 2 ^ sm < 2 ^ 63"
  shows "calculate_demands_and_supplies_from_metadata cat prices dem sp sm
      (acc_upto os (exchange_rate sell buy)) (acc_upto os (full_exec_price sell buy sm))
    = Inr (upd_at dem (buyAsset cat) (\<lambda>v. u128 (v + smoothed_demand os sell buy sm)),
           upd_at sp (sellAsset cat) (\<lambda>v. u128 (v + smoothed_supply os sell buy sm)))"
proof -
  let ?lo = "full_exec_price sell buy sm" and ?hi = "exchange_rate sell buy"
  let ?EF = "endow_upto os ?lo" and ?E = "total_endow (between os ?lo ?hi)" and ?V = "between_value os ?lo ?hi"
  have le: "?lo \<le> ?hi" by (rule get_execution_prices_le)
  have T1: "total_endow os < 2 ^ 63"
    by (rule le_less_trans [OF _ T]) simp
  have lo: "?lo < 2 ^ 64" using le r by linarith
  have Eh: "endow_upto os ?hi < 2 ^ 63" using endow_upto_le [of os ?hi] T1 by linarith
  have EF: "?EF < 2 ^ 63" using endow_upto_le [of os ?lo] T1 by linarith
  have "?E \<le> total_endow os" unfolding total_endow_def between_def by (rule sum_filter_le)
  then have "?E * 2 ^ sm \<le> total_endow os * 2 ^ sm" by (rule mult_le_mono1)
  then have E: "?E * 2 ^ sm < 2 ^ 63" using T by linarith
  have vh: "value_upto os q < 2 ^ 128" if "endow_upto os q < 2 ^ 63" "q < 2 ^ 64" for q
  proof -
    have "value_upto os q \<le> endow_upto os q * q" by (rule value_upto_le)
    also have "\<dots> \<le> (2 ^ 63) * 2 ^ 64" using that by (intro mult_mono) auto
    finally show ?thesis by simp
  qed
  have acc: "acc_upto os ?hi = \<lparr>endow = int (endow_upto os ?hi), endow_times_price = int (value_upto os ?hi)\<rparr>"
      "acc_upto os ?lo = \<lparr>endow = int ?EF, endow_times_price = int (value_upto os ?lo)\<rparr>"
    using acc_upto_exact [OF T1] r lo by blast+
  have u: "to_u64 (int (endow_upto os ?hi)) = endow_upto os ?hi" "to_u64 (int ?EF) = ?EF"
      "to_u128 (int (value_upto os ?hi)) = value_upto os ?hi" "to_u128 (int (value_upto os ?lo)) = value_upto os ?lo"
    using Eh EF vh [OF Eh r] vh [OF EF lo] by (simp_all add: to_u_exact)
  have d: "sub64 (endow_upto os ?hi) ?EF = ?E"
    using sub64_id [OF endow_upto_mono [OF le]] Eh between_endow [OF le, of os] by simp
  have dv: "sub128 (value_upto os ?hi) (value_upto os ?lo) = ?V"
    using sub128_id [OF value_upto_mono [OF le] vh [OF Eh r]] between_value [OF le, of os] by simp
  have nv: "\<not> int (value_upto os ?hi) < int (value_upto os ?lo)" using value_upto_mono [OF le, of os] by simp
  have V: "?V \<le> ?E * ?hi" by (rule between_value_le)
  have pv: "(if sm \<noteq> 0 then partial_volumes sell buy sm ?E ?V else Inr (0, 0))
      = Inr (if sm = 0 then 0 else ?E * 2 ^ sm * 2 ^ 24 - ?V * 2 ^ sm * buy div sell,
             if sm = 0 then 0 else ?E * 2 ^ sm * 2 ^ 24 * sell div buy - ?V * 2 ^ sm)"
    using partial_volumes_eq [OF p(1-4) r sm E V] by simp
  have uE: "u128 (?EF * 2 ^ PRICE_RADIX) = ?EF * 2 ^ 24" using EF by (simp add: PRICE_RADIX_def)
  have "?EF * 2 ^ 24 * sell div buy < 2 ^ 128"
    by (rule less_trans [OF rate_mult_div_less [OF p(2) r EF]]) simp
  then have w: "wide_multiply_val_by_a_over_b (?EF * 2 ^ 24) sell buy = Some (?EF * 2 ^ 24 * sell div buy)"
    using p by (intro wide_multiply_eq)
  have add: "u128 (v + u128 x) = u128 (v + x)" for v x by (simp add: u128_def mod_add_right_eq)
  show ?thesis
    unfolding calculate_demands_and_supplies_from_metadata_def Let_def p(5,6) acc endow_accumulator.simps
      u d dv if_not_P [OF nv] pv bind_result_simps prod.case uE w from_ub_simps bind_result_simps add
    by (simp add: smoothed_demand_def smoothed_supply_def Let_def ac_simps PRICE_RADIX_def)
qed

text \<open>The smoothed supply lies between the two supply bounds.\<close>

lemma smoothed_supply_bounds:
  assumes p: "sell \<noteq> 0" "buy \<noteq> 0"
  shows "endow_upto os (full_exec_price sell buy sm) * 2 ^ 24 \<le> smoothed_supply os sell buy sm"
    and "smoothed_supply os sell buy sm \<le> endow_upto os (exchange_rate sell buy) * 2 ^ 24"
proof -
  let ?lo = "full_exec_price sell buy sm" and ?r = "exchange_rate sell buy"
  let ?E = "total_endow (between os ?lo ?r)" and ?V = "between_value os ?lo ?r"
  show "endow_upto os ?lo * 2 ^ 24 \<le> smoothed_supply os sell buy sm"
    by (simp add: smoothed_supply_def Let_def)
  have le: "?lo \<le> ?r" by (rule get_execution_prices_le)
  have split: "endow_upto os ?r = endow_upto os ?lo + ?E"
    using endow_upto_mono [OF le, of os] between_endow [OF le, of os] by simp
  show "smoothed_supply os sell buy sm \<le> endow_upto os ?r * 2 ^ 24"
  proof (cases "sm = 0")
    case True
    then show ?thesis by (simp add: smoothed_supply_def Let_def full_exec_price_0)
  next
    case False
    let ?k = "(2 :: nat) ^ sm"
    have lo: "?lo = ?r - ?r div ?k" using False by (simp add: full_exec_price_def Let_def)
    have "?k * (?r div ?k) \<le> Suc ?r" by (rule le_SucI) simp
    then have "(?k - 1) * (?r + 1) \<le> (?lo + 1) * ?k"
      unfolding lo by (simp add: algebra_simps diff_mult_distrib diff_le_mono2)
    then have "?E * ((?k - 1) * (?r + 1)) \<le> ?E * ((?lo + 1) * ?k)" by (rule mult_le_mono2)
    also have "\<dots> \<le> ?V * ?k" using between_value_ge [of os ?lo ?r] by (metis mult.assoc mult_le_mono1)
    finally have v: "?E * (?k - 1) * (?r + 1) \<le> ?V * ?k" by (simp only: mult.assoc)
    have "?E * (?k - 1) * 2 ^ 24 * sell = ?E * (?k - 1) * (sell * 2 ^ 24)" by (simp only: ac_simps)
    also have "\<dots> \<le> ?E * (?k - 1) * ((?r + 1) * buy)"
      using rate_less [OF p(2), of sell] by (intro mult_le_mono2 less_imp_le)
    also have "\<dots> = ?E * (?k - 1) * (?r + 1) * buy" by (simp only: mult.assoc)
    also have "\<dots> \<le> ?V * ?k * buy" using v by (rule mult_le_mono1)
    finally have "?E * (?k - 1) * 2 ^ 24 \<le> ?V * ?k * buy div sell"
      using p(1) by (metis div_le_mono nonzero_mult_div_cancel_right)
    then have "?E * ?k * 2 ^ 24 - ?V * ?k * buy div sell \<le> ?E * ?k * 2 ^ 24 - ?E * (?k - 1) * 2 ^ 24"
      by (rule diff_le_mono2)
    also have "\<dots> = ?E * 2 ^ 24" by (simp add: diff_mult_distrib diff_mult_distrib2)
    finally show ?thesis using False by (simp add: smoothed_supply_def Let_def split distrib_right)
  qed
qed

section \<open>Properties\<close>

text \<open>
  Property C16. The binary search in the index of an orderbook always ends, never leaves the
  index, and returns the exact endowment, and endowment times limit price, of all offers whose
  limit price is at most the queried price.
\<close>

theorem get_metadata_prefix_sum:
  assumes "index_of os ix" and "total_endow os < 2 ^ 63" and "p < 2 ^ 64"
  shows "get_metadata ix p =
    Some \<lparr>endow = int (endow_upto os p), endow_times_price = int (value_upto os p)\<rparr>"
  using get_metadata_eq [OF assms(1), of p] acc_upto_exact [OF assms(2,3)] by simp

definition example_offer :: "nat \<Rightarrow> nat \<Rightarrow> price \<Rightarrow> offer" where
  "example_offer i a p =
     \<lparr>category = \<lparr>sellAsset = 0, buyAsset = 1, cat_type = SELL\<rparr>, offerId = i, owner = 7, amount = a, minPrice = p\<rparr>"

definition example_offers :: "offer list" where
  "example_offers = [example_offer 1 10 3, example_offer 2 20 5, example_offer 3 40 5, example_offer 4 7 9]"

theorem get_metadata_prefix_sum_witness:
  "get_metadata (build_index example_offers) 6 = Some \<lparr>endow = 70, endow_times_price = 330\<rparr>"
  using get_metadata_prefix_sum [OF build_index_ok, of example_offers 6]
  by (simp add: example_offers_def example_offer_def total_endow_def endow_upto_def value_upto_def)

text \<open>
  Property C15. Within the stated bounds the demand query of Tatonnement never reaches one of its
  three throws: it adds to the demand of the bought asset and to the supply of the sold asset
  exactly the smoothed volumes, and the smoothed supply always lies between the lower and the
  upper supply bound that the same orderbook reports to the clearing solver.
\<close>

theorem demand_query_correct:
  assumes "index_of os ix" and "prices ! sellAsset cat = sell" and "prices ! buyAsset cat = buy"
    and "is_valid_price sell" and "is_valid_price buy" and "exchange_rate sell buy < 2 ^ 64"
    and "sm < 64" and "total_endow os * 2 ^ sm < 2 ^ 63"
  shows "calculate_demands_and_supplies cat ix prices dem sp sm =
      Inr (upd_at dem (buyAsset cat) (\<lambda>v. u128 (v + smoothed_demand os sell buy sm)),
           upd_at sp (sellAsset cat) (\<lambda>v. u128 (v + smoothed_supply os sell buy sm)))
    \<and> (\<exists>lower upper. get_supply_bounds ix sell buy sm = Some (lower, upper)
        \<and> lower * 2 ^ 24 \<le> smoothed_supply os sell buy sm
        \<and> smoothed_supply os sell buy sm \<le> upper * 2 ^ 24)"
proof -
  have p: "sell \<noteq> 0" "buy \<noteq> 0" "sell < 2 ^ 64" "buy < 2 ^ 64"
    using assms(4,5) by (auto simp: is_valid_price_def price_consts)
  let ?lo = "full_exec_price sell buy sm" and ?hi = "exchange_rate sell buy"
  have gm: "get_metadata ix q = Some (acc_upto os q)" for q by (rule get_metadata_eq [OF assms(1)])
  have ep: "get_execution_prices sell buy sm = Some (?lo, ?hi)"
    using p assms(6,7) by (intro get_execution_prices_eq)
  have em: "execution_metadata cat ix prices sm = Some (acc_upto os ?hi, acc_upto os ?lo)"
    using ep by (simp add: execution_metadata_def assms(2,3) gm full_exec_price_0)
  have T: "total_endow os < 2 ^ 63" by (rule le_less_trans [OF _ assms(8)]) simp
  have "?lo < 2 ^ 64" using get_execution_prices_le [of sell buy sm] assms(6) by linarith
  then have sb: "get_supply_bounds ix sell buy sm = Some (endow_upto os ?lo, endow_upto os ?hi)"
    using ep gm acc_upto_exact [OF T] assms(6) endow_upto_le [of os ?lo] endow_upto_le [of os ?hi] T
    by (simp add: get_supply_bounds_def to_u_exact)
  show ?thesis
    using calculate_from_metadata_eq [OF p assms(2,3,6,7,8)] em sb
      smoothed_supply_bounds [OF p(1,2), of os sm]
    by (simp add: calculate_demands_and_supplies_def del: power.simps)
qed

theorem demand_query_correct_witness:
  "calculate_demands_and_supplies \<lparr>sellAsset = 0, buyAsset = 1, cat_type = SELL\<rparr>
      (build_index example_offers) [6, 2 ^ 24] [0, 0] [0, 0] 2
    = Inr (upd_at [0, 0] 1 (\<lambda>v. u128 (v + smoothed_demand example_offers 6 (2 ^ 24) 2)),
           upd_at [0, 0] 0 (\<lambda>v. u128 (v + smoothed_supply example_offers 6 (2 ^ 24) 2)))
    \<and> (\<exists>lower upper. get_supply_bounds (build_index example_offers) 6 (2 ^ 24) 2 = Some (lower, upper)
        \<and> lower * 2 ^ 24 \<le> smoothed_supply example_offers 6 (2 ^ 24) 2
        \<and> smoothed_supply example_offers 6 (2 ^ 24) 2 \<le> upper * 2 ^ 24)"
  using demand_query_correct [OF build_index_ok, of "[6, 2 ^ 24]"
      "\<lparr>sellAsset = 0, buyAsset = 1, cat_type = SELL\<rparr>" 6 "2 ^ 24" 2 example_offers "[0, 0]" "[0, 0]"]
  by (simp add: is_valid_price_def price_consts exchange_rate_def total_endow_def example_offers_def
      example_offer_def del: power.simps)

end
