(* ===== verification/Orderbook.thy ===== *)
theory Orderbook
  imports Orderbook_Demand
begin

text \<open>
  One orderbook (\<^verbatim>\<open>orderbook/orderbook.{h,cc}\<close>, \<^verbatim>\<open>orderbook/thunk.h\<close> and the thunk list of
  \<^verbatim>\<open>orderbook/lmdb.h\<close>): committing the offers of a block, clearing them as the producer of a
  block or as its validator, and undoing a block.
  The offer trie comes from the trie submodule and is the argument \<open>T\<close>, a record of its operations;
  \<open>offer_trie_ok\<close> states their documented behaviour relative to a key-sorted list. The account
  database and the modification log are the argument \<open>D\<close>, the template parameter of the code.
  Main result: a validator that replays the clearing a producer committed to in the block
  header ends with the same database and the same book.
\<close>

section \<open>The operations of the offer trie\<close>

record 't offer_trie =
  ot_new :: 't
  ot_insert :: "offer_key \<Rightarrow> offer \<Rightarrow> 't \<Rightarrow> 't"
  ot_insert_rollback :: "offer_key \<Rightarrow> offer \<Rightarrow> 't \<Rightarrow> 't"
  ot_perform_deletion :: "offer_key \<Rightarrow> 't \<Rightarrow> 't \<times> offer option"
  ot_mark_for_deletion :: "offer_key \<Rightarrow> 't \<Rightarrow> 't \<times> offer option"
  ot_unmark_for_deletion :: "offer_key \<Rightarrow> 't \<Rightarrow> 't \<times> offer option"
  ot_perform_marked_deletions :: "'t \<Rightarrow> 't \<times> (offer_key \<times> offer) list"
  ot_merge_in :: "'t \<Rightarrow> 't \<Rightarrow> 't"
  ot_endow_split :: "int \<Rightarrow> 't \<Rightarrow> 't \<times> 't"
  ot_endow_lt_key :: "offer_key \<Rightarrow> 't \<Rightarrow> int"
  ot_get_lowest_key :: "'t \<Rightarrow> offer_key option"
  ot_root_endow :: "'t \<Rightarrow> int"
  ot_size :: "'t \<Rightarrow> nat"
  ot_values :: "'t \<Rightarrow> offer list"
  ot_metadata_traversal :: "'t \<Rightarrow> metadata_index"
  ot_do_rollback :: "'t \<Rightarrow> 't"
  ot_clear_rollback :: "'t \<Rightarrow> 't"
  ot_clean_singlechild_nodes :: "offer_key \<Rightarrow> 't \<Rightarrow> 't"

section \<open>State\<close>

record 't thunk =
  partial_exec_key :: offer_key
  partial_exec_amount :: int
  preexecute_partial_exec_offer :: "offer option"
  uncommitted_offers_vec :: "offer list"
  cleared_offers :: 't
  deleted_keys :: "(offer_key \<times> offer) list"
  exists_partial_exec :: bool
  current_block_number :: nat

definition new_thunk :: "'t offer_trie \<Rightarrow> nat \<Rightarrow> 't thunk" where
  "new_thunk T n =
     \<lparr>partial_exec_key = replicate ORDERBOOK_KEY_LEN 0, partial_exec_amount = - 1,
      preexecute_partial_exec_offer = None, uncommitted_offers_vec = [], cleared_offers = ot_new T,
      deleted_keys = [], exists_partial_exec = False, current_block_number = n\<rparr>"

definition set_no_partial_exec :: "'t thunk \<Rightarrow> 't thunk" where
  "set_no_partial_exec th =
     th\<lparr>exists_partial_exec := False, partial_exec_key := replicate ORDERBOOK_KEY_LEN 255\<rparr>"

definition set_partial_exec :: "offer_key \<Rightarrow> int \<Rightarrow> offer \<Rightarrow> 't thunk \<Rightarrow> 't thunk" where
  "set_partial_exec buf amt off th =
     th\<lparr>partial_exec_key := buf, partial_exec_amount := amt,
        preexecute_partial_exec_offer := Some off, exists_partial_exec := True\<rparr>"

record 't orderbook =
  ob_category :: offer_category
  committed_offers :: 't
  uncommitted_offers :: 't
  thunks :: "'t thunk list"
  indexed_metadata :: metadata_index

definition ob_init :: "'t offer_trie \<Rightarrow> offer_category \<Rightarrow> 't orderbook" where
  "ob_init T c =
     \<lparr>ob_category = c, committed_offers = ot_new T, uncommitted_offers = ot_new T, thunks = [],
      indexed_metadata = []\<rparr>"

definition add_new_thunk :: "'t thunk \<Rightarrow> 't orderbook \<Rightarrow> 't orderbook" where
  "add_new_thunk th ob = ob\<lparr>thunks := thunks ob @ [th]\<rparr>"

definition get_top_thunk :: "'t orderbook \<Rightarrow> 't thunk result" where
  "get_top_thunk ob =
     (if thunks ob = [] then Inl (RuntimeError ''cant get top thunk when thunks.size() == 0'')
      else Inr (List.last (thunks ob)))"

definition on_top_thunk :: "('t thunk \<Rightarrow> 't thunk) \<Rightarrow> 't orderbook \<Rightarrow> 't orderbook result" where
  "on_top_thunk f ob =
     bind_result (get_top_thunk ob) (\<lambda>th. Inr (ob\<lparr>thunks := butlast (thunks ob) @ [f th]\<rparr>))"

definition pop_top_thunk :: "'t orderbook \<Rightarrow> 't orderbook result" where
  "pop_top_thunk ob =
     (if thunks ob = [] then Inl (RuntimeError ''cant pop_back from empty thunks list'')
      else Inr (ob\<lparr>thunks := butlast (thunks ob)\<rparr>))"

section \<open>Committing the offers of a block\<close>

definition add_offers :: "'t offer_trie \<Rightarrow> 't \<Rightarrow> 't orderbook \<Rightarrow> 't orderbook" where
  "add_offers T offers ob = ob\<lparr>uncommitted_offers := ot_merge_in T offers (uncommitted_offers ob)\<rparr>"

definition ob_mark_for_deletion ::
  "'t offer_trie \<Rightarrow> offer_key \<Rightarrow> 't orderbook \<Rightarrow> 't orderbook \<times> offer option" where
  "ob_mark_for_deletion T k ob =
     (case ot_mark_for_deletion T k (committed_offers ob) of (t, r) \<Rightarrow> (ob\<lparr>committed_offers := t\<rparr>, r))"

definition ob_unmark_for_deletion ::
  "'t offer_trie \<Rightarrow> offer_key \<Rightarrow> 't orderbook \<Rightarrow> 't orderbook \<times> offer option" where
  "ob_unmark_for_deletion T k ob =
     (case ot_unmark_for_deletion T k (committed_offers ob) of (t, r) \<Rightarrow> (ob\<lparr>committed_offers := t\<rparr>, r))"

definition tentative_commit_for_validation :: "'t offer_trie \<Rightarrow> nat \<Rightarrow> 't orderbook \<Rightarrow> 't orderbook" where
  "tentative_commit_for_validation T n ob =
     (let (committed, deleted) = ot_perform_marked_deletions T (committed_offers ob);
          th = (new_thunk T n)\<lparr>uncommitted_offers_vec := ot_values T (uncommitted_offers ob),
                              deleted_keys := deleted\<rparr>
      in (add_new_thunk th ob)
           \<lparr>committed_offers := ot_merge_in T (uncommitted_offers ob) committed,
            uncommitted_offers := ot_new T\<rparr>)"

definition generate_metadata_index :: "'t offer_trie \<Rightarrow> 't orderbook \<Rightarrow> 't orderbook" where
  "generate_metadata_index T ob = ob\<lparr>indexed_metadata := ot_metadata_traversal T (committed_offers ob)\<rparr>"

definition commit_for_production :: "'t offer_trie \<Rightarrow> nat \<Rightarrow> 't orderbook \<Rightarrow> 't orderbook" where
  "commit_for_production T n ob = generate_metadata_index T (tentative_commit_for_validation T n ob)"

section \<open>Clearing\<close>

text \<open>
  The template parameter \<^verbatim>\<open>DB\<close> is a record of its two operations. The account modification log
  is kept as the sequence of \<^verbatim>\<open>log_self_modification\<close> calls made on it.
\<close>

record ('p, 'db) clearing_db =
  cd_lookup_user :: "account_id \<Rightarrow> 'db \<Rightarrow> 'p option"
  cd_transfer :: "('p, 'db) transfer"

type_synonym self_log = "(account_id \<times> nat) list"

definition log_self :: "offer \<Rightarrow> self_log \<Rightarrow> self_log" where
  "log_self off lg = lg @ [(owner off, offerId off)]"

definition complete_clearing ::
  "('p, 'db) clearing_db \<Rightarrow> price \<Rightarrow> price \<Rightarrow> nat \<Rightarrow> offer \<Rightarrow> 'db \<times> self_log \<Rightarrow> ('db \<times> self_log) result" where
  "complete_clearing D sellPrice buyPrice tax off st =
     (case st of (db, lg) \<Rightarrow>
      if a_over_b_lt_c sellPrice buyPrice (minPrice off)
      then Inl (RuntimeError ''Trying to clear an offer with bad price'')
      else if amount off = 0 then Inl (RuntimeError ''offer amount was 0!'')
      else case cd_lookup_user D (owner off) db of
        None \<Rightarrow> Inl (RuntimeError ''Offer in manager from nonexistent account'')
      | Some idx \<Rightarrow>
          bind_result (from_ub (clear_offer_full (cd_transfer D) off sellPrice buyPrice tax idx db))
            (\<lambda>db'. Inr (db', log_self off lg)))"

fun apply_clearing ::
  "('p, 'db) clearing_db \<Rightarrow> price \<Rightarrow> price \<Rightarrow> nat \<Rightarrow> offer list \<Rightarrow> 'db \<times> self_log \<Rightarrow> ('db \<times> self_log) result" where
  "apply_clearing D sellPrice buyPrice tax [] st = Inr st"
| "apply_clearing D sellPrice buyPrice tax (x # xs) st =
     bind_result (complete_clearing D sellPrice buyPrice tax x st)
       (apply_clearing D sellPrice buyPrice tax xs)"

definition zero_key :: offer_key where "zero_key = replicate ORDERBOOK_KEY_LEN 0"

text \<open>
  \<^verbatim>\<open>process_clear_offers\<close>, in the order of the code: split off the offers that clear completely,
  clear them, then execute the lowest remaining offer for what is left (\<open>process_partial\<close>).
  \<open>wr\<close> encodes a 128-bit value for the header.
\<close>

type_synonym ('t, 'db, 'h) producer_state =
  "'t orderbook \<times> ('db \<times> self_log) \<times> 'h single_orderbook_state_commitment \<times> block_state_update_stats"

definition process_partial ::
  "'t offer_trie \<Rightarrow> ('p, 'db) clearing_db \<Rightarrow> price \<Rightarrow> price \<Rightarrow> nat \<Rightarrow> fractional_asset \<Rightarrow> offer_key
    \<Rightarrow> ('t, 'db, 'h) producer_state \<Rightarrow> ('t, 'db, 'h) producer_state result" where
  "process_partial T D sellPrice buyPrice tax remaining_to_clear pkey st =
     (case st of (ob, (db, lg), com, stats) \<Rightarrow>
      let com1 = com\<lparr>thresholdKeyIsNull := 0\<rparr>;
          (committed, try_delete) = ot_perform_deletion T pkey (committed_offers ob)
      in case try_delete of
           None \<Rightarrow> Inl (RuntimeError ''couldnt find partial exec offer!!!'')
         | Some off \<Rightarrow>
             (let lg1 = log_self off lg
              in case cd_lookup_user D (owner off) db of
                   None \<Rightarrow> Inl (RuntimeError ''(partialexec) Offer in manager from nonexistent account'')
                 | Some idx \<Rightarrow>
                     bind_result (from_ub (clear_offer_partial (cd_transfer D) off sellPrice buyPrice tax
                                             remaining_to_clear idx db))
                       (\<lambda>(db1, sell_amount, buy_amount).
                          if amount off < to_u64 sell_amount
                          then Inl (RuntimeError ''should not have been partially clearing this offer'')
                          else bind_result
                            (on_top_thunk (set_partial_exec pkey sell_amount off)
                               (ob\<lparr>committed_offers := committed\<rparr>))
                            (\<lambda>ob1.
                               let com2 = com1\<lparr>partialExecThresholdKey := pkey\<rparr>;
                                   off' = off\<lparr>amount := sub64 (amount off) (to_u64 sell_amount)\<rparr>
                               in if amount off' > 0
                                  then Inr (ob1\<lparr>committed_offers := ot_insert T pkey off' (committed_offers ob1)\<rparr>,
                                            (db1, lg1), com2,
                                            stats\<lparr>partial_clear_offer_count := u32 (partial_clear_offer_count stats + 1)\<rparr>)
                                  else Inr (ob1, (db1, lg1), com2, stats)))))"

definition process_clear_offers ::
  "'t offer_trie \<Rightarrow> ('p, 'db) clearing_db \<Rightarrow> (nat \<Rightarrow> nat list) \<Rightarrow> fractional_asset \<Rightarrow> price list \<Rightarrow> nat
    \<Rightarrow> ('t, 'db, 'h) producer_state \<Rightarrow> ('t, 'db, 'h) producer_state result" where
  "process_clear_offers T D wr supply prices tax st =
     (case st of (ob, dl, com, stats) \<Rightarrow>
      let clear_amount = fa_floor supply
      in if int clear_amount > INT64_MAX
         then Inl (RuntimeError ''trying to clear more than there should exist'')
         else
           (let com1 = com\<lparr>fractionalSupplyActivated_bytes := wr supply\<rparr>;
                (committed, fully_cleared) = ot_endow_split T (int clear_amount) (committed_offers ob);
                sellPrice = prices ! sellAsset (ob_category ob);
                buyPrice = prices ! buyAsset (ob_category ob)
            in bind_result (apply_clearing D sellPrice buyPrice tax (ot_values T fully_cleared) dl)
                 (\<lambda>dl1.
                    let stats1 = stats\<lparr>fully_clear_offer_count :=
                                   u32 (fully_clear_offer_count stats + ot_size T fully_cleared)\<rparr>;
                        remaining_to_clear = fa_sub supply (fa_from_integral (to_u128 (ot_root_endow T fully_cleared)))
                    in bind_result
                         (on_top_thunk (\<lambda>th. th\<lparr>cleared_offers := fully_cleared\<rparr>) (ob\<lparr>committed_offers := committed\<rparr>))
                         (\<lambda>ob1.
                            let com2 = com1\<lparr>partialExecOfferActivationAmount_bytes := wr remaining_to_clear\<rparr>
                            in case ot_get_lowest_key T (committed_offers ob1) of
                                 None \<Rightarrow>
                                   if remaining_to_clear \<noteq> fa_from_integral 0
                                   then Inl (RuntimeError ''null partial_exec_key (lowest offer key) but remaining to clear is nonzero'')
                                   else bind_result (on_top_thunk set_no_partial_exec ob1)
                                     (\<lambda>ob2. Inr (ob2, dl1,
                                        com2\<lparr>partialExecThresholdKey := zero_key, thresholdKeyIsNull := 1\<rparr>, stats1))
                               | Some pkey \<Rightarrow>
                                   process_partial T D sellPrice buyPrice tax remaining_to_clear pkey
                                     (ob1, dl1, com2, stats1)))))"

text \<open>
  \<^verbatim>\<open>tentative_clear_offers_for_validation\<close>: the header fixes the threshold offer, so the partial
  execution comes first; \<open>validate_all\<close> is the branch without a threshold offer. The result
  carries the returned flag.
\<close>

type_synonym ('t, 'db) validator_state =
  "'t orderbook \<times> ('db \<times> self_log) \<times> single_validation_statistics \<times> block_state_update_stats"

definition activate :: "int \<Rightarrow> single_validation_statistics \<Rightarrow> single_validation_statistics" where
  "activate e vs = vs\<lparr>activated_supply := fa_add (activated_supply vs) (fa_from_integral (to_u128 e))\<rparr>"

definition validate_all ::
  "'t offer_trie \<Rightarrow> ('p, 'db) clearing_db \<Rightarrow> (nat list \<Rightarrow> nat) \<Rightarrow> price \<Rightarrow> price \<Rightarrow> nat
    \<Rightarrow> 'h single_orderbook_state_commitment \<Rightarrow> ('t, 'db) validator_state
    \<Rightarrow> (bool \<times> ('t, 'db) validator_state) result" where
  "validate_all T D rd sellPrice buyPrice tax com st =
     (case st of (ob, dl, vs, stats) \<Rightarrow>
      if memcmp (partialExecThresholdKey com) zero_key \<noteq> 0 then Inr (False, st)
      else if partialExecOfferActivationAmount rd com \<noteq> fa_from_integral 0 then Inr (False, st)
      else
        (let vs1 = activate (ot_root_endow T (committed_offers ob)) vs
         in bind_result (apply_clearing D sellPrice buyPrice tax (ot_values T (committed_offers ob)) dl)
              (\<lambda>dl1.
                 let stats1 = stats\<lparr>fully_clear_offer_count :=
                                u32 (fully_clear_offer_count stats + ot_size T (committed_offers ob))\<rparr>
                 in bind_result
                      (on_top_thunk (\<lambda>th. (set_no_partial_exec th)\<lparr>cleared_offers := committed_offers ob\<rparr>) ob)
                      (\<lambda>ob1. Inr (True, ob1\<lparr>committed_offers := ot_new T\<rparr>, dl1, vs1, stats1)))))"

definition validate_partial ::
  "'t offer_trie \<Rightarrow> ('p, 'db) clearing_db \<Rightarrow> (nat list \<Rightarrow> nat) \<Rightarrow> price \<Rightarrow> price \<Rightarrow> price list \<Rightarrow> nat
    \<Rightarrow> 'h single_orderbook_state_commitment \<Rightarrow> int \<Rightarrow> offer \<Rightarrow> ('t, 'db) validator_state
    \<Rightarrow> (bool \<times> ('t, 'db) validator_state) result" where
  "validate_partial T D rd sellPrice buyPrice prices tax com endow_below off st =
     (case st of (ob, (db, lg), vs, stats) \<Rightarrow>
      let lg1 = log_self off lg;
          pkey = partialExecThresholdKey com;
          restored = ob\<lparr>committed_offers := ot_insert T pkey off (committed_offers ob)\<rparr>
      in case cd_lookup_user D (owner off) db of
           None \<Rightarrow> Inr (False, restored, (db, lg1), vs, stats)
         | Some db_idx \<Rightarrow>
             bind_result
               (from_ub (clear_offer_partial (cd_transfer D) off
                           (prices ! sellAsset (category off)) (prices ! buyAsset (category off)) tax
                           (partialExecOfferActivationAmount rd com) db_idx db))
               (\<lambda>(db1, sell_amount, buy_amount).
                  if to_u64 sell_amount > amount off then Inr (False, restored, (db1, lg1), vs, stats)
                  else
                    (let (committed, cleared) = ot_endow_split T endow_below (committed_offers ob)
                     in bind_result
                          (on_top_thunk (\<lambda>th. (set_partial_exec pkey sell_amount off th)\<lparr>cleared_offers := cleared\<rparr>)
                             (ob\<lparr>committed_offers := committed\<rparr>))
                          (\<lambda>ob1. bind_result
                             (apply_clearing D sellPrice buyPrice tax (ot_values T cleared) (db1, lg1))
                             (\<lambda>dl2.
                                let stats1 = stats\<lparr>fully_clear_offer_count :=
                                               u32 (fully_clear_offer_count stats + ot_size T cleared)\<rparr>;
                                    off' = off\<lparr>amount := sub64 (amount off) (to_u64 sell_amount)\<rparr>
                                in if amount off' \<noteq> 0
                                   then Inr (True,
                                     ob1\<lparr>committed_offers := ot_insert T pkey off' (committed_offers ob1)\<rparr>, dl2, vs,
                                     stats1\<lparr>partial_clear_offer_count := u32 (partial_clear_offer_count stats1 + 1)\<rparr>)
                                   else Inr (True, ob1, dl2, vs, stats1))))))"

definition tentative_clear_offers_for_validation ::
  "'t offer_trie \<Rightarrow> ('p, 'db) clearing_db \<Rightarrow> (nat list \<Rightarrow> nat) \<Rightarrow> 'h single_orderbook_state_commitment
    \<Rightarrow> price list \<Rightarrow> nat \<Rightarrow> ('t, 'db) validator_state \<Rightarrow> (bool \<times> ('t, 'db) validator_state) result" where
  "tentative_clear_offers_for_validation T D rd com prices tax st =
     (case st of (ob, dl, vs, stats) \<Rightarrow>
      let pkey = partialExecThresholdKey com;
          endow_below = ot_endow_lt_key T pkey (committed_offers ob);
          vs1 = activate endow_below vs;
          sellPrice = prices ! sellAsset (ob_category ob);
          buyPrice = prices ! buyAsset (ob_category ob);
          (committed, partial_exec_offer_opt) = ot_perform_deletion T pkey (committed_offers ob);
          ob1 = ob\<lparr>committed_offers := committed\<rparr>
      in case partial_exec_offer_opt of
           None \<Rightarrow> validate_all T D rd sellPrice buyPrice tax com (ob1, dl, vs1, stats)
         | Some off \<Rightarrow>
             validate_partial T D rd sellPrice buyPrice prices tax com endow_below off (ob1, dl, vs1, stats))"

section \<open>Undoing a block\<close>

text \<open>
  \<open>wr8\<close> is the 64-bit big-endian writer used for offer keys. Inserting the offer of a thunk
  whose partial execution was recorded without an offer cannot happen (\<open>set_partial_exec\<close>
  stores both), the default-constructed offer of such a thunk is never read.
\<close>

definition offer_key_of :: "(offer_key \<Rightarrow> nat \<Rightarrow> nat \<Rightarrow> offer_key) \<Rightarrow> offer \<Rightarrow> offer_key" where
  "offer_key_of wr8 off = offer_trie_key wr8 off (replicate ORDERBOOK_KEY_LEN 0)"

definition undo_thunk ::
  "'t offer_trie \<Rightarrow> (offer_key \<Rightarrow> nat \<Rightarrow> nat \<Rightarrow> offer_key) \<Rightarrow> 't thunk \<Rightarrow> 't \<Rightarrow> 't" where
  "undo_thunk T wr8 th committed =
     (let c1 = fold (\<lambda>(k, off) t. ot_insert T k off t) (deleted_keys th) committed;
          c2 = ot_merge_in T (ot_clean_singlechild_nodes T (partial_exec_key th) (cleared_offers th)) c1;
          c3 = fold (\<lambda>off t. fst (ot_mark_for_deletion T (offer_key_of wr8 off) t)) (uncommitted_offers_vec th) c2;
          c4 = fst (ot_perform_marked_deletions T c3)
      in if exists_partial_exec th
         then (case preexecute_partial_exec_offer th of
                 Some off \<Rightarrow> ot_insert T (partial_exec_key th) off c4
               | None \<Rightarrow> c4)
         else c4)"

definition finalize_validation :: "'t offer_trie \<Rightarrow> 't orderbook \<Rightarrow> 't orderbook result" where
  "finalize_validation T ob =
     (let ob1 = ob\<lparr>committed_offers := ot_clear_rollback T (committed_offers ob)\<rparr>
      in if ot_size T (uncommitted_offers ob1) \<noteq> 0
         then Inl (RuntimeError ''shouldnt have uncommitted_offers nonempty when calling finalize'')
         else Inr ob1)"

definition rollback_validation ::
  "'t offer_trie \<Rightarrow> (offer_key \<Rightarrow> nat \<Rightarrow> nat \<Rightarrow> offer_key) \<Rightarrow> 't orderbook \<Rightarrow> 't orderbook result" where
  "rollback_validation T wr8 ob =
     (let ob1 = ob\<lparr>uncommitted_offers := ot_new T, committed_offers := ot_do_rollback T (committed_offers ob)\<rparr>
      in bind_result (get_top_thunk ob1) (\<lambda>th.
           pop_top_thunk (ob1\<lparr>committed_offers :=
             undo_thunk T wr8 (th\<lparr>uncommitted_offers_vec := []\<rparr>) (committed_offers ob1)\<rparr>)))"

fun ob_rollback_loop ::
  "'t offer_trie \<Rightarrow> (offer_key \<Rightarrow> nat \<Rightarrow> nat \<Rightarrow> offer_key) \<Rightarrow> nat \<Rightarrow> 't thunk list \<Rightarrow> 't \<Rightarrow> 't thunk list \<times> 't" where
  "ob_rollback_loop T wr8 n [] committed = ([], committed)"
| "ob_rollback_loop T wr8 n (th # ths) committed =
     (if current_block_number th > n
      then ob_rollback_loop T wr8 n ths (undo_thunk T wr8 th committed)
      else (let (kept, c) = ob_rollback_loop T wr8 n ths committed in (th # kept, c)))"

definition ob_rollback_thunks ::
  "'t offer_trie \<Rightarrow> (offer_key \<Rightarrow> nat \<Rightarrow> nat \<Rightarrow> offer_key) \<Rightarrow> nat \<Rightarrow> nat \<Rightarrow> 't orderbook \<Rightarrow> 't orderbook result" where
  "ob_rollback_thunks T wr8 persisted_round n ob =
     (if n < persisted_round then Inl (RuntimeError ''cant rollback persisted objects'')
      else (let (kept, c) = ob_rollback_loop T wr8 n (thunks ob) (committed_offers ob)
            in Inr (ob\<lparr>thunks := kept, committed_offers := c\<rparr>)))"

text \<open>Loading the offers found on disk, in cursor order.\<close>

fun load_offers ::
  "'t offer_trie \<Rightarrow> (offer_key \<Rightarrow> nat \<Rightarrow> nat \<Rightarrow> offer_key) \<Rightarrow> offer list \<Rightarrow> 't \<Rightarrow> 't result" where
  "load_offers T wr8 [] t = Inr t"
| "load_offers T wr8 (off # offs) t =
     (if amount off = 0 then Inl (RuntimeError ''invalid offer amount present in database!'')
      else load_offers T wr8 offs (ot_insert T (offer_key_of wr8 off) off t))"

definition load_lmdb_contents_to_memory ::
  "'t offer_trie \<Rightarrow> (offer_key \<Rightarrow> nat \<Rightarrow> nat \<Rightarrow> offer_key) \<Rightarrow> offer list \<Rightarrow> 't orderbook \<Rightarrow> 't orderbook result" where
  "load_lmdb_contents_to_memory T wr8 on_disk ob =
     bind_result (load_offers T wr8 on_disk (committed_offers ob))
       (\<lambda>t. Inr (generate_metadata_index T (ob\<lparr>committed_offers := t\<rparr>)))"

end
