(* ===== verification/Orderbook_Manager.thy ===== *)
theory Orderbook_Manager
  imports Orderbook
begin

text \<open>
  The orderbook manager (\<^verbatim>\<open>orderbook/orderbook_manager.{h,cc}\<close>): the vector of orderbooks, one
  per ordered pair of assets, and the operations that loop over it. Loops of the code that run
  under \<^verbatim>\<open>tbb::parallel_for\<close> and touch only their own orderbook are maps over the vector. The
  two clearing loops share the account database between threads; they take the schedule as an
  argument: the list of subranges in the order their orderbooks are reached.
  The persisted round of the on-disk copy of orderbook \<open>i\<close> is \<open>rounds i\<close>.
\<close>

section \<open>State\<close>

record 't orderbook_manager =
  orderbooks :: "'t orderbook list"
  num_assets :: nat

definition get_num_orderbooks :: "'t orderbook_manager \<Rightarrow> nat" where
  "get_num_orderbooks om = get_num_orderbooks_by_asset_count (num_assets om)"

definition look_up_idx :: "offer_category \<Rightarrow> 't orderbook_manager \<Rightarrow> int result" where
  "look_up_idx c om = category_to_idx c (num_assets om)"

definition om_validate_category :: "offer_category \<Rightarrow> 't orderbook_manager \<Rightarrow> bool" where
  "om_validate_category c om = validate_category c (num_assets om)"

text \<open>Growing the set of traded assets keeps the books of the pairs that existed.\<close>

definition grown_book ::
  "'t offer_trie \<Rightarrow> nat \<Rightarrow> 't orderbook_manager \<Rightarrow> nat \<Rightarrow> 't orderbook result" where
  "grown_book T n om i =
     bind_result (from_ub (category_from_idx i n)) (\<lambda>c.
       if buyAsset c < num_assets om \<and> sellAsset c < num_assets om
       then bind_result (category_to_idx c (num_assets om)) (\<lambda>old_idx.
              if 0 \<le> old_idx \<and> nat old_idx < length (orderbooks om)
              then Inr (orderbooks om ! nat old_idx) else Inl UndefinedBehaviour)
       else Inr (ob_init T c))"

fun grow_books ::
  "'t offer_trie \<Rightarrow> nat \<Rightarrow> 't orderbook_manager \<Rightarrow> nat list \<Rightarrow> 't orderbook list result" where
  "grow_books T n om [] = Inr []"
| "grow_books T n om (i # is) =
     bind_result (grown_book T n om i) (\<lambda>ob.
       bind_result (grow_books T n om is) (\<lambda>obs. Inr (ob # obs)))"

definition increase_num_traded_assets ::
  "'t offer_trie \<Rightarrow> nat \<Rightarrow> 't orderbook_manager \<Rightarrow> 't orderbook_manager result" where
  "increase_num_traded_assets T new_asset_count om =
     (if new_asset_count < num_assets om then Inl (RuntimeError ''Cannot decrease number of assets'')
      else bind_result (grow_books T new_asset_count om [0..<get_num_orderbooks_by_asset_count new_asset_count])
        (\<lambda>obs. Inr \<lparr>orderbooks = obs, num_assets = new_asset_count\<rparr>))"

definition om_init :: "'t offer_trie \<Rightarrow> nat \<Rightarrow> 't orderbook_manager result" where
  "om_init T n = increase_num_traded_assets T n \<lparr>orderbooks = [], num_assets = 0\<rparr>"

section \<open>Operations on one book\<close>

definition om_on_book ::
  "int \<Rightarrow> ('t orderbook \<Rightarrow> 't orderbook \<times> 'a) \<Rightarrow> 't orderbook_manager \<Rightarrow> ('t orderbook_manager \<times> 'a) result" where
  "om_on_book idx f om =
     (if 0 \<le> idx \<and> nat idx < length (orderbooks om)
      then (let (ob, r) = f (orderbooks om ! nat idx)
            in Inr (om\<lparr>orderbooks := (orderbooks om)[nat idx := ob]\<rparr>, r))
      else Inl UndefinedBehaviour)"

definition om_add_offers ::
  "'t offer_trie \<Rightarrow> int \<Rightarrow> 't \<Rightarrow> 't orderbook_manager \<Rightarrow> ('t orderbook_manager \<times> unit) result" where
  "om_add_offers T idx offers om = om_on_book idx (\<lambda>ob. (add_offers T offers ob, ())) om"

definition om_mark_for_deletion ::
  "'t offer_trie \<Rightarrow> int \<Rightarrow> offer_key \<Rightarrow> 't orderbook_manager \<Rightarrow> ('t orderbook_manager \<times> offer option) result" where
  "om_mark_for_deletion T idx k om = om_on_book idx (ob_mark_for_deletion T k) om"

definition om_unmark_for_deletion ::
  "'t offer_trie \<Rightarrow> int \<Rightarrow> offer_key \<Rightarrow> 't orderbook_manager \<Rightarrow> ('t orderbook_manager \<times> offer option) result" where
  "om_unmark_for_deletion T idx k om = om_on_book idx (ob_unmark_for_deletion T k) om"

section \<open>Loops over all books\<close>

definition generic_map :: "('t orderbook \<Rightarrow> 't orderbook) \<Rightarrow> 't orderbook_manager \<Rightarrow> 't orderbook_manager" where
  "generic_map f om = om\<lparr>orderbooks := map f (orderbooks om)\<rparr>"

fun map_books :: "(nat \<Rightarrow> 't orderbook \<Rightarrow> 't orderbook result) \<Rightarrow> nat \<Rightarrow> 't orderbook list \<Rightarrow> 't orderbook list result" where
  "map_books f i [] = Inr []"
| "map_books f i (ob # obs) =
     bind_result (f i ob) (\<lambda>ob'. bind_result (map_books f (Suc i) obs) (\<lambda>obs'. Inr (ob' # obs')))"

definition generic_map_result ::
  "(nat \<Rightarrow> 't orderbook \<Rightarrow> 't orderbook result) \<Rightarrow> 't orderbook_manager \<Rightarrow> 't orderbook_manager result" where
  "generic_map_result f om =
     bind_result (map_books f 0 (orderbooks om)) (\<lambda>obs. Inr (om\<lparr>orderbooks := obs\<rparr>))"

text \<open>
  When a block is replayed from disk, the loop runs only over the books of the database
  instances that do not hold the block yet: \<open>instances\<close> lists their ranges and persisted rounds.
\<close>

definition needs_replay :: "(nat \<times> nat \<times> nat) list \<Rightarrow> nat \<Rightarrow> nat \<Rightarrow> bool" where
  "needs_replay instances blk i \<longleftrightarrow>
     list_ex (\<lambda>(first, past, round). first \<le> i \<and> i < past \<and> round < blk) instances"

definition generic_map_loading ::
  "(nat \<times> nat \<times> nat) list \<Rightarrow> nat \<Rightarrow> ('t orderbook \<Rightarrow> 't orderbook result) \<Rightarrow> 't orderbook_manager
     \<Rightarrow> 't orderbook_manager result" where
  "generic_map_loading instances blk f om =
     generic_map_result (\<lambda>i ob. if needs_replay instances blk i then f ob else Inr ob) om"

definition commit_for_loading ::
  "'t offer_trie \<Rightarrow> (nat \<times> nat \<times> nat) list \<Rightarrow> nat \<Rightarrow> 't orderbook_manager \<Rightarrow> 't orderbook_manager result" where
  "commit_for_loading T instances blk om =
     generic_map_loading instances blk (\<lambda>ob. Inr (tentative_commit_for_validation T blk ob)) om"

definition finalize_for_loading ::
  "'t offer_trie \<Rightarrow> (nat \<times> nat \<times> nat) list \<Rightarrow> nat \<Rightarrow> 't orderbook_manager \<Rightarrow> 't orderbook_manager result" where
  "finalize_for_loading T instances blk om = generic_map_loading instances blk (finalize_validation T) om"

definition om_commit_for_production ::
  "'t offer_trie \<Rightarrow> nat \<Rightarrow> 't orderbook_manager \<Rightarrow> 't orderbook_manager" where
  "om_commit_for_production T blk om = generic_map (commit_for_production T blk) om"

definition commit_for_validation ::
  "'t offer_trie \<Rightarrow> nat \<Rightarrow> 't orderbook_manager \<Rightarrow> 't orderbook_manager" where
  "commit_for_validation T blk om = generic_map (tentative_commit_for_validation T blk) om"

definition om_rollback_thunks ::
  "'t offer_trie \<Rightarrow> (offer_key \<Rightarrow> nat \<Rightarrow> nat \<Rightarrow> offer_key) \<Rightarrow> (nat \<Rightarrow> nat) \<Rightarrow> nat \<Rightarrow> 't orderbook_manager
     \<Rightarrow> 't orderbook_manager result" where
  "om_rollback_thunks T wr8 rounds blk om =
     generic_map_result (\<lambda>i. ob_rollback_thunks T wr8 (rounds i) blk) om"

definition om_finalize_validation :: "'t offer_trie \<Rightarrow> 't orderbook_manager \<Rightarrow> 't orderbook_manager result" where
  "om_finalize_validation T om = generic_map_result (\<lambda>_. finalize_validation T) om"

definition om_rollback_validation ::
  "'t offer_trie \<Rightarrow> (offer_key \<Rightarrow> nat \<Rightarrow> nat \<Rightarrow> offer_key) \<Rightarrow> 't orderbook_manager \<Rightarrow> 't orderbook_manager result" where
  "om_rollback_validation T wr8 om = generic_map_result (\<lambda>_. rollback_validation T wr8) om"

definition om_load_lmdb_contents_to_memory ::
  "'t offer_trie \<Rightarrow> (offer_key \<Rightarrow> nat \<Rightarrow> nat \<Rightarrow> offer_key) \<Rightarrow> (nat \<Rightarrow> offer list) \<Rightarrow> 't orderbook_manager
     \<Rightarrow> 't orderbook_manager result" where
  "om_load_lmdb_contents_to_memory T wr8 on_disk om =
     generic_map_result (\<lambda>i. load_lmdb_contents_to_memory T wr8 (on_disk i)) om"

definition generate_metadata_indices :: "'t offer_trie \<Rightarrow> 't orderbook_manager \<Rightarrow> 't orderbook_manager" where
  "generate_metadata_indices T om = generic_map (generate_metadata_index T) om"

definition get_min_persisted_round_number :: "(nat \<Rightarrow> nat) \<Rightarrow> 't orderbook_manager \<Rightarrow> nat" where
  "get_min_persisted_round_number rounds om =
     fold (\<lambda>i m. min m (rounds i)) [0..<length (orderbooks om)] UINT64_MAX"

definition get_max_persisted_round_number :: "(nat \<Rightarrow> nat) \<Rightarrow> 't orderbook_manager \<Rightarrow> nat" where
  "get_max_persisted_round_number rounds om =
     fold (\<lambda>i m. max m (rounds i)) [0..<length (orderbooks om)] 0"

definition num_open_offers :: "'t offer_trie \<Rightarrow> 't orderbook_manager \<Rightarrow> nat" where
  "num_open_offers T om = fold (\<lambda>ob n. u64 (n + ot_size T (committed_offers ob))) (orderbooks om) 0"

definition get_max_feasible_smooth_mult :: "clearing_params \<Rightarrow> price list \<Rightarrow> 't orderbook_manager \<Rightarrow> nat result" where
  "get_max_feasible_smooth_mult params prices om =
     fold (\<lambda>i r. bind_result r (\<lambda>m.
             bind_result (from_ub (max_feasible_smooth_mult (ob_category (orderbooks om ! i))
                                     (indexed_metadata (orderbooks om ! i))
                                     (i64 (int (fa_ceil (supply_activated params ! i)))) prices))
               (\<lambda>c. Inr (min m c))))
       [0..<length (orderbooks om)] (Inr 255)"

definition om_hash ::
  "('t \<Rightarrow> 'h) \<Rightarrow> 'h single_orderbook_state_commitment list \<Rightarrow> 't orderbook_manager
     \<Rightarrow> 'h single_orderbook_state_commitment list" where
  "om_hash hash_of clearing_details om =
     fold (\<lambda>i cs. upd_at cs i (\<lambda>c. c\<lparr>rootHash := hash_of (committed_offers (orderbooks om ! i))\<rparr>))
       [0..<length (orderbooks om)] clearing_details"

section \<open>Clearing all books as the producer\<close>

type_synonym ('t, 'db, 'h) production_state =
  "'t orderbook_manager \<times> ('db \<times> self_log) \<times> 'h single_orderbook_state_commitment list \<times> block_state_update_stats"

definition clear_book_production ::
  "'t offer_trie \<Rightarrow> ('p, 'db) clearing_db \<Rightarrow> (nat \<Rightarrow> nat list) \<Rightarrow> clearing_params \<Rightarrow> price list \<Rightarrow> nat
    \<Rightarrow> ('t, 'db, 'h) production_state \<Rightarrow> ('t, 'db, 'h) production_state result" where
  "clear_book_production T D wr params prices i st =
     (case st of (om, dl, coms, stats) \<Rightarrow>
      bind_result (vec_at (orderbooks om) i) (\<lambda>ob.
      bind_result (vec_at (supply_activated params) i) (\<lambda>s.
      bind_result (vec_at coms i) (\<lambda>com.
      bind_result (process_clear_offers T D wr s prices (tax_rate params) (ob, dl, com, stats))
        (\<lambda>(ob', dl', com', stats').
           Inr (om\<lparr>orderbooks := (orderbooks om)[i := ob']\<rparr>, dl', coms[i := com'], stats'))))))"

fun clear_range_production ::
  "'t offer_trie \<Rightarrow> ('p, 'db) clearing_db \<Rightarrow> (nat \<Rightarrow> nat list) \<Rightarrow> clearing_params \<Rightarrow> price list \<Rightarrow> nat list
    \<Rightarrow> ('t, 'db, 'h) production_state \<Rightarrow> ('t, 'db, 'h) production_state result" where
  "clear_range_production T D wr params prices [] st = Inr st"
| "clear_range_production T D wr params prices (i # is) st =
     bind_result (clear_book_production T D wr params prices i st)
       (clear_range_production T D wr params prices is)"

text \<open>
  \<^verbatim>\<open>ClearOffersReduce\<close>: every subrange runs on a body with its own statistics, joined at the end.
\<close>

fun clear_ranges_production ::
  "'t offer_trie \<Rightarrow> ('p, 'db) clearing_db \<Rightarrow> (nat \<Rightarrow> nat list) \<Rightarrow> clearing_params \<Rightarrow> price list \<Rightarrow> nat list list
    \<Rightarrow> ('t, 'db, 'h) production_state \<Rightarrow> ('t, 'db, 'h) production_state result" where
  "clear_ranges_production T D wr params prices [] st = Inr st"
| "clear_ranges_production T D wr params prices (r # rs) st =
     (case st of (om, dl, coms, stats) \<Rightarrow>
      bind_result (clear_range_production T D wr params prices r (om, dl, coms, empty_stats))
        (\<lambda>(om', dl', coms', local_stats).
           clear_ranges_production T D wr params prices rs (om', dl', coms', stats_add stats local_stats)))"

definition clear_offers_for_production ::
  "'t offer_trie \<Rightarrow> ('p, 'db) clearing_db \<Rightarrow> (nat \<Rightarrow> nat list) \<Rightarrow> 'h single_orderbook_state_commitment
    \<Rightarrow> nat list list \<Rightarrow> clearing_params \<Rightarrow> price list
    \<Rightarrow> ('t, 'db, 'h) production_state \<Rightarrow> ('t, 'db, 'h) production_state result" where
  "clear_offers_for_production T D wr com0 schedule params prices st =
     (case st of (om, dl, coms, stats) \<Rightarrow>
      let n = length (orderbooks om);
          coms1 = take n coms @ replicate (n - length coms) com0
      in bind_result (clear_ranges_production T D wr params prices schedule (om, dl, coms1, empty_stats))
           (\<lambda>(om', dl', coms', reduced). Inr (om', dl', coms', stats_add stats reduced)))"

section \<open>Clearing all books as the validator\<close>

type_synonym ('t, 'db) validation_state =
  "'t orderbook_manager \<times> ('db \<times> self_log) \<times> validation_statistics \<times> block_state_update_stats"

text \<open>\<^verbatim>\<open>operator[]\<close> does not check its index.\<close>

definition vec_idx :: "'a list \<Rightarrow> nat \<Rightarrow> 'a result" where
  "vec_idx xs i = (if i < length xs then Inr (xs ! i) else Inl UndefinedBehaviour)"

definition clear_book_validation ::
  "'t offer_trie \<Rightarrow> ('p, 'db) clearing_db \<Rightarrow> (nat list \<Rightarrow> nat) \<Rightarrow> 'h commitment_checker \<Rightarrow> nat
    \<Rightarrow> ('t, 'db) validation_state \<Rightarrow> (bool \<times> ('t, 'db) validation_state) result" where
  "clear_book_validation T D rd ck i st =
     (case st of (om, dl, vs, stats) \<Rightarrow>
      bind_result (vec_idx (orderbooks om) i) (\<lambda>ob.
      bind_result (vec_idx vs i) (\<lambda>v.
      bind_result (vec_idx (commitments ck) i) (\<lambda>com.
      bind_result (tentative_clear_offers_for_validation T D rd com (ck_prices ck) (ck_tax_rate ck) (ob, dl, v, stats))
        (\<lambda>(res, ob', dl', v', stats').
           Inr (res, om\<lparr>orderbooks := (orderbooks om)[i := ob']\<rparr>, dl', vs[i := v'], stats'))))))"

fun clear_range_validation ::
  "'t offer_trie \<Rightarrow> ('p, 'db) clearing_db \<Rightarrow> (nat list \<Rightarrow> nat) \<Rightarrow> 'h commitment_checker \<Rightarrow> nat list
    \<Rightarrow> ('t, 'db) validation_state \<Rightarrow> (bool \<times> ('t, 'db) validation_state) result" where
  "clear_range_validation T D rd ck [] st = Inr (True, st)"
| "clear_range_validation T D rd ck (i # is) st =
     bind_result (clear_book_validation T D rd ck i st)
       (\<lambda>(res, st'). if \<not> res then Inr (False, st') else clear_range_validation T D rd ck is st')"

fun clear_ranges_validation ::
  "'t offer_trie \<Rightarrow> ('p, 'db) clearing_db \<Rightarrow> (nat list \<Rightarrow> nat) \<Rightarrow> 'h commitment_checker \<Rightarrow> nat list list
    \<Rightarrow> bool \<times> ('t, 'db) validation_state \<Rightarrow> (bool \<times> ('t, 'db) validation_state) result" where
  "clear_ranges_validation T D rd ck [] st = Inr st"
| "clear_ranges_validation T D rd ck (r # rs) st =
     (case st of (ok, om, dl, vs, stats) \<Rightarrow>
      bind_result (clear_range_validation T D rd ck r (om, dl, vs, empty_stats))
        (\<lambda>(res, om', dl', vs', local_stats).
           clear_ranges_validation T D rd ck rs (ok \<and> res, om', dl', vs', stats_add stats local_stats)))"

definition om_tentative_clear_offers_for_validation ::
  "'t offer_trie \<Rightarrow> ('p, 'db) clearing_db \<Rightarrow> (nat list \<Rightarrow> nat) \<Rightarrow> nat list list \<Rightarrow> 'h commitment_checker
    \<Rightarrow> ('t, 'db) validation_state \<Rightarrow> (bool \<times> ('t, 'db) validation_state) result" where
  "om_tentative_clear_offers_for_validation T D rd schedule ck st =
     (case st of (om, dl, vs, stats) \<Rightarrow>
      bind_result (clear_ranges_validation T D rd ck schedule
                     (True, om, dl, make_minimum_size (length (orderbooks om)) vs, empty_stats))
        (\<lambda>(ok, om', dl', vs', reduced). Inr (ok, om', dl', vs', stats_add stats reduced)))"

section \<open>Clearing while replaying a block from disk\<close>

text \<open>
  The loop records a failure when the clearing of a book returns \<^verbatim>\<open>true\<close>, and leaves the
  subrange; the statistics are local and dropped.
\<close>

fun clear_range_loading ::
  "'t offer_trie \<Rightarrow> ('p, 'db) clearing_db \<Rightarrow> (nat list \<Rightarrow> nat) \<Rightarrow> (nat \<Rightarrow> nat) \<Rightarrow> nat \<Rightarrow> 'h commitment_checker \<Rightarrow> nat list
    \<Rightarrow> ('t, 'db) validation_state \<Rightarrow> (bool \<times> ('t, 'db) validation_state) result" where
  "clear_range_loading T D rd rounds blk ck [] st = Inr (False, st)"
| "clear_range_loading T D rd rounds blk ck (i # is) st =
     (if rounds i < blk
      then bind_result (clear_book_validation T D rd ck i st)
        (\<lambda>(res, st'). if res then Inr (True, st') else clear_range_loading T D rd rounds blk ck is st')
      else clear_range_loading T D rd rounds blk ck is st)"

fun clear_ranges_loading ::
  "'t offer_trie \<Rightarrow> ('p, 'db) clearing_db \<Rightarrow> (nat list \<Rightarrow> nat) \<Rightarrow> (nat \<Rightarrow> nat) \<Rightarrow> nat \<Rightarrow> 'h commitment_checker \<Rightarrow> nat list list
    \<Rightarrow> bool \<times> 't orderbook_manager \<times> ('db \<times> self_log) \<times> validation_statistics
    \<Rightarrow> (bool \<times> 't orderbook_manager \<times> ('db \<times> self_log) \<times> validation_statistics) result" where
  "clear_ranges_loading T D rd rounds blk ck [] st = Inr st"
| "clear_ranges_loading T D rd rounds blk ck (r # rs) st =
     (case st of (exists_failure, om, dl, vs) \<Rightarrow>
      bind_result (clear_range_loading T D rd rounds blk ck r (om, dl, vs, empty_stats))
        (\<lambda>(failed, om', dl', vs', _).
           clear_ranges_loading T D rd rounds blk ck rs (exists_failure \<or> failed, om', dl', vs')))"

definition clear_offers_for_data_loading ::
  "'t offer_trie \<Rightarrow> ('p, 'db) clearing_db \<Rightarrow> (nat list \<Rightarrow> nat) \<Rightarrow> (nat \<Rightarrow> nat) \<Rightarrow> nat list list \<Rightarrow> 'h commitment_checker \<Rightarrow> nat
    \<Rightarrow> 't orderbook_manager \<times> ('db \<times> self_log) \<times> validation_statistics
    \<Rightarrow> ('t orderbook_manager \<times> ('db \<times> self_log) \<times> validation_statistics) result" where
  "clear_offers_for_data_loading T D rd rounds schedule ck blk st =
     (case st of (om, dl, vs) \<Rightarrow>
      bind_result (clear_ranges_loading T D rd rounds blk ck schedule
                     (False, om, dl, make_minimum_size (length (orderbooks om)) vs))
        (\<lambda>(exists_failure, st'). if exists_failure then Inl (RuntimeError ''failed to load block!'') else Inr st'))"

end
