(* ===== verification/Offer_Book.thy ===== *)
theory Offer_Book
  imports Orderbook
begin

text \<open>
  The documented behaviour of the offer trie, stated against a reference: a list of offers sorted
  by key, with the keys marked for deletion and the keys inserted under rollback. \<open>offer_trie_ok\<close>
  says that every operation the orderbook calls commutes with the abstraction to such a list;
  \<open>list_trie\<close> is an instance. The lemmas show that the operations keep a book well formed and what
  splitting a book by endowment yields.
\<close>

section \<open>Books\<close>

record book =
  entries :: "(offer_key \<times> offer) list"
  marks :: "offer_key set"
  rollback_keys :: "offer_key set"

definition empty_book :: book where
  "empty_book = \<lparr>entries = [], marks = {}, rollback_keys = {}\<rparr>"

definition key_lt :: "offer_key \<Rightarrow> offer_key \<Rightarrow> bool" where
  "key_lt k l \<longleftrightarrow> memcmp k l < 0"

fun ins :: "offer_key \<Rightarrow> offer \<Rightarrow> (offer_key \<times> offer) list \<Rightarrow> (offer_key \<times> offer) list" where
  "ins k v [] = [(k, v)]"
| "ins k v ((l, w) # xs) =
     (if k = l then (k, v) # xs else if key_lt k l then (k, v) # (l, w) # xs else (l, w) # ins k v xs)"

definition del :: "offer_key \<Rightarrow> (offer_key \<times> offer) list \<Rightarrow> (offer_key \<times> offer) list" where
  "del k xs = filter (\<lambda>e. fst e \<noteq> k) xs"

definition sold :: "(offer_key \<times> offer) list \<Rightarrow> nat" where
  "sold xs = sum_list (map (amount \<circ> snd) xs)"

text \<open>The longest prefix whose amounts add up to at most \<open>a\<close>, and the rest.\<close>

fun split_at :: "nat \<Rightarrow> (offer_key \<times> offer) list \<Rightarrow> (offer_key \<times> offer) list \<times> (offer_key \<times> offer) list" where
  "split_at a [] = ([], [])"
| "split_at a (e # xs) =
     (if amount (snd e) \<le> a
      then (let (pre, rest) = split_at (a - amount (snd e)) xs in (e # pre, rest))
      else ([], e # xs))"

definition b_insert :: "offer_key \<Rightarrow> offer \<Rightarrow> book \<Rightarrow> book" where
  "b_insert k v b =
     \<lparr>entries = ins k v (entries b), marks = marks b - {k}, rollback_keys = rollback_keys b - {k}\<rparr>"

definition b_insert_rollback :: "offer_key \<Rightarrow> offer \<Rightarrow> book \<Rightarrow> book" where
  "b_insert_rollback k v b = (b_insert k v b)\<lparr>rollback_keys := insert k (rollback_keys b)\<rparr>"

text \<open>The book with some of its entries, which keep their marks.\<close>

definition b_restrict :: "(offer_key \<times> offer) list \<Rightarrow> book \<Rightarrow> book" where
  "b_restrict es b = \<lparr>entries = es, marks = marks b \<inter> fst ` set es, rollback_keys = rollback_keys b \<inter> fst ` set es\<rparr>"

lemma b_restrict_sel [simp]:
  "entries (b_restrict es b) = es"
  "marks (b_restrict es b) = marks b \<inter> fst ` set es"
  "rollback_keys (b_restrict es b) = rollback_keys b \<inter> fst ` set es"
  by (simp_all add: b_restrict_def)

definition b_perform_deletion :: "offer_key \<Rightarrow> book \<Rightarrow> book \<times> offer option" where
  "b_perform_deletion k b =
     (\<lparr>entries = del k (entries b), marks = marks b - {k}, rollback_keys = rollback_keys b - {k}\<rparr>,
      map_of (entries b) k)"

definition b_mark :: "offer_key \<Rightarrow> book \<Rightarrow> book \<times> offer option" where
  "b_mark k b =
     (if k \<in> fst ` set (entries b) \<and> k \<notin> marks b
      then (b\<lparr>marks := insert k (marks b)\<rparr>, map_of (entries b) k) else (b, None))"

definition b_unmark :: "offer_key \<Rightarrow> book \<Rightarrow> book \<times> offer option" where
  "b_unmark k b =
     (if k \<in> fst ` set (entries b) \<and> k \<in> marks b
      then (b\<lparr>marks := marks b - {k}\<rparr>, map_of (entries b) k) else (b, None))"

definition b_perform_marked_deletions :: "book \<Rightarrow> book \<times> (offer_key \<times> offer) list" where
  "b_perform_marked_deletions b =
     (b_restrict (filter (\<lambda>e. fst e \<notin> marks b) (entries b)) b,
      filter (\<lambda>e. fst e \<in> marks b) (entries b))"

definition b_merge_in :: "book \<Rightarrow> book \<Rightarrow> book" where
  "b_merge_in other b =
     \<lparr>entries = fold (\<lambda>(k, v). ins k v) (entries other) (entries b), marks = marks b \<union> marks other,
      rollback_keys = rollback_keys b \<union> rollback_keys other\<rparr>"

definition b_endow_split :: "int \<Rightarrow> book \<Rightarrow> book \<times> book" where
  "b_endow_split a b =
     (let (pre, rest) = split_at (nat a) (entries b) in (b_restrict rest b, b_restrict pre b))"

definition b_do_rollback :: "book \<Rightarrow> book" where
  "b_do_rollback b =
     b_restrict (filter (\<lambda>e. fst e \<notin> rollback_keys b) (entries b)) b"

definition list_trie :: "book offer_trie" where
  "list_trie =
     \<lparr>ot_new = empty_book, ot_insert = b_insert, ot_insert_rollback = b_insert_rollback,
      ot_perform_deletion = b_perform_deletion,
      ot_mark_for_deletion = b_mark, ot_unmark_for_deletion = b_unmark,
      ot_perform_marked_deletions = b_perform_marked_deletions, ot_merge_in = b_merge_in,
      ot_endow_split = b_endow_split,
      ot_endow_lt_key = (\<lambda>k b. i64 (int (sold (filter (\<lambda>e. key_lt (fst e) k) (entries b))))),
      ot_get_lowest_key = (\<lambda>b. if entries b = [] then None else Some (fst (hd (entries b)))),
      ot_root_endow = (\<lambda>b. i64 (int (sold (entries b)))),
      ot_size = (\<lambda>b. length (entries b)),
      ot_values = (\<lambda>b. map snd (entries b)),
      ot_metadata_traversal = (\<lambda>b. build_index (map snd (entries b))),
      ot_do_rollback = b_do_rollback,
      ot_clear_rollback = (\<lambda>b. b\<lparr>rollback_keys := {}\<rparr>),
      ot_clean_singlechild_nodes = (\<lambda>k b. b)\<rparr>"

definition bk_fst :: "('t \<Rightarrow> book) \<Rightarrow> 't \<times> 'a \<Rightarrow> book \<times> 'a" where
  "bk_fst bk x = (bk (fst x), snd x)"

definition offer_trie_ok :: "'t offer_trie \<Rightarrow> ('t \<Rightarrow> book) \<Rightarrow> bool" where
  "offer_trie_ok T bk \<longleftrightarrow>
     bk (ot_new T) = empty_book
   \<and> (\<forall>k v t. bk (ot_insert T k v t) = b_insert k v (bk t))
   \<and> (\<forall>k v t. bk (ot_insert_rollback T k v t) = b_insert_rollback k v (bk t))
   \<and> (\<forall>k t. bk_fst bk (ot_perform_deletion T k t) = b_perform_deletion k (bk t))
   \<and> (\<forall>k t. bk_fst bk (ot_mark_for_deletion T k t) = b_mark k (bk t))
   \<and> (\<forall>k t. bk_fst bk (ot_unmark_for_deletion T k t) = b_unmark k (bk t))
   \<and> (\<forall>t. bk_fst bk (ot_perform_marked_deletions T t) = b_perform_marked_deletions (bk t))
   \<and> (\<forall>o' t. bk (ot_merge_in T o' t) = b_merge_in (bk o') (bk t))
   \<and> (\<forall>a t. 0 \<le> a \<longrightarrow> map_prod bk bk (ot_endow_split T a t) = b_endow_split a (bk t))
   \<and> (\<forall>k t. ot_endow_lt_key T k t = ot_endow_lt_key list_trie k (bk t))
   \<and> (\<forall>t. ot_get_lowest_key T t = ot_get_lowest_key list_trie (bk t))
   \<and> (\<forall>t. ot_root_endow T t = ot_root_endow list_trie (bk t))
   \<and> (\<forall>t. ot_size T t = length (entries (bk t)))
   \<and> (\<forall>t. ot_values T t = map snd (entries (bk t)))
   \<and> (\<forall>t. index_of (map snd (entries (bk t))) (ot_metadata_traversal T t))
   \<and> (\<forall>t. bk (ot_do_rollback T t) = b_do_rollback (bk t))
   \<and> (\<forall>t. bk (ot_clear_rollback T t) = (bk t)\<lparr>rollback_keys := {}\<rparr>)
   \<and> (\<forall>k t. bk (ot_clean_singlechild_nodes T k t) = bk t)"

lemma list_trie_ok: "offer_trie_ok list_trie (\<lambda>b. b)"
  by (simp add: offer_trie_ok_def list_trie_def bk_fst_def build_index_ok prod.map_ident)

lemma trie_eqs:
  assumes "offer_trie_ok T bk"
  shows "bk (ot_new T) = empty_book"
    "bk (ot_insert T k v t) = b_insert k v (bk t)"
    "bk_fst bk (ot_perform_deletion T k t) = b_perform_deletion k (bk t)"
    "bk_fst bk (ot_perform_marked_deletions T t) = b_perform_marked_deletions (bk t)"
    "bk (ot_merge_in T o' t) = b_merge_in (bk o') (bk t)"
    "0 \<le> a \<Longrightarrow> map_prod bk bk (ot_endow_split T a t) = b_endow_split a (bk t)"
    "ot_endow_lt_key T k t = i64 (int (sold (filter (\<lambda>e. key_lt (fst e) k) (entries (bk t)))))"
    "ot_get_lowest_key T t = (if entries (bk t) = [] then None else Some (fst (hd (entries (bk t)))))"
    "ot_root_endow T t = i64 (int (sold (entries (bk t))))"
    "ot_size T t = length (entries (bk t))"
    "ot_values T t = map snd (entries (bk t))"
    "bk (ot_do_rollback T t) = b_do_rollback (bk t)"
    "bk (ot_clear_rollback T t) = (bk t)\<lparr>rollback_keys := {}\<rparr>"
    "bk (ot_clean_singlechild_nodes T k t) = bk t"
    "index_of (map snd (entries (bk t))) (ot_metadata_traversal T t)"
    "bk_fst bk (ot_mark_for_deletion T k t) = b_mark k (bk t)"
    "bk_fst bk (ot_unmark_for_deletion T k t) = b_unmark k (bk t)"
    "bk (ot_insert_rollback T k v t) = b_insert_rollback k v (bk t)"
  using assms unfolding offer_trie_ok_def by (simp_all add: list_trie_def)

section \<open>Splitting by endowment\<close>

lemma sold_simps [simp]:
  "sold [] = 0" "sold (e # xs) = amount (snd e) + sold xs" "sold (xs @ ys) = sold xs + sold ys"
  by (simp_all add: sold_def)

lemma split_at_append: "split_at a xs = (pre, rest) \<Longrightarrow> xs = pre @ rest \<and> sold pre \<le> a"
  by (induction a xs arbitrary: pre rule: split_at.induct) (auto simp: Let_def split: if_splits prod.splits)

lemma split_at_next:
  "split_at a xs = (pre, e # rest) \<Longrightarrow> a - sold pre < amount (snd e)"
  by (induction a xs arbitrary: pre rule: split_at.induct) (auto simp: Let_def split: if_splits prod.splits)

lemma split_at_all: "sold xs \<le> a \<Longrightarrow> split_at a xs = (xs, [])"
  by (induction a xs rule: split_at.induct) auto

lemma split_at_exact:
  assumes "list_all (\<lambda>e. 0 < amount (snd e)) ys"
  shows "split_at (sold xs) (xs @ ys) = (xs, ys)"
proof (induction xs)
  case Nil
  then show ?case using assms by (cases ys) auto
next
  case (Cons e xs)
  then show ?case by simp
qed

section \<open>Well-formed books\<close>

text \<open>
  Keys are 22 bytes, not all zero, in strictly ascending order; amounts are positive and add up
  to less than the 63-bit issuance bound.
\<close>

definition key_ok :: "offer_key \<Rightarrow> bool" where
  "key_ok k \<longleftrightarrow> length k = ORDERBOOK_KEY_LEN \<and> bytes k \<and> k \<noteq> zero_key"

definition book_ok :: "(offer_key \<times> offer) list \<Rightarrow> bool" where
  "book_ok xs \<longleftrightarrow>
     list_all (\<lambda>e. key_ok (fst e) \<and> 0 < amount (snd e)) xs
   \<and> sorted_wrt key_lt (map fst xs)
   \<and> sold xs < 2 ^ 63"

lemma key_lt_value:
  "key_ok k \<Longrightarrow> key_ok l \<Longrightarrow> key_lt k l \<longleftrightarrow> be_value k < be_value l"
  using memcmp_be_value [of k l] by (simp add: key_ok_def key_lt_def)

lemma memcmp_swap: "length k = length l \<Longrightarrow> memcmp l k = - memcmp k l"
  by (induction k l rule: list_induct2) auto

lemma key_value_inj:
  assumes "key_ok k" and "key_ok l" and "be_value k = be_value l"
  shows "k = l"
proof -
  have "\<not> memcmp k l < 0" "\<not> memcmp l k < 0"
    using assms memcmp_be_value [of k l] memcmp_be_value [of l k] by (simp_all add: key_ok_def)
  then have "memcmp k l = 0" using assms memcmp_swap [of k l] by (simp add: key_ok_def)
  then show ?thesis using assms memcmp_be_value [of k l] by (simp add: key_ok_def)
qed

lemma key_lt_not_zero: "key_ok k \<Longrightarrow> \<not> key_lt k zero_key"
proof -
  assume k: "key_ok k"
  have "memcmp k (replicate (length k) 0) \<ge> 0" for k by (induction k) auto
  from this [of k] show ?thesis using k by (simp add: key_lt_def zero_key_def key_ok_def)
qed

lemma key_lt_irrefl: "key_ok k \<Longrightarrow> \<not> key_lt k k"
  by (simp add: key_lt_value)

lemma key_lt_asym: "key_ok k \<Longrightarrow> key_ok l \<Longrightarrow> key_lt k l \<Longrightarrow> \<not> key_lt l k"
  by (simp add: key_lt_value)

lemma book_ok_Nil [simp]: "book_ok []"
  by (simp add: book_ok_def)

lemma book_ok_append:
  "book_ok (xs @ ys) \<Longrightarrow> book_ok xs \<and> book_ok ys"
  by (auto simp: book_ok_def sorted_wrt_append)

lemma book_ok_pos: "book_ok xs \<Longrightarrow> list_all (\<lambda>e. 0 < amount (snd e)) xs"
  by (simp add: book_ok_def list_all_iff)

lemma book_ok_split:
  assumes "book_ok (xs @ (k, v) # ys)"
  shows "\<forall>e \<in> set xs. key_lt (fst e) k \<and> fst e \<noteq> k" and "\<forall>e \<in> set ys. \<not> key_lt (fst e) k \<and> fst e \<noteq> k"
    and "key_ok k" and "0 < amount v" and "k \<notin> fst ` set xs" and "k \<notin> fst ` set ys"
proof -
  have ok: "key_ok k" "\<forall>e \<in> set xs. key_ok (fst e)" "\<forall>e \<in> set ys. key_ok (fst e)"
    and srt: "\<forall>e \<in> set xs. key_lt (fst e) k" "\<forall>e \<in> set ys. key_lt k (fst e)"
    using assms by (auto simp: book_ok_def list_all_iff sorted_wrt_append)
  show 1: "\<forall>e \<in> set xs. key_lt (fst e) k \<and> fst e \<noteq> k"
    using ok srt key_lt_irrefl by metis
  show 2: "\<forall>e \<in> set ys. \<not> key_lt (fst e) k \<and> fst e \<noteq> k"
    using ok srt key_lt_irrefl key_lt_asym by metis
  show "key_ok k" "0 < amount v" using assms by (simp_all add: book_ok_def)
  show "k \<notin> fst ` set xs" "k \<notin> fst ` set ys" using 1 2 by auto
qed

lemma book_at_threshold:
  assumes "book_ok (xs @ (k, v) # ys)"
  shows "filter (\<lambda>e. key_lt (fst e) k) (xs @ (k, v) # ys) = xs"
    and "del k (xs @ (k, v) # ys) = xs @ ys"
    and "del k ((k, v) # ys) = ys"
    and "map_of (xs @ (k, v) # ys) k = Some v"
  using book_ok_split [OF assms] key_lt_irrefl [of k]
  by (auto simp: filter_empty_conv filter_id_conv del_def map_of_append map_add_def
      split: option.splits dest: map_of_SomeD intro!: image_eqI)

lemma book_no_zero:
  assumes "book_ok xs"
  shows "filter (\<lambda>e. key_lt (fst e) zero_key) xs = []" and "del zero_key xs = xs" and "map_of xs zero_key = None"
proof -
  have k: "\<forall>e \<in> set xs. key_ok (fst e)" using assms by (simp add: book_ok_def list_all_iff)
  show "filter (\<lambda>e. key_lt (fst e) zero_key) xs = []" using k key_lt_not_zero by (auto simp: filter_empty_conv)
  have nz: "\<forall>e \<in> set xs. fst e \<noteq> zero_key" using k by (auto simp: key_ok_def)
  show "del zero_key xs = xs" using nz by (simp add: del_def filter_id_conv)
  show "map_of xs zero_key = None" using nz by (auto simp: map_of_eq_None_iff)
qed

lemma sold_filter_le: "sold (filter P xs) \<le> sold xs"
  by (induction xs) (auto simp: sold_def)

lemma sold_filter_split: "sold (filter P xs) + sold (filter (\<lambda>e. \<not> P e) xs) = sold xs"
  by (induction xs) (auto simp: sold_def)

lemma book_ok_filter:
  assumes "book_ok xs"
  shows "book_ok (filter P xs)"
proof -
  have "sorted_wrt key_lt (map fst (filter P xs))"
    using assms by (simp add: book_ok_def sorted_wrt_map sorted_wrt_filter)
  then show ?thesis
    using assms sold_filter_le [of P xs] by (auto simp: book_ok_def list_all_iff)
qed

end
