(* ===== verification/Revertable_Asset.thy ===== *)
theory Revertable_Asset
  imports Prelude
begin

text \<open>
  Model of \<^verbatim>\<open>memory_database/revertable_asset.h\<close>: the balance of one asset of one account, with
  the value at the last commit. The operations are given as functions of the state when they run
  alone, and \<open>asset_step\<close> interleaves the loads and compare-and-exchange steps of any number
  of threads that change one balance.
\<close>

section \<open>Operations\<close>

record revertable_asset =
  available :: int
  committed_available :: int

definition asset_init :: "int \<Rightarrow> revertable_asset" where
  "asset_init amt = \<lparr>available = amt, committed_available = amt\<rparr>"

definition ra_escrow :: "int \<Rightarrow> revertable_asset \<Rightarrow> revertable_asset" where
  "ra_escrow amt a = a\<lparr>available := i64 (available a - amt)\<rparr>"

definition ra_transfer_available :: "int \<Rightarrow> revertable_asset \<Rightarrow> revertable_asset" where
  "ra_transfer_available amt a = a\<lparr>available := i64 (available a + amt)\<rparr>"

text \<open>
  One pass of the loop: \<open>None\<close> is \<^verbatim>\<open>return false\<close>, \<open>Some v\<close> attempts to exchange the
  loaded value for \<open>v\<close>. A thread that runs alone always finds the value it loaded.
\<close>

definition cas_target :: "int \<Rightarrow> int \<Rightarrow> int option" where
  "cas_target current amt =
     (if \<not> in_i64 (current + amt) then None
      else (let tentative = i64 (current + amt) in if tentative < 0 then None else Some tentative))"

definition ra_conditional_transfer_available :: "int \<Rightarrow> revertable_asset \<Rightarrow> bool \<times> revertable_asset" where
  "ra_conditional_transfer_available amt a =
     (if amt > 0 then (True, ra_transfer_available amt a)
      else (case cas_target (available a) amt of
              None \<Rightarrow> (False, a)
            | Some v \<Rightarrow> (True, a\<lparr>available := v\<rparr>)))"

definition ra_conditional_escrow :: "int \<Rightarrow> revertable_asset \<Rightarrow> bool \<times> revertable_asset" where
  "ra_conditional_escrow amt a =
     (if amt = INT64_MIN then (False, a)
      else if amt > 0 then ra_conditional_transfer_available (i64 (- amt)) a
      else (True, ra_transfer_available (i64 (- amt)) a))"

definition ra_lookup_available_balance :: "revertable_asset \<Rightarrow> int" where
  "ra_lookup_available_balance a = available a"

text \<open>Commitments store the amount as an unsigned 64-bit value.\<close>

record asset_commitment =
  ac_asset :: nat
  amount_available :: nat

definition ra_produce_commitment :: "nat \<Rightarrow> revertable_asset \<Rightarrow> asset_commitment" where
  "ra_produce_commitment asset a =
     \<lparr>ac_asset = asset, amount_available = nat (committed_available a mod 2 ^ 64)\<rparr>"

definition ra_tentative_commitment :: "nat \<Rightarrow> revertable_asset \<Rightarrow> asset_commitment" where
  "ra_tentative_commitment asset a =
     \<lparr>ac_asset = asset, amount_available = nat (available a mod 2 ^ 64)\<rparr>"

definition ra_commit :: "revertable_asset \<Rightarrow> int \<times> revertable_asset" where
  "ra_commit a = (available a, a\<lparr>committed_available := available a\<rparr>)"

definition ra_rollback :: "revertable_asset \<Rightarrow> revertable_asset" where
  "ra_rollback a = a\<lparr>available := committed_available a\<rparr>"

definition ra_in_valid_state :: "revertable_asset \<Rightarrow> bool" where
  "ra_in_valid_state a \<longleftrightarrow> available a \<ge> 0"

section \<open>Interleaved threads\<close>

text \<open>
  A thread calls \<^verbatim>\<open>conditional_transfer_available(amount)\<close> once. It is about to load
  (\<open>Start\<close>), holds a loaded value, or has returned. The exchange may fail spuriously.
\<close>

datatype pc = Start | Loaded int | Returned bool

record thread =
  th_amount :: int
  th_pc :: pc

inductive asset_step :: "int \<times> thread list \<Rightarrow> int \<times> thread list \<Rightarrow> bool" where
  add: "\<lbrakk>i < length ts; th_pc (ts ! i) = Start; th_amount (ts ! i) > 0\<rbrakk> \<Longrightarrow>
    asset_step (v, ts) (i64 (v + th_amount (ts ! i)), ts[i := (ts ! i)\<lparr>th_pc := Returned True\<rparr>])"
| load: "\<lbrakk>i < length ts; th_pc (ts ! i) = Start; \<not> th_amount (ts ! i) > 0\<rbrakk> \<Longrightarrow>
    asset_step (v, ts) (v, ts[i := (ts ! i)\<lparr>th_pc := Loaded v\<rparr>])"
| refuse: "\<lbrakk>i < length ts; th_pc (ts ! i) = Loaded c; cas_target c (th_amount (ts ! i)) = None\<rbrakk> \<Longrightarrow>
    asset_step (v, ts) (v, ts[i := (ts ! i)\<lparr>th_pc := Returned False\<rparr>])"
| exchange: "\<lbrakk>i < length ts; th_pc (ts ! i) = Loaded c; cas_target c (th_amount (ts ! i)) = Some w; v = c\<rbrakk> \<Longrightarrow>
    asset_step (v, ts) (w, ts[i := (ts ! i)\<lparr>th_pc := Returned True\<rparr>])"
| retry: "\<lbrakk>i < length ts; th_pc (ts ! i) = Loaded c; cas_target c (th_amount (ts ! i)) = Some w\<rbrakk> \<Longrightarrow>
    asset_step (v, ts) (v, ts[i := (ts ! i)\<lparr>th_pc := Start\<rparr>])"

inductive_cases asset_stepE: "asset_step s s'"

section \<open>Facts about single calls\<close>

lemma cas_target_Some: "cas_target c amt = Some w \<longleftrightarrow> in_i64 (c + amt) \<and> 0 \<le> c + amt \<and> w = c + amt"
  by (auto simp: cas_target_def Let_def)

lemma cas_target_None: "cas_target c amt = None \<longleftrightarrow> \<not> in_i64 (c + amt) \<or> c + amt < 0"
  by (auto simp: cas_target_def Let_def)

lemma commit_rollback [simp]:
  "committed_available (snd (ra_commit a)) = available a" "available (snd (ra_commit a)) = available a"
  "fst (ra_commit a) = available a"
  "available (ra_rollback a) = committed_available a"
  "committed_available (ra_rollback a) = committed_available a"
  by (simp_all add: ra_commit_def ra_rollback_def)

lemma committed_unchanged [simp]:
  "committed_available (ra_escrow amt a) = committed_available a"
  "committed_available (ra_transfer_available amt a) = committed_available a"
  "committed_available (snd (ra_conditional_transfer_available amt a)) = committed_available a"
  "committed_available (snd (ra_conditional_escrow amt a)) = committed_available a"
  by (simp_all add: ra_escrow_def ra_transfer_available_def ra_conditional_transfer_available_def
      ra_conditional_escrow_def split: option.split)

lemma rollback_eq: "committed_available a = committed_available b \<Longrightarrow> ra_rollback a = ra_rollback b"
  by (simp add: ra_rollback_def)

text \<open>Escrowing a positive amount succeeds exactly when the balance covers it.\<close>

lemma in_i64_minus: "in_i64 x \<Longrightarrow> x \<noteq> INT64_MIN \<Longrightarrow> in_i64 (- x)"
  by (auto simp: in_i64_def)

lemma conditional_escrow_pos:
  assumes "0 < amt" "in_i64 amt" "in_i64 (available a)" "0 \<le> available a"
  shows "ra_conditional_escrow amt a =
    (if amt \<le> available a then (True, a\<lparr>available := available a - amt\<rparr>) else (False, a))"
  using assms in_i64_minus [of amt]
  by (auto simp: ra_conditional_escrow_def ra_conditional_transfer_available_def cas_target_def Let_def
      in_i64_def)

section \<open>Interleavings\<close>

definition applied :: "thread list \<Rightarrow> int" where
  "applied ts = sum_list (map (\<lambda>t. if th_pc t = Returned True then th_amount t else 0) ts)"

definition pending_gain :: "thread list \<Rightarrow> int" where
  "pending_gain ts = sum_list (map (\<lambda>t. if th_pc t = Returned True then 0 else max 0 (th_amount t)) ts)"

lemma sum_list_map_update:
  fixes f :: "'a \<Rightarrow> int"
  shows "i < length xs \<Longrightarrow> sum_list (map f (xs[i := x])) = sum_list (map f xs) - f (xs ! i) + f x"
proof (induction xs arbitrary: i)
  case Nil
  then show ?case by simp
next
  case (Cons y xs)
  then show ?case by (cases i) auto
qed

definition asset_inv :: "int \<Rightarrow> int \<times> thread list \<Rightarrow> bool" where
  "asset_inv v0 s \<longleftrightarrow> (case s of (v, ts) \<Rightarrow>
     v = v0 + applied ts \<and> 0 \<le> v \<and> v + pending_gain ts \<le> INT64_MAX)"

lemma pending_gain_nonneg: "0 \<le> pending_gain ts"
  unfolding pending_gain_def by (intro sum_list_nonneg) auto

lemma asset_inv_step:
  assumes "asset_step s s'" "asset_inv v0 s"
  shows "asset_inv v0 s'"
  using assms
proof (cases rule: asset_step.cases)
  case (add i ts v)
  let ?ts = "ts[i := (ts ! i)\<lparr>th_pc := Returned True\<rparr>]"
  from add assms(2) have "applied ?ts = applied ts + th_amount (ts ! i)"
    "pending_gain ?ts = pending_gain ts - th_amount (ts ! i)"
    by (simp_all add: applied_def pending_gain_def sum_list_map_update)
  moreover have "in_i64 (v + th_amount (ts ! i))"
    using add assms(2) calculation pending_gain_nonneg [of ?ts] by (simp add: asset_inv_def in_i64_def)
  ultimately show ?thesis using add assms(2) by (simp add: asset_inv_def)
next
  case (exchange i ts c w v)
  let ?ts = "ts[i := (ts ! i)\<lparr>th_pc := Returned True\<rparr>]"
  from exchange have "applied ?ts = applied ts + th_amount (ts ! i)"
    "pending_gain ?ts = pending_gain ts - max 0 (th_amount (ts ! i))"
    by (simp_all add: applied_def pending_gain_def sum_list_map_update)
  then show ?thesis using exchange assms(2) by (auto simp: asset_inv_def cas_target_Some)
qed (auto simp: asset_inv_def applied_def pending_gain_def sum_list_map_update)

lemma asset_inv_reach: "asset_step\<^sup>*\<^sup>* s s' \<Longrightarrow> asset_inv v0 s \<Longrightarrow> asset_inv v0 s'"
  by (induction rule: rtranclp_induct) (auto intro: asset_inv_step)

section \<open>Properties\<close>

text \<open>
  Property C9. Any number of threads deposit into and withdraw from one balance, in any
  interleaving of their loads and (possibly spuriously failing) exchanges: in every reachable
  state the balance is the initial one plus exactly the amounts of the calls that returned true,
  and it is never negative, provided the deposits cannot push it past the largest 64-bit value.
  No update is lost and no withdrawal overdraws.
\<close>

theorem concurrent_transfers_safe:
  assumes "asset_step\<^sup>*\<^sup>* (v0, map (\<lambda>amt. \<lparr>th_amount = amt, th_pc = Start\<rparr>) amts) (v, ts)"
    and "0 \<le> v0" and "v0 + sum_list (map (max 0) amts) \<le> INT64_MAX"
  shows "v = v0 + sum_list (map (\<lambda>t. if th_pc t = Returned True then th_amount t else 0) ts) \<and> 0 \<le> v"
proof -
  let ?ts = "map (\<lambda>amt. \<lparr>th_amount = amt, th_pc = Start\<rparr>) amts"
  have "asset_inv v0 (v0, ?ts)"
    using assms(2,3) by (simp add: asset_inv_def applied_def pending_gain_def comp_def)
  then have "asset_inv v0 (v, ts)" using assms(1) by (blast intro: asset_inv_reach)
  then show ?thesis by (simp add: asset_inv_def applied_def)
qed

text \<open>Two withdrawals race for a balance that covers one of them.\<close>

lemma race_example:
  "asset_step\<^sup>*\<^sup>* (10, map (\<lambda>amt. \<lparr>th_amount = amt, th_pc = Start\<rparr>) [- 7, - 8])
    (3, [\<lparr>th_amount = - 7, th_pc = Returned True\<rparr>, \<lparr>th_amount = - 8, th_pc = Start\<rparr>])"
proof -
  let ?t = "\<lambda>a p. \<lparr>th_amount = a, th_pc = p\<rparr>"
  have "asset_step (10, [?t (- 7) Start, ?t (- 8) Start]) (10, [?t (- 7) (Loaded 10), ?t (- 8) Start])"
    using asset_step.load [of 0 "[?t (- 7) Start, ?t (- 8) Start]" 10] by simp
  moreover have "asset_step (10, [?t (- 7) (Loaded 10), ?t (- 8) Start])
      (10, [?t (- 7) (Loaded 10), ?t (- 8) (Loaded 10)])"
    using asset_step.load [of 1 "[?t (- 7) (Loaded 10), ?t (- 8) Start]" 10] by simp
  moreover have "asset_step (10, [?t (- 7) (Loaded 10), ?t (- 8) (Loaded 10)])
      (3, [?t (- 7) (Returned True), ?t (- 8) (Loaded 10)])"
    using asset_step.exchange [of 0 "[?t (- 7) (Loaded 10), ?t (- 8) (Loaded 10)]" 10 3 10]
    by (simp add: cas_target_Some in_i64_def)
  moreover have "asset_step (3, [?t (- 7) (Returned True), ?t (- 8) (Loaded 10)])
      (3, [?t (- 7) (Returned True), ?t (- 8) Start])"
    using asset_step.retry [of 1 "[?t (- 7) (Returned True), ?t (- 8) (Loaded 10)]" 10 2 3]
    by (simp add: cas_target_Some in_i64_def)
  ultimately show ?thesis by simp
qed

theorem concurrent_transfers_safe_witness:
  "(3 :: int) = 10 + sum_list (map (\<lambda>t. if th_pc t = Returned True then th_amount t else 0)
      [\<lparr>th_amount = - 7, th_pc = Returned True\<rparr>, \<lparr>th_amount = - 8, th_pc = Start\<rparr>]) \<and> 0 \<le> (3 :: int)"
  by (rule concurrent_transfers_safe [OF race_example]) simp_all

end
