(* ===== verification/Sequence_Tracker.thy ===== *)
theory Sequence_Tracker
  imports Xdr_Types
begin

unbundle bit_operations_syntax

text \<open>
  Model of \<^verbatim>\<open>memory_database/sequence_tracker.{h,cc}\<close>: the two trackers that reserve the
  sequence numbers of one account inside a block. \<open>u64_tracker\<close> is
  \<^verbatim>\<open>UInt64SequenceTracker\<close> (one word, at most 64 numbers per block);
  \<open>bounded_tracker\<close> is \<^verbatim>\<open>BoundedSequenceTracker<MAX_SEQ_GAP>\<close> with the gap as the argument
  \<open>G\<close>. The atomic \<^verbatim>\<open>fetch_or\<close> and \<^verbatim>\<open>fetch_and\<close> are single steps.

  The locale \<open>seq_tracker\<close> states what a tracker promises in terms of the last committed number
  and the set of reserved slots; replay protection is proved once inside it. Both trackers are
  interpretations of it.
\<close>

section \<open>The one-word tracker\<close>

record u64_tracker =
  last_committed_id :: nat
  sequence_number_vec :: "64 word"

fun clz_from :: "nat \<Rightarrow> 64 word \<Rightarrow> nat" where
  "clz_from 0 w = 0"
| "clz_from (Suc n) w = (if bit w n then 0 else Suc (clz_from n w))"

text \<open>\<^verbatim>\<open>__builtin_clzll\<close>.\<close>

definition clzll :: "64 word \<Rightarrow> nat" where
  "clzll w = clz_from 64 w"

definition uint64_get_seq_num_offset :: "nat \<Rightarrow> nat \<Rightarrow> nat" where
  "uint64_get_seq_num_offset sn lst =
     (let offset = sub64 (sub64 sn lst div MAX_OPS_PER_TX) 1
      in u8 (if offset \<ge> 64 then 255 else offset))"

definition uint64_get_seq_num_increment :: "64 word \<Rightarrow> nat" where
  "uint64_get_seq_num_increment bv = (if bv = 0 then 0 else (64 - clzll bv) * MAX_OPS_PER_TX)"

definition ut_init :: "nat \<Rightarrow> u64_tracker" where
  "ut_init lst = \<lparr>last_committed_id = lst, sequence_number_vec = 0\<rparr>"

definition ut_set_last_committed_id :: "nat \<Rightarrow> u64_tracker \<Rightarrow> u64_tracker" where
  "ut_set_last_committed_id sn t = t\<lparr>last_committed_id := sn\<rparr>"

definition ut_produce_commitment :: "u64_tracker \<Rightarrow> nat" where
  "ut_produce_commitment t = last_committed_id t"

definition ut_reserve_sequence_number :: "nat \<Rightarrow> u64_tracker \<Rightarrow> tx_status \<times> u64_tracker" where
  "ut_reserve_sequence_number sn t =
     (if sn \<le> last_committed_id t then (SEQ_NUM_TOO_LOW, t)
      else (let offset = uint64_get_seq_num_offset sn (last_committed_id t)
            in if offset \<ge> 64 then (SEQ_NUM_TOO_HIGH, t)
               else (let bit_mask = push_bit offset 1;
                         prev = sequence_number_vec t;
                         t' = t\<lparr>sequence_number_vec := prev OR bit_mask\<rparr>
                     in if prev AND bit_mask \<noteq> 0 then (SEQ_NUM_TEMP_IN_USE, t')
                        else (SUCCESS, t'))))"

definition ut_release_sequence_number :: "nat \<Rightarrow> u64_tracker \<Rightarrow> u64_tracker result" where
  "ut_release_sequence_number sn t =
     (if sn \<le> last_committed_id t then Inl (RuntimeError ''cannot release invalid seq num!'')
      else (let offset = uint64_get_seq_num_offset sn (last_committed_id t)
            in if offset \<ge> 64
               then Inl (RuntimeError ''cannot release too far forward seq num!'')
               else Inr (t\<lparr>sequence_number_vec := sequence_number_vec t AND NOT (push_bit offset 1)\<rparr>)))"

definition ut_commit_sequence_number :: "nat \<Rightarrow> u64_tracker \<Rightarrow> u64_tracker" where
  "ut_commit_sequence_number sn t = t"

definition ut_tentative_commitment :: "u64_tracker \<Rightarrow> nat" where
  "ut_tentative_commitment t =
     u64 (last_committed_id t + uint64_get_seq_num_increment (sequence_number_vec t))"

definition ut_commit :: "u64_tracker \<Rightarrow> u64_tracker" where
  "ut_commit t =
     \<lparr>last_committed_id = u64 (last_committed_id t + uint64_get_seq_num_increment (sequence_number_vec t)),
      sequence_number_vec = 0\<rparr>"

definition ut_rollback :: "u64_tracker \<Rightarrow> u64_tracker" where
  "ut_rollback t = t\<lparr>sequence_number_vec := 0\<rparr>"

section \<open>The many-word tracker\<close>

record bounded_tracker =
  b_last_committed_id :: nat
  b_sequence_number_vec :: "64 word list"

definition NUM_WORDS :: "nat \<Rightarrow> nat" where
  "NUM_WORDS G = G div 64 + 1"

definition array_get_seq_num_offset :: "nat \<Rightarrow> nat \<Rightarrow> nat" where
  "array_get_seq_num_offset sn lst = sub64 (sub64 sn lst div MAX_OPS_PER_TX) 1"

text \<open>The loop from word \<open>i - 1\<close> down to word 0; the product is computed in 32 bits.\<close>

fun array_increment_from :: "nat \<Rightarrow> 64 word list \<Rightarrow> nat" where
  "array_increment_from 0 bv = 0"
| "array_increment_from (Suc i) bv =
     (if bv ! i \<noteq> 0 then u32 ((64 * i + (64 - clzll (bv ! i))) * MAX_OPS_PER_TX)
      else array_increment_from i bv)"

definition array_get_seq_num_increment :: "64 word list \<Rightarrow> nat" where
  "array_get_seq_num_increment bv = array_increment_from (length bv) bv"

definition bt_init :: "nat \<Rightarrow> nat \<Rightarrow> bounded_tracker" where
  "bt_init G lst = \<lparr>b_last_committed_id = lst, b_sequence_number_vec = replicate (NUM_WORDS G) 0\<rparr>"

definition bt_reserve_sequence_number ::
  "nat \<Rightarrow> nat \<Rightarrow> bounded_tracker \<Rightarrow> tx_status \<times> bounded_tracker" where
  "bt_reserve_sequence_number G sn t =
     (if sn \<le> b_last_committed_id t then (SEQ_NUM_TOO_LOW, t)
      else (let offset = array_get_seq_num_offset sn (b_last_committed_id t)
            in if offset \<ge> G then (SEQ_NUM_TOO_HIGH, t)
               else (let word_offset = offset div 64;
                         local_offset = offset mod 64;
                         bit_mask = push_bit local_offset 1;
                         prev = b_sequence_number_vec t ! word_offset;
                         t' = t\<lparr>b_sequence_number_vec :=
                                   (b_sequence_number_vec t)[word_offset := prev OR bit_mask]\<rparr>
                     in if prev AND bit_mask \<noteq> 0 then (SEQ_NUM_TEMP_IN_USE, t')
                        else (SUCCESS, t'))))"

definition bt_release_sequence_number :: "nat \<Rightarrow> nat \<Rightarrow> bounded_tracker \<Rightarrow> bounded_tracker result" where
  "bt_release_sequence_number G sn t =
     (if sn \<le> b_last_committed_id t then Inl (RuntimeError ''cannot release invalid seq num!'')
      else (let offset = array_get_seq_num_offset sn (b_last_committed_id t)
            in if offset \<ge> G
               then Inl (RuntimeError ''cannot release too far forward seq num!'')
               else (let word_offset = offset div 64;
                         local_offset = offset mod 64;
                         vec = b_sequence_number_vec t
                     in Inr (t\<lparr>b_sequence_number_vec :=
                              vec[word_offset := vec ! word_offset AND NOT (push_bit local_offset 1)]\<rparr>))))"

definition bt_tentative_commitment :: "bounded_tracker \<Rightarrow> nat" where
  "bt_tentative_commitment t =
     u64 (b_last_committed_id t + array_get_seq_num_increment (b_sequence_number_vec t))"

definition bt_commit :: "bounded_tracker \<Rightarrow> bounded_tracker" where
  "bt_commit t =
     \<lparr>b_last_committed_id =
        u64 (b_last_committed_id t + array_get_seq_num_increment (b_sequence_number_vec t)),
      b_sequence_number_vec = map (\<lambda>_. 0) (b_sequence_number_vec t)\<rparr>"

definition bt_rollback :: "bounded_tracker \<Rightarrow> bounded_tracker" where
  "bt_rollback t = t\<lparr>b_sequence_number_vec := map (\<lambda>_. 0) (b_sequence_number_vec t)\<rparr>"

section \<open>What a tracker promises\<close>

text \<open>The number of 256-wide steps from the last committed number; slot \<open>k\<close> is step \<open>k + 1\<close>.\<close>

definition slot :: "nat \<Rightarrow> nat \<Rightarrow> nat" where
  "slot lst sn = (sn - lst) div 256"

definition slot_status :: "nat \<Rightarrow> nat \<Rightarrow> nat set \<Rightarrow> nat \<Rightarrow> tx_status" where
  "slot_status gap lst used sn =
     (if sn \<le> lst then SEQ_NUM_TOO_LOW
      else if slot lst sn = 0 \<or> gap < slot lst sn then SEQ_NUM_TOO_HIGH
      else if slot lst sn - 1 \<in> used then SEQ_NUM_TEMP_IN_USE
      else SUCCESS)"

definition top_slot :: "nat set \<Rightarrow> nat" where
  "top_slot used = (if used = {} then 0 else Suc (Max used))"

definition used_ok :: "nat \<Rightarrow> nat \<Rightarrow> nat set \<Rightarrow> bool" where
  "used_ok gap lst used \<longleftrightarrow>
     lst < 2 ^ 64 \<and> (\<forall>k\<in>used. k < gap \<and> lst + Suc k * 256 < 2 ^ 64)"

datatype seq_action = Reserve nat | Release nat | Commit | Rollback

text \<open>Running a list of calls; a call that throws leaves the tracker as it was.\<close>

fun run_seq ::
  "(nat \<Rightarrow> 't \<Rightarrow> tx_status \<times> 't) \<Rightarrow> (nat \<Rightarrow> 't \<Rightarrow> 't result) \<Rightarrow> ('t \<Rightarrow> 't) \<Rightarrow> ('t \<Rightarrow> 't)
     \<Rightarrow> seq_action list \<Rightarrow> 't \<Rightarrow> 't" where
  "run_seq res rel com roll [] t = t"
| "run_seq res rel com roll (Reserve sn # as) t = run_seq res rel com roll as (snd (res sn t))"
| "run_seq res rel com roll (Release sn # as) t =
     run_seq res rel com roll as (case rel sn t of Inr t' \<Rightarrow> t' | Inl _ \<Rightarrow> t)"
| "run_seq res rel com roll (Commit # as) t = run_seq res rel com roll as (com t)"
| "run_seq res rel com roll (Rollback # as) t = run_seq res rel com roll as (roll t)"

fun in_width :: "seq_action \<Rightarrow> bool" where
  "in_width (Reserve sn) = (sn < 2 ^ 64)"
| "in_width (Release sn) = (sn < 2 ^ 64)"
| "in_width _ = True"

text \<open>The calls between the reservation of \<open>sn\<close> and the end of its block.\<close>

fun block_action :: "nat \<Rightarrow> nat \<Rightarrow> seq_action \<Rightarrow> bool" where
  "block_action lst sn (Reserve s) = True"
| "block_action lst sn (Release s) = (slot lst s \<noteq> slot lst sn)"
| "block_action lst sn _ = False"

locale seq_tracker =
  fixes reserve :: "nat \<Rightarrow> 't \<Rightarrow> tx_status \<times> 't"
    and release :: "nat \<Rightarrow> 't \<Rightarrow> 't result"
    and commit :: "'t \<Rightarrow> 't"
    and rollback :: "'t \<Rightarrow> 't"
    and tentative :: "'t \<Rightarrow> nat"
    and gap :: nat
    and lst :: "'t \<Rightarrow> nat"
    and used :: "'t \<Rightarrow> nat set"
    and wf :: "'t \<Rightarrow> bool"
  assumes wf_used: "wf t \<Longrightarrow> used_ok gap (lst t) (used t)"
    and wf_reserve: "wf t \<Longrightarrow> sn < 2 ^ 64 \<Longrightarrow> wf (snd (reserve sn t))"
    and reserve_status: "wf t \<Longrightarrow> sn < 2 ^ 64 \<Longrightarrow>
      fst (reserve sn t) = slot_status gap (lst t) (used t) sn"
    and reserve_lst: "wf t \<Longrightarrow> sn < 2 ^ 64 \<Longrightarrow> lst (snd (reserve sn t)) = lst t"
    and reserve_used: "wf t \<Longrightarrow> sn < 2 ^ 64 \<Longrightarrow> used (snd (reserve sn t)) =
      (if fst (reserve sn t) = SUCCESS then insert (slot (lst t) sn - 1) (used t) else used t)"
    and wf_release: "wf t \<Longrightarrow> sn < 2 ^ 64 \<Longrightarrow> release sn t = Inr t' \<Longrightarrow>
      wf t' \<and> lst t' = lst t \<and> used t' = used t - {slot (lst t) sn - 1} \<and> 0 < slot (lst t) sn"
    and wf_commit: "wf t \<Longrightarrow> wf (commit t)"
    and commit_lst: "wf t \<Longrightarrow> lst (commit t) = lst t + top_slot (used t) * 256"
    and commit_used: "wf t \<Longrightarrow> used (commit t) = {}"
    and tentative_eq: "wf t \<Longrightarrow> tentative t = lst (commit t)"
    and wf_rollback: "wf t \<Longrightarrow> wf (rollback t) \<and> lst (rollback t) = lst t \<and> used (rollback t) = {}"
begin

abbreviation run :: "seq_action list \<Rightarrow> 't \<Rightarrow> 't" where
  "run \<equiv> run_seq reserve release commit rollback"

text \<open>A number can be reserved once: the second attempt in the same block is refused.\<close>

lemma no_double_reservation:
  assumes "wf t" "sn < 2 ^ 64" "fst (reserve sn t) = SUCCESS"
  shows "fst (reserve sn (snd (reserve sn t))) = SEQ_NUM_TEMP_IN_USE"
  using assms reserve_status [of t sn] wf_reserve [of t sn] reserve_status [of "snd (reserve sn t)" sn]
  by (auto simp: reserve_lst reserve_used slot_status_def split: if_splits)

text \<open>\<open>holds t sn\<close>: the slot of \<open>sn\<close> is reserved in the current block.\<close>

abbreviation holds :: "'t \<Rightarrow> nat \<Rightarrow> bool" where
  "holds t sn \<equiv> lst t < sn \<and> 0 < slot (lst t) sn \<and> slot (lst t) sn - 1 \<in> used t"

lemma holds_reserved:
  assumes "wf t" "sn < 2 ^ 64" "fst (reserve sn t) = SUCCESS"
  shows "holds (snd (reserve sn t)) sn"
  using assms reserve_status [of t sn]
  by (auto simp: reserve_lst reserve_used slot_status_def split: if_splits)

lemma run_wf_mono:
  "wf t \<Longrightarrow> list_all in_width as \<Longrightarrow> wf (run as t) \<and> lst t \<le> lst (run as t)"
proof (induction as arbitrary: t)
  case Nil
  then show ?case by simp
next
  case (Cons a as)
  show ?case
  proof (cases a)
    case (Reserve sn)
    with Cons.prems show ?thesis
      using Cons.IH [of "snd (reserve sn t)"] wf_reserve [of t sn] reserve_lst [of t sn] by auto
  next
    case (Release sn)
    with Cons.prems show ?thesis
      using Cons.IH [of t] Cons.IH [of "projr (release sn t)"] wf_release [of t sn]
      by (cases "release sn t") auto
  next
    case Commit
    with Cons show ?thesis using Cons.IH [of "commit t"] wf_commit [of t] commit_lst [of t] by auto
  next
    case Rollback
    with Cons show ?thesis using Cons.IH [of "rollback t"] wf_rollback [of t] by auto
  qed
qed

lemma run_block_holds:
  "wf t \<Longrightarrow> holds t sn \<Longrightarrow> list_all in_width as \<Longrightarrow> list_all (block_action (lst t) sn) as
    \<Longrightarrow> wf (run as t) \<and> lst (run as t) = lst t \<and> holds (run as t) sn"
proof (induction as arbitrary: t)
  case Nil
  then show ?case by simp
next
  case (Cons a as)
  show ?case
  proof (cases a)
    case (Reserve s)
    with Cons.prems have "wf (snd (reserve s t))" "lst (snd (reserve s t)) = lst t"
      "holds (snd (reserve s t)) sn"
      by (auto simp: wf_reserve reserve_lst reserve_used)
    then show ?thesis using Cons.IH [of "snd (reserve s t)"] Cons.prems Reserve by auto
  next
    case (Release s)
    show ?thesis
    proof (cases "release s t")
      case (Inl e)
      have "wf (run as t) \<and> lst (run as t) = lst t \<and> holds (run as t) sn"
        using Cons.prems by (intro Cons.IH) simp_all
      then show ?thesis unfolding Release run_seq.simps Inl sum.case .
    next
      case (Inr t')
      have pre: "wf t" "s < 2 ^ 64" "slot (lst t) s \<noteq> slot (lst t) sn" "holds t sn"
        "list_all in_width as" "list_all (block_action (lst t) sn) as"
        using Cons.prems Release by simp_all
      have t': "wf t'" "lst t' = lst t" "used t' = used t - {slot (lst t) s - 1}" "0 < slot (lst t) s"
        using wf_release [OF pre(1,2) Inr] by blast+
      have "0 < slot (lst t) sn" using pre(4) by blast
      then have "slot (lst t) sn - 1 \<noteq> slot (lst t) s - 1" using pre(3) t'(4) by linarith
      then have "slot (lst t) sn - 1 \<in> used t'" unfolding t'(3) using pre(4) by blast
      then have "holds t' sn" using t'(2) pre(4) by simp
      then have "wf (run as t') \<and> lst (run as t') = lst t' \<and> holds (run as t') sn"
        using t' pre by (intro Cons.IH) simp_all
      then show ?thesis unfolding Release run_seq.simps Inr sum.case t'(2) .
    qed
  qed (use Cons.prems in auto)
qed

lemma commit_consumes:
  assumes "wf t" "holds t sn"
  shows "sn < lst (commit t) + 256"
proof -
  have "finite (used t)"
    using wf_used [OF assms(1)] by (auto simp: used_ok_def intro: finite_subset [of _ "{..<gap}"])
  then have "slot (lst t) sn - 1 \<le> Max (used t)" using assms(2) by (intro Max_ge) auto
  then have "slot (lst t) sn \<le> top_slot (used t)" using assms(2) by (auto simp: top_slot_def)
  moreover have "sn - lst t < (slot (lst t) sn + 1) * 256"
    by (simp add: slot_def dividend_less_times_div)
  ultimately have "sn - lst t < (top_slot (used t) + 1) * 256"
    by (meson add_le_mono1 less_le_trans mult_le_mono1)
  then show ?thesis using commit_lst [OF assms(1)] by simp
qed

lemma consumed_refused:
  assumes "wf t" "sn < 2 ^ 64" "sn < lst t + 256"
  shows "fst (reserve sn t) \<noteq> SUCCESS"
  using assms by (auto simp: reserve_status slot_status_def slot_def)

text \<open>A number reserved in a committed block is refused for ever.\<close>

lemma no_replay:
  assumes "wf t" "sn < 2 ^ 64" "fst (reserve sn t) = SUCCESS"
    and "list_all in_width bs" "list_all (block_action (lst t) sn) bs" "list_all in_width as"
  shows "fst (reserve sn (run as (commit (run bs (snd (reserve sn t)))))) \<noteq> SUCCESS"
proof -
  let ?t = "snd (reserve sn t)"
  have "wf ?t" "lst ?t = lst t" "holds ?t sn"
    using assms holds_reserved wf_reserve reserve_lst by auto
  then have t: "wf (run bs ?t)" "holds (run bs ?t) sn"
    using run_block_holds [of ?t sn bs] assms by auto
  then have "wf (commit (run bs ?t))" "sn < lst (commit (run bs ?t)) + 256"
    using wf_commit commit_consumes by auto
  then show ?thesis
    using run_wf_mono [of "commit (run bs ?t)" as] assms consumed_refused by force
qed

text \<open>Rolling back makes the numbers of the block available again.\<close>

lemma rollback_frees:
  assumes "wf t" "sn < 2 ^ 64" "lst t < sn" "0 < slot (lst t) sn" "slot (lst t) sn \<le> gap"
  shows "fst (reserve sn (rollback t)) = SUCCESS"
  using assms wf_rollback [of t] by (simp add: reserve_status slot_status_def)

lemma rollback_after_reserve:
  assumes "wf t" "sn < 2 ^ 64" "fst (reserve sn t) = SUCCESS"
  shows "fst (reserve sn (rollback (snd (reserve sn t)))) = SUCCESS"
proof (rule rollback_frees)
  show "wf (snd (reserve sn t))" "sn < 2 ^ 64" using assms wf_reserve by auto
  show "lst (snd (reserve sn t)) < sn" "0 < slot (lst (snd (reserve sn t))) sn"
    "slot (lst (snd (reserve sn t))) sn \<le> gap"
    using assms reserve_status [of t sn] reserve_lst [of t sn]
    by (auto simp: slot_status_def split: if_splits)
qed

end

section \<open>Bits and slots\<close>

lemma bit_or_exp: "n < 64 \<Longrightarrow> bit (w OR 2 ^ n) i \<longleftrightarrow> bit w i \<or> i = n" for w :: "64 word"
  by (auto simp: bit_simps)

lemma bit_and_not_exp: "bit (w AND NOT (2 ^ n)) i \<longleftrightarrow> bit w i \<and> i \<noteq> n" for w :: "64 word"
  by (auto simp: bit_simps dest: bit_imp_le_length)

lemma or_exp_same: "bit w k \<Longrightarrow> w OR 2 ^ k = w" for w :: "64 word"
  by (intro bit_eqI) (auto simp: bit_simps)

lemmas exp_bits = and_exp_eq_0_iff_not_bit bit_or_exp bit_and_not_exp or_exp_same

lemma clz_from_le: "clz_from n w \<le> n"
  by (induction n) auto

lemma clz_from_top:
  assumes "bit w k" "k < n"
  shows "bit w (n - clz_from n w - 1) \<and> k < n - clz_from n w"
  using assms
proof (induction n)
  case 0
  then show ?case by simp
next
  case (Suc n)
  then show ?case by (cases "k = n") auto
qed

lemma clz_from_above: "n - clz_from n w \<le> i \<Longrightarrow> i < n \<Longrightarrow> \<not> bit w i"
proof (induction n)
  case 0
  then show ?case by simp
next
  case (Suc n)
  then show ?case by (cases "i = n") (auto split: if_splits)
qed

lemma word_nonzero_bit: "w \<noteq> 0 \<Longrightarrow> \<exists>k < 64. bit w k" for w :: "64 word"
proof (rule ccontr)
  assume "w \<noteq> 0" and no: "\<not> (\<exists>k < 64. bit w k)"
  have "bit w i = bit 0 i" for i using no bit_imp_le_length [of w i] by auto
  then have "w = 0" by (rule bit_eqI)
  with \<open>w \<noteq> 0\<close> show False by simp
qed

lemma clzll_Max:
  assumes "w \<noteq> 0"
  shows "64 - clzll w = Suc (Max {i. bit w i})"
proof -
  obtain k where k: "k < 64" "bit w k" using word_nonzero_bit [OF assms] by blast
  let ?m = "64 - clz_from 64 w - 1"
  have top: "bit w ?m" "0 < 64 - clz_from 64 w" using clz_from_top [of w k 64] k by auto
  have fin: "finite {i. bit w i}"
    by (rule finite_subset [of _ "{..<64}"]) (auto dest: bit_imp_le_length)
  have "i \<le> ?m" if "bit w i" for i
    using clz_from_above [of 64 w i] that bit_imp_le_length [OF that] top by fastforce
  then have "Max {i. bit w i} = ?m" using top fin by (intro Max_eqI) auto
  then show ?thesis using top by (simp add: clzll_def)
qed

lemma array_offset_eq:
  assumes "lst < sn" "sn < 2 ^ 64"
  shows "array_get_seq_num_offset sn lst = (if slot lst sn = 0 then 2 ^ 64 - 1 else slot lst sn - 1)"
proof -
  have "sub64 sn lst = sn - lst" using assms by (intro sub64_id) auto
  moreover have "sub64 0 1 = 2 ^ 64 - 1" by (simp add: sub64_def)
  moreover have "sub64 (slot lst sn) 1 = slot lst sn - 1" if "slot lst sn \<noteq> 0"
    using that assms by (intro sub64_id) (auto simp: slot_def)
  ultimately show ?thesis by (auto simp: array_get_seq_num_offset_def MAX_OPS_PER_TX_def slot_def)
qed

lemma uint64_offset_eq:
  assumes "lst < sn" "sn < 2 ^ 64"
  shows "uint64_get_seq_num_offset sn lst =
    (if slot lst sn = 0 \<or> 64 < slot lst sn then 255 else slot lst sn - 1)"
proof -
  have "uint64_get_seq_num_offset sn lst =
      (let offset = array_get_seq_num_offset sn lst in u8 (if offset \<ge> 64 then 255 else offset))"
    by (simp add: uint64_get_seq_num_offset_def array_get_seq_num_offset_def)
  then show ?thesis using array_offset_eq [OF assms] by (auto simp: u8_def Let_def)
qed

lemma slot_in_width: "slot lst sn = Suc k \<Longrightarrow> lst < sn \<Longrightarrow> sn < 2 ^ 64 \<Longrightarrow> lst + Suc k * 256 < 2 ^ 64"
  using times_div_less_eq_dividend [of 256 "sn - lst"] by (simp add: slot_def)

section \<open>The one-word tracker keeps the promise\<close>

definition ut_used :: "u64_tracker \<Rightarrow> nat set" where
  "ut_used t = {k. bit (sequence_number_vec t) k}"

definition ut_wf :: "u64_tracker \<Rightarrow> bool" where
  "ut_wf t \<longleftrightarrow> used_ok 64 (last_committed_id t) (ut_used t)"

lemma ut_increment: "uint64_get_seq_num_increment (sequence_number_vec t) = top_slot (ut_used t) * 256"
proof (cases "sequence_number_vec t = 0")
  case True
  then show ?thesis by (simp add: uint64_get_seq_num_increment_def top_slot_def ut_used_def)
next
  case False
  then have "ut_used t \<noteq> {}" using word_nonzero_bit by (auto simp: ut_used_def)
  with False show ?thesis
    by (simp add: uint64_get_seq_num_increment_def top_slot_def ut_used_def clzll_Max MAX_OPS_PER_TX_def)
qed

lemma top_slot_in_width:
  assumes "used_ok gap lst U"
  shows "lst + top_slot U * 256 < 2 ^ 64"
proof (cases "U = {}")
  case True
  then show ?thesis using assms by (simp add: top_slot_def used_ok_def)
next
  case False
  have "finite U" using assms by (auto simp: used_ok_def intro: finite_subset [of _ "{..<gap}"])
  then have "Max U \<in> U" using False by (intro Max_in) auto
  then show ?thesis using assms False by (auto simp: top_slot_def used_ok_def)
qed

lemma ut_reserve_cases:
  assumes "ut_wf t" "sn < 2 ^ 64"
  shows "ut_reserve_sequence_number sn t =
    (let st = slot_status 64 (last_committed_id t) (ut_used t) sn
     in (st, if st = SUCCESS
             then t\<lparr>sequence_number_vec := sequence_number_vec t OR push_bit (slot (last_committed_id t) sn - 1) 1\<rparr>
             else t))"
  using assms uint64_offset_eq [of "last_committed_id t" sn]
  by (auto simp: ut_reserve_sequence_number_def slot_status_def Let_def ut_used_def exp_bits)

lemma ut_reserve_used:
  assumes "ut_wf t" "sn < 2 ^ 64" "slot_status 64 (last_committed_id t) (ut_used t) sn = SUCCESS"
  shows "ut_used (snd (ut_reserve_sequence_number sn t)) = insert (slot (last_committed_id t) sn - 1) (ut_used t)"
  using assms
  by (auto simp: ut_reserve_cases Let_def ut_used_def slot_status_def exp_bits split: if_splits)

lemma used_ok_insert:
  assumes "used_ok gap lst U" "slot_status gap lst U sn = SUCCESS" "sn < 2 ^ 64"
  shows "used_ok gap lst (insert (slot lst sn - 1) U)"
  using assms slot_in_width [of lst sn "slot lst sn - 1"]
  by (auto simp: used_ok_def slot_status_def split: if_splits)

lemma ut_wf_reserve: "ut_wf t \<Longrightarrow> sn < 2 ^ 64 \<Longrightarrow> ut_wf (snd (ut_reserve_sequence_number sn t))"
  using ut_reserve_used [of t sn] used_ok_insert [of 64 "last_committed_id t" "ut_used t" sn]
  by (auto simp: ut_wf_def ut_reserve_cases Let_def)

lemma ut_release:
  assumes "ut_wf t" "sn < 2 ^ 64" "ut_release_sequence_number sn t = Inr t'"
  shows "ut_wf t' \<and> last_committed_id t' = last_committed_id t
    \<and> ut_used t' = ut_used t - {slot (last_committed_id t) sn - 1} \<and> 0 < slot (last_committed_id t) sn"
  using assms uint64_offset_eq [of "last_committed_id t" sn]
  by (auto simp: ut_release_sequence_number_def Let_def ut_wf_def ut_used_def used_ok_def
      exp_bits split: if_splits)

lemma ut_commit_facts:
  assumes "ut_wf t"
  shows "ut_wf (ut_commit t)" "ut_used (ut_commit t) = {}"
    "last_committed_id (ut_commit t) = last_committed_id t + top_slot (ut_used t) * 256"
  using assms top_slot_in_width [of 64 "last_committed_id t" "ut_used t"]
  by (simp_all add: ut_commit_def ut_wf_def ut_increment used_ok_def) (simp_all add: ut_used_def)

interpretation ut: seq_tracker ut_reserve_sequence_number ut_release_sequence_number ut_commit
  ut_rollback ut_tentative_commitment 64 last_committed_id ut_used ut_wf
proof (unfold_locales, goal_cases)
  case 1 then show ?case by (simp add: ut_wf_def)
next
  case 2 then show ?case by (rule ut_wf_reserve)
next
  case 3 then show ?case by (simp add: ut_reserve_cases Let_def)
next
  case 4 then show ?case by (simp add: ut_reserve_cases Let_def)
next
  case (5 t sn) then show ?case using ut_reserve_used [of t sn] by (auto simp: ut_reserve_cases Let_def)
next
  case 6 then show ?case by (rule ut_release)
next
  case 7 then show ?case by (rule ut_commit_facts)
next
  case 8 then show ?case by (rule ut_commit_facts)
next
  case 9 then show ?case by (rule ut_commit_facts)
next
  case 10 then show ?case by (simp add: ut_tentative_commitment_def ut_commit_def)
next
  case 11 then show ?case by (auto simp: ut_rollback_def ut_wf_def ut_used_def used_ok_def)
qed

section \<open>The many-word tracker keeps the promise\<close>

text \<open>Slot \<open>k\<close> is bit \<open>k mod 64\<close> of word \<open>k div 64\<close>.\<close>

definition vec_used :: "64 word list \<Rightarrow> nat set" where
  "vec_used ws = {k. k div 64 < length ws \<and> bit (ws ! (k div 64)) (k mod 64)}"

definition bt_used :: "bounded_tracker \<Rightarrow> nat set" where
  "bt_used t = vec_used (b_sequence_number_vec t)"

text \<open>A gap of up to \<open>2\<^sup>23\<close> keeps the 32-bit product of the increment from wrapping.\<close>

definition bt_wf :: "nat \<Rightarrow> bounded_tracker \<Rightarrow> bool" where
  "bt_wf G t \<longleftrightarrow> 64 < G \<and> G \<le> 2 ^ 23 \<and> length (b_sequence_number_vec t) = NUM_WORDS G
     \<and> used_ok G (b_last_committed_id t) (bt_used t)"

lemma vec_used_update:
  assumes "w < length ws"
  shows "vec_used (ws[w := v]) = {k \<in> vec_used ws. k div 64 \<noteq> w} \<union> {k. k div 64 = w \<and> bit v (k mod 64)}"
  using assms by (auto simp: vec_used_def nth_list_update)

lemma vec_used_set:
  assumes "o1 div 64 < length ws"
  shows "vec_used (ws[o1 div 64 := ws ! (o1 div 64) OR 2 ^ (o1 mod 64)]) = insert o1 (vec_used ws)"
proof -
  have "k = o1" if "k div 64 = o1 div 64" "k mod 64 = o1 mod 64" for k
    using that by (metis div_mult_mod_eq)
  then show ?thesis
    using assms unfolding vec_used_update [OF assms] by (auto simp: vec_used_def exp_bits)
qed

lemma vec_used_unset:
  assumes "o1 div 64 < length ws"
  shows "vec_used (ws[o1 div 64 := ws ! (o1 div 64) AND NOT (2 ^ (o1 mod 64))]) = vec_used ws - {o1}"
proof -
  have "k = o1" if "k div 64 = o1 div 64" "k mod 64 = o1 mod 64" for k
    using that by (metis div_mult_mod_eq)
  then show ?thesis
    using assms unfolding vec_used_update [OF assms] by (auto simp: vec_used_def exp_bits)
qed

lemma vec_used_zero [simp]: "vec_used (map (\<lambda>_. 0) ws) = {}"
  by (auto simp: vec_used_def)

lemma vec_used_bound: "k \<in> vec_used ws \<Longrightarrow> k < 64 * length ws"
  by (simp add: vec_used_def div_less_iff_less_mult mult.commute)

lemma array_increment_from_eq:
  assumes "n \<le> length ws" "\<forall>k \<in> vec_used ws. k < 64 * n" "vec_used ws \<subseteq> {..< 2 ^ 23}"
  shows "array_increment_from n ws = top_slot (vec_used ws) * 256"
  using assms
proof (induction n)
  case 0
  then have "vec_used ws = {}" by auto
  then show ?case by (simp add: top_slot_def)
next
  case (Suc n)
  have fin: "finite (vec_used ws)" using Suc.prems(3) finite_subset by blast
  show ?case
  proof (cases "ws ! n = 0")
    case True
    have "k < 64 * n" if k: "k \<in> vec_used ws" for k
    proof -
      have "k div 64 < Suc n" using Suc.prems(2) k by (simp add: div_less_iff_less_mult mult.commute)
      moreover have "k div 64 \<noteq> n" using True k by (auto simp: vec_used_def)
      ultimately have "k div 64 < n" by simp
      then show ?thesis by (simp add: div_less_iff_less_mult mult.commute)
    qed
    then show ?thesis using True Suc by simp
  next
    case False
    let ?m = "Max {i. bit (ws ! n) i}"
    have bits: "finite {i. bit (ws ! n) i}" "{i. bit (ws ! n) i} \<noteq> {}"
      using word_nonzero_bit [OF False]
      by (auto intro: finite_subset [of _ "{..<64}"] dest: bit_imp_le_length)
    then have m: "bit (ws ! n) ?m" using Max_in by blast
    then have m64: "?m < 64" using bit_imp_le_length [OF m] by simp
    then have in_used: "64 * n + ?m \<in> vec_used ws" using m Suc.prems(1) by (simp add: vec_used_def)
    have "k \<le> 64 * n + ?m" if k: "k \<in> vec_used ws" for k
    proof (cases "k div 64 = n")
      case True
      then have "k mod 64 \<le> ?m" using k bits by (intro Max_ge) (auto simp: vec_used_def)
      moreover have "k = 64 * n + k mod 64" using True by (metis mult_div_mod_eq)
      ultimately show ?thesis by linarith
    next
      case ne: False
      have "k div 64 < Suc n" using Suc.prems(2) k by (simp add: div_less_iff_less_mult mult.commute)
      then have "k div 64 < n" using ne by simp
      then show ?thesis by (simp add: div_less_iff_less_mult)
    qed
    then have "Max (vec_used ws) = 64 * n + ?m" using in_used fin by (intro Max_eqI) auto
    moreover have "64 * n + ?m < 2 ^ 23" using in_used Suc.prems(3) by auto
    ultimately show ?thesis
      using False in_used clzll_Max [OF False]
      by (auto simp: top_slot_def MAX_OPS_PER_TX_def u32_def)
  qed
qed

lemma array_increment:
  assumes "bt_wf G t"
  shows "array_get_seq_num_increment (b_sequence_number_vec t) = top_slot (bt_used t) * 256"
  unfolding array_get_seq_num_increment_def bt_used_def
proof (rule array_increment_from_eq)
  show "vec_used (b_sequence_number_vec t) \<subseteq> {..<2 ^ 23}"
    using assms by (auto simp: bt_wf_def used_ok_def bt_used_def)
qed (auto simp: vec_used_bound)

lemma word_index_less: "k < G \<Longrightarrow> k div 64 < NUM_WORDS G"
  by (simp add: NUM_WORDS_def div_le_mono less_Suc_eq_le)

lemma slot_offset_less: "\<not> G < slot l sn \<Longrightarrow> 0 < slot l sn \<Longrightarrow> (slot l sn - Suc 0) div 64 < NUM_WORDS G"
  by (intro word_index_less) simp

lemma bt_reserve_cases:
  assumes "bt_wf G t" "sn < 2 ^ 64"
  shows "bt_reserve_sequence_number G sn t =
    (let st = slot_status G (b_last_committed_id t) (bt_used t) sn;
         k = slot (b_last_committed_id t) sn - 1;
         vec = b_sequence_number_vec t
     in (st, if st = SUCCESS
             then t\<lparr>b_sequence_number_vec := vec[k div 64 := vec ! (k div 64) OR 2 ^ (k mod 64)]\<rparr>
             else t))"
  using assms array_offset_eq [of "b_last_committed_id t" sn]
    slot_offset_less [of G "b_last_committed_id t" sn]
  by (auto simp: bt_reserve_sequence_number_def slot_status_def Let_def bt_used_def vec_used_def
      exp_bits bt_wf_def)

lemma bt_reserve_used:
  assumes "bt_wf G t" "sn < 2 ^ 64" "slot_status G (b_last_committed_id t) (bt_used t) sn = SUCCESS"
  shows "bt_used (snd (bt_reserve_sequence_number G sn t)) = insert (slot (b_last_committed_id t) sn - 1) (bt_used t)"
proof -
  have "(slot (b_last_committed_id t) sn - 1) div 64 < length (b_sequence_number_vec t)"
    using assms slot_offset_less [of G "b_last_committed_id t" sn]
    by (auto simp: bt_wf_def slot_status_def split: if_splits)
  then show ?thesis
    using assms by (simp add: bt_reserve_cases Let_def bt_used_def vec_used_set)
qed

lemma bt_wf_reserve:
  assumes "bt_wf G t" "sn < 2 ^ 64"
  shows "bt_wf G (snd (bt_reserve_sequence_number G sn t))"
  using assms bt_reserve_used [of G t sn] used_ok_insert [of G "b_last_committed_id t" "bt_used t" sn]
  by (auto simp: bt_wf_def bt_reserve_cases Let_def)

lemma bt_release:
  assumes "bt_wf G t" "sn < 2 ^ 64" "bt_release_sequence_number G sn t = Inr t'"
  shows "bt_wf G t' \<and> b_last_committed_id t' = b_last_committed_id t
    \<and> bt_used t' = bt_used t - {slot (b_last_committed_id t) sn - 1} \<and> 0 < slot (b_last_committed_id t) sn"
proof -
  let ?k = "slot (b_last_committed_id t) sn - 1"
  let ?vec = "b_sequence_number_vec t"
  have G: "G \<le> 2 ^ 23" "length ?vec = NUM_WORDS G" using assms(1) by (auto simp: bt_wf_def)
  have lt: "b_last_committed_id t < sn" "array_get_seq_num_offset sn (b_last_committed_id t) < G"
    using assms(3) by (auto simp: bt_release_sequence_number_def Let_def split: if_splits)
  then have pos: "0 < slot (b_last_committed_id t) sn" and off: "array_get_seq_num_offset sn (b_last_committed_id t) = ?k"
    using array_offset_eq [OF lt(1) assms(2)] G(1) by (auto split: if_splits)
  have k: "?k div 64 < length ?vec" using lt(2) off G(2) word_index_less by simp
  have t': "t' = t\<lparr>b_sequence_number_vec := ?vec[?k div 64 := ?vec ! (?k div 64) AND NOT (2 ^ (?k mod 64))]\<rparr>"
    using assms(3) off lt by (auto simp: bt_release_sequence_number_def Let_def split: if_splits)
  then have "bt_used t' = bt_used t - {?k}" using vec_used_unset [OF k] by (simp add: bt_used_def)
  moreover have "used_ok G (b_last_committed_id t) (bt_used t - {?k})"
    using assms(1) by (auto simp: bt_wf_def used_ok_def)
  ultimately show ?thesis using assms(1) t' pos by (auto simp: bt_wf_def)
qed

lemma bt_commit_facts:
  assumes "bt_wf G t"
  shows "bt_wf G (bt_commit t)" "bt_used (bt_commit t) = {}"
    "b_last_committed_id (bt_commit t) = b_last_committed_id t + top_slot (bt_used t) * 256"
proof -
  have "b_last_committed_id t + top_slot (bt_used t) * 256 < 2 ^ 64"
    using assms top_slot_in_width by (auto simp: bt_wf_def)
  then show lst: "b_last_committed_id (bt_commit t) = b_last_committed_id t + top_slot (bt_used t) * 256"
    by (simp add: bt_commit_def array_increment [OF assms])
  show used: "bt_used (bt_commit t) = {}" by (simp add: bt_commit_def bt_used_def)
  have "used_ok G (b_last_committed_id (bt_commit t)) {}"
    using \<open>_ < 2 ^ 64\<close> unfolding lst by (simp add: used_ok_def)
  then show "bt_wf G (bt_commit t)"
    using assms unfolding bt_wf_def used by (simp add: bt_commit_def)
qed

interpretation bt: seq_tracker "bt_reserve_sequence_number G" "bt_release_sequence_number G" bt_commit
  bt_rollback bt_tentative_commitment G b_last_committed_id bt_used "bt_wf G" for G
proof (unfold_locales, goal_cases)
  case 1 then show ?case by (simp add: bt_wf_def)
next
  case 2 then show ?case by (rule bt_wf_reserve)
next
  case 3 then show ?case by (simp add: bt_reserve_cases Let_def)
next
  case 4 then show ?case by (simp add: bt_reserve_cases Let_def)
next
  case (5 t sn) then show ?case using bt_reserve_used [of G t sn] by (auto simp: bt_reserve_cases Let_def)
next
  case 6 then show ?case by (rule bt_release)
next
  case 7 then show ?case by (rule bt_commit_facts)
next
  case 8 then show ?case by (rule bt_commit_facts)
next
  case 9 then show ?case by (rule bt_commit_facts)
next
  case 10 then show ?case by (simp add: bt_tentative_commitment_def bt_commit_def)
next
  case 11 then show ?case by (auto simp: bt_rollback_def bt_wf_def bt_used_def used_ok_def)
qed

section \<open>Properties\<close>

text \<open>
  Property C7. One-word tracker: once a sequence number has been reserved in a block that
  commits, no later sequence of reservations, releases, commits and rollbacks ever lets it be
  reserved again, whether or not the number is a multiple of 256. Between the reservation and the
  commit, other numbers may be reserved and released in any order.
\<close>

theorem ut_no_replay:
  assumes "ut_wf t" and "sn < 2 ^ 64" and "fst (ut_reserve_sequence_number sn t) = SUCCESS"
    and "list_all in_width bs" and "list_all (block_action (last_committed_id t) sn) bs"
    and "list_all in_width as"
    and "run = run_seq ut_reserve_sequence_number ut_release_sequence_number ut_commit ut_rollback"
  shows "fst (ut_reserve_sequence_number sn
    (run as (ut_commit (run bs (snd (ut_reserve_sequence_number sn t)))))) \<noteq> SUCCESS"
  unfolding assms(7) by (rule ut.no_replay [OF assms(1-6)])

lemma ut_wf_init: "lst < 2 ^ 64 \<Longrightarrow> ut_wf (ut_init lst)"
  by (simp add: ut_wf_def ut_init_def used_ok_def ut_used_def)

theorem ut_no_replay_witness:
  "fst (ut_reserve_sequence_number 512
    (run_seq ut_reserve_sequence_number ut_release_sequence_number ut_commit ut_rollback
       [Reserve 1024, Rollback]
       (ut_commit (run_seq ut_reserve_sequence_number ut_release_sequence_number ut_commit ut_rollback
         [Reserve 256, Release 256] (snd (ut_reserve_sequence_number 512 (ut_init 0))))))) \<noteq> SUCCESS"
  by (rule ut_no_replay [OF ut_wf_init _ _ _ _ _ refl])
    (simp_all add: ut_reserve_sequence_number_def ut_init_def uint64_offset_eq slot_def Let_def)

text \<open>
  Property C8. Many-word tracker with any gap above 64 and up to \<open>2\<^sup>23\<close>: the same
  protection against replays.
\<close>

theorem bt_no_replay:
  assumes "bt_wf G t" and "sn < 2 ^ 64" and "fst (bt_reserve_sequence_number G sn t) = SUCCESS"
    and "list_all in_width bs" and "list_all (block_action (b_last_committed_id t) sn) bs"
    and "list_all in_width as"
    and "run = run_seq (bt_reserve_sequence_number G) (bt_release_sequence_number G) bt_commit bt_rollback"
  shows "fst (bt_reserve_sequence_number G sn
    (run as (bt_commit (run bs (snd (bt_reserve_sequence_number G sn t)))))) \<noteq> SUCCESS"
  unfolding assms(7) by (rule bt.no_replay [OF assms(1-6)])

lemma bt_wf_init: "lst < 2 ^ 64 \<Longrightarrow> 64 < G \<Longrightarrow> G \<le> 2 ^ 23 \<Longrightarrow> bt_wf G (bt_init G lst)"
  by (auto simp: bt_wf_def bt_init_def used_ok_def bt_used_def vec_used_def)

theorem bt_no_replay_witness:
  "fst (bt_reserve_sequence_number 100 25600
    (run_seq (bt_reserve_sequence_number 100) (bt_release_sequence_number 100) bt_commit bt_rollback
       [Reserve 256] (bt_commit
        (run_seq (bt_reserve_sequence_number 100) (bt_release_sequence_number 100) bt_commit bt_rollback
         [Reserve 256, Release 256] (snd (bt_reserve_sequence_number 100 25600 (bt_init 100 0))))))) \<noteq> SUCCESS"
  by (rule bt_no_replay [OF bt_wf_init _ _ _ _ _ refl])
    (simp_all add: bt_reserve_sequence_number_def bt_init_def array_offset_eq slot_def Let_def NUM_WORDS_def)

text \<open>
  Property C25. Both trackers refuse a second reservation of a number inside the block that
  reserved it, and hand every number of the block out again after a rollback.
\<close>

theorem trackers_reserve_once:
  assumes "ut_wf t" "bt_wf G b" and "sn < 2 ^ 64"
  shows "(fst (ut_reserve_sequence_number sn t) = SUCCESS \<longrightarrow>
      fst (ut_reserve_sequence_number sn (snd (ut_reserve_sequence_number sn t))) = SEQ_NUM_TEMP_IN_USE
      \<and> fst (ut_reserve_sequence_number sn (ut_rollback (snd (ut_reserve_sequence_number sn t)))) = SUCCESS)
    \<and> (fst (bt_reserve_sequence_number G sn b) = SUCCESS \<longrightarrow>
      fst (bt_reserve_sequence_number G sn (snd (bt_reserve_sequence_number G sn b))) = SEQ_NUM_TEMP_IN_USE
      \<and> fst (bt_reserve_sequence_number G sn (bt_rollback (snd (bt_reserve_sequence_number G sn b)))) = SUCCESS)"
  using assms ut.no_double_reservation [of t sn] bt.no_double_reservation [of G b sn]
    ut.rollback_after_reserve [of t sn] bt.rollback_after_reserve [of G b sn]
  by blast

theorem trackers_reserve_once_witness:
  "fst (ut_reserve_sequence_number 512 (snd (ut_reserve_sequence_number 512 (ut_init 0)))) = SEQ_NUM_TEMP_IN_USE
    \<and> fst (bt_reserve_sequence_number 100 25600 (snd (bt_reserve_sequence_number 100 25600 (bt_init 100 0))))
      = SEQ_NUM_TEMP_IN_USE"
proof -
  have "fst (ut_reserve_sequence_number 512 (ut_init 0)) = SUCCESS"
    by (simp add: ut_reserve_sequence_number_def ut_init_def uint64_offset_eq slot_def Let_def)
  moreover have "fst (bt_reserve_sequence_number 100 25600 (bt_init 100 0)) = SUCCESS"
    by (simp add: bt_reserve_sequence_number_def bt_init_def array_offset_eq slot_def Let_def NUM_WORDS_def)
  ultimately show ?thesis
    using trackers_reserve_once [of "ut_init 0" 100 "bt_init 100 0" 512]
      trackers_reserve_once [of "ut_init 0" 100 "bt_init 100 0" 25600]
      ut_wf_init [of 0] bt_wf_init [of 0 100] by simp
qed

end
