(* ===== verification/User_Account.thy ===== *)
theory User_Account
  imports Revertable_Asset Sequence_Tracker
begin

text \<open>
  Model of \<^verbatim>\<open>memory_database/user_account.{h,cc}\<close>: the balances and the sequence tracker of one
  account. \<open>owned_assets\<close> is indexed by asset number; assets first touched in the current block
  go to \<open>uncommitted_assets\<close>. The tracker is the one the default configuration selects
  (\<^verbatim>\<open>MAX_SEQ_NUMS_PER_BLOCK = 64\<close>). The lemmas give each operation's effect on \<open>balance\<close>.
\<close>

section \<open>Definitions\<close>

record 'pk user_account =
  owned_assets :: "revertable_asset list"
  uncommitted_assets :: "revertable_asset list"
  seq_tracker :: u64_tracker
  acct_owner :: account_id
  pk :: 'pk

record 'pk account_commitment =
  ac_owner :: account_id
  assets :: "asset_commitment list"
  ac_last_committed_id :: nat
  ac_pk :: 'pk

definition new_account :: "account_id \<Rightarrow> 'pk \<Rightarrow> 'pk user_account" where
  "new_account own key = \<lparr>owned_assets = [], uncommitted_assets = [], seq_tracker = ut_init 0,
     acct_owner = own, pk = key\<rparr>"

text \<open>The account a row of the account vector is preallocated with.\<close>

definition blank_account :: "'pk \<Rightarrow> 'pk user_account" where
  "blank_account key = \<lparr>owned_assets = [], uncommitted_assets = [], seq_tracker = ut_init UINT64_MAX,
     acct_owner = 0, pk = key\<rparr>"

definition set_owner :: "account_id \<Rightarrow> 'pk \<Rightarrow> nat \<Rightarrow> 'pk user_account \<Rightarrow> 'pk user_account" where
  "set_owner own key lst a =
     a\<lparr>acct_owner := own, pk := key, seq_tracker := ut_set_last_committed_id lst (seq_tracker a)\<rparr>"

definition get_last_committed_seq_number :: "'pk user_account \<Rightarrow> nat" where
  "get_last_committed_seq_number a = ut_produce_commitment (seq_tracker a)"

text \<open>The loop that appends empty balances until index \<open>k\<close> exists.\<close>

function grow_to :: "nat \<Rightarrow> revertable_asset list \<Rightarrow> revertable_asset list" where
  "grow_to k xs = (if k \<ge> length xs then grow_to k (xs @ [asset_init 0]) else xs)"
  by pat_completeness auto
termination
  by (relation "measure (\<lambda>(k, xs). Suc k - length xs)") auto

definition operate_on_asset ::
  "nat \<Rightarrow> (revertable_asset \<Rightarrow> 'r \<times> revertable_asset) \<Rightarrow> 'pk user_account \<Rightarrow> 'r \<times> 'pk user_account" where
  "operate_on_asset asset func a =
     (let owned_assets_size = length (owned_assets a)
      in if asset \<ge> owned_assets_size
         then (let k = asset - owned_assets_size;
                   unc = grow_to k (uncommitted_assets a);
                   (r, x) = func (unc ! k)
               in (r, a\<lparr>uncommitted_assets := unc[k := x]\<rparr>))
         else (let (r, x) = func (owned_assets a ! asset)
               in (r, a\<lparr>owned_assets := (owned_assets a)[asset := x]\<rparr>)))"

definition ua_transfer_available :: "nat \<Rightarrow> int \<Rightarrow> 'pk user_account \<Rightarrow> 'pk user_account" where
  "ua_transfer_available asset amt a =
     snd (operate_on_asset asset (\<lambda>x. ((), ra_transfer_available amt x)) a)"

definition ua_escrow :: "nat \<Rightarrow> int \<Rightarrow> 'pk user_account \<Rightarrow> 'pk user_account" where
  "ua_escrow asset amt a = snd (operate_on_asset asset (\<lambda>x. ((), ra_escrow amt x)) a)"

definition ua_conditional_transfer_available ::
  "nat \<Rightarrow> int \<Rightarrow> 'pk user_account \<Rightarrow> bool \<times> 'pk user_account" where
  "ua_conditional_transfer_available asset amt a =
     operate_on_asset asset (ra_conditional_transfer_available amt) a"

definition ua_conditional_escrow :: "nat \<Rightarrow> int \<Rightarrow> 'pk user_account \<Rightarrow> bool \<times> 'pk user_account" where
  "ua_conditional_escrow asset amt a = operate_on_asset asset (ra_conditional_escrow amt) a"

definition ua_lookup_available_balance :: "nat \<Rightarrow> 'pk user_account \<Rightarrow> int" where
  "ua_lookup_available_balance asset a =
     (if asset \<ge> length (owned_assets a) then 0
      else ra_lookup_available_balance (owned_assets a ! asset))"

definition ua_reserve_sequence_number :: "nat \<Rightarrow> 'pk user_account \<Rightarrow> tx_status \<times> 'pk user_account" where
  "ua_reserve_sequence_number sn a =
     (let (st, t) = ut_reserve_sequence_number sn (seq_tracker a) in (st, a\<lparr>seq_tracker := t\<rparr>))"

definition ua_release_sequence_number :: "nat \<Rightarrow> 'pk user_account \<Rightarrow> 'pk user_account result" where
  "ua_release_sequence_number sn a =
     bind_result (ut_release_sequence_number sn (seq_tracker a)) (\<lambda>t. Inr (a\<lparr>seq_tracker := t\<rparr>))"

definition ua_commit_sequence_number :: "nat \<Rightarrow> 'pk user_account \<Rightarrow> 'pk user_account" where
  "ua_commit_sequence_number sn a = a\<lparr>seq_tracker := ut_commit_sequence_number sn (seq_tracker a)\<rparr>"

definition ua_commit :: "'pk user_account \<Rightarrow> 'pk user_account" where
  "ua_commit a =
     a\<lparr>owned_assets := map (snd \<circ> ra_commit) (owned_assets a)
          @ map (\<lambda>x. asset_init (fst (ra_commit x))) (uncommitted_assets a),
       uncommitted_assets := [],
       seq_tracker := ut_commit (seq_tracker a)\<rparr>"

definition ua_rollback :: "'pk user_account \<Rightarrow> 'pk user_account" where
  "ua_rollback a =
     a\<lparr>owned_assets := map ra_rollback (owned_assets a),
       uncommitted_assets := [],
       seq_tracker := ut_rollback (seq_tracker a)\<rparr>"

definition ua_in_valid_state :: "'pk user_account \<Rightarrow> bool" where
  "ua_in_valid_state a \<longleftrightarrow>
     list_all ra_in_valid_state (owned_assets a) \<and> list_all ra_in_valid_state (uncommitted_assets a)"

text \<open>
  The loops of the commitments count with a \<^verbatim>\<open>uint8_t\<close>; a loop that never ends is \<open>None\<close>.
\<close>

partial_function (option) commitment_loop ::
  "(nat \<Rightarrow> revertable_asset \<Rightarrow> asset_commitment) \<Rightarrow> revertable_asset list \<Rightarrow> nat
     \<Rightarrow> asset_commitment list \<Rightarrow> asset_commitment list option" where
  "commitment_loop f xs i out =
     (if i < length xs then commitment_loop f xs (u8 (i + 1)) (out @ [f i (xs ! i)]) else Some out)"

definition ua_produce_commitment :: "'pk user_account \<Rightarrow> 'pk account_commitment option" where
  "ua_produce_commitment a =
     Option.bind (commitment_loop ra_produce_commitment (owned_assets a) 0 [])
       (\<lambda>out. Some \<lparr>ac_owner = acct_owner a, assets = out,
          ac_last_committed_id = ut_produce_commitment (seq_tracker a), ac_pk = pk a\<rparr>)"

definition ua_tentative_commitment :: "'pk user_account \<Rightarrow> 'pk account_commitment option" where
  "ua_tentative_commitment a =
     Option.bind (commitment_loop ra_tentative_commitment (owned_assets a) 0 [])
       (\<lambda>out. Option.bind
          (commitment_loop (\<lambda>i. ra_tentative_commitment (u32 (i + length (owned_assets a))))
             (uncommitted_assets a) 0 out)
          (\<lambda>out. Some \<lparr>ac_owner = acct_owner a, assets = out,
             ac_last_committed_id = ut_tentative_commitment (seq_tracker a), ac_pk = pk a\<rparr>))"

fun load_assets :: "asset_commitment list \<Rightarrow> revertable_asset list \<Rightarrow> revertable_asset list result" where
  "load_assets [] owned = Inr owned"
| "load_assets (c # cs) owned =
     (if ac_asset c < length owned then Inl (RuntimeError ''assets in commitment should be sorted'')
      else load_assets cs (owned @ replicate (ac_asset c - length owned) (asset_init 0)
             @ [asset_init (i64 (int (amount_available c)))]))"

definition account_from_commitment :: "'pk account_commitment \<Rightarrow> 'pk user_account result" where
  "account_from_commitment c =
     bind_result (load_assets (assets c) [])
       (\<lambda>owned. Inr \<lparr>owned_assets = owned, uncommitted_assets = [],
          seq_tracker = ut_init (ac_last_committed_id c), acct_owner = ac_owner c, pk = ac_pk c\<rparr>)"

section \<open>Balances\<close>

definition all_assets :: "'pk user_account \<Rightarrow> revertable_asset list" where
  "all_assets a = owned_assets a @ uncommitted_assets a"

definition balance :: "'pk user_account \<Rightarrow> nat \<Rightarrow> int" where
  "balance a k = (if k < length (all_assets a) then available (all_assets a ! k) else 0)"

declare grow_to.simps [simp del]

lemma grow_to_eq: "grow_to k xs = xs @ replicate (Suc k - length xs) (asset_init 0)"
proof (induction k xs rule: grow_to.induct)
  case (1 k xs)
  show ?case
  proof (cases "k \<ge> length xs")
    case True
    then have "Suc k - length xs = Suc (k - length xs)" by simp
    then show ?thesis using 1 True by (simp add: grow_to.simps [of k xs] replicate_append_same)
  next
    case False
    then show ?thesis by (simp add: grow_to.simps [of k xs])
  qed
qed

text \<open>An operation on one asset reads and writes that asset's balance only.\<close>

lemma all_assets_operate:
  "all_assets (snd (operate_on_asset k f a)) =
     (let xs = grow_to k (all_assets a) in xs[k := snd (f (xs ! k))])"
  "fst (operate_on_asset k f a) = fst (f (grow_to k (all_assets a) ! k))"
  by (auto simp: operate_on_asset_def all_assets_def grow_to_eq Let_def nth_append list_update_append
      split: prod.splits)

lemma grow_nth: "available (grow_to k (all_assets a) ! k) = balance a k"
  by (auto simp: grow_to_eq balance_def nth_append asset_init_def)

lemma balance_operate:
  "balance (snd (operate_on_asset k f a)) j =
     (if j = k then available (snd (f (grow_to k (all_assets a) ! k))) else balance a j)"
  by (auto simp: balance_def all_assets_operate grow_to_eq Let_def nth_list_update nth_append asset_init_def)

lemma operate_keeps [simp]:
  "seq_tracker (snd (operate_on_asset k f a)) = seq_tracker a"
  "acct_owner (snd (operate_on_asset k f a)) = acct_owner a"
  "pk (snd (operate_on_asset k f a)) = pk a"
  by (simp_all add: operate_on_asset_def Let_def split: prod.splits)

lemma balance_transfer: "balance (ua_transfer_available k amt a) j = (if j = k then i64 (balance a k + amt) else balance a j)"
  by (simp add: ua_transfer_available_def balance_operate grow_nth ra_transfer_available_def)

lemma balance_escrow: "balance (ua_escrow k amt a) j = (if j = k then i64 (balance a k - amt) else balance a j)"
  by (simp add: ua_escrow_def balance_operate grow_nth ra_escrow_def)

lemma balance_conditional_escrow:
  assumes "0 < amt" "in_i64 amt" "in_i64 (balance a k)" "0 \<le> balance a k"
  shows "fst (ua_conditional_escrow k amt a) = (amt \<le> balance a k)"
    and "balance (snd (ua_conditional_escrow k amt a)) j =
      (if j = k \<and> amt \<le> balance a k then balance a k - amt else balance a j)"
  using assms conditional_escrow_pos [of amt "grow_to k (all_assets a) ! k"]
  by (auto simp: ua_conditional_escrow_def all_assets_operate balance_operate grow_nth)

lemma balance_commit [simp]: "balance (ua_commit a) k = balance a k"
  by (auto simp: balance_def all_assets_def ua_commit_def nth_append asset_init_def)

lemma in_valid_state_iff: "ua_in_valid_state a \<longleftrightarrow> (\<forall>k. 0 \<le> balance a k)"
proof -
  have "ua_in_valid_state a \<longleftrightarrow> list_all (\<lambda>x. 0 \<le> available x) (all_assets a)"
    by (simp add: ua_in_valid_state_def all_assets_def ra_in_valid_state_def [abs_def])
  also have "\<dots> \<longleftrightarrow> (\<forall>k. 0 \<le> balance a k)"
    by (auto simp: list_all_length balance_def)
  finally show ?thesis .
qed

section \<open>Commitments\<close>

lemma commitment_loop_eq:
  "length xs < 256 \<Longrightarrow> i \<le> length xs \<Longrightarrow>
   commitment_loop f xs i out = Some (out @ map (\<lambda>j. f j (xs ! j)) [i..<length xs])"
proof (induction "length xs - i" arbitrary: i out)
  case 0
  then show ?case by (simp add: commitment_loop.simps)
next
  case (Suc n)
  then have "i < length xs" by simp
  moreover have "u8 (i + 1) = Suc i" using Suc.prems \<open>i < length xs\<close> by (simp add: u8_def)
  ultimately show ?case
    using Suc by (simp add: commitment_loop.simps [of f xs i out] upt_conv_Cons)
qed

text \<open>With 256 balances or more the 8-bit counter never reaches the length.\<close>

lemma commitment_loop_diverges:
  assumes "256 \<le> length xs" "i < 256"
  shows "commitment_loop f xs i out = None"
proof -
  have "\<not> 256 \<le> length xs \<or> \<not> i < 256" if "commitment_loop f xs i out = Some y" for y
  proof (rule commitment_loop.raw_induct [OF _ that, where P = "\<lambda>f xs i out y. \<not> 256 \<le> length xs \<or> \<not> i < 256"])
    fix loop f xs i out y
    assume IH: "\<And>f xs i out y. loop f xs i out = Some y \<Longrightarrow> \<not> 256 \<le> length xs \<or> \<not> i < (256 :: nat)"
      and run: "(if i < length xs then loop f xs (u8 (i + 1)) (out @ [f i (xs ! i)]) else Some out) = Some y"
    have "u8 (i + 1) < 256" by (simp add: u8_def)
    with run IH [of f xs "u8 (i + 1)" "out @ [f i (xs ! i)]" y]
    show "\<not> 256 \<le> length xs \<or> \<not> i < 256" by (auto split: if_splits)
  qed
  then show ?thesis using assms by fastforce
qed

definition clean_account :: "'pk user_account \<Rightarrow> bool" where
  "clean_account a \<longleftrightarrow>
     list_all (\<lambda>x. available x = committed_available x \<and> in_i64 (available x)) (owned_assets a)
     \<and> uncommitted_assets a = [] \<and> sequence_number_vec (seq_tracker a) = 0"

lemma load_assets_commitments:
  "list_all (\<lambda>x. available x = committed_available x \<and> in_i64 (available x)) xs \<Longrightarrow>
   load_assets (map (\<lambda>j. ra_produce_commitment j (xs ! (j - n))) [n..<n + length xs]) owned
     = Inr (owned @ xs)" if "length owned = n"
  using that
proof (induction xs arbitrary: owned n)
  case Nil
  then show ?case by simp
next
  case (Cons x xs)
  have "in_i64 (committed_available x)" "available x = committed_available x" using Cons.prems by auto
  then have "i64 (int (nat (committed_available x mod 2 ^ 64))) = available x"
    using i64_cong [of "committed_available x mod 2 ^ 64" "committed_available x"] by simp
  then have x: "asset_init (i64 (int (amount_available (ra_produce_commitment n x)))) = x"
    using Cons.prems by (cases x) (auto simp: asset_init_def ra_produce_commitment_def)
  have m_eq: "map (\<lambda>j. ra_produce_commitment j ((x # xs) ! (j - n))) [Suc n..<Suc n + length xs]
      = map (\<lambda>j. ra_produce_commitment j (xs ! (j - Suc n))) [Suc n..<Suc n + length xs]"
    by (intro map_cong refl) (auto simp: Suc_diff_le nth_Cons' simp del: upt_Suc)
  have upt_eq: "[n..<n + length (x # xs)] = n # [Suc n..<Suc n + length xs]"
    by (simp add: upt_conv_Cons del: upt_Suc)
  have "load_assets (map (\<lambda>j. ra_produce_commitment j (xs ! (j - Suc n))) [Suc n..<Suc n + length xs])
      (owned @ [x]) = Inr ((owned @ [x]) @ xs)"
    using Cons.prems by (intro Cons.IH) auto
  moreover have "ac_asset (ra_produce_commitment n x) = length owned"
    using Cons.prems by (simp add: ra_produce_commitment_def)
  ultimately show ?case
    unfolding upt_eq list.map m_eq load_assets.simps using x by (simp del: upt_Suc)
qed

lemma tentative_commitment_eq:
  assumes "length (owned_assets a) + length (uncommitted_assets a) < 256"
  shows "ua_tentative_commitment a = ua_produce_commitment (ua_commit a)
    \<and> ua_tentative_commitment a \<noteq> None"
proof -
  let ?o = "owned_assets a" and ?u = "uncommitted_assets a"
  let ?all = "map (snd \<circ> ra_commit) ?o @ map (\<lambda>x. asset_init (fst (ra_commit x))) ?u"
  have shift: "[length ?o..<length ?o + length ?u] = map (\<lambda>i. i + length ?o) [0..<length ?u]"
    by (simp add: map_add_upt add.commute)
  have "map (\<lambda>j. ra_produce_commitment j (?all ! j)) [0..<length ?all]
      = map (\<lambda>j. ra_tentative_commitment j (?o ! j)) [0..<length ?o]
        @ map (\<lambda>j. ra_tentative_commitment (u32 (j + length ?o)) (?u ! j)) [0..<length ?u]"
    using assms
    by (auto simp: upt_add_eq_append shift nth_append ra_produce_commitment_def
        ra_tentative_commitment_def ra_commit_def asset_init_def u32_def)
  then show ?thesis
    using assms
    by (simp add: ua_tentative_commitment_def ua_produce_commitment_def commitment_loop_eq ua_commit_def
        ut_tentative_commitment_def ut_produce_commitment_def ut_commit_def)
qed

section \<open>Rolling back\<close>

datatype account_action =
    Transfer nat int
  | Escrow nat int
  | CondTransfer nat int
  | CondEscrow nat int
  | ReserveSeq nat
  | ReleaseSeq nat

fun act :: "account_action \<Rightarrow> 'pk user_account \<Rightarrow> 'pk user_account" where
  "act (Transfer k amt) a = ua_transfer_available k amt a"
| "act (Escrow k amt) a = ua_escrow k amt a"
| "act (CondTransfer k amt) a = snd (ua_conditional_transfer_available k amt a)"
| "act (CondEscrow k amt) a = snd (ua_conditional_escrow k amt a)"
| "act (ReserveSeq sn) a = snd (ua_reserve_sequence_number sn a)"
| "act (ReleaseSeq sn) a = (case ua_release_sequence_number sn a of Inr a' \<Rightarrow> a' | Inl _ \<Rightarrow> a)"

text \<open>The part of an account that only a commit changes.\<close>

definition committed_part :: "'pk user_account \<Rightarrow> int list \<times> nat \<times> account_id \<times> 'pk" where
  "committed_part a = (map committed_available (owned_assets a), last_committed_id (seq_tracker a),
     acct_owner a, pk a)"

lemma committed_part_operate:
  assumes "\<And>x. committed_available (snd (f x)) = committed_available x"
  shows "committed_part (snd (operate_on_asset k f a)) = committed_part a"
proof -
  have "map committed_available ((owned_assets a)[k := snd (f (owned_assets a ! k))])
      = map committed_available (owned_assets a)"
    using assms by (metis list_update_id map_update)
  then show ?thesis
    by (auto simp: committed_part_def operate_on_asset_def Let_def split: prod.splits)
qed

lemma ut_last_unchanged:
  "last_committed_id (snd (ut_reserve_sequence_number sn t)) = last_committed_id t"
  "ut_release_sequence_number sn t = Inr t' \<Longrightarrow> last_committed_id t' = last_committed_id t"
  by (auto simp: ut_reserve_sequence_number_def ut_release_sequence_number_def Let_def split: if_splits)

lemma committed_part_seq:
  "last_committed_id t = last_committed_id (seq_tracker a) \<Longrightarrow>
   committed_part (a\<lparr>seq_tracker := t\<rparr>) = committed_part a"
  by (simp add: committed_part_def)

lemma committed_part_act [simp]: "committed_part (act x a) = committed_part a"
proof (cases x)
  case (ReserveSeq sn)
  have "snd (ua_reserve_sequence_number sn a)
      = a\<lparr>seq_tracker := snd (ut_reserve_sequence_number sn (seq_tracker a))\<rparr>"
    by (simp add: ua_reserve_sequence_number_def split: prod.split)
  then show ?thesis using ReserveSeq ut_last_unchanged(1) by (simp add: committed_part_seq)
next
  case (ReleaseSeq sn)
  then show ?thesis
    using ut_last_unchanged(2) [of sn "seq_tracker a"]
    by (cases "ut_release_sequence_number sn (seq_tracker a)")
      (simp_all add: ua_release_sequence_number_def committed_part_seq)
qed (simp_all add: ua_transfer_available_def ua_escrow_def ua_conditional_transfer_available_def
    ua_conditional_escrow_def committed_part_operate)

lemma committed_part_fold [simp]: "committed_part (fold act xs a) = committed_part a"
  by (induction xs arbitrary: a) simp_all

lemma rollback_committed_part:
  assumes "committed_part a = committed_part b"
  shows "ua_rollback a = ua_rollback b"
proof -
  have rb: "map ra_rollback xs = map (\<lambda>v. \<lparr>available = v, committed_available = v\<rparr>) (map committed_available xs)" for xs
    by (simp add: ra_rollback_def)
  have "map ra_rollback (owned_assets a) = map ra_rollback (owned_assets b)"
    using assms unfolding rb committed_part_def by (metis prod.inject)
  moreover have "ut_rollback (seq_tracker a) = ut_rollback (seq_tracker b)"
    using assms by (simp add: committed_part_def ut_rollback_def)
  ultimately show ?thesis
    using assms by (simp add: ua_rollback_def committed_part_def)
qed

lemma rollback_clean: "clean_account a \<Longrightarrow> ua_rollback a = a"
  by (cases a; cases "seq_tracker a")
    (auto simp: clean_account_def ua_rollback_def ut_rollback_def ra_rollback_def list_all_iff
      intro!: map_idI)

section \<open>Properties\<close>

text \<open>
  Property C17. Rolling an account back after any sequence of transfers, escrows, conditional
  transfers and escrows, sequence number reservations and releases restores the account exactly
  as it was at its last commit.
\<close>

theorem account_rollback_restores:
  assumes "clean_account a"
  shows "ua_rollback (fold act xs a) = a"
proof -
  have "ua_rollback (fold act xs a) = ua_rollback a"
    by (intro rollback_committed_part) simp
  then show ?thesis using assms by (simp add: rollback_clean)
qed

theorem account_rollback_restores_witness:
  "ua_rollback (fold act [Transfer 2 50, CondEscrow 0 3, ReserveSeq 256]
     \<lparr>owned_assets = [asset_init 9], uncommitted_assets = [], seq_tracker = ut_init 0,
      acct_owner = 4, pk = ()\<rparr>)
   = \<lparr>owned_assets = [asset_init 9], uncommitted_assets = [], seq_tracker = ut_init 0,
      acct_owner = 4, pk = ()\<rparr>"
  by (rule account_rollback_restores) (simp add: clean_account_def asset_init_def ut_init_def in_i64_def)

text \<open>
  An account with fewer than 256 balances can be written as a commitment and read
  back unchanged.
\<close>

lemma account_commitment_roundtrip:
  assumes "clean_account a" and "length (owned_assets a) < 256"
  shows "\<exists>c. ua_produce_commitment a = Some c \<and> account_from_commitment c = Inr a"
proof -
  have "load_assets (map (\<lambda>j. ra_produce_commitment j (owned_assets a ! j)) [0..<length (owned_assets a)]) []
      = Inr (owned_assets a)"
    using assms load_assets_commitments [of "[]" 0 "owned_assets a"] by (simp add: clean_account_def)
  then show ?thesis
    using assms by (cases a; cases "seq_tracker a")
      (auto simp: ua_produce_commitment_def commitment_loop_eq account_from_commitment_def
        ut_produce_commitment_def ut_init_def clean_account_def)
qed

theorem account_commitment_roundtrip_witness:
  "\<exists>c. ua_produce_commitment \<lparr>owned_assets = [asset_init 9, asset_init 0], uncommitted_assets = [],
        seq_tracker = ut_init 256, acct_owner = 4, pk = ()\<rparr> = Some c
     \<and> account_from_commitment c = Inr \<lparr>owned_assets = [asset_init 9, asset_init 0],
        uncommitted_assets = [], seq_tracker = ut_init 256, acct_owner = 4, pk = ()\<rparr>"
  by (rule account_commitment_roundtrip)
    (simp_all add: clean_account_def asset_init_def ut_init_def in_i64_def)

text \<open>
  The commitment a validator hashes before it commits an account is the one the
  account produces after the commit, for accounts with fewer than 256 balances.
\<close>

theorem tentative_commitment_correct:
  assumes "length (owned_assets a) + length (uncommitted_assets a) < 256"
  shows "ua_tentative_commitment a = ua_produce_commitment (ua_commit a)
    \<and> ua_tentative_commitment a \<noteq> None"
  using assms by (rule tentative_commitment_eq)

theorem tentative_commitment_correct_witness:
  "ua_tentative_commitment \<lparr>owned_assets = [asset_init 9], uncommitted_assets = [asset_init 2],
      seq_tracker = ut_init 256, acct_owner = 4, pk = ()\<rparr>
    = ua_produce_commitment (ua_commit \<lparr>owned_assets = [asset_init 9], uncommitted_assets = [asset_init 2],
      seq_tracker = ut_init 256, acct_owner = 4, pk = ()\<rparr>)
   \<and> ua_tentative_commitment \<lparr>owned_assets = [asset_init 9], uncommitted_assets = [asset_init 2],
      seq_tracker = ut_init 256, acct_owner = 4, pk = ()\<rparr> \<noteq> None"
  by (rule tentative_commitment_correct) simp

text \<open>
  Property C40. The commitment loops count with an 8-bit index: for an account with 256 or more
  balances, which the asset limit of 1000 allows, producing a commitment never returns.
\<close>

theorem commitment_diverges_at_256_assets:
  assumes "256 \<le> length (owned_assets a)"
  shows "ua_produce_commitment a = None \<and> ua_tentative_commitment a = None"
  using assms by (simp add: ua_produce_commitment_def ua_tentative_commitment_def commitment_loop_diverges)

theorem commitment_diverges_at_256_assets_witness:
  "ua_produce_commitment \<lparr>owned_assets = replicate 256 (asset_init 1), uncommitted_assets = [],
      seq_tracker = ut_init 0, acct_owner = 4, pk = ()\<rparr> = None
   \<and> ua_tentative_commitment \<lparr>owned_assets = replicate 256 (asset_init 1), uncommitted_assets = [],
      seq_tracker = ut_init 0, acct_owner = 4, pk = ()\<rparr> = None"
  by (rule commitment_diverges_at_256_assets) simp

end
