(* ===== verification/Account_Vector.thy ===== *)
theory Account_Vector
  imports Prelude
begin

text \<open>
  Model of \<^verbatim>\<open>memory_database/account_vector.{h,cc}\<close>: a vector of accounts kept in rows of
  \<open>2\<^sup>16\<close> so that accounts never move. A row is its \<^verbatim>\<open>std::array\<close>, a function on the
  indices below \<open>ACCOUNTS_PER_ROW\<close>, with the number of entries in use. A pointer to an
  account is its index. Reading or writing outside the rows is \<open>None\<close>.

  The locale \<open>account_container\<close> is the contract the database relies on, a list that grows and
  shrinks at its end; the rows implement it.
\<close>

section \<open>Definitions\<close>

definition ACCOUNTS_PER_ROW :: nat where "ACCOUNTS_PER_ROW = 2 ^ 16"

record 'a account_row =
  num_active_entries :: nat
  row :: "nat \<Rightarrow> 'a"

record 'a account_vector =
  accounts :: "'a account_row list"
  next_open_idx :: nat
  av_size :: nat

definition row_is_full :: "'a account_row \<Rightarrow> bool" where
  "row_is_full r \<longleftrightarrow> num_active_entries r = ACCOUNTS_PER_ROW"

definition row_append :: "'a \<Rightarrow> 'a account_row \<Rightarrow> 'a account_row" where
  "row_append acct r = r\<lparr>row := (row r)(num_active_entries r := acct),
     num_active_entries := num_active_entries r + 1\<rparr>"

definition row_erase :: "nat \<Rightarrow> 'a account_row \<Rightarrow> nat \<times> 'a account_row" where
  "row_erase num_to_erase r =
     (let num_eraseable = min num_to_erase (num_active_entries r)
      in (num_eraseable, r\<lparr>num_active_entries := num_active_entries r - num_eraseable\<rparr>))"

definition row_resize :: "nat \<Rightarrow> 'a account_row \<Rightarrow> (nat \<times> 'a account_row) result" where
  "row_resize sz r =
     (if num_active_entries r > ACCOUNTS_PER_ROW then Inl (RuntimeError ''assigned past max'')
      else (let remaining = ACCOUNTS_PER_ROW - num_active_entries r;
                num_addable = min sz remaining
            in Inr (num_addable, r\<lparr>num_active_entries := num_active_entries r + num_addable\<rparr>)))"

definition empty_row :: "'a \<Rightarrow> 'a account_row" where
  "empty_row blank = \<lparr>num_active_entries = 0, row = (\<lambda>_. blank)\<rparr>"

definition av_init :: "'a \<Rightarrow> 'a account_vector" where
  "av_init blank = \<lparr>accounts = [empty_row blank], next_open_idx = 0, av_size = 0\<rparr>"

text \<open>The step both \<^verbatim>\<open>emplace_back\<close> and \<^verbatim>\<open>resize\<close> take when the open row is full.\<close>

definition open_next_row :: "'a \<Rightarrow> 'a account_vector \<Rightarrow> 'a account_vector" where
  "open_next_row blank v =
     (let v' = v\<lparr>next_open_idx := next_open_idx v + 1\<rparr>
      in if length (accounts v') = next_open_idx v'
         then v'\<lparr>accounts := accounts v' @ [empty_row blank]\<rparr> else v')"

definition av_emplace_back :: "'a \<Rightarrow> 'a \<Rightarrow> 'a account_vector \<Rightarrow> (nat \<times> 'a account_vector) option" where
  "av_emplace_back blank acct v =
     (if next_open_idx v < length (accounts v)
      then (let r = row_append acct (accounts v ! next_open_idx v);
                out = next_open_idx v * ACCOUNTS_PER_ROW
                      + num_active_entries (accounts v ! next_open_idx v);
                v1 = v\<lparr>accounts := (accounts v)[next_open_idx v := r]\<rparr>;
                v2 = (if row_is_full r then open_next_row blank v1 else v1)
            in Some (out, v2\<lparr>av_size := av_size v2 + 1\<rparr>))
      else None)"

function av_erase_loop :: "nat \<Rightarrow> 'a account_vector \<Rightarrow> 'a account_vector option" where
  "av_erase_loop num_to_erase v =
     (if num_to_erase \<noteq> 0
      then (if next_open_idx v < length (accounts v)
            then (let (erased, r) = row_erase num_to_erase (accounts v ! next_open_idx v);
                      n = num_to_erase - erased;
                      v1 = v\<lparr>accounts := (accounts v)[next_open_idx v := r]\<rparr>
                  in if n > 0
                     then (if next_open_idx v = 0 then None
                           else av_erase_loop n (v1\<lparr>next_open_idx := next_open_idx v1 - 1\<rparr>))
                     else Some v1)
            else None)
      else Some v)"
  by pat_completeness auto
termination
  by (relation "measure (\<lambda>(n, v). next_open_idx v)") auto

definition av_erase :: "nat \<Rightarrow> 'a account_vector \<Rightarrow> 'a account_vector option" where
  "av_erase num_to_erase v = av_erase_loop num_to_erase (v\<lparr>av_size := sub64 (av_size v) num_to_erase\<rparr>)"

definition av_get :: "nat \<Rightarrow> 'a account_vector \<Rightarrow> 'a option" where
  "av_get idx v =
     (let offset = idx div 2 ^ 16; row_idx = idx mod 2 ^ 16
      in if offset < length (accounts v) then Some (row (accounts v ! offset) row_idx) else None)"

text \<open>A write through the pointer \<^verbatim>\<open>get\<close> returns.\<close>

definition av_modify :: "nat \<Rightarrow> ('a \<Rightarrow> 'a) \<Rightarrow> 'a account_vector \<Rightarrow> 'a account_vector" where
  "av_modify idx f v =
     (let offset = idx div 2 ^ 16; row_idx = idx mod 2 ^ 16
      in v\<lparr>accounts := upd_at (accounts v) offset
             (\<lambda>r. r\<lparr>row := (row r)(row_idx := f (row r row_idx))\<rparr>)\<rparr>)"

function av_resize_loop :: "'a \<Rightarrow> nat \<Rightarrow> 'a account_vector \<Rightarrow> 'a account_vector result" where
  "av_resize_loop blank num_to_add v =
     (if num_to_add > 0
      then (if next_open_idx v < length (accounts v)
            then (case row_resize num_to_add (accounts v ! next_open_idx v) of
                    Inl e \<Rightarrow> Inl e
                  | Inr (num_added, r) \<Rightarrow>
                      (let n = num_to_add - num_added;
                           v1 = v\<lparr>accounts := (accounts v)[next_open_idx v := r],
                                  av_size := av_size v + num_added\<rparr>
                       in if row_is_full r then av_resize_loop blank n (open_next_row blank v1)
                          else if n \<noteq> 0 then Inl (RuntimeError ''resize error'') else Inr v1))
            else Inl UndefinedBehaviour)
      else Inr v)"
  by pat_completeness auto
termination
proof (relation "measures [\<lambda>(b, n, v). n,
    \<lambda>(b, n, v). length (filter row_is_full (drop (next_open_idx v) (accounts v)))]", goal_cases)
  case 1
  show ?case by simp
next
  case (2 blank n v p num_added r m v1)
  show ?case
  proof (cases "num_added = 0")
    case False
    then show ?thesis using 2 by auto
  next
    case True
    let ?i = "next_open_idx v"
    have r: "r = accounts v ! ?i" "row_is_full r"
      using 2 True by (auto simp: row_resize_def Let_def row_is_full_def min_def split: if_splits)
    have "drop ?i (accounts v) = accounts v ! ?i # drop (Suc ?i) (accounts v)"
      using 2(2) by (simp add: Cons_nth_drop_Suc)
    then show ?thesis
      using 2 True r
      by (auto simp: open_next_row_def Let_def empty_row_def row_is_full_def ACCOUNTS_PER_ROW_def)
  qed
qed

definition av_resize :: "'a \<Rightarrow> nat \<Rightarrow> 'a account_vector \<Rightarrow> 'a account_vector result" where
  "av_resize blank sz v =
     (if sz \<le> av_size v then Inr v
      else bind_result (av_resize_loop blank (sz - av_size v) v)
        (\<lambda>v'. if sz \<noteq> av_size v' then Inl (RuntimeError ''overall resize error'') else Inr v'))"

section \<open>The contract\<close>

locale account_container =
  fixes emplace :: "'a \<Rightarrow> 'v \<Rightarrow> (nat \<times> 'v) option"
    and erase :: "nat \<Rightarrow> 'v \<Rightarrow> 'v option"
    and get :: "nat \<Rightarrow> 'v \<Rightarrow> 'a option"
    and modify :: "nat \<Rightarrow> ('a \<Rightarrow> 'a) \<Rightarrow> 'v \<Rightarrow> 'v"
    and size :: "'v \<Rightarrow> nat"
    and contents :: "'v \<Rightarrow> 'a list"
    and wf :: "'v \<Rightarrow> bool"
  assumes size_eq: "wf v \<Longrightarrow> size v = length (contents v)"
    and emplace: "wf v \<Longrightarrow> \<exists>v'. emplace a v = Some (length (contents v), v') \<and> wf v'
      \<and> contents v' = contents v @ [a]"
    and erase: "wf v \<Longrightarrow> n \<le> length (contents v) \<Longrightarrow> length (contents v) < 2 ^ 64 \<Longrightarrow>
      \<exists>v'. erase n v = Some v' \<and> wf v' \<and> contents v' = take (length (contents v) - n) (contents v)"
    and get: "wf v \<Longrightarrow> i < length (contents v) \<Longrightarrow> get i v = Some (contents v ! i)"
    and modify: "wf v \<Longrightarrow> i < length (contents v) \<Longrightarrow>
      wf (modify i f v) \<and> contents (modify i f v) = (contents v)[i := f (contents v ! i)]"
begin

fun emplace_all :: "'a list \<Rightarrow> 'v \<Rightarrow> 'v option" where
  "emplace_all [] v = Some v"
| "emplace_all (a # as) v = Option.bind (emplace a v) (\<lambda>(_, v'). emplace_all as v')"

lemma emplace_all:
  "wf v \<Longrightarrow> \<exists>v'. emplace_all as v = Some v' \<and> wf v' \<and> contents v' = contents v @ as"
proof (induction as arbitrary: v)
  case Nil
  then show ?case by simp
next
  case (Cons a as)
  obtain v1 where v1: "emplace a v = Some (length (contents v), v1)" "wf v1" "contents v1 = contents v @ [a]"
    using emplace [OF Cons.prems] by blast
  then show ?case using Cons.IH [of v1] by auto
qed

text \<open>Erasing what was appended restores the contents.\<close>

lemma emplace_all_erase:
  assumes "wf v" "length (contents v) + length as < 2 ^ 64"
  shows "\<exists>v' v''. emplace_all as v = Some v' \<and> erase (length as) v' = Some v'' \<and> wf v''
    \<and> contents v'' = contents v"
proof -
  obtain v' where v': "emplace_all as v = Some v'" "wf v'" "contents v' = contents v @ as"
    using emplace_all [OF assms(1)] by blast
  obtain v'' where "erase (length as) v' = Some v''" "wf v''"
      "contents v'' = take (length (contents v') - length as) (contents v')"
    using erase [of v' "length as"] v' assms(2) by auto
  then show ?thesis using v' by auto
qed

end

section \<open>The rows implement the contract\<close>

abbreviation K :: nat where "K \<equiv> ACCOUNTS_PER_ROW"

definition av_contents :: "'a account_vector \<Rightarrow> 'a list" where
  "av_contents v = map (\<lambda>i. row (accounts v ! (i div K)) (i mod K)) [0..<av_size v]"

definition av_wf :: "'a account_vector \<Rightarrow> bool" where
  "av_wf v \<longleftrightarrow> next_open_idx v < length (accounts v)
     \<and> (\<forall>j < next_open_idx v. num_active_entries (accounts v ! j) = K)
     \<and> num_active_entries (accounts v ! next_open_idx v) < K
     \<and> (\<forall>j. next_open_idx v < j \<longrightarrow> j < length (accounts v) \<longrightarrow> num_active_entries (accounts v ! j) = 0)
     \<and> av_size v = next_open_idx v * K + num_active_entries (accounts v ! next_open_idx v)"

lemma K_pos [simp]: "0 < K"
  by (simp add: ACCOUNTS_PER_ROW_def)

lemma av_wf_init: "av_wf (av_init blank)" "av_contents (av_init blank) = []"
  by (simp_all add: av_wf_def av_init_def empty_row_def av_contents_def)

lemma length_av_contents [simp]: "length (av_contents v) = av_size v"
  by (simp add: av_contents_def)

lemma av_contents_nth: "i < av_size v \<Longrightarrow> av_contents v ! i = row (accounts v ! (i div K)) (i mod K)"
  by (simp add: av_contents_def)

lemma index_split:
  assumes "i < q * K + k" "k < K"
  shows "i div K < q \<or> i div K = q \<and> i mod K < k"
proof (cases "i < q * K")
  case True
  then show ?thesis by (simp add: div_less_iff_less_mult)
next
  case False
  then obtain r where "i = q * K + r" using le_Suc_ex not_less by blast
  then show ?thesis using assms by simp
qed

lemma av_index_in_rows:
  assumes "av_wf v" "i < av_size v"
  shows "i div K < length (accounts v)"
  using assms index_split [of i "next_open_idx v" "num_active_entries (accounts v ! next_open_idx v)"]
  by (auto simp: av_wf_def)

lemma av_emplace_correct:
  assumes wf: "av_wf v"
  shows "\<exists>v'. av_emplace_back blank a v = Some (length (av_contents v), v') \<and> av_wf v'
    \<and> av_contents v' = av_contents v @ [a]"
proof -
  define q where "q = next_open_idx v"
  define k where "k = num_active_entries (accounts v ! q)"
  define r where "r = row_append a (accounts v ! q)"
  define v1 where "v1 = v\<lparr>accounts := (accounts v)[q := r]\<rparr>"
  define v2 where "v2 = (if row_is_full r then open_next_row blank v1 else v1)"
  define v' where "v' = v2\<lparr>av_size := av_size v2 + 1\<rparr>"
  have inv: "q < length (accounts v)" "k < K" "av_size v = q * K + k"
    "\<And>j. j < q \<Longrightarrow> num_active_entries (accounts v ! j) = K"
    "\<And>j. q < j \<Longrightarrow> j < length (accounts v) \<Longrightarrow> num_active_entries (accounts v ! j) = 0"
    using wf by (auto simp: av_wf_def q_def k_def)
  have run: "av_emplace_back blank a v = Some (av_size v, v')"
    using inv by (simp add: av_emplace_back_def q_def k_def r_def v1_def v2_def v'_def Let_def)
  have sz: "av_size v' = Suc (av_size v)"
    by (simp add: v'_def v2_def v1_def open_next_row_def Let_def)
  have rows: "accounts v' ! j = (accounts v)[q := r] ! j" if "j \<le> q" for j
    using inv that by (auto simp: v'_def v2_def v1_def open_next_row_def Let_def nth_append)
  have r: "num_active_entries r = k + 1" "row r = (row (accounts v ! q))(k := a)"
    by (simp_all add: r_def row_append_def k_def)
  have "av_wf v'"
  proof (cases "k + 1 = K")
    case True
    then show ?thesis
      using inv r unfolding av_wf_def v'_def v2_def v1_def open_next_row_def row_is_full_def
      by (auto simp: Let_def q_def [symmetric] nth_append nth_list_update empty_row_def less_Suc_eq)
  next
    case False
    then show ?thesis
      using inv r unfolding av_wf_def v'_def v2_def v1_def row_is_full_def
      by (auto simp: Let_def q_def [symmetric] nth_list_update)
  qed
  moreover have "av_contents v' = av_contents v @ [a]"
  proof (rule nth_equalityI)
    fix i assume "i < length (av_contents v')"
    then consider "i < av_size v" | "i = av_size v" using sz by (auto simp: less_Suc_eq)
    then show "av_contents v' ! i = (av_contents v @ [a]) ! i"
    proof cases
      case 1
      then have "i div K < q \<or> i div K = q \<and> i mod K < k" using index_split inv by simp
      with 1 show ?thesis
        using rows [of "i div K"] inv r sz by (auto simp: av_contents_nth nth_append)
    next
      case 2
      then have "i div K = q" "i mod K = k" using inv by simp_all
      with 2 show ?thesis using rows [of q] inv r sz by (simp add: av_contents_nth nth_append)
    qed
  qed (simp add: sz)
  ultimately show ?thesis using run by simp
qed

text \<open>The state inside the erasing loop: the open row may be full.\<close>

definition erasing :: "'a account_vector \<Rightarrow> nat \<Rightarrow> bool" where
  "erasing v tot \<longleftrightarrow> next_open_idx v < length (accounts v)
     \<and> (\<forall>j < next_open_idx v. num_active_entries (accounts v ! j) = K)
     \<and> num_active_entries (accounts v ! next_open_idx v) \<le> K
     \<and> (\<forall>j. next_open_idx v < j \<longrightarrow> j < length (accounts v) \<longrightarrow> num_active_entries (accounts v ! j) = 0)
     \<and> tot = next_open_idx v * K + num_active_entries (accounts v ! next_open_idx v)"

declare av_erase_loop.simps [simp del]

lemma av_erase_loop_correct:
  "erasing v tot \<Longrightarrow> 0 < n \<Longrightarrow> n \<le> tot \<Longrightarrow>
   \<exists>v'. av_erase_loop n v = Some v' \<and> erasing v' (tot - n)
     \<and> num_active_entries (accounts v' ! next_open_idx v') < K
     \<and> av_size v' = av_size v \<and> map row (accounts v') = map row (accounts v)"
proof (induction n v arbitrary: tot rule: av_erase_loop.induct)
  case (1 n v)
  let ?q = "next_open_idx v" and ?k = "num_active_entries (accounts v ! next_open_idx v)"
  let ?r = "(accounts v ! ?q)\<lparr>num_active_entries := ?k - min n ?k\<rparr>"
  let ?v1 = "v\<lparr>accounts := (accounts v)[?q := ?r]\<rparr>"
  have q: "?q < length (accounts v)" using 1(2) by (simp add: erasing_def)
  have rows: "map row (accounts ?v1) = map row (accounts v)"
    using q by (intro nth_equalityI) (auto simp: nth_list_update)
  show ?case
  proof (cases "n \<le> ?k")
    case True
    then have "av_erase_loop n v = Some ?v1"
      using 1(3) q by (simp add: av_erase_loop.simps [of n v] row_erase_def)
    moreover have "erasing ?v1 (tot - n)"
      using 1(2) True by (auto simp: erasing_def)
    moreover have "num_active_entries (accounts ?v1 ! next_open_idx ?v1) < K"
      using 1(2,3) True q by (auto simp: erasing_def)
    ultimately show ?thesis using rows by auto
  next
    case False
    let ?w = "?v1\<lparr>next_open_idx := ?q - 1\<rparr>"
    have q0: "?q \<noteq> 0" using 1(2,4) False by (intro notI) (simp add: erasing_def)
    then have prev: "?q * K = (?q - 1) * K + K" by (cases ?q) auto
    have step: "av_erase_loop n v = av_erase_loop (n - ?k) ?w"
      using 1(3) q q0 False by (simp add: av_erase_loop.simps [of n v] row_erase_def)
    have "erasing ?w (tot - ?k)"
      using 1(2) q0 prev False
      by (auto simp: erasing_def nth_list_update)
    then have "\<exists>v'. av_erase_loop (n - ?k) ?w = Some v' \<and> erasing v' (tot - ?k - (n - ?k))
       \<and> num_active_entries (accounts v' ! next_open_idx v') < K
       \<and> av_size v' = av_size ?w \<and> map row (accounts v') = map row (accounts ?w)"
      using 1(1) [of "(?k, ?r)" ?k ?r "n - ?k" ?v1 "tot - ?k"] 1(3,4) q q0 False
      by (simp add: row_erase_def)
    then show ?thesis using step rows False by auto
  qed
qed

lemma contents_by_rows:
  assumes "map row (accounts v') = map row (accounts v)" "av_size v' \<le> av_size v" "av_wf v"
  shows "av_contents v' = take (av_size v') (av_contents v)"
proof (rule nth_equalityI)
  fix i assume i: "i < length (av_contents v')"
  then have "i < av_size v" using assms(2) by simp
  then have "i div K < length (accounts v)" using av_index_in_rows [OF assms(3)] by blast
  moreover have "length (accounts v') = length (accounts v)" using assms(1) by (rule map_eq_imp_length_eq)
  ultimately have "row (accounts v' ! (i div K)) = row (accounts v ! (i div K))"
    using assms(1) by (metis nth_map)
  then show "av_contents v' ! i = take (av_size v') (av_contents v) ! i"
    using i \<open>i < av_size v\<close> by (simp add: av_contents_nth)
qed (use assms(2) in simp)

lemma av_erase_correct:
  assumes wf: "av_wf v" and n: "n \<le> length (av_contents v)" and sz: "length (av_contents v) < 2 ^ 64"
  shows "\<exists>v'. av_erase n v = Some v' \<and> av_wf v'
    \<and> av_contents v' = take (length (av_contents v) - n) (av_contents v)"
proof (cases "n = 0")
  case True
  have "sub64 (av_size v) 0 = av_size v" using sz by (subst sub64_id) simp_all
  then have "av_erase 0 v = Some v"
    by (simp add: av_erase_def av_erase_loop.simps [of 0])
  then show ?thesis using True wf by simp
next
  case False
  let ?v = "v\<lparr>av_size := av_size v - n\<rparr>"
  have "sub64 (av_size v) n = av_size v - n" using n sz by (intro sub64_id) auto
  then have run: "av_erase n v = av_erase_loop n ?v" by (simp add: av_erase_def)
  have "erasing ?v (av_size v)" using wf by (auto simp: erasing_def av_wf_def)
  then obtain v' where v': "av_erase_loop n ?v = Some v'" "erasing v' (av_size v - n)"
      "num_active_entries (accounts v' ! next_open_idx v') < K"
      "av_size v' = av_size v - n" "map row (accounts v') = map row (accounts v)"
    using av_erase_loop_correct [of ?v "av_size v" n] False n by auto
  then have "av_wf v'" by (auto simp: erasing_def av_wf_def)
  moreover have "av_contents v' = take (av_size v') (av_contents v)"
    using v' wf by (intro contents_by_rows) auto
  ultimately show ?thesis using run v' by auto
qed

lemma av_get_correct: "av_wf v \<Longrightarrow> i < av_size v \<Longrightarrow> av_get i v = Some (av_contents v ! i)"
  using av_index_in_rows [of v i] by (simp add: av_get_def av_contents_nth ACCOUNTS_PER_ROW_def)

lemma av_modify_correct:
  assumes "av_wf v" "i < av_size v"
  shows "av_wf (av_modify i f v) \<and> av_contents (av_modify i f v) = (av_contents v)[i := f (av_contents v ! i)]"
proof
  have i: "i div K < length (accounts v)" using av_index_in_rows assms by blast
  show "av_wf (av_modify i f v)"
    using assms(1) by (auto simp: av_wf_def av_modify_def Let_def upd_at_nth)
  show "av_contents (av_modify i f v) = (av_contents v)[i := f (av_contents v ! i)]"
  proof (rule nth_equalityI)
    fix j assume "j < length (av_contents (av_modify i f v))"
    then have j: "j < av_size v" by (simp add: av_modify_def Let_def)
    have eq: "j = i" if "j div K = i div K" "j mod K = i mod K" using that by (metis div_mult_mod_eq)
    have sz: "av_size (av_modify i f v) = av_size v" by (simp add: av_modify_def Let_def)
    show "av_contents (av_modify i f v) ! j = (av_contents v)[i := f (av_contents v ! i)] ! j"
      using j assms(2) eq av_index_in_rows [OF assms(1) j]
      by (cases "j = i") (auto simp: av_contents_nth sz av_modify_def Let_def upd_at_nth ACCOUNTS_PER_ROW_def)
  qed (simp add: av_modify_def Let_def)
qed

interpretation av: account_container "av_emplace_back blank" av_erase av_get av_modify av_size
  av_contents av_wf for blank
proof (unfold_locales, goal_cases)
  case 1 then show ?case by simp
next
  case 2 then show ?case by (rule av_emplace_correct)
next
  case 3 then show ?case by (rule av_erase_correct)
next
  case 4 then show ?case by (simp add: av_get_correct)
next
  case 5 then show ?case by (simp add: av_modify_correct)
qed

section \<open>Properties\<close>

text \<open>
  Property C28. The rows implement a list: appending returns the index of the new element and adds
  it at the end, erasing drops elements from the end across row boundaries, and reading by index
  gives the element of the list; none of these operations ever leaves the allocated rows.
\<close>

theorem account_vector_refines_list:
  assumes "av_wf v" and "length (av_contents v) < 2 ^ 64"
  shows "(\<exists>v'. av_emplace_back blank a v = Some (length (av_contents v), v') \<and> av_wf v'
        \<and> av_contents v' = av_contents v @ [a])
    \<and> (n \<le> length (av_contents v) \<longrightarrow> (\<exists>v'. av_erase n v = Some v' \<and> av_wf v'
        \<and> av_contents v' = take (length (av_contents v) - n) (av_contents v)))
    \<and> (i < length (av_contents v) \<longrightarrow> av_get i v = Some (av_contents v ! i))"
  by (intro conjI impI av.emplace [OF assms(1)] av.erase [OF assms(1) _ assms(2)] av.get [OF assms(1)])

theorem account_vector_refines_list_witness:
  "(\<exists>v'. av_emplace_back False True (av_init False) = Some (0, v') \<and> av_wf v' \<and> av_contents v' = [True])
    \<and> (\<exists>v'. av_erase 0 (av_init False) = Some v' \<and> av_wf v' \<and> av_contents v' = [])"
  using account_vector_refines_list [of "av_init False" False True 0 0]
  by (simp add: av_wf_init)

end
