(* ===== verification/Memory_Database.thy ===== *)
theory Memory_Database
  imports User_Account Account_Vector
begin

text \<open>
  Model of \<^verbatim>\<open>memory_database/memory_database.{h,cc}\<close>: the account table, the accounts created in
  the current block, and the trie of account commitments. A \<^verbatim>\<open>UserAccount*\<close> into the table is
  the index of the account. The Merkle trie is code outside the repository: its operations are the
  argument \<open>T\<close>, and \<open>commitment_trie_ok\<close> states what the database relies on. A modification
  log is the list of the account ids it holds; the round number LMDB reports is an argument.
  Persistence to LMDB (thunks and reloading) and transfer logs are not part of this theory.
\<close>

section \<open>The commitment trie\<close>

record ('t, 'v, 'h) trie_ops =
  t_insert :: "account_id \<Rightarrow> 'v \<Rightarrow> 't \<Rightarrow> 't"
  t_perform_deletion :: "account_id \<Rightarrow> 't \<Rightarrow> 't"
  t_modify_value :: "account_id \<Rightarrow> 'v \<Rightarrow> 't \<Rightarrow> 't"
  t_hash :: "'t \<Rightarrow> 'h"

text \<open>
  Documented behaviour of the trie: inserting a new key adds it, deleting removes a key, modifying
  replaces the value of a present key, and the hash is a function of the contents.
\<close>

definition commitment_trie_ok ::
  "('t, 'v, 'h) trie_ops \<Rightarrow> ('t \<Rightarrow> account_id \<rightharpoonup> 'v) \<Rightarrow> bool" where
  "commitment_trie_ok T entries \<longleftrightarrow>
     (\<forall>k v t. entries t k = None \<longrightarrow> entries (t_insert T k v t) = (entries t)(k \<mapsto> v))
     \<and> (\<forall>k t. entries (t_perform_deletion T k t) = (entries t)(k := None))
     \<and> (\<forall>k v t. entries t k \<noteq> None \<longrightarrow> entries (t_modify_value T k v t) = (entries t)(k \<mapsto> v))
     \<and> (\<forall>t t'. entries t = entries t' \<longrightarrow> t_hash T t = t_hash T t')"

text \<open>A reference trie, the map itself, shows that the hypothesis can hold.\<close>

definition map_trie :: "(account_id \<rightharpoonup> 'v, 'v, account_id \<rightharpoonup> 'v) trie_ops" where
  "map_trie = \<lparr>t_insert = (\<lambda>k v t. t(k \<mapsto> v)), t_perform_deletion = (\<lambda>k t. t(k := None)),
     t_modify_value = (\<lambda>k v t. t(k \<mapsto> v)), t_hash = (\<lambda>t. t)\<rparr>"

lemma map_trie_ok: "commitment_trie_ok map_trie (\<lambda>t. t)"
  by (simp add: commitment_trie_ok_def map_trie_def)

section \<open>State\<close>

record account_creation_thunk =
  thunk_block_number :: nat
  num_accounts_created :: nat

record ('pk, 't) memory_database =
  user_id_to_idx_map :: "account_id \<rightharpoonup> nat"
  reserved_account_ids :: "account_id set"
  database :: "'pk user_account account_vector"
  uncommitted_db :: "'pk user_account list"
  commitment_trie :: 't
  account_creation_thunks :: "account_creation_thunk list"

definition NATIVE_ASSET :: asset_id where "NATIVE_ASSET = 0"

definition db_init :: "'pk \<Rightarrow> 't \<Rightarrow> ('pk, 't) memory_database" where
  "db_init default_pk empty_trie =
     \<lparr>user_id_to_idx_map = Map.empty, reserved_account_ids = {}, database = av_init (blank_account default_pk),
      uncommitted_db = [], commitment_trie = empty_trie, account_creation_thunks = []\<rparr>"

text \<open>Following a pointer, and writing through it.\<close>

definition db_account :: "nat \<Rightarrow> ('pk, 't) memory_database \<Rightarrow> 'pk user_account" where
  "db_account idx db = row (accounts (database db) ! (idx div 2 ^ 16)) (idx mod 2 ^ 16)"

definition db_modify ::
  "nat \<Rightarrow> ('pk user_account \<Rightarrow> 'pk user_account) \<Rightarrow> ('pk, 't) memory_database \<Rightarrow> ('pk, 't) memory_database" where
  "db_modify idx f db = db\<lparr>database := av_modify idx f (database db)\<rparr>"

section \<open>Operations on one account\<close>

definition db_transfer_available ::
  "nat \<Rightarrow> asset_id \<Rightarrow> int \<Rightarrow> ('pk, 't) memory_database \<Rightarrow> ('pk, 't) memory_database" where
  "db_transfer_available idx asset change db = db_modify idx (ua_transfer_available asset change) db"

definition db_escrow ::
  "nat \<Rightarrow> asset_id \<Rightarrow> int \<Rightarrow> ('pk, 't) memory_database \<Rightarrow> ('pk, 't) memory_database" where
  "db_escrow idx asset change db = db_modify idx (ua_escrow asset change) db"

definition db_conditional_transfer_available ::
  "nat \<Rightarrow> asset_id \<Rightarrow> int \<Rightarrow> ('pk, 't) memory_database \<Rightarrow> bool \<times> ('pk, 't) memory_database" where
  "db_conditional_transfer_available idx asset change db =
     (let (res, a) = ua_conditional_transfer_available asset change (db_account idx db)
      in (res, db_modify idx (\<lambda>_. a) db))"

definition db_conditional_escrow ::
  "nat \<Rightarrow> asset_id \<Rightarrow> int \<Rightarrow> ('pk, 't) memory_database \<Rightarrow> bool \<times> ('pk, 't) memory_database" where
  "db_conditional_escrow idx asset change db =
     (let (res, a) = ua_conditional_escrow asset change (db_account idx db)
      in (res, db_modify idx (\<lambda>_. a) db))"

definition db_reserve_sequence_number ::
  "nat \<Rightarrow> nat \<Rightarrow> ('pk, 't) memory_database \<Rightarrow> tx_status \<times> ('pk, 't) memory_database" where
  "db_reserve_sequence_number idx sn db =
     (let (st, a) = ua_reserve_sequence_number sn (db_account idx db)
      in (st, db_modify idx (\<lambda>_. a) db))"

definition db_release_sequence_number ::
  "nat \<Rightarrow> nat \<Rightarrow> ('pk, 't) memory_database \<Rightarrow> ('pk, 't) memory_database result" where
  "db_release_sequence_number idx sn db =
     bind_result (ua_release_sequence_number sn (db_account idx db)) (\<lambda>a. Inr (db_modify idx (\<lambda>_. a) db))"

definition db_commit_sequence_number ::
  "nat \<Rightarrow> nat \<Rightarrow> ('pk, 't) memory_database \<Rightarrow> ('pk, 't) memory_database" where
  "db_commit_sequence_number idx sn db = db_modify idx (ua_commit_sequence_number sn) db"

definition db_get_last_committed_seq_number :: "nat \<Rightarrow> ('pk, 't) memory_database \<Rightarrow> nat" where
  "db_get_last_committed_seq_number idx db = get_last_committed_seq_number (db_account idx db)"

definition db_lookup_available_balance :: "nat \<Rightarrow> asset_id \<Rightarrow> ('pk, 't) memory_database \<Rightarrow> int" where
  "db_lookup_available_balance idx asset db = ua_lookup_available_balance asset (db_account idx db)"

definition db_lookup_user :: "account_id \<Rightarrow> ('pk, 't) memory_database \<Rightarrow> nat option" where
  "db_lookup_user account db = user_id_to_idx_map db account"

definition account_exists :: "account_id \<Rightarrow> ('pk, 't) memory_database \<Rightarrow> bool" where
  "account_exists account db \<longleftrightarrow> user_id_to_idx_map db account \<noteq> None"

definition get_pk_nolock :: "account_id \<Rightarrow> ('pk, 't) memory_database \<Rightarrow> 'pk option" where
  "get_pk_nolock account db = map_option (\<lambda>idx. pk (db_account idx db)) (user_id_to_idx_map db account)"

section \<open>Creating accounts\<close>

definition reserve_account_creation ::
  "account_id \<Rightarrow> ('pk, 't) memory_database \<Rightarrow> tx_status \<times> ('pk, 't) memory_database" where
  "reserve_account_creation account db =
     (if user_id_to_idx_map db account \<noteq> None then (NEW_ACCOUNT_ALREADY_EXISTS, db)
      else if account \<in> reserved_account_ids db then (NEW_ACCOUNT_TEMP_RESERVED, db)
      else (SUCCESS, db\<lparr>reserved_account_ids := insert account (reserved_account_ids db)\<rparr>))"

definition release_account_creation ::
  "account_id \<Rightarrow> ('pk, 't) memory_database \<Rightarrow> ('pk, 't) memory_database" where
  "release_account_creation account db = db\<lparr>reserved_account_ids := reserved_account_ids db - {account}\<rparr>"

definition commit_account_creation ::
  "account_id \<Rightarrow> 'pk user_account \<Rightarrow> ('pk, 't) memory_database \<Rightarrow> ('pk, 't) memory_database" where
  "commit_account_creation account_id account_data db =
     db\<lparr>uncommitted_db := uncommitted_db db @ [account_data]\<rparr>"

definition clear_internal_data_structures :: "('pk, 't) memory_database \<Rightarrow> ('pk, 't) memory_database" where
  "clear_internal_data_structures db = db\<lparr>uncommitted_db := [], reserved_account_ids := {}\<rparr>"

fun commit_accounts_loop ::
  "('t, 'pk account_commitment, 'h) trie_ops \<Rightarrow> 'pk \<Rightarrow> 'pk user_account list
     \<Rightarrow> ('pk, 't) memory_database \<Rightarrow> ('pk, 't) memory_database result" where
  "commit_accounts_loop T default_pk [] db = Inr db"
| "commit_accounts_loop T default_pk (u # us) db =
     (let a = ua_commit u
      in case av_emplace_back (blank_account default_pk) a (database db) of
           None \<Rightarrow> Inl UndefinedBehaviour
         | Some (committed_acct, v) \<Rightarrow>
             bind_result (from_loop (ua_produce_commitment a)) (\<lambda>c.
               commit_accounts_loop T default_pk us
                 (db\<lparr>database := v,
                     commitment_trie := t_insert T (acct_owner a) c (commitment_trie db),
                     user_id_to_idx_map := (user_id_to_idx_map db)(acct_owner a \<mapsto> committed_acct)\<rparr>)))"

definition commit_new_accounts ::
  "('t, 'pk account_commitment, 'h) trie_ops \<Rightarrow> 'pk \<Rightarrow> nat \<Rightarrow> nat
     \<Rightarrow> ('pk, 't) memory_database \<Rightarrow> ('pk, 't) memory_database result" where
  "commit_new_accounts T default_pk min_db_round current_block_number db =
     (let thunks = account_creation_thunks db
      in if ((thunks = [] \<and> u64 (min_db_round + 1) \<noteq> current_block_number)
             \<or> (thunks \<noteq> [] \<and> u64 (thunk_block_number (last thunks) + 1) \<noteq> current_block_number))
            \<and> \<not> (current_block_number = 0 \<and> min_db_round = 0)
         then Inl (RuntimeError ''account creation thunks block number error'')
         else bind_result (commit_accounts_loop T default_pk (uncommitted_db db) db) (\<lambda>db'.
                Inr (clear_internal_data_structures
                  (db'\<lparr>account_creation_thunks := account_creation_thunks db' @
                     [\<lparr>thunk_block_number = current_block_number,
                       num_accounts_created = length (uncommitted_db db)\<rparr>]\<rparr>))))"

definition forget_account ::
  "('t, 'v, 'h) trie_ops \<Rightarrow> nat \<Rightarrow> ('pk, 't) memory_database \<Rightarrow> ('pk, 't) memory_database" where
  "forget_account T idx db =
     (let own = acct_owner (db_account idx db)
      in db\<lparr>user_id_to_idx_map := (user_id_to_idx_map db)(own := None),
            commitment_trie := t_perform_deletion T own (commitment_trie db)\<rparr>)"

text \<open>The loop over the thunks, with those already passed over in \<open>kept\<close>.\<close>

fun rollback_thunks ::
  "('t, 'v, 'h) trie_ops \<Rightarrow> nat \<Rightarrow> account_creation_thunk list \<Rightarrow> account_creation_thunk list
     \<Rightarrow> ('pk, 't) memory_database \<Rightarrow> ('pk, 't) memory_database option" where
  "rollback_thunks T current_block_number kept [] db =
     Some (db\<lparr>account_creation_thunks := kept\<rparr>)"
| "rollback_thunks T current_block_number kept (th # ths) db =
     (if thunk_block_number th > current_block_number
      then (let db_size = av_size (database db);
                db' = fold (forget_account T) [sub64 db_size (num_accounts_created th)..<db_size] db
            in Option.bind (av_erase (num_accounts_created th) (database db'))
                 (\<lambda>v. rollback_thunks T current_block_number kept ths (db'\<lparr>database := v\<rparr>)))
      else rollback_thunks T current_block_number (kept @ [th]) ths db)"

definition rollback_new_accounts ::
  "('t, 'v, 'h) trie_ops \<Rightarrow> nat \<Rightarrow> ('pk, 't) memory_database \<Rightarrow> ('pk, 't) memory_database option" where
  "rollback_new_accounts T current_block_number db =
     map_option clear_internal_data_structures
       (rollback_thunks T current_block_number [] (account_creation_thunks db) db)"

section \<open>Committing and checking values\<close>

fun commit_values_log ::
  "account_id list \<Rightarrow> ('pk, 't) memory_database \<Rightarrow> ('pk, 't) memory_database result" where
  "commit_values_log [] db = Inr db"
| "commit_values_log (own # owns) db =
     (case db_lookup_user own db of
        Some ptr \<Rightarrow> commit_values_log owns (db_modify ptr ua_commit db)
      | None \<Rightarrow> Inl (RuntimeError ''couldn't lookup new acct''))"

definition commit_values :: "('pk, 't) memory_database \<Rightarrow> ('pk, 't) memory_database" where
  "commit_values db = fold (\<lambda>i. db_modify i ua_commit) [0..<av_size (database db)] db"

definition rollback_values :: "('pk, 't) memory_database \<Rightarrow> ('pk, 't) memory_database" where
  "rollback_values db = fold (\<lambda>i. db_modify i ua_rollback) [0..<av_size (database db)] db"

definition check_valid_state :: "account_id list \<Rightarrow> ('pk, 't) memory_database \<Rightarrow> bool" where
  "check_valid_state dirty_accounts db \<longleftrightarrow>
     list_all (\<lambda>own. case db_lookup_user own db of
                       None \<Rightarrow> True
                     | Some idx \<Rightarrow> ua_in_valid_state (db_account idx db)) dirty_accounts
     \<and> list_all ua_in_valid_state (uncommitted_db db)"

fun set_trie_commitments ::
  "('t, 'pk account_commitment, 'h) trie_ops \<Rightarrow> ('pk user_account \<Rightarrow> 'pk account_commitment option)
     \<Rightarrow> account_id list \<Rightarrow> ('pk, 't) memory_database \<Rightarrow> ('pk, 't) memory_database result" where
  "set_trie_commitments T f [] db = Inr db"
| "set_trie_commitments T f (own # owns) db =
     (case user_id_to_idx_map db own of
        None \<Rightarrow> Inl OutOfRange
      | Some idx \<Rightarrow> bind_result (from_loop (f (db_account idx db))) (\<lambda>c.
          set_trie_commitments T f owns
            (db\<lparr>commitment_trie := t_modify_value T own c (commitment_trie db)\<rparr>)))"

definition produce_state_commitment ::
  "('t, 'pk account_commitment, 'h) trie_ops \<Rightarrow> account_id list \<Rightarrow> ('pk, 't) memory_database
     \<Rightarrow> ('h \<times> ('pk, 't) memory_database) result" where
  "produce_state_commitment T log db =
     bind_result (set_trie_commitments T ua_produce_commitment log db)
       (\<lambda>db'. Inr (t_hash T (commitment_trie db'), db'))"

definition tentative_produce_state_commitment ::
  "('t, 'pk account_commitment, 'h) trie_ops \<Rightarrow> account_id list \<Rightarrow> ('pk, 't) memory_database
     \<Rightarrow> ('h \<times> ('pk, 't) memory_database) result" where
  "tentative_produce_state_commitment T log db =
     bind_result (set_trie_commitments T ua_tentative_commitment log db)
       (\<lambda>db'. Inr (t_hash T (commitment_trie db'), db'))"

definition rollback_produce_state_commitment ::
  "('t, 'pk account_commitment, 'h) trie_ops \<Rightarrow> account_id list \<Rightarrow> ('pk, 't) memory_database
     \<Rightarrow> ('pk, 't) memory_database result" where
  "rollback_produce_state_commitment T log db = set_trie_commitments T ua_produce_commitment log db"

section \<open>Well-formed databases\<close>

abbreviation contents :: "('pk, 't) memory_database \<Rightarrow> 'pk user_account list" where
  "contents db \<equiv> av_contents (database db)"

text \<open>The id map holds exactly the accounts of the table, so ids are unique.\<close>

definition db_wf :: "('pk, 't) memory_database \<Rightarrow> bool" where
  "db_wf db \<longleftrightarrow> av_wf (database db) \<and> av_size (database db) < 2 ^ 64
     \<and> (\<forall>own p. user_id_to_idx_map db own = Some p
           \<longleftrightarrow> p < length (contents db) \<and> acct_owner (contents db ! p) = own)"

lemma db_wf_init: "db_wf (db_init k t)" "contents (db_init k t) = []"
  by (simp_all add: db_wf_def db_init_def av_wf_init) (simp_all add: av_init_def)

lemma db_account_nth: "p < length (contents db) \<Longrightarrow> db_account p db = contents db ! p"
  by (simp add: db_account_def av_contents_nth ACCOUNTS_PER_ROW_def)

lemma db_modify_contents:
  assumes "db_wf db" "p < length (contents db)"
  shows "contents (db_modify p f db) = (contents db)[p := f (contents db ! p)]"
    and "av_wf (database (db_modify p f db))"
  using assms av.modify [of "database db" p f] by (simp_all add: db_wf_def db_modify_def)

lemma db_wf_modify:
  assumes "db_wf db" "p < length (contents db)" "\<And>a. acct_owner (f a) = acct_owner a"
  shows "db_wf (db_modify p f db)"
proof -
  have "user_id_to_idx_map (db_modify p f db) = user_id_to_idx_map db"
    "av_size (database (db_modify p f db)) = av_size (database db)"
    by (simp_all add: db_modify_def av_modify_def Let_def)
  moreover have "acct_owner ((contents db)[p := f (contents db ! p)] ! q) = acct_owner (contents db ! q)"
    if "q < length (contents db)" for q
    using that assms(3) by (cases "q = p") auto
  ultimately show ?thesis
    using assms(1) db_modify_contents [OF assms(1,2), of f] unfolding db_wf_def by auto
qed

lemma db_wf_map_eq:
  assumes "db_wf db" "db_wf db'" "contents db = contents db'"
  shows "user_id_to_idx_map db = user_id_to_idx_map db'"
proof (rule ext)
  fix own
  show "user_id_to_idx_map db own = user_id_to_idx_map db' own"
    using assms by (intro option_eqI) (simp add: db_wf_def)
qed

lemma db_wf_dom: "db_wf db \<Longrightarrow> dom (user_id_to_idx_map db) = acct_owner ` set (contents db)"
  by (force simp: db_wf_def dom_def in_set_conv_nth)

lemma owner_in_drop:
  "own \<in> acct_owner ` set (drop k xs) \<longleftrightarrow> (\<exists>q. k \<le> q \<and> q < length xs \<and> acct_owner (xs ! q) = own)"
  unfolding nth_image_drop [symmetric] by auto

lemma db_wf_distinct:
  assumes "db_wf db" "p < length (contents db)" "q < length (contents db)"
    "acct_owner (contents db ! p) = acct_owner (contents db ! q)"
  shows "p = q"
proof -
  have "user_id_to_idx_map db (acct_owner (contents db ! q)) = Some p"
    "user_id_to_idx_map db (acct_owner (contents db ! q)) = Some q"
    using assms unfolding db_wf_def by blast+
  then show ?thesis by simp
qed

section \<open>Rolling back new accounts\<close>

lemma fold_forget:
  assumes ok: "commitment_trie_ok T entries"
  shows "database (fold (forget_account T) is db) = database db
    \<and> reserved_account_ids (fold (forget_account T) is db) = reserved_account_ids db
    \<and> uncommitted_db (fold (forget_account T) is db) = uncommitted_db db
    \<and> user_id_to_idx_map (fold (forget_account T) is db) =
        (\<lambda>own. if own \<in> (\<lambda>i. acct_owner (db_account i db)) ` set is then None else user_id_to_idx_map db own)
    \<and> entries (commitment_trie (fold (forget_account T) is db)) =
        (\<lambda>own. if own \<in> (\<lambda>i. acct_owner (db_account i db)) ` set is then None
               else entries (commitment_trie db) own)"
proof (induction "is" arbitrary: db)
  case Nil
  show ?case by simp
next
  case (Cons i "is")
  have "db_account j (forget_account T i db) = db_account j db" for j
    by (simp add: forget_account_def Let_def db_account_def)
  then show ?case
    using Cons.IH [of "forget_account T i db"] ok
    by (auto simp: forget_account_def Let_def commitment_trie_ok_def fun_eq_iff)
qed

definition truncated ::
  "('t \<Rightarrow> account_id \<rightharpoonup> 'v) \<Rightarrow> nat \<Rightarrow> ('pk, 't) memory_database \<Rightarrow> ('pk, 't) memory_database \<Rightarrow> bool" where
  "truncated entries k db db' \<longleftrightarrow> db_wf db' \<and> contents db' = take k (contents db)
     \<and> reserved_account_ids db' = reserved_account_ids db \<and> uncommitted_db db' = uncommitted_db db
     \<and> entries (commitment_trie db') =
         (\<lambda>own. if own \<in> acct_owner ` set (drop k (contents db)) then None
                else entries (commitment_trie db) own)"

lemma truncated_trans:
  assumes "truncated entries k db db'" "truncated entries j db' db''" "j \<le> k"
  shows "truncated entries j db db''"
proof -
  have "set (drop j (contents db)) = set (drop j (take k (contents db))) \<union> set (drop k (contents db))"
    using assms(3) by (metis append_take_drop_id drop_take le_add_diff_inverse set_append drop_drop add.commute)
  then show ?thesis
    using assms by (auto simp: truncated_def min_absorb1 fun_eq_iff)
qed

lemma rollback_one_thunk:
  assumes ok: "commitment_trie_ok T entries" and wf: "db_wf db" and n: "n \<le> length (contents db)"
  defines "db' \<equiv> fold (forget_account T) [sub64 (av_size (database db)) n..<av_size (database db)] db"
  shows "\<exists>v. av_erase n (database db') = Some v
    \<and> truncated entries (length (contents db) - n) db (db'\<lparr>database := v\<rparr>)"
proof -
  let ?len = "length (contents db)"
  let ?k = "?len - n"
  let ?gone = "acct_owner ` set (drop ?k (contents db))"
  have sub: "sub64 (av_size (database db)) n = ?k"
    using wf n by (subst sub64_id) (auto simp: db_wf_def)
  have "(\<lambda>i. acct_owner (db_account i db)) ` {?k..<?len} = acct_owner ` (\<lambda>i. contents db ! i) ` {?k..<?len}"
    unfolding image_image by (intro image_cong refl) (simp add: db_account_nth)
  also have "(\<lambda>i. contents db ! i) ` {?k..<?len} = set (drop ?k (contents db))"
    by (rule nth_image_drop)
  finally have gone: "(\<lambda>i. acct_owner (db_account i db)) ` set [?k..<?len] = ?gone" by simp
  note F = fold_forget [OF ok, of "[?k..<?len]" db, unfolded gone]
  obtain v where v: "av_erase n (database db) = Some v" "av_wf v" "av_contents v = take ?k (contents db)"
    using av.erase [of "database db" n] wf n by (auto simp: db_wf_def)
  have F': "user_id_to_idx_map db' own = (if own \<in> ?gone then None else user_id_to_idx_map db own)" for own
    using F sub unfolding db'_def by simp
  note gone_iff = owner_in_drop [of _ ?k "contents db"]
  have "user_id_to_idx_map db' own = Some p \<longleftrightarrow> p < ?k \<and> acct_owner (contents db ! p) = own" for own p
  proof (cases "own \<in> ?gone")
    case True
    then obtain q where q: "?k \<le> q" "q < ?len" "acct_owner (contents db ! q) = own"
      unfolding gone_iff by blast
    have "\<not> (p < ?k \<and> acct_owner (contents db ! p) = own)"
    proof
      assume p: "p < ?k \<and> acct_owner (contents db ! p) = own"
      then have "p < ?len" by linarith
      then have "p = q" using q(2,3) p db_wf_distinct [OF wf, of p q] by simp
      then show False using p q by simp
    qed
    then show ?thesis using True F' by simp
  next
    case False
    then have "user_id_to_idx_map db' own = Some p \<longleftrightarrow> p < ?len \<and> acct_owner (contents db ! p) = own"
      using wf F' by (simp add: db_wf_def)
    moreover have "p < ?k" if "p < ?len" "acct_owner (contents db ! p) = own"
    proof (rule ccontr)
      assume "\<not> p < ?k"
      then have "own \<in> ?gone" unfolding gone_iff using that by (intro exI [of _ p]) simp
      with False show False by simp
    qed
    ultimately show ?thesis by auto
  qed
  then have "db_wf (db'\<lparr>database := v\<rparr>)"
    using v wf n unfolding db_wf_def by (auto simp: length_av_contents [symmetric] simp del: length_av_contents)
  then show ?thesis
    using v F sub unfolding db'_def by (auto simp: truncated_def)
qed

definition rolled :: "nat \<Rightarrow> account_creation_thunk list \<Rightarrow> nat" where
  "rolled b ths = sum_list (map num_accounts_created (filter (\<lambda>th. thunk_block_number th > b) ths))"

lemma truncated_thunks: "truncated entries k db (db'\<lparr>account_creation_thunks := x\<rparr>) = truncated entries k db db'"
  by (simp add: truncated_def db_wf_def)

lemma truncated_refl: "db_wf db \<Longrightarrow> k = length (contents db) \<Longrightarrow> truncated entries k db db"
  by (simp add: truncated_def)

text \<open>
  The thunks are undone oldest first while accounts are erased from the end of the table; only the
  total matters.
\<close>

lemma rollback_thunks_correct:
  assumes ok: "commitment_trie_ok T entries"
  shows "db_wf db \<Longrightarrow> rolled b ths \<le> length (contents db) \<Longrightarrow>
    \<exists>db'. rollback_thunks T b kept ths db = Some db'
      \<and> truncated entries (length (contents db) - rolled b ths) db db'
      \<and> account_creation_thunks db' = kept @ filter (\<lambda>th. \<not> thunk_block_number th > b) ths"
proof (induction ths arbitrary: db kept)
  case Nil
  then show ?case by (simp add: rolled_def truncated_thunks truncated_refl)
next
  case (Cons th ths)
  show ?case
  proof (cases "thunk_block_number th > b")
    case False
    then show ?thesis using Cons.IH [of db "kept @ [th]"] Cons.prems by (simp add: rolled_def)
  next
    case True
    let ?n = "num_accounts_created th" and ?len = "length (contents db)"
    let ?db' = "fold (forget_account T) [sub64 (av_size (database db)) ?n..<av_size (database db)] db"
    have r: "rolled b (th # ths) = ?n + rolled b ths" using True by (simp add: rolled_def)
    then have n: "?n \<le> ?len" using Cons.prems by linarith
    obtain v where v: "av_erase ?n (database ?db') = Some v"
        "truncated entries (?len - ?n) db (?db'\<lparr>database := v\<rparr>)"
      using rollback_one_thunk [OF ok Cons.prems(1) n] by blast
    let ?d = "?db'\<lparr>database := v\<rparr>"
    have d: "db_wf ?d" "length (contents ?d) = ?len - ?n"
      using v(2) by (auto simp: truncated_def)
    have fit: "rolled b ths \<le> length (contents ?d)" unfolding d(2) using r Cons.prems(2) by linarith
    obtain db'' where db'': "rollback_thunks T b kept ths ?d = Some db''"
        "truncated entries (length (contents ?d) - rolled b ths) ?d db''"
        "account_creation_thunks db'' = kept @ filter (\<lambda>th. \<not> thunk_block_number th > b) ths"
      using Cons.IH [OF d(1) fit, of kept] by blast
    have "?len - ?n - rolled b ths = ?len - rolled b (th # ths)" using r by simp
    then have "truncated entries (?len - rolled b (th # ths)) db db''"
      using truncated_trans [OF v(2) db''(2)] d(2) by simp
    moreover have "rollback_thunks T b kept (th # ths) db = Some db''"
      using True v(1) db''(1) by simp
    ultimately show ?thesis using True db''(3) by auto
  qed
qed

lemma ua_commit_keeps [simp]:
  "acct_owner (ua_commit a) = acct_owner a" "pk (ua_commit a) = pk a"
  by (simp_all add: ua_commit_def)

lemma db_wf_append:
  assumes "db_wf db" "av_wf v" "av_contents v = contents db @ [a]"
    "acct_owner a \<notin> dom (user_id_to_idx_map db)" "Suc (av_size (database db)) < 2 ^ 64"
  shows "db_wf (db\<lparr>database := v, commitment_trie := t,
    user_id_to_idx_map := (user_id_to_idx_map db)(acct_owner a \<mapsto> length (contents db))\<rparr>)"
proof -
  have len: "av_size v = Suc (length (contents db))" using arg_cong [OF assms(3), of length] by simp
  have "((user_id_to_idx_map db)(acct_owner a \<mapsto> length (contents db))) own = Some p
      \<longleftrightarrow> p < Suc (length (contents db)) \<and> acct_owner ((contents db @ [a]) ! p) = own" for own p
  proof (cases "p = length (contents db)")
    case True
    have "(contents db @ [a]) ! av_size (database db) = a"
      using nth_append_length [of "contents db" a "[]"] by simp
    then show ?thesis using True assms(1,4) by (auto simp: db_wf_def dom_def)
  next
    case False
    have "p < Suc (length (contents db)) \<longleftrightarrow> p < length (contents db)" using False by linarith
    moreover have "acct_owner (contents db ! p) \<noteq> acct_owner a" if "p < length (contents db)"
      using assms(1,4) that by (metis db_wf_def domI)
    ultimately show ?thesis using assms(1) False by (auto simp: db_wf_def nth_append)
  qed
  then show ?thesis using assms len by (simp add: db_wf_def)
qed

lemma commit_accounts_loop_correct:
  assumes ok: "commitment_trie_ok T entries"
  shows "db_wf db \<Longrightarrow> distinct (map acct_owner us) \<Longrightarrow>
    acct_owner ` set us \<inter> dom (user_id_to_idx_map db) = {} \<Longrightarrow>
    dom (entries (commitment_trie db)) = dom (user_id_to_idx_map db) \<Longrightarrow>
    list_all (\<lambda>a. length (all_assets a) < 256) us \<Longrightarrow> av_size (database db) + length us < 2 ^ 64 \<Longrightarrow>
    \<exists>db'. commit_accounts_loop T dpk us db = Inr db' \<and> db_wf db'
      \<and> contents db' = contents db @ map ua_commit us
      \<and> account_creation_thunks db' = account_creation_thunks db
      \<and> dom (entries (commitment_trie db')) = dom (user_id_to_idx_map db')
      \<and> (\<forall>own. own \<notin> acct_owner ` set us \<longrightarrow>
            entries (commitment_trie db') own = entries (commitment_trie db) own)"
proof (induction us arbitrary: db)
  case Nil
  then show ?case by simp
next
  case (Cons u us)
  let ?a = "ua_commit u"
  have "length (owned_assets ?a) < 256" using Cons.prems(5) by (simp add: ua_commit_def all_assets_def)
  then obtain c where c: "ua_produce_commitment ?a = Some c"
    by (simp add: ua_produce_commitment_def commitment_loop_eq)
  obtain v where v: "av_emplace_back (blank_account dpk) ?a (database db) = Some (length (contents db), v)"
      "av_wf v" "av_contents v = contents db @ [?a]"
    using av.emplace [of "database db" "blank_account dpk" ?a] Cons.prems(1) by (auto simp: db_wf_def)
  let ?db = "db\<lparr>database := v, commitment_trie := t_insert T (acct_owner ?a) c (commitment_trie db),
      user_id_to_idx_map := (user_id_to_idx_map db)(acct_owner ?a \<mapsto> length (contents db))\<rparr>"
  have new: "acct_owner ?a \<notin> dom (user_id_to_idx_map db)" using Cons.prems(3) by auto
  have wf: "db_wf ?db" using Cons.prems(1,6) v(2,3) new by (intro db_wf_append) auto
  have trie: "entries (commitment_trie ?db) = (entries (commitment_trie db))(acct_owner u \<mapsto> c)"
    using ok Cons.prems(4) new by (auto simp: commitment_trie_ok_def)
  have len: "av_size v = Suc (av_size (database db))" using arg_cong [OF v(3), of length] by simp
  have "\<exists>db'. commit_accounts_loop T dpk us ?db = Inr db' \<and> db_wf db'
      \<and> contents db' = contents ?db @ map ua_commit us
      \<and> account_creation_thunks db' = account_creation_thunks ?db
      \<and> dom (entries (commitment_trie db')) = dom (user_id_to_idx_map db')
      \<and> (\<forall>own. own \<notin> acct_owner ` set us \<longrightarrow>
            entries (commitment_trie db') own = entries (commitment_trie ?db) own)"
  proof (rule Cons.IH [OF wf])
    show "dom (entries (commitment_trie ?db)) = dom (user_id_to_idx_map ?db)"
      unfolding trie using Cons.prems(4) by simp
    have "acct_owner u \<notin> acct_owner ` set us" using Cons.prems(2) by simp
    then show "acct_owner ` set us \<inter> dom (user_id_to_idx_map ?db) = {}"
      using Cons.prems(3) by (simp add: disjoint_iff)
  qed (use Cons.prems len in auto)
  moreover have "commit_accounts_loop T dpk (u # us) db = commit_accounts_loop T dpk us ?db"
    using v(1) c by simp
  ultimately show ?case unfolding trie using v(3) by auto
qed

lemma truncated_map:
  assumes "truncated entries k db db'" "db_wf db"
  shows "user_id_to_idx_map db' own =
    (if own \<in> acct_owner ` set (drop k (contents db)) then None else user_id_to_idx_map db own)"
proof (rule option_eqI)
  fix p
  have wf': "db_wf db'" and c: "contents db' = take k (contents db)" using assms(1) by (simp_all add: truncated_def)
  have "user_id_to_idx_map db' own = Some p \<longleftrightarrow>
      p < length (take k (contents db)) \<and> acct_owner (take k (contents db) ! p) = own"
    using wf' unfolding db_wf_def c by blast
  also have "\<dots> \<longleftrightarrow> own \<notin> acct_owner ` set (drop k (contents db))
      \<and> p < length (contents db) \<and> acct_owner (contents db ! p) = own"
  proof
    assume p: "p < length (take k (contents db)) \<and> acct_owner (take k (contents db) ! p) = own"
    have "acct_owner (contents db ! q) \<noteq> own" if "k \<le> q" "q < length (contents db)" for q
      using db_wf_distinct [OF assms(2), of p q] p that by auto
    then show "own \<notin> acct_owner ` set (drop k (contents db))
      \<and> p < length (contents db) \<and> acct_owner (contents db ! p) = own"
      using p unfolding owner_in_drop by auto
  next
    assume p: "own \<notin> acct_owner ` set (drop k (contents db))
      \<and> p < length (contents db) \<and> acct_owner (contents db ! p) = own"
    have "p < k"
    proof (rule ccontr)
      assume "\<not> p < k"
      then have "own \<in> acct_owner ` set (drop k (contents db))"
        unfolding owner_in_drop using p by (intro exI [of _ p]) simp
      with p show False by simp
    qed
    then show "p < length (take k (contents db)) \<and> acct_owner (take k (contents db) ! p) = own" using p by simp
  qed
  also have "\<dots> \<longleftrightarrow> (if own \<in> acct_owner ` set (drop k (contents db)) then None
      else user_id_to_idx_map db own) = Some p"
    using assms(2) by (simp add: db_wf_def)
  finally show "user_id_to_idx_map db' own = Some p \<longleftrightarrow>
    (if own \<in> acct_owner ` set (drop k (contents db)) then None else user_id_to_idx_map db own) = Some p" .
qed

section \<open>Committing values and hashing\<close>

lemma commit_values_log_correct:
  "db_wf db \<Longrightarrow> distinct log \<Longrightarrow> set log \<subseteq> dom (user_id_to_idx_map db) \<Longrightarrow>
   \<exists>db'. commit_values_log log db = Inr db' \<and> db_wf db'
     \<and> user_id_to_idx_map db' = user_id_to_idx_map db \<and> commitment_trie db' = commitment_trie db
     \<and> length (contents db') = length (contents db)
     \<and> (\<forall>p < length (contents db). contents db' ! p =
           (if acct_owner (contents db ! p) \<in> set log then ua_commit (contents db ! p) else contents db ! p))"
proof (induction log arbitrary: db)
  case Nil
  then show ?case by simp
next
  case (Cons own log)
  then obtain q where q: "user_id_to_idx_map db own = Some q" by auto
  then have q': "q < length (contents db)" "acct_owner (contents db ! q) = own"
    using Cons.prems(1) unfolding db_wf_def by blast+
  let ?d = "db_modify q ua_commit db"
  have d: "db_wf ?d" "contents ?d = (contents db)[q := ua_commit (contents db ! q)]"
    using Cons.prems(1) q' by (simp_all add: db_wf_modify db_modify_contents)
  have keep: "user_id_to_idx_map ?d = user_id_to_idx_map db" "commitment_trie ?d = commitment_trie db"
    by (simp_all add: db_modify_def)
  have uniq: "p = q" if "p < length (contents db)" "acct_owner (contents db ! p) = own" for p
    using db_wf_distinct [OF Cons.prems(1), of p q] that q' by simp
  have "distinct log" "set log \<subseteq> dom (user_id_to_idx_map ?d)" using Cons.prems keep by auto
  then obtain db' where db': "commit_values_log log ?d = Inr db'" "db_wf db'"
      "user_id_to_idx_map db' = user_id_to_idx_map db" "commitment_trie db' = commitment_trie db"
      "length (contents db') = length (contents ?d)"
      "\<forall>p < length (contents ?d). contents db' ! p =
         (if acct_owner (contents ?d ! p) \<in> set log then ua_commit (contents ?d ! p) else contents ?d ! p)"
    using Cons.IH [OF d(1)] keep by auto
  have len: "length (contents ?d) = length (contents db)" unfolding d(2) by (rule length_list_update)
  have "contents db' ! p =
      (if acct_owner (contents db ! p) \<in> set (own # log) then ua_commit (contents db ! p) else contents db ! p)"
    if p: "p < length (contents db)" for p
  proof (cases "p = q")
    case True
    have "contents ?d ! q = ua_commit (contents db ! q)" unfolding d(2) using q'(1) by simp
    moreover have "own \<notin> set log" using Cons.prems(2) by simp
    ultimately show ?thesis using True db'(6) q' len p by simp
  next
    case False
    then have "contents ?d ! p = contents db ! p" unfolding d(2) by simp
    moreover have "acct_owner (contents db ! p) \<noteq> own" using False uniq p by blast
    ultimately show ?thesis using db'(6) len p by simp
  qed
  moreover have "commit_values_log (own # log) db = Inr db'"
    using db'(1) q by (simp add: db_lookup_user_def)
  ultimately show ?case using db' len by auto
qed

lemma set_trie_commitments_correct:
  assumes ok: "commitment_trie_ok T entries"
  shows "set log \<subseteq> dom (entries (commitment_trie db)) \<Longrightarrow>
    \<forall>own \<in> set log. \<exists>idx. user_id_to_idx_map db own = Some idx \<and> f (db_account idx db) = Some (c own) \<Longrightarrow>
    \<exists>db'. set_trie_commitments T f log db = Inr db' \<and>
      entries (commitment_trie db') =
        (\<lambda>own. if own \<in> set log then Some (c own) else entries (commitment_trie db) own)"
proof (induction log arbitrary: db)
  case Nil
  then show ?case by simp
next
  case (Cons own log)
  obtain idx where idx: "user_id_to_idx_map db own = Some idx" "f (db_account idx db) = Some (c own)"
    using Cons.prems(2) by auto
  let ?d = "db\<lparr>commitment_trie := t_modify_value T own (c own) (commitment_trie db)\<rparr>"
  have trie: "entries (commitment_trie ?d) = (entries (commitment_trie db))(own \<mapsto> c own)"
    using ok Cons.prems(1) by (auto simp: commitment_trie_ok_def)
  have same: "db_account i ?d = db_account i db" for i by (simp add: db_account_def)
  have "\<exists>db'. set_trie_commitments T f log ?d = Inr db' \<and> entries (commitment_trie db') =
        (\<lambda>own. if own \<in> set log then Some (c own) else entries (commitment_trie ?d) own)"
  proof (rule Cons.IH)
    show "set log \<subseteq> dom (entries (commitment_trie ?d))" unfolding trie using Cons.prems(1) by auto
    show "\<forall>own \<in> set log. \<exists>idx. user_id_to_idx_map ?d own = Some idx \<and> f (db_account idx ?d) = Some (c own)"
      using Cons.prems(2) same by auto
  qed
  then show ?case unfolding trie using idx by (auto simp: fun_eq_iff)
qed

section \<open>Properties\<close>

text \<open>
  Property C10. The state hash a validator computes before it commits its accounts is the state
  hash a producer computes after committing them. For a well-formed table and a log of distinct existing accounts that
  have an entry in the trie, when every account holds fewer than 256 balances, both calls return, and with the same hash.
  (With 256 balances the loops that serialize an account do not end.)
\<close>

theorem state_commitment_agreement:
  assumes ok: "commitment_trie_ok T entries" and wf: "db_wf db" and log: "distinct log"
    "set log \<subseteq> dom (user_id_to_idx_map db)" "set log \<subseteq> dom (entries (commitment_trie db))"
    and small: "list_all (\<lambda>a. length (all_assets a) < 256) (contents db)"
  shows "\<exists>h d1 dbc d2. tentative_produce_state_commitment T log db = Inr (h, d1)
    \<and> commit_values_log log db = Inr dbc \<and> produce_state_commitment T log dbc = Inr (h, d2)"
proof -
  define acct where "acct own = contents db ! the (user_id_to_idx_map db own)" for own
  define c where "c own = the (ua_tentative_commitment (acct own))" for own
  obtain dbc where dbc: "commit_values_log log db = Inr dbc" "db_wf dbc"
      "user_id_to_idx_map dbc = user_id_to_idx_map db" "commitment_trie dbc = commitment_trie db"
      "length (contents dbc) = length (contents db)"
      "\<And>p. p < length (contents db) \<Longrightarrow> contents dbc ! p =
         (if acct_owner (contents db ! p) \<in> set log then ua_commit (contents db ! p) else contents db ! p)"
    using commit_values_log_correct [OF wf log(1,2)] by blast
  have acct: "\<exists>idx. user_id_to_idx_map db own = Some idx \<and> idx < length (contents db)
      \<and> acct own = contents db ! idx \<and> acct_owner (contents db ! idx) = own" if "own \<in> set log" for own
    using log(2) that wf unfolding db_wf_def acct_def by fastforce
  have tc: "ua_tentative_commitment (contents db ! i) = ua_produce_commitment (ua_commit (contents db ! i))
      \<and> ua_tentative_commitment (contents db ! i) \<noteq> None" if "i < length (contents db)" for i
  proof (rule tentative_commitment_eq)
    show "length (owned_assets (contents db ! i)) + length (uncommitted_assets (contents db ! i)) < 256"
      using small that unfolding list_all_length all_assets_def by simp
  qed
  obtain d1 where d1: "set_trie_commitments T ua_tentative_commitment log db = Inr d1"
      "entries (commitment_trie d1) = (\<lambda>own. if own \<in> set log then Some (c own) else entries (commitment_trie db) own)"
  proof (rule exE [OF set_trie_commitments_correct [OF ok log(3), of ua_tentative_commitment c]])
    show "\<forall>own \<in> set log. \<exists>idx. user_id_to_idx_map db own = Some idx
        \<and> ua_tentative_commitment (db_account idx db) = Some (c own)"
      using acct tc unfolding c_def by (metis db_account_nth option.collapse)
  qed blast
  have log3: "set log \<subseteq> dom (entries (commitment_trie dbc))" using log(3) dbc(4) by simp
  obtain d2 where d2: "set_trie_commitments T ua_produce_commitment log dbc = Inr d2"
      "entries (commitment_trie d2) = (\<lambda>own. if own \<in> set log then Some (c own) else entries (commitment_trie dbc) own)"
  proof (rule exE [OF set_trie_commitments_correct [OF ok log3, of ua_produce_commitment c]])
    show "\<forall>own \<in> set log. \<exists>idx. user_id_to_idx_map dbc own = Some idx
        \<and> ua_produce_commitment (db_account idx dbc) = Some (c own)"
    proof
      fix own assume own: "own \<in> set log"
      then obtain idx where idx: "user_id_to_idx_map db own = Some idx" "idx < length (contents db)"
          "acct own = contents db ! idx" "acct_owner (contents db ! idx) = own"
        using acct by blast
      have "db_account idx dbc = contents dbc ! idx" using idx(2) dbc(5) by (intro db_account_nth) simp
      also have "\<dots> = ua_commit (contents db ! idx)" using dbc(6) [OF idx(2)] idx(4) own by simp
      finally have "ua_produce_commitment (db_account idx dbc) = Some (c own)"
        using tc [OF idx(2)] unfolding c_def idx(3) by (metis option.collapse)
      then show "\<exists>idx. user_id_to_idx_map dbc own = Some idx
          \<and> ua_produce_commitment (db_account idx dbc) = Some (c own)"
        using idx(1) dbc(3) by auto
    qed
  qed blast
  have "entries (commitment_trie d1) = entries (commitment_trie d2)"
    unfolding d1(2) d2(2) dbc(4) by (rule refl)
  then have hash: "t_hash T (commitment_trie d2) = t_hash T (commitment_trie d1)"
    using ok unfolding commitment_trie_ok_def by metis
  have "tentative_produce_state_commitment T log db = Inr (t_hash T (commitment_trie d1), d1)"
    by (simp only: tentative_produce_state_commitment_def d1(1) bind_result_simps)
  moreover have "produce_state_commitment T log dbc = Inr (t_hash T (commitment_trie d1), d2)"
    by (simp only: produce_state_commitment_def d2(1) bind_result_simps hash)
  ultimately show ?thesis using dbc(1) by blast
qed

text \<open>A database with one funded account, used by witnesses that run transactions.\<close>

definition sample_account :: "unit user_account" where
  "sample_account = \<lparr>owned_assets = [\<lparr>available = 1000, committed_available = 1000\<rparr>], uncommitted_assets = [],
     seq_tracker = ut_init 0, acct_owner = 7, pk = ()\<rparr>"

definition sample_db :: "unit user_account \<Rightarrow> (unit, unit) memory_database" where
  "sample_db a = (db_init () ())\<lparr>user_id_to_idx_map := [7 \<mapsto> 0],
     database := \<lparr>accounts = [\<lparr>num_active_entries = 1, row = (\<lambda>_. blank_account ())(0 := a)\<rparr>],
        next_open_idx = 0, av_size = 1\<rparr>\<rparr>"

lemma sample_db_simps [simp]:
  "db_account 0 (sample_db a) = a" "db_modify 0 f (sample_db a) = sample_db (f a)"
  "db_lookup_user 7 (sample_db a) = Some 0" "db_lookup_user 8 (sample_db a) = None"
  "av_size (database (sample_db a)) = 1"
  by (simp_all add: sample_db_def db_account_def db_modify_def av_modify_def upd_at_def db_lookup_user_def)

text \<open>A database with one account, used by the witnesses.\<close>

definition one_account_db :: "(unit, account_id \<rightharpoonup> unit account_commitment) memory_database" where
  "one_account_db = projr (commit_new_accounts map_trie () 0 1
     (commit_account_creation 7 (new_account 7 ()) (db_init () Map.empty)))"

lemma one_account_db_facts:
  "db_wf one_account_db" "contents one_account_db = [ua_commit (new_account 7 ())]"
  "user_id_to_idx_map one_account_db = [7 \<mapsto> 0]" "7 \<in> dom (commitment_trie one_account_db)"
  "account_creation_thunks one_account_db = [\<lparr>thunk_block_number = 1, num_accounts_created = 1\<rparr>]"
proof -
  let ?db = "commit_account_creation 7 (new_account 7 ()) (db_init () Map.empty)
    :: (unit, account_id \<rightharpoonup> unit account_commitment) memory_database"
  have wf: "db_wf ?db" "contents ?db = []" "uncommitted_db ?db = [new_account 7 ()]"
    "account_creation_thunks ?db = []"
    using db_wf_init by (simp_all add: commit_account_creation_def db_wf_def) (simp_all add: db_init_def)
  have "\<exists>d. commit_accounts_loop map_trie () [new_account 7 ()] ?db = Inr d \<and> db_wf d
      \<and> contents d = contents ?db @ map ua_commit [new_account 7 ()]
      \<and> account_creation_thunks d = account_creation_thunks ?db
      \<and> dom (commitment_trie d) = dom (user_id_to_idx_map d)
      \<and> (\<forall>own. own \<notin> acct_owner ` set [new_account 7 ()] \<longrightarrow> commitment_trie d own = commitment_trie ?db own)"
    using wf(1)
    by (rule commit_accounts_loop_correct [OF map_trie_ok])
      (simp_all add: commit_account_creation_def db_init_def new_account_def all_assets_def av_init_def)
  then obtain d where d: "commit_accounts_loop map_trie () (uncommitted_db ?db) ?db = Inr d" "db_wf d"
      "contents d = [ua_commit (new_account 7 ())]" "account_creation_thunks d = []"
      "dom (commitment_trie d) = dom (user_id_to_idx_map d)"
    using wf by auto
  have one: "one_account_db = clear_internal_data_structures
      (d\<lparr>account_creation_thunks := [\<lparr>thunk_block_number = 1, num_accounts_created = 1\<rparr>]\<rparr>)"
    using d unfolding one_account_db_def commit_new_accounts_def
    by (simp add: commit_account_creation_def db_init_def)
  show "db_wf one_account_db" using d(2) by (simp add: one db_wf_def clear_internal_data_structures_def)
  show "contents one_account_db = [ua_commit (new_account 7 ())]"
    using d(3) by (simp add: one clear_internal_data_structures_def)
  show "account_creation_thunks one_account_db = [\<lparr>thunk_block_number = 1, num_accounts_created = 1\<rparr>]"
    by (simp add: one clear_internal_data_structures_def)
  show m: "user_id_to_idx_map one_account_db = [7 \<mapsto> 0]"
    using d(2,3) by (intro ext option_eqI)
      (auto simp: one clear_internal_data_structures_def db_wf_def new_account_def)
  have "commitment_trie one_account_db = commitment_trie d"
    "user_id_to_idx_map one_account_db = user_id_to_idx_map d"
    by (simp_all add: one clear_internal_data_structures_def)
  then show "7 \<in> dom (commitment_trie one_account_db)" using d(5) m by (metis domI map_upd_eqD1 fun_upd_same)
qed

theorem state_commitment_agreement_witness:
  "\<exists>h d1 dbc d2. tentative_produce_state_commitment map_trie [7] one_account_db = Inr (h, d1)
    \<and> commit_values_log [7] one_account_db = Inr dbc \<and> produce_state_commitment map_trie [7] dbc = Inr (h, d2)"
  by (rule state_commitment_agreement [OF map_trie_ok])
    (use one_account_db_facts in \<open>auto simp: all_assets_def ua_commit_def new_account_def\<close>)

text \<open>
  Rolling back to block \<open>b\<close> removes exactly the accounts created by later blocks:
  the table is cut back to the accounts that existed at block \<open>b\<close>, the id map and the trie
  forget the others and keep the rest, and the creation records of later blocks are dropped, even
  though the records are undone oldest first while accounts are erased from the end.
\<close>

theorem rollback_new_accounts_exact:
  assumes ok: "commitment_trie_ok T entries" and wf: "db_wf db"
    and fit: "rolled b (account_creation_thunks db) \<le> length (contents db)"
  shows "\<exists>db'. rollback_new_accounts T b db = Some db' \<and> db_wf db'
    \<and> contents db' = take (length (contents db) - rolled b (account_creation_thunks db)) (contents db)
    \<and> (\<forall>own. own \<notin> acct_owner ` set (drop (length (contents db')) (contents db)) \<longrightarrow>
          user_id_to_idx_map db' own = user_id_to_idx_map db own
          \<and> entries (commitment_trie db') own = entries (commitment_trie db) own)
    \<and> (\<forall>own \<in> acct_owner ` set (drop (length (contents db')) (contents db)).
          user_id_to_idx_map db' own = None \<and> entries (commitment_trie db') own = None)
    \<and> account_creation_thunks db' = filter (\<lambda>th. thunk_block_number th \<le> b) (account_creation_thunks db)
    \<and> uncommitted_db db' = [] \<and> reserved_account_ids db' = {}"
proof -
  let ?k = "length (contents db) - rolled b (account_creation_thunks db)"
  obtain d where d: "rollback_thunks T b [] (account_creation_thunks db) db = Some d"
      "truncated entries ?k db d"
      "account_creation_thunks d = filter (\<lambda>th. thunk_block_number th \<le> b) (account_creation_thunks db)"
    using rollback_thunks_correct [OF ok wf fit, of "[]"] by (auto simp: not_less)
  let ?d = "clear_internal_data_structures d"
  have run: "rollback_new_accounts T b db = Some ?d" using d(1) by (simp add: rollback_new_accounts_def)
  have wfd: "db_wf d" "contents d = take ?k (contents db)" using d(2) by (simp_all add: truncated_def)
  have same: "db_wf ?d = db_wf d" "contents ?d = contents d"
    "user_id_to_idx_map ?d = user_id_to_idx_map d" "commitment_trie ?d = commitment_trie d"
    by (simp_all add: clear_internal_data_structures_def db_wf_def)
  have "length (contents d) = ?k" unfolding wfd(2) by simp
  moreover have "user_id_to_idx_map d own =
      (if own \<in> acct_owner ` set (drop ?k (contents db)) then None else user_id_to_idx_map db own)" for own
    using truncated_map [OF d(2) wf] by simp
  ultimately show ?thesis
    using run d(2,3) wfd unfolding truncated_def
    by (intro exI [of _ ?d]) (simp add: same, simp add: clear_internal_data_structures_def)
qed

theorem rollback_new_accounts_exact_witness:
  "\<exists>db'. rollback_new_accounts map_trie 0 one_account_db = Some db' \<and> contents db' = []
    \<and> user_id_to_idx_map db' 7 = None \<and> account_creation_thunks db' = []"
  using rollback_new_accounts_exact [OF map_trie_ok one_account_db_facts(1), of 0] one_account_db_facts
  by (auto simp: rolled_def new_account_def simp flip: length_av_contents)

end
