(* ===== verification/Database_View.thy ===== *)
theory Database_View
  imports Memory_Database "HOL-Library.AList"
begin

text \<open>
  Model of \<^verbatim>\<open>memory_database/memory_database_view.{h,cc}\<close>: the per-transaction views of the
  database. A buffered view takes withdrawals out of the database at once, holds deposits back
  until the commit, and can be unwound; an unbuffered view writes through. A \<^verbatim>\<open>UserAccount*\<close> is
  either an account of the database (\<open>DbPtr\<close>, its index) or one created in the view
  (\<open>NewPtr n\<close>, the \<open>n\<close>-th one created; the list of new accounts grows at its front). An
  unordered map is an association list.

  The lemmas are about \<open>ledger\<close>s: how the balances of the database, the buffered deposits and
  the recorded withdrawals add up after any sequence of calls.
\<close>

section \<open>View of one account\<close>

datatype uptr = DbPtr nat | NewPtr nat

type_synonym amount_map = "(asset_id \<times> int) list"

text \<open>\<^verbatim>\<open>operator[]\<close>: the value of a key, which is inserted with 0 if it is missing.\<close>

definition am_get :: "asset_id \<Rightarrow> amount_map \<Rightarrow> int" where
  "am_get k am = (case map_of am k of None \<Rightarrow> 0 | Some v \<Rightarrow> v)"

definition am_touch :: "asset_id \<Rightarrow> amount_map \<Rightarrow> amount_map" where
  "am_touch k am = AList.update k (am_get k am) am"

record user_account_view =
  uv_main :: nat
  available_buffer :: amount_map
  available_side_effects :: amount_map

definition uv_init :: "nat \<Rightarrow> user_account_view" where
  "uv_init main = \<lparr>uv_main = main, available_buffer = [], available_side_effects = []\<rparr>"

definition uv_add_side_effect :: "asset_id \<Rightarrow> int \<Rightarrow> user_account_view \<Rightarrow> user_account_view" where
  "uv_add_side_effect asset x v = v\<lparr>available_side_effects :=
     AList.update asset (i64 (am_get asset (available_side_effects v) + x)) (available_side_effects v)\<rparr>"

definition uv_set_buffer :: "asset_id \<Rightarrow> int \<Rightarrow> user_account_view \<Rightarrow> user_account_view" where
  "uv_set_buffer asset x v = v\<lparr>available_buffer := AList.update asset x (available_buffer v)\<rparr>"

definition uv_conditional_escrow ::
  "asset_id \<Rightarrow> int \<Rightarrow> user_account_view \<Rightarrow> ('pk, 't) memory_database
     \<Rightarrow> tx_status \<times> user_account_view \<times> ('pk, 't) memory_database" where
  "uv_conditional_escrow asset amt v db =
     (if amt < 0
      then (SUCCESS, uv_set_buffer asset (i64 (am_get asset (available_buffer v) - amt)) v, db)
      else (let v1 = v\<lparr>available_buffer := am_touch asset (available_buffer v)\<rparr>;
                current_available_buffer = am_get asset (available_buffer v);
                new_buffer = i64 (current_available_buffer - amt)
            in if new_buffer < 0
               then (let (res, db') = db_conditional_escrow (uv_main v) asset (i64 (- new_buffer)) db
                     in if \<not> res then (INSUFFICIENT_BALANCE, v1, db')
                        else (SUCCESS, uv_set_buffer asset 0 (uv_add_side_effect asset new_buffer v1), db'))
               else (SUCCESS, uv_set_buffer asset new_buffer v1, db)))"

definition uv_transfer_available ::
  "asset_id \<Rightarrow> int \<Rightarrow> user_account_view \<Rightarrow> ('pk, 't) memory_database
     \<Rightarrow> tx_status \<times> user_account_view \<times> ('pk, 't) memory_database" where
  "uv_transfer_available asset amt v db =
     (let v1 = v\<lparr>available_buffer := am_touch asset (available_buffer v)\<rparr>;
          current_buffer = am_get asset (available_buffer v);
          new_buffer = i64 (current_buffer + amt)
      in if new_buffer < 0
         then (let (res, db') = db_conditional_transfer_available (uv_main v) asset new_buffer db
               in if \<not> res then (INSUFFICIENT_BALANCE, v1, db')
                  else (SUCCESS, uv_set_buffer asset 0 (uv_add_side_effect asset new_buffer v1), db'))
         else (SUCCESS, uv_set_buffer asset new_buffer v1, db))"

definition uv_lookup_available_balance :: "asset_id \<Rightarrow> user_account_view \<Rightarrow> ('pk, 't) memory_database \<Rightarrow> int" where
  "uv_lookup_available_balance asset v db =
     i64 (db_lookup_available_balance (uv_main v) asset db + am_get asset (available_buffer v))"

definition uv_commit :: "user_account_view \<Rightarrow> ('pk, 't) memory_database \<Rightarrow> ('pk, 't) memory_database" where
  "uv_commit v db = fold (\<lambda>(asset, x). db_transfer_available (uv_main v) asset x) (available_buffer v) db"

definition uv_unwind :: "user_account_view \<Rightarrow> ('pk, 't) memory_database \<Rightarrow> ('pk, 't) memory_database" where
  "uv_unwind v db =
     fold (\<lambda>(asset, x). db_transfer_available (uv_main v) asset (i64 (- x))) (available_side_effects v) db"

section \<open>Creation of accounts\<close>

record seqno_reservation =
  res_account :: uptr
  res_seqno :: nat

record 'pk account_creation_view =
  new_accounts :: "(account_id \<times> 'pk user_account) list"
  temporary_idxs :: "account_id \<rightharpoonup> uptr"
  reservations :: "seqno_reservation list"

definition acv_init :: "'pk account_creation_view" where
  "acv_init = \<lparr>new_accounts = [], temporary_idxs = Map.empty, reservations = []\<rparr>"

text \<open>The place of the \<open>n\<close>-th created account in the list.\<close>

definition new_pos :: "nat \<Rightarrow> 'pk account_creation_view \<Rightarrow> nat" where
  "new_pos n acv = length (new_accounts acv) - Suc n"

definition acv_modify_new ::
  "nat \<Rightarrow> ('pk user_account \<Rightarrow> 'pk user_account) \<Rightarrow> 'pk account_creation_view \<Rightarrow> 'pk account_creation_view" where
  "acv_modify_new n f acv =
     acv\<lparr>new_accounts := upd_at (new_accounts acv) (new_pos n acv) (\<lambda>(own, a). (own, f a))\<rparr>"

definition acv_new_account :: "nat \<Rightarrow> 'pk account_creation_view \<Rightarrow> 'pk user_account" where
  "acv_new_account n acv = snd (new_accounts acv ! new_pos n acv)"

definition acv_lookup_user ::
  "account_id \<Rightarrow> 'pk account_creation_view \<Rightarrow> ('pk, 't) memory_database \<Rightarrow> uptr option" where
  "acv_lookup_user account acv db =
     (case db_lookup_user account db of
        Some idx \<Rightarrow> Some (DbPtr idx)
      | None \<Rightarrow> temporary_idxs acv account)"

definition acv_create_new_account ::
  "account_id \<Rightarrow> 'pk \<Rightarrow> 'pk account_creation_view \<Rightarrow> ('pk, 't) memory_database
     \<Rightarrow> (tx_status \<times> uptr option) \<times> 'pk account_creation_view \<times> ('pk, 't) memory_database" where
  "acv_create_new_account account key acv db =
     (let (status, db') = reserve_account_creation account db
      in if status \<noteq> SUCCESS then ((status, None), acv, db')
         else (let out = NewPtr (length (new_accounts acv))
               in ((SUCCESS, Some out),
                   acv\<lparr>new_accounts := (account, new_account account key) # new_accounts acv,
                       temporary_idxs := (if temporary_idxs acv account = None
                          then (temporary_idxs acv)(account \<mapsto> out) else temporary_idxs acv)\<rparr>,
                   db')))"

definition acv_reserve_sequence_number ::
  "uptr \<Rightarrow> nat \<Rightarrow> 'pk account_creation_view \<Rightarrow> ('pk, 't) memory_database
     \<Rightarrow> tx_status \<times> 'pk account_creation_view \<times> ('pk, 't) memory_database" where
  "acv_reserve_sequence_number ptr sn acv db =
     (let (status, acv1, db1) =
            (case ptr of
               DbPtr idx \<Rightarrow> (let (st, db') = db_reserve_sequence_number idx sn db in (st, acv, db'))
             | NewPtr n \<Rightarrow> (let (st, a) = ua_reserve_sequence_number sn (acv_new_account n acv)
                            in (st, acv_modify_new n (\<lambda>_. a) acv, db)))
      in (status,
          (if status = SUCCESS
           then acv1\<lparr>reservations := reservations acv1 @ [\<lparr>res_account = ptr, res_seqno = sn\<rparr>]\<rparr> else acv1),
          db1))"

definition acv_commit ::
  "'pk account_creation_view \<Rightarrow> ('pk, 't) memory_database \<Rightarrow> ('pk, 't) memory_database" where
  "acv_commit acv db =
     (let db1 = fold (\<lambda>(own, a). commit_account_creation own a) (new_accounts acv) db
      in fold (\<lambda>r db. case res_account r of
                        DbPtr idx \<Rightarrow> db_commit_sequence_number idx (res_seqno r) db
                      | NewPtr _ \<Rightarrow> db) (reservations acv) db1)"

fun release_reservations ::
  "seqno_reservation list \<Rightarrow> 'pk account_creation_view \<Rightarrow> ('pk, 't) memory_database
     \<Rightarrow> ('pk, 't) memory_database result" where
  "release_reservations [] acv db = Inr db"
| "release_reservations (r # rs) acv db =
     (case res_account r of
        DbPtr idx \<Rightarrow> bind_result (db_release_sequence_number idx (res_seqno r) db) (release_reservations rs acv)
      | NewPtr n \<Rightarrow> bind_result (ua_release_sequence_number (res_seqno r) (acv_new_account n acv))
          (\<lambda>a. release_reservations rs (acv_modify_new n (\<lambda>_. a) acv) db))"

definition acv_unwind ::
  "'pk account_creation_view \<Rightarrow> ('pk, 't) memory_database \<Rightarrow> ('pk, 't) memory_database result" where
  "acv_unwind acv db =
     release_reservations (reservations acv) acv
       (fold (\<lambda>(own, a). release_account_creation own) (new_accounts acv) db)"

section \<open>Buffered view\<close>

record 'pk buffered_view =
  bv_base :: "'pk account_creation_view"
  bv_accounts :: "(nat \<times> user_account_view) list"

definition bv_init :: "'pk buffered_view" where
  "bv_init = \<lparr>bv_base = acv_init, bv_accounts = []\<rparr>"

definition bv_get_existing_account :: "nat \<Rightarrow> 'pk buffered_view \<Rightarrow> user_account_view" where
  "bv_get_existing_account idx bv =
     (case map_of (bv_accounts bv) idx of Some v \<Rightarrow> v | None \<Rightarrow> uv_init idx)"

definition bv_put_account :: "nat \<Rightarrow> user_account_view \<Rightarrow> 'pk buffered_view \<Rightarrow> 'pk buffered_view" where
  "bv_put_account idx v bv = bv\<lparr>bv_accounts := AList.update idx v (bv_accounts bv)\<rparr>"

text \<open>A call on an account created in the view goes to that account directly.\<close>

definition bv_on_new ::
  "nat \<Rightarrow> ('pk user_account \<Rightarrow> bool \<times> 'pk user_account) \<Rightarrow> 'pk buffered_view \<Rightarrow> tx_status \<times> 'pk buffered_view" where
  "bv_on_new n f bv =
     (let (res, a) = f (acv_new_account n (bv_base bv))
      in (if res then SUCCESS else INSUFFICIENT_BALANCE,
          bv\<lparr>bv_base := acv_modify_new n (\<lambda>_. a) (bv_base bv)\<rparr>))"

definition bv_escrow ::
  "uptr \<Rightarrow> asset_id \<Rightarrow> int \<Rightarrow> 'pk buffered_view \<Rightarrow> ('pk, 't) memory_database
     \<Rightarrow> tx_status \<times> 'pk buffered_view \<times> ('pk, 't) memory_database" where
  "bv_escrow ptr asset amt bv db =
     (case ptr of
        NewPtr n \<Rightarrow> (let (st, bv') = bv_on_new n (ua_conditional_escrow asset amt) bv in (st, bv', db))
      | DbPtr idx \<Rightarrow>
          (let (st, v, db') = uv_conditional_escrow asset amt (bv_get_existing_account idx bv) db
           in (st, bv_put_account idx v bv, db')))"

definition bv_transfer_available ::
  "uptr \<Rightarrow> asset_id \<Rightarrow> int \<Rightarrow> 'pk buffered_view \<Rightarrow> ('pk, 't) memory_database
     \<Rightarrow> tx_status \<times> 'pk buffered_view \<times> ('pk, 't) memory_database" where
  "bv_transfer_available ptr asset amt bv db =
     (case ptr of
        NewPtr n \<Rightarrow> (let (st, bv') = bv_on_new n (ua_conditional_transfer_available asset amt) bv in (st, bv', db))
      | DbPtr idx \<Rightarrow>
          (let (st, v, db') = uv_transfer_available asset amt (bv_get_existing_account idx bv) db
           in (st, bv_put_account idx v bv, db')))"

definition bv_lookup_user ::
  "account_id \<Rightarrow> 'pk buffered_view \<Rightarrow> ('pk, 't) memory_database \<Rightarrow> uptr option" where
  "bv_lookup_user account bv db = acv_lookup_user account (bv_base bv) db"

definition bv_create_new_account ::
  "account_id \<Rightarrow> 'pk \<Rightarrow> 'pk buffered_view \<Rightarrow> ('pk, 't) memory_database
     \<Rightarrow> (tx_status \<times> uptr option) \<times> 'pk buffered_view \<times> ('pk, 't) memory_database" where
  "bv_create_new_account account key bv db =
     (let (r, acv, db') = acv_create_new_account account key (bv_base bv) db
      in (r, bv\<lparr>bv_base := acv\<rparr>, db'))"

definition bv_reserve_sequence_number ::
  "uptr \<Rightarrow> nat \<Rightarrow> 'pk buffered_view \<Rightarrow> ('pk, 't) memory_database
     \<Rightarrow> tx_status \<times> 'pk buffered_view \<times> ('pk, 't) memory_database" where
  "bv_reserve_sequence_number ptr sn bv db =
     (let (st, acv, db') = acv_reserve_sequence_number ptr sn (bv_base bv) db
      in (st, bv\<lparr>bv_base := acv\<rparr>, db'))"

definition bv_commit :: "'pk buffered_view \<Rightarrow> ('pk, 't) memory_database \<Rightarrow> ('pk, 't) memory_database" where
  "bv_commit bv db = acv_commit (bv_base bv) (fold (\<lambda>(_, v). uv_commit v) (bv_accounts bv) db)"

definition bv_unwind ::
  "'pk buffered_view \<Rightarrow> ('pk, 't) memory_database \<Rightarrow> ('pk, 't) memory_database result" where
  "bv_unwind bv db = acv_unwind (bv_base bv) (fold (\<lambda>(_, v). uv_unwind v) (bv_accounts bv) db)"

section \<open>Unbuffered view\<close>

definition ub_escrow ::
  "uptr \<Rightarrow> asset_id \<Rightarrow> int \<Rightarrow> 'pk account_creation_view \<Rightarrow> ('pk, 't) memory_database
     \<Rightarrow> tx_status \<times> 'pk account_creation_view \<times> ('pk, 't) memory_database" where
  "ub_escrow ptr asset amt acv db =
     (case ptr of
        DbPtr idx \<Rightarrow> (SUCCESS, acv, db_escrow idx asset amt db)
      | NewPtr n \<Rightarrow> (SUCCESS, acv_modify_new n (ua_escrow asset amt) acv, db))"

definition ub_transfer_available ::
  "uptr \<Rightarrow> asset_id \<Rightarrow> int \<Rightarrow> 'pk account_creation_view \<Rightarrow> ('pk, 't) memory_database
     \<Rightarrow> tx_status \<times> 'pk account_creation_view \<times> ('pk, 't) memory_database" where
  "ub_transfer_available ptr asset amt acv db =
     (case ptr of
        DbPtr idx \<Rightarrow> (SUCCESS, acv, db_transfer_available idx asset amt db)
      | NewPtr n \<Rightarrow> (SUCCESS, acv_modify_new n (ua_transfer_available asset amt) acv, db))"

section \<open>View used when a block is replayed from disk\<close>

text \<open>\<open>persisted\<close> gives the round up to which an account has been persisted.\<close>

definition lv_do_action ::
  "(account_id \<Rightarrow> nat) \<Rightarrow> nat \<Rightarrow> account_id \<Rightarrow> bool" where
  "lv_do_action persisted current_block_number own \<longleftrightarrow> persisted own < current_block_number"

definition ptr_owner :: "uptr \<Rightarrow> 'pk account_creation_view \<Rightarrow> ('pk, 't) memory_database \<Rightarrow> account_id" where
  "ptr_owner ptr acv db =
     (case ptr of DbPtr idx \<Rightarrow> acct_owner (db_account idx db) | NewPtr n \<Rightarrow> acct_owner (acv_new_account n acv))"

definition lv_escrow ::
  "(account_id \<Rightarrow> nat) \<Rightarrow> nat \<Rightarrow> uptr \<Rightarrow> asset_id \<Rightarrow> int \<Rightarrow> 'pk account_creation_view \<Rightarrow> ('pk, 't) memory_database
     \<Rightarrow> tx_status \<times> 'pk account_creation_view \<times> ('pk, 't) memory_database" where
  "lv_escrow persisted blk ptr asset amt acv db =
     (if lv_do_action persisted blk (ptr_owner ptr acv db) then ub_escrow ptr asset amt acv db
      else (SUCCESS, acv, db))"

definition lv_transfer_available ::
  "(account_id \<Rightarrow> nat) \<Rightarrow> nat \<Rightarrow> uptr \<Rightarrow> asset_id \<Rightarrow> int \<Rightarrow> 'pk account_creation_view \<Rightarrow> ('pk, 't) memory_database
     \<Rightarrow> tx_status \<times> 'pk account_creation_view \<times> ('pk, 't) memory_database" where
  "lv_transfer_available persisted blk ptr asset amt acv db =
     (if lv_do_action persisted blk (ptr_owner ptr acv db) then ub_transfer_available ptr asset amt acv db
      else (SUCCESS, acv, db))"

definition lv_create_new_account ::
  "(account_id \<Rightarrow> nat) \<Rightarrow> nat \<Rightarrow> account_id \<Rightarrow> 'pk \<Rightarrow> 'pk account_creation_view \<Rightarrow> ('pk, 't) memory_database
     \<Rightarrow> (tx_status \<times> uptr option) \<times> 'pk account_creation_view \<times> ('pk, 't) memory_database" where
  "lv_create_new_account persisted blk account key acv db =
     (if persisted account < blk then acv_create_new_account account key acv db
      else ((SUCCESS, acv_lookup_user account acv db), acv, db))"

definition lv_reserve_sequence_number ::
  "(account_id \<Rightarrow> nat) \<Rightarrow> nat \<Rightarrow> uptr \<Rightarrow> nat \<Rightarrow> 'pk account_creation_view \<Rightarrow> ('pk, 't) memory_database
     \<Rightarrow> tx_status \<times> 'pk account_creation_view \<times> ('pk, 't) memory_database" where
  "lv_reserve_sequence_number persisted blk ptr sn acv db =
     (if lv_do_action persisted blk (ptr_owner ptr acv db) then acv_reserve_sequence_number ptr sn acv db
      else (SUCCESS, acv, db))"

section \<open>Writing through pointers\<close>

lemma am_get_update [simp]: "am_get j (AList.update k x am) = (if j = k then x else am_get j am)"
  by (simp add: am_get_def update_conv')

lemma am_get_touch [simp]: "am_get j (am_touch k am) = am_get j am"
  by (simp add: am_touch_def)

lemma am_distinct [simp]:
  "distinct (map fst am) \<Longrightarrow> distinct (map fst (AList.update k x am))"
  "distinct (map fst am) \<Longrightarrow> distinct (map fst (am_touch k am))"
  by (simp_all add: am_touch_def distinct_update)

lemma am_get_Nil [simp]: "am_get k [] = 0"
  by (simp add: am_get_def)

lemma db_modify_modify: "db_modify i g (db_modify i f db) = db_modify i (g \<circ> f) db"
  by (simp add: db_modify_def av_modify_def Let_def upd_at_upd_at comp_def)

lemma db_modify_id: "db_modify i (\<lambda>a. a) db = db"
  by (simp add: db_modify_def av_modify_def Let_def upd_at_def)

lemma fold_db_modify: "fold (\<lambda>x. db_modify i (f x)) xs db = db_modify i (fold f xs) db"
proof (induction xs arbitrary: db)
  case Nil
  show ?case by (simp add: db_modify_id id_def)
next
  case (Cons x xs)
  then show ?case by (simp add: db_modify_modify comp_def)
qed

lemma db_account_modify:
  assumes "db_wf db" "i < length (contents db)" "j < length (contents db)"
  shows "db_account j (db_modify i f db) = (if j = i then f (db_account i db) else db_account j db)"
proof -
  have "length (contents (db_modify i f db)) = length (contents db)"
    using db_modify_contents(1) [OF assms(1,2), of f] by simp
  then have "db_account j (db_modify i f db) = (contents db)[i := f (contents db ! i)] ! j"
    using db_modify_contents(1) [OF assms(1,2), of f] assms(3) by (simp add: db_account_nth)
  then show ?thesis using assms by (simp add: db_account_nth nth_list_update)
qed

lemma db_modify_cong:
  assumes "db_wf db" "i < length (contents db)" "f (db_account i db) = g (db_account i db)"
  shows "db_modify i f db = db_modify i g db"
  using assms(3) by (simp add: db_modify_def av_modify_def Let_def upd_at_def db_account_def)

text \<open>The parts of a database that account operations do not touch.\<close>

definition db_frame :: "('pk, 't) memory_database \<Rightarrow>
    (account_id \<rightharpoonup> nat) \<times> 'pk user_account list \<times> 't \<times> account_creation_thunk list \<times> nat" where
  "db_frame db = (user_id_to_idx_map db, uncommitted_db db, commitment_trie db,
     account_creation_thunks db, length (contents db))"

lemma db_frame_modify [simp]:
  "db_frame (db_modify i f db) = db_frame db" "reserved_account_ids (db_modify i f db) = reserved_account_ids db"
  by (simp_all add: db_frame_def db_modify_def av_modify_def Let_def)

lemma db_frame_length: "db_frame db = db_frame db' \<Longrightarrow> length (contents db) = length (contents db')"
  by (simp add: db_frame_def)

section \<open>Accounts as ledgers\<close>

text \<open>What every balance operation of an account preserves.\<close>

definition fixed_part :: "'pk user_account \<Rightarrow> (int list \<times> nat \<times> account_id \<times> 'pk) \<times> u64_tracker" where
  "fixed_part a = (committed_part a, seq_tracker a)"

definition in_range :: "'pk user_account \<Rightarrow> bool" where
  "in_range a \<longleftrightarrow> (\<forall>k. in_i64 (balance a k))"

lemma fixed_part_operate:
  "(\<And>x. committed_available (snd (f x)) = committed_available x) \<Longrightarrow>
   fixed_part (snd (operate_on_asset k f a)) = fixed_part a"
  by (simp add: fixed_part_def committed_part_operate)

lemma fixed_part_ops [simp]:
  "fixed_part (ua_transfer_available k x a) = fixed_part a"
  "fixed_part (ua_escrow k x a) = fixed_part a"
  "fixed_part (snd (ua_conditional_transfer_available k x a)) = fixed_part a"
  "fixed_part (snd (ua_conditional_escrow k x a)) = fixed_part a"
  by (simp_all add: ua_transfer_available_def ua_escrow_def ua_conditional_transfer_available_def
      ua_conditional_escrow_def fixed_part_operate)

lemma fixed_part_owner: "fixed_part a = fixed_part b \<Longrightarrow> acct_owner a = acct_owner b"
  by (simp add: fixed_part_def committed_part_def)

lemma fixed_part_fold:
  "(\<And>x a. x \<in> set xs \<Longrightarrow> fixed_part (f x a) = fixed_part a) \<Longrightarrow> fixed_part (fold f xs a) = fixed_part a"
  by (induction xs arbitrary: a) simp_all

text \<open>A withdrawal either leaves the account as it was or takes exactly the amount.\<close>

lemma conditional_transfer_neg:
  assumes "x < 0"
  shows "fst (ua_conditional_transfer_available k x a) \<longleftrightarrow> in_i64 (balance a k + x) \<and> 0 \<le> balance a k + x"
    and "balance (snd (ua_conditional_transfer_available k x a)) j =
      balance a j + (if fst (ua_conditional_transfer_available k x a) \<and> j = k then x else 0)"
proof -
  have f: "fst (ra_conditional_transfer_available x y) \<longleftrightarrow> in_i64 (available y + x) \<and> 0 \<le> available y + x"
    "available (snd (ra_conditional_transfer_available x y)) =
       available y + (if fst (ra_conditional_transfer_available x y) then x else 0)" for y
    using assms by (auto simp: ra_conditional_transfer_available_def cas_target_def Let_def)
  show "fst (ua_conditional_transfer_available k x a) \<longleftrightarrow> in_i64 (balance a k + x) \<and> 0 \<le> balance a k + x"
    by (simp add: ua_conditional_transfer_available_def all_assets_operate(2) f(1) grow_nth)
  show "balance (snd (ua_conditional_transfer_available k x a)) j =
      balance a j + (if fst (ua_conditional_transfer_available k x a) \<and> j = k then x else 0)"
    by (simp add: ua_conditional_transfer_available_def all_assets_operate(2) balance_operate f grow_nth)
qed

lemma conditional_escrow_neg:
  assumes "x < 0" "in_i64 x" "in_i64 (balance a k)"
  shows "fst (ua_conditional_escrow k (i64 (- x)) a) = fst (ua_conditional_transfer_available k x a)"
    and "balance (snd (ua_conditional_escrow k (i64 (- x)) a)) j =
      balance (snd (ua_conditional_transfer_available k x a)) j"
proof -
  have same: "fst (ra_conditional_escrow (i64 (- x)) y) = fst (ra_conditional_transfer_available x y)
      \<and> available (snd (ra_conditional_escrow (i64 (- x)) y)) = available (snd (ra_conditional_transfer_available x y))"
    if "in_i64 (available y)" for y
  proof (cases "x = INT64_MIN")
    case True
    then show ?thesis
      using that by (auto simp: ra_conditional_escrow_def ra_conditional_transfer_available_def
          cas_target_def Let_def i64_def in_i64_def)
  next
    case False
    then have "i64 (- x) = - x" using assms(2) by (simp add: in_i64_minus)
    then show ?thesis using assms False by (auto simp: ra_conditional_escrow_def in_i64_def)
  qed
  have "in_i64 (available (grow_to k (all_assets a) ! k))" using assms(3) by (simp add: grow_nth)
  note same = same [OF this]
  show "fst (ua_conditional_escrow k (i64 (- x)) a) = fst (ua_conditional_transfer_available k x a)"
    using same by (simp add: ua_conditional_escrow_def ua_conditional_transfer_available_def all_assets_operate(2))
  show "balance (snd (ua_conditional_escrow k (i64 (- x)) a)) j =
      balance (snd (ua_conditional_transfer_available k x a)) j"
    using same by (simp add: ua_conditional_escrow_def ua_conditional_transfer_available_def balance_operate)
qed

lemma fold_transfers_balance:
  assumes "distinct (map fst am)" "in_range a"
  shows "balance (fold (\<lambda>(k, x). ua_transfer_available k (g x)) am a) j =
    (case map_of am j of None \<Rightarrow> balance a j | Some x \<Rightarrow> i64 (balance a j + g x))"
  using assms
proof (induction am arbitrary: a)
  case Nil
  then show ?case by simp
next
  case (Cons p am)
  obtain k x where p: "p = (k, x)" by fastforce
  have "in_range (ua_transfer_available k (g x) a)"
    using Cons.prems(2) by (simp add: in_range_def balance_transfer)
  moreover have "map_of am k = None" using Cons.prems(1) p by (simp add: map_of_eq_None_iff)
  ultimately show ?case using Cons p by (auto simp: balance_transfer split: option.splits)
qed

section \<open>One call on one account\<close>

definition uv_wf :: "nat \<Rightarrow> user_account_view \<Rightarrow> bool" where
  "uv_wf i v \<longleftrightarrow> uv_main v = i \<and> distinct (map fst (available_buffer v))
     \<and> distinct (map fst (available_side_effects v))"

abbreviation vbuf :: "user_account_view \<Rightarrow> asset_id \<Rightarrow> int" where
  "vbuf v k \<equiv> am_get k (available_buffer v)"

abbreviation vside :: "user_account_view \<Rightarrow> asset_id \<Rightarrow> int" where
  "vside v k \<equiv> am_get k (available_side_effects v)"

text \<open>
  A call takes some amount \<open>d\<close> (none or a covered withdrawal) out of the account, records it, and
  moves buffer plus record by the effect \<open>eff\<close> of the call if it succeeds.
\<close>

definition ledger_step ::
  "nat \<Rightarrow> asset_id \<Rightarrow> int \<Rightarrow> user_account_view \<Rightarrow> ('pk, 't) memory_database
     \<Rightarrow> tx_status \<times> user_account_view \<times> ('pk, 't) memory_database \<Rightarrow> bool" where
  "ledger_step i k eff v db r \<longleftrightarrow> (case r of (st, v', db') \<Rightarrow>
     uv_wf i v' \<and> (\<exists>a' d. db' = db_modify i (\<lambda>_. a') db
       \<and> fixed_part a' = fixed_part (db_account i db)
       \<and> (\<forall>j. balance a' j = balance (db_account i db) j + (if j = k then d else 0))
       \<and> (d \<noteq> 0 \<longrightarrow> d < 0 \<and> 0 \<le> balance (db_account i db) k + d)
       \<and> (\<forall>j. i64 (vside v' j) = i64 (vside v j + (if j = k then d else 0)))
       \<and> (\<forall>j. i64 (vbuf v' j + vside v' j) =
              i64 (vbuf v j + vside v j + (if st = SUCCESS \<and> j = k then eff else 0)))))"

lemma db_modify_same:
  assumes "db_wf db" "i < length (contents db)"
  shows "db_modify i (\<lambda>_. db_account i db) db = db"
  using db_modify_cong [OF assms, of "\<lambda>_. db_account i db" "\<lambda>a. a"] by (simp add: db_modify_id)

lemma ledger_step_idle:
  assumes "db_wf db" "i < length (contents db)" "uv_wf i v'"
    "\<And>j. i64 (vside v' j) = i64 (vside v j)"
    "\<And>j. i64 (vbuf v' j + vside v' j) = i64 (vbuf v j + vside v j + (if st = SUCCESS \<and> j = k then eff else 0))"
  shows "ledger_step i k eff v db (st, v', db)"
  using assms db_modify_same [OF assms(1,2)] unfolding ledger_step_def
  by (auto intro!: exI [of _ "db_account i db"] exI [of _ "0 :: int"])

lemma ledger_step_take:
  assumes wf: "db_wf db" "i < length (contents db)" "uv_wf i v"
    and a': "fixed_part a' = fixed_part (db_account i db)"
      "\<And>j. balance a' j = balance (db_account i db) j + (if res \<and> j = k then x else 0)"
    and x: "x < 0" "res \<longrightarrow> 0 \<le> balance (db_account i db) k + x" "x = i64 (vbuf v k + eff)"
    and v1: "v1 = v\<lparr>available_buffer := am_touch k (available_buffer v)\<rparr>"
  shows "ledger_step i k eff v db
    (if \<not> res then (INSUFFICIENT_BALANCE, v1, db_modify i (\<lambda>_. a') db)
     else (SUCCESS, uv_set_buffer k 0 (uv_add_side_effect k x v1), db_modify i (\<lambda>_. a') db))"
proof (cases res)
  case True
  then show ?thesis
    using wf a' x(1,2) unfolding x(3) v1 ledger_step_def
    by (auto simp: uv_wf_def uv_set_buffer_def uv_add_side_effect_def algebra_simps
        intro!: exI [of _ a'] exI [of _ "i64 (vbuf v k + eff)"])
next
  case False
  then show ?thesis
    using wf a' unfolding v1 ledger_step_def
    by (auto simp: uv_wf_def intro!: exI [of _ a'] exI [of _ "0 :: int"])
qed

lemma uv_transfer_step:
  assumes "db_wf db" "i < length (contents db)" "uv_wf i v"
  shows "ledger_step i k amt v db (uv_transfer_available k amt v db)"
proof (cases "i64 (vbuf v k + amt) < 0")
  case True
  let ?x = "i64 (vbuf v k + amt)" and ?a = "db_account i db"
  let ?r = "ua_conditional_transfer_available k ?x ?a"
  have "uv_transfer_available k amt v db =
      (if \<not> fst ?r then (INSUFFICIENT_BALANCE, v\<lparr>available_buffer := am_touch k (available_buffer v)\<rparr>,
          db_modify i (\<lambda>_. snd ?r) db)
       else (SUCCESS, uv_set_buffer k 0 (uv_add_side_effect k ?x (v\<lparr>available_buffer := am_touch k (available_buffer v)\<rparr>)),
          db_modify i (\<lambda>_. snd ?r) db))"
    using True assms(3)
    by (simp add: uv_transfer_available_def db_conditional_transfer_available_def Let_def uv_wf_def
        split: prod.split)
  also have "ledger_step i k amt v db \<dots>"
    using assms conditional_transfer_neg [OF True, of k ?a] True by (intro ledger_step_take) auto
  finally show ?thesis .
next
  case False
  then show ?thesis
    using assms by (auto simp: uv_transfer_available_def Let_def uv_wf_def uv_set_buffer_def algebra_simps
        intro!: ledger_step_idle)
qed

lemma uv_escrow_step:
  assumes "db_wf db" "i < length (contents db)" "uv_wf i v" "in_range (db_account i db)"
  shows "ledger_step i k (- amt) v db (uv_conditional_escrow k amt v db)"
proof -
  consider "amt < 0" | "0 \<le> amt" "i64 (vbuf v k - amt) < 0" | "0 \<le> amt" "\<not> i64 (vbuf v k - amt) < 0" by linarith
  then show ?thesis
  proof cases
    case 2
    let ?x = "i64 (vbuf v k - amt)" and ?a = "db_account i db"
    let ?r = "ua_conditional_escrow k (i64 (- ?x)) ?a"
    have "uv_conditional_escrow k amt v db =
        (if \<not> fst ?r then (INSUFFICIENT_BALANCE, v\<lparr>available_buffer := am_touch k (available_buffer v)\<rparr>,
            db_modify i (\<lambda>_. snd ?r) db)
         else (SUCCESS, uv_set_buffer k 0 (uv_add_side_effect k ?x (v\<lparr>available_buffer := am_touch k (available_buffer v)\<rparr>)),
            db_modify i (\<lambda>_. snd ?r) db))"
      using 2 assms(3)
      by (simp add: uv_conditional_escrow_def db_conditional_escrow_def Let_def uv_wf_def
          split: prod.split del: i64_minus_i64)
    also have "ledger_step i k (- amt) v db \<dots>"
    proof (rule ledger_step_take [OF assms(1-3)])
      show "fixed_part (snd ?r) = fixed_part ?a" by simp
      have c: "fst ?r = fst (ua_conditional_transfer_available k ?x ?a)"
        "balance (snd ?r) j = balance (snd (ua_conditional_transfer_available k ?x ?a)) j" for j
        using conditional_escrow_neg [of ?x ?a k] 2 assms(4) by (simp_all add: in_range_def del: i64_minus_i64)
      show "balance (snd ?r) j = balance ?a j + (if fst ?r \<and> j = k then ?x else 0)" for j
        unfolding c using conditional_transfer_neg(2) [OF 2(2)] by blast
      show "fst ?r \<longrightarrow> 0 \<le> balance ?a k + ?x"
        unfolding c using conditional_transfer_neg(1) [OF 2(2)] by blast
    qed (use 2 in auto)
    finally show ?thesis .
  qed (use assms in \<open>auto simp: uv_conditional_escrow_def Let_def uv_wf_def uv_set_buffer_def algebra_simps
      intro!: ledger_step_idle\<close>)
qed

section \<open>Any sequence of calls\<close>

datatype 'pk view_call =
    VEscrow uptr asset_id int
  | VTransfer uptr asset_id int
  | VCreate account_id 'pk
  | VReserve nat nat

fun do_call ::
  "'pk view_call \<Rightarrow> 'pk buffered_view \<Rightarrow> ('pk, 't) memory_database
     \<Rightarrow> tx_status \<times> 'pk buffered_view \<times> ('pk, 't) memory_database" where
  "do_call (VEscrow ptr k amt) bv db = bv_escrow ptr k amt bv db"
| "do_call (VTransfer ptr k amt) bv db = bv_transfer_available ptr k amt bv db"
| "do_call (VCreate own key) bv db =
     (let ((st, _), bv', db') = bv_create_new_account own key bv db in (st, bv', db'))"
| "do_call (VReserve i sn) bv db = bv_reserve_sequence_number (DbPtr i) sn bv db"

text \<open>What a call that returned \<open>st\<close> adds to balance \<open>k\<close> of account \<open>i\<close>.\<close>

fun call_effect :: "'pk view_call \<Rightarrow> tx_status \<Rightarrow> nat \<Rightarrow> asset_id \<Rightarrow> int" where
  "call_effect (VEscrow (DbPtr i) k amt) st j l = (if st = SUCCESS \<and> j = i \<and> l = k then - amt else 0)"
| "call_effect (VTransfer (DbPtr i) k amt) st j l = (if st = SUCCESS \<and> j = i \<and> l = k then amt else 0)"
| "call_effect _ st j l = 0"

fun run_calls ::
  "'pk view_call list \<Rightarrow> 'pk buffered_view \<Rightarrow> ('pk, 't) memory_database
     \<Rightarrow> 'pk buffered_view \<times> ('pk, 't) memory_database" where
  "run_calls [] bv db = (bv, db)"
| "run_calls (c # cs) bv db = (let (_, bv', db') = do_call c bv db in run_calls cs bv' db')"

fun effects ::
  "'pk view_call list \<Rightarrow> 'pk buffered_view \<Rightarrow> ('pk, 't) memory_database \<Rightarrow> nat \<Rightarrow> asset_id \<Rightarrow> int" where
  "effects [] bv db i k = 0"
| "effects (c # cs) bv db i k =
     (let (st, bv', db') = do_call c bv db in call_effect c st i k + effects cs bv' db' i k)"

fun call_ok :: "nat \<Rightarrow> 'pk view_call \<Rightarrow> bool" where
  "call_ok n (VEscrow ptr k amt) = (case ptr of DbPtr i \<Rightarrow> i < n | NewPtr _ \<Rightarrow> True)"
| "call_ok n (VTransfer ptr k amt) = (case ptr of DbPtr i \<Rightarrow> i < n | NewPtr _ \<Rightarrow> True)"
| "call_ok n (VCreate own key) = True"
| "call_ok n (VReserve i sn) = (i < n \<and> sn < 2 ^ 64)"

abbreviation view_of :: "'pk buffered_view \<Rightarrow> nat \<Rightarrow> user_account_view" where
  "view_of bv i \<equiv> bv_get_existing_account i bv"

abbreviation tracker_of :: "('pk, 't) memory_database \<Rightarrow> nat \<Rightarrow> u64_tracker" where
  "tracker_of db i \<equiv> seq_tracker (db_account i db)"

text \<open>Databases on which a block starts: balances in range, trackers well-formed.\<close>

definition db_ok :: "('pk, 't) memory_database \<Rightarrow> bool" where
  "db_ok db \<longleftrightarrow> db_wf db \<and> (\<forall>i < length (contents db). in_range (db_account i db) \<and> ut_wf (tracker_of db i))"

definition res_idx :: "seqno_reservation \<Rightarrow> nat" where
  "res_idx r = (case res_account r of DbPtr i \<Rightarrow> i | NewPtr n \<Rightarrow> n)"

definition res_slot :: "('pk, 't) memory_database \<Rightarrow> seqno_reservation \<Rightarrow> nat" where
  "res_slot db r = slot (last_committed_id (tracker_of db (res_idx r))) (res_seqno r)"

definition res_ok :: "('pk, 't) memory_database \<Rightarrow> seqno_reservation \<Rightarrow> bool" where
  "res_ok db r \<longleftrightarrow> res_account r = DbPtr (res_idx r) \<and> res_idx r < length (contents db)
     \<and> res_seqno r < 2 ^ 64 \<and> last_committed_id (tracker_of db (res_idx r)) < res_seqno r
     \<and> 0 < res_slot db r \<and> res_slot db r \<le> 64"

definition held_slots :: "('pk, 't) memory_database \<Rightarrow> seqno_reservation list \<Rightarrow> nat \<Rightarrow> nat set" where
  "held_slots db rs i = {res_slot db r - 1 | r. r \<in> set rs \<and> res_idx r = i}"

lemma held_slots_simps:
  "held_slots db [] i = {}"
  "held_slots db (r # rs) i = (if res_idx r = i then insert (res_slot db r - 1) (held_slots db rs i)
     else held_slots db rs i)"
  "held_slots db (rs @ [r]) i = (if res_idx r = i then insert (res_slot db r - 1) (held_slots db rs i)
     else held_slots db rs i)"
  by (auto simp: held_slots_def)

definition seq_inv ::
  "('pk, 't) memory_database \<Rightarrow> seqno_reservation list \<Rightarrow> ('pk, 't) memory_database \<Rightarrow> bool" where
  "seq_inv db0 rs db \<longleftrightarrow> list_all (res_ok db0) rs \<and> distinct (map (\<lambda>r. (res_idx r, res_slot db0 r)) rs)
     \<and> (\<forall>i < length (contents db0). ut_wf (tracker_of db i)
          \<and> ut_used (tracker_of db i) = ut_used (tracker_of db0 i) \<union> held_slots db0 rs i
          \<and> ut_used (tracker_of db0 i) \<inter> held_slots db0 rs i = {})"

definition ledger_inv ::
  "('pk, 't) memory_database \<Rightarrow> (nat \<Rightarrow> asset_id \<Rightarrow> int) \<Rightarrow> 'pk buffered_view \<Rightarrow> ('pk, 't) memory_database \<Rightarrow> bool" where
  "ledger_inv db0 eff bv db \<longleftrightarrow>
     distinct (map fst (bv_accounts bv))
     \<and> (\<forall>i v. (i, v) \<in> set (bv_accounts bv) \<longrightarrow> i < length (contents db0) \<and> uv_wf i v)
     \<and> (\<forall>i < length (contents db0). \<forall>k.
          balance (db_account i db) k = i64 (balance (db_account i db0) k + vside (view_of bv i) k)
          \<and> i64 (vbuf (view_of bv i) k + vside (view_of bv i) k) = i64 (eff i k)
          \<and> (0 \<le> balance (db_account i db0) k \<longrightarrow>
                0 \<le> i64 (balance (db_account i db0) k + vside (view_of bv i) k)))"

definition view_inv ::
  "('pk, 't) memory_database \<Rightarrow> (nat \<Rightarrow> asset_id \<Rightarrow> int) \<Rightarrow> 'pk buffered_view \<Rightarrow> ('pk, 't) memory_database \<Rightarrow> bool" where
  "view_inv db0 eff bv db \<longleftrightarrow> db_wf db \<and> db_frame db = db_frame db0
     \<and> reserved_account_ids db = reserved_account_ids db0 \<union> fst ` set (new_accounts (bv_base bv))
     \<and> reserved_account_ids db0 \<inter> fst ` set (new_accounts (bv_base bv)) = {}
     \<and> (\<forall>i < length (contents db0). committed_part (db_account i db) = committed_part (db_account i db0))
     \<and> ledger_inv db0 eff bv db \<and> seq_inv db0 (reservations (bv_base bv)) db"

lemma view_inv_init:
  assumes "db_ok db"
  shows "view_inv db (\<lambda>_ _. 0) bv_init db"
  using assms unfolding view_inv_def ledger_inv_def seq_inv_def db_ok_def
  by (auto simp: bv_init_def acv_init_def bv_get_existing_account_def uv_init_def held_slots_def in_range_def)

lemma view_of_wf:
  assumes "ledger_inv db0 eff bv db"
  shows "uv_wf i (view_of bv i)"
  using assms
  by (auto simp: ledger_inv_def bv_get_existing_account_def uv_init_def uv_wf_def split: option.split
      dest: map_of_SomeD)

lemma view_of_put: "view_of (bv_put_account i v bv) j = (if j = i then v else view_of bv j)"
  by (simp add: bv_get_existing_account_def bv_put_account_def update_conv')

lemma set_update_subset: "set (AList.update k v al) \<subseteq> insert (k, v) (set al)"
  by (induction al) auto

text \<open>A ledger step on one account keeps the whole invariant.\<close>

lemma view_inv_ledger_step:
  assumes inv: "view_inv db0 eff bv db" and ok: "db_ok db0" and i: "i < length (contents db0)"
    and step: "ledger_step i k e (view_of bv i) db (st, v', db')"
  shows "view_inv db0 (\<lambda>j l. eff j l + (if st = SUCCESS \<and> j = i \<and> l = k then e else 0))
    (bv_put_account i v' bv) db'"
proof -
  have wf: "db_wf db" "db_frame db = db_frame db0" and led: "ledger_inv db0 eff bv db"
    and seq: "seq_inv db0 (reservations (bv_base bv)) db"
    using inv by (simp_all add: view_inv_def)
  have len: "length (contents db) = length (contents db0)" using wf(2) by (rule db_frame_length)
  then have i': "i < length (contents db)" using i by simp
  obtain a' d where s: "uv_wf i v'" "db' = db_modify i (\<lambda>_. a') db" "fixed_part a' = fixed_part (db_account i db)"
      "\<And>j. balance a' j = balance (db_account i db) j + (if j = k then d else 0)"
      "d \<noteq> 0 \<longrightarrow> d < 0 \<and> 0 \<le> balance (db_account i db) k + d"
      "\<And>j. i64 (vside v' j) = i64 (vside (view_of bv i) j + (if j = k then d else 0))"
      "\<And>j. i64 (vbuf v' j + vside v' j) =
         i64 (vbuf (view_of bv i) j + vside (view_of bv i) j + (if st = SUCCESS \<and> j = k then e else 0))"
    using step unfolding ledger_step_def by blast
  have acc: "db_account j db' = (if j = i then a' else db_account j db)" if "j < length (contents db0)" for j
    using s(2) db_account_modify [OF wf(1) i', of j] that len by simp
  have "db' = db_modify i (\<lambda>a. a\<lparr>owned_assets := owned_assets a', uncommitted_assets := uncommitted_assets a'\<rparr>) db"
    unfolding s(2) using s(3) wf(1) i'
    by (intro db_modify_cong) (cases a', auto simp: fixed_part_def committed_part_def intro!: user_account.equality)
  then have wf': "db_wf db'" using wf(1) i' by (simp add: db_wf_modify)
  have fix': "fixed_part (db_account j db') = fixed_part (db_account j db)" if "j < length (contents db0)" for j
    using acc [OF that] s(3) by simp
  have bal_i: "balance a' l = i64 (balance (db_account i db0) l + vside v' l)" for l
  proof -
    have b: "balance (db_account i db) l = i64 (balance (db_account i db0) l + vside (view_of bv i) l)"
      and "in_i64 (balance (db_account i db) l)"
      using led i unfolding ledger_inv_def by auto
    moreover have "in_i64 (balance a' l)"
      using s(4) [of l] s(5) calculation(2) by (auto simp: in_i64_def split: if_splits)
    ultimately show ?thesis
      using s(4) [of l] s(6) [of l] by (metis add.assoc i64_add_left i64_add_right i64_id)
  qed
  have "ledger_inv db0 (\<lambda>j l. eff j l + (if st = SUCCESS \<and> j = i \<and> l = k then e else 0)) (bv_put_account i v' bv) db'"
    unfolding ledger_inv_def
  proof (intro conjI allI impI)
    show "distinct (map fst (bv_accounts (bv_put_account i v' bv)))"
      using led by (simp add: ledger_inv_def bv_put_account_def distinct_update)
  next
    fix j v assume "(j, v) \<in> set (bv_accounts (bv_put_account i v' bv))"
    then have "(j, v) \<in> insert (i, v') (set (bv_accounts bv))"
      using set_update_subset by (fastforce simp: bv_put_account_def)
    then show "j < length (contents db0)" "uv_wf j v" using led i s(1) by (auto simp: ledger_inv_def)
  next
    fix j l assume j: "j < length (contents db0)"
    show bal: "balance (db_account j db') l = i64 (balance (db_account j db0) l + vside (view_of (bv_put_account i v' bv) j) l)"
      using acc [OF j] bal_i led j by (simp add: view_of_put ledger_inv_def)
    have old: "i64 (vbuf (view_of bv j) l + vside (view_of bv j) l) = i64 (eff j l)"
      using led j by (simp add: ledger_inv_def)
    show "i64 (vbuf (view_of (bv_put_account i v' bv) j) l + vside (view_of (bv_put_account i v' bv) j) l)
        = i64 (eff j l + (if st = SUCCESS \<and> j = i \<and> l = k then e else 0))"
      using s(7) [of l] i64_add_cong [OF old, of "if st = SUCCESS \<and> j = i \<and> l = k then e else 0"] old
      by (cases "j = i") (simp_all add: view_of_put)
    assume "0 \<le> balance (db_account j db0) l"
    then have "0 \<le> balance (db_account j db) l" using led j by (simp add: ledger_inv_def)
    then have "0 \<le> balance (db_account j db') l" using acc [OF j] s(4) [of l] s(5) by (auto split: if_splits)
    then show "0 \<le> i64 (balance (db_account j db0) l + vside (view_of (bv_put_account i v' bv) j) l)"
      unfolding bal .
  qed
  moreover have "seq_inv db0 (reservations (bv_base (bv_put_account i v' bv))) db'"
    using seq fix' by (simp add: seq_inv_def bv_put_account_def fixed_part_def)
  ultimately show ?thesis
    using inv wf' fix' unfolding view_inv_def by (simp add: bv_put_account_def s(2) fixed_part_def)
qed

lemma view_inv_base:
  assumes "view_inv db0 eff bv db" "reservations acv = reservations (bv_base bv)"
    "fst ` set (new_accounts acv) = fst ` set (new_accounts (bv_base bv))"
  shows "view_inv db0 eff (bv\<lparr>bv_base := acv\<rparr>) db"
  using assms by (simp add: view_inv_def ledger_inv_def bv_get_existing_account_def)

lemma acv_modify_new_keys:
  "fst ` set (new_accounts (acv_modify_new n f acv)) = fst ` set (new_accounts acv)"
  "reservations (acv_modify_new n f acv) = reservations acv"
proof -
  have "map fst (upd_at xs p (\<lambda>(own, a). (own, f a))) = map fst xs" for xs :: "(account_id \<times> 'a user_account) list" and p
    by (cases "p < length xs")
      (simp_all add: upd_at_def map_update case_prod_unfold list_update_beyond list_update_same_conv)
  then have "map fst (new_accounts (acv_modify_new n f acv)) = map fst (new_accounts acv)"
    by (simp add: acv_modify_new_def)
  then show "fst ` set (new_accounts (acv_modify_new n f acv)) = fst ` set (new_accounts acv)"
    by (metis list.set_map)
qed (simp add: acv_modify_new_def)

lemma view_inv_on_new:
  assumes "view_inv db0 eff bv db" "bv_on_new n f bv = (st, bv')"
  shows "view_inv db0 eff bv' db"
proof -
  obtain g where "bv' = bv\<lparr>bv_base := acv_modify_new n g (bv_base bv)\<rparr>"
    using assms(2) by (auto simp: bv_on_new_def Let_def split: prod.splits)
  then show ?thesis using assms(1) by (simp only: acv_modify_new_keys view_inv_base)
qed

lemma view_inv_create:
  assumes "view_inv db0 eff bv db" "bv_create_new_account own key bv db = (r, bv', db')"
  shows "view_inv db0 eff bv' db'"
proof (cases "fst (reserve_account_creation own db) = SUCCESS")
  case False
  then have "db' = db" "bv' = bv"
    using assms(2)
    by (auto simp: bv_create_new_account_def acv_create_new_account_def reserve_account_creation_def Let_def
        split: if_splits)
  then show ?thesis using assms(1) by simp
next
  case True
  then have new: "own \<notin> reserved_account_ids db"
    and db': "db' = db\<lparr>reserved_account_ids := insert own (reserved_account_ids db)\<rparr>"
    and bv': "bv_accounts bv' = bv_accounts bv" "reservations (bv_base bv') = reservations (bv_base bv)"
      "fst ` set (new_accounts (bv_base bv')) = insert own (fst ` set (new_accounts (bv_base bv)))"
    using assms(2)
    by (auto simp: bv_create_new_account_def acv_create_new_account_def reserve_account_creation_def Let_def
        split: if_splits)
  have acc: "db_account i db' = db_account i db" for i by (simp add: db' db_account_def)
  have "db_frame db' = db_frame db" "db_wf db' = db_wf db" by (simp_all add: db' db_frame_def db_wf_def)
  then show ?thesis
    using assms(1) new acc bv' unfolding view_inv_def ledger_inv_def seq_inv_def bv_get_existing_account_def
    by (auto simp: db')
qed

lemma ut_used_bit: "ut_used t = ut_used t' \<Longrightarrow> last_committed_id t = last_committed_id t' \<Longrightarrow> t = t'"
proof -
  assume used: "ut_used t = ut_used t'" and lst: "last_committed_id t = last_committed_id t'"
  have "sequence_number_vec t = sequence_number_vec t'"
    by (rule bit_eqI) (use used in \<open>auto simp: ut_used_def set_eq_iff\<close>)
  then show "t = t'" using lst by (cases t; cases t') simp
qed

lemma balance_seq [simp]: "balance (a\<lparr>seq_tracker := t\<rparr>) k = balance a k"
  by (simp add: balance_def all_assets_def)

lemma in_range_seq [simp]: "in_range (a\<lparr>seq_tracker := t\<rparr>) = in_range a"
  by (simp add: in_range_def)

lemma view_inv_reserve:
  assumes inv: "view_inv db0 eff bv db" and ok: "db_ok db0" and i: "i < length (contents db0)"
    and sn: "sn < 2 ^ 64" and run: "bv_reserve_sequence_number (DbPtr i) sn bv db = (st, bv', db')"
  shows "view_inv db0 eff bv' db'"
proof -
  let ?t = "tracker_of db i" and ?l = "last_committed_id (tracker_of db0 i)"
  let ?t' = "snd (ut_reserve_sequence_number sn ?t)"
  let ?r = "\<lparr>res_account = DbPtr i, res_seqno = sn\<rparr>"
  let ?rs = "reservations (bv_base bv)"
  have wf: "db_wf db" "db_frame db = db_frame db0" and seq: "seq_inv db0 ?rs db" and led: "ledger_inv db0 eff bv db"
    using inv by (simp_all add: view_inv_def)
  have len: "length (contents db) = length (contents db0)" using wf(2) by (rule db_frame_length)
  have twf: "ut_wf ?t" and used: "ut_used ?t = ut_used (tracker_of db0 i) \<union> held_slots db0 ?rs i"
    using seq i by (simp_all add: seq_inv_def)
  have lst: "last_committed_id ?t = ?l" using inv i by (simp add: view_inv_def committed_part_def)
  have st: "st = slot_status 64 ?l (ut_used ?t) sn"
    using run ut.reserve_status [OF twf sn] lst
    by (auto simp: bv_reserve_sequence_number_def acv_reserve_sequence_number_def db_reserve_sequence_number_def
        ua_reserve_sequence_number_def Let_def split: prod.splits)
  have db': "db' = db_modify i (\<lambda>a. a\<lparr>seq_tracker := ?t'\<rparr>) db"
    using run wf(1) i len
    by (auto simp: bv_reserve_sequence_number_def acv_reserve_sequence_number_def db_reserve_sequence_number_def
        ua_reserve_sequence_number_def Let_def intro!: db_modify_cong split: prod.splits)
  have bv': "bv_accounts bv' = bv_accounts bv" "new_accounts (bv_base bv') = new_accounts (bv_base bv)"
    "reservations (bv_base bv') = (if st = SUCCESS then ?rs @ [?r] else ?rs)"
    using run by (auto simp: bv_reserve_sequence_number_def acv_reserve_sequence_number_def Let_def split: prod.splits)
  have acc: "db_account j db' = (if j = i then (db_account i db)\<lparr>seq_tracker := ?t'\<rparr> else db_account j db)"
    if "j < length (contents db0)" for j
    unfolding db' using db_account_modify [OF wf(1), of i j] that i len by simp
  have idx: "res_idx ?r = i" "res_slot db0 ?r = slot ?l sn" by (simp_all add: res_idx_def res_slot_def)
  have seq': "seq_inv db0 (reservations (bv_base bv')) db'"
  proof (cases "st = SUCCESS")
    case False
    then have "ut_used ?t' = ut_used ?t" "ut_wf ?t'"
      using ut.reserve_used [OF twf sn] ut.reserve_status [OF twf sn] ut.wf_reserve [OF twf sn] st lst by auto
    then show ?thesis using False seq acc bv' unfolding seq_inv_def by (auto simp: Let_def)
  next
    case True
    then have u: "ut_used ?t' = insert (slot ?l sn - 1) (ut_used ?t)" "ut_wf ?t'"
      using ut.reserve_used [OF twf sn] ut.reserve_status [OF twf sn] ut.wf_reserve [OF twf sn] st lst by auto
    have ok_r: "res_ok db0 ?r" and fresh: "slot ?l sn - 1 \<notin> ut_used ?t" "0 < slot ?l sn"
      using True st i sn by (auto simp: res_ok_def idx slot_status_def split: if_splits)
    have "(i, slot ?l sn) \<notin> set (map (\<lambda>r. (res_idx r, res_slot db0 r)) ?rs)"
      using fresh used by (auto simp: held_slots_def)
    then show ?thesis
      using True seq acc bv'(3) ok_r u used fresh unfolding seq_inv_def by (auto simp: idx held_slots_simps)
  qed
  have led': "ledger_inv db0 eff bv' db'"
    using led acc bv'(1) unfolding ledger_inv_def bv_get_existing_account_def by (auto simp: Let_def)
  have cp: "committed_part (db_account j db') = committed_part (db_account j db0)" if j: "j < length (contents db0)" for j
    using acc [OF j] inv j ut_last_unchanged(1) [of sn ?t] by (auto simp: view_inv_def committed_part_seq)
  have "db_wf db'" unfolding db' using wf(1) i len by (intro db_wf_modify) auto
  then show ?thesis using inv seq' led' cp bv'(2) unfolding view_inv_def by (simp add: db')
qed

lemma view_inv_in_range:
  assumes "view_inv db0 eff bv db" "i < length (contents db0)"
  shows "in_range (db_account i db)"
  using assms by (simp add: view_inv_def ledger_inv_def in_range_def)

lemma view_inv_call:
  assumes inv: "view_inv db0 eff bv db" and ok: "db_ok db0" and c: "call_ok (length (contents db0)) c"
    and run: "do_call c bv db = (st, bv', db')"
  shows "view_inv db0 (\<lambda>i k. eff i k + call_effect c st i k) bv' db'"
proof -
  have wf: "db_wf db" and len: "length (contents db) = length (contents db0)"
    and led: "ledger_inv db0 eff bv db"
    using inv db_frame_length by (auto simp: view_inv_def)
  show ?thesis
  proof (cases c)
    case (VEscrow ptr k amt)
    show ?thesis
    proof (cases ptr)
      case (DbPtr i)
      then have i: "i < length (contents db0)" using c VEscrow by simp
      obtain v' where v': "uv_conditional_escrow k amt (view_of bv i) db = (st, v', db')" "bv' = bv_put_account i v' bv"
        using run VEscrow DbPtr by (auto simp: bv_escrow_def Let_def split: prod.splits)
      have "ledger_step i k (- amt) (view_of bv i) db (uv_conditional_escrow k amt (view_of bv i) db)"
        using wf i len view_of_wf [OF led] view_inv_in_range [OF inv i] by (intro uv_escrow_step) auto
      then show ?thesis
        using view_inv_ledger_step [OF inv ok i] unfolding v' VEscrow DbPtr call_effect.simps by blast
    next
      case (NewPtr n)
      then have "bv_on_new n (ua_conditional_escrow k amt) bv = (st, bv')" "db' = db"
        using run VEscrow by (auto simp: bv_escrow_def Let_def split: prod.splits)
      then show ?thesis using view_inv_on_new [OF inv] VEscrow NewPtr by simp
    qed
  next
    case (VTransfer ptr k amt)
    show ?thesis
    proof (cases ptr)
      case (DbPtr i)
      then have i: "i < length (contents db0)" using c VTransfer by simp
      obtain v' where v': "uv_transfer_available k amt (view_of bv i) db = (st, v', db')" "bv' = bv_put_account i v' bv"
        using run VTransfer DbPtr by (auto simp: bv_transfer_available_def Let_def split: prod.splits)
      have "ledger_step i k amt (view_of bv i) db (uv_transfer_available k amt (view_of bv i) db)"
        using wf i len view_of_wf [OF led] by (intro uv_transfer_step) auto
      then show ?thesis
        using view_inv_ledger_step [OF inv ok i] unfolding v' VTransfer DbPtr call_effect.simps by blast
    next
      case (NewPtr n)
      then have "bv_on_new n (ua_conditional_transfer_available k amt) bv = (st, bv')" "db' = db"
        using run VTransfer by (auto simp: bv_transfer_available_def Let_def split: prod.splits)
      then show ?thesis using view_inv_on_new [OF inv] VTransfer NewPtr by simp
    qed
  next
    case (VCreate own key)
    then show ?thesis using run view_inv_create [OF inv] by (auto simp: Let_def split: prod.splits)
  next
    case (VReserve i sn)
    then show ?thesis using run c view_inv_reserve [OF inv ok, of i sn st bv' db'] by simp
  qed
qed

lemma view_inv_run:
  "view_inv db0 eff bv db \<Longrightarrow> db_ok db0 \<Longrightarrow> list_all (call_ok (length (contents db0))) cs \<Longrightarrow>
   run_calls cs bv db = (bv', db') \<Longrightarrow>
   view_inv db0 (\<lambda>i k. eff i k + effects cs bv db i k) bv' db'"
proof (induction cs arbitrary: eff bv db)
  case Nil
  then show ?case by simp
next
  case (Cons c cs)
  obtain st bv1 db1 where c: "do_call c bv db = (st, bv1, db1)" by (cases "do_call c bv db")
  then have "view_inv db0 (\<lambda>i k. eff i k + call_effect c st i k) bv1 db1"
    using view_inv_call [OF Cons.prems(1,2)] Cons.prems(3) by simp
  then have "view_inv db0 (\<lambda>i k. eff i k + call_effect c st i k + effects cs bv1 db1 i k) bv' db'"
    using Cons.prems c by (intro Cons.IH) simp_all
  then show ?case using c by (simp add: add.assoc)
qed

section \<open>Ending a view\<close>

lemma fold_views:
  assumes step: "\<And>i v db. uv_wf i v \<Longrightarrow> \<exists>F. h v db = db_modify i F db \<and> (\<forall>a. fixed_part (F a) = fixed_part a)
      \<and> (\<forall>a k. in_range a \<longrightarrow> balance (F a) k = i64 (balance a k + dl v k))"
  shows "db_wf db \<Longrightarrow> \<forall>j < length (contents db). in_range (db_account j db) \<Longrightarrow> distinct (map fst al) \<Longrightarrow>
    \<forall>(i, v) \<in> set al. i < length (contents db) \<and> uv_wf i v \<Longrightarrow>
    db_wf (fold (\<lambda>(_, v). h v) al db) \<and> db_frame (fold (\<lambda>(_, v). h v) al db) = db_frame db
    \<and> reserved_account_ids (fold (\<lambda>(_, v). h v) al db) = reserved_account_ids db
    \<and> (\<forall>j < length (contents db). fixed_part (db_account j (fold (\<lambda>(_, v). h v) al db)) = fixed_part (db_account j db)
        \<and> (\<forall>k. balance (db_account j (fold (\<lambda>(_, v). h v) al db)) k =
              i64 (balance (db_account j db) k + (case map_of al j of None \<Rightarrow> 0 | Some v \<Rightarrow> dl v k))))"
proof (induction al arbitrary: db)
  case Nil
  then show ?case by (auto simp: in_range_def)
next
  case (Cons p al)
  obtain i v where p: "p = (i, v)" by fastforce
  have i: "i < length (contents db)" "uv_wf i v" using Cons.prems(4) p by auto
  obtain F where F: "h v db = db_modify i F db" "\<And>a. fixed_part (F a) = fixed_part a"
      "\<And>a k. in_range a \<Longrightarrow> balance (F a) k = i64 (balance a k + dl v k)"
    using step [OF i(2)] by blast
  let ?d = "db_modify i F db"
  have wf: "db_wf ?d" using Cons.prems(1) i(1) fixed_part_owner [OF F(2)] by (rule db_wf_modify)
  have fr: "db_frame ?d = db_frame db" by simp
  have len: "length (contents ?d) = length (contents db)" using fr by (rule db_frame_length)
  have acc: "db_account j ?d = (if j = i then F (db_account i db) else db_account j db)"
    if "j < length (contents db)" for j
    using db_account_modify [OF Cons.prems(1) i(1) that] .
  have rng: "\<forall>j < length (contents ?d). in_range (db_account j ?d)"
    using acc len Cons.prems(2) F(3) i(1) unfolding in_range_def by auto
  have none: "map_of al i = None" using Cons.prems(3) p by (simp add: map_of_eq_None_iff)
  have al: "distinct (map fst al)" "\<forall>(i, v) \<in> set al. i < length (contents ?d) \<and> uv_wf i v"
    unfolding len using Cons.prems(3,4) by auto
  note IH = Cons.IH [OF wf rng al, unfolded fr len]
  have "fixed_part (db_account j (fold (\<lambda>(_, v). h v) al ?d)) = fixed_part (db_account j db)
      \<and> (\<forall>k. balance (db_account j (fold (\<lambda>(_, v). h v) al ?d)) k =
            i64 (balance (db_account j db) k + (case map_of (p # al) j of None \<Rightarrow> 0 | Some v \<Rightarrow> dl v k)))"
    if j: "j < length (contents db)" for j
    using IH acc [OF j] j F(2,3) none p Cons.prems(2) by (cases "j = i") auto
  then show ?case using IH F(1) p by simp
qed

lemma fold_transfers_step:
  assumes "uv_wf i v" "distinct (map fst am)"
  shows "\<exists>F. fold (\<lambda>(k, x). db_transfer_available (uv_main v) k (g x)) am db = db_modify i F db
    \<and> (\<forall>a. fixed_part (F a) = fixed_part a)
    \<and> (\<forall>a k. in_range a \<longrightarrow> balance (F a) k =
          i64 (balance a k + (case map_of am k of None \<Rightarrow> 0 | Some x \<Rightarrow> g x)))"
proof -
  let ?F = "fold (\<lambda>(k, x). ua_transfer_available k (g x)) am"
  have "(\<lambda>(k, x). db_transfer_available (uv_main v) k (g x))
      = (\<lambda>p. db_modify i ((\<lambda>(k, x). ua_transfer_available k (g x)) p) :: ('b, 'c) memory_database \<Rightarrow> _)"
    using assms(1) by (auto simp: db_transfer_available_def [abs_def] uv_wf_def fun_eq_iff)
  then have "fold (\<lambda>(k, x). db_transfer_available (uv_main v) k (g x)) am db = db_modify i ?F db"
    by (simp only: fold_db_modify)
  moreover have "fixed_part (?F a) = fixed_part a" for a by (intro fixed_part_fold) auto
  moreover have "balance (?F a) k = i64 (balance a k + (case map_of am k of None \<Rightarrow> 0 | Some x \<Rightarrow> g x))"
    if "in_range a" for a k
    using fold_transfers_balance [OF assms(2) that, of g k] that by (auto simp: in_range_def split: option.splits)
  ultimately show ?thesis by blast
qed

lemma uv_commit_step:
  assumes "uv_wf i v"
  shows "\<exists>F. uv_commit v db = db_modify i F db \<and> (\<forall>a. fixed_part (F a) = fixed_part a)
    \<and> (\<forall>a k. in_range a \<longrightarrow> balance (F a) k = i64 (balance a k + vbuf v k))"
  using fold_transfers_step [OF assms, of "available_buffer v" "\<lambda>x. x" db] assms
  by (simp add: uv_commit_def uv_wf_def am_get_def)

lemma uv_unwind_step:
  assumes "uv_wf i v"
  shows "\<exists>F. uv_unwind v db = db_modify i F db \<and> (\<forall>a. fixed_part (F a) = fixed_part a)
    \<and> (\<forall>a k. in_range a \<longrightarrow> balance (F a) k = i64 (balance a k + - vside v k))"
proof -
  have g: "i64 (b + (case o1 of None \<Rightarrow> 0 | Some x \<Rightarrow> i64 (- x))) =
      i64 (b + - (case o1 of None \<Rightarrow> 0 | Some x \<Rightarrow> x))" for b and o1 :: "int option"
    by (cases o1) simp_all
  show ?thesis
    using fold_transfers_step [OF assms, of "available_side_effects v" "\<lambda>x. i64 (- x)" db] assms
    unfolding g by (simp add: uv_unwind_def uv_wf_def am_get_def)
qed

lemma fold_release_accounts:
  "fold (\<lambda>(own, a). release_account_creation own) xs db =
   db\<lparr>reserved_account_ids := reserved_account_ids db - fst ` set xs\<rparr>"
proof (induction xs arbitrary: db)
  case Nil
  show ?case by simp
next
  case (Cons x xs)
  have "reserved_account_ids db - {fst x} - fst ` set xs = reserved_account_ids db - insert (fst x) (fst ` set xs)"
    by blast
  then show ?case by (cases x) (simp add: Cons.IH, simp add: release_account_creation_def)
qed

lemma ut_release_succeeds:
  assumes "ut_wf t" "last_committed_id t < sn" "sn < 2 ^ 64" "0 < slot (last_committed_id t) sn"
    "slot (last_committed_id t) sn \<le> 64"
  shows "\<exists>t'. ut_release_sequence_number sn t = Inr t'"
  using assms uint64_offset_eq [of "last_committed_id t" sn]
  by (auto simp: ut_release_sequence_number_def Let_def)

definition acct_equiv :: "'pk user_account \<Rightarrow> 'pk user_account \<Rightarrow> bool" where
  "acct_equiv a b \<longleftrightarrow> fixed_part a = fixed_part b \<and> (\<forall>k. balance a k = balance b k)"

text \<open>
  Two databases with the same accounts: same ids, keys, committed balances, current balances and
  sequence trackers, same uncommitted and reserved accounts. Only the number of zero balances held
  for assets that were touched may differ.
\<close>

definition db_equiv :: "('pk, 't) memory_database \<Rightarrow> ('pk, 't) memory_database \<Rightarrow> bool" where
  "db_equiv db db' \<longleftrightarrow> db_wf db' \<and> db_frame db' = db_frame db
     \<and> reserved_account_ids db' = reserved_account_ids db
     \<and> (\<forall>i < length (contents db). acct_equiv (db_account i db') (db_account i db))"

lemma release_reservations_correct:
  "seq_inv db0 rs db \<Longrightarrow> db_wf db \<Longrightarrow> length (contents db) = length (contents db0) \<Longrightarrow>
   \<forall>i < length (contents db0). committed_part (db_account i db) = committed_part (db_account i db0) \<Longrightarrow>
   \<exists>db'. release_reservations rs acv db = Inr db' \<and> db_wf db' \<and> db_frame db' = db_frame db
     \<and> reserved_account_ids db' = reserved_account_ids db
     \<and> (\<forall>i < length (contents db0). fixed_part (db_account i db') = fixed_part (db_account i db0)
          \<and> (\<forall>k. balance (db_account i db') k = balance (db_account i db) k))"
proof (induction rs arbitrary: db)
  case Nil
  have "fixed_part (db_account i db) = fixed_part (db_account i db0)" if i: "i < length (contents db0)" for i
    using Nil.prems(1,4) i ut_used_bit [of "tracker_of db i" "tracker_of db0 i"]
    by (simp add: seq_inv_def held_slots_simps fixed_part_def committed_part_def)
  then show ?case using Nil by simp
next
  case (Cons r rs)
  let ?i = "res_idx r" and ?sn = "res_seqno r"
  let ?t = "tracker_of db ?i"
  have r: "res_ok db0 r" and i: "?i < length (contents db0)" and twf: "ut_wf ?t"
    and used: "ut_used ?t = ut_used (tracker_of db0 ?i) \<union> held_slots db0 (r # rs) ?i"
    and disj: "ut_used (tracker_of db0 ?i) \<inter> held_slots db0 (r # rs) ?i = {}"
    using Cons.prems(1) by (auto simp: seq_inv_def res_ok_def)
  have lst: "last_committed_id ?t = last_committed_id (tracker_of db0 ?i)"
    using Cons.prems(4) i by (simp add: committed_part_def)
  have slot: "slot (last_committed_id ?t) ?sn = res_slot db0 r" by (simp add: lst res_slot_def)
  obtain t' where t': "ut_release_sequence_number ?sn ?t = Inr t'"
    using ut_release_succeeds [OF twf, of ?sn] r lst slot by (auto simp: res_ok_def)
  have T: "ut_wf t'" "last_committed_id t' = last_committed_id ?t" "ut_used t' = ut_used ?t - {res_slot db0 r - 1}"
    using ut_release [OF twf _ t'] r slot by (auto simp: res_ok_def)
  let ?d = "db_modify ?i (\<lambda>a. a\<lparr>seq_tracker := t'\<rparr>) db"
  have run: "release_reservations (r # rs) acv db = release_reservations rs acv ?d"
  proof -
    have "db_modify ?i (\<lambda>_. (db_account ?i db)\<lparr>seq_tracker := t'\<rparr>) db = ?d"
      using Cons.prems(2,3) i by (intro db_modify_cong) auto
    then show ?thesis
      using r t' by (simp add: res_ok_def db_release_sequence_number_def ua_release_sequence_number_def)
  qed
  have acc: "db_account j ?d = (if j = ?i then (db_account ?i db)\<lparr>seq_tracker := t'\<rparr> else db_account j db)"
    if "j < length (contents db0)" for j
    using db_account_modify [OF Cons.prems(2), of ?i j] that i Cons.prems(3) by simp
  have nin: "res_slot db0 r - 1 \<notin> held_slots db0 rs ?i"
  proof
    assume "res_slot db0 r - 1 \<in> held_slots db0 rs ?i"
    then obtain s where s: "s \<in> set rs" "res_idx s = ?i" "res_slot db0 s - 1 = res_slot db0 r - 1"
      by (auto simp: held_slots_def)
    have "0 < res_slot db0 s" "0 < res_slot db0 r"
      using Cons.prems(1) s(1) r by (auto simp: seq_inv_def res_ok_def list_all_iff)
    then have "(res_idx s, res_slot db0 s) = (?i, res_slot db0 r)" using s(2,3) by simp
    moreover have "(?i, res_slot db0 r) \<notin> (\<lambda>r. (res_idx r, res_slot db0 r)) ` set rs"
      using Cons.prems(1) by (simp add: seq_inv_def)
    ultimately have "(res_idx s, res_slot db0 s) \<notin> (\<lambda>r. (res_idx r, res_slot db0 r)) ` set rs" by simp
    then show False using s(1) by blast
  qed
  have "held_slots db0 (r # rs) ?i = insert (res_slot db0 r - 1) (held_slots db0 rs ?i)"
    by (simp add: held_slots_simps)
  then have "ut_used t' = ut_used (tracker_of db0 ?i) \<union> held_slots db0 rs ?i"
    using nin disj unfolding T(3) used by blast
  note used' = this
  have "seq_inv db0 rs ?d"
    unfolding seq_inv_def
  proof (intro conjI allI impI)
    show "list_all (res_ok db0) rs" "distinct (map (\<lambda>r. (res_idx r, res_slot db0 r)) rs)"
      using Cons.prems(1) by (simp_all add: seq_inv_def)
    fix j assume j: "j < length (contents db0)"
    have old: "ut_wf (tracker_of db j)"
      "ut_used (tracker_of db j) = ut_used (tracker_of db0 j) \<union> held_slots db0 (r # rs) j"
      "ut_used (tracker_of db0 j) \<inter> held_slots db0 (r # rs) j = {}"
      using Cons.prems(1) j by (simp_all add: seq_inv_def)
    show "ut_wf (tracker_of ?d j)" using acc [OF j] T(1) old(1) by simp
    show "ut_used (tracker_of ?d j) = ut_used (tracker_of db0 j) \<union> held_slots db0 rs j"
      using acc [OF j] used' old(2) by (auto simp: held_slots_simps)
    show "ut_used (tracker_of db0 j) \<inter> held_slots db0 rs j = {}"
      using old(3) by (auto simp: held_slots_simps split: if_splits)
  qed
  moreover have "db_wf ?d" using Cons.prems(2,3) i by (intro db_wf_modify) auto
  moreover have "length (contents ?d) = length (contents db0)"
    using Cons.prems(3) db_frame_length [of ?d db] by simp
  moreover have "\<forall>j < length (contents db0). committed_part (db_account j ?d) = committed_part (db_account j db0)"
    using Cons.prems(4) acc T(2) by (auto simp: committed_part_seq)
  ultimately obtain db' where "release_reservations rs acv ?d = Inr db'" "db_wf db'" "db_frame db' = db_frame ?d"
      "reserved_account_ids db' = reserved_account_ids ?d"
      "\<forall>j < length (contents db0). fixed_part (db_account j db') = fixed_part (db_account j db0)
        \<and> (\<forall>k. balance (db_account j db') k = balance (db_account j ?d) k)"
    using Cons.IH [of ?d] by blast
  then show ?case using run acc by auto
qed

lemma view_of_map: "vside (view_of bv i) k = (case map_of (bv_accounts bv) i of None \<Rightarrow> 0 | Some v \<Rightarrow> vside v k)"
  "vbuf (view_of bv i) k = (case map_of (bv_accounts bv) i of None \<Rightarrow> 0 | Some v \<Rightarrow> vbuf v k)"
  by (auto simp: bv_get_existing_account_def uv_init_def split: option.split)

lemma unwind_correct:
  assumes inv: "view_inv db0 eff bv db" and ok: "db_ok db0"
  shows "\<exists>db'. bv_unwind bv db = Inr db' \<and> db_equiv db0 db'"
proof -
  let ?N = "length (contents db0)"
  let ?d = "fold (\<lambda>(_, v). uv_unwind v) (bv_accounts bv) db"
  let ?e = "?d\<lparr>reserved_account_ids := reserved_account_ids db0\<rparr>"
  have wf: "db_wf db" "db_frame db = db_frame db0" and led: "ledger_inv db0 eff bv db"
    and seq: "seq_inv db0 (reservations (bv_base bv)) db"
    using inv by (simp_all add: view_inv_def)
  have len: "length (contents db) = ?N" using wf(2) by (rule db_frame_length)
  have U: "db_wf ?d" "db_frame ?d = db_frame db" "reserved_account_ids ?d = reserved_account_ids db"
    "\<forall>j < length (contents db). fixed_part (db_account j ?d) = fixed_part (db_account j db)
        \<and> (\<forall>k. balance (db_account j ?d) k = i64 (balance (db_account j db) k
              + (case map_of (bv_accounts bv) j of None \<Rightarrow> 0 | Some v \<Rightarrow> - vside v k)))"
    using fold_views [of uv_unwind "\<lambda>v k. - vside v k" db "bv_accounts bv", OF uv_unwind_step wf(1)]
      led view_inv_in_range [OF inv] len by (auto simp: ledger_inv_def)
  have bal: "balance (db_account j ?d) k = balance (db_account j db0) k" if j: "j < ?N" for j k
  proof -
    have "balance (db_account j ?d) k = i64 (balance (db_account j db) k + - vside (view_of bv j) k)"
      using U(4) j len by (auto simp: view_of_map split: option.splits)
    also have "\<dots> = i64 (balance (db_account j db0) k)"
      using led j by (simp add: ledger_inv_def)
    finally show ?thesis using ok j by (simp add: db_ok_def in_range_def)
  qed
  have acc: "db_account j ?e = db_account j ?d" for j by (simp add: db_account_def)
  have e: "db_wf ?e" "db_frame ?e = db_frame db0" using U(1,2) wf(2) by (simp_all add: db_wf_def db_frame_def)
  have "fold (\<lambda>(own, a). release_account_creation own) (new_accounts (bv_base bv)) ?d = ?e"
    using inv U(3) unfolding fold_release_accounts view_inv_def by (auto intro!: arg_cong [where f = "\<lambda>s. ?d\<lparr>reserved_account_ids := s\<rparr>"])
  then have run: "bv_unwind bv db = release_reservations (reservations (bv_base bv)) (bv_base bv) ?e"
    by (simp add: bv_unwind_def acv_unwind_def)
  have fp: "fixed_part (db_account j ?e) = fixed_part (db_account j db)" if "j < ?N" for j
    using U(4) that len acc by simp
  then have "seq_inv db0 (reservations (bv_base bv)) ?e"
    "\<forall>j < ?N. committed_part (db_account j ?e) = committed_part (db_account j db0)"
    using seq inv by (auto simp: seq_inv_def fixed_part_def view_inv_def)
  then obtain db' where db': "release_reservations (reservations (bv_base bv)) (bv_base bv) ?e = Inr db'" "db_wf db'"
      "db_frame db' = db_frame ?e" "reserved_account_ids db' = reserved_account_ids ?e"
      "\<forall>i < ?N. fixed_part (db_account i db') = fixed_part (db_account i db0)
          \<and> (\<forall>k. balance (db_account i db') k = balance (db_account i ?e) k)"
    using release_reservations_correct [of db0 _ ?e "bv_base bv"] e db_frame_length [OF e(2)] by blast
  then have "db_equiv db0 db'" using e bal acc by (simp add: db_equiv_def acct_equiv_def)
  then show ?thesis using run db'(1) by auto
qed

lemma fold_commit_creation:
  "fold (\<lambda>(own, a). commit_account_creation own a) xs db = db\<lparr>uncommitted_db := uncommitted_db db @ map snd xs\<rparr>"
proof (induction xs arbitrary: db)
  case Nil
  show ?case by simp
next
  case (Cons x xs)
  then show ?case by (cases x) (simp, simp add: commit_account_creation_def)
qed

lemma acv_commit_eq: "acv_commit acv db = db\<lparr>uncommitted_db := uncommitted_db db @ map snd (new_accounts acv)\<rparr>"
proof -
  have "db_commit_sequence_number i sn d = d" for i sn and d :: "('a, 'b) memory_database"
    by (simp add: db_commit_sequence_number_def ua_commit_sequence_number_def [abs_def]
        ut_commit_sequence_number_def db_modify_id)
  then have "fold (\<lambda>r d. case res_account r of DbPtr idx \<Rightarrow> db_commit_sequence_number idx (res_seqno r) d
      | NewPtr _ \<Rightarrow> d) rs d = d" for rs and d :: "('a, 'b) memory_database"
    by (induction rs) (auto split: uptr.split)
  then show ?thesis by (simp add: acv_commit_def fold_commit_creation)
qed

lemma commit_correct:
  assumes inv: "view_inv db0 eff bv db" and ok: "db_ok db0"
  shows "\<forall>i < length (contents db0). fixed_part (db_account i (bv_commit bv db)) = fixed_part (db_account i db)
      \<and> (\<forall>k. balance (db_account i (bv_commit bv db)) k = i64 (balance (db_account i db0) k + eff i k))"
    and "user_id_to_idx_map (bv_commit bv db) = user_id_to_idx_map db0"
    and "uncommitted_db (bv_commit bv db) = uncommitted_db db0 @ map snd (new_accounts (bv_base bv))"
    and "reserved_account_ids (bv_commit bv db) = reserved_account_ids db0 \<union> fst ` set (new_accounts (bv_base bv))"
proof -
  let ?N = "length (contents db0)"
  let ?d = "fold (\<lambda>(_, v). uv_commit v) (bv_accounts bv) db"
  have wf: "db_wf db" "db_frame db = db_frame db0" and led: "ledger_inv db0 eff bv db"
    using inv by (simp_all add: view_inv_def)
  have len: "length (contents db) = ?N" using wf(2) by (rule db_frame_length)
  have U: "db_frame ?d = db_frame db" "reserved_account_ids ?d = reserved_account_ids db"
    "\<forall>j < length (contents db). fixed_part (db_account j ?d) = fixed_part (db_account j db)
        \<and> (\<forall>k. balance (db_account j ?d) k = i64 (balance (db_account j db) k
              + (case map_of (bv_accounts bv) j of None \<Rightarrow> 0 | Some v \<Rightarrow> vbuf v k)))"
    using fold_views [of uv_commit "\<lambda>v k. vbuf v k" db "bv_accounts bv", OF uv_commit_step wf(1)]
      led view_inv_in_range [OF inv] len by (auto simp: ledger_inv_def)
  have run: "bv_commit bv db = ?d\<lparr>uncommitted_db := uncommitted_db ?d @ map snd (new_accounts (bv_base bv))\<rparr>"
    by (simp add: bv_commit_def acv_commit_eq)
  have acc: "db_account j (bv_commit bv db) = db_account j ?d" for j unfolding run by (simp add: db_account_def)
  have bal: "balance (db_account j ?d) k = i64 (balance (db_account j db0) k + eff j k)" if j: "j < ?N" for j k
  proof -
    have "balance (db_account j ?d) k = i64 (balance (db_account j db) k + vbuf (view_of bv j) k)"
      using U(3) j len by (simp add: view_of_map)
    also have "\<dots> = i64 (balance (db_account j db0) k + (vbuf (view_of bv j) k + vside (view_of bv j) k))"
      using led j by (simp add: ledger_inv_def algebra_simps)
    also have "\<dots> = i64 (balance (db_account j db0) k + i64 (vbuf (view_of bv j) k + vside (view_of bv j) k))"
      by simp
    also have "i64 (vbuf (view_of bv j) k + vside (view_of bv j) k) = i64 (eff j k)"
      using led j unfolding ledger_inv_def by blast
    finally show ?thesis by simp
  qed
  show "\<forall>i < ?N. fixed_part (db_account i (bv_commit bv db)) = fixed_part (db_account i db)
      \<and> (\<forall>k. balance (db_account i (bv_commit bv db)) k = i64 (balance (db_account i db0) k + eff i k))"
    using acc bal U(3) len by simp
  show "user_id_to_idx_map (bv_commit bv db) = user_id_to_idx_map db0"
    "uncommitted_db (bv_commit bv db) = uncommitted_db db0 @ map snd (new_accounts (bv_base bv))"
    using U(1) wf(2) unfolding run by (simp_all add: db_frame_def)
  show "reserved_account_ids (bv_commit bv db) = reserved_account_ids db0 \<union> fst ` set (new_accounts (bv_base bv))"
    using U(2) inv unfolding run by (simp add: view_inv_def)
qed

section \<open>Properties\<close>

text \<open>
  Property C11. Whatever sequence of escrows, transfers, account creations and sequence number
  reservations a transaction makes through a buffered view, with whatever outcomes, unwinding the
  view succeeds and leaves a database with the same accounts, balances, committed values,
  sequence trackers and reserved ids as before the transaction.
\<close>

theorem view_unwind_restores:
  assumes "db_ok db" and "list_all (call_ok (length (contents db))) calls"
    and "run_calls calls bv_init db = (bv, db')"
  shows "\<exists>db''. bv_unwind bv db' = Inr db'' \<and> db_equiv db db''"
  using view_inv_run [OF view_inv_init [OF assms(1)] assms] by (intro unwind_correct [OF _ assms(1)])

lemma one_account_db_ok: "db_ok one_account_db"
proof -
  have "db_account 0 one_account_db = ua_commit (new_account 7 ())"
    using db_account_nth [of 0 one_account_db] one_account_db_facts(2) by simp
  then show ?thesis
    using one_account_db_facts(1,2)
    by (auto simp: db_ok_def ua_commit_def new_account_def in_range_def balance_def all_assets_def in_i64_def
        ut_commit_def ut_init_def ut_wf_def used_ok_def ut_used_def simp flip: length_av_contents)
qed

theorem view_unwind_restores_witness:
  "\<exists>db''. bv_unwind (fst (run_calls [VTransfer (DbPtr 0) 3 50, VEscrow (DbPtr 0) 3 20, VReserve 0 256] bv_init one_account_db))
      (snd (run_calls [VTransfer (DbPtr 0) 3 50, VEscrow (DbPtr 0) 3 20, VReserve 0 256] bv_init one_account_db)) = Inr db''
    \<and> db_equiv one_account_db db''"
  by (rule view_unwind_restores [OF one_account_db_ok _ prod.collapse [symmetric]])
    (use one_account_db_facts(2) in \<open>simp flip: length_av_contents\<close>)

text \<open>
  Property C12. Committing the view after any sequence of calls changes every balance by exactly
  the sum of the amounts of the calls that succeeded (in 64-bit arithmetic), creates exactly the
  accounts the calls created, and leaves the id map alone.
\<close>

theorem view_commit_applies:
  assumes "db_ok db" and "list_all (call_ok (length (contents db))) calls"
    and "run_calls calls bv_init db = (bv, db')" and "i < length (contents db)"
  shows "balance (db_account i (bv_commit bv db')) k =
      i64 (balance (db_account i db) k + effects calls bv_init db i k)
    \<and> user_id_to_idx_map (bv_commit bv db') = user_id_to_idx_map db
    \<and> uncommitted_db (bv_commit bv db') = uncommitted_db db @ map snd (new_accounts (bv_base bv))"
proof -
  have "view_inv db (\<lambda>i k. effects calls bv_init db i k) bv db'"
    using view_inv_run [OF view_inv_init [OF assms(1)] assms(1-3)] by simp
  from commit_correct [OF this assms(1)] assms(4) show ?thesis by blast
qed

theorem view_commit_applies_witness:
  "balance (db_account 0 (bv_commit (fst (run_calls [VTransfer (DbPtr 0) 3 50, VEscrow (DbPtr 0) 3 20] bv_init one_account_db))
      (snd (run_calls [VTransfer (DbPtr 0) 3 50, VEscrow (DbPtr 0) 3 20] bv_init one_account_db)))) 3
    = i64 (balance (db_account 0 one_account_db) 3
        + effects [VTransfer (DbPtr 0) 3 50, VEscrow (DbPtr 0) 3 20] bv_init one_account_db 0 3)"
  by (rule conjunct1, rule view_commit_applies [OF one_account_db_ok _ prod.collapse [symmetric]])
    (use one_account_db_facts(2) in \<open>simp_all flip: length_av_contents\<close>)

text \<open>
  Property C13. While a transaction runs through a buffered view, no account of the database is
  ever overdrawn: a balance that was not negative before is not negative after any sequence of
  calls, before the view is committed or unwound.
\<close>

theorem view_never_overdraws:
  assumes "db_ok db" and "list_all (call_ok (length (contents db))) calls"
    and "run_calls calls bv_init db = (bv, db')" and "i < length (contents db)"
    and "0 \<le> balance (db_account i db) k"
  shows "0 \<le> balance (db_account i db') k"
  using view_inv_run [OF view_inv_init [OF assms(1)] assms(1-3)] assms(4,5)
  by (simp add: view_inv_def ledger_inv_def)

theorem view_never_overdraws_witness:
  "0 \<le> balance (db_account 0 (snd (run_calls [VTransfer (DbPtr 0) 3 50, VEscrow (DbPtr 0) 3 70] bv_init one_account_db))) 3"
  by (rule view_never_overdraws [OF one_account_db_ok _ prod.collapse [symmetric]])
    (use one_account_db_facts(2) db_account_nth [of 0 one_account_db] in
      \<open>simp_all add: balance_def all_assets_def ua_commit_def new_account_def flip: length_av_contents\<close>)

end
