(* ===== verification/Clearing_Agreement.thy ===== *)
theory Clearing_Agreement
  imports Offer_Book Database_View
begin

text \<open>
  Producer and validator agree on a clearing. The locale \<open>clearing_database\<close> is the contract of
  the template parameter \<^verbatim>\<open>DB\<close> of the clearing code: lookups do not depend on balances and
  transfers commute. It is interpreted on the memory database. The producer clears the complete
  offers before the partially executed one, the validator the other way round; the lemmas
  show that the header written by the producer makes the validator reach the same database, book
  and statistics, and that its checks succeed.
\<close>

section \<open>The contract of the database\<close>

text \<open>A plan is a list of transfers.\<close>

definition apply_plan :: "('p, 'db) transfer \<Rightarrow> ('p \<times> asset_id \<times> int) list \<Rightarrow> 'db \<Rightarrow> 'db" where
  "apply_plan transfer pl db = fold (\<lambda>(p, a, x). transfer p a x) pl db"

lemma apply_plan_simps [simp]:
  "apply_plan transfer [] db = db"
  "apply_plan transfer ((p, a, x) # pl) db = apply_plan transfer pl (transfer p a x db)"
  "apply_plan transfer (pl @ pl') db = apply_plan transfer pl' (apply_plan transfer pl db)"
  by (simp_all add: apply_plan_def)

definition log_of :: "offer \<Rightarrow> account_id \<times> nat" where
  "log_of y = (owner y, offerId y)"

locale clearing_database =
  fixes lookup :: "account_id \<Rightarrow> 'db \<Rightarrow> 'p option"
    and transfer :: "('p, 'db) transfer"
  assumes lookup_transfer: "lookup u (transfer p a x db) = lookup u db"
    and transfer_commute: "transfer p a x (transfer q b y db) = transfer q b y (transfer p a x db)"
begin

abbreviation D :: "('p, 'db) clearing_db" where
  "D \<equiv> \<lparr>cd_lookup_user = lookup, cd_transfer = transfer\<rparr>"

lemma complete_clearing_commute:
  assumes "complete_clearing D sellPrice buyPrice tax off (db, lg) = Inr (db', lg')"
  shows "lg' = log_self off lg
    \<and> complete_clearing D sellPrice buyPrice tax off (transfer p a x db, lg2)
      = Inr (transfer p a x db', log_self off lg2)"
  using assms
  by (auto simp: complete_clearing_def lookup_transfer clear_offer_full_def bind_result_Inr Let_def
      transfer_commute [of p a x] split: if_splits option.splits Option.bind_splits)

lemma apply_clearing_commute:
  assumes "apply_clearing D sellPrice buyPrice tax xs (db, lg) = Inr (db', lg')"
  shows "lg' = lg @ map (\<lambda>y. (owner y, offerId y)) xs
    \<and> apply_clearing D sellPrice buyPrice tax xs (transfer p a x db, lg2)
      = Inr (transfer p a x db', lg2 @ map (\<lambda>y. (owner y, offerId y)) xs)"
  using assms
proof (induction xs arbitrary: db lg lg2)
  case Nil
  then show ?case by simp
next
  case (Cons y ys)
  then obtain db1 lg1 where step: "complete_clearing D sellPrice buyPrice tax y (db, lg) = Inr (db1, lg1)"
    and rest: "apply_clearing D sellPrice buyPrice tax ys (db1, lg1) = Inr (db', lg')"
    by (auto simp: bind_result_Inr)
  show ?case
    using complete_clearing_commute [OF step, of p a x lg2] Cons.IH [OF rest, of "log_self y lg2"]
    by (simp add: log_self_def)
qed

lemma lookup_apply_clearing:
  "apply_clearing D sellPrice buyPrice tax xs (db, lg) = Inr (db', lg') \<Longrightarrow> lookup u db' = lookup u db"
proof (induction xs arbitrary: db lg)
  case Nil
  then show ?case by simp
next
  case (Cons y ys)
  then obtain db1 lg1 where step: "complete_clearing D sellPrice buyPrice tax y (db, lg) = Inr (db1, lg1)"
    and rest: "apply_clearing D sellPrice buyPrice tax ys (db1, lg1) = Inr (db', lg')"
    by (auto simp: bind_result_Inr)
  have "lookup u db1 = lookup u db"
    using step
    by (auto simp: complete_clearing_def clear_offer_full_def bind_result_Inr Let_def lookup_transfer
        split: if_splits option.splits Option.bind_splits)
  then show ?case using Cons.IH [OF rest] by simp
qed

lemma lookup_plan [simp]: "lookup u (apply_plan transfer pl db) = lookup u db"
  by (induction pl arbitrary: db) (auto simp: lookup_transfer)

lemma apply_plan_mset: "mset pl = mset pl' \<Longrightarrow> apply_plan transfer pl = apply_plan transfer pl'"
proof -
  assume eq: "mset pl = mset pl'"
  let ?f = "\<lambda>(p, a, x). transfer p a x"
  have "?f s \<circ> ?f t = ?f t \<circ> ?f s" for s t
  proof
    fix db
    obtain p a x q b y where "s = (p, a, x)" "t = (q, b, y)" by (metis prod_cases3)
    then show "(?f s \<circ> ?f t) db = (?f t \<circ> ?f s) db" using transfer_commute [of p a x q b y db] by simp
  qed
  then have "fold ?f pl = fold ?f pl'" using eq by (intro fold_multiset_equiv) blast+
  then show ?thesis unfolding apply_plan_def by (intro ext) simp
qed

text \<open>
  What a cleared offer does to the database is a transfer that depends on the database only
  through the lookups of accounts; the offers can be cleared in any order.
\<close>

definition same_accounts :: "'db \<Rightarrow> 'db \<Rightarrow> bool" where
  "same_accounts db db2 \<longleftrightarrow> (\<forall>u. lookup u db2 = lookup u db)"

lemma same_accounts_plan [simp]:
  "same_accounts db (apply_plan transfer pl db2) = same_accounts db db2"
  "same_accounts (apply_plan transfer pl db) db2 = same_accounts db db2"
  by (simp_all add: same_accounts_def)

lemma same_accounts_refl [simp]: "same_accounts db db"
  by (simp add: same_accounts_def)

definition offer_transfer :: "price \<Rightarrow> price \<Rightarrow> nat \<Rightarrow> 'db \<Rightarrow> offer \<Rightarrow> 'p \<times> asset_id \<times> int" where
  "offer_transfer p q tax db y =
     (the (lookup (owner y) db), buyAsset (category y),
      i64 (int (the (taxed_buy_amount (fa_from_integral (amount y)) p q tax))))"

lemma offer_transfer_same: "same_accounts db db2 \<Longrightarrow> offer_transfer p q tax db2 = offer_transfer p q tax db"
  by (simp add: offer_transfer_def same_accounts_def fun_eq_iff)

lemma complete_clearing_plan:
  assumes "complete_clearing D p q tax y (db, lg) = Inr r" and "same_accounts db db2"
  shows "complete_clearing D p q tax y (db2, lg2)
    = Inr (apply_plan transfer [offer_transfer p q tax db y] db2, lg2 @ [log_of y])"
  using assms
  by (auto simp: complete_clearing_def clear_offer_full_def bind_result_Inr Let_def same_accounts_def
        log_of_def log_self_def offer_transfer_def split: if_splits option.splits Option.bind_splits)

lemma apply_clearing_each:
  assumes "apply_clearing D p q tax xs (db, lg) = Inr r" and "y \<in> set xs" and "same_accounts db db2"
  shows "complete_clearing D p q tax y (db2, lg2)
    = Inr (apply_plan transfer [offer_transfer p q tax db y] db2, lg2 @ [log_of y])"
  using assms
proof (induction xs arbitrary: db lg)
  case Nil
  then show ?case by simp
next
  case (Cons x xs)
  then obtain db1 lg1 where step: "complete_clearing D p q tax x (db, lg) = Inr (db1, lg1)"
    and rest: "apply_clearing D p q tax xs (db1, lg1) = Inr r"
    by (auto simp: bind_result_Inr)
  have db1: "db1 = apply_plan transfer [offer_transfer p q tax db x] db"
    using complete_clearing_plan [OF step same_accounts_refl, of lg] step by simp
  show ?case
  proof (cases "y = x")
    case True
    then show ?thesis using complete_clearing_plan [OF step Cons.prems(3)] by blast
  next
    case False
    have "same_accounts db1 db2" "same_accounts db db1" using Cons.prems(3) unfolding db1 by simp_all
    with False show ?thesis
      using Cons.IH [OF rest] Cons.prems(2) offer_transfer_same [of db db1 p q tax] by simp
  qed
qed

lemma apply_clearing_plan:
  assumes "apply_clearing D p q tax xs (db, lg) = Inr r"
    and "set ys \<subseteq> set xs" and "same_accounts db db2"
  shows "apply_clearing D p q tax ys (db2, lg2)
    = Inr (apply_plan transfer (map (offer_transfer p q tax db) ys) db2, lg2 @ map log_of ys)"
  using assms(2,3)
proof (induction ys arbitrary: db2 lg2)
  case Nil
  then show ?case by simp
next
  case (Cons y ys)
  have "complete_clearing D p q tax y (db2, lg2)
      = Inr (apply_plan transfer [offer_transfer p q tax db y] db2, lg2 @ [log_of y])"
    using apply_clearing_each [OF assms(1)] Cons.prems by simp
  moreover have "apply_plan transfer (map (offer_transfer p q tax db) (y # ys)) db2
      = apply_plan transfer (map (offer_transfer p q tax db) ys) (apply_plan transfer [offer_transfer p q tax db y] db2)"
    by (simp add: apply_plan_def)
  ultimately show ?case using Cons by simp
qed

end

section \<open>Facts about the parts of the clearing code\<close>

lemma on_top_thunk_eq:
  "thunks ob \<noteq> [] \<Longrightarrow> on_top_thunk f ob = Inr (ob\<lparr>thunks := butlast (thunks ob) @ [f (last (thunks ob))]\<rparr>)"
  by (simp add: on_top_thunk_def get_top_thunk_def)

lemma endow_split_book:
  assumes "offer_trie_ok T bk"
  shows "\<exists>c fc. ot_endow_split T (int a) t = (c, fc)
    \<and> entries (bk c) = snd (split_at a (entries (bk t))) \<and> entries (bk fc) = fst (split_at a (entries (bk t)))"
proof (cases "ot_endow_split T (int a) t")
  case (Pair c fc)
  have "map_prod bk bk (ot_endow_split T (int a) t) = b_endow_split (int a) (bk t)"
    using assms by (simp add: trie_eqs)
  then show ?thesis
    using Pair by (auto simp: b_endow_split_def Let_def split: prod.splits)
qed

lemma deletion_book:
  assumes "offer_trie_ok T bk"
  shows "\<exists>c. ot_perform_deletion T k t = (c, map_of (entries (bk t)) k) \<and> entries (bk c) = del k (entries (bk t))"
proof (cases "ot_perform_deletion T k t")
  case (Pair c r)
  have "bk_fst bk (ot_perform_deletion T k t) = b_perform_deletion k (bk t)" using assms by (simp add: trie_eqs)
  then show ?thesis using Pair by (auto simp: bk_fst_def b_perform_deletion_def)
qed

lemma to_u128_i64: "n < 2 ^ 63 \<Longrightarrow> to_u128 (i64 (int n)) = n"
  by (simp add: to_u128_def in_i64_def)

lemma to_u64_i64: "n < 2 ^ 63 \<Longrightarrow> to_u64 (i64 (int n)) = n"
  by (simp add: to_u64_def in_i64_def)

lemma fa_from_integral_63: "n < 2 ^ 63 \<Longrightarrow> fa_from_integral n = n * 1024"
  by (rule fa_from_integral_eq) simp

lemma floor_split: "fa_floor s = s div 1024"
  by (simp add: fp_floor_def FRACTIONAL_RADIX_def)

text \<open>What is left of the supply never exceeds the offer it is taken from.\<close>

lemma remaining_le_amount:
  assumes "s div 1024 - P < x" and "P \<le> s div 1024"
  shows "cdiv (s - P * 1024) 1024 \<le> x"
proof -
  have "s < (s div 1024 + 1) * 1024" by simp
  also have "\<dots> \<le> (x + P) * 1024" using assms by (intro mult_le_mono1) linarith
  finally have "s - P * 1024 \<le> x * 1024" by (simp add: distrib_right)
  then show ?thesis by (simp add: cdiv_le)
qed

lemma activate_eq:
  "n < 2 ^ 63 \<Longrightarrow> activate (i64 (int n)) \<lparr>activated_supply = v\<rparr> = \<lparr>activated_supply = fa_add v (n * 1024)\<rparr>"
  by (simp add: activate_def to_u128_i64 fa_from_integral_63)

section \<open>The outcome of a successful clearing\<close>

definition after_partial :: "offer_key \<Rightarrow> offer \<Rightarrow> nat \<Rightarrow> (offer_key \<times> offer) list \<Rightarrow> (offer_key \<times> offer) list" where
  "after_partial k v c rest = (if c < amount v then ins k (v\<lparr>amount := amount v - c\<rparr>) rest else rest)"

definition count_full :: "nat \<Rightarrow> block_state_update_stats \<Rightarrow> block_state_update_stats" where
  "count_full n stats = stats\<lparr>fully_clear_offer_count := u32 (fully_clear_offer_count stats + n)\<rparr>"

definition count_partial :: "offer \<Rightarrow> nat \<Rightarrow> block_state_update_stats \<Rightarrow> block_state_update_stats" where
  "count_partial v c stats =
     (if c < amount v then stats\<lparr>partial_clear_offer_count := u32 (partial_clear_offer_count stats + 1)\<rparr> else stats)"

lemma clear_offer_partial_ceil:
  assumes "clear_offer_partial tr off p q tax r idx db = Some (db', sell, buy)" and "r < 2 ^ 128"
    and "cdiv r 1024 < 2 ^ 63"
  shows "sell = int (cdiv r 1024) \<and> to_u64 sell = cdiv r 1024 \<and> (\<exists>x. db' = tr idx (buyAsset (category off)) x db)"
proof -
  have "fa_ceil r = cdiv r 1024" using assms(2) by (simp add: fp_ceil_eq FRACTIONAL_RADIX_def)
  then have "sell = i64 (int (cdiv r 1024))" and db': "\<exists>x. db' = tr idx (buyAsset (category off)) x db"
    using assms(1) by (auto simp: clear_offer_partial_def Let_def split: Option.bind_splits)
  then have "sell = int (cdiv r 1024)" using assms(3) by (simp add: in_i64_def)
  then show ?thesis using assms(3) db' by (simp add: to_u64_def)
qed

lemma process_partial_outcome:
  assumes T: "offer_trie_ok T bk" and book: "entries (bk (committed_offers ob)) = (k, v) # rest"
    and fresh: "del k ((k, v) # rest) = rest" and th: "thunks ob \<noteq> []"
    and r: "r < 2 ^ 128" "cdiv r 1024 \<le> amount v" "amount v < 2 ^ 63"
    and run: "process_partial T D p q tax r k (ob, (db, lg), com, stats) = Inr (ob', dl', com', stats')"
  shows "\<exists>idx db' buy. cd_lookup_user D (owner v) db = Some idx
    \<and> clear_offer_partial (cd_transfer D) v p q tax r idx db = Some (db', int (cdiv r 1024), buy)
    \<and> dl' = (db', log_self v lg)
    \<and> entries (bk (committed_offers ob')) = after_partial k v (cdiv r 1024) rest
    \<and> com' = com\<lparr>thresholdKeyIsNull := 0, partialExecThresholdKey := k\<rparr>
    \<and> stats' = count_partial v (cdiv r 1024) stats"
proof -
  obtain c where del: "ot_perform_deletion T k (committed_offers ob) = (c, Some v)" and c: "entries (bk c) = rest"
    using deletion_book [OF T, of k "committed_offers ob"] book fresh by auto
  obtain idx where idx: "cd_lookup_user D (owner v) db = Some idx"
    using run del by (auto simp: process_partial_def Let_def split: option.splits)
  then obtain db' sell buy
    where part: "clear_offer_partial (cd_transfer D) v p q tax r idx db = Some (db', sell, buy)"
    using run del by (auto simp: process_partial_def Let_def bind_result_Inr)
  have "cdiv r 1024 < 2 ^ 63" using r by linarith
  then have sell: "sell = int (cdiv r 1024)" "to_u64 sell = cdiv r 1024"
    using clear_offer_partial_ceil [OF part r(1)] by blast+
  have "sub64 (amount v) (cdiv r 1024) = amount v - cdiv r 1024"
    using r by (intro sub64_id) simp_all
  then show ?thesis
    using run del idx part sell r th c T
    by (auto simp: process_partial_def Let_def on_top_thunk_eq after_partial_def count_partial_def
        trie_eqs b_insert_def)
qed

lemma process_clear_offers_outcome:
  assumes T: "offer_trie_ok T bk" and ok: "book_ok (entries (bk (committed_offers ob)))"
    and th: "thunks ob \<noteq> []" and s: "s < 2 ^ 128"
    and split: "split_at (s div 1024) (entries (bk (committed_offers ob))) = (pre, rest)"
    and p: "p = prices ! sellAsset (ob_category ob)" and q: "q = prices ! buyAsset (ob_category ob)"
    and run: "process_clear_offers T D wr s prices tax (ob, dl, com, stats) = Inr (ob', dl', com', stats')"
  shows "\<exists>dl1 ob1. apply_clearing D p q tax (map snd pre) dl = Inr dl1
    \<and> thunks ob1 \<noteq> [] \<and> entries (bk (committed_offers ob1)) = rest
    \<and> (\<exists>fc. thunks ob1 = butlast (thunks ob) @ [(last (thunks ob))\<lparr>cleared_offers := fc\<rparr>])
    \<and> (if rest = []
       then s = sold pre * 1024 \<and> dl' = dl1 \<and> entries (bk (committed_offers ob')) = []
         \<and> thunks ob' = butlast (thunks ob1) @ [set_no_partial_exec (last (thunks ob1))]
         \<and> com' = com\<lparr>fractionalSupplyActivated_bytes := wr s, partialExecOfferActivationAmount_bytes := wr 0,
              partialExecThresholdKey := zero_key, thresholdKeyIsNull := 1\<rparr>
         \<and> stats' = count_full (length pre) stats
       else process_partial T D p q tax (s - sold pre * 1024) (fst (hd rest))
         (ob1, dl1,
          com\<lparr>fractionalSupplyActivated_bytes := wr s,
              partialExecOfferActivationAmount_bytes := wr (s - sold pre * 1024)\<rparr>,
          count_full (length pre) stats) = Inr (ob', dl', com', stats'))"
proof -
  let ?es = "entries (bk (committed_offers ob))"
  obtain c fc where sp: "ot_endow_split T (int (s div 1024)) (committed_offers ob) = (c, fc)"
    and c: "entries (bk c) = rest" and fc: "entries (bk fc) = pre"
    using endow_split_book [OF T, of "s div 1024" "committed_offers ob"] split by auto
  have es: "?es = pre @ rest" and le: "sold pre \<le> s div 1024" using split_at_append [OF split] by auto
  have P: "sold pre < 2 ^ 63" using ok es by (simp add: book_ok_def)
  have rem: "fa_sub s (fa_from_integral (to_u128 (ot_root_endow T fc))) = s - sold pre * 1024"
  proof -
    have "fa_from_integral (to_u128 (ot_root_endow T fc)) = sold pre * 1024"
      using P T fc by (simp only: trie_eqs to_u128_i64 fa_from_integral_63)
    moreover have "sold pre * 1024 \<le> s" using le by (metis div_times_less_eq_dividend mult_le_mono1 order_trans)
    ultimately show ?thesis using s by (simp only: fa_sub_eq)
  qed
  have zero: "fa_from_integral 0 = 0" by (simp add: fp_from_integral_def)
  have small: "int (s div 1024) \<le> INT64_MAX"
    using run by (auto simp: process_clear_offers_def Let_def floor_split split: if_splits)
  define ob1 where "ob1 = ob\<lparr>committed_offers := c,
    thunks := butlast (thunks ob) @ [(last (thunks ob))\<lparr>cleared_offers := fc\<rparr>]\<rparr>"
  have top: "on_top_thunk (\<lambda>th. th\<lparr>cleared_offers := fc\<rparr>) (ob\<lparr>committed_offers := c\<rparr>) = Inr ob1"
    using th by (simp add: on_top_thunk_eq ob1_def)
  have ob1: "thunks ob1 \<noteq> []" "committed_offers ob1 = c"
      "\<exists>fc. thunks ob1 = butlast (thunks ob) @ [(last (thunks ob))\<lparr>cleared_offers := fc\<rparr>]" by (auto simp: ob1_def)
  obtain dl1 where ap: "apply_clearing D p q tax (map snd pre) dl = Inr dl1"
    using run small sp fc T
    by (auto simp: process_clear_offers_def Let_def floor_split bind_result_Inr p q trie_eqs split: if_splits)
  show ?thesis
  proof (cases "rest = []")
    case True
    have e: "process_clear_offers T D wr s prices tax (ob, dl, com, stats) =
      (if s - sold pre * 1024 \<noteq> 0
       then Inl (RuntimeError ''null partial_exec_key (lowest offer key) but remaining to clear is nonzero'')
       else bind_result (on_top_thunk set_no_partial_exec ob1)
         (\<lambda>ob2. Inr (ob2, dl1, com\<lparr>fractionalSupplyActivated_bytes := wr s,
            partialExecOfferActivationAmount_bytes := wr (s - sold pre * 1024),
            partialExecThresholdKey := zero_key, thresholdKeyIsNull := 1\<rparr>, count_full (length pre) stats)))"
      using small sp fc T ap True c ob1 zero
      by (simp add: process_clear_offers_def Let_def floor_split p [symmetric] q [symmetric] trie_eqs(8,10,11) top
          rem [unfolded trie_eqs] count_full_def)
    have "s - sold pre * 1024 = 0" using run e by (auto split: if_splits)
    moreover have "sold pre * 1024 \<le> s" using le by (metis div_times_less_eq_dividend mult_le_mono1 order_trans)
    ultimately show ?thesis
      using run ap ob1 c True e th by (auto simp: on_top_thunk_eq intro!: exI [of _ ob1])
  next
    case False
    have "process_clear_offers T D wr s prices tax (ob, dl, com, stats) =
      process_partial T D p q tax (s - sold pre * 1024) (fst (hd rest))
         (ob1, dl1,
          com\<lparr>fractionalSupplyActivated_bytes := wr s,
              partialExecOfferActivationAmount_bytes := wr (s - sold pre * 1024)\<rparr>,
          count_full (length pre) stats)"
      using small sp fc T ap False c ob1 zero
      by (simp add: process_clear_offers_def Let_def floor_split p [symmetric] q [symmetric] trie_eqs(8,10,11) top
          rem [unfolded trie_eqs] count_full_def)
    then show ?thesis using run ap ob1 c False by auto
  qed
qed

section \<open>The validator follows\<close>

text \<open>
  The header codec, as the utility submodule documents it: reading back a written 128-bit value
  gives the value.
\<close>

definition codec16 :: "(nat \<Rightarrow> nat list) \<Rightarrow> (nat list \<Rightarrow> nat) \<Rightarrow> bool" where
  "codec16 wr rd \<longleftrightarrow> (\<forall>v. v < 2 ^ 128 \<longrightarrow> rd (wr v) = v)"

lemma codec16_be: "codec16 (be_bytes 16) be_value"
  by (simp add: codec16_def be_value_be_bytes)

lemma memcmp_refl: "memcmp k k = 0"
  by (induction k) auto

lemma validate_all_outcome:
  assumes T: "offer_trie_ok T bk" and ok: "book_ok (entries (bk (committed_offers ob)))" and th: "thunks ob \<noteq> []"
    and v: "v < 2 ^ 128"
    and com: "partialExecThresholdKey com = zero_key" "partialExecOfferActivationAmount rd com = 0"
    and ap: "apply_clearing D (prices ! sellAsset (ob_category ob)) (prices ! buyAsset (ob_category ob)) tax
      (map snd (entries (bk (committed_offers ob)))) dl = Inr dl'"
  shows "\<exists>ob'. tentative_clear_offers_for_validation T D rd com prices tax (ob, dl, \<lparr>activated_supply = v\<rparr>, stats)
      = Inr (True, ob', dl', \<lparr>activated_supply = fa_add v (sold (entries (bk (committed_offers ob))) * 1024)\<rparr>,
          count_full (length (entries (bk (committed_offers ob)))) stats)
    \<and> entries (bk (committed_offers ob')) = []"
proof -
  let ?es = "entries (bk (committed_offers ob))"
  obtain c where del: "ot_perform_deletion T zero_key (committed_offers ob) = (c, None)" and c: "entries (bk c) = ?es"
    using deletion_book [OF T, of zero_key "committed_offers ob"] book_no_zero [OF ok] by auto
  have P: "sold ?es < 2 ^ 63" using ok by (simp add: book_ok_def)
  have lt: "ot_endow_lt_key T zero_key (committed_offers ob) = i64 (int 0)"
    using T book_no_zero(1) [OF ok] by (simp add: trie_eqs)
  have "fa_add v 0 = v" using v by (simp add: fa_add_eq)
  then have vs: "activate (i64 (int (sold ?es))) (activate (i64 (int 0)) \<lparr>activated_supply = v\<rparr>)
      = \<lparr>activated_supply = fa_add v (sold ?es * 1024)\<rparr>"
    using P by (simp only: activate_eq zero_less_power zero_less_numeral mult_0)
  have zero: "fa_from_integral 0 = 0" by (simp add: fp_from_integral_def)
  show ?thesis
    unfolding tentative_clear_offers_for_validation_def validate_all_def
    using ap th c T vs
    by (simp add: Let_def com del lt zero memcmp_refl trie_eqs(9,10,11) on_top_thunk_eq count_full_def
        trie_eqs(1) [OF T] empty_book_def)
qed

text \<open>The test by which a validator decides to clear a new offer at once.\<close>

definition below_threshold :: "'h single_orderbook_state_commitment \<Rightarrow> offer_key \<Rightarrow> bool" where
  "below_threshold com k \<longleftrightarrow> thresholdKeyIsNull com = 1 \<or> 0 < memcmp (partialExecThresholdKey com) k"

lemma book_ok_above:
  assumes "book_ok (xs @ (k, v) # ys)" and "e \<in> set ((k, v) # ys)"
  shows "memcmp k (fst e) \<le> 0"
proof -
  have "e = (k, v) \<or> memcmp k (fst e) < 0"
    using assms by (auto simp: book_ok_def sorted_wrt_append key_lt_def)
  then show ?thesis using memcmp_refl [of k] by auto
qed

context clearing_database
begin

lemma validate_partial_outcome:
  assumes T: "offer_trie_ok T bk" and es: "entries (bk (committed_offers ob)) = pre @ (k, v) # rest"
    and ok: "book_ok (pre @ (k, v) # rest)" and th: "thunks ob \<noteq> []"
    and cat: "category v = ob_category ob"
    and p: "p = prices ! sellAsset (ob_category ob)" and q: "q = prices ! buyAsset (ob_category ob)"
    and com: "partialExecThresholdKey com = k" "partialExecOfferActivationAmount rd com = r"
    and r: "r < 2 ^ 128" "cdiv r 1024 \<le> amount v"
    and ap: "apply_clearing D p q tax (map snd pre) (db, lg) = Inr (db1, lg1)"
    and idx: "lookup (owner v) db1 = Some idx"
    and part: "clear_offer_partial transfer v p q tax r idx db1 = Some (db2, int (cdiv r 1024), buy)"
  shows "\<exists>ob'. tentative_clear_offers_for_validation T D rd com prices tax (ob, (db, lg), \<lparr>activated_supply = v0\<rparr>, stats)
      = Inr (True, ob', (db2, log_self v lg @ map (\<lambda>y. (owner y, offerId y)) (map snd pre)),
          \<lparr>activated_supply = fa_add v0 (sold pre * 1024)\<rparr>, count_partial v (cdiv r 1024) (count_full (length pre) stats))
    \<and> entries (bk (committed_offers ob')) = after_partial k v (cdiv r 1024) rest"
proof -
  note at = book_at_threshold [OF ok]
  obtain c where del: "ot_perform_deletion T k (committed_offers ob) = (c, Some v)" and c: "entries (bk c) = pre @ rest"
    using deletion_book [OF T, of k "committed_offers ob"] at es by auto
  have bound: "sold pre < 2 ^ 63" "amount v < 2 ^ 63" using ok by (simp_all add: book_ok_def)
  have lt: "ot_endow_lt_key T k (committed_offers ob) = int (sold pre)"
    using T at(1) es bound(1) by (simp add: trie_eqs in_i64_def)
  have pos: "list_all (\<lambda>e. 0 < amount (snd e)) rest" using ok by (simp add: book_ok_def list_all_iff)
  obtain c1 fc where sp: "ot_endow_split T (int (sold pre)) c = (c1, fc)"
    and c1: "entries (bk c1) = rest" and fc: "entries (bk fc) = pre"
    using endow_split_book [OF T, of "sold pre" c] c split_at_exact [OF pos, of pre] by auto
  have idx0: "lookup (owner v) db = Some idx" using idx lookup_apply_clearing [OF ap] by simp
  obtain x where db2: "db2 = transfer idx (buyAsset (category v)) x db1"
    and part0: "clear_offer_partial transfer v p q tax r idx db
      = Some (transfer idx (buyAsset (category v)) x db, int (cdiv r 1024), buy)"
    using part by (auto simp: clear_offer_partial_def Let_def split: Option.bind_splits)
  have ap2: "apply_clearing D p q tax (map snd pre) (transfer idx (buyAsset (category v)) x db, log_self v lg)
      = Inr (db2, log_self v lg @ map (\<lambda>y. (owner y, offerId y)) (map snd pre))"
    using apply_clearing_commute [OF ap] db2 by blast
  have vs: "activate (int (sold pre)) \<lparr>activated_supply = v0\<rparr> = \<lparr>activated_supply = fa_add v0 (sold pre * 1024)\<rparr>"
    using activate_eq [OF bound(1), of v0] bound(1) by (simp add: in_i64_def)
  have u: "to_u64 (int (cdiv r 1024)) = cdiv r 1024" using r bound by (intro to_u_exact) simp
  have sub: "sub64 (amount v) (cdiv r 1024) = amount v - cdiv r 1024" using r bound by (intro sub64_id) simp_all
  have "\<not> amount v < cdiv r 1024" using r by simp
  then show ?thesis
    unfolding tentative_clear_offers_for_validation_def validate_partial_def
    using th T c1 fc ap2
    by (simp add: Let_def com del lt idx0 cat p [symmetric] q [symmetric] part0 u sub sp vs on_top_thunk_eq
        trie_eqs(2,10,11) count_full_def count_partial_def after_partial_def b_insert_def)
qed

end

context clearing_database
begin

lemma partition_clearing:
  assumes ap: "apply_clearing D p q tax (map snd pre) (db, lg) = Inr (db1, lg1)"
    and vdb: "vdb = apply_plan transfer (map (offer_transfer p q tax db) (map snd (filter P pre))) db"
  shows "apply_clearing D p q tax (map snd (filter (\<lambda>e. \<not> P e) pre)) (vdb, vlg)
      = Inr (db1, vlg @ map log_of (map snd (filter (\<lambda>e. \<not> P e) pre)))
    \<and> mset lg1 = mset (lg @ map log_of (map snd (filter P pre)) @ map log_of (map snd (filter (\<lambda>e. \<not> P e) pre)))"
proof -
  let ?E = "map snd (filter P pre)" and ?R = "map snd (filter (\<lambda>e. \<not> P e) pre)"
  let ?pl = "offer_transfer p q tax db"
  have parts: "mset ?E + mset ?R = mset (map snd pre)"
    by (metis image_mset_union mset_filter mset_map multiset_partition)
  have db1: "db1 = apply_plan transfer (map ?pl (map snd pre)) db" "lg1 = lg @ map log_of (map snd pre)"
    using ap apply_clearing_plan [OF ap order_refl same_accounts_refl, of lg] by auto
  have "mset (map ?pl ?E @ map ?pl ?R) = mset (map ?pl (map snd pre))"
    unfolding mset_append mset_map [of ?pl] image_mset_union [symmetric] parts ..
  from apply_plan_mset [OF this]
  have "apply_plan transfer (map ?pl ?R) (apply_plan transfer (map ?pl ?E) db) = db1"
    unfolding db1 apply_plan_simps(3) [symmetric] by simp
  moreover have "mset (map log_of ?E) + mset (map log_of ?R) = mset (map log_of (map snd pre))"
    unfolding mset_map [of log_of] image_mset_union [symmetric] parts ..
  moreover have "apply_clearing D p q tax ?R (vdb, vlg) = Inr (apply_plan transfer (map ?pl ?R) vdb, vlg @ map log_of ?R)"
    by (intro apply_clearing_plan [OF ap]) (auto simp: vdb)
  ultimately show ?thesis unfolding vdb db1(2) by simp
qed

text \<open>
  The general case: the offers whose keys satisfy \<open>early\<close> lie below the threshold of the header and
  the validator has cleared them before, so they are not in its book.
\<close>

lemma validator_agrees:
  assumes T: "offer_trie_ok T bk" and codec: "codec16 wr rd"
    and ok: "book_ok (entries (bk (committed_offers ob)))"
    and cats: "\<forall>e \<in> set (entries (bk (committed_offers ob))). category (snd e) = ob_category ob"
    and th: "thunks ob \<noteq> []" and s: "s < 2 ^ 128"
    and p: "p = prices ! sellAsset (ob_category ob)" and q: "q = prices ! buyAsset (ob_category ob)"
    and run: "process_clear_offers T D wr s prices tax (ob, (db, lg), com, stats) = Inr (ob', (db', lg'), com', stats')"
    and es_def: "es = filter (\<lambda>e. early (fst e)) (entries (bk (committed_offers ob)))"
    and below: "\<And>e. e \<in> set es \<Longrightarrow> below_threshold com' (fst e)"
    and vob: "entries (bk (committed_offers vob)) = filter (\<lambda>e. \<not> early (fst e)) (entries (bk (committed_offers ob)))"
      "ob_category vob = ob_category ob" "thunks vob \<noteq> []"
    and vdb: "vdb = apply_plan transfer (map (offer_transfer p q tax db) (map snd es)) db"
  shows "\<exists>vob' nl vs vstats. tentative_clear_offers_for_validation T D rd com' prices tax
        (vob, (vdb, vlg), \<lparr>activated_supply = sold es * 1024\<rparr>, vst)
      = Inr (True, vob', (db', vlg @ nl), vs, vstats)
    \<and> entries (bk (committed_offers vob')) = entries (bk (committed_offers ob'))
    \<and> mset (lg @ map log_of (map snd es) @ nl) = mset lg'
    \<and> fa_add (activated_supply vs) (partialExecOfferActivationAmount rd com') = fractionalSupplyActivated rd com'
    \<and> check_threshold_key com'
    \<and> (es = [] \<and> vst = stats \<longrightarrow> vstats = stats')"
proof -
  let ?es = "entries (bk (committed_offers ob))" and ?E = "\<lambda>e. early (fst e)"
  obtain pre rest where split: "split_at (s div 1024) ?es = (pre, rest)" by fastforce
  have ent: "?es = pre @ rest" and le: "sold pre \<le> s div 1024" using split_at_append [OF split] by auto
  have le': "sold pre * 1024 \<le> s" using le by (metis div_times_less_eq_dividend mult_le_mono1 order_trans)
  let ?r = "s - sold pre * 1024"
  have dec: "rd (wr s) = s" "rd (wr ?r) = ?r" using codec s by (auto simp: codec16_def)
  obtain db1 lg1 ob1 where ap: "apply_clearing D p q tax (map snd pre) (db, lg) = Inr (db1, lg1)"
    and ob1: "thunks ob1 \<noteq> []" "entries (bk (committed_offers ob1)) = rest"
    and fin: "if rest = []
       then s = sold pre * 1024 \<and> (db', lg') = (db1, lg1) \<and> entries (bk (committed_offers ob')) = []
         \<and> com' = com\<lparr>fractionalSupplyActivated_bytes := wr s, partialExecOfferActivationAmount_bytes := wr 0,
              partialExecThresholdKey := zero_key, thresholdKeyIsNull := 1\<rparr>
         \<and> stats' = count_full (length pre) stats
       else process_partial T D p q tax ?r (fst (hd rest))
         (ob1, (db1, lg1), com\<lparr>fractionalSupplyActivated_bytes := wr s, partialExecOfferActivationAmount_bytes := wr ?r\<rparr>,
          count_full (length pre) stats) = Inr (ob', (db', lg'), com', stats')"
    using process_clear_offers_outcome [OF T ok th s split p q run] by (cases "rest = []") auto
  let ?R = "filter (\<lambda>e. \<not> ?E e) pre"
  have sums: "sold (filter ?E pre) * 1024 + sold ?R * 1024 = sold pre * 1024"
    using sold_filter_split [of ?E pre] by (metis add_mult_distrib)
  then have bound_E: "sold (filter ?E pre) * 1024 < 2 ^ 128" "sold (filter ?E pre) * 1024 + sold ?R * 1024 < 2 ^ 128"
    using s le' by linarith+
  then have vs: "fa_add (sold (filter ?E pre) * 1024) (sold ?R * 1024) = sold pre * 1024"
    by (simp only: fa_add_eq sums)
  show ?thesis
  proof (cases "rest = []")
    case True
    have 0: "rd (wr 0) = 0" using codec by (simp add: codec16_def)
    from fin True have f: "s = sold pre * 1024" "db1 = db'" "lg1 = lg'" "entries (bk (committed_offers ob')) = []"
      "stats' = count_full (length pre) stats"
      and com': "com' = com\<lparr>fractionalSupplyActivated_bytes := wr s, partialExecOfferActivationAmount_bytes := wr 0,
              partialExecThresholdKey := zero_key, thresholdKeyIsNull := 1\<rparr>" by auto
    have pe: "partialExecOfferActivationAmount rd com' = 0" "fractionalSupplyActivated rd com' = s"
      "partialExecThresholdKey com' = zero_key"
      using dec 0 s by (simp_all add: com' partialExecOfferActivationAmount_def fractionalSupplyActivated_def fp_from_raw_def)
    have es: "es = filter ?E pre" "entries (bk (committed_offers vob)) = ?R" using es_def ent True vob(1) by simp_all
    note part = partition_clearing [OF ap, of vdb ?E vlg, OF vdb [unfolded es(1)]]
    have "check_threshold_key com'" by (simp add: com' check_threshold_key_def zero_key_def memcmp_refl)
    moreover obtain vob' where val: "tentative_clear_offers_for_validation T D rd com' prices tax
        (vob, (vdb, vlg), \<lparr>activated_supply = sold es * 1024\<rparr>, vst)
      = Inr (True, vob', (db', vlg @ map log_of (map snd ?R)), \<lparr>activated_supply = s\<rparr>, count_full (length ?R) vst)"
      and ent': "entries (bk (committed_offers vob')) = []"
      using validate_all_outcome [OF T _ vob(3) bound_E(1) pe(3,1), where D = D and prices = prices and tax = tax
          and dl = "(vdb, vlg)" and dl' = "(db', vlg @ map log_of (map snd ?R))" and stats = vst]
        conjunct1 [OF part] es book_ok_filter [OF ok, of "\<lambda>e. \<not> ?E e"] vob vs
      by (auto simp: f p q)
    moreover have "es = [] \<Longrightarrow> ?R = pre" unfolding es(1) by (simp add: filter_empty_conv filter_id_conv)
    moreover have "mset (lg @ map log_of (map snd es) @ map log_of (map snd ?R)) = mset lg'"
      using conjunct2 [OF part] unfolding es(1) f(3) by simp
    moreover have "fa_add s 0 = s" using s by (simp add: fa_add_eq)
    ultimately show ?thesis
      using val ent' f(4,5) pe(1,2)
      by (intro exI [of _ vob'] exI [of _ "map log_of (map snd ?R)"]) auto
  next
    case False
    then obtain k v rs where rest: "rest = (k, v) # rs" by (cases rest) auto
    have ok': "book_ok (pre @ (k, v) # rs)" using ok ent rest by simp
    have "book_ok ((k, v) # rs)" using book_ok_append [OF ok'] by blast
    then have fresh: "del k ((k, v) # rs) = rs" using book_at_threshold(2) [of "[]" k v rs] by simp
    have bound: "amount v < 2 ^ 63" using ok' by (simp add: book_ok_def)
    have r: "?r < 2 ^ 128" "cdiv ?r 1024 \<le> amount v"
      using s remaining_le_amount [OF split_at_next [OF split [unfolded rest], unfolded snd_conv] le] by auto
    let ?com = "com\<lparr>fractionalSupplyActivated_bytes := wr s, partialExecOfferActivationAmount_bytes := wr ?r\<rparr>"
    have run': "process_partial T D p q tax ?r k (ob1, (db1, lg1), ?com, count_full (length pre) stats)
        = Inr (ob', (db', lg'), com', stats')"
      using fin rest by simp
    obtain idx db2 buy where o: "lookup (owner v) db1 = Some idx"
        "clear_offer_partial transfer v p q tax ?r idx db1 = Some (db2, int (cdiv ?r 1024), buy)"
        "(db', lg') = (db2, log_self v lg1)"
        "entries (bk (committed_offers ob')) = after_partial k v (cdiv ?r 1024) rs"
        "stats' = count_partial v (cdiv ?r 1024) (count_full (length pre) stats)"
      and com': "com' = ?com\<lparr>thresholdKeyIsNull := 0, partialExecThresholdKey := k\<rparr>"
      using process_partial_outcome [OF T ob1(2) [unfolded rest] fresh ob1(1) r bound run'] by auto
    have pe: "partialExecOfferActivationAmount rd com' = ?r" "fractionalSupplyActivated rd com' = s"
        "partialExecThresholdKey com' = k" "thresholdKeyIsNull com' = 0"
      using dec s by (simp_all add: com' partialExecOfferActivationAmount_def fractionalSupplyActivated_def fp_from_raw_def)
    have late: "\<not> ?E e" if e: "e \<in> set ((k, v) # rs)" for e
    proof
      assume "?E e"
      then have "e \<in> set es" using e unfolding es_def ent rest by auto
      from below [OF this] book_ok_above [OF ok' e] show False by (simp add: below_threshold_def pe)
    qed
    then have "filter ?E rest = []" "filter (\<lambda>e. \<not> ?E e) rest = rest"
      unfolding rest by (simp_all only: filter_empty_conv filter_id_conv) blast+
    then have es: "es = filter ?E pre" "entries (bk (committed_offers vob)) = ?R @ (k, v) # rs"
      unfolding es_def vob(1) ent by (simp_all add: rest)
    note part = partition_clearing [OF ap, of vdb ?E "log_self v vlg", OF vdb [unfolded es(1)]]
    note part' = partition_clearing [OF ap, of vdb ?E vlg, OF vdb [unfolded es(1)]]
    have okR: "book_ok (?R @ (k, v) # rs)" using book_ok_filter [OF ok, of "\<lambda>e. \<not> ?E e"] es(2) vob(1) by simp
    have cat: "category v = ob_category vob" using cats ent rest vob by simp
    obtain vob' where val: "tentative_clear_offers_for_validation T D rd com' prices tax
          (vob, (vdb, vlg), \<lparr>activated_supply = sold es * 1024\<rparr>, vst)
        = Inr (True, vob', (db2, log_self v vlg @ map log_of (map snd ?R)),
            \<lparr>activated_supply = sold pre * 1024\<rparr>, count_partial v (cdiv ?r 1024) (count_full (length ?R) vst))"
      and ent': "entries (bk (committed_offers vob')) = after_partial k v (cdiv ?r 1024) rs"
      using validate_partial_outcome [OF T es(2) okR vob(3) cat _ _ pe(3,1) r conjunct1 [OF part'] o(1,2),
          where prices = prices and stats = vst and ?v0.0 = "sold (filter ?E pre) * 1024"] vob(2) p q
      unfolding es(1) vs log_of_def [abs_def] by auto
    have kok: "key_ok k" using ok' by (simp add: book_ok_def)
    then have "memcmp (replicate ORDERBOOK_KEY_LEN 0) k \<noteq> 0"
      using memcmp_be_value [of "replicate ORDERBOOK_KEY_LEN 0" k]
      by (auto simp: key_ok_def zero_key_def bytes_def)
    then have "check_threshold_key com'" by (simp add: com' check_threshold_key_def)
    moreover have "fa_add (sold pre * 1024) ?r = s" using s le' by (subst fa_add_eq) simp_all
    moreover have "es = [] \<Longrightarrow> ?R = pre" unfolding es(1) by (simp add: filter_empty_conv filter_id_conv)
    moreover have "mset (lg @ map log_of (map snd es) @ log_of v # map log_of (map snd ?R)) = mset lg'"
      using o(3) conjunct2 [OF part] unfolding es(1) by (simp add: log_self_def log_of_def)
    ultimately show ?thesis
      using val ent' o pe(1,2)
      by (intro exI [of _ vob'] exI [of _ "log_of v # map log_of (map snd ?R)"]) (auto simp: log_self_def log_of_def)
  qed
qed

end

section \<open>The memory database meets the contract\<close>

lemma grow_update_commute:
  fixes f g :: "revertable_asset \<Rightarrow> revertable_asset"
  assumes fg: "\<And>x. f (g x) = g (f x)"
  shows "(let ys = grow_to j (let zs = grow_to k xs in zs[k := g (zs ! k)]) in ys[j := f (ys ! j)])
    = (let ys = grow_to k (let zs = grow_to j xs in zs[j := f (zs ! j)]) in ys[k := g (ys ! k)])"
proof (intro nth_equalityI)
  fix i
  assume "i < length (let ys = grow_to j (let zs = grow_to k xs in zs[k := g (zs ! k)]) in ys[j := f (ys ! j)])"
  then show "(let ys = grow_to j (let zs = grow_to k xs in zs[k := g (zs ! k)]) in ys[j := f (ys ! j)]) ! i
    = (let ys = grow_to k (let zs = grow_to j xs in zs[j := f (zs ! j)]) in ys[k := g (ys ! k)]) ! i"
    using fg by (simp add: grow_to_eq Let_def nth_append nth_list_update)
qed (auto simp: grow_to_eq Let_def)

lemma account_eqI:
  assumes "all_assets a = all_assets b" and "length (owned_assets a) = length (owned_assets b)"
    and "seq_tracker a = seq_tracker b" and "acct_owner a = acct_owner b" and "pk a = pk b"
  shows "a = (b :: 'pk user_account)"
proof -
  have "owned_assets a = owned_assets b \<and> uncommitted_assets a = uncommitted_assets b"
    using assms(1,2) by (simp add: all_assets_def)
  then show ?thesis using assms(3-5) by (intro user_account.equality) auto
qed

lemma length_owned_operate: "length (owned_assets (snd (operate_on_asset k f a))) = length (owned_assets a)"
  by (simp add: operate_on_asset_def Let_def split: prod.splits)

lemma transfer_account_commute:
  "ua_transfer_available j x (ua_transfer_available k y a) = ua_transfer_available k y (ua_transfer_available j x a)"
proof (rule account_eqI)
  have "ra_transfer_available x (ra_transfer_available y v) = ra_transfer_available y (ra_transfer_available x v)" for v
    by (simp add: ra_transfer_available_def ac_simps)
  then show "all_assets (ua_transfer_available j x (ua_transfer_available k y a))
      = all_assets (ua_transfer_available k y (ua_transfer_available j x a))"
    unfolding ua_transfer_available_def all_assets_operate snd_conv by (rule grow_update_commute)
qed (simp_all add: ua_transfer_available_def length_owned_operate)

lemma db_modify_commute:
  assumes "\<And>a. f (g a) = g (f a)"
  shows "db_modify i f (db_modify j g db) = db_modify j g (db_modify i f db)"
proof (cases "i = j")
  case True
  then show ?thesis using assms by (simp add: db_modify_modify comp_def)
next
  case False
  define oi oj ri rj where o: "oi = i div 2 ^ 16" "oj = j div 2 ^ 16" "ri = i mod 2 ^ 16" "rj = j mod 2 ^ 16"
  have ne: "oi \<noteq> oj \<or> ri \<noteq> rj" using False unfolding o by (metis div_mult_mod_eq)
  have swap: "upd_at (upd_at xs oj (\<lambda>r. r\<lparr>row := (row r)(rj := g (row r rj))\<rparr>)) oi (\<lambda>r. r\<lparr>row := (row r)(ri := f (row r ri))\<rparr>)
    = upd_at (upd_at xs oi (\<lambda>r. r\<lparr>row := (row r)(ri := f (row r ri))\<rparr>)) oj (\<lambda>r. r\<lparr>row := (row r)(rj := g (row r rj))\<rparr>)" for xs
    by (rule upd_at_swap) (use ne in \<open>auto simp: fun_upd_twist\<close>)
  have "av_modify i f (av_modify j g v) = av_modify j g (av_modify i f v)" for v
    unfolding av_modify_def Let_def o [symmetric] by (simp add: swap)
  then show ?thesis by (simp add: db_modify_def)
qed

interpretation mdb: clearing_database db_lookup_user db_transfer_available
proof unfold_locales
  show "db_lookup_user u (db_transfer_available p a x db) = db_lookup_user u db"
    for u p a x and db :: "('a, 'b) memory_database"
    by (simp add: db_lookup_user_def db_transfer_available_def db_modify_def)
  show "db_transfer_available p a x (db_transfer_available q b y db)
      = db_transfer_available q b y (db_transfer_available p a x db)"
    for p a x q b y and db :: "('a, 'b) memory_database"
    unfolding db_transfer_available_def by (rule db_modify_commute) (rule transfer_account_commute)
qed

definition memory_db :: "(nat, ('pk, 't) memory_database) clearing_db" where
  "memory_db = \<lparr>cd_lookup_user = db_lookup_user, cd_transfer = db_transfer_available\<rparr>"

section \<open>Properties\<close>

text \<open>
  Property C2. Producer and validator agree on the clearing of an orderbook. Let the producer
  clear a well-formed book successfully and publish the header entry \<open>com'\<close>, and let a validator
  hold the same book and the same account database. Then the validator's clearing succeeds on that
  entry: it accepts, ends with exactly the producer's account database, with the same offers in the
  book and the same statistics, logs the same account modifications up to order, and the supply it
  observed plus the declared partial execution is the declared supply, so its later checks of the
  header entry pass as well.
\<close>

theorem validator_reproduces_clearing:
  assumes "offer_trie_ok T bk" and "codec16 wr rd"
    and "book_ok (entries (bk (committed_offers ob)))"
    and "\<forall>e \<in> set (entries (bk (committed_offers ob))). category (snd e) = ob_category ob"
    and "thunks ob \<noteq> []" and "s < 2 ^ 128"
    and "process_clear_offers T memory_db wr s prices tax (ob, (db, lg), com, stats)
      = Inr (ob', (db', lg'), com', stats')"
    and "bk (committed_offers vob) = bk (committed_offers ob)" and "ob_category vob = ob_category ob"
    and "thunks vob \<noteq> []"
  shows "\<exists>vob' vlg vs. tentative_clear_offers_for_validation T memory_db rd com' prices tax
        (vob, (db, lg), svs_empty, stats) = Inr (True, vob', (db', vlg), vs, stats')
    \<and> entries (bk (committed_offers vob')) = entries (bk (committed_offers ob'))
    \<and> mset vlg = mset lg'
    \<and> fa_add (activated_supply vs) (partialExecOfferActivationAmount rd com') = fractionalSupplyActivated rd com'
    \<and> check_threshold_key com'"
  using mdb.validator_agrees [OF assms(1-6) refl refl assms(7) [unfolded memory_db_def], of "[]" "\<lambda>_. False" vob db lg stats]
    assms(8-10) unfolding memory_db_def svs_empty_def by fastforce

definition example_key :: "nat \<Rightarrow> offer_key" where
  "example_key i = replicate 21 0 @ [i]"

definition example_book :: "book orderbook" where
  "example_book =
     \<lparr>ob_category = \<lparr>sellAsset = 0, buyAsset = 1, cat_type = SELL\<rparr>,
      committed_offers = empty_book\<lparr>entries := [(example_key 1, example_offer 1 10 3), (example_key 2, example_offer 2 20 5)]\<rparr>,
      uncommitted_offers = empty_book, thunks = [new_thunk list_trie 1], indexed_metadata = []\<rparr>"

definition example_commitment :: "unit single_orderbook_state_commitment" where
  "example_commitment =
     \<lparr>rootHash = (), fractionalSupplyActivated_bytes = [], partialExecThresholdKey = zero_key,
      thresholdKeyIsNull = 0, partialExecOfferActivationAmount_bytes = []\<rparr>"

lemma memcmp_same_prefix: "memcmp (xs @ ys) (xs @ zs) = memcmp ys zs"
  by (induction xs) auto

lemma example_key_facts:
  "key_lt (example_key i) (example_key j) \<longleftrightarrow> i < j" "0 < i \<Longrightarrow> i < 256 \<Longrightarrow> key_ok (example_key i)"
proof -
  show "key_lt (example_key i) (example_key j) \<longleftrightarrow> i < j"
    by (simp add: key_lt_def example_key_def memcmp_same_prefix)
  have "zero_key = replicate (Suc 21) 0" by (simp add: zero_key_def ORDERBOOK_KEY_LEN_def)
  then have z: "zero_key = example_key 0"
    by (simp only: replicate_Suc replicate_append_same [symmetric] example_key_def)
  show "0 < i \<Longrightarrow> i < 256 \<Longrightarrow> key_ok (example_key i)"
    by (auto simp: key_ok_def z example_key_def ORDERBOOK_KEY_LEN_def bytes_def)
qed

lemma example_book_ok: "book_ok (entries (committed_offers example_book))"
  by (simp add: book_ok_def example_book_def empty_book_def example_key_facts example_offer_def)

lemma example_taxed:
  "taxed_buy_amount 10240 16777216 16777216 10 = Some 9"
  "taxed_buy_amount 5120 16777216 16777216 10 = Some 4"
  by (simp_all add: taxed_buy_amount_def wide_multiply_val_by_a_over_b_def price_consts Let_def fp_from_raw_def
      fp_tax_and_round_def tax_amount_def get_lowbits_mask_def sub128_def FRACTIONAL_RADIX_def)

lemma example_clearing:
  "\<exists>ob' com' stats'. process_clear_offers list_trie memory_db (be_bytes 16) (15 * 1024) [PRICE_ONE, PRICE_ONE] 10
     (example_book, (one_account_db, []), example_commitment, empty_stats)
   = Inr (ob', (db_transfer_available 0 1 4 (db_transfer_available 0 1 9 one_account_db), [(7, 1), (7, 2)]), com', stats')
     \<and> partialExecThresholdKey com' = example_key 2 \<and> thresholdKeyIsNull com' = 0"
proof -
  have lk: "db_lookup_user 7 (db_transfer_available i a x db) = db_lookup_user 7 db" for i a x
    and db :: "(unit, account_id \<rightharpoonup> unit account_commitment) memory_database"
    by (rule mdb.lookup_transfer)
  have l: "db_lookup_user 7 one_account_db = Some 0" by (simp add: db_lookup_user_def one_account_db_facts)
  have ix: "fa_from_integral 10 = 10240" by (simp add: fp_from_integral_def FRACTIONAL_RADIX_def)
  have sub: "fa_sub 15360 10240 = 5120" by (simp add: fp_sub_def sub128_def)
  have ceil: "fa_ceil 5120 = 5" by (simp add: fp_ceil_def fp_floor_def FRACTIONAL_RADIX_def)
  have k: "example_key 2 \<noteq> example_key 1" by (simp add: example_key_def)
  show ?thesis
    using k
    by (simp add: process_clear_offers_def process_partial_def floor_split list_trie_def example_book_def empty_book_def
        b_endow_split_def example_offer_def complete_clearing_def memory_db_def l lk clear_offer_full_def
        clear_offer_partial_def ix example_taxed a_over_b_lt_c_def price_consts u128_def i64_def
        log_self_def on_top_thunk_eq to_u128_def sub b_perform_deletion_def del_def ceil to_u64_def Let_def)
qed

theorem validator_reproduces_clearing_witness:
  "\<exists>ob' com' stats'.
     process_clear_offers list_trie memory_db (be_bytes 16) (15 * 1024) [PRICE_ONE, PRICE_ONE] 10
       (example_book, (one_account_db, []), example_commitment, empty_stats)
     = Inr (ob', (db_transfer_available 0 1 4 (db_transfer_available 0 1 9 one_account_db), [(7, 1), (7, 2)]), com', stats')
   \<and> (\<exists>vob' vlg vs. tentative_clear_offers_for_validation list_trie memory_db be_value com' [PRICE_ONE, PRICE_ONE] 10
        (example_book, (one_account_db, []), svs_empty, empty_stats)
        = Inr (True, vob', (db_transfer_available 0 1 4 (db_transfer_available 0 1 9 one_account_db), vlg), vs, stats')
      \<and> entries (committed_offers vob') = entries (committed_offers ob')
      \<and> mset vlg = mset [(7, 1), (7, 2)]
      \<and> fa_add (activated_supply vs) (partialExecOfferActivationAmount be_value com')
          = fractionalSupplyActivated be_value com'
      \<and> check_threshold_key com')"
proof -
  obtain ob' com' stats' where run:
    "process_clear_offers list_trie memory_db (be_bytes 16) (15 * 1024) [PRICE_ONE, PRICE_ONE] 10
       (example_book, (one_account_db, []), example_commitment, empty_stats)
     = Inr (ob', (db_transfer_available 0 1 4 (db_transfer_available 0 1 9 one_account_db), [(7, 1), (7, 2)]), com', stats')"
    using example_clearing by blast
  have "\<forall>e \<in> set (entries (committed_offers example_book)). category (snd e) = ob_category example_book"
    "thunks example_book \<noteq> []"
    by (auto simp: example_book_def empty_book_def example_offer_def)
  then show ?thesis
    using run validator_reproduces_clearing [OF list_trie_ok codec16_be example_book_ok _ _ _ run refl refl] by auto
qed

text \<open>
  Property C36. The validator never compares the limit price of the partially executed offer with
  the exchange rate of the block: whatever limit price the first offer of a book has, a header
  that names it as the threshold offer and declares an activation of at most its amount is accepted
  by the clearing of this book, and the offer is executed at the block's prices. Only offers cleared
  in full are checked.
\<close>

theorem threshold_limit_price_unchecked:
  assumes "offer_trie_ok T bk" and "entries (bk (committed_offers ob)) = (k, v) # rest"
    and "book_ok ((k, v) # rest)" and "thunks ob \<noteq> []" and "category v = ob_category ob"
    and "partialExecThresholdKey com = k" and "partialExecOfferActivationAmount rd com = r"
    and "r < 2 ^ 128" and "cdiv r 1024 \<le> amount v"
    and "db_lookup_user (owner v) db = Some idx"
    and "taxed_buy_amount r (prices ! sellAsset (ob_category ob)) (prices ! buyAsset (ob_category ob)) tax = Some b"
  shows "\<exists>ob' vs stats'. tentative_clear_offers_for_validation T memory_db rd com prices tax (ob, (db, lg), svs_empty, stats)
      = Inr (True, ob', (db_transfer_available idx (buyAsset (ob_category ob)) (i64 (int b)) db, log_self v lg), vs, stats')"
proof -
  let ?p = "prices ! sellAsset (ob_category ob)" and ?q = "prices ! buyAsset (ob_category ob)"
  have "cdiv r 1024 < 2 ^ 63" using assms(3,9) by (simp add: book_ok_def)
  then have "i64 (int (fa_ceil r)) = int (cdiv r 1024)"
    using assms(8) by (simp add: fp_ceil_eq FRACTIONAL_RADIX_def in_i64_def)
  then have part: "clear_offer_partial db_transfer_available v ?p ?q tax r idx db
      = Some (db_transfer_available idx (buyAsset (ob_category ob)) (i64 (int b)) db, int (cdiv r 1024), i64 (int b))"
    using assms(5,11) by (simp add: clear_offer_partial_def Let_def)
  show ?thesis
    using mdb.validate_partial_outcome [OF assms(1) _ _ assms(4,5) refl refl assms(6,7,8,9) _ assms(10) part,
        where pre = "[]" and lg = lg and ?lg1.0 = lg and db = db and stats = stats and ?v0.0 = 0] assms(2,3)
    unfolding memory_db_def svs_empty_def by auto
qed

definition greedy_header :: "unit single_orderbook_state_commitment" where
  "greedy_header = example_commitment\<lparr>partialExecThresholdKey := example_key 1,
     partialExecOfferActivationAmount_bytes := be_bytes 16 5120\<rparr>"

theorem threshold_limit_price_unchecked_witness:
  "a_over_b_lt_c PRICE_ONE PRICE_ONE (minPrice (example_offer 1 10 (2 * PRICE_ONE)))
   \<and> (\<exists>ob' vs stats'. tentative_clear_offers_for_validation list_trie memory_db be_value greedy_header
        [PRICE_ONE, PRICE_ONE] 10
        (example_book\<lparr>committed_offers := empty_book\<lparr>entries := [(example_key 1, example_offer 1 10 (2 * PRICE_ONE))]\<rparr>\<rparr>,
         (one_account_db, []), svs_empty, empty_stats)
      = Inr (True, ob', (db_transfer_available 0 1 4 one_account_db, [(7, 1)]), vs, stats'))"
proof -
  let ?v = "example_offer 1 10 (2 * PRICE_ONE)"
  let ?ob = "example_book\<lparr>committed_offers := empty_book\<lparr>entries := [(example_key 1, ?v)]\<rparr>\<rparr>"
  have "a_over_b_lt_c PRICE_ONE PRICE_ONE (minPrice ?v)"
    by (simp add: a_over_b_lt_c_def price_consts example_offer_def)
  moreover have "book_ok [(example_key 1, ?v)]"
    by (simp add: book_ok_def example_key_facts example_offer_def)
  moreover have "db_lookup_user (owner ?v) one_account_db = Some 0"
    by (simp add: db_lookup_user_def one_account_db_facts example_offer_def)
  moreover have "partialExecOfferActivationAmount be_value greedy_header = 5120"
    by (simp add: partialExecOfferActivationAmount_def greedy_header_def be_value_be_bytes fp_from_raw_def del: be_bytes.simps)
  moreover have "taxed_buy_amount 5120 PRICE_ONE PRICE_ONE 10 = Some 4"
    using example_taxed by (simp add: price_consts)
  ultimately show ?thesis
    using threshold_limit_price_unchecked [OF list_trie_ok, of ?ob "example_key 1" ?v "[]" greedy_header be_value 5120
        one_account_db 0 "[PRICE_ONE, PRICE_ONE]" 10 4 "[]" empty_stats]
    by (simp add: example_book_def greedy_header_def example_offer_def cdiv_def i64_def log_self_def)
qed

end
