(* ===== verification/Manager_Agreement.thy ===== *)
theory Manager_Agreement
  imports Orderbook_Manager Clearing_Agreement
begin

text \<open>
  Correctness of the orderbook manager: growing the set of assets keeps every book at the index
  of its pair; clearing all books gives the same result under every schedule of the parallel
  loop; a validator that clears a whole block in any order reaches the database and the books the
  producer reached in any other order. The last section is about the replay of a block from
  disk, whose loop has its failure test inverted.
\<close>

section \<open>The vector of books\<close>

definition om_wf :: "'t orderbook_manager \<Rightarrow> bool" where
  "om_wf om \<longleftrightarrow> num_assets om \<le> 46340
     \<and> length (orderbooks om) = get_num_orderbooks_by_asset_count (num_assets om)
     \<and> (\<forall>i < length (orderbooks om). category_from_idx i (num_assets om) = Some (ob_category (orderbooks om ! i)))"

definition book_of :: "offer_category \<Rightarrow> 't orderbook_manager \<Rightarrow> 't orderbook result" where
  "book_of c om = bind_result (look_up_idx c om) (\<lambda>i. vec_idx (orderbooks om) (nat i))"

lemma grown_book_eq:
  assumes wf: "om_wf om" and n: "num_assets om \<le> n" "n \<le> 46340" and c: "validate_category c n"
    and i: "category_from_idx i n = Some c"
  shows "grown_book T n om i = (if validate_category c (num_assets om) then book_of c om else Inr (ob_init T c))"
proof (cases "validate_category c (num_assets om)")
  case True
  obtain j where j: "category_to_idx c (num_assets om) = Inr (int j)" "j < length (orderbooks om)"
    using category_index [OF _ True] wf by (auto simp: om_wf_def)
  then show ?thesis
    using True i by (auto simp: grown_book_def book_of_def look_up_idx_def vec_idx_def validate_category_def
        split: if_splits)
next
  case False
  then have "\<not> (buyAsset c < num_assets om \<and> sellAsset c < num_assets om)"
    using c by (auto simp: validate_category_def split: if_splits)
  then show ?thesis using False i by (auto simp: grown_book_def)
qed

lemma book_of_valid:
  assumes wf: "om_wf om" and c: "validate_category c (num_assets om)"
  shows "\<exists>i < length (orderbooks om). look_up_idx c om = Inr (int i) \<and> book_of c om = Inr (orderbooks om ! i)
     \<and> ob_category (orderbooks om ! i) = c"
  using category_index [OF _ c] wf by (force simp: om_wf_def book_of_def look_up_idx_def vec_idx_def)

lemma grow_books_eq:
  assumes "\<And>i. i \<in> set is \<Longrightarrow> grown_book T n om i = Inr (f i)"
  shows "grow_books T n om is = Inr (map f is)"
  using assms by (induction "is") auto

lemma increase_correct:
  assumes wf: "om_wf om" and n: "num_assets om \<le> n" "n \<le> 46340"
  shows "\<exists>om'. increase_num_traded_assets T n om = Inr om' \<and> om_wf om' \<and> num_assets om' = n
    \<and> (\<forall>c. validate_category c n \<longrightarrow>
          book_of c om' = (if validate_category c (num_assets om) then book_of c om else Inr (ob_init T c)))"
proof -
  let ?N = "get_num_orderbooks_by_asset_count n"
  define cat where "cat i = the (category_from_idx i n)" for i
  define f where "f i = (case (if validate_category (cat i) (num_assets om) then book_of (cat i) om
      else Inr (ob_init T (cat i))) of Inr ob \<Rightarrow> ob)" for i
  have cat: "category_from_idx i n = Some (cat i)" "validate_category (cat i) n" if "i < ?N" for i
    using index_category [OF n(2) that] unfolding cat_def by auto
  have f: "(if validate_category (cat i) (num_assets om) then book_of (cat i) om else Inr (ob_init T (cat i))) = Inr (f i)"
    "ob_category (f i) = cat i" if "i < ?N" for i
    using book_of_valid [OF wf, of "cat i"] by (auto simp: f_def ob_init_def)
  have grow: "grow_books T n om [0..<?N] = Inr (map f [0..<?N])"
    using grown_book_eq [OF wf n cat(2) cat(1)] f by (intro grow_books_eq) (simp del: if_split)
  let ?om = "\<lparr>orderbooks = map f [0..<?N], num_assets = n\<rparr>"
  have wf': "om_wf ?om" using n cat(1) f(2) by (simp add: om_wf_def)
  have "book_of c ?om = (if validate_category c (num_assets om) then book_of c om else Inr (ob_init T c))"
    if c: "validate_category c n" for c
  proof -
    obtain i where i: "category_to_idx c n = Inr (int i)" "i < ?N" "category_from_idx i n = Some c"
      using category_index [OF n(2) c] by blast
    then have "cat i = c" by (simp add: cat_def)
    moreover have "book_of c ?om = Inr (f i)" using i by (simp add: book_of_def look_up_idx_def vec_idx_def)
    ultimately show ?thesis using f(1) [OF i(2)] by metis
  qed
  then show ?thesis using grow n wf' by (simp add: increase_num_traded_assets_def)
qed

section \<open>The effect of clearing one book\<close>

definition stats_ok :: "block_state_update_stats \<Rightarrow> bool" where
  "stats_ok s \<longleftrightarrow> new_offer_count s < 2 ^ 32 \<and> cancel_offer_count s < 2 ^ 32 \<and> fully_clear_offer_count s < 2 ^ 32
     \<and> partial_clear_offer_count s < 2 ^ 32 \<and> payment_count s < 2 ^ 32 \<and> new_account_count s < 2 ^ 32"

lemma stats_add_ok [simp]: "stats_ok (stats_add s t)" "stats_ok empty_stats"
  by (simp_all add: stats_ok_def stats_add_def u32_def empty_stats_def)

lemma stats_add_empty [simp]: "stats_ok s \<Longrightarrow> stats_add s empty_stats = s" "stats_ok s \<Longrightarrow> stats_add empty_stats s = s"
  by (simp_all add: stats_ok_def stats_add_def u32_def empty_stats_def)

lemma stats_add_assoc: "stats_add (stats_add s t) u = stats_add s (stats_add t u)"
  by (simp add: stats_add_def u32_def mod_simps add.assoc)

lemma stats_add_comm: "stats_add s t = stats_add t s"
  by (simp add: stats_add_def add.commute)

lemma stats_add_fully:
  "stats_ok s \<Longrightarrow> s\<lparr>fully_clear_offer_count := u32 (fully_clear_offer_count s + n)\<rparr>
     = stats_add s (empty_stats\<lparr>fully_clear_offer_count := n\<rparr>)"
  by (simp add: stats_ok_def stats_add_def u32_def empty_stats_def)

lemma stats_add_partial:
  "stats_ok s \<Longrightarrow> s\<lparr>partial_clear_offer_count := u32 (partial_clear_offer_count s + 1)\<rparr>
     = stats_add s (empty_stats\<lparr>partial_clear_offer_count := 1\<rparr>)"
  by (simp add: stats_ok_def stats_add_def u32_def empty_stats_def)

text \<open>
  \<open>steady\<close> describes a step whose effect on the database is a fixed list of transfers: started
  from any database with the same accounts, any log and any statistics it returns the same book
  and header entry, performs the same transfers, and appends the same log entries.
\<close>

record ('p, 't, 'h) book_outcome =
  out_book :: "'t orderbook"
  out_plan :: "('p \<times> asset_id \<times> int) list"
  out_log :: self_log
  out_com :: "'h single_orderbook_state_commitment"
  out_stats :: block_state_update_stats

context clearing_database
begin

definition steady ::
  "(('db \<times> self_log) \<Rightarrow> block_state_update_stats \<Rightarrow> ('t, 'db, 'h) producer_state result) \<Rightarrow> 'db
     \<Rightarrow> ('p, 't, 'h) book_outcome \<Rightarrow> bool" where
  "steady f db out \<longleftrightarrow> (\<forall>db2 lg stats. same_accounts db db2 \<longrightarrow> stats_ok stats \<longrightarrow>
     f (db2, lg) stats = Inr (out_book out, (apply_plan transfer (out_plan out) db2, lg @ out_log out), out_com out,
       stats_add stats (out_stats out)))"

lemma process_partial_steady:
  assumes run: "process_partial T D p q tax r k (ob, (db, lg), com, stats) = Inr res"
  shows "\<exists>out. steady (\<lambda>dl s. process_partial T D p q tax r k (ob, dl, com, s)) db out"
proof -
  obtain c off where del: "ot_perform_deletion T k (committed_offers ob) = (c, Some off)"
    using run by (auto simp: process_partial_def Let_def split: prod.splits option.splits)
  obtain idx b where idx: "lookup (owner off) db = Some idx" and b: "taxed_buy_amount r p q tax = Some b"
    using run del by (auto simp: process_partial_def clear_offer_partial_def bind_result_Inr Let_def
        split: option.splits Option.bind_splits)
  let ?sell = "i64 (int (fa_ceil r))"
  have le: "\<not> amount off < to_u64 ?sell"
    using run del idx b by (auto simp: process_partial_def clear_offer_partial_def Let_def)
  obtain ob1 where ob1: "on_top_thunk (set_partial_exec k ?sell off) (ob\<lparr>committed_offers := c\<rparr>) = Inr ob1"
    using run del idx b le by (auto simp: process_partial_def clear_offer_partial_def bind_result_Inr Let_def)
  let ?left = "sub64 (amount off) (to_u64 ?sell)"
  show ?thesis
    using del idx b le ob1
    by (intro exI [of _ "\<lparr>out_book = (if 0 < ?left
          then ob1\<lparr>committed_offers := ot_insert T k (off\<lparr>amount := ?left\<rparr>) (committed_offers ob1)\<rparr> else ob1),
        out_plan = [(idx, buyAsset (category off), i64 (int b))], out_log = [log_of off],
        out_com = com\<lparr>thresholdKeyIsNull := 0, partialExecThresholdKey := k\<rparr>,
        out_stats = (if 0 < ?left then empty_stats\<lparr>partial_clear_offer_count := 1\<rparr> else empty_stats)\<rparr>"])
      (simp add: steady_def process_partial_def clear_offer_partial_def Let_def same_accounts_def log_self_def
        log_of_def stats_add_partial [simplified])
qed

lemma process_clear_offers_steady:
  assumes run: "process_clear_offers T D wr s prices tax (ob, (db, lg), com, stats) = Inr res"
  shows "\<exists>out. steady (\<lambda>dl s'. process_clear_offers T D wr s prices tax (ob, dl, com, s')) db out"
proof -
  let ?p = "prices ! sellAsset (ob_category ob)" and ?q = "prices ! buyAsset (ob_category ob)"
  obtain c fc where split: "ot_endow_split T (int (fa_floor s)) (committed_offers ob) = (c, fc)" by fastforce
  have small: "\<not> int (fa_floor s) > INT64_MAX"
    using run by (auto simp: process_clear_offers_def Let_def split: if_splits)
  note unf = process_clear_offers_def Let_def split prod.case if_not_P [OF small]
  obtain db1 lg1 where ap: "apply_clearing D ?p ?q tax (ot_values T fc) (db, lg) = Inr (db1, lg1)"
    using run unfolding unf by (auto simp: bind_result_Inr)
  let ?pl = "offer_transfer ?p ?q tax db"
  have pl: "apply_clearing D ?p ?q tax (ot_values T fc) (db2, lg2)
      = Inr (apply_plan transfer (map ?pl (ot_values T fc)) db2, lg2 @ map log_of (ot_values T fc))"
    if "same_accounts db db2" for db2 lg2
    using that by (intro apply_clearing_plan [OF ap]) auto
  obtain ob1 where ob1: "on_top_thunk (\<lambda>th. th\<lparr>cleared_offers := fc\<rparr>) (ob\<lparr>committed_offers := c\<rparr>) = Inr ob1"
    using run ap unfolding unf by (auto simp: bind_result_Inr)
  let ?rem = "fa_sub s (fa_from_integral (to_u128 (ot_root_endow T fc)))"
  let ?com = "com\<lparr>fractionalSupplyActivated_bytes := wr s, partialExecOfferActivationAmount_bytes := wr ?rem\<rparr>"
  let ?d = "empty_stats\<lparr>fully_clear_offer_count := ot_size T fc\<rparr>"
  show ?thesis
  proof (cases "ot_get_lowest_key T (committed_offers ob1)")
    case None
    have rem: "\<not> ?rem \<noteq> fa_from_integral 0"
      using run ap ob1 None unfolding unf by (auto split: if_splits)
    obtain ob2 where ob2: "on_top_thunk set_no_partial_exec ob1 = Inr ob2"
      using run ap ob1 None rem unfolding unf by (auto simp: bind_result_Inr)
    show ?thesis
      by (rule exI [of _ "\<lparr>out_book = ob2, out_plan = map ?pl (ot_values T fc), out_log = map log_of (ot_values T fc),
          out_com = ?com\<lparr>partialExecThresholdKey := zero_key, thresholdKeyIsNull := 1\<rparr>, out_stats = ?d\<rparr>"])
        (use small None rem ob1 ob2 in \<open>simp add: steady_def unf pl stats_add_fully\<close>)
  next
    case (Some k)
    have "process_partial T D ?p ?q tax ?rem k (ob1, (db1, lg1), ?com,
        stats\<lparr>fully_clear_offer_count := u32 (fully_clear_offer_count stats + ot_size T fc)\<rparr>) = Inr res"
      using run ap ob1 Some unfolding unf by simp
    then obtain out where out: "steady (\<lambda>dl s. process_partial T D ?p ?q tax ?rem k (ob1, dl, ?com, s)) db1 out"
      using process_partial_steady by blast
    have db1: "db1 = apply_plan transfer (map ?pl (ot_values T fc)) db" using ap pl [of db lg] by simp
    show ?thesis
      by (rule exI [of _ "out\<lparr>out_plan := map ?pl (ot_values T fc) @ out_plan out,
          out_log := map log_of (ot_values T fc) @ out_log out, out_stats := stats_add ?d (out_stats out)\<rparr>"])
        (use small Some ob1 out [unfolded steady_def db1 same_accounts_plan] in
          \<open>simp add: steady_def unf pl stats_add_fully stats_add_assoc\<close>)
  qed
qed

end

section \<open>Clearing all books in some order\<close>

definition put_all :: "(nat \<Rightarrow> 'a) \<Rightarrow> nat list \<Rightarrow> 'a list \<Rightarrow> 'a list" where
  "put_all f is xs = fold (\<lambda>i xs. xs[i := f i]) is xs"

lemma put_all_simps [simp]:
  "put_all f [] xs = xs" "put_all f (i # is) xs = put_all f is (xs[i := f i])"
  "put_all f (is @ js) xs = put_all f js (put_all f is xs)"
  by (simp_all add: put_all_def)

lemma length_put_all [simp]: "length (put_all f is xs) = length xs"
  by (induction "is" arbitrary: xs) auto

lemma put_all_nth: "j < length xs \<Longrightarrow> put_all f is xs ! j = (if j \<in> set is then f j else xs ! j)"
  by (induction "is" arbitrary: xs) (auto simp: nth_list_update)

lemma put_all_set: "set is = set js \<Longrightarrow> put_all f is xs = put_all f js xs"
  by (intro nth_equalityI) (auto simp: put_all_nth)

definition sum_stats :: "block_state_update_stats list \<Rightarrow> block_state_update_stats \<Rightarrow> block_state_update_stats" where
  "sum_stats ds s = fold (\<lambda>d s. stats_add s d) ds s"

lemma sum_stats_simps [simp]:
  "sum_stats [] s = s" "sum_stats (d # ds) s = sum_stats ds (stats_add s d)"
  "sum_stats (ds @ es) s = sum_stats es (sum_stats ds s)"
  by (simp_all add: sum_stats_def)

lemma sum_stats_ok [simp]: "stats_ok s \<Longrightarrow> stats_ok (sum_stats ds s)"
  by (induction ds arbitrary: s) simp_all

lemma sum_stats_add: "stats_add s (sum_stats ds t) = sum_stats ds (stats_add s t)"
  by (induction ds arbitrary: t) (simp_all add: stats_add_assoc)

lemma sum_stats_mset: "mset ds = mset es \<Longrightarrow> sum_stats ds = sum_stats es"
proof -
  have "(\<lambda>s. stats_add s d) \<circ> (\<lambda>s. stats_add s e) = (\<lambda>s. stats_add s e) \<circ> (\<lambda>s. stats_add s d)" for d e
    by (rule ext) (simp only: o_apply stats_add_assoc stats_add_comm [of d e])
  moreover assume "mset ds = mset es"
  ultimately have "fold (\<lambda>d s. stats_add s d) ds = fold (\<lambda>d s. stats_add s d) es"
    by (intro fold_multiset_equiv)
  then show ?thesis by (simp add: sum_stats_def fun_eq_iff)
qed

lemma mset_concat_map: "mset is = mset js \<Longrightarrow> mset (concat (map f is)) = mset (concat (map f js))"
proof -
  have "mset (concat (map f ks)) = (\<Sum>k \<in># mset ks. mset (f k))" for ks by (induction ks) simp_all
  then show "mset is = mset js \<Longrightarrow> ?thesis" by simp
qed

context clearing_database
begin

definition planned ::
  "'t offer_trie \<Rightarrow> (nat \<Rightarrow> nat list) \<Rightarrow> clearing_params \<Rightarrow> price list \<Rightarrow> 't orderbook list
    \<Rightarrow> 'h single_orderbook_state_commitment list \<Rightarrow> 'db \<Rightarrow> nat \<Rightarrow> ('p, 't, 'h) book_outcome \<Rightarrow> bool" where
  "planned T wr params prices obs coms db i out \<longleftrightarrow>
     i < length obs \<and> i < length (supply_activated params) \<and> i < length coms
     \<and> steady (\<lambda>dl s. process_clear_offers T D wr (supply_activated params ! i) prices (tax_rate params)
                (obs ! i, dl, coms ! i, s)) db out"

lemma steady_plan [simp]: "steady f (apply_plan transfer pl db) out = steady f db out"
  by (simp add: steady_def)

lemma planned_plan [simp]:
  "planned T wr params prices obs coms (apply_plan transfer pl db) i out = planned T wr params prices obs coms db i out"
  by (simp add: planned_def)

lemma planned_update:
  "i \<noteq> j \<Longrightarrow> planned T wr params prices (obs[j := ob]) (coms[j := com]) db i out = planned T wr params prices obs coms db i out"
  by (simp add: planned_def)

lemma clear_book_planned:
  assumes "planned T wr params prices (orderbooks om) coms db i out" and "stats_ok stats"
  shows "clear_book_production T D wr params prices i (om, (db, lg), coms, stats)
    = Inr (om\<lparr>orderbooks := (orderbooks om)[i := out_book out]\<rparr>, (apply_plan transfer (out_plan out) db, lg @ out_log out),
        coms[i := out_com out], stats_add stats (out_stats out))"
  using assms by (simp add: clear_book_production_def planned_def steady_def)

lemma clear_range_planned:
  assumes "\<And>i. i \<in> set is \<Longrightarrow> planned T wr params prices (orderbooks om) coms db i (outs i)"
    and "distinct is" and "stats_ok stats"
  shows "clear_range_production T D wr params prices is (om, (db, lg), coms, stats)
    = Inr (om\<lparr>orderbooks := put_all (\<lambda>i. out_book (outs i)) is (orderbooks om)\<rparr>,
        (apply_plan transfer (concat (map (\<lambda>i. out_plan (outs i)) is)) db, lg @ concat (map (\<lambda>i. out_log (outs i)) is)),
        put_all (\<lambda>i. out_com (outs i)) is coms, sum_stats (map (\<lambda>i. out_stats (outs i)) is) stats)"
  using assms
proof (induction "is" arbitrary: om db lg coms stats)
  case Nil
  then show ?case by simp
next
  case (Cons i "is")
  let ?o = "outs i"
  let ?om = "om\<lparr>orderbooks := (orderbooks om)[i := out_book ?o]\<rparr>" and ?db = "apply_plan transfer (out_plan ?o) db"
    and ?coms = "coms[i := out_com ?o]"
  have "planned T wr params prices (orderbooks ?om) ?coms ?db j (outs j)" if "j \<in> set is" for j
  proof -
    have "j \<noteq> i" using that Cons.prems(2) by auto
    then show ?thesis using that Cons.prems(1) by (simp add: planned_update)
  qed
  from Cons.IH [OF this, of "stats_add stats (out_stats ?o)" "lg @ out_log ?o"]
  show ?case using Cons.prems clear_book_planned [of T wr params prices om coms db i ?o stats lg] by simp
qed

lemma clear_range_success:
  assumes "clear_range_production T D wr params prices is (om, (db, lg), coms, stats) = Inr r"
    and "distinct is" and "stats_ok stats"
  shows "\<forall>i \<in> set is. \<exists>out. planned T wr params prices (orderbooks om) coms db i out"
  using assms
proof (induction "is" arbitrary: om db lg coms stats)
  case Nil
  then show ?case by simp
next
  case (Cons i "is")
  then obtain st where book: "clear_book_production T D wr params prices i (om, (db, lg), coms, stats) = Inr st"
    and rest: "clear_range_production T D wr params prices is st = Inr r"
    by (auto simp: bind_result_Inr)
  obtain out where out: "planned T wr params prices (orderbooks om) coms db i out"
    using book process_clear_offers_steady unfolding planned_def
    by (fastforce simp: clear_book_production_def bind_result_Inr vec_at_Inr)
  let ?om = "om\<lparr>orderbooks := (orderbooks om)[i := out_book out]\<rparr>" and ?coms = "coms[i := out_com out]"
    and ?db = "apply_plan transfer (out_plan out) db"
  have st: "st = (?om, (?db, lg @ out_log out), ?coms, stats_add stats (out_stats out))"
    using book clear_book_planned [OF out Cons.prems(3)] by simp
  have "\<forall>j \<in> set is. \<exists>out'. planned T wr params prices (orderbooks ?om) ?coms ?db j out'"
    using Cons.IH [OF rest [unfolded st]] Cons.prems(2) by simp
  moreover have "planned T wr params prices (orderbooks ?om) ?coms ?db j out' = planned T wr params prices (orderbooks om) coms db j out'"
    if "j \<in> set is" for j out'
  proof -
    have "j \<noteq> i" using that Cons.prems(2) by auto
    then show ?thesis by (simp add: planned_update)
  qed
  ultimately show ?case using out by auto
qed

lemma clear_ranges_planned:
  assumes "\<And>i. i \<in> set (concat rs) \<Longrightarrow> planned T wr params prices (orderbooks om) coms db i (outs i)"
    and "distinct (concat rs)" and "stats_ok stats"
  shows "clear_ranges_production T D wr params prices rs (om, (db, lg), coms, stats)
    = Inr (om\<lparr>orderbooks := put_all (\<lambda>i. out_book (outs i)) (concat rs) (orderbooks om)\<rparr>,
        (apply_plan transfer (concat (map (\<lambda>i. out_plan (outs i)) (concat rs))) db,
         lg @ concat (map (\<lambda>i. out_log (outs i)) (concat rs))),
        put_all (\<lambda>i. out_com (outs i)) (concat rs) coms, sum_stats (map (\<lambda>i. out_stats (outs i)) (concat rs)) stats)"
  using assms
proof (induction rs arbitrary: om db lg coms stats)
  case Nil
  then show ?case by simp
next
  case (Cons r rs)
  let ?om = "om\<lparr>orderbooks := put_all (\<lambda>i. out_book (outs i)) r (orderbooks om)\<rparr>"
    and ?db = "apply_plan transfer (concat (map (\<lambda>i. out_plan (outs i)) r)) db"
    and ?coms = "put_all (\<lambda>i. out_com (outs i)) r coms"
  have run: "clear_range_production T D wr params prices r (om, (db, lg), coms, empty_stats)
    = Inr (?om, (?db, lg @ concat (map (\<lambda>i. out_log (outs i)) r)), ?coms, sum_stats (map (\<lambda>i. out_stats (outs i)) r) empty_stats)"
    using Cons.prems by (intro clear_range_planned) auto
  have "planned T wr params prices (orderbooks ?om) ?coms ?db j (outs j)" if j: "j \<in> set (concat rs)" for j
  proof -
    have "j \<notin> set r" using j Cons.prems(2) by auto
    moreover have "planned T wr params prices (orderbooks om) coms db j (outs j)" using j Cons.prems(1) by simp
    ultimately show ?thesis by (simp add: planned_def put_all_nth)
  qed
  from Cons.IH [OF this, of "stats_add stats (sum_stats (map (\<lambda>i. out_stats (outs i)) r) empty_stats)"
      "lg @ concat (map (\<lambda>i. out_log (outs i)) r)"]
  show ?case using Cons.prems(2,3) run by (simp add: sum_stats_add)
qed

lemma clear_ranges_success:
  assumes "clear_ranges_production T D wr params prices rs (om, (db, lg), coms, stats) = Inr st"
    and "distinct (concat rs)" and "stats_ok stats"
  shows "\<exists>outs. \<forall>i \<in> set (concat rs). planned T wr params prices (orderbooks om) coms db i (outs i)"
proof -
  have "\<forall>i \<in> set (concat rs). \<exists>out. planned T wr params prices (orderbooks om) coms db i out"
    using assms
  proof (induction rs arbitrary: om db lg coms stats)
    case Nil
    then show ?case by simp
  next
    case (Cons r rs)
    then obtain st' where range: "clear_range_production T D wr params prices r (om, (db, lg), coms, empty_stats) = Inr st'"
      by (auto simp: bind_result_Inr)
    obtain outs where outs: "\<And>i. i \<in> set r \<Longrightarrow> planned T wr params prices (orderbooks om) coms db i (outs i)"
      using clear_range_success [OF range] Cons.prems(2) by (metis concat.simps(2) distinct_append stats_add_ok(2))
    let ?om = "om\<lparr>orderbooks := put_all (\<lambda>i. out_book (outs i)) r (orderbooks om)\<rparr>"
      and ?db = "apply_plan transfer (concat (map (\<lambda>i. out_plan (outs i)) r)) db"
      and ?coms = "put_all (\<lambda>i. out_com (outs i)) r coms"
    have "\<exists>lg' stats'. stats_ok stats' \<and> clear_ranges_production T D wr params prices rs (?om, (?db, lg'), ?coms, stats') = Inr st"
      using Cons.prems clear_range_planned [OF outs, of r empty_stats lg] by (auto simp: bind_result_Inr)
    then have "\<forall>j \<in> set (concat rs). \<exists>out. planned T wr params prices (orderbooks ?om) ?coms ?db j out"
      using Cons.IH Cons.prems(2) by (metis concat.simps(2) distinct_append)
    moreover have "j \<notin> set r" if "j \<in> set (concat rs)" for j using that Cons.prems(2) by auto
    ultimately have "\<forall>j \<in> set (concat rs). \<exists>out. planned T wr params prices (orderbooks om) coms db j out"
      by (fastforce simp: planned_def put_all_nth)
    then show ?case using outs by auto
  qed
  then show ?thesis by metis
qed

end

section \<open>The producer's schedule does not matter\<close>

definition header_slots ::
  "'h single_orderbook_state_commitment \<Rightarrow> 't orderbook_manager \<Rightarrow> 'h single_orderbook_state_commitment list
    \<Rightarrow> 'h single_orderbook_state_commitment list" where
  "header_slots com0 om coms = take (length (orderbooks om)) coms @ replicate (length (orderbooks om) - length coms) com0"

context clearing_database
begin

lemma production_planned:
  assumes outs: "\<And>i. i \<in> set (concat sched) \<Longrightarrow> planned T wr params prices (orderbooks om) (header_slots com0 om coms) db i (outs i)"
    and dist: "distinct (concat sched)"
  shows "clear_offers_for_production T D wr com0 sched params prices (om, (db, lg), coms, stats)
    = Inr (om\<lparr>orderbooks := put_all (\<lambda>i. out_book (outs i)) (concat sched) (orderbooks om)\<rparr>,
        (apply_plan transfer (concat (map (\<lambda>i. out_plan (outs i)) (concat sched))) db,
         lg @ concat (map (\<lambda>i. out_log (outs i)) (concat sched))),
        put_all (\<lambda>i. out_com (outs i)) (concat sched) (header_slots com0 om coms),
        stats_add stats (sum_stats (map (\<lambda>i. out_stats (outs i)) (concat sched)) empty_stats))"
  using clear_ranges_planned [OF outs dist stats_add_ok(2), of lg]
  by (simp add: clear_offers_for_production_def header_slots_def Let_def)

lemma production_outcome:
  assumes run: "clear_offers_for_production T D wr com0 sched params prices (om, (db, lg), coms, stats) = Inr st"
    and dist: "distinct (concat sched)"
  obtains outs where
    "\<And>i. i \<in> set (concat sched) \<Longrightarrow> planned T wr params prices (orderbooks om) (header_slots com0 om coms) db i (outs i)"
proof -
  obtain st' where st: "clear_ranges_production T D wr params prices sched
      (om, (db, lg), header_slots com0 om coms, empty_stats) = Inr st'"
    using run by (auto simp: clear_offers_for_production_def header_slots_def Let_def bind_result_Inr)
  then show thesis using clear_ranges_success [OF st dist] that by auto
qed

lemma production_schedule:
  assumes run: "clear_offers_for_production T D wr com0 s1 params prices (om, (db, lg), coms, stats)
      = Inr (om', (db', lg'), coms', stats')"
    and dist: "distinct (concat s1)" and perm: "mset (concat s2) = mset (concat s1)"
  shows "\<exists>lg2. clear_offers_for_production T D wr com0 s2 params prices (om, (db, lg), coms, stats)
      = Inr (om', (db', lg2), coms', stats') \<and> mset lg2 = mset lg'"
proof -
  obtain outs where outs: "\<And>i. i \<in> set (concat s1) \<Longrightarrow>
      planned T wr params prices (orderbooks om) (header_slots com0 om coms) db i (outs i)"
    using production_outcome [OF run dist] by blast
  have sets: "set (concat s2) = set (concat s1)" and dist2: "distinct (concat s2)"
    using perm dist mset_eq_setD mset_eq_imp_distinct_iff by blast+
  have outs2: "planned T wr params prices (orderbooks om) (header_slots com0 om coms) db i (outs i)"
    if "i \<in> set (concat s2)" for i
    using outs that unfolding sets .
  note r1 = production_planned [OF outs dist, of lg stats, unfolded run] and r2 = production_planned [OF outs2 dist2, of lg stats]
  have "apply_plan transfer (concat (map (\<lambda>i. out_plan (outs i)) (concat s2)))
      = apply_plan transfer (concat (map (\<lambda>i. out_plan (outs i)) (concat s1)))"
    by (rule apply_plan_mset [OF mset_concat_map [OF perm]])
  moreover have "sum_stats (map (\<lambda>i. out_stats (outs i)) (concat s2)) = sum_stats (map (\<lambda>i. out_stats (outs i)) (concat s1))"
    by (rule sum_stats_mset) (simp only: mset_map perm)
  moreover have "mset (concat (map (\<lambda>i. out_log (outs i)) (concat s2))) = mset (concat (map (\<lambda>i. out_log (outs i)) (concat s1)))"
    by (rule mset_concat_map [OF perm])
  ultimately show ?thesis
    using r1 r2 by (simp add: put_all_set [OF sets])
qed

end

section \<open>The validator reaches the producer's state\<close>

text \<open>
  The offers of a block that a validator clears when it adds them (\<open>vm_add_offer\<close> of the view),
  in the order in which they arrive.
\<close>

fun clear_new_offers ::
  "('p, 'db) clearing_db \<Rightarrow> price list \<Rightarrow> nat \<Rightarrow> offer list \<Rightarrow> 'db \<Rightarrow> 'db result" where
  "clear_new_offers D prices tax [] db = Inr db"
| "clear_new_offers D prices tax (y # ys) db =
     bind_result (from_ub (cd_lookup_user D (owner y) db)) (\<lambda>idx.
     bind_result (from_ub (clear_offer_full (cd_transfer D) y (prices ! sellAsset (category y))
                             (prices ! buyAsset (category y)) tax idx db))
       (clear_new_offers D prices tax ys))"

lemma add_mset_sums:
  fixes A B C E F G :: "'a multiset"
  assumes "A + B = C + E" and "F + G = H"
  shows "(A + G) + (B + F) = C + (E + H)"
proof -
  have "(A + G) + (B + F) = (A + B) + (F + G)" by (simp add: ac_simps)
  then show ?thesis using assms by (simp add: ac_simps)
qed

definition book_state ::
  "('t \<Rightarrow> book) \<Rightarrow> (nat list \<Rightarrow> nat) \<Rightarrow> ('p, 't, 'h) book_outcome \<Rightarrow> (offer_key \<times> offer) list \<Rightarrow> 't orderbook \<Rightarrow> bool
    \<Rightarrow> 't orderbook \<Rightarrow> single_validation_statistics \<Rightarrow> bool" where
  "book_state bk rd out es vob cleared ob v \<longleftrightarrow>
     (if cleared
      then entries (bk (committed_offers ob)) = entries (bk (committed_offers (out_book out)))
        \<and> fa_add (activated_supply v) (partialExecOfferActivationAmount rd (out_com out)) = fractionalSupplyActivated rd (out_com out)
        \<and> check_threshold_key (out_com out)
      else ob = vob \<and> v = \<lparr>activated_supply = sold es * 1024\<rparr>)"

context clearing_database
begin

definition new_transfer :: "price list \<Rightarrow> nat \<Rightarrow> 'db \<Rightarrow> offer \<Rightarrow> 'p \<times> asset_id \<times> int" where
  "new_transfer prices tax db y = offer_transfer (prices ! sellAsset (category y)) (prices ! buyAsset (category y)) tax db y"

lemma clear_new_offers_plan:
  assumes "clear_new_offers D prices tax ys db2 = Inr db'" and "same_accounts db db2"
  shows "db' = apply_plan transfer (map (new_transfer prices tax db) ys) db2"
  using assms
proof (induction ys arbitrary: db2)
  case Nil
  then show ?case by simp
next
  case (Cons y ys)
  then obtain idx db3 where idx: "lookup (owner y) db2 = Some idx"
    and full: "clear_offer_full transfer y (prices ! sellAsset (category y)) (prices ! buyAsset (category y)) tax idx db2 = Some db3"
    and rest: "clear_new_offers D prices tax ys db3 = Inr db'"
    by (auto simp: bind_result_Inr)
  have db3: "db3 = apply_plan transfer [new_transfer prices tax db y] db2"
    using full idx Cons.prems(2)
    by (auto simp: clear_offer_full_def new_transfer_def offer_transfer_def same_accounts_def Let_def
        split: Option.bind_splits)
  have "same_accounts db db3" using Cons.prems(2) unfolding db3 by simp
  then have "db' = apply_plan transfer (map (new_transfer prices tax db) ys) db3" by (rule Cons.IH [OF rest])
  then show ?case unfolding db3 by (simp add: apply_plan_def)
qed

text \<open>
  The state of a validator that has cleared the books \<open>done\<close>: those hold the producer's offers,
  the others are untouched and their early offers are still to be accounted for.
\<close>

definition progress ::
  "('t \<Rightarrow> book) \<Rightarrow> (nat list \<Rightarrow> nat) \<Rightarrow> nat \<Rightarrow> (nat \<Rightarrow> ('p, 't, 'h) book_outcome) \<Rightarrow> (nat \<Rightarrow> ('p \<times> asset_id \<times> int) list)
    \<Rightarrow> (nat \<Rightarrow> (offer_key \<times> offer) list) \<Rightarrow> 't orderbook_manager \<Rightarrow> 'db \<Rightarrow> self_log \<Rightarrow> nat list \<Rightarrow> ('t, 'db) validation_state \<Rightarrow> bool" where
  "progress bk rd n outs eplan es vom db lg0 done st \<longleftrightarrow>
     (case st of (om, (dbc, lg), vs, stats) \<Rightarrow>
        length (orderbooks om) = n \<and> n < length vs
      \<and> (\<forall>i < n. book_state bk rd (outs i) (es i) (orderbooks vom ! i) (i \<in> set done) (orderbooks om ! i) (vs ! i))
      \<and> (\<exists>left. mset (done @ left) = mset [0..<n]
           \<and> dbc = apply_plan transfer (concat (map eplan left) @ concat (map (\<lambda>i. out_plan (outs i)) done)) db)
      \<and> mset (lg @ concat (map (\<lambda>i. map log_of (map snd (es i))) done)) = mset (lg0 @ concat (map (\<lambda>i. out_log (outs i)) done)))"

text \<open>What \<open>validator_agrees\<close> gives for one book, in terms of its outcome.\<close>

definition replays ::
  "'t offer_trie \<Rightarrow> ('t \<Rightarrow> book) \<Rightarrow> (nat list \<Rightarrow> nat) \<Rightarrow> price list \<Rightarrow> nat \<Rightarrow> 'db \<Rightarrow> 't orderbook \<Rightarrow> ('p, 't, 'h) book_outcome
    \<Rightarrow> ('p \<times> asset_id \<times> int) list \<Rightarrow> (offer_key \<times> offer) list \<Rightarrow> bool" where
  "replays T bk rd prices tax db vob out epl es \<longleftrightarrow>
     (\<forall>dbx lg stats. same_accounts db dbx \<longrightarrow>
       (\<exists>vob' nl vs vstats. tentative_clear_offers_for_validation T D rd (out_com out) prices tax
            (vob, (apply_plan transfer epl dbx, lg), \<lparr>activated_supply = sold es * 1024\<rparr>, stats)
          = Inr (True, vob', (apply_plan transfer (out_plan out) dbx, lg @ nl), vs, vstats)
        \<and> entries (bk (committed_offers vob')) = entries (bk (committed_offers (out_book out)))
        \<and> mset (map log_of (map snd es) @ nl) = mset (out_log out)
        \<and> fa_add (activated_supply vs) (partialExecOfferActivationAmount rd (out_com out)) = fractionalSupplyActivated rd (out_com out)
        \<and> check_threshold_key (out_com out)))"

lemma progress_step:
  assumes prog: "progress bk rd n outs eplan es vom db lg0 done (om, dl, vs, stats)"
    and rep: "replays T bk rd (ck_prices ck) (ck_tax_rate ck) db (orderbooks vom ! i) (outs i) (eplan i) (es i)"
    and i: "i < n" "i \<notin> set done" and com: "n \<le> length (commitments ck)" "commitments ck ! i = out_com (outs i)"
  shows "\<exists>om' dl' vs' stats'. clear_book_validation T D rd ck i (om, dl, vs, stats) = Inr (True, om', dl', vs', stats')
    \<and> progress bk rd n outs eplan es vom db lg0 (done @ [i]) (om', dl', vs', stats')"
proof -
  obtain dbc lg where dl: "dl = (dbc, lg)" by fastforce
  obtain left where left: "mset (done @ left) = mset [0..<n]"
    and dbc: "dbc = apply_plan transfer (concat (map eplan left) @ concat (map (\<lambda>i. out_plan (outs i)) done)) db"
    using prog by (auto simp: progress_def dl)
  have "i \<in> set left" using i left mset_eq_setD [OF left] by auto
  then have rem: "mset left = mset (i # remove1 i left)" by simp
  let ?left = "remove1 i left"
  define dbx where "dbx = apply_plan transfer (concat (map eplan ?left) @ concat (map (\<lambda>i. out_plan (outs i)) done)) db"
  have "mset (concat (map eplan left) @ concat (map (\<lambda>i. out_plan (outs i)) done))
      = mset ((concat (map eplan ?left) @ concat (map (\<lambda>i. out_plan (outs i)) done)) @ eplan i)"
    using mset_concat_map [OF rem, of eplan] by simp
  then have dbc': "dbc = apply_plan transfer (eplan i) dbx"
    unfolding dbc dbx_def apply_plan_simps(3) [symmetric] by (metis apply_plan_mset)
  have same: "same_accounts db dbx" by (simp add: dbx_def)
  have st: "length (orderbooks om) = n" "n < length vs" "orderbooks om ! i = orderbooks vom ! i"
      "vs ! i = \<lparr>activated_supply = sold (es i) * 1024\<rparr>"
    using prog i by (auto simp: progress_def dl book_state_def)
  obtain vob' nl v vstats where val: "tentative_clear_offers_for_validation T D rd (out_com (outs i)) (ck_prices ck) (ck_tax_rate ck)
        (orderbooks vom ! i, (dbc, lg), \<lparr>activated_supply = sold (es i) * 1024\<rparr>, stats)
      = Inr (True, vob', (apply_plan transfer (out_plan (outs i)) dbx, lg @ nl), v, vstats)"
    and res: "entries (bk (committed_offers vob')) = entries (bk (committed_offers (out_book (outs i))))"
      "fa_add (activated_supply v) (partialExecOfferActivationAmount rd (out_com (outs i))) = fractionalSupplyActivated rd (out_com (outs i))"
      "check_threshold_key (out_com (outs i))"
    and nl: "mset (map log_of (map snd (es i)) @ nl) = mset (out_log (outs i))"
    using rep [unfolded replays_def, rule_format, OF same, of lg stats] unfolding dbc' by blast
  let ?st = "(om\<lparr>orderbooks := (orderbooks om)[i := vob']\<rparr>, (apply_plan transfer (out_plan (outs i)) dbx, lg @ nl), vs[i := v], vstats)"
  have "clear_book_validation T D rd ck i (om, dl, vs, stats) = Inr (True, ?st)"
    using i st com val by (simp add: clear_book_validation_def vec_idx_def dl)
  moreover have "progress bk rd n outs eplan es vom db lg0 (done @ [i]) ?st"
  proof -
    have books: "book_state bk rd (outs j) (es j) (orderbooks vom ! j) (j \<in> set (done @ [i])) ((orderbooks om)[i := vob'] ! j) (vs[i := v] ! j)"
      if j: "j < n" for j
    proof (cases "j = i")
      case True
      then show ?thesis using i st res by (simp add: book_state_def)
    next
      case False
      then show ?thesis using j prog by (simp add: progress_def)
    qed
    have "mset ((done @ [i]) @ ?left) = mset done + mset (i # ?left)" by simp
    then have L: "mset ((done @ [i]) @ ?left) = mset [0..<n]" unfolding rem [symmetric] using left by simp
    have A: "apply_plan transfer (out_plan (outs i)) dbx
        = apply_plan transfer (concat (map eplan ?left) @ concat (map (\<lambda>i. out_plan (outs i)) (done @ [i]))) db"
      by (simp add: dbx_def)
    have M: "mset ((lg @ nl) @ concat (map (\<lambda>i. map log_of (map snd (es i))) (done @ [i])))
        = mset (lg0 @ concat (map (\<lambda>i. out_log (outs i)) (done @ [i])))"
    proof -
      have "mset lg + mset (concat (map (\<lambda>i. map log_of (map snd (es i))) done)) = mset lg0 + mset (concat (map (\<lambda>i. out_log (outs i)) done))"
        using prog by (simp add: progress_def dl)
      then show ?thesis
        using nl add_mset_sums [of "mset lg" "mset (concat (map (\<lambda>i. map log_of (map snd (es i))) done))"
            "mset lg0" "mset (concat (map (\<lambda>i. out_log (outs i)) done))" "mset (map log_of (map snd (es i)))" "mset nl"]
        by (simp add: add.assoc)
    qed
    show ?thesis
      unfolding progress_def prod.case
      by (intro conjI allI impI exI [of _ ?left] L A M) (simp_all add: st books [simplified])
  qed
  ultimately show ?thesis by blast
qed

end

context clearing_database
begin

lemma progress_range:
  assumes "progress bk rd n outs eplan es vom db lg0 done (om, dl, vs, stats)"
    and "\<And>i. i < n \<Longrightarrow> replays T bk rd (ck_prices ck) (ck_tax_rate ck) db (orderbooks vom ! i) (outs i) (eplan i) (es i)"
    and "n \<le> length (commitments ck)" and "\<And>i. i < n \<Longrightarrow> commitments ck ! i = out_com (outs i)"
    and "distinct is" and "set is \<subseteq> {..<n} - set done"
  shows "\<exists>om' dl' vs' stats'. clear_range_validation T D rd ck is (om, dl, vs, stats) = Inr (True, om', dl', vs', stats')
    \<and> progress bk rd n outs eplan es vom db lg0 (done @ is) (om', dl', vs', stats')"
  using assms
proof (induction "is" arbitrary: "done" om dl vs stats)
  case Nil
  then show ?case by simp
next
  case (Cons i "is")
  have i: "i < n" "i \<notin> set done" using Cons.prems(6) by auto
  obtain om1 dl1 vs1 stats1
    where step: "clear_book_validation T D rd ck i (om, dl, vs, stats) = Inr (True, om1, dl1, vs1, stats1)"
      and prog: "progress bk rd n outs eplan es vom db lg0 (done @ [i]) (om1, dl1, vs1, stats1)"
    using progress_step [OF Cons.prems(1) Cons.prems(2) [OF i(1)] i Cons.prems(3) Cons.prems(4) [OF i(1)]] by blast
  have "set is \<subseteq> {..<n} - set (done @ [i])" using Cons.prems(5,6) by auto
  then show ?case
    using Cons.IH [OF prog Cons.prems(2,3,4)] Cons.prems(5) step by auto
qed

lemma progress_ranges:
  assumes "progress bk rd n outs eplan es vom db lg0 done (om, dl, vs, stats)"
    and "\<And>i. i < n \<Longrightarrow> replays T bk rd (ck_prices ck) (ck_tax_rate ck) db (orderbooks vom ! i) (outs i) (eplan i) (es i)"
    and "n \<le> length (commitments ck)" and "\<And>i. i < n \<Longrightarrow> commitments ck ! i = out_com (outs i)"
    and "distinct (concat rs)" and "set (concat rs) \<subseteq> {..<n} - set done"
  shows "\<exists>om' dl' vs' stats'. clear_ranges_validation T D rd ck rs (True, om, dl, vs, stats) = Inr (True, om', dl', vs', stats')
    \<and> progress bk rd n outs eplan es vom db lg0 (done @ concat rs) (om', dl', vs', stats')"
  using assms
proof (induction rs arbitrary: "done" om dl vs stats)
  case Nil
  then show ?case by simp
next
  case (Cons r rs)
  have any: "progress bk rd n outs eplan es vom db lg0 ds (om, dl, vs, st) = progress bk rd n outs eplan es vom db lg0 ds (om, dl, vs, st')"
    for ds om dl vs st st' by (simp add: progress_def)
  have "progress bk rd n outs eplan es vom db lg0 done (om, dl, vs, empty_stats)" using Cons.prems(1) any by blast
  from progress_range [OF this Cons.prems(2,3,4), of r]
  obtain om1 dl1 vs1 stats1
    where step: "clear_range_validation T D rd ck r (om, dl, vs, empty_stats) = Inr (True, om1, dl1, vs1, stats1)"
      and prog: "progress bk rd n outs eplan es vom db lg0 (done @ r) (om1, dl1, vs1, stats1)"
    using Cons.prems(5,6) by auto
  have "set (concat rs) \<subseteq> {..<n} - set (done @ r)" using Cons.prems(5,6) by auto
  moreover have "progress bk rd n outs eplan es vom db lg0 (done @ r) (om1, dl1, vs1, stats_add stats stats1)"
    using prog any by blast
  ultimately show ?case
    using Cons.IH [of "done @ r"] Cons.prems(2-5) step by simp
qed

lemma planned_replays:
  assumes T: "offer_trie_ok T bk" and codec: "codec16 wr rd"
    and ok: "book_ok (entries (bk (committed_offers (obs ! i))))"
    and cats: "\<forall>e \<in> set (entries (bk (committed_offers (obs ! i)))). category (snd e) = ob_category (obs ! i)"
    and th: "thunks (obs ! i) \<noteq> []" and s: "supply_activated params ! i < 2 ^ 128"
    and plan: "planned T wr params prices obs coms db i out"
    and es: "es = filter (\<lambda>e. early (fst e)) (entries (bk (committed_offers (obs ! i))))"
    and below: "\<And>e. e \<in> set es \<Longrightarrow> below_threshold (out_com out) (fst e)"
    and vob: "entries (bk (committed_offers vob)) = filter (\<lambda>e. \<not> early (fst e)) (entries (bk (committed_offers (obs ! i))))"
      "ob_category vob = ob_category (obs ! i)" "thunks vob \<noteq> []"
  shows "replays T bk rd prices (tax_rate params) db vob out (map (new_transfer prices (tax_rate params) db) (map snd es)) es"
  unfolding replays_def
proof (intro allI impI)
  fix dbx lg stats
  assume same: "same_accounts db dbx"
  let ?p = "prices ! sellAsset (ob_category (obs ! i))" and ?q = "prices ! buyAsset (ob_category (obs ! i))"
  have run: "process_clear_offers T D wr (supply_activated params ! i) prices (tax_rate params) (obs ! i, (dbx, []), coms ! i, empty_stats)
    = Inr (out_book out, (apply_plan transfer (out_plan out) dbx, [] @ out_log out), out_com out, stats_add empty_stats (out_stats out))"
    using plan same by (simp add: planned_def steady_def)
  have "map (new_transfer prices (tax_rate params) db) (map snd es) = map (offer_transfer ?p ?q (tax_rate params) dbx) (map snd es)"
    using cats offer_transfer_same [OF same] unfolding es by (auto simp: new_transfer_def)
  then have vdb: "apply_plan transfer (map (new_transfer prices (tax_rate params) db) (map snd es)) dbx
      = apply_plan transfer (map (offer_transfer ?p ?q (tax_rate params) dbx) (map snd es)) dbx" by (rule arg_cong)
  from validator_agrees [OF T codec ok cats th s refl refl run es below vob vdb, of lg stats]
  show "\<exists>vob' nl vs vstats. tentative_clear_offers_for_validation T D rd (out_com out) prices (tax_rate params)
            (vob, (apply_plan transfer (map (new_transfer prices (tax_rate params) db) (map snd es)) dbx, lg),
             \<lparr>activated_supply = sold es * 1024\<rparr>, stats)
          = Inr (True, vob', (apply_plan transfer (out_plan out) dbx, lg @ nl), vs, vstats)
        \<and> entries (bk (committed_offers vob')) = entries (bk (committed_offers (out_book out)))
        \<and> mset (map log_of (map snd es) @ nl) = mset (out_log out)
        \<and> fa_add (activated_supply vs) (partialExecOfferActivationAmount rd (out_com out)) = fractionalSupplyActivated rd (out_com out)
        \<and> check_threshold_key (out_com out)"
    by auto
qed

end

section \<open>A whole block\<close>

definition clearable :: "('t \<Rightarrow> book) \<Rightarrow> 't orderbook \<Rightarrow> bool" where
  "clearable bk ob \<longleftrightarrow> book_ok (entries (bk (committed_offers ob)))
     \<and> (\<forall>e \<in> set (entries (bk (committed_offers ob))). category (snd e) = ob_category ob) \<and> thunks ob \<noteq> []"

definition early_offers :: "('t \<Rightarrow> book) \<Rightarrow> (nat \<Rightarrow> offer_key \<Rightarrow> bool) \<Rightarrow> 't orderbook_manager \<Rightarrow> nat \<Rightarrow> (offer_key \<times> offer) list" where
  "early_offers bk early om i = filter (\<lambda>e. early i (fst e)) (entries (bk (committed_offers (orderbooks om ! i))))"

text \<open>The books of a validator that has cleared the early offers already.\<close>

definition validator_books ::
  "('t \<Rightarrow> book) \<Rightarrow> (nat \<Rightarrow> offer_key \<Rightarrow> bool) \<Rightarrow> 't orderbook_manager \<Rightarrow> 't orderbook_manager \<Rightarrow> bool" where
  "validator_books bk early om vom \<longleftrightarrow> length (orderbooks vom) = length (orderbooks om)
     \<and> (\<forall>i < length (orderbooks om).
          entries (bk (committed_offers (orderbooks vom ! i)))
            = filter (\<lambda>e. \<not> early i (fst e)) (entries (bk (committed_offers (orderbooks om ! i))))
        \<and> ob_category (orderbooks vom ! i) = ob_category (orderbooks om ! i) \<and> thunks (orderbooks vom ! i) \<noteq> [])"

lemma make_minimum_size_nth:
  "i \<le> n \<Longrightarrow> make_minimum_size n vs ! i = \<lparr>activated_supply = vs_get vs i\<rparr>"
  "n < length (make_minimum_size n vs)"
  by (auto simp: make_minimum_size_def vs_resize_def vs_get_def svs_empty_def nth_append)

lemma check_stats_loop_true:
  assumes "\<And>j. j < length cs \<Longrightarrow> i + j < length stats
      \<and> fa_add (activated_supply (stats ! (i + j))) (partialExecOfferActivationAmount rd (cs ! j)) = fractionalSupplyActivated rd (cs ! j)
      \<and> check_threshold_key (cs ! j)"
  shows "check_stats_loop rd i cs stats = Inr True"
  using assms
proof (induction cs arbitrary: i)
  case Nil
  then show ?case by simp
next
  case (Cons c cs)
  have "check_stats_loop rd (Suc i) cs stats = Inr True"
    using Cons.prems [of "Suc _"] by (intro Cons.IH) auto
  then show ?case using Cons.prems [of 0] by simp
qed

context clearing_database
begin

lemma block_agreement:
  assumes T: "offer_trie_ok T bk" and codec: "codec16 wr rd"
    and run: "clear_offers_for_production T D wr com0 s1 params prices (om, (db, lg), coms, stats)
      = Inr (om', (db', lg'), coms', stats')"
    and n: "n = length (orderbooks om)" and s1: "mset (concat s1) = mset [0..<n]" and s2: "mset (concat s2) = mset [0..<n]"
    and clr: "\<And>i. i < n \<Longrightarrow> clearable bk (orderbooks om ! i)" and sup: "\<forall>s \<in> set (supply_activated params). s < 2 ^ 128"
    and vom: "validator_books bk early om vom"
    and below: "\<And>i e. i < n \<Longrightarrow> e \<in> set (early_offers bk early om i) \<Longrightarrow> below_threshold (coms' ! i) (fst e)"
    and vdb: "clear_new_offers D prices (tax_rate params) ys db = Inr vdb"
    and ys: "mset ys = mset (concat (map (\<lambda>i. map snd (early_offers bk early om i)) [0..<n]))"
    and vs: "\<And>i. i < n \<Longrightarrow> vs_get vs i = sold (early_offers bk early om i) * 1024"
    and ck: "ck = \<lparr>commitments = coms', ck_prices = prices, ck_tax_rate = tax_rate params\<rparr>"
  shows "\<exists>vom' vlg' vs' vstats. om_tentative_clear_offers_for_validation T D rd s2 ck (vom, (vdb, vlg), vs, vst)
      = Inr (True, vom', (db', vlg'), vs', vstats)
    \<and> length (orderbooks vom') = n
    \<and> (\<forall>i < n. entries (bk (committed_offers (orderbooks vom' ! i))) = entries (bk (committed_offers (orderbooks om' ! i))))
    \<and> snd (check_stats rd ck vs') = Inr True
    \<and> mset (lg @ map log_of ys @ vlg') = mset (vlg @ lg')"
proof -
  let ?tax = "tax_rate params" and ?es = "early_offers bk early om"
  have dist: "distinct (concat s1)" "distinct (concat s2)" and sets: "set (concat s1) = {..<n}" "set (concat s2) = {..<n}"
    using s1 s2 mset_eq_imp_distinct_iff [OF s1] mset_eq_imp_distinct_iff [OF s2] mset_eq_setD [OF s1] mset_eq_setD [OF s2]
    by auto
  obtain outs where outs: "\<And>i. i \<in> set (concat s1) \<Longrightarrow>
      planned T wr params prices (orderbooks om) (header_slots com0 om coms) db i (outs i)"
    using production_outcome [OF run dist(1)] by blast
  note r1 = production_planned [OF outs dist(1), of lg stats, unfolded run]
  have om': "orderbooks om' ! i = out_book (outs i)" "coms' ! i = out_com (outs i)" if "i < n" for i
    using r1 that sets n by (auto simp: put_all_nth header_slots_def)
  have lens: "length coms' = n" using r1 n by (simp add: header_slots_def)
  define eplan where "eplan i = map (new_transfer prices ?tax db) (map snd (?es i))" for i
  have rep: "replays T bk rd (ck_prices ck) (ck_tax_rate ck) db (orderbooks vom ! i) (outs i) (eplan i) (?es i)" if i: "i < n" for i
  proof -
    have p: "planned T wr params prices (orderbooks om) (header_slots com0 om coms) db i (outs i)" using outs [unfolded sets] i by simp
    then have s: "supply_activated params ! i < 2 ^ 128" using sup by (simp add: planned_def)
    show ?thesis
      using planned_replays [OF T codec _ _ _ s p, of "?es i" "early i" "orderbooks vom ! i"]
        clr [OF i] vom i n om'(2) [OF i] below [OF i]
      by (auto simp: ck eplan_def clearable_def validator_books_def early_offers_def)
  qed
  have "mset (map (new_transfer prices ?tax db) ys) = mset (concat (map eplan [0..<n]))"
    unfolding mset_map ys eplan_def by (simp add: map_concat flip: mset_map) (simp add: comp_def)
  then have vdb': "vdb = apply_plan transfer (concat (map eplan [0..<n])) db"
    using clear_new_offers_plan [OF vdb same_accounts_refl] apply_plan_mset by metis
  let ?vs = "make_minimum_size (length (orderbooks vom)) vs"
  have len: "length (orderbooks vom) = n" using vom n by (simp add: validator_books_def)
  have "progress bk rd n outs eplan ?es vom db vlg [] (vom, (vdb, vlg), ?vs, empty_stats)"
    unfolding progress_def prod.case
    by (intro conjI exI [of _ "[0..<n]"])
      (use len make_minimum_size_nth vs vdb' in \<open>auto simp: book_state_def\<close>)
  from progress_ranges [OF this rep, of s2]
  obtain vom' dl' vs' stats2 where val: "clear_ranges_validation T D rd ck s2 (True, vom, (vdb, vlg), ?vs, empty_stats) = Inr (True, vom', dl', vs', stats2)"
    and prog: "progress bk rd n outs eplan ?es vom db vlg (concat s2) (vom', dl', vs', stats2)"
    using dist sets om' lens by (auto simp: ck)
  obtain dbc lgc where dl': "dl' = (dbc, lgc)" by fastforce
  have vs': "length (orderbooks vom') = n" "n < length vs'"
    and books: "\<And>i. i < n \<Longrightarrow> book_state bk rd (outs i) (?es i) (orderbooks vom ! i) True (orderbooks vom' ! i) (vs' ! i)"
    and logs: "mset lgc + mset (concat (map (\<lambda>i. map log_of (map snd (?es i))) (concat s2)))
      = mset vlg + mset (concat (map (\<lambda>i. out_log (outs i)) (concat s2)))"
    using prog unfolding progress_def dl' prod.case sets(2) by auto
  obtain left where left: "mset (concat s2 @ left) = mset [0..<n]"
    and dbc: "dbc = apply_plan transfer (concat (map eplan left) @ concat (map (\<lambda>i. out_plan (outs i)) (concat s2))) db"
    using prog by (auto simp: progress_def dl')
  have "left = []" using left s2 by simp
  then have "dbc = apply_plan transfer (concat (map (\<lambda>i. out_plan (outs i)) (concat s2))) db" using dbc by simp
  also have "\<dots> = db'"
  proof -
    have "mset (concat s2) = mset (concat s1)" unfolding s1 s2 ..
    from apply_plan_mset [OF mset_concat_map [OF this]] show ?thesis using r1 by simp
  qed
  finally have dbc': "dbc = db'" .
  have "check_stats_loop rd 0 coms' vs' = Inr True"
    using books vs' om' lens by (intro check_stats_loop_true) (simp add: book_state_def)
  then have stats_ok: "snd (check_stats rd ck vs') = Inr True" using vs' lens by (simp add: check_stats_def ck make_minimum_size_def)
  have "mset (concat (map (\<lambda>i. map log_of (map snd (?es i))) (concat s2))) = mset (map log_of ys)"
    unfolding mset_map [of log_of ys] ys mset_concat_map [OF s2, of "\<lambda>i. map log_of (map snd (?es i))"]
    by (simp add: map_concat comp_def flip: mset_map)
  moreover have "mset lg' = mset lg + mset (concat (map (\<lambda>i. out_log (outs i)) (concat s2)))"
    using r1 mset_concat_map [of "concat s1" "concat s2" "\<lambda>i. out_log (outs i)"] s1 s2 by auto
  ultimately have "mset (lg @ map log_of ys @ lgc) = mset (vlg @ lg')" using logs by (simp add: ac_simps)
  then show ?thesis
    using val vs' books stats_ok om'(1)
    by (auto simp: om_tentative_clear_offers_for_validation_def dl' dbc' book_state_def)
qed

end

section \<open>Properties\<close>

text \<open>
  Property C3. A whole block. Let the producer clear all books of a block, in the order \<open>s1\<close> in which
  its parallel loop happens to reach them, and publish the header entries \<open>coms'\<close>. A validator starts
  from the same books except that it has already executed some new offers, all below the threshold
  of their book in that header, while adding them: they are missing from its books, its database
  \<open>vdb\<close> is the producer's after exactly these executions, and its statistics count them. Then, in
  whatever order \<open>s2\<close> its own parallel loop reaches the books, the validator accepts every
  book, ends with exactly the producer's account database and with the same offers in every book,
  has logged the same account modifications up to order, and the check of the header against the
  statistics passes.
\<close>

theorem block_clearing_agreement:
  assumes "offer_trie_ok T bk" and "codec16 wr rd"
    and "clear_offers_for_production T memory_db wr com0 s1 params prices (om, (db, lg), coms, stats)
      = Inr (om', (db', lg'), coms', stats')"
    and "mset (concat s1) = mset [0..<length (orderbooks om)]" and "mset (concat s2) = mset [0..<length (orderbooks om)]"
    and "list_all (clearable bk) (orderbooks om)" and "list_all (\<lambda>s. s < 2 ^ 128) (supply_activated params)"
    and "validator_books bk early om vom"
    and "\<And>i e. i < length (orderbooks om) \<Longrightarrow> e \<in> set (early_offers bk early om i) \<Longrightarrow> below_threshold (coms' ! i) (fst e)"
    and "clear_new_offers memory_db prices (tax_rate params) ys db = Inr vdb"
    and "mset ys = mset (concat (map (\<lambda>i. map snd (early_offers bk early om i)) [0..<length (orderbooks om)]))"
    and "\<And>i. i < length (orderbooks om) \<Longrightarrow> vs_get vs i = sold (early_offers bk early om i) * 1024"
    and "ck = \<lparr>commitments = coms', ck_prices = prices, ck_tax_rate = tax_rate params\<rparr>"
  shows "\<exists>vom' vlg' vs' vstats. om_tentative_clear_offers_for_validation T memory_db rd s2 ck (vom, (vdb, vlg), vs, vst)
      = Inr (True, vom', (db', vlg'), vs', vstats)
    \<and> length (orderbooks vom') = length (orderbooks om)
    \<and> (\<forall>i < length (orderbooks om).
         entries (bk (committed_offers (orderbooks vom' ! i))) = entries (bk (committed_offers (orderbooks om' ! i))))
    \<and> snd (check_stats rd ck vs') = Inr True
    \<and> mset (lg @ map log_of ys @ vlg') = mset (vlg @ lg')"
proof -
  have clr: "clearable bk (orderbooks om ! i)" if "i < length (orderbooks om)" for i
    using assms(6) that by (simp add: list_all_length)
  have sup: "\<forall>s \<in> set (supply_activated params). s < 2 ^ 128" using assms(7) by (simp add: list_all_iff)
  show ?thesis
    using mdb.block_agreement [OF assms(1,2) assms(3) [unfolded memory_db_def] refl assms(4,5) clr sup assms(8,9)
        assms(10) [unfolded memory_db_def] assms(11,12,13), of vlg vst]
    unfolding memory_db_def by blast
qed

definition example_manager :: "book orderbook_manager" where
  "example_manager = \<lparr>orderbooks = [example_book], num_assets = 2\<rparr>"

definition example_validator :: "book orderbook_manager" where
  "example_validator = \<lparr>orderbooks = [example_book\<lparr>committed_offers := empty_book\<lparr>entries := [(example_key 2, example_offer 2 20 5)]\<rparr>\<rparr>],
     num_assets = 2\<rparr>"

definition example_params :: clearing_params where
  "example_params = \<lparr>tax_rate = 10, supply_activated = [15 * 1024]\<rparr>"

lemma example_production:
  "\<exists>om' coms' stats'. clear_offers_for_production list_trie memory_db (be_bytes 16) example_commitment [[0]] example_params
      [PRICE_ONE, PRICE_ONE] (example_manager, (one_account_db, []), [], empty_stats)
    = Inr (om', (db_transfer_available 0 1 4 (db_transfer_available 0 1 9 one_account_db), [(7, 1), (7, 2)]), coms', stats')
    \<and> partialExecThresholdKey (coms' ! 0) = example_key 2 \<and> thresholdKeyIsNull (coms' ! 0) = 0"
proof -
  obtain ob' com' stats' where run:
    "process_clear_offers list_trie memory_db (be_bytes 16) (15 * 1024) [PRICE_ONE, PRICE_ONE] 10
       (example_book, (one_account_db, []), example_commitment, empty_stats)
     = Inr (ob', (db_transfer_available 0 1 4 (db_transfer_available 0 1 9 one_account_db), [(7, 1), (7, 2)]), com', stats')"
    "partialExecThresholdKey com' = example_key 2" "thresholdKeyIsNull com' = 0"
    using example_clearing by blast
  show ?thesis
    using run
    by (simp add: clear_offers_for_production_def clear_book_production_def example_manager_def example_params_def)
qed

lemma example_manager_facts:
  "list_all (clearable (\<lambda>b. b)) (orderbooks example_manager)"
  "validator_books (\<lambda>b. b) (\<lambda>i k. k = example_key 1) example_manager example_validator"
  "early_offers (\<lambda>b. b) (\<lambda>i k. k = example_key 1) example_manager 0 = [(example_key 1, example_offer 1 10 3)]"
  "clear_new_offers memory_db [PRICE_ONE, PRICE_ONE] 10 [example_offer 1 10 3] one_account_db
    = Inr (db_transfer_available 0 1 9 one_account_db)"
proof -
  have k: "example_key 2 \<noteq> example_key 1" by (simp add: example_key_def)
  show "list_all (clearable (\<lambda>b. b)) (orderbooks example_manager)"
    using example_book_ok by (auto simp: example_manager_def clearable_def example_book_def empty_book_def example_offer_def)
  show "validator_books (\<lambda>b. b) (\<lambda>i k. k = example_key 1) example_manager example_validator"
    using k by (auto simp: validator_books_def example_manager_def example_validator_def example_book_def empty_book_def)
  show "early_offers (\<lambda>b. b) (\<lambda>i k. k = example_key 1) example_manager 0 = [(example_key 1, example_offer 1 10 3)]"
    using k by (simp add: early_offers_def example_manager_def example_book_def empty_book_def)
  have "db_lookup_user 7 one_account_db = Some 0" by (simp add: db_lookup_user_def one_account_db_facts)
  moreover have "fa_from_integral 10 = 10240" by (simp add: fp_from_integral_def FRACTIONAL_RADIX_def)
  ultimately show "clear_new_offers memory_db [PRICE_ONE, PRICE_ONE] 10 [example_offer 1 10 3] one_account_db
    = Inr (db_transfer_available 0 1 9 one_account_db)"
    by (simp add: memory_db_def example_offer_def clear_offer_full_def example_taxed price_consts i64_def)
qed

theorem block_clearing_agreement_witness:
  "\<exists>om' coms' stats' vom' vlg' vs' vstats.
     clear_offers_for_production list_trie memory_db (be_bytes 16) example_commitment [[0]] example_params
       [PRICE_ONE, PRICE_ONE] (example_manager, (one_account_db, []), [], empty_stats)
     = Inr (om', (db_transfer_available 0 1 4 (db_transfer_available 0 1 9 one_account_db), [(7, 1), (7, 2)]), coms', stats')
   \<and> om_tentative_clear_offers_for_validation list_trie memory_db be_value [[0]]
       \<lparr>commitments = coms', ck_prices = [PRICE_ONE, PRICE_ONE], ck_tax_rate = 10\<rparr>
       (example_validator, (db_transfer_available 0 1 9 one_account_db, [(7, 1)]), [\<lparr>activated_supply = 10240\<rparr>], empty_stats)
     = Inr (True, vom', (db_transfer_available 0 1 4 (db_transfer_available 0 1 9 one_account_db), vlg'), vs', vstats)
   \<and> entries (committed_offers (orderbooks vom' ! 0)) = entries (committed_offers (orderbooks om' ! 0))
   \<and> mset vlg' = {#(7, 1), (7, 2)#}"
proof -
  obtain om' coms' stats' where run:
    "clear_offers_for_production list_trie memory_db (be_bytes 16) example_commitment [[0]] example_params
       [PRICE_ONE, PRICE_ONE] (example_manager, (one_account_db, []), [], empty_stats)
     = Inr (om', (db_transfer_available 0 1 4 (db_transfer_available 0 1 9 one_account_db), [(7, 1), (7, 2)]), coms', stats')"
    and com: "partialExecThresholdKey (coms' ! 0) = example_key 2" "thresholdKeyIsNull (coms' ! 0) = 0"
    using example_production by blast
  have n: "length (orderbooks example_manager) = 1" by (simp add: example_manager_def)
  have tax: "tax_rate example_params = 10" by (simp add: example_params_def)
  have "memcmp (example_key 2) (example_key 1) = 1" by (simp add: example_key_def memcmp_same_prefix)
  then have below: "below_threshold (coms' ! i) (fst e)"
    if "i < length (orderbooks example_manager)" and "e \<in> set (early_offers (\<lambda>b. b) (\<lambda>i k. k = example_key 1) example_manager i)" for i e
    using that n com example_manager_facts(3) by (simp add: below_threshold_def)
  have new: "clear_new_offers memory_db [PRICE_ONE, PRICE_ONE] (tax_rate example_params) [example_offer 1 10 3] one_account_db
    = Inr (db_transfer_available 0 1 9 one_account_db)"
    unfolding tax by (rule example_manager_facts(4))
  have vs: "vs_get [\<lparr>activated_supply = 10240\<rparr>] i
      = sold (early_offers (\<lambda>b. b) (\<lambda>i k. k = example_key 1) example_manager i) * 1024"
    if "i < length (orderbooks example_manager)" for i
    using that n example_manager_facts(3) by (simp add: vs_get_def sold_def example_offer_def)
  have "\<exists>vom' vlg' vs' vstats. om_tentative_clear_offers_for_validation list_trie memory_db be_value [[0]]
       \<lparr>commitments = coms', ck_prices = [PRICE_ONE, PRICE_ONE], ck_tax_rate = tax_rate example_params\<rparr>
       (example_validator, (db_transfer_available 0 1 9 one_account_db, [(7, 1)]), [\<lparr>activated_supply = 10240\<rparr>], empty_stats)
     = Inr (True, vom', (db_transfer_available 0 1 4 (db_transfer_available 0 1 9 one_account_db), vlg'), vs', vstats)
    \<and> length (orderbooks vom') = length (orderbooks example_manager)
    \<and> (\<forall>i < length (orderbooks example_manager).
         entries (committed_offers (orderbooks vom' ! i)) = entries (committed_offers (orderbooks om' ! i)))
    \<and> snd (check_stats be_value \<lparr>commitments = coms', ck_prices = [PRICE_ONE, PRICE_ONE], ck_tax_rate = tax_rate example_params\<rparr> vs') = Inr True
    \<and> mset ([] @ map log_of [example_offer 1 10 3] @ vlg') = mset ([(7, 1)] @ [(7, 1), (7, 2)])"
    by (rule block_clearing_agreement [OF list_trie_ok codec16_be run _ _ example_manager_facts(1) _ example_manager_facts(2) below new _ vs refl])
      (simp_all add: n example_manager_facts(3) [simplified] example_params_def)
  then show ?thesis using run unfolding n tax by (auto simp: log_of_def example_offer_def)
qed

text \<open>
  Property C6. Clearing is deterministic in spite of the parallel loop: if the producer's clearing
  succeeds under one schedule of the orderbooks, it succeeds under every other, with the same
  books, account database, header entries and statistics, and the same log entries up to order.
\<close>

theorem clearing_schedule_independent:
  assumes "clear_offers_for_production T memory_db wr com0 s1 params prices (om, (db, lg), coms, stats)
      = Inr (om', (db', lg'), coms', stats')"
    and "distinct (concat s1)" and "mset (concat s2) = mset (concat s1)"
  shows "\<exists>lg2. clear_offers_for_production T memory_db wr com0 s2 params prices (om, (db, lg), coms, stats)
      = Inr (om', (db', lg2), coms', stats') \<and> mset lg2 = mset lg'"
  using mdb.production_schedule [OF assms(1) [unfolded memory_db_def] assms(2,3)] unfolding memory_db_def .

theorem clearing_schedule_independent_witness:
  "\<exists>om' coms' stats' lg2.
     clear_offers_for_production list_trie memory_db (be_bytes 16) example_commitment [[], [0], []] example_params
      [PRICE_ONE, PRICE_ONE] (example_manager, (one_account_db, []), [], empty_stats)
    = Inr (om', (db_transfer_available 0 1 4 (db_transfer_available 0 1 9 one_account_db), lg2), coms', stats')
    \<and> mset lg2 = {#(7, 1), (7, 2)#}"
proof -
  obtain om' coms' stats' where run:
    "clear_offers_for_production list_trie memory_db (be_bytes 16) example_commitment [[0]] example_params
       [PRICE_ONE, PRICE_ONE] (example_manager, (one_account_db, []), [], empty_stats)
     = Inr (om', (db_transfer_available 0 1 4 (db_transfer_available 0 1 9 one_account_db), [(7, 1), (7, 2)]), coms', stats')"
    using example_production by blast
  from clearing_schedule_independent [OF run, of "[[], [0], []]"] show ?thesis by auto
qed

text \<open>
  Growing the set of traded assets keeps the orderbook vector well formed (one book per
  ordered pair of assets, at the index of its pair), moves the book of every pair that existed
  to the new index of that pair, and gives every new pair an empty book.
\<close>

theorem assets_grow:
  assumes "om_wf om" and "num_assets om \<le> n" and "n \<le> 46340"
  shows "\<exists>om'. increase_num_traded_assets T n om = Inr om' \<and> om_wf om' \<and> num_assets om' = n
    \<and> (\<forall>c. validate_category c n \<longrightarrow>
          book_of c om' = (if validate_category c (num_assets om) then book_of c om else Inr (ob_init T c)))"
  using increase_correct [OF assms] .

theorem assets_grow_witness:
  "\<exists>om. increase_num_traded_assets list_trie 2 \<lparr>orderbooks = [], num_assets = 0\<rparr> = Inr om \<and> om_wf om
    \<and> book_of \<lparr>sellAsset = 1, buyAsset = 0, cat_type = SELL\<rparr> om
        = Inr (ob_init list_trie \<lparr>sellAsset = 1, buyAsset = 0, cat_type = SELL\<rparr>)"
proof -
  have "om_wf \<lparr>orderbooks = [] :: book orderbook list, num_assets = 0\<rparr>"
    by (simp add: om_wf_def get_num_orderbooks_by_asset_count_def u32_def)
  from assets_grow [OF this, of 2 list_trie] show ?thesis
    by (auto simp: validate_category_def)
qed

lemma clear_ranges_loading_failed:
  "clear_ranges_loading T D rd rounds blk ck rs (True, st) = Inr (b, st') \<Longrightarrow> b"
  by (induction rs arbitrary: st) (auto simp: bind_result_Inr split: prod.splits)

text \<open>
  Property C37. Replaying a block from disk: the loop of \<open>clear_offers_for_data_loading\<close> treats the
  success of a book as the failure of the block. Whenever the first book of the schedule has
  to be replayed and its clearing succeeds, loading the block throws, whatever the other books do
  (unless one of them throws before).
\<close>

theorem replay_rejects_valid_book:
  assumes "rounds i < blk"
    and "clear_book_validation T D rd ck i (om, dl, make_minimum_size (length (orderbooks om)) vs, empty_stats) = Inr (True, st)"
  shows "\<exists>e. clear_offers_for_data_loading T D rd rounds ((i # is) # rs) ck blk (om, dl, vs) = Inl e"
proof -
  obtain om1 dl1 vs1 s1 where st: "st = (om1, dl1, vs1, s1)" by (metis prod_cases4)
  have "clear_offers_for_data_loading T D rd rounds ((i # is) # rs) ck blk (om, dl, vs)
    = bind_result (clear_ranges_loading T D rd rounds blk ck rs (True, om1, dl1, vs1))
        (\<lambda>(exists_failure, st'). if exists_failure then Inl (RuntimeError ''failed to load block!'') else Inr st')"
    using assms by (simp add: clear_offers_for_data_loading_def st)
  then show ?thesis
    using clear_ranges_loading_failed [of T D rd rounds blk ck rs "(om1, dl1, vs1)"]
    by (cases "clear_ranges_loading T D rd rounds blk ck rs (True, om1, dl1, vs1)") auto
qed

theorem replay_rejects_valid_book_witness:
  "\<exists>(coms' :: unit single_orderbook_state_commitment list) e. clear_offers_for_data_loading list_trie memory_db be_value (\<lambda>_. 0) [[0]]
       \<lparr>commitments = coms', ck_prices = [PRICE_ONE, PRICE_ONE], ck_tax_rate = 10\<rparr> 1
       (example_manager, (one_account_db, []), []) = Inl e"
proof -
  have n: "length (orderbooks example_manager) = 1" "orderbooks example_manager ! 0 = example_book"
    by (simp_all add: example_manager_def)
  have th: "thunks example_book \<noteq> []" "\<forall>e \<in> set (entries (committed_offers example_book)). category (snd e) = ob_category example_book"
    by (auto simp: example_book_def empty_book_def example_offer_def)
  obtain ob' com' stats' where run:
    "process_clear_offers list_trie memory_db (be_bytes 16) (15 * 1024) [PRICE_ONE, PRICE_ONE] 10
       (example_book, (one_account_db, []), example_commitment, empty_stats)
     = Inr (ob', (db_transfer_available 0 1 4 (db_transfer_available 0 1 9 one_account_db), [(7, 1), (7, 2)]), com', stats')"
    using example_clearing by blast
  from mdb.validator_agrees [OF list_trie_ok codec16_be example_book_ok th(2,1) _ refl refl run [unfolded memory_db_def],
      of "[]" "\<lambda>_. False" example_book one_account_db "[]" empty_stats]
  obtain vob' dl' v vst where "tentative_clear_offers_for_validation list_trie memory_db be_value com' [PRICE_ONE, PRICE_ONE] 10
      (example_book, (one_account_db, []), \<lparr>activated_supply = 0\<rparr>, empty_stats) = Inr (True, vob', dl', v, vst)"
    using th by (auto simp: memory_db_def)
  then have "\<exists>st. clear_book_validation list_trie memory_db be_value \<lparr>commitments = [com'], ck_prices = [PRICE_ONE, PRICE_ONE], ck_tax_rate = 10\<rparr> 0
      (example_manager, (one_account_db, []), make_minimum_size (length (orderbooks example_manager)) [], empty_stats) = Inr (True, st)"
    by (simp add: clear_book_validation_def vec_idx_def example_manager_def make_minimum_size_def vs_resize_def svs_empty_def)
  then obtain st where st: "clear_book_validation list_trie memory_db be_value \<lparr>commitments = [com'], ck_prices = [PRICE_ONE, PRICE_ONE], ck_tax_rate = 10\<rparr> 0
      (example_manager, (one_account_db, []), make_minimum_size (length (orderbooks example_manager)) [], empty_stats) = Inr (True, st)" ..
  show ?thesis using replay_rejects_valid_book [of "\<lambda>_. 0" 0 1, OF _ st, of "[]" "[]"] by auto
qed

end
