(* ===== verification/Manager_View.thy ===== *)
theory Manager_View
  imports Orderbook_Manager
begin

text \<open>
  The views through which transactions reach the orderbooks (\<^verbatim>\<open>orderbook/orderbook_manager_view.{h,cc}\<close>):
  new offers are buffered in one local trie per orderbook, cancellations mark the offer in the main
  manager. \<open>pm_*\<close> is the view of block production, \<open>vm_*\<close> that of validation, which clears a
  new offer at once when its key lies below the threshold of the block header. The template
  parameter \<^verbatim>\<open>ManagerType\<close> is the record \<open>main_manager\<close> with its two instances. A local trie that
  was moved into the manager is \<open>None\<close>: its contents are no longer specified.
\<close>

section \<open>The manager behind a view\<close>

record 't main_manager =
  mm_add_offers :: "int \<Rightarrow> 't \<Rightarrow> 't orderbook_manager \<Rightarrow> ('t orderbook_manager \<times> unit) result"
  mm_mark_for_deletion :: "int \<Rightarrow> offer_key \<Rightarrow> 't orderbook_manager \<Rightarrow> ('t orderbook_manager \<times> offer option) result"
  mm_unmark_for_deletion :: "int \<Rightarrow> offer_key \<Rightarrow> 't orderbook_manager \<Rightarrow> ('t orderbook_manager \<times> offer option) result"

definition direct_manager :: "'t offer_trie \<Rightarrow> 't main_manager" where
  "direct_manager T =
     \<lparr>mm_add_offers = om_add_offers T, mm_mark_for_deletion = om_mark_for_deletion T,
      mm_unmark_for_deletion = om_unmark_for_deletion T\<rparr>"

definition default_offer :: offer where
  "default_offer = \<lparr>category = \<lparr>sellAsset = 0, buyAsset = 0, cat_type = SELL\<rparr>, offerId = 0, owner = 0,
     amount = 0, minPrice = 0\<rparr>"

text \<open>\<^verbatim>\<open>LoadLMDBManagerView\<close>: calls have no effect on a book whose disk copy holds the block.\<close>

definition lmdb_guard ::
  "(nat \<Rightarrow> nat) \<Rightarrow> nat \<Rightarrow> int \<Rightarrow> ('t orderbook_manager \<Rightarrow> ('t orderbook_manager \<times> 'a) result) \<Rightarrow> 'a
     \<Rightarrow> 't orderbook_manager \<Rightarrow> ('t orderbook_manager \<times> 'a) result" where
  "lmdb_guard rounds blk idx f dflt om =
     (if 0 \<le> idx \<and> nat idx < length (orderbooks om)
      then (if rounds (nat idx) < blk then f om else Inr (om, dflt))
      else Inl UndefinedBehaviour)"

definition load_lmdb_manager_view :: "'t offer_trie \<Rightarrow> (nat \<Rightarrow> nat) \<Rightarrow> nat \<Rightarrow> 't main_manager" where
  "load_lmdb_manager_view T rounds blk =
     \<lparr>mm_add_offers = (\<lambda>idx t. lmdb_guard rounds blk idx (om_add_offers T idx t) ()),
      mm_mark_for_deletion = (\<lambda>idx k. lmdb_guard rounds blk idx (om_mark_for_deletion T idx k) (Some default_offer)),
      mm_unmark_for_deletion = (\<lambda>idx k. lmdb_guard rounds blk idx (om_unmark_for_deletion T idx k) None)\<rparr>"

section \<open>The base view\<close>

record 't serial_manager =
  new_offers :: "'t option list"
  activated_supplies :: validation_statistics

definition sm_init :: "'t serial_manager" where
  "sm_init = \<lparr>new_offers = [], activated_supplies = []\<rparr>"

definition u32_of_int :: "int \<Rightarrow> nat" where
  "u32_of_int x = nat (x mod 2 ^ 32)"

definition ensure_suffient_new_offers_sz :: "'t offer_trie \<Rightarrow> int \<Rightarrow> 't serial_manager \<Rightarrow> 't serial_manager" where
  "ensure_suffient_new_offers_sz T idx sm =
     sm\<lparr>new_offers := new_offers sm
          @ replicate (Suc (u32_of_int idx) - length (new_offers sm)) (Some (ot_new T))\<rparr>"

definition sm_at :: "int \<Rightarrow> 't serial_manager \<Rightarrow> 't result" where
  "sm_at idx sm = bind_result (vec_at (new_offers sm) (to_u64 idx)) from_ub"

definition sm_put :: "int \<Rightarrow> 't \<Rightarrow> 't serial_manager \<Rightarrow> 't serial_manager" where
  "sm_put idx t sm = sm\<lparr>new_offers := (new_offers sm)[to_u64 idx := Some t]\<rparr>"

definition view_key :: "(offer_key \<Rightarrow> nat \<Rightarrow> nat \<Rightarrow> offer_key) \<Rightarrow> price \<Rightarrow> account_id \<Rightarrow> nat \<Rightarrow> offer_key" where
  "view_key wr8 min_price own offer_id =
     generate_orderbook_trie_key wr8 min_price own offer_id (replicate ORDERBOOK_KEY_LEN 0)"

definition partial_finish ::
  "'t main_manager \<Rightarrow> nat \<Rightarrow> 't orderbook_manager \<times> 't serial_manager \<Rightarrow> ('t orderbook_manager \<times> 't serial_manager) result" where
  "partial_finish M idx st =
     (case st of (om, sm) \<Rightarrow>
      if idx < length (new_offers sm)
      then bind_result (from_ub (new_offers sm ! idx)) (\<lambda>t.
             bind_result (mm_add_offers M (int idx) t om) (\<lambda>(om', _).
               Inr (om', sm\<lparr>new_offers := (new_offers sm)[idx := None]\<rparr>)))
      else Inr (om, sm))"

fun finish_loop ::
  "'t main_manager \<Rightarrow> nat list \<Rightarrow> 't orderbook_manager \<times> 't serial_manager \<Rightarrow> ('t orderbook_manager \<times> 't serial_manager) result" where
  "finish_loop M [] st = Inr st"
| "finish_loop M (i # is) st = bind_result (partial_finish M i st) (finish_loop M is)"

definition sm_clear :: "'t serial_manager \<Rightarrow> 't serial_manager" where
  "sm_clear sm = sm\<lparr>new_offers := []\<rparr>"

definition finish_merge ::
  "'t main_manager \<Rightarrow> 't orderbook_manager \<times> 't serial_manager \<Rightarrow> ('t orderbook_manager \<times> 't serial_manager) result" where
  "finish_merge M st =
     (case st of (om, sm) \<Rightarrow>
      bind_result (finish_loop M [0..<min (length (new_offers sm)) (get_num_orderbooks om)] (om, sm))
        (\<lambda>(om', sm'). Inr (om', sm_clear sm')))"

definition delete_offer ::
  "'t offer_trie \<Rightarrow> 't main_manager \<Rightarrow> (offer_key \<Rightarrow> nat \<Rightarrow> nat \<Rightarrow> offer_key) \<Rightarrow> int \<Rightarrow> price \<Rightarrow> account_id \<Rightarrow> nat
     \<Rightarrow> 't orderbook_manager \<times> 't serial_manager \<Rightarrow> (('t orderbook_manager \<times> 't serial_manager) \<times> offer option) result" where
  "delete_offer T M wr8 idx min_price own offer_id st =
     (case st of (om, sm) \<Rightarrow>
      bind_result (mm_mark_for_deletion M idx (view_key wr8 min_price own offer_id) om)
        (\<lambda>(om', r). Inr ((om', ensure_suffient_new_offers_sz T idx sm), r)))"

section \<open>The view of block production\<close>

definition undelete_offer ::
  "'t main_manager \<Rightarrow> (offer_key \<Rightarrow> nat \<Rightarrow> nat \<Rightarrow> offer_key) \<Rightarrow> int \<Rightarrow> price \<Rightarrow> account_id \<Rightarrow> nat
     \<Rightarrow> 't orderbook_manager \<times> 't serial_manager \<Rightarrow> ('t orderbook_manager \<times> 't serial_manager) result" where
  "undelete_offer M wr8 idx min_price own offer_id st =
     (case st of (om, sm) \<Rightarrow>
      bind_result (mm_unmark_for_deletion M idx (view_key wr8 min_price own offer_id) om)
        (\<lambda>(om', _). Inr (om', sm)))"

definition unwind_add_offer ::
  "'t offer_trie \<Rightarrow> (offer_key \<Rightarrow> nat \<Rightarrow> nat \<Rightarrow> offer_key) \<Rightarrow> int \<Rightarrow> offer \<Rightarrow> 't serial_manager \<Rightarrow> 't serial_manager result" where
  "unwind_add_offer T wr8 idx off sm =
     bind_result (sm_at idx sm) (\<lambda>t. Inr (sm_put idx (fst (ot_perform_deletion T (offer_key_of wr8 off) t)) sm))"

definition pm_add_offer ::
  "'t offer_trie \<Rightarrow> (offer_key \<Rightarrow> nat \<Rightarrow> nat \<Rightarrow> offer_key) \<Rightarrow> int \<Rightarrow> offer \<Rightarrow> 't serial_manager \<Rightarrow> 't serial_manager result" where
  "pm_add_offer T wr8 idx off sm =
     (let sm1 = ensure_suffient_new_offers_sz T idx sm
      in bind_result (sm_at idx sm1) (\<lambda>t. Inr (sm_put idx (ot_insert T (offer_key_of wr8 off) off t) sm1)))"

section \<open>The view of validation\<close>

definition vm_ensure :: "'t offer_trie \<Rightarrow> int \<Rightarrow> 't serial_manager \<Rightarrow> 't serial_manager" where
  "vm_ensure T idx sm =
     ensure_suffient_new_offers_sz T idx
       (sm\<lparr>activated_supplies := make_minimum_size (u32_of_int idx) (activated_supplies sm)\<rparr>)"

text \<open>
  Executing a new offer in full: \<open>transfer\<close> is \<^verbatim>\<open>transfer_available\<close> of the database view,
  \<open>src\<close> the source account of the transaction and \<open>op_id\<close> the id of the operation.
\<close>

definition vm_clear_now ::
  "('p, 'v) transfer \<Rightarrow> 'p \<Rightarrow> account_id \<Rightarrow> nat \<Rightarrow> nat \<Rightarrow> price \<Rightarrow> price \<Rightarrow> int \<Rightarrow> offer
     \<Rightarrow> 't serial_manager \<times> 'v \<times> self_log \<Rightarrow> ('t serial_manager \<times> 'v \<times> self_log) result" where
  "vm_clear_now transfer src_ptr src op_id tax sellPrice buyPrice idx off st =
     (case st of (sm, v, lg) \<Rightarrow>
      bind_result (from_ub (clear_offer_full transfer off sellPrice buyPrice tax src_ptr v))
        (\<lambda>v'. Inr (sm\<lparr>activated_supplies := upd_at (activated_supplies sm) (to_u64 idx)
                         (\<lambda>s. s\<lparr>activated_supply := fa_add (activated_supply s) (fa_from_integral (amount off))\<rparr>)\<rparr>,
                   v', lg @ [(src, op_id)])))"

definition vm_add_offer ::
  "'t offer_trie \<Rightarrow> (offer_key \<Rightarrow> nat \<Rightarrow> nat \<Rightarrow> offer_key) \<Rightarrow> 'h commitment_checker \<Rightarrow> ('p, 'v) transfer \<Rightarrow> 'p \<Rightarrow> account_id \<Rightarrow> nat
     \<Rightarrow> int \<Rightarrow> offer \<Rightarrow> 't serial_manager \<times> 'v \<times> self_log \<Rightarrow> ('t serial_manager \<times> 'v \<times> self_log) result" where
  "vm_add_offer T wr8 ck transfer src_ptr src op_id idx off st =
     (case st of (sm, v, lg) \<Rightarrow>
      let sm1 = vm_ensure T idx sm; key = offer_key_of wr8 off
      in bind_result (vec_idx (commitments ck) (to_u64 idx)) (\<lambda>com.
         if thresholdKeyIsNull com = 1
         then bind_result (vec_idx (ck_prices ck) (sellAsset (category off))) (\<lambda>sellPrice.
              bind_result (vec_idx (ck_prices ck) (buyAsset (category off))) (\<lambda>buyPrice.
                vm_clear_now transfer src_ptr src op_id (ck_tax_rate ck) sellPrice buyPrice idx off (sm1, v, lg)))
         else if memcmp (partialExecThresholdKey com) key \<le> 0
         then bind_result (sm_at idx sm1) (\<lambda>t. Inr (sm_put idx (ot_insert_rollback T key off t) sm1, v, lg))
         else bind_result (vec_at (ck_prices ck) (sellAsset (category off))) (\<lambda>sellPrice.
              bind_result (vec_at (ck_prices ck) (buyAsset (category off))) (\<lambda>buyPrice.
                vm_clear_now transfer src_ptr src op_id (ck_tax_rate ck) sellPrice buyPrice idx off (sm1, v, lg)))))"

definition vm_partial_finish_conclude ::
  "'t serial_manager \<Rightarrow> validation_statistics \<Rightarrow> 't serial_manager \<times> validation_statistics" where
  "vm_partial_finish_conclude sm main_stats = (sm_clear sm, vs_add main_stats (activated_supplies sm))"

end
