(* ===== verification/Transaction_Processor.thy ===== *)
theory Transaction_Processor
  imports Manager_View Database_View
begin

text \<open>
  Processing and validation of one transaction
  (\<^verbatim>\<open>block_processing/serial_transaction_processor.{h,cc}\<close>, \<^verbatim>\<open>block_processing/operation_metadata.h\<close>).
  The code is a template over the database view and over the manager view. The records \<open>view_ops\<close> and
  \<open>manager_ops\<close> hold the operations a view provides; their instances are the buffered view and the
  production view for \<open>process_transaction\<close>, the unbuffered view (or the one used while replaying)
  and the validating view for \<open>validate_transaction\<close>. The signature check of the crypto library is
  the argument \<open>sig_check\<close>.
\<close>

unbundle bit_operations_syntax

section \<open>The template parameters\<close>

record ('pk, 'v) view_ops =
  vo_lookup_user :: "account_id \<Rightarrow> 'v \<Rightarrow> uptr option"
  vo_create_new_account :: "account_id \<Rightarrow> 'pk \<Rightarrow> 'v \<Rightarrow> (tx_status \<times> uptr option) \<times> 'v"
  vo_reserve_sequence_number :: "uptr \<Rightarrow> nat \<Rightarrow> 'v \<Rightarrow> tx_status \<times> 'v"
  vo_transfer_available :: "uptr \<Rightarrow> asset_id \<Rightarrow> int \<Rightarrow> 'v \<Rightarrow> tx_status \<times> 'v"
  vo_escrow :: "uptr \<Rightarrow> asset_id \<Rightarrow> int \<Rightarrow> 'v \<Rightarrow> tx_status \<times> 'v"

definition on_pair :: "('a \<Rightarrow> 'b \<Rightarrow> 'r \<times> 'a \<times> 'b) \<Rightarrow> 'a \<times> 'b \<Rightarrow> 'r \<times> 'a \<times> 'b" where
  "on_pair f v = f (fst v) (snd v)"

definition buffered_ops :: "('pk, 'pk buffered_view \<times> ('pk, 't) memory_database) view_ops" where
  "buffered_ops =
     \<lparr>vo_lookup_user = (\<lambda>a v. bv_lookup_user a (fst v) (snd v)),
      vo_create_new_account = (\<lambda>a k. on_pair (bv_create_new_account a k)),
      vo_reserve_sequence_number = (\<lambda>p n. on_pair (bv_reserve_sequence_number p n)),
      vo_transfer_available = (\<lambda>p k x. on_pair (bv_transfer_available p k x)),
      vo_escrow = (\<lambda>p k x. on_pair (bv_escrow p k x))\<rparr>"

definition unbuffered_ops :: "('pk, 'pk account_creation_view \<times> ('pk, 't) memory_database) view_ops" where
  "unbuffered_ops =
     \<lparr>vo_lookup_user = (\<lambda>a v. acv_lookup_user a (fst v) (snd v)),
      vo_create_new_account = (\<lambda>a k. on_pair (acv_create_new_account a k)),
      vo_reserve_sequence_number = (\<lambda>p n. on_pair (acv_reserve_sequence_number p n)),
      vo_transfer_available = (\<lambda>p k x. on_pair (ub_transfer_available p k x)),
      vo_escrow = (\<lambda>p k x. on_pair (ub_escrow p k x))\<rparr>"

definition lmdb_view_ops ::
  "(account_id \<Rightarrow> nat) \<Rightarrow> nat \<Rightarrow> ('pk, 'pk account_creation_view \<times> ('pk, 't) memory_database) view_ops" where
  "lmdb_view_ops persisted blk =
     \<lparr>vo_lookup_user = (\<lambda>a v. acv_lookup_user a (fst v) (snd v)),
      vo_create_new_account = (\<lambda>a k. on_pair (lv_create_new_account persisted blk a k)),
      vo_reserve_sequence_number = (\<lambda>p n. on_pair (lv_reserve_sequence_number persisted blk p n)),
      vo_transfer_available = (\<lambda>p k x. on_pair (lv_transfer_available persisted blk p k x)),
      vo_escrow = (\<lambda>p k x. on_pair (lv_escrow persisted blk p k x))\<rparr>"

record ('v, 'm) manager_ops =
  mo_validate_category :: "offer_category \<Rightarrow> 'm \<Rightarrow> bool"
  mo_look_up_idx :: "offer_category \<Rightarrow> 'm \<Rightarrow> int result"
  mo_add_offer :: "uptr \<Rightarrow> account_id \<Rightarrow> nat \<Rightarrow> int \<Rightarrow> offer \<Rightarrow> 'm \<times> 'v \<times> self_log \<Rightarrow> ('m \<times> 'v \<times> self_log) result"
  mo_unwind_add_offer :: "int \<Rightarrow> offer \<Rightarrow> 'm \<Rightarrow> 'm result"
  mo_delete_offer :: "int \<Rightarrow> price \<Rightarrow> account_id \<Rightarrow> nat \<Rightarrow> 'm \<Rightarrow> ('m \<times> offer option) result"
  mo_undelete_offer :: "int \<Rightarrow> price \<Rightarrow> account_id \<Rightarrow> nat \<Rightarrow> 'm \<Rightarrow> 'm result"
  mo_maintain_account_log :: bool

type_synonym 't managers = "'t orderbook_manager \<times> 't serial_manager"

definition processing_manager ::
  "'t offer_trie \<Rightarrow> (offer_key \<Rightarrow> nat \<Rightarrow> nat \<Rightarrow> offer_key) \<Rightarrow> ('v, 't managers) manager_ops" where
  "processing_manager T wr8 =
     \<lparr>mo_validate_category = (\<lambda>c m. om_validate_category c (fst m)),
      mo_look_up_idx = (\<lambda>c m. look_up_idx c (fst m)),
      mo_add_offer = (\<lambda>ptr src op_id idx off ((om, sm), v, lg).
        bind_result (pm_add_offer T wr8 idx off sm) (\<lambda>sm'. Inr ((om, sm'), v, lg))),
      mo_unwind_add_offer = (\<lambda>idx off (om, sm). bind_result (unwind_add_offer T wr8 idx off sm) (\<lambda>sm'. Inr (om, sm'))),
      mo_delete_offer = delete_offer T (direct_manager T) wr8,
      mo_undelete_offer = undelete_offer (direct_manager T) wr8,
      mo_maintain_account_log = True\<rparr>"

definition validating_manager ::
  "'t offer_trie \<Rightarrow> 't main_manager \<Rightarrow> bool \<Rightarrow> (offer_key \<Rightarrow> nat \<Rightarrow> nat \<Rightarrow> offer_key) \<Rightarrow> 'h commitment_checker \<Rightarrow> (uptr, 'v) transfer
     \<Rightarrow> ('v, 't managers) manager_ops" where
  "validating_manager T M maintain wr8 ck transfer =
     \<lparr>mo_validate_category = (\<lambda>c m. om_validate_category c (fst m)),
      mo_look_up_idx = (\<lambda>c m. look_up_idx c (fst m)),
      mo_add_offer = (\<lambda>ptr src op_id idx off ((om, sm), v, lg).
        bind_result (vm_add_offer T wr8 ck transfer ptr src op_id idx off (sm, v, lg))
          (\<lambda>(sm', v', lg'). Inr ((om, sm'), v', lg'))),
      mo_unwind_add_offer = (\<lambda>idx off m. Inr m),
      mo_delete_offer = delete_offer T M wr8,
      mo_undelete_offer = (\<lambda>idx p own i m. Inr m),
      mo_maintain_account_log = maintain\<rparr>"

section \<open>Format, fees and amounts\<close>

definition check_tx_format_parameters :: "'pk transaction \<Rightarrow> bool" where
  "check_tx_format_parameters tx =
     (if sequenceNumber (metadata tx) AND RESERVED_SEQUENCE_NUM_LOWBITS \<noteq> 0 then False else True)"

definition fee_required :: "nat \<Rightarrow> int" where
  "fee_required tx_op_count = BASE_FEE_PER_TX + FEE_PER_OP * int tx_op_count"

definition is_valid_amount :: "int \<Rightarrow> bool" where
  "is_valid_amount a \<longleftrightarrow> a > 0 \<and> a \<le> 2 ^ (63 - 15)"

section \<open>Operations\<close>

text \<open>
  The constant part of \<^verbatim>\<open>OperationMetadata\<close>, and the state an operation works on: the views, the
  database, the log of clearings and the local statistics of the transaction.
\<close>

record op_metadata =
  tx_source :: account_id
  source_account_idx :: uptr
  operation_id :: nat

type_synonym ('m, 'v) op_state = "'m \<times> 'v \<times> self_log \<times> block_state_update_stats"

definition make_offer :: "create_sell_offer_op \<Rightarrow> op_metadata \<Rightarrow> offer" where
  "make_offer op md =
     \<lparr>category = cso_category op, offerId = operation_id md, owner = tx_source md,
      amount = to_u64 (cso_amount op), minPrice = cso_minPrice op\<rparr>"

definition process_create_account ::
  "('pk, 'v) view_ops \<Rightarrow> op_metadata \<Rightarrow> 'pk create_account_op \<Rightarrow> ('m, 'v) op_state \<Rightarrow> (tx_status \<times> ('m, 'v) op_state) result" where
  "process_create_account V md op st =
     (case st of (m, v, lg, stats) \<Rightarrow>
      if startingBalance op < CREATE_ACCOUNT_MIN_STARTING_BALANCE then Inr (STARTING_BALANCE_TOO_LOW, st)
      else (case vo_create_new_account V (newAccountId op) (newAccountPublicKey op) v of
        ((status, new_account_idx), v1) \<Rightarrow>
          if status \<noteq> SUCCESS then Inr (status, m, v1, lg, stats)
          else (case vo_transfer_available V (source_account_idx md) NATIVE_ASSET (i64 (- startingBalance op)) v1 of
            (status, v2) \<Rightarrow>
              if status \<noteq> SUCCESS then Inr (status, m, v2, lg, stats)
              else if \<not> is_valid_amount (startingBalance op) then Inr (INVALID_AMOUNT, m, v2, lg, stats)
              else bind_result (from_ub new_account_idx) (\<lambda>ptr.
                (case vo_transfer_available V ptr NATIVE_ASSET (startingBalance op) v2 of
                  (status, v3) \<Rightarrow>
                    if status \<noteq> SUCCESS then Inr (status, m, v3, lg, stats)
                    else Inr (SUCCESS, m, v3, lg, stats\<lparr>new_account_count := u32 (new_account_count stats + 1)\<rparr>))))))"

definition process_create_sell_offer ::
  "('pk, 'v) view_ops \<Rightarrow> ('v, 'm) manager_ops \<Rightarrow> op_metadata \<Rightarrow> create_sell_offer_op \<Rightarrow> ('m, 'v) op_state
     \<Rightarrow> (tx_status \<times> ('m, 'v) op_state) result" where
  "process_create_sell_offer V M md op st =
     (case st of (m, v, lg, stats) \<Rightarrow>
      if \<not> mo_validate_category M (cso_category op) m then Inr (INVALID_OFFER_CATEGORY, st)
      else if \<not> is_valid_price (cso_minPrice op) then Inr (INVALID_PRICE, st)
      else if \<not> is_valid_amount (cso_amount op) then Inr (INVALID_AMOUNT, st)
      else
        bind_result (mo_look_up_idx M (cso_category op) m) (\<lambda>market_idx.
          let to_add = make_offer op md
          in bind_result (mo_add_offer M (source_account_idx md) (tx_source md) (operation_id md) market_idx to_add (m, v, lg))
               (\<lambda>(m1, v1, lg1).
                  case vo_escrow V (source_account_idx md) (sellAsset (cso_category op)) (cso_amount op) v1 of
                    (status, v2) \<Rightarrow>
                      if status \<noteq> SUCCESS
                      then bind_result (mo_unwind_add_offer M market_idx to_add m1) (\<lambda>m2. Inr (status, m2, v2, lg1, stats))
                      else Inr (SUCCESS, m1, v2, lg1, stats\<lparr>new_offer_count := u32 (new_offer_count stats + 1)\<rparr>))))"

definition process_cancel_sell_offer ::
  "('pk, 'v) view_ops \<Rightarrow> ('v, 'm) manager_ops \<Rightarrow> op_metadata \<Rightarrow> cancel_sell_offer_op \<Rightarrow> ('m, 'v) op_state
     \<Rightarrow> (tx_status \<times> ('m, 'v) op_state) result" where
  "process_cancel_sell_offer V M md op st =
     (case st of (m, v, lg, stats) \<Rightarrow>
      bind_result (mo_look_up_idx M (can_category op) m) (\<lambda>market_idx.
      bind_result (mo_delete_offer M market_idx (can_minPrice op) (tx_source md) (can_offerId op) m) (\<lambda>(m1, found_offer).
        case found_offer of
          None \<Rightarrow> Inr (CANCEL_OFFER_TARGET_NEXIST, m1, v, lg, stats)
        | Some off \<Rightarrow>
            (case vo_escrow V (source_account_idx md) (sellAsset (can_category op)) (i64 (- int (amount off))) v of
              (status, v1) \<Rightarrow>
                if status \<noteq> SUCCESS
                then bind_result (mo_undelete_offer M market_idx (can_minPrice op) (tx_source md) (can_offerId op) m1)
                       (\<lambda>m2. Inr (status, m2, v1, lg, stats))
                else Inr (status, m1, v1, lg, stats\<lparr>cancel_offer_count := u32 (cancel_offer_count stats + 1)\<rparr>)))))"

definition process_payment ::
  "('pk, 'v) view_ops \<Rightarrow> op_metadata \<Rightarrow> payment_op \<Rightarrow> ('m, 'v) op_state \<Rightarrow> (tx_status \<times> ('m, 'v) op_state) result" where
  "process_payment V md op st =
     (case st of (m, v, lg, stats) \<Rightarrow>
      let target_account_idx = vo_lookup_user V (receiver op) v
      in if \<not> is_valid_amount (pay_amount op) then Inr (INVALID_AMOUNT, st)
         else case target_account_idx of
           None \<Rightarrow> Inr (RECIPIENT_ACCOUNT_NEXIST, st)
         | Some target \<Rightarrow>
             (case vo_transfer_available V (source_account_idx md) (pay_asset op) (i64 (- pay_amount op)) v of
               (status, v1) \<Rightarrow>
                 if status \<noteq> SUCCESS then Inr (status, m, v1, lg, stats)
                 else (case vo_transfer_available V target (pay_asset op) (pay_amount op) v1 of
                   (status, v2) \<Rightarrow>
                     if status \<noteq> SUCCESS then Inr (status, m, v2, lg, stats)
                     else Inr (SUCCESS, m, v2, lg, stats\<lparr>payment_count := u32 (payment_count stats + 1)\<rparr>))))"

definition process_money_printer ::
  "('pk, 'v) view_ops \<Rightarrow> op_metadata \<Rightarrow> money_printer_op \<Rightarrow> ('m, 'v) op_state \<Rightarrow> (tx_status \<times> ('m, 'v) op_state) result" where
  "process_money_printer V md op st =
     (case st of (m, v, lg, stats) \<Rightarrow>
      if mp_amount op < 0 then Inr (INVALID_PRINT_MONEY_AMOUNT, st)
      else (case vo_transfer_available V (source_account_idx md) (mp_asset op) (mp_amount op) v of
        (status, v1) \<Rightarrow> Inr (status, m, v1, lg, stats)))"

fun process_operation ::
  "('pk, 'v) view_ops \<Rightarrow> ('v, 'm) manager_ops \<Rightarrow> op_metadata \<Rightarrow> 'pk operation \<Rightarrow> ('m, 'v) op_state
     \<Rightarrow> (tx_status \<times> ('m, 'v) op_state) result" where
  "process_operation V M md (CREATE_ACCOUNT op) st = process_create_account V md op st"
| "process_operation V M md (CREATE_SELL_OFFER op) st = process_create_sell_offer V M md op st"
| "process_operation V M md (CANCEL_SELL_OFFER op) st = process_cancel_sell_offer V M md op st"
| "process_operation V M md (PAYMENT op) st = process_payment V md op st"
| "process_operation V M md (MONEY_PRINTER op) st = process_money_printer V md op st"

section \<open>The log of modified accounts\<close>

datatype ('pk, 'sig) tx_log_event =
    NewSelfTransaction "('pk, 'sig) signed_transaction"
  | OtherModification account_id nat account_id

text \<open>The events of the operations from index \<open>i\<close> on.\<close>

fun op_log_events :: "account_id \<Rightarrow> nat \<Rightarrow> nat \<Rightarrow> 'pk operation list \<Rightarrow> ('pk, 'sig) tx_log_event list" where
  "op_log_events src sn i [] = []"
| "op_log_events src sn i (op # ops) =
     (case op of
        CREATE_ACCOUNT c \<Rightarrow> OtherModification src (u64 (sn + i)) (newAccountId c) # op_log_events src sn (Suc i) ops
      | PAYMENT p \<Rightarrow> OtherModification src (u64 (sn + i)) (receiver p) # op_log_events src sn (Suc i) ops
      | _ \<Rightarrow> op_log_events src sn (Suc i) ops)"

definition log_modified_accounts ::
  "bool \<Rightarrow> ('pk, 'sig) signed_transaction \<Rightarrow> ('pk, 'sig) tx_log_event list \<Rightarrow> ('pk, 'sig) tx_log_event list" where
  "log_modified_accounts maintain_account_log signed_tx lg =
     (if \<not> maintain_account_log then lg
      else (let tx = stx signed_tx
            in lg @ NewSelfTransaction signed_tx
                 # op_log_events (sourceAccount (metadata tx)) (sequenceNumber (metadata tx)) 0 (operations tx)))"

section \<open>Processing a transaction in block production\<close>

fun process_ops ::
  "('pk, 'v) view_ops \<Rightarrow> ('v, 'm) manager_ops \<Rightarrow> op_metadata \<Rightarrow> nat \<Rightarrow> nat \<Rightarrow> 'pk operation list \<Rightarrow> ('m, 'v) op_state
     \<Rightarrow> (tx_status \<times> nat \<times> ('m, 'v) op_state) result" where
  "process_ops V M md sn i [] st = Inr (SUCCESS, i, st)"
| "process_ops V M md sn i (op # ops) st =
     bind_result (process_operation V M (md\<lparr>operation_id := u64 (sn + i)\<rparr>) op st) (\<lambda>(status, st').
       if status \<noteq> SUCCESS then Inr (status, i, st') else process_ops V M md sn (Suc i) ops st')"

fun unwind_operation ::
  "('v, 'm) manager_ops \<Rightarrow> op_metadata \<Rightarrow> 'pk operation \<Rightarrow> 'm \<Rightarrow> 'm result" where
  "unwind_operation M md (CREATE_SELL_OFFER op) m =
     bind_result (mo_look_up_idx M (cso_category op) m) (\<lambda>market_idx.
       mo_unwind_add_offer M market_idx (make_offer op md) m)"
| "unwind_operation M md (CANCEL_SELL_OFFER op) m =
     bind_result (mo_look_up_idx M (can_category op) m) (\<lambda>market_idx.
       mo_undelete_offer M market_idx (can_minPrice op) (tx_source md) (can_offerId op) m)"
| "unwind_operation M md op m = Inr m"

text \<open>\<open>k\<close> operations are unwound, the last one first.\<close>

fun unwind_ops ::
  "('v, 'm) manager_ops \<Rightarrow> op_metadata \<Rightarrow> nat \<Rightarrow> 'pk operation list \<Rightarrow> nat \<Rightarrow> 'm \<Rightarrow> 'm result" where
  "unwind_ops M md sn ops 0 m = Inr m"
| "unwind_ops M md sn ops (Suc k) m =
     bind_result (unwind_operation M (md\<lparr>operation_id := u64 (sn + k)\<rparr>) (ops ! k) m) (unwind_ops M md sn ops k)"

definition unwind_transaction ::
  "('v, 'm) manager_ops \<Rightarrow> 'pk transaction \<Rightarrow> nat \<Rightarrow> ('pk, 't) memory_database \<Rightarrow> 'm \<Rightarrow> 'm result" where
  "unwind_transaction M tx processed db m =
     (case db_lookup_user (sourceAccount (metadata tx)) db of
        None \<Rightarrow> Inl (RuntimeError ''can't unwind tx from nonexistnet acct'')
      | Some idx \<Rightarrow>
          unwind_ops M \<lparr>tx_source = sourceAccount (metadata tx), source_account_idx = DbPtr idx, operation_id = 0\<rparr>
            (sequenceNumber (metadata tx)) (operations tx) processed m)"

type_synonym ('pk, 'sig, 't, 'ht) processor_state =
  "'t managers \<times> ('pk, 'ht) memory_database \<times> block_state_update_stats \<times> self_log \<times> ('pk, 'sig) tx_log_event list"

text \<open>A failed transaction: the operations are unwound, then the database view.\<close>

definition fail_transaction ::
  "tx_status \<Rightarrow> 'pk buffered_view \<Rightarrow> ('pk, 'sig, 't, 'ht) processor_state
     \<Rightarrow> (tx_status \<times> ('pk, 'sig, 't, 'ht) processor_state) result" where
  "fail_transaction status bv st =
     (case st of (m, db, rest) \<Rightarrow> bind_result (bv_unwind bv db) (\<lambda>db'. Inr (status, m, db', rest)))"

definition process_transaction ::
  "'t offer_trie \<Rightarrow> (offer_key \<Rightarrow> nat \<Rightarrow> nat \<Rightarrow> offer_key) \<Rightarrow> ('pk transaction \<Rightarrow> 'sig \<Rightarrow> 'pk \<Rightarrow> bool) \<Rightarrow> bool
     \<Rightarrow> ('pk, 'sig) signed_transaction \<Rightarrow> ('pk, 'sig, 't, 'ht) processor_state
     \<Rightarrow> (tx_status \<times> ('pk, 'sig, 't, 'ht) processor_state) result" where
  "process_transaction T wr8 sig_check check_sigs signed_tx st =
     (case st of (m, db, stats, lg, tlog) \<Rightarrow>
      let tx = stx signed_tx; sn = sequenceNumber (metadata tx); M = processing_manager T wr8;
          fee_req = fee_required (length (operations tx))
      in if \<not> check_tx_format_parameters tx then Inr (INVALID_TX_FORMAT, st)
         else if fee_req > int (maxFee tx) then Inr (FEE_BID_TOO_LOW, st)
         else case db_lookup_user (sourceAccount (metadata tx)) db of
           None \<Rightarrow> Inr (SOURCE_ACCOUNT_NEXIST, st)
         | Some idx \<Rightarrow>
             if check_sigs \<and> \<not> sig_check tx (signature signed_tx) (pk (db_account idx db)) then Inr (BAD_SIGNATURE, st)
             else
               (case bv_reserve_sequence_number (DbPtr idx) sn bv_init db of
                 (seq_num_status, bv1, db1) \<Rightarrow>
                   if seq_num_status \<noteq> SUCCESS then fail_transaction seq_num_status bv1 (m, db1, stats, lg, tlog)
                   else
                     (case bv_transfer_available (DbPtr idx) NATIVE_ASSET (i64 (- fee_req)) bv1 db1 of
                       (fee_status, bv2, db2) \<Rightarrow>
                         if fee_status \<noteq> SUCCESS then fail_transaction fee_status bv2 (m, db2, stats, lg, tlog)
                         else
                           bind_result
                             (process_ops buffered_ops M
                                \<lparr>tx_source = sourceAccount (metadata tx), source_account_idx = DbPtr idx, operation_id = 0\<rparr>
                                sn 0 (operations tx) (m, (bv2, db2), lg, empty_stats))
                             (\<lambda>(status, i, m3, (bv3, db3), lg3, local_stats).
                                if status \<noteq> SUCCESS
                                then bind_result (unwind_transaction M tx i db3 m3)
                                       (\<lambda>m4. fail_transaction status bv3 (m4, db3, stats, lg3, tlog))
                                else Inr (SUCCESS, m3, bv_commit bv3 db3, stats_add stats local_stats, lg3,
                                       log_modified_accounts (mo_maintain_account_log M) signed_tx tlog)))))"

section \<open>Validating a transaction\<close>

type_synonym ('pk, 'sig, 'm, 'ht) validator_tx_state =
  "'m \<times> ('pk, 'ht) memory_database \<times> block_state_update_stats \<times> self_log \<times> ('pk, 'sig) tx_log_event list"

definition validate_transaction ::
  "('pk, 'pk account_creation_view \<times> ('pk, 'ht) memory_database) view_ops
     \<Rightarrow> ('pk account_creation_view \<times> ('pk, 'ht) memory_database, 'm) manager_ops
     \<Rightarrow> ('pk transaction \<Rightarrow> 'sig \<Rightarrow> 'pk \<Rightarrow> bool) \<Rightarrow> bool
     \<Rightarrow> ('pk, 'sig) signed_transaction \<Rightarrow> ('pk, 'sig, 'm, 'ht) validator_tx_state
     \<Rightarrow> (bool \<times> ('pk, 'sig, 'm, 'ht) validator_tx_state) result" where
  "validate_transaction V M sig_check check_sigs signed_tx st =
     (case st of (m, db, stats, lg, tlog) \<Rightarrow>
      let tx = stx signed_tx; sn = sequenceNumber (metadata tx);
          fee_req = fee_required (length (operations tx))
      in if \<not> check_tx_format_parameters tx then Inr (False, st)
         else case db_lookup_user (sourceAccount (metadata tx)) db of
           None \<Rightarrow> Inr (False, st)
         | Some idx \<Rightarrow>
             if fee_req > int (maxFee tx) then Inr (False, st)
             else if check_sigs \<and> \<not> sig_check tx (signature signed_tx) (pk (db_account idx db)) then Inr (False, st)
             else
               (case vo_reserve_sequence_number V (DbPtr idx) sn (acv_init, db) of
                 (id_status, acv1, db1) \<Rightarrow>
                   if id_status \<noteq> SUCCESS then Inr (False, m, db1, stats, lg, tlog)
                   else
                     (case vo_transfer_available V (DbPtr idx) NATIVE_ASSET (i64 (- fee_req)) (acv1, db1) of
                       (fee_status, acv2, db2) \<Rightarrow>
                         if fee_status \<noteq> SUCCESS then Inr (False, m, db2, stats, lg, tlog)
                         else
                           bind_result
                             (process_ops V M
                                \<lparr>tx_source = sourceAccount (metadata tx), source_account_idx = DbPtr idx, operation_id = 0\<rparr>
                                sn 0 (operations tx) (m, (acv2, db2), lg, empty_stats))
                             (\<lambda>(status, i, m3, (acv3, db3), lg3, local_stats).
                                if status \<noteq> SUCCESS then Inr (False, m3, db3, stats, lg3, tlog)
                                else Inr (True, m3, acv_commit acv3 db3, stats_add stats local_stats, lg3,
                                       log_modified_accounts (mo_maintain_account_log M) signed_tx tlog)))))"

end
