(* ===== verification/Transaction_Atomicity.thy ===== *)
theory Transaction_Atomicity
  imports Transaction_Processor Offer_Book
begin

text \<open>
  Correctness of \<open>process_transaction\<close>: a transaction that fails, at whatever operation, leaves the
  accounts, the orderbooks, the buffered new offers, the statistics and the logs as they were; a
  transaction that succeeds changes every balance by its fee and the amounts of its operations. The account side
  rests on the invariant of the buffered view (\<open>view_inv\<close>), the orderbook side on the trie contract.
\<close>

section \<open>The account side\<close>

definition tmp_ok :: "'pk account_creation_view \<Rightarrow> bool" where
  "tmp_ok acv \<longleftrightarrow> (\<forall>a p. temporary_idxs acv a = Some p \<longrightarrow> (\<exists>n. p = NewPtr n))"

definition tx_inv ::
  "('pk, 't) memory_database \<Rightarrow> (nat \<Rightarrow> asset_id \<Rightarrow> int) \<Rightarrow> 'pk buffered_view \<Rightarrow> ('pk, 't) memory_database \<Rightarrow> bool" where
  "tx_inv db0 eff bv db \<longleftrightarrow> db_ok db0 \<and> view_inv db0 eff bv db \<and> tmp_ok (bv_base bv)"

lemma tx_inv_init: "db_ok db \<Longrightarrow> tx_inv db (\<lambda>_ _. 0) bv_init db"
  unfolding tx_inv_def by (intro conjI view_inv_init) (simp_all add: tmp_ok_def bv_init_def acv_init_def)

lemma tmp_ok_call: "do_call c bv db = (st, bv', db') \<Longrightarrow> tmp_ok (bv_base bv) \<Longrightarrow> tmp_ok (bv_base bv')"
  by (cases c)
    (auto simp: tmp_ok_def bv_escrow_def bv_transfer_available_def bv_on_new_def acv_modify_new_def bv_put_account_def
      bv_create_new_account_def acv_create_new_account_def bv_reserve_sequence_number_def acv_reserve_sequence_number_def Let_def
      split: uptr.splits prod.splits if_splits)

lemma tx_inv_call:
  "tx_inv db0 eff bv db \<Longrightarrow> call_ok (length (contents db0)) c \<Longrightarrow> do_call c bv db = (st, bv', db')
   \<Longrightarrow> tx_inv db0 (\<lambda>i k. eff i k + call_effect c st i k) bv' db'"
  using view_inv_call tmp_ok_call unfolding tx_inv_def by blast

definition ptr_ok :: "('pk, 't) memory_database \<Rightarrow> uptr \<Rightarrow> bool" where
  "ptr_ok db p \<longleftrightarrow> (case p of DbPtr i \<Rightarrow> i < length (contents db) | NewPtr _ \<Rightarrow> True)"

lemma tx_inv_transfer:
  "tx_inv db0 eff bv db \<Longrightarrow> ptr_ok db0 p \<Longrightarrow> bv_transfer_available p k x bv db = (st, bv', db')
   \<Longrightarrow> tx_inv db0 (\<lambda>i a. eff i a + call_effect (VTransfer p k x :: 'pk view_call) st i a) bv' db'"
  for db0 :: "('pk, 't) memory_database"
  by (rule tx_inv_call) (auto simp: ptr_ok_def split: uptr.splits)

lemma tx_inv_escrow:
  "tx_inv db0 eff bv db \<Longrightarrow> ptr_ok db0 p \<Longrightarrow> bv_escrow p k x bv db = (st, bv', db')
   \<Longrightarrow> tx_inv db0 (\<lambda>i a. eff i a + call_effect (VEscrow p k x :: 'pk view_call) st i a) bv' db'"
  for db0 :: "('pk, 't) memory_database"
  by (rule tx_inv_call) (auto simp: ptr_ok_def split: uptr.splits)

lemma tx_inv_create:
  assumes "tx_inv db0 eff bv db" and "bv_create_new_account own pub bv db = ((st, p), bv', db')"
  shows "tx_inv db0 eff bv' db'" and "st = SUCCESS \<Longrightarrow> \<exists>n. p = Some (NewPtr n)"
proof -
  show "tx_inv db0 eff bv' db'"
    using tx_inv_call [OF assms(1), of "VCreate own pub" st bv' db'] assms(2) by simp
  show "st = SUCCESS \<Longrightarrow> \<exists>n. p = Some (NewPtr n)"
    using assms(2) by (auto simp: bv_create_new_account_def acv_create_new_account_def Let_def split: prod.splits if_splits)
qed

lemma db_lookup_less: "db_wf db \<Longrightarrow> db_lookup_user a db = Some i \<Longrightarrow> i < length (contents db)"
  by (simp add: db_lookup_user_def db_wf_def)

lemma tx_inv_frame:
  assumes "tx_inv db0 eff bv db"
  shows "db_lookup_user a db = db_lookup_user a db0" and "db_wf db0"
  using assms by (simp_all add: tx_inv_def view_inv_def db_frame_def db_lookup_user_def db_ok_def)

text \<open>A payment reaches an account of the database or one that this transaction created.\<close>

lemma tx_inv_lookup:
  assumes "tx_inv db0 eff bv db" and "bv_lookup_user a bv db = Some p"
  shows "ptr_ok db0 p" and "(\<exists>i. p = DbPtr i \<and> db_lookup_user a db0 = Some i) \<or> (\<exists>n. p = NewPtr n \<and> db_lookup_user a db0 = None)"
proof -
  show *: "(\<exists>i. p = DbPtr i \<and> db_lookup_user a db0 = Some i) \<or> (\<exists>n. p = NewPtr n \<and> db_lookup_user a db0 = None)"
    using assms tx_inv_frame(1) [OF assms(1)]
    by (auto simp: bv_lookup_user_def acv_lookup_user_def tx_inv_def tmp_ok_def split: option.splits)
  show "ptr_ok db0 p" using * db_lookup_less [OF tx_inv_frame(2) [OF assms(1)]] by (auto simp: ptr_ok_def)
qed

text \<open>
  What an operation that succeeds adds to balance \<open>k\<close> of account \<open>i\<close>; \<open>s\<close> is the source account and
  \<open>returned\<close> the amount of the cancelled offer.
\<close>

definition one :: "nat \<Rightarrow> asset_id \<Rightarrow> int \<Rightarrow> nat \<Rightarrow> asset_id \<Rightarrow> int" where
  "one j l x i k = (if i = j \<and> k = l then x else 0)"

fun op_effect :: "(account_id \<Rightarrow> nat option) \<Rightarrow> nat \<Rightarrow> nat \<Rightarrow> 'pk operation \<Rightarrow> nat \<Rightarrow> asset_id \<Rightarrow> int" where
  "op_effect lookup s returned (CREATE_ACCOUNT op) i k = one s NATIVE_ASSET (- startingBalance op) i k"
| "op_effect lookup s returned (CREATE_SELL_OFFER op) i k = one s (sellAsset (cso_category op)) (- cso_amount op) i k"
| "op_effect lookup s returned (CANCEL_SELL_OFFER op) i k = one s (sellAsset (can_category op)) (int returned) i k"
| "op_effect lookup s returned (PAYMENT op) i k =
     one s (pay_asset op) (- pay_amount op) i k
     + (case lookup (receiver op) of None \<Rightarrow> 0 | Some t \<Rightarrow> one t (pay_asset op) (pay_amount op) i k)"
| "op_effect lookup s returned (MONEY_PRINTER op) i k = one s (mp_asset op) (mp_amount op) i k"

lemma valid_amount_neg: "is_valid_amount x \<Longrightarrow> i64 (- x) = - x"
  by (simp add: is_valid_amount_def in_i64_def)

lemma view_inv_eff_cong:
  assumes "view_inv db0 eff bv db" and "\<And>i k. i64 (eff i k) = i64 (eff' i k)"
  shows "view_inv db0 eff' bv db"
  using assms by (simp add: view_inv_def ledger_inv_def)

lemma tx_inv_eff_cong:
  "tx_inv db0 eff bv db \<Longrightarrow> (\<And>i k. i64 (eff i k) = i64 (eff' i k)) \<Longrightarrow> tx_inv db0 eff' bv db"
  unfolding tx_inv_def using view_inv_eff_cong by blast

text \<open>The account side of an operation: the invariant holds on, with the given effect if it succeeded.\<close>

definition acct_step ::
  "('pk, 't) memory_database \<Rightarrow> (nat \<Rightarrow> asset_id \<Rightarrow> int) \<Rightarrow> (nat \<Rightarrow> asset_id \<Rightarrow> int) \<Rightarrow> tx_status
     \<Rightarrow> 'pk buffered_view \<times> ('pk, 't) memory_database \<Rightarrow> bool" where
  "acct_step db0 eff d status v \<longleftrightarrow> (\<exists>e. tx_inv db0 e (fst v) (snd v))
     \<and> (status = SUCCESS \<longrightarrow> tx_inv db0 (\<lambda>i k. eff i k + d i k) (fst v) (snd v))"

lemma acct_stepI:
  assumes "tx_inv db0 e (fst v) (snd v)" and "status = SUCCESS \<Longrightarrow> \<forall>i k. i64 (e i k) = i64 (eff i k + d i k)"
  shows "acct_step db0 eff d status v"
  unfolding acct_step_def
proof (intro conjI impI)
  show "\<exists>e. tx_inv db0 e (fst v) (snd v)" using assms(1) by blast
  assume "status = SUCCESS"
  then show "tx_inv db0 (\<lambda>i k. eff i k + d i k) (fst v) (snd v)" using assms(2) by (intro tx_inv_eff_cong [OF assms(1)]) blast
qed

lemma buffered_ops_simps [simp]:
  "vo_transfer_available buffered_ops p k x (bv, db) = bv_transfer_available p k x bv db"
  "vo_escrow buffered_ops p k x (bv, db) = bv_escrow p k x bv db"
  "vo_create_new_account buffered_ops a pub (bv, db) = bv_create_new_account a pub bv db"
  "vo_lookup_user buffered_ops a (bv, db) = bv_lookup_user a bv db"
  by (simp_all add: buffered_ops_def on_pair_def)

lemma call_effect_one:
  "call_effect (VTransfer (DbPtr j) l x) SUCCESS i k = one j l x i k"
  "call_effect (VEscrow (DbPtr j) l x) SUCCESS i k = one j l (- x) i k"
  "call_effect (VTransfer (NewPtr n) l x) st i k = 0"
  by (simp_all add: one_def)

lemma create_account_step:
  assumes inv: "tx_inv db0 eff bv db" and s: "source_account_idx md = DbPtr s" "s < length (contents db0)"
    and run: "process_create_account buffered_ops md op (m, (bv, db), lg, stats) = Inr (status, m', v', lg', stats')"
  shows "m' = m \<and> lg' = lg \<and> acct_step db0 eff (op_effect lk s r (CREATE_ACCOUNT op)) status v'"
proof (cases "startingBalance op < CREATE_ACCOUNT_MIN_STARTING_BALANCE")
  case True
  then show ?thesis using run inv by (auto simp: process_create_account_def intro!: acct_stepI)
next
  case False
  obtain st1 p bv1 db1 where c: "bv_create_new_account (newAccountId op) (newAccountPublicKey op) bv db = ((st1, p), bv1, db1)"
    by (metis prod.collapse)
  note c' = tx_inv_create [OF inv c]
  show ?thesis
  proof (cases "st1 = SUCCESS")
    case nst: False
    then show ?thesis using run False c c'(1) by (auto simp: process_create_account_def intro!: acct_stepI)
  next
    case True
    then obtain n where p: "p = Some (NewPtr n)" using c'(2) by blast
    obtain st2 bv2 db2 where t: "bv_transfer_available (DbPtr s) NATIVE_ASSET (i64 (- startingBalance op)) bv1 db1 = (st2, bv2, db2)"
      by (metis prod.collapse)
    have inv2: "tx_inv db0 (\<lambda>i a. eff i a + call_effect (VTransfer (DbPtr s) NATIVE_ASSET (i64 (- startingBalance op)) :: 'a view_call) st2 i a) bv2 db2"
      using s by (intro tx_inv_transfer [OF c'(1) _ t]) (simp add: ptr_ok_def)
    show ?thesis
    proof (cases "st2 = SUCCESS \<and> is_valid_amount (startingBalance op)")
      case nst: False
      then show ?thesis using run False c True t s inv2
        by (auto simp: process_create_account_def intro!: acct_stepI split: if_splits)
    next
      case True2: True
      obtain st3 bv3 db3 where t3: "bv_transfer_available (NewPtr n) NATIVE_ASSET (startingBalance op) bv2 db2 = (st3, bv3, db3)"
        by (metis prod.collapse)
      have "tx_inv db0 (\<lambda>i a. eff i a + call_effect (VTransfer (DbPtr s) NATIVE_ASSET (i64 (- startingBalance op)) :: 'a view_call) st2 i a
          + call_effect (VTransfer (NewPtr n) NATIVE_ASSET (startingBalance op) :: 'a view_call) st3 i a) bv3 db3"
        by (intro tx_inv_transfer [OF inv2 _ t3]) (simp add: ptr_ok_def)
      then show ?thesis using run False c True t s True2 p t3
        by (auto simp: process_create_account_def one_def valid_amount_neg intro!: acct_stepI split: if_splits)
    qed
  qed
qed

lemma payment_step:
  assumes inv: "tx_inv db0 eff bv db" and s: "source_account_idx md = DbPtr s" "s < length (contents db0)"
    and run: "process_payment buffered_ops md op (m, (bv, db), lg, stats) = Inr (status, m', v', lg', stats')"
  shows "m' = m \<and> lg' = lg \<and> acct_step db0 eff (op_effect (\<lambda>a. db_lookup_user a db0) s r (PAYMENT op)) status v'"
proof (cases "is_valid_amount (pay_amount op) \<and> bv_lookup_user (receiver op) bv db \<noteq> None")
  case False
  then show ?thesis using run inv by (auto simp: process_payment_def Let_def intro!: acct_stepI split: option.splits if_splits)
next
  case True
  then obtain q where q: "bv_lookup_user (receiver op) bv db = Some q" and valid: "is_valid_amount (pay_amount op)" by blast
  note q' = tx_inv_lookup [OF inv q]
  obtain st1 bv1 db1 where t: "bv_transfer_available (DbPtr s) (pay_asset op) (i64 (- pay_amount op)) bv db = (st1, bv1, db1)"
    by (metis prod.collapse)
  have inv1: "tx_inv db0 (\<lambda>i a. eff i a + call_effect (VTransfer (DbPtr s) (pay_asset op) (i64 (- pay_amount op)) :: 'a view_call) st1 i a) bv1 db1"
    using s by (intro tx_inv_transfer [OF inv _ t]) (simp add: ptr_ok_def)
  show ?thesis
  proof (cases "st1 = SUCCESS")
    case False
    then show ?thesis using run t s inv1 q valid by (auto simp: process_payment_def Let_def intro!: acct_stepI)
  next
    case True2: True
    obtain st2 bv2 db2 where t2: "bv_transfer_available q (pay_asset op) (pay_amount op) bv1 db1 = (st2, bv2, db2)"
      by (metis prod.collapse)
    have inv2: "tx_inv db0 (\<lambda>i a. eff i a + call_effect (VTransfer (DbPtr s) (pay_asset op) (i64 (- pay_amount op)) :: 'a view_call) st1 i a
        + call_effect (VTransfer q (pay_asset op) (pay_amount op) :: 'a view_call) st2 i a) bv2 db2"
      by (rule tx_inv_transfer [OF inv1 q'(1) t2])
    have "acct_step db0 eff (op_effect (\<lambda>a. db_lookup_user a db0) s r (PAYMENT op)) st2 (bv2, db2)"
      by (rule acct_stepI [of _ _ "(bv2, db2)", unfolded fst_conv snd_conv, OF inv2])
        (use True2 q'(2) valid in \<open>auto simp: one_def valid_amount_neg\<close>)
    then show ?thesis using run t s q valid True2 t2
      by (auto simp: process_payment_def Let_def split: if_splits)
  qed
qed

lemma money_printer_step:
  assumes inv: "tx_inv db0 eff bv db" and s: "source_account_idx md = DbPtr s" "s < length (contents db0)"
    and run: "process_money_printer buffered_ops md op (m, (bv, db), lg, stats) = Inr (status, m', v', lg', stats')"
  shows "m' = m \<and> lg' = lg \<and> acct_step db0 eff (op_effect lk s r (MONEY_PRINTER op)) status v'"
proof (cases "mp_amount op < 0")
  case True
  then show ?thesis using run inv by (auto simp: process_money_printer_def intro!: acct_stepI)
next
  case False
  obtain st1 bv1 db1 where t: "bv_transfer_available (DbPtr s) (mp_asset op) (mp_amount op) bv db = (st1, bv1, db1)"
    by (metis prod.collapse)
  have "tx_inv db0 (\<lambda>i a. eff i a + call_effect (VTransfer (DbPtr s) (mp_asset op) (mp_amount op) :: 'a view_call) st1 i a) bv1 db1"
    using s by (intro tx_inv_transfer [OF inv _ t]) (simp add: ptr_ok_def)
  then show ?thesis using run False t s
    by (auto simp: process_money_printer_def one_def intro!: acct_stepI)
qed

section \<open>The orderbook side\<close>

definition new_entries :: "('t \<Rightarrow> book) \<Rightarrow> 't serial_manager \<Rightarrow> nat \<Rightarrow> (offer_key \<times> offer) list" where
  "new_entries bk sm i =
     (if i < length (new_offers sm) then (case new_offers sm ! i of Some t \<Rightarrow> entries (bk t) | None \<Rightarrow> []) else [])"

definition slots_le :: "'t serial_manager \<Rightarrow> 't serial_manager \<Rightarrow> bool" where
  "slots_le sm sm2 \<longleftrightarrow> length (new_offers sm) \<le> length (new_offers sm2)
     \<and> (\<forall>i < length (new_offers sm). new_offers sm ! i \<noteq> None \<longrightarrow> new_offers sm2 ! i \<noteq> None)"

definition book_view :: "('t \<Rightarrow> book) \<Rightarrow> 't orderbook \<Rightarrow> (offer_key \<times> offer) list \<times> offer_key set" where
  "book_view bk ob = (entries (bk (committed_offers ob)), marks (bk (committed_offers ob)))"

definition ob_frame :: "'t orderbook \<Rightarrow> offer_category \<times> 't \<times> 't thunk list \<times> metadata_index" where
  "ob_frame ob = (ob_category ob, uncommitted_offers ob, thunks ob, indexed_metadata ob)"

definition om_same :: "('t \<Rightarrow> book) \<Rightarrow> 't orderbook_manager \<Rightarrow> 't orderbook_manager \<Rightarrow> bool" where
  "om_same bk om om2 \<longleftrightarrow> num_assets om2 = num_assets om \<and> map ob_frame (orderbooks om2) = map ob_frame (orderbooks om)
     \<and> map (book_view bk) (orderbooks om2) = map (book_view bk) (orderbooks om)"

text \<open>
  \<open>mgr_back bk m m2\<close>: \<open>m2\<close> holds the same offers, marks and new offers as \<open>m\<close>; it may have more empty
  buffers.
\<close>

definition mgr_back :: "('t \<Rightarrow> book) \<Rightarrow> 't managers \<Rightarrow> 't managers \<Rightarrow> bool" where
  "mgr_back bk m m2 \<longleftrightarrow> om_same bk (fst m) (fst m2) \<and> new_entries bk (snd m2) = new_entries bk (snd m)
     \<and> activated_supplies (snd m2) = activated_supplies (snd m) \<and> slots_le (snd m) (snd m2)"

lemma om_same_refl [simp]: "om_same bk om om"
  by (simp add: om_same_def)

lemma om_same_trans: "om_same bk a b \<Longrightarrow> om_same bk b c \<Longrightarrow> om_same bk a c"
  by (simp add: om_same_def)

lemma slots_le_refl [simp]: "slots_le sm sm"
  by (simp add: slots_le_def)

lemma slots_le_trans: "slots_le a b \<Longrightarrow> slots_le b c \<Longrightarrow> slots_le a c"
  unfolding slots_le_def by (meson le_trans less_le_trans)

lemma mgr_back_refl [simp]: "mgr_back bk m m"
  by (simp add: mgr_back_def)

lemma mgr_back_trans: "mgr_back bk a b \<Longrightarrow> mgr_back bk b c \<Longrightarrow> mgr_back bk a c"
  unfolding mgr_back_def using om_same_trans slots_le_trans by metis

lemma ensure_facts:
  assumes "offer_trie_ok T bk"
  shows "new_entries bk (ensure_suffient_new_offers_sz T idx sm) = new_entries bk sm"
    and "activated_supplies (ensure_suffient_new_offers_sz T idx sm) = activated_supplies sm"
    and "slots_le sm (ensure_suffient_new_offers_sz T idx sm)"
  using trie_eqs(1) [OF assms]
  by (auto simp: new_entries_def ensure_suffient_new_offers_sz_def slots_le_def nth_append empty_book_def fun_eq_iff)

lemma sm_at_Inr: "sm_at idx sm = Inr t \<longleftrightarrow> to_u64 idx < length (new_offers sm) \<and> new_offers sm ! to_u64 idx = Some t"
  by (auto simp: sm_at_def bind_result_Inr vec_at_Inr)

lemma sm_put_facts:
  assumes "to_u64 idx < length (new_offers sm)"
  shows "new_entries bk (sm_put idx t sm) = (new_entries bk sm)(to_u64 idx := entries (bk t))"
    and "activated_supplies (sm_put idx t sm) = activated_supplies sm" and "slots_le sm (sm_put idx t sm)"
    and "\<exists>u. sm_at idx (sm_put idx t sm) = Inr u"
  using assms by (auto simp: new_entries_def sm_put_def slots_le_def nth_list_update fun_eq_iff sm_at_def)

lemma del_ins: "k \<notin> fst ` set xs \<Longrightarrow> del k (ins k v xs) = xs"
proof (induction xs)
  case Nil
  show ?case by (simp add: del_def)
next
  case (Cons e xs)
  obtain l w where e: "e = (l, w)" by fastforce
  have "del k xs = xs" using Cons.prems unfolding del_def by (intro filter_True) auto
  then show ?case using Cons by (auto simp: e del_def)
qed

lemma set_ins: "set (ins k v xs) \<subseteq> insert (k, v) (set xs)"
  by (induction xs) (auto split: if_splits)

lemma add_offer_facts:
  assumes T: "offer_trie_ok T bk" and run: "pm_add_offer T wr8 idx off sm = Inr sm'"
  shows "new_entries bk sm' = (new_entries bk sm)(to_u64 idx := ins (offer_key_of wr8 off) off (new_entries bk sm (to_u64 idx)))"
    and "activated_supplies sm' = activated_supplies sm" and "slots_le sm sm'" and "\<exists>t. sm_at idx sm' = Inr t"
proof -
  let ?sm1 = "ensure_suffient_new_offers_sz T idx sm"
  note e = ensure_facts [OF T, where idx = idx and sm = sm]
  obtain t where t: "sm_at idx ?sm1 = Inr t" and sm': "sm' = sm_put idx (ot_insert T (offer_key_of wr8 off) off t) ?sm1"
    using run by (auto simp: pm_add_offer_def Let_def bind_result_Inr)
  have j: "to_u64 idx < length (new_offers ?sm1)" "new_offers ?sm1 ! to_u64 idx = Some t" using t by (simp_all add: sm_at_Inr)
  have "new_entries bk sm (to_u64 idx) = entries (bk t)" using j unfolding e(1) [symmetric] by (simp add: new_entries_def)
  then show "new_entries bk sm' = (new_entries bk sm)(to_u64 idx := ins (offer_key_of wr8 off) off (new_entries bk sm (to_u64 idx)))"
    unfolding sm' sm_put_facts(1) [OF j(1)] e(1) by (simp add: trie_eqs [OF T] b_insert_def)
  show "activated_supplies sm' = activated_supplies sm" unfolding sm' sm_put_facts(2) [OF j(1)] e(2) ..
  show "slots_le sm sm'" unfolding sm' by (rule slots_le_trans [OF e(3) sm_put_facts(3) [OF j(1)]])
  show "\<exists>t. sm_at idx sm' = Inr t" unfolding sm' by (rule sm_put_facts(4) [OF j(1)])
qed

lemma unwind_add_facts:
  assumes T: "offer_trie_ok T bk" and at: "sm_at idx sm = Inr t"
  shows "\<exists>sm'. unwind_add_offer T wr8 idx off sm = Inr sm'
    \<and> new_entries bk sm' = (new_entries bk sm)(to_u64 idx := del (offer_key_of wr8 off) (new_entries bk sm (to_u64 idx)))
    \<and> activated_supplies sm' = activated_supplies sm \<and> slots_le sm sm'"
proof -
  have j: "to_u64 idx < length (new_offers sm)" "new_offers sm ! to_u64 idx = Some t" using at by (simp_all add: sm_at_Inr)
  have ne: "new_entries bk sm (to_u64 idx) = entries (bk t)" using j by (simp add: new_entries_def)
  have "entries (bk (fst (ot_perform_deletion T (offer_key_of wr8 off) t))) = del (offer_key_of wr8 off) (entries (bk t))"
    using trie_eqs(3) [OF T, of "offer_key_of wr8 off" t] by (simp add: bk_fst_def b_perform_deletion_def)
  then show ?thesis using sm_put_facts [OF j(1)] at ne by (simp add: unwind_add_offer_def)
qed

lemma slots_le_at: "slots_le sm sm2 \<Longrightarrow> sm_at idx sm = Inr t \<Longrightarrow> \<exists>u. sm_at idx sm2 = Inr u"
  unfolding slots_le_def sm_at_Inr by (metis less_le_trans option.distinct(1) option.exhaust)

lemma om_same_nth:
  "om_same bk om om2 \<longleftrightarrow> num_assets om2 = num_assets om \<and> length (orderbooks om2) = length (orderbooks om)
     \<and> (\<forall>j < length (orderbooks om). ob_frame (orderbooks om2 ! j) = ob_frame (orderbooks om ! j)
          \<and> book_view bk (orderbooks om2 ! j) = book_view bk (orderbooks om ! j))"
  unfolding om_same_def list_eq_iff_nth_eq by auto

lemma mark_facts:
  assumes T: "offer_trie_ok T bk" and run: "om_mark_for_deletion T idx k om = Inr (om', r)"
  shows "0 \<le> idx \<and> nat idx < length (orderbooks om)
    \<and> (\<exists>ob'. om' = om\<lparr>orderbooks := (orderbooks om)[nat idx := ob']\<rparr> \<and> ob_frame ob' = ob_frame (orderbooks om ! nat idx)
        \<and> (let (es, ms) = book_view bk (orderbooks om ! nat idx)
           in if k \<in> fst ` set es \<and> k \<notin> ms then r = map_of es k \<and> book_view bk ob' = (es, insert k ms)
              else r = None \<and> book_view bk ob' = (es, ms)))"
proof -
  let ?ob = "orderbooks om ! nat idx"
  obtain t r' where t: "ot_mark_for_deletion T k (committed_offers ?ob) = (t, r')" by fastforce
  have idx: "0 \<le> idx" "nat idx < length (orderbooks om)"
    using run by (auto simp: om_mark_for_deletion_def om_on_book_def split: if_splits)
  then have om': "om' = om\<lparr>orderbooks := (orderbooks om)[nat idx := ?ob\<lparr>committed_offers := t\<rparr>]\<rparr>" "r = r'"
    using run t by (auto simp: om_mark_for_deletion_def om_on_book_def ob_mark_for_deletion_def)
  have "(bk t, r') = b_mark k (bk (committed_offers ?ob))"
    using trie_eqs(16) [OF T, of k "committed_offers ?ob"] t by (simp add: bk_fst_def)
  then show ?thesis
    using idx om' by (auto simp: book_view_def ob_frame_def b_mark_def intro!: exI [of _ "?ob\<lparr>committed_offers := t\<rparr>"] split: if_splits)
qed

lemma unmark_facts:
  assumes T: "offer_trie_ok T bk" and idx: "0 \<le> idx" "nat idx < length (orderbooks om)"
    and view: "book_view bk (orderbooks om ! nat idx) = (es, ms)" and k: "k \<in> fst ` set es" "k \<in> ms"
  shows "\<exists>om' r ob'. om_unmark_for_deletion T idx k om = Inr (om', r) \<and> om' = om\<lparr>orderbooks := (orderbooks om)[nat idx := ob']\<rparr>
    \<and> ob_frame ob' = ob_frame (orderbooks om ! nat idx) \<and> book_view bk ob' = (es, ms - {k})"
proof -
  let ?ob = "orderbooks om ! nat idx"
  obtain t r' where t: "ot_unmark_for_deletion T k (committed_offers ?ob) = (t, r')" by fastforce
  have "(bk t, r') = b_unmark k (bk (committed_offers ?ob))"
    using trie_eqs(17) [OF T, of k "committed_offers ?ob"] t by (simp add: bk_fst_def)
  then show ?thesis
    using idx t view k by (auto simp: om_unmark_for_deletion_def om_on_book_def ob_unmark_for_deletion_def book_view_def
        ob_frame_def b_unmark_def)
qed

lemma delete_undelete:
  assumes T: "offer_trie_ok T bk" and run: "delete_offer T (direct_manager T) wr8 idx p own i m = Inr (m', r)"
  shows "r = None \<Longrightarrow> mgr_back bk m m'"
    and "r \<noteq> None \<Longrightarrow> mgr_back bk m' m2 \<Longrightarrow> \<exists>m3. undelete_offer (direct_manager T) wr8 idx p own i m2 = Inr m3 \<and> mgr_back bk m m3"
proof -
  obtain om sm where m: "m = (om, sm)" by fastforce
  let ?k = "view_key wr8 p own i"
  obtain om' where mark: "om_mark_for_deletion T idx ?k om = Inr (om', r)"
    and m': "m' = (om', ensure_suffient_new_offers_sz T idx sm)"
    using run by (auto simp: m delete_offer_def bind_result_Inr direct_manager_def)
  note e = ensure_facts [OF T, where idx = idx and sm = sm]
  obtain es ms where v: "book_view bk (orderbooks om ! nat idx) = (es, ms)" by fastforce
  obtain ob' where idx: "0 \<le> idx" "nat idx < length (orderbooks om)"
    and om': "om' = om\<lparr>orderbooks := (orderbooks om)[nat idx := ob']\<rparr>" "ob_frame ob' = ob_frame (orderbooks om ! nat idx)"
    and c: "if ?k \<in> fst ` set es \<and> ?k \<notin> ms then r = map_of es ?k \<and> book_view bk ob' = (es, insert ?k ms)
              else r = None \<and> book_view bk ob' = (es, ms)"
    using mark_facts [OF T mark] v by (auto simp: Let_def)
  show "mgr_back bk m m'" if none: "r = None"
  proof -
    have "book_view bk ob' = (es, ms)" using c none by (auto simp: map_of_eq_None_iff split: if_splits)
    then have "om_same bk om om'" using om' v idx by (auto simp: om_same_nth nth_list_update)
    then show ?thesis using e by (simp add: mgr_back_def m m')
  qed
  show "\<exists>m3. undelete_offer (direct_manager T) wr8 idx p own i m2 = Inr m3 \<and> mgr_back bk m m3"
    if found: "r \<noteq> None" and bck: "mgr_back bk m' m2"
  proof -
    obtain om2 sm2 where m2: "m2 = (om2, sm2)" by fastforce
    have k: "?k \<in> fst ` set es" "?k \<notin> ms" and v': "book_view bk ob' = (es, insert ?k ms)" using c found by (auto split: if_splits)
    have s2: "om_same bk om' om2" using bck by (simp add: mgr_back_def m' m2)
    then have len: "length (orderbooks om2) = length (orderbooks om)" and na: "num_assets om2 = num_assets om"
      using om' by (simp_all add: om_same_nth)
    have view2: "book_view bk (orderbooks om2 ! nat idx) = (es, insert ?k ms)"
      "ob_frame (orderbooks om2 ! nat idx) = ob_frame (orderbooks om ! nat idx)"
      using s2 idx om' v' by (auto simp: om_same_nth)
    obtain om3 r' ob3 where un: "om_unmark_for_deletion T idx ?k om2 = Inr (om3, r')"
      and om3: "om3 = om2\<lparr>orderbooks := (orderbooks om2)[nat idx := ob3]\<rparr>" "ob_frame ob3 = ob_frame (orderbooks om2 ! nat idx)"
        "book_view bk ob3 = (es, insert ?k ms - {?k})"
      using unmark_facts [OF T idx(1) _ view2(1), of ?k] idx len k by auto
    have "om_same bk om om3"
    proof -
      have "ob_frame (orderbooks om3 ! j) = ob_frame (orderbooks om ! j) \<and> book_view bk (orderbooks om3 ! j) = book_view bk (orderbooks om ! j)"
        if j: "j < length (orderbooks om)" for j
      proof (cases "j = nat idx")
        case True
        then show ?thesis using om3 len idx v k view2 by simp
      next
        case False
        then show ?thesis using om3 s2 om' j by (auto simp: om_same_nth)
      qed
      then show ?thesis using om3 len na by (simp add: om_same_nth)
    qed
    moreover have "undelete_offer (direct_manager T) wr8 idx p own i m2 = Inr (om3, sm2)"
      using un by (simp add: undelete_offer_def m2 direct_manager_def)
    ultimately show ?thesis
      using bck e slots_le_trans [OF e(3)] by (auto simp: mgr_back_def m m' m2)
  qed
qed

section \<open>One operation\<close>

text \<open>
  No new offer of account \<open>src\<close> has an id of the range that the sequence number reserves, from
  operation \<open>i\<close> on.
\<close>

definition fresh_ids ::
  "('t \<Rightarrow> book) \<Rightarrow> (offer_key \<Rightarrow> nat \<Rightarrow> nat \<Rightarrow> offer_key) \<Rightarrow> account_id \<Rightarrow> nat \<Rightarrow> nat \<Rightarrow> 't serial_manager \<Rightarrow> bool" where
  "fresh_ids bk wr8 src sn i sm \<longleftrightarrow>
     (\<forall>j p l. i \<le> l \<and> l < MAX_OPS_PER_TX \<longrightarrow> view_key wr8 p src (u64 (sn + l)) \<notin> fst ` set (new_entries bk sm j))"

lemma be_bytes_inj: "be_bytes n x = be_bytes n y \<Longrightarrow> x mod 256 ^ n = y mod 256 ^ n"
  by (metis be_value_be_bytes)

lemma add_mod_inj:
  fixes a :: nat
  assumes "(a + l) mod n = (a + l') mod n" and "l < n" "l' < n"
  shows "l = l'"
proof -
  have "x = y" if "y \<le> x" "x < n" "(a + x) mod n = (a + y) mod n" for x y
  proof -
    have "n dvd x - y" using that mod_eq_dvd_iff_nat [of "a + y" "a + x" n] by simp
    then show ?thesis using that nat_dvd_not_less [of "x - y" n] by force
  qed
  from this [of l' l] this [of l l'] show ?thesis using assms by (metis nat_le_linear)
qed

lemma view_key_inj:
  assumes "writes_be8 wr8" and "view_key wr8 p src (u64 (sn + l)) = view_key wr8 q src' (u64 (sn + l'))"
    and "l < MAX_OPS_PER_TX" "l' < MAX_OPS_PER_TX"
  shows "l = l'"
proof -
  have "be_bytes 8 (u64 (sn + l)) = be_bytes 8 (u64 (sn + l'))"
    using assms(2) by (simp add: view_key_def generate_key_eq [OF assms(1)] del: be_bytes.simps)
  then have "(sn + l) mod 2 ^ 64 = (sn + l') mod 2 ^ 64" using be_bytes_inj by (fastforce simp: u64_def)
  then show ?thesis using assms(3,4) unfolding MAX_OPS_PER_TX_def by (intro add_mod_inj [of sn l "2 ^ 64" l']) simp_all
qed

text \<open>The offers of the books; marking an offer keeps them.\<close>

definition same_offers :: "('t \<Rightarrow> book) \<Rightarrow> 't orderbook_manager \<Rightarrow> 't orderbook_manager \<Rightarrow> bool" where
  "same_offers bk om om2 \<longleftrightarrow> num_assets om2 = num_assets om
     \<and> map (\<lambda>ob. fst (book_view bk ob)) (orderbooks om2) = map (\<lambda>ob. fst (book_view bk ob)) (orderbooks om)"

lemma same_offers_refl [simp]: "same_offers bk om om"
  by (simp add: same_offers_def)

lemma same_offers_trans: "same_offers bk a b \<Longrightarrow> same_offers bk b c \<Longrightarrow> same_offers bk a c"
  by (simp add: same_offers_def)

lemma om_same_offers: "om_same bk om om2 \<Longrightarrow> same_offers bk om om2"
  unfolding om_same_def same_offers_def by (auto dest!: arg_cong [where f = "map fst"] simp: comp_def)

text \<open>The offer a cancellation refers to.\<close>

definition cancel_target ::
  "('t \<Rightarrow> book) \<Rightarrow> (offer_key \<Rightarrow> nat \<Rightarrow> nat \<Rightarrow> offer_key) \<Rightarrow> 't orderbook_manager \<Rightarrow> account_id \<Rightarrow> cancel_sell_offer_op \<Rightarrow> offer option" where
  "cancel_target bk wr8 om src op =
     (case look_up_idx (can_category op) om of
        Inr idx \<Rightarrow> if nat idx < length (orderbooks om)
          then map_of (fst (book_view bk (orderbooks om ! nat idx))) (view_key wr8 (can_minPrice op) src (can_offerId op))
          else None
      | Inl _ \<Rightarrow> None)"

fun returned ::
  "('t \<Rightarrow> book) \<Rightarrow> (offer_key \<Rightarrow> nat \<Rightarrow> nat \<Rightarrow> offer_key) \<Rightarrow> 't orderbook_manager \<Rightarrow> account_id \<Rightarrow> 'pk operation \<Rightarrow> nat" where
  "returned bk wr8 om src (CANCEL_SELL_OFFER op) = (case cancel_target bk wr8 om src op of Some off \<Rightarrow> amount off | None \<Rightarrow> 0)"
| "returned bk wr8 om src _ = 0"

lemma same_offers_nth:
  assumes "same_offers bk om om2"
  shows "length (orderbooks om2) = length (orderbooks om)"
    and "j < length (orderbooks om) \<Longrightarrow> fst (book_view bk (orderbooks om2 ! j)) = fst (book_view bk (orderbooks om ! j))"
  using assms unfolding same_offers_def list_eq_iff_nth_eq by simp_all

lemma returned_same:
  assumes "same_offers bk om om2"
  shows "returned bk wr8 om2 src op = returned bk wr8 om src op"
proof (cases op)
  case (CANCEL_SELL_OFFER c)
  have "look_up_idx (can_category c) om2 = look_up_idx (can_category c) om"
    using assms by (simp add: look_up_idx_def same_offers_def)
  then have "cancel_target bk wr8 om2 src c = cancel_target bk wr8 om src c"
    using same_offers_nth [OF assms] by (simp add: cancel_target_def split: sum.split)
  then show ?thesis using CANCEL_SELL_OFFER by simp
qed simp_all

text \<open>
  The orderbook side of an operation: when it fails the managers are as before, and when it succeeds
  unwinding it from an equivalent state leads back.
\<close>

definition mgr_step :: "('t \<Rightarrow> book) \<Rightarrow> ('t managers \<Rightarrow> 't managers result) \<Rightarrow> tx_status \<Rightarrow> 't managers \<Rightarrow> 't managers \<Rightarrow> bool" where
  "mgr_step bk unwind status m m' \<longleftrightarrow> (if status = SUCCESS
     then (\<forall>m2. mgr_back bk m' m2 \<longrightarrow> (\<exists>m3. unwind m2 = Inr m3 \<and> mgr_back bk m m3)) else mgr_back bk m m')
     \<and> same_offers bk (fst m) (fst m')"

lemma mgr_step_idle: "unwind = Inr \<Longrightarrow> mgr_step bk unwind status m m"
  by (simp add: mgr_step_def)

lemma mgr_step_fail: "mgr_back bk m m' \<Longrightarrow> status \<noteq> SUCCESS \<Longrightarrow> mgr_step bk unwind status m m'"
  by (simp add: mgr_step_def mgr_back_def om_same_offers)

lemma mgr_back_look_up: "mgr_back bk m m2 \<Longrightarrow> look_up_idx c (fst m2) = look_up_idx c (fst m)"
  by (simp add: mgr_back_def om_same_def look_up_idx_def)

lemma processing_manager_simps [simp]:
  "mo_validate_category (processing_manager T wr8) c m = om_validate_category c (fst m)"
  "mo_look_up_idx (processing_manager T wr8) c m = look_up_idx c (fst m)"
  "mo_add_offer (processing_manager T wr8) ptr src i idx off ((om, sm), v, lg) =
     bind_result (pm_add_offer T wr8 idx off sm) (\<lambda>sm'. Inr ((om, sm'), v, lg))"
  "mo_unwind_add_offer (processing_manager T wr8) idx off (om, sm) =
     bind_result (unwind_add_offer T wr8 idx off sm) (\<lambda>sm'. Inr (om, sm'))"
  "mo_delete_offer (processing_manager T wr8) = delete_offer T (direct_manager T) wr8"
  "mo_undelete_offer (processing_manager T wr8) = undelete_offer (direct_manager T) wr8"
  "mo_maintain_account_log (processing_manager T wr8)"
  by (simp_all add: processing_manager_def)

lemma add_unwind:
  assumes T: "offer_trie_ok T bk" and run: "pm_add_offer T wr8 idx off sm = Inr sm'"
    and fresh: "offer_key_of wr8 off \<notin> fst ` set (new_entries bk sm (to_u64 idx))" and bck: "mgr_back bk (om, sm') (om2, sm2)"
  shows "\<exists>sm3. unwind_add_offer T wr8 idx off sm2 = Inr sm3 \<and> mgr_back bk (om, sm) (om2, sm3)"
proof -
  note a = add_offer_facts [OF T run]
  have "slots_le sm' sm2" using bck by (simp add: mgr_back_def)
  moreover obtain t' where "sm_at idx sm' = Inr t'" using a(4) by (elim exE)
  ultimately obtain t where t: "sm_at idx sm2 = Inr t" using slots_le_at by (elim exE [OF slots_le_at])
  obtain sm3 where un: "unwind_add_offer T wr8 idx off sm2 = Inr sm3"
    and n3: "new_entries bk sm3 = (new_entries bk sm2)(to_u64 idx := del (offer_key_of wr8 off) (new_entries bk sm2 (to_u64 idx)))"
    and r3: "activated_supplies sm3 = activated_supplies sm2" "slots_le sm2 sm3"
    using unwind_add_facts [OF T t] by blast
  have ne: "new_entries bk sm2 = new_entries bk sm'" using bck by (simp add: mgr_back_def)
  have "new_entries bk sm3 = new_entries bk sm"
    by (rule ext) (simp add: n3 ne a(1) del_ins [OF fresh])
  moreover have "slots_le sm sm3"
    using slots_le_trans [OF a(3)] slots_le_trans r3(2) bck unfolding mgr_back_def snd_conv by blast
  ultimately show ?thesis using un r3 a(2) bck by (auto simp: mgr_back_def)
qed

lemma offer_key_make: "offer_key_of wr8 (make_offer op md) = view_key wr8 (cso_minPrice op) (tx_source md) (operation_id md)"
  by (simp add: offer_key_of_def offer_trie_key_def view_key_def make_offer_def)

lemma create_sell_offer_step:
  assumes T: "offer_trie_ok T bk" and inv: "tx_inv db0 eff bv db"
    and s: "source_account_idx md = DbPtr s" "s < length (contents db0)"
    and fresh: "\<And>j. view_key wr8 (cso_minPrice op) (tx_source md) (operation_id md) \<notin> fst ` set (new_entries bk (snd m) j)"
    and run: "process_create_sell_offer buffered_ops (processing_manager T wr8) md op (m, (bv, db), lg, stats) = Inr (status, m', v', lg', stats')"
  shows "lg' = lg \<and> acct_step db0 eff (op_effect lk s r (CREATE_SELL_OFFER op)) status v'
    \<and> mgr_step bk (unwind_operation (processing_manager T wr8) md (CREATE_SELL_OFFER op)) status m m'"
proof -
  obtain om sm where m: "m = (om, sm)" by fastforce
  let ?off = "make_offer op md"
  let ?good = "om_validate_category (cso_category op) om \<and> is_valid_price (cso_minPrice op) \<and> is_valid_amount (cso_amount op)"
  show ?thesis
  proof (cases ?good)
    case False
    then show ?thesis using run inv
      by (auto simp: process_create_sell_offer_def m intro!: acct_stepI mgr_step_fail split: if_splits)
  next
    case True
    then obtain idx sm1 where idx: "look_up_idx (cso_category op) om = Inr idx" and add: "pm_add_offer T wr8 idx ?off sm = Inr sm1"
      using run by (auto simp: process_create_sell_offer_def m bind_result_Inr Let_def)
    have fr: "offer_key_of wr8 ?off \<notin> fst ` set (new_entries bk sm (to_u64 idx))"
      using fresh by (simp add: offer_key_make m)
    note back1 = add_unwind [OF T add fr]
    obtain st2 bv2 db2 where e: "bv_escrow (DbPtr s) (sellAsset (cso_category op)) (cso_amount op) bv db = (st2, bv2, db2)"
      by (metis prod.collapse)
    have inv2: "tx_inv db0 (\<lambda>i a. eff i a + call_effect (VEscrow (DbPtr s) (sellAsset (cso_category op)) (cso_amount op) :: 'b view_call) st2 i a) bv2 db2"
      using s by (intro tx_inv_escrow [OF inv _ e]) (simp add: ptr_ok_def)
    show ?thesis
    proof (cases "st2 = SUCCESS")
      case True2: True
      have un: "\<exists>m3. unwind_operation (processing_manager T wr8) md (CREATE_SELL_OFFER op) m2 = Inr m3 \<and> mgr_back bk m m3"
        if "mgr_back bk (om, sm1) m2" for m2
        using back1 [of om "fst m2" "snd m2"] that mgr_back_look_up [OF that, of "cso_category op"] idx
        by (cases m2) (auto simp: m)
      have "status = SUCCESS" "m' = (om, sm1)" "v' = (bv2, db2)" "lg' = lg"
        using run True idx add e s True2 by (simp_all add: process_create_sell_offer_def m Let_def)
      then show ?thesis using un inv2 True2
        by (auto simp: mgr_step_def m one_def intro!: acct_stepI)
    next
      case False
      obtain sm3 where "unwind_add_offer T wr8 idx ?off sm1 = Inr sm3" "mgr_back bk (om, sm) (om, sm3)"
        using back1 [OF mgr_back_refl] by blast
      then show ?thesis
        using run True idx add e s False inv2
        by (auto simp: process_create_sell_offer_def m Let_def intro!: acct_stepI mgr_step_fail)
    qed
  qed
qed

lemma delete_offers:
  assumes T: "offer_trie_ok T bk" and run: "delete_offer T (direct_manager T) wr8 idx p own i m = Inr (m', r)"
  shows "same_offers bk (fst m) (fst m')" and "snd m' = ensure_suffient_new_offers_sz T idx (snd m)"
    and "r = Some off \<Longrightarrow> nat idx < length (orderbooks (fst m))
      \<and> map_of (fst (book_view bk (orderbooks (fst m) ! nat idx))) (view_key wr8 p own i) = Some off"
proof -
  let ?k = "view_key wr8 p own i"
  obtain om sm where m: "m = (om, sm)" by fastforce
  obtain om' where mark: "om_mark_for_deletion T idx ?k om = Inr (om', r)"
    and m': "m' = (om', ensure_suffient_new_offers_sz T idx sm)"
    using run by (auto simp: m delete_offer_def bind_result_Inr direct_manager_def)
  obtain es ms where v: "book_view bk (orderbooks om ! nat idx) = (es, ms)" by fastforce
  obtain ob' where idx: "nat idx < length (orderbooks om)"
    and om': "om' = om\<lparr>orderbooks := (orderbooks om)[nat idx := ob']\<rparr>"
    and c: "fst (book_view bk ob') = fst (book_view bk (orderbooks om ! nat idx))"
      "r \<noteq> None \<longrightarrow> r = map_of (fst (book_view bk (orderbooks om ! nat idx))) ?k"
    using mark_facts [OF T mark] v by (auto simp: Let_def split: if_splits)
  show "same_offers bk (fst m) (fst m')"
    using c(1) om' idx by (auto simp: same_offers_def m m' list_eq_iff_nth_eq nth_list_update)
  show "snd m' = ensure_suffient_new_offers_sz T idx (snd m)" by (simp add: m m')
  show "r = Some off \<Longrightarrow> nat idx < length (orderbooks (fst m))
      \<and> map_of (fst (book_view bk (orderbooks (fst m) ! nat idx))) ?k = Some off"
    using c(2) idx by (simp add: m)
qed

lemma cancel_sell_offer_step:
  assumes T: "offer_trie_ok T bk" and inv: "tx_inv db0 eff bv db"
    and s: "source_account_idx md = DbPtr s" "s < length (contents db0)"
    and run: "process_cancel_sell_offer buffered_ops (processing_manager T wr8) md op (m, (bv, db), lg, stats) = Inr (status, m', v', lg', stats')"
  shows "lg' = lg
    \<and> acct_step db0 eff (op_effect lk s (returned bk wr8 (fst m) (tx_source md) (CANCEL_SELL_OFFER op)) (CANCEL_SELL_OFFER op)) status v'
    \<and> mgr_step bk (unwind_operation (processing_manager T wr8) md (CANCEL_SELL_OFFER op)) status m m'"
proof -
  obtain idx m1 found where idx: "look_up_idx (can_category op) (fst m) = Inr idx"
    and d: "delete_offer T (direct_manager T) wr8 idx (can_minPrice op) (tx_source md) (can_offerId op) m = Inr (m1, found)"
    using run by (auto simp: process_cancel_sell_offer_def bind_result_Inr split: prod.splits)
  note d' = delete_undelete [OF T d] and off' = delete_offers [OF T d]
  show ?thesis
  proof (cases found)
    case None
    then show ?thesis using run inv d'(1) idx d
      by (auto simp: process_cancel_sell_offer_def intro!: acct_stepI mgr_step_fail)
  next
    case (Some off)
    have un: "\<exists>m3. undelete_offer (direct_manager T) wr8 idx (can_minPrice op) (tx_source md) (can_offerId op) m2 = Inr m3 \<and> mgr_back bk m m3"
      if "mgr_back bk m1 m2" for m2
      using d'(2) [OF _ that] Some by simp
    have target: "cancel_target bk wr8 (fst m) (tx_source md) op = Some off"
      using off'(3) [OF Some] idx by (simp add: cancel_target_def)
    obtain st2 bv2 db2 where e: "bv_escrow (DbPtr s) (sellAsset (can_category op)) (i64 (- int (amount off))) bv db = (st2, bv2, db2)"
      by (metis prod.collapse)
    have inv2: "tx_inv db0 (\<lambda>i a. eff i a + call_effect (VEscrow (DbPtr s) (sellAsset (can_category op)) (i64 (- int (amount off))) :: 'b view_call) st2 i a) bv2 db2"
      using s by (intro tx_inv_escrow [OF inv _ e]) (simp add: ptr_ok_def)
    show ?thesis
    proof (cases "st2 = SUCCESS")
      case True
      have r: "status = SUCCESS" "m' = m1" "v' = (bv2, db2)" "lg' = lg"
        using run idx d e s True Some by (simp_all add: process_cancel_sell_offer_def)
      have "look_up_idx (can_category op) (fst m2) = Inr idx" if "mgr_back bk m1 m2" for m2
        using mgr_back_look_up [OF that] off'(1) idx by (simp add: look_up_idx_def same_offers_def)
      then have "mgr_step bk (unwind_operation (processing_manager T wr8) md (CANCEL_SELL_OFFER op)) status m m'"
        using un off'(1) by (simp add: mgr_step_def r)
      moreover have "i64 (eff i k + call_effect (VEscrow (DbPtr s) (sellAsset (can_category op)) (i64 (- int (amount off))) :: 'b view_call) SUCCESS i k)
          = i64 (eff i k + one s (sellAsset (can_category op)) (int (amount off)) i k)" for i k
        using i64_diff_right [of "eff i k" "- int (amount off)"] by (simp add: one_def)
      ultimately show ?thesis
        using inv2 True target by (auto simp: r intro!: acct_stepI)
    next
      case False
      obtain m3 where "undelete_offer (direct_manager T) wr8 idx (can_minPrice op) (tx_source md) (can_offerId op) m1 = Inr m3" "mgr_back bk m m3"
        using un [OF mgr_back_refl] by blast
      then show ?thesis
        using run idx d e s False Some inv2
        by (auto simp: process_cancel_sell_offer_def intro!: acct_stepI mgr_step_fail)
    qed
  qed
qed

lemma create_sell_offer_new:
  assumes run: "process_create_sell_offer buffered_ops (processing_manager T wr8) md op (m, v, lg, stats) = Inr (SUCCESS, m', v', lg', stats')"
  shows "\<exists>idx. pm_add_offer T wr8 idx (make_offer op md) (snd m) = Inr (snd m')"
proof -
  obtain om sm bv db where mv: "m = (om, sm)" "v = (bv, db)" by fastforce
  obtain st2 bv2 db2 where "bv_escrow (source_account_idx md) (sellAsset (cso_category op)) (cso_amount op) bv db = (st2, bv2, db2)"
    by (metis prod.collapse)
  then show ?thesis using run
    by (auto simp: process_create_sell_offer_def mv bind_result_Inr Let_def split: if_splits)
qed

lemma cancel_sell_offer_new:
  assumes T: "offer_trie_ok T bk"
    and run: "process_cancel_sell_offer buffered_ops (processing_manager T wr8) md op (m, v, lg, stats) = Inr (SUCCESS, m', v', lg', stats')"
  shows "new_entries bk (snd m') = new_entries bk (snd m)"
proof -
  obtain idx m1 r where idx: "look_up_idx (can_category op) (fst m) = Inr idx"
    and d: "delete_offer T (direct_manager T) wr8 idx (can_minPrice op) (tx_source md) (can_offerId op) m = Inr (m1, r)"
    using run by (auto simp: process_cancel_sell_offer_def bind_result_Inr)
  then obtain off where r: "r = Some off" using run by (cases r) (simp_all add: process_cancel_sell_offer_def)
  obtain st2 bv2 db2 where "vo_escrow buffered_ops (source_account_idx md) (sellAsset (can_category op)) (i64 (- int (amount off))) v = (st2, bv2, db2)"
    by (metis prod.collapse)
  then have "m' = m1" using run idx d r
    by (auto simp: process_cancel_sell_offer_def bind_result_Inr split: if_splits)
  then show ?thesis using delete_offers(2) [OF T d] ensure_facts(1) [OF T] by simp
qed

lemma operation_step:
  fixes M :: "('v, 't managers) manager_ops"
  assumes T: "offer_trie_ok T bk" and wr8: "writes_be8 wr8" and M: "M = processing_manager T wr8" and inv: "tx_inv db0 eff bv db"
    and s: "source_account_idx md = DbPtr s" "s < length (contents db0)" and i: "i < MAX_OPS_PER_TX"
    and fresh: "fresh_ids bk wr8 (tx_source md) sn i (snd m)" and id: "operation_id md = u64 (sn + i)"
    and run: "process_operation buffered_ops (processing_manager T wr8) md op (m, (bv, db), lg, stats) = Inr (status, m', v', lg', stats')"
  shows "lg' = lg"
    and "acct_step db0 eff (op_effect (\<lambda>a. db_lookup_user a db0) s (returned bk wr8 (fst m) (tx_source md) op) op) status v'"
    and "mgr_step bk (unwind_operation M md op) status m m'"
    and "status = SUCCESS \<Longrightarrow> fresh_ids bk wr8 (tx_source md) sn (Suc i) (snd m')"
proof -
  have keep: "fresh_ids bk wr8 (tx_source md) sn (Suc i) sm'" if "new_entries bk sm' = new_entries bk (snd m)" for sm'
    using fresh that by (simp add: fresh_ids_def)
  have "lg' = lg \<and> acct_step db0 eff (op_effect (\<lambda>a. db_lookup_user a db0) s (returned bk wr8 (fst m) (tx_source md) op) op) status v'
    \<and> mgr_step bk (unwind_operation M md op) status m m'
    \<and> (status = SUCCESS \<longrightarrow> fresh_ids bk wr8 (tx_source md) sn (Suc i) (snd m'))"
  proof (cases op)
    case (CREATE_ACCOUNT c)
    then show ?thesis using create_account_step [OF inv s, of c m lg stats] run keep by (fastforce simp: M intro: mgr_step_idle)
  next
    case (CREATE_SELL_OFFER c)
    have fr: "view_key wr8 (cso_minPrice c) (tx_source md) (operation_id md) \<notin> fst ` set (new_entries bk (snd m) j)" for j
      using fresh i unfolding fresh_ids_def id by blast
    have "fresh_ids bk wr8 (tx_source md) sn (Suc i) (snd m')" if ok: "status = SUCCESS"
    proof -
      obtain idx where "pm_add_offer T wr8 idx (make_offer c md) (snd m) = Inr (snd m')"
        using create_sell_offer_new [of T wr8 md c m "(bv, db)" lg stats m' v' lg' stats'] run ok CREATE_SELL_OFFER by auto
      note a = add_offer_facts(1) [OF T this]
      have "view_key wr8 p (tx_source md) (u64 (sn + l)) \<notin> fst ` set (new_entries bk (snd m') j)"
        if l: "Suc i \<le> l" "l < MAX_OPS_PER_TX" for p l j
      proof -
        have "view_key wr8 p (tx_source md) (u64 (sn + l)) \<noteq> view_key wr8 (cso_minPrice c) (tx_source md) (u64 (sn + i))"
          using view_key_inj [OF wr8 _ l(2) i, of p "tx_source md" sn "cso_minPrice c" "tx_source md"] l(1) by fastforce
        moreover have "view_key wr8 p (tx_source md) (u64 (sn + l)) \<notin> fst ` set (new_entries bk (snd m) j)"
          using fresh l by (simp add: fresh_ids_def)
        ultimately show ?thesis
          using set_ins [of "offer_key_of wr8 (make_offer c md)" "make_offer c md" "new_entries bk (snd m) j"]
          unfolding a offer_key_make id by auto
      qed
      then show ?thesis by (simp add: fresh_ids_def)
    qed
    moreover note create_sell_offer_step [OF T inv s fr run [unfolded CREATE_SELL_OFFER process_operation.simps]]
    ultimately show ?thesis using CREATE_SELL_OFFER by (auto simp: M)
  next
    case (CANCEL_SELL_OFFER c)
    note run' = run [unfolded CANCEL_SELL_OFFER process_operation.simps]
    have "fresh_ids bk wr8 (tx_source md) sn (Suc i) (snd m')" if "status = SUCCESS"
      by (rule keep, rule cancel_sell_offer_new [OF T run' [unfolded that]])
    then show ?thesis using cancel_sell_offer_step [OF T inv s run'] CANCEL_SELL_OFFER by (auto simp: M)
  next
    case (PAYMENT c)
    then show ?thesis using payment_step [OF inv s, of c m lg stats] run keep by (fastforce simp: M intro: mgr_step_idle)
  next
    case (MONEY_PRINTER c)
    then show ?thesis using money_printer_step [OF inv s, of c m lg stats] run keep by (fastforce simp: M intro: mgr_step_idle)
  qed
  then show "lg' = lg"
    and "acct_step db0 eff (op_effect (\<lambda>a. db_lookup_user a db0) s (returned bk wr8 (fst m) (tx_source md) op) op) status v'"
    and "mgr_step bk (unwind_operation M md op) status m m'"
    and "status = SUCCESS \<Longrightarrow> fresh_ids bk wr8 (tx_source md) sn (Suc i) (snd m')"
    by blast+
qed

section \<open>A sequence of operations\<close>

definition ops_effect ::
  "('t \<Rightarrow> book) \<Rightarrow> (offer_key \<Rightarrow> nat \<Rightarrow> nat \<Rightarrow> offer_key) \<Rightarrow> (account_id \<Rightarrow> nat option) \<Rightarrow> 't orderbook_manager \<Rightarrow> account_id \<Rightarrow> nat
     \<Rightarrow> 'pk operation list \<Rightarrow> nat \<Rightarrow> asset_id \<Rightarrow> int" where
  "ops_effect bk wr8 lookup om src s ops i k = (\<Sum>op\<leftarrow>ops. op_effect lookup s (returned bk wr8 om src op) op i k)"

lemma acct_step_more: "acct_step db0 (\<lambda>i k. eff i k + d i k) d' status v
  \<Longrightarrow> acct_step db0 eff (\<lambda>i k. d i k + d' i k) status v"
  by (simp add: acct_step_def add.assoc)

lemma process_ops_step:
  fixes M :: "('v, 't managers) manager_ops"
  assumes T: "offer_trie_ok T bk" and wr8: "writes_be8 wr8" and M: "M = processing_manager T wr8"
    and s: "source_account_idx md = DbPtr s" "s < length (contents db0)"
    and "tx_inv db0 eff bv db" and "fresh_ids bk wr8 (tx_source md) sn i (snd m)" and "same_offers bk om0 (fst m)"
    and "drop i ops = rest" and "length ops \<le> MAX_OPS_PER_TX"
    and "process_ops buffered_ops (processing_manager T wr8) md sn i rest (m, (bv, db), lg, stats) = Inr (status, j, m', v', lg', stats')"
  shows "lg' = lg \<and> acct_step db0 eff (ops_effect bk wr8 (\<lambda>a. db_lookup_user a db0) om0 (tx_source md) s rest) status v'
    \<and> same_offers bk om0 (fst m')
    \<and> (\<exists>m3. unwind_ops M md sn ops j m' = unwind_ops M md sn ops i m3 \<and> mgr_back bk m m3)"
  using assms(6-)
proof (induction rest arbitrary: i m bv db eff lg stats)
  case Nil
  then show ?case by (cases v'; cases m') (auto simp: ops_effect_def intro!: acct_stepI mgr_back_refl)
next
  case (Cons op rest)
  let ?M = "processing_manager T wr8"
  let ?md = "md\<lparr>operation_id := u64 (sn + i)\<rparr>"
  have i: "i < length ops" "ops ! i = op" "drop (Suc i) ops = rest"
    using Cons.prems(4) Cons_nth_drop_Suc [of i ops] by (cases "i < length ops"; simp)+
  have i256: "i < MAX_OPS_PER_TX" using i(1) Cons.prems(5) by simp
  obtain st1 m1 v1 lg1 stats1 where op: "process_operation buffered_ops ?M ?md op (m, (bv, db), lg, stats) = Inr (st1, m1, v1, lg1, stats1)"
    using Cons.prems(6) by (auto simp: bind_result_Inr)
  obtain bv1 db1 where v1: "v1 = (bv1, db1)" by fastforce
  have s': "source_account_idx ?md = DbPtr s" "tx_source ?md = tx_source md" "operation_id ?md = u64 (sn + i)" using s by simp_all
  note step = operation_step [OF T wr8 M Cons.prems(1) s'(1) s(2) i256 _ s'(3) op, unfolded s'(2), OF Cons.prems(2)]
  let ?e = "op_effect (\<lambda>a. db_lookup_user a db0) s (returned bk wr8 om0 (tx_source md) op) op"
  have eff1: "acct_step db0 eff ?e st1 v1" using step(2) by (simp add: returned_same [OF Cons.prems(3)])
  have off1: "same_offers bk om0 (fst m1)" using step(3) by (intro same_offers_trans [OF Cons.prems(3)]) (simp add: mgr_step_def)
  show ?case
  proof (cases "st1 = SUCCESS")
    case False
    then have "status = st1" "j = i" "m' = m1" "v' = v1" "lg' = lg1" using Cons.prems(6) op by simp_all
    then show ?thesis using False step(1,3) eff1 off1 by (cases m1) (auto simp: mgr_step_def acct_step_def)
  next
    case True
    have run: "process_ops buffered_ops ?M md sn (Suc i) rest (m1, (bv1, db1), lg1, stats1) = Inr (status, j, m', v', lg', stats')"
      using Cons.prems(6) op True v1 by simp
    have inv1: "tx_inv db0 (\<lambda>i k. eff i k + ?e i k) bv1 db1" using eff1 True by (simp add: acct_step_def v1)
    note IH = Cons.IH [OF inv1 step(4) [OF True] off1 i(3) Cons.prems(5) run]
    obtain m3 where m3: "unwind_ops M md sn ops j m' = unwind_ops M md sn ops (Suc i) m3" "mgr_back bk m1 m3" using IH by blast
    have "\<exists>m4. unwind_operation M ?md op m3 = Inr m4 \<and> mgr_back bk m m4" using step(3) m3(2) True unfolding mgr_step_def by (simp only: if_True)
    then obtain m4 where "unwind_operation M ?md op m3 = Inr m4" "mgr_back bk m m4" by (elim exE conjE)
    then have "unwind_ops M md sn ops j m' = unwind_ops M md sn ops i m4 \<and> mgr_back bk m m4" using m3 i(2) by simp
    moreover have "acct_step db0 eff (ops_effect bk wr8 (\<lambda>a. db_lookup_user a db0) om0 (tx_source md) s (op # rest)) status v'"
      using IH acct_step_more [of db0 eff ?e] by (simp add: ops_effect_def [abs_def])
    ultimately show ?thesis using IH step(1) by blast
  qed
qed

section \<open>Whole transactions\<close>

lemma db_equiv_refl: "db_ok db \<Longrightarrow> db_equiv db db"
  by (simp add: db_equiv_def db_ok_def acct_equiv_def)

definition tx_effect ::
  "('t \<Rightarrow> book) \<Rightarrow> (offer_key \<Rightarrow> nat \<Rightarrow> nat \<Rightarrow> offer_key) \<Rightarrow> (account_id \<Rightarrow> nat option) \<Rightarrow> 't orderbook_manager \<Rightarrow> nat
     \<Rightarrow> 'pk transaction \<Rightarrow> nat \<Rightarrow> asset_id \<Rightarrow> int" where
  "tx_effect bk wr8 lookup om s tx i k =
     one s NATIVE_ASSET (- fee_required (length (operations tx))) i k
     + ops_effect bk wr8 lookup om (sourceAccount (metadata tx)) s (operations tx) i k"

definition tx_ready ::
  "('t \<Rightarrow> book) \<Rightarrow> (offer_key \<Rightarrow> nat \<Rightarrow> nat \<Rightarrow> offer_key) \<Rightarrow> 'pk transaction \<Rightarrow> 't managers \<Rightarrow> bool" where
  "tx_ready bk wr8 tx m \<longleftrightarrow> length (operations tx) \<le> MAX_OPS_PER_TX \<and> sequenceNumber (metadata tx) < 2 ^ 64
     \<and> fresh_ids bk wr8 (sourceAccount (metadata tx)) (sequenceNumber (metadata tx)) 0 (snd m)"

lemma fail_transaction_correct:
  assumes "tx_inv db0 eff bv db"
  shows "\<exists>db'. fail_transaction status bv (m, db, rest) = Inr (status, m, db', rest) \<and> db_equiv db0 db'"
  using unwind_correct [of db0 eff bv db] assms by (auto simp: tx_inv_def fail_transaction_def)

lemma process_transaction_cases:
  fixes db :: "('pk, 'ht) memory_database" and m :: "'t managers"
  assumes T: "offer_trie_ok T bk" and wr8: "writes_be8 wr8" and db: "db_ok db" and ready: "tx_ready bk wr8 (stx tx) m"
    and run: "process_transaction T wr8 sig_check check_sigs tx (m, db, stats, lg, tlog) = Inr (status, m', db', stats', lg', tlog')"
  shows "status \<noteq> SUCCESS \<and> mgr_back bk m m' \<and> db_equiv db db' \<and> stats' = stats \<and> lg' = lg \<and> tlog' = tlog
    \<or> (\<exists>s bv db3. status = SUCCESS \<and> db_lookup_user (sourceAccount (metadata (stx tx))) db = Some s
        \<and> tx_inv db (tx_effect bk wr8 (\<lambda>a. db_lookup_user a db) (fst m) s (stx tx)) bv db3 \<and> db' = bv_commit bv db3
        \<and> same_offers bk (fst m) (fst m') \<and> lg' = lg \<and> tlog' = log_modified_accounts True tx tlog)"
proof -
  let ?tx = "stx tx" let ?src = "sourceAccount (metadata (stx tx))" let ?sn = "sequenceNumber (metadata (stx tx))"
  let ?fee = "fee_required (length (operations ?tx))"
  let ?done = "check_tx_format_parameters ?tx \<and> ?fee \<le> int (maxFee ?tx) \<and> db_lookup_user ?src db \<noteq> None
    \<and> (check_sigs \<longrightarrow> sig_check ?tx (signature tx) (pk (db_account (the (db_lookup_user ?src db)) db)))"
  show ?thesis
  proof (cases ?done)
    case False
    then have "status \<noteq> SUCCESS \<and> m' = m \<and> db' = db \<and> stats' = stats \<and> lg' = lg \<and> tlog' = tlog"
      using run by (auto simp: process_transaction_def Let_def split: if_splits option.split_asm)
    then show ?thesis using db_equiv_refl [OF db] by simp
  next
    case True
    then obtain s where s: "db_lookup_user ?src db = Some s" by blast
    have sig: "(check_sigs \<and> \<not> sig_check ?tx (signature tx) (pk (db_account s db))) = False" using True s by auto
    have s': "s < length (contents db)" using db_lookup_less [OF _ s] db by (simp add: db_ok_def)
    obtain st1 bv1 db1 where r1: "bv_reserve_sequence_number (DbPtr s) ?sn bv_init db = (st1, bv1, db1)" by (metis prod.collapse)
    have inv1: "tx_inv db (\<lambda>_ _. 0) bv1 db1"
      using tx_inv_call [OF tx_inv_init [OF db], of "VReserve s ?sn" st1 bv1 db1] r1 s' ready by (simp add: tx_ready_def)
    obtain st2 bv2 db2 where r2: "bv_transfer_available (DbPtr s) NATIVE_ASSET (i64 (- ?fee)) bv1 db1 = (st2, bv2, db2)" by (metis prod.collapse)
    have inv2: "tx_inv db (\<lambda>i a. 0 + call_effect (VTransfer (DbPtr s) NATIVE_ASSET (i64 (- ?fee)) :: 'pk view_call) st2 i a) bv2 db2"
      using s' by (intro tx_inv_transfer [OF inv1 _ r2]) (simp add: ptr_ok_def)
    show ?thesis
    proof (cases "st1 = SUCCESS \<and> st2 = SUCCESS")
      case False
      obtain d1 where f1: "fail_transaction st1 bv1 (m, db1, stats, lg, tlog) = Inr (st1, m, d1, stats, lg, tlog)" "db_equiv db d1"
        using fail_transaction_correct [OF inv1] by blast
      obtain d2 where f2: "fail_transaction st2 bv2 (m, db2, stats, lg, tlog) = Inr (st2, m, d2, stats, lg, tlog)" "db_equiv db d2"
        using fail_transaction_correct [OF inv2] by blast
      have "status \<noteq> SUCCESS \<and> m' = m \<and> db_equiv db db' \<and> stats' = stats \<and> lg' = lg \<and> tlog' = tlog"
        using run True s r1 r2 f1 f2 False by (auto simp: process_transaction_def Let_def split: if_splits)
      then show ?thesis by simp
    next
      case ok: True
      let ?M = "processing_manager T wr8 :: ('pk buffered_view \<times> ('pk, 'ht) memory_database, 't managers) manager_ops"
         and ?md = "\<lparr>tx_source = ?src, source_account_idx = DbPtr s, operation_id = 0\<rparr>"
      obtain st3 j m3 bv3 db3 lg3 stats3 where r3: "process_ops buffered_ops ?M ?md ?sn 0 (operations ?tx) (m, (bv2, db2), lg, empty_stats)
            = Inr (st3, j, m3, (bv3, db3), lg3, stats3)"
        using run True s r1 r2 ok by (auto simp: process_transaction_def Let_def bind_result_Inr)
      have rd: "fresh_ids bk wr8 ?src ?sn 0 (snd m)" "length (operations ?tx) \<le> MAX_OPS_PER_TX" using ready by (simp_all add: tx_ready_def)
      have same: "same_offers bk (fst m) (fst m)" and dr: "drop 0 (operations ?tx) = operations ?tx" by simp_all
      note step = process_ops_step [OF T wr8 refl [of ?M], where md = ?md, OF _ s' inv2 _ same dr rd(2) r3, simplified, OF rd(1)]
      let ?eff = "\<lambda>i k. call_effect (VTransfer (DbPtr s) NATIVE_ASSET (i64 (- ?fee)) :: 'pk view_call) st2 i k
        + ops_effect bk wr8 (\<lambda>a. db_lookup_user a db) (fst m) ?src s (operations ?tx) i k"
      show ?thesis
      proof (cases "st3 = SUCCESS")
        case True3: True
        have "tx_inv db ?eff bv3 db3" using step True3 by (simp add: acct_step_def)
        then have "tx_inv db (tx_effect bk wr8 (\<lambda>a. db_lookup_user a db) (fst m) s ?tx) bv3 db3"
          by (rule tx_inv_eff_cong) (use ok in \<open>auto simp: tx_effect_def one_def\<close>)
        moreover have "status = SUCCESS" "m' = m3" "db' = bv_commit bv3 db3" "lg' = lg3" "tlog' = log_modified_accounts True tx tlog"
          using run True s r1 r2 ok r3 True3 by (simp_all add: process_transaction_def Let_def sig)
        ultimately show ?thesis using step s by blast
      next
        case False
        obtain e where inv3: "tx_inv db e bv3 db3" using step by (auto simp: acct_step_def)
        obtain m4 where un: "unwind_transaction ?M ?tx j db3 m3 = Inr m4" "mgr_back bk m m4"
          using step s by (auto simp: unwind_transaction_def tx_inv_frame(1) [OF inv3])
        obtain d3 where f3: "fail_transaction st3 bv3 (m4, db3, stats, lg3, tlog) = Inr (st3, m4, d3, stats, lg3, tlog)" "db_equiv db d3"
          using fail_transaction_correct [OF inv3] by blast
        have "status \<noteq> SUCCESS \<and> m' = m4 \<and> db' = d3 \<and> stats' = stats \<and> lg' = lg \<and> tlog' = tlog"
          using run True s r1 r2 ok r3 un(1) f3(1) False step by (simp add: process_transaction_def Let_def sig)
        then show ?thesis using un(2) f3(2) by blast
      qed
    qed
  qed
qed

section \<open>A sample run\<close>

lemma sample_reserve:
  "ut_reserve_sequence_number 256 (ut_init 0) = (SUCCESS, \<lparr>last_committed_id = 0, sequence_number_vec = 1\<rparr>)"
  by (simp add: ut_reserve_sequence_number_def ut_init_def uint64_get_seq_num_offset_def sub64_def MAX_OPS_PER_TX_def u8_def)

definition sample_view :: "(asset_id \<times> int) list \<Rightarrow> (asset_id \<times> int) list \<Rightarrow> unit buffered_view" where
  "sample_view buf side = \<lparr>bv_base = \<lparr>new_accounts = [], temporary_idxs = Map.empty, reservations = [\<lparr>res_account = DbPtr 0, res_seqno = 256\<rparr>]\<rparr>,
     bv_accounts = [(0, \<lparr>uv_main = 0, available_buffer = buf, available_side_effects = side\<rparr>)]\<rparr>"

definition sample_acct :: "int \<Rightarrow> unit user_account" where
  "sample_acct x = \<lparr>owned_assets = [\<lparr>available = x, committed_available = 1000\<rparr>], uncommitted_assets = [],
     seq_tracker = \<lparr>last_committed_id = 0, sequence_number_vec = 1\<rparr>, acct_owner = 7, pk = ()\<rparr>"

lemmas view_run = bv_reserve_sequence_number_def acv_reserve_sequence_number_def bv_init_def acv_init_def db_reserve_sequence_number_def
  ua_reserve_sequence_number_def sample_reserve bv_transfer_available_def uv_transfer_available_def bv_escrow_def uv_conditional_escrow_def
  bv_get_existing_account_def am_get_def am_touch_def uv_init_def bv_put_account_def uv_set_buffer_def uv_add_side_effect_def
  db_conditional_transfer_available_def ua_conditional_transfer_available_def operate_on_asset_def
  db_conditional_escrow_def ua_conditional_escrow_def ra_conditional_escrow_def Let_def
  ra_conditional_transfer_available_def cas_target_def sample_account_def sample_acct_def sample_view_def

lemma sample_steps:
  "bv_reserve_sequence_number (DbPtr 0) 256 bv_init (sample_db sample_account)
    = (SUCCESS, (sample_view [] [])\<lparr>bv_accounts := []\<rparr>, sample_db (sample_acct 1000))"
  "bv_transfer_available (DbPtr 0) NATIVE_ASSET (- 20) ((sample_view [] [])\<lparr>bv_accounts := []\<rparr>) (sample_db (sample_acct 1000))
    = (SUCCESS, sample_view [(0, 0)] [(0, - 20)], sample_db (sample_acct 980))"
  "bv_escrow (DbPtr 0) 0 100 (sample_view [(0, 0)] [(0, - 20)]) (sample_db (sample_acct 980))
    = (SUCCESS, sample_view [(0, 0)] [(0, - 120)], sample_db (sample_acct 880))"
  "bv_transfer_available (DbPtr 0) 0 5 (sample_view [(0, 0)] [(0, - 120)]) (sample_db (sample_acct 880))
    = (SUCCESS, sample_view [(0, 5)] [(0, - 120)], sample_db (sample_acct 880))"
  by (simp_all add: view_run in_i64_def NATIVE_ASSET_def)

lemma sample_unwind: "\<exists>db'. bv_unwind (sample_view [(0, 0)] [(0, - 120)]) (sample_db (sample_acct 880)) = Inr db'"
  by (simp add: bv_unwind_def sample_view_def uv_unwind_def acv_unwind_def ua_release_sequence_number_def db_release_sequence_number_def
      ut_release_sequence_number_def sample_acct_def db_transfer_available_def ua_transfer_available_def operate_on_asset_def
      uint64_get_seq_num_offset_def sub64_def MAX_OPS_PER_TX_def u8_def)

lemma sample_db_ok: "db_ok (sample_db sample_account)"
proof -
  have c: "contents (sample_db sample_account) = [sample_account]"
    by (simp add: sample_db_def av_contents_def)
  have "db_wf (sample_db sample_account)"
    unfolding db_wf_def c
    by (auto simp: sample_account_def) (simp_all add: sample_db_def av_wf_def ACCOUNTS_PER_ROW_def split: if_splits)
  moreover have "in_range sample_account" by (simp add: in_range_def balance_def all_assets_def sample_account_def in_i64_def nth_Cons split: nat.split)
  moreover have "ut_wf (seq_tracker sample_account)" unfolding sample_account_def user_account.simps by (rule ut_wf_init) simp
  ultimately show ?thesis by (simp add: db_ok_def)
qed

definition sample_offer_op :: create_sell_offer_op where
  "sample_offer_op = \<lparr>cso_category = \<lparr>sellAsset = 0, buyAsset = 1, cat_type = SELL\<rparr>, cso_amount = 100, cso_minPrice = 16777216\<rparr>"

definition sample_tx :: "unit operation \<Rightarrow> (unit, unit) signed_transaction" where
  "sample_tx op = \<lparr>stx = \<lparr>metadata = \<lparr>sourceAccount = 7, sequenceNumber = 256\<rparr>,
     operations = [CREATE_SELL_OFFER sample_offer_op, op],
     maxFee = 100\<rparr>, signature = ()\<rparr>"

definition sample_managers :: "book managers" where "sample_managers = (\<lparr>orderbooks = [], num_assets = 2\<rparr>, sm_init)"


definition sample_run :: "unit operation \<Rightarrow> (tx_status \<times> (unit, unit, book, unit) processor_state) result" where
  "sample_run op = process_transaction list_trie be8_writer (\<lambda>_ _ _. True) True (sample_tx op)
     (sample_managers, sample_db sample_account, empty_stats, [], [])"

lemma sample_add:
  "\<exists>sm. pm_add_offer list_trie be8_writer 0 off sm_init = Inr sm \<and> (\<exists>sm'. unwind_add_offer list_trie be8_writer 0 off sm = Inr sm')"
  by (simp add: pm_add_offer_def ensure_suffient_new_offers_sz_def sm_init_def sm_at_def vec_at_def from_ub_def u32_of_int_def
      to_u64_def unwind_add_offer_def sm_put_def)

lemma sample_ready: "tx_ready (\<lambda>b. b) be8_writer (stx (sample_tx op)) sample_managers"
  by (simp add: tx_ready_def sample_tx_def MAX_OPS_PER_TX_def fresh_ids_def sample_managers_def new_entries_def sm_init_def)

lemma sample_look_up: "look_up_idx (cso_category sample_offer_op) (fst sample_managers) = Inr 0"
  by (simp add: look_up_idx_def sample_offer_op_def sample_managers_def category_to_idx_def i32_def u32_def map_type_to_int_def)

abbreviation sample_md :: "nat \<Rightarrow> op_metadata" where
  "sample_md i \<equiv> \<lparr>tx_source = 7, source_account_idx = DbPtr 0, operation_id = i\<rparr>"

lemma sample_offer:
  assumes "pm_add_offer list_trie be8_writer 0 (make_offer sample_offer_op (sample_md i)) sm_init = Inr sm"
  shows "process_create_sell_offer buffered_ops (processing_manager list_trie be8_writer) (sample_md i) sample_offer_op
      (sample_managers, (sample_view [(0, 0)] [(0, - 20)], sample_db (sample_acct 980)), [], empty_stats)
    = Inr (SUCCESS, (fst sample_managers, sm), (sample_view [(0, 0)] [(0, - 120)], sample_db (sample_acct 880)), [],
        empty_stats\<lparr>new_offer_count := 1\<rparr>)"
proof -
  have "om_validate_category (cso_category sample_offer_op) (fst sample_managers)" "is_valid_price (cso_minPrice sample_offer_op)"
    "is_valid_amount (cso_amount sample_offer_op)"
    by (simp_all add: om_validate_category_def validate_category_def sample_managers_def sample_offer_op_def is_valid_price_def
        price_consts is_valid_amount_def)
  moreover have "sellAsset (cso_category sample_offer_op) = 0" "cso_amount sample_offer_op = 100"
    by (simp_all add: sample_offer_op_def)
  ultimately show ?thesis
    using assms sample_steps(3) sample_look_up
    by (simp add: process_create_sell_offer_def sample_managers_def empty_stats_def u32_def Let_def)
qed

lemma sample_run_eq:
  assumes "pm_add_offer list_trie be8_writer 0 (make_offer sample_offer_op (sample_md 256)) sm_init = Inr sm"
    and "process_operation buffered_ops (processing_manager list_trie be8_writer) (sample_md 257) op
      ((fst sample_managers, sm), (sample_view [(0, 0)] [(0, - 120)], sample_db (sample_acct 880)), [], empty_stats\<lparr>new_offer_count := 1\<rparr>)
      = Inr (status, m', (bv, db), lg, stats)"
  shows "sample_run op = (if status = SUCCESS
    then Inr (SUCCESS, m', bv_commit bv db, stats_add empty_stats stats, lg, log_modified_accounts True (sample_tx op) [])
    else bind_result (unwind_transaction (processing_manager list_trie be8_writer :: (unit buffered_view \<times> (unit, unit) memory_database, _) manager_ops)
             (stx (sample_tx op)) 1 db m')
           (\<lambda>m4. fail_transaction status bv (m4, db, empty_stats, lg, [])))"
  using sample_offer [OF assms(1)] assms(2) sample_steps(1,2)
  by (simp add: sample_run_def process_transaction_def sample_tx_def check_tx_format_parameters_def fee_required_def
      BASE_FEE_PER_TX_def FEE_PER_OP_def RESERVED_SEQUENCE_NUM_LOWBITS_def in_i64_def u64_def)

lemma sample_run_fails:
  "\<exists>m' db'. sample_run (PAYMENT \<lparr>receiver = 8, pay_asset = 0, pay_amount = 5\<rparr>)
     = Inr (RECIPIENT_ACCOUNT_NEXIST, m', db', empty_stats, [], [])"
proof -
  obtain sm sm' where add: "pm_add_offer list_trie be8_writer 0 (make_offer sample_offer_op (sample_md 256)) sm_init = Inr sm"
    and un: "unwind_add_offer list_trie be8_writer 0 (make_offer sample_offer_op (sample_md 256)) sm = Inr sm'"
    using sample_add by blast
  obtain db' where "bv_unwind (sample_view [(0, 0)] [(0, - 120)]) (sample_db (sample_acct 880)) = Inr db'" using sample_unwind by blast
  moreover have "process_operation buffered_ops (processing_manager list_trie be8_writer) (sample_md 257) (PAYMENT \<lparr>receiver = 8, pay_asset = 0, pay_amount = 5\<rparr>)
      ((fst sample_managers, sm), (sample_view [(0, 0)] [(0, - 120)], sample_db (sample_acct 880)), [], empty_stats\<lparr>new_offer_count := 1\<rparr>)
    = Inr (RECIPIENT_ACCOUNT_NEXIST, (fst sample_managers, sm), (sample_view [(0, 0)] [(0, - 120)], sample_db (sample_acct 880)), [], empty_stats\<lparr>new_offer_count := 1\<rparr>)"
    by (simp add: process_payment_def is_valid_amount_def bv_lookup_user_def acv_lookup_user_def sample_view_def)
  ultimately show ?thesis
    using un sample_look_up
    by (simp add: sample_run_eq [OF add] unwind_transaction_def sample_tx_def fail_transaction_def u64_def)
qed

lemma sample_run_succeeds:
  "\<exists>m' stats' tlog'. sample_run (MONEY_PRINTER \<lparr>mp_asset = 0, mp_amount = 5\<rparr>)
     = Inr (SUCCESS, m', bv_commit (sample_view [(0, 5)] [(0, - 120)]) (sample_db (sample_acct 880)), stats', [], tlog')"
proof -
  obtain sm where add: "pm_add_offer list_trie be8_writer 0 (make_offer sample_offer_op (sample_md 256)) sm_init = Inr sm"
    using sample_add by blast
  have "process_operation buffered_ops (processing_manager list_trie be8_writer) (sample_md 257) (MONEY_PRINTER \<lparr>mp_asset = 0, mp_amount = 5\<rparr>)
      ((fst sample_managers, sm), (sample_view [(0, 0)] [(0, - 120)], sample_db (sample_acct 880)), [], empty_stats\<lparr>new_offer_count := 1\<rparr>)
    = Inr (SUCCESS, (fst sample_managers, sm), (sample_view [(0, 5)] [(0, - 120)], sample_db (sample_acct 880)), [], empty_stats\<lparr>new_offer_count := 1\<rparr>)"
    using sample_steps(4) by (simp add: process_money_printer_def)
  then show ?thesis by (simp add: sample_run_eq [OF add])
qed

section \<open>Properties\<close>

text \<open>
  Property C4. A transaction that does not succeed is a no-op: whichever operation failed and
  whatever the operations before it did, the database is equivalent to the one before (same
  accounts, balances, sequence trackers and reserved ids), the managers hold the same offers with the
  same marks and the same buffered new offers, and the statistics and both logs are unchanged. The
  hypotheses are the bounds of the wire format, that no buffered offer of the account has an id in the range the
  sequence number reserves, and the contracts of the trie and the byte writer.
\<close>

theorem failed_transaction_atomic:
  assumes "offer_trie_ok T bk" and "writes_be8 wr8" and "db_ok db" and "tx_ready bk wr8 (stx tx) m"
    and "process_transaction T wr8 sig_check check_sigs tx (m, db, stats, lg, tlog) = Inr (status, m', db', stats', lg', tlog')"
    and "status \<noteq> SUCCESS"
  shows "mgr_back bk m m' \<and> db_equiv db db' \<and> stats' = stats \<and> lg' = lg \<and> tlog' = tlog"
  using process_transaction_cases [OF assms(1-5)] assms(6) by blast

theorem failed_transaction_atomic_witness:
  "\<exists>m' db'. sample_run (PAYMENT \<lparr>receiver = 8, pay_asset = 0, pay_amount = 5\<rparr>) = Inr (RECIPIENT_ACCOUNT_NEXIST, m', db', empty_stats, [], [])
     \<and> mgr_back (\<lambda>b. b) sample_managers m' \<and> db_equiv (sample_db sample_account) db'"
proof -
  obtain m' db' where "sample_run (PAYMENT \<lparr>receiver = 8, pay_asset = 0, pay_amount = 5\<rparr>) = Inr (RECIPIENT_ACCOUNT_NEXIST, m', db', empty_stats, [], [])"
    using sample_run_fails by blast
  then show ?thesis
    using failed_transaction_atomic [OF list_trie_ok writes_be8_be8_writer sample_db_ok sample_ready] by (fastforce simp: sample_run_def)
qed

text \<open>
  Property C5. A transaction that succeeds changes the balances by exactly its fee and the amounts
  of its operations: every balance of every account that existed before becomes, modulo \<open>2 ^ 64\<close>, the old one plus the effect
  of the transaction, where the source pays \<open>BASE_FEE_PER_TX + FEE_PER_OP\<close> per operation, an account creation
  costs it the starting balance, an offer the offered amount, a cancellation returns the amount of the offer found in the
  book, and a payment moves its amount. The clearing log stays as it is and the transaction is logged.
\<close>

theorem successful_transaction_effects:
  assumes "offer_trie_ok T bk" and "writes_be8 wr8" and "db_ok db" and "tx_ready bk wr8 (stx tx) m"
    and "process_transaction T wr8 sig_check check_sigs tx (m, db, stats, lg, tlog) = Inr (SUCCESS, m', db', stats', lg', tlog')"
  shows "\<exists>s. db_lookup_user (sourceAccount (metadata (stx tx))) db = Some s
    \<and> (\<forall>i k. i < length (contents db) \<longrightarrow> balance (db_account i db') k
         = i64 (balance (db_account i db) k + tx_effect bk wr8 (\<lambda>a. db_lookup_user a db) (fst m) s (stx tx) i k))
    \<and> user_id_to_idx_map db' = user_id_to_idx_map db \<and> same_offers bk (fst m) (fst m')
    \<and> lg' = lg \<and> tlog' = log_modified_accounts True tx tlog"
proof -
  obtain s bv db3 where s: "db_lookup_user (sourceAccount (metadata (stx tx))) db = Some s" "same_offers bk (fst m) (fst m')" "lg' = lg"
      "tlog' = log_modified_accounts True tx tlog" "db' = bv_commit bv db3"
    and inv: "tx_inv db (tx_effect bk wr8 (\<lambda>a. db_lookup_user a db) (fst m) s (stx tx)) bv db3"
    using process_transaction_cases [OF assms] by blast
  show ?thesis using commit_correct(1,2) [of db _ bv db3] inv s by (auto simp: tx_inv_def)
qed

theorem successful_transaction_effects_witness:
  "\<exists>m' db' stats' lg' tlog'. sample_run (MONEY_PRINTER \<lparr>mp_asset = 0, mp_amount = 5\<rparr>) = Inr (SUCCESS, m', db', stats', lg', tlog')
     \<and> balance (db_account 0 db') 0 = 885"
proof -
  obtain m' db' stats' lg' tlog' where run: "sample_run (MONEY_PRINTER \<lparr>mp_asset = 0, mp_amount = 5\<rparr>) = Inr (SUCCESS, m', db', stats', lg', tlog')"
    using sample_run_succeeds by blast
  have "\<exists>s. db_lookup_user 7 (sample_db sample_account) = Some s \<and> balance (db_account 0 db') 0
      = i64 (balance (db_account 0 (sample_db sample_account)) 0 + tx_effect (\<lambda>b. b) be8_writer (\<lambda>a. db_lookup_user a (sample_db sample_account))
          (fst sample_managers) s (stx (sample_tx (MONEY_PRINTER \<lparr>mp_asset = 0, mp_amount = 5\<rparr>))) 0 0)"
    using successful_transaction_effects [OF list_trie_ok writes_be8_be8_writer sample_db_ok sample_ready run [unfolded sample_run_def]]
    by (auto simp: sample_tx_def sample_db_def av_contents_def)
  then have "balance (db_account 0 db') 0 = 885"
    by (simp add: tx_effect_def ops_effect_def one_def sample_tx_def sample_offer_op_def balance_def all_assets_def sample_account_def
        fee_required_def BASE_FEE_PER_TX_def FEE_PER_OP_def NATIVE_ASSET_def in_i64_def)
  then show ?thesis using run by blast
qed

text \<open>
  A cancellation is processed without validating its category (an offer creation is
  validated, and rejected with \<open>INVALID_OFFER_CATEGORY\<close>): a well-formed, correctly signed and funded transaction whose
  first operation cancels an offer of an asset that is not traded makes \<open>process_transaction\<close> throw,
  instead of returning a status.
\<close>

theorem cancel_unknown_asset_throws:
  assumes "check_tx_format_parameters (stx tx)" and "fee_required (length (operations (stx tx))) \<le> int (maxFee (stx tx))"
    and "db_lookup_user (sourceAccount (metadata (stx tx))) db = Some s" and "sig_check (stx tx) (signature tx) (pk (db_account s db))"
    and "bv_reserve_sequence_number (DbPtr s) (sequenceNumber (metadata (stx tx))) bv_init db = (SUCCESS, bv1, db1)"
    and "bv_transfer_available (DbPtr s) NATIVE_ASSET (i64 (- fee_required (length (operations (stx tx))))) bv1 db1 = (SUCCESS, bv2, db2)"
    and "operations (stx tx) = CANCEL_SELL_OFFER op # ops" and "num_assets (fst m) \<le> sellAsset (can_category op)"
  shows "process_transaction T wr8 sig_check True tx (m, db, stats, lg, tlog) = Inl (RuntimeError ''invalid asset number'')"
  using assms
  by (simp add: process_transaction_def process_cancel_sell_offer_def look_up_idx_def category_to_idx_def Let_def)

theorem cancel_unknown_asset_throws_witness:
  "process_transaction list_trie be8_writer (\<lambda>_ _ _. True) True
     \<lparr>stx = \<lparr>metadata = \<lparr>sourceAccount = 7, sequenceNumber = 256\<rparr>,
        operations = [CANCEL_SELL_OFFER \<lparr>can_category = \<lparr>sellAsset = 2, buyAsset = 1, cat_type = SELL\<rparr>, can_offerId = 1, can_minPrice = 1\<rparr>,
          MONEY_PRINTER \<lparr>mp_asset = 0, mp_amount = 5\<rparr>], maxFee = 100\<rparr>, signature = ()\<rparr>
     (sample_managers, sample_db sample_account, empty_stats, [], []) = Inl (RuntimeError ''invalid asset number'')"
  by (rule cancel_unknown_asset_throws [where s = 0 and ?bv1.0 = "(sample_view [] [])\<lparr>bv_accounts := []\<rparr>"
        and ?db1.0 = "sample_db (sample_acct 1000)" and ?bv2.0 = "sample_view [(0, 0)] [(0, - 20)]" and ?db2.0 = "sample_db (sample_acct 980)"
        and op = "\<lparr>can_category = \<lparr>sellAsset = 2, buyAsset = 1, cat_type = SELL\<rparr>, can_offerId = 1, can_minPrice = 1\<rparr>"
        and ops = "[MONEY_PRINTER \<lparr>mp_asset = 0, mp_amount = 5\<rparr>]"])
    (use sample_steps(1,2) in \<open>simp_all add: check_tx_format_parameters_def RESERVED_SEQUENCE_NUM_LOWBITS_def fee_required_def
        BASE_FEE_PER_TX_def FEE_PER_OP_def sample_managers_def in_i64_def\<close>)

end
