(* ===== verification/Account_Filter.thy ===== *)
theory Account_Filter
  imports Memory_Database
begin

text \<open>
  The deterministic transaction filter (\<^verbatim>\<open>filtering/account_filter_entry.{h,cc}\<close>,
  \<^verbatim>\<open>filtering/filter_log.{h,cc}\<close>): per account, the transactions above the committed sequence number,
  what they require of every asset, and the verdict. Threads collect the transactions of an account
  separately and their entries are merged. A \<^verbatim>\<open>std::map\<close> is a list of pairs sorted by key, as its
  iteration order. The lemmas show that the verdict does not depend on how the transactions were
  distributed, and that an accepted account can pay for all its transactions.
\<close>

section \<open>Sorted maps\<close>

fun smap_put :: "nat \<Rightarrow> 'v \<Rightarrow> (nat \<times> 'v) list \<Rightarrow> (nat \<times> 'v) list" where
  "smap_put k v [] = [(k, v)]"
| "smap_put k v ((l, w) # xs) =
     (if k = l then (k, v) # xs else if k < l then (k, v) # (l, w) # xs else (l, w) # smap_put k v xs)"

definition smap_ok :: "(nat \<times> 'v) list \<Rightarrow> bool" where
  "smap_ok xs \<longleftrightarrow> sorted_wrt (<) (map fst xs)"

lemma map_of_smap_put [simp]: "map_of (smap_put k v xs) = (map_of xs)(k \<mapsto> v)"
  by (induction xs) (auto simp: fun_eq_iff)

lemma dom_smap_put [simp]: "fst ` set (smap_put k v xs) = insert k (fst ` set xs)"
  by (induction k v xs rule: smap_put.induct) (simp_all add: insert_commute)

lemma smap_ok_simps [simp]: "smap_ok []" "smap_ok (p # xs) \<longleftrightarrow> (\<forall>l\<in>fst ` set xs. fst p < l) \<and> smap_ok xs"
  by (auto simp: smap_ok_def)

lemma smap_ok_put [simp]: "smap_ok xs \<Longrightarrow> smap_ok (smap_put k v xs)"
proof (induction k v xs rule: smap_put.induct)
  case (2 k v l w xs)
  then show ?case by (auto simp del: image_iff dest: less_trans)
qed simp

lemma smap_ok_distinct: "smap_ok xs \<Longrightarrow> distinct (map fst xs)"
  by (simp add: smap_ok_def strict_sorted_iff)

text \<open>A sorted map is determined by its lookups.\<close>

lemma smap_eqI:
  assumes ok: "smap_ok xs" "smap_ok ys" and eq: "map_of xs = map_of ys"
  shows "xs = ys"
proof (rule map_sorted_distinct_set_unique [of fst])
  have d: "distinct (map fst xs)" "distinct (map fst ys)" using ok by (simp_all add: smap_ok_distinct)
  have xy: "set xs = set ys" using d eq map_of_inject_set by blast
  show "inj_on fst (set xs \<union> set ys)" using d xy by (simp add: distinct_map)
  show "sorted (map fst xs)" "sorted (map fst ys)" using ok by (simp_all add: smap_ok_def strict_sorted_iff)
  show "distinct (map fst xs)" "distinct (map fst ys)" using d by simp_all
  show "set xs = set ys" by (rule xy)
qed

section \<open>The entry of an account\<close>

datatype filter_result = VALID_NO_TXS | VALID_HAS_TXS | MISSING_REQUIREMENT | INVALID_DUPLICATE | ACCOUNT_NEXIST | OVERFLOW_REQ

record ('pk, 'sig) account_filter_entry =
  fe_account :: account_id
  min_seq_no :: nat
  initialized :: bool
  reqs_computed :: bool
  fe_txs :: "(nat \<times> ('pk, 'sig) signed_transaction) list"
  required_assets :: "(asset_id \<times> int) list"
  consumed_cancel_ids :: "nat set"
  found_bad_duplicate :: bool
  found_invalid_reqs :: bool
  found_account_nexist :: bool
  overflow_req :: bool
  double_cancel :: bool
  checked_reqs_cached :: bool

definition new_entry :: "account_id \<Rightarrow> ('pk, 'sig) account_filter_entry" where
  "new_entry a = \<lparr>fe_account = a, min_seq_no = UINT64_MAX, initialized = True, reqs_computed = False, fe_txs = [],
     required_assets = [], consumed_cancel_ids = {}, found_bad_duplicate = False, found_invalid_reqs = False,
     found_account_nexist = False, overflow_req = False, double_cancel = False, checked_reqs_cached = False\<rparr>"

definition found_error :: "('pk, 'sig) account_filter_entry \<Rightarrow> bool" where
  "found_error e \<longleftrightarrow> found_bad_duplicate e \<or> found_invalid_reqs e \<or> found_account_nexist e \<or> overflow_req e \<or> double_cancel e"

text \<open>\<^verbatim>\<open>required_assets[asset]\<close> creates a missing entry with value 0.\<close>

definition req_of :: "asset_id \<Rightarrow> (asset_id \<times> int) list \<Rightarrow> int" where
  "req_of asset rs = (case map_of rs asset of None \<Rightarrow> 0 | Some x \<Rightarrow> x)"

definition add_req :: "asset_id \<Rightarrow> int \<Rightarrow> ('pk, 'sig) account_filter_entry \<Rightarrow> ('pk, 'sig) account_filter_entry" where
  "add_req asset amt e =
     (if amt < 0 then e
      else if found_error e then e
      else (let req = req_of asset (required_assets e)
            in if \<not> in_i64 (amt + req)
               then e\<lparr>required_assets := smap_put asset (2 ^ 63 - 1) (required_assets e), overflow_req := True\<rparr>
               else e\<lparr>required_assets := smap_put asset (req + amt) (required_assets e)\<rparr>))"

definition add_cancel_id :: "nat \<Rightarrow> ('pk, 'sig) account_filter_entry \<Rightarrow> ('pk, 'sig) account_filter_entry" where
  "add_cancel_id i e =
     (if i \<in> consumed_cancel_ids e then e\<lparr>double_cancel := True\<rparr>
      else e\<lparr>consumed_cancel_ids := insert i (consumed_cancel_ids e)\<rparr>)"

text \<open>The counts of \<^verbatim>\<open>AccountCreationFilter\<close>.\<close>

type_synonym created_counts = "(account_id \<times> nat) list"

definition log_account_creation :: "account_id \<Rightarrow> created_counts \<Rightarrow> created_counts" where
  "log_account_creation a cs = smap_put a (u32 ((case map_of cs a of None \<Rightarrow> 0 | Some n \<Rightarrow> n) + 1)) cs"

fun op_reqs ::
  "'pk operation \<Rightarrow> ('pk, 'sig) account_filter_entry \<times> created_counts \<Rightarrow> ('pk, 'sig) account_filter_entry \<times> created_counts" where
  "op_reqs (CREATE_ACCOUNT op) (e, cs) = (add_req NATIVE_ASSET (startingBalance op) e, log_account_creation (newAccountId op) cs)"
| "op_reqs (CREATE_SELL_OFFER op) (e, cs) = (add_req (sellAsset (cso_category op)) (cso_amount op) e, cs)"
| "op_reqs (CANCEL_SELL_OFFER op) (e, cs) = (add_cancel_id (can_offerId op) e, cs)"
| "op_reqs (PAYMENT op) (e, cs) = (add_req (pay_asset op) (pay_amount op) e, cs)"
| "op_reqs (MONEY_PRINTER op) (e, cs) = (e, cs)"

definition tx_reqs ::
  "('pk, 'sig) signed_transaction \<Rightarrow> ('pk, 'sig) account_filter_entry \<times> created_counts
     \<Rightarrow> ('pk, 'sig) account_filter_entry \<times> created_counts" where
  "tx_reqs tx st = (case fold op_reqs (operations (stx tx)) st of
     (e, cs) \<Rightarrow> (add_req NATIVE_ASSET (int (maxFee (stx tx))) e, cs))"

definition compute_reqs ::
  "('pk, 'sig) account_filter_entry \<times> created_counts \<Rightarrow> (('pk, 'sig) account_filter_entry \<times> created_counts) result" where
  "compute_reqs st =
     (if reqs_computed (fst st) then Inl (RuntimeError ''double compute reqs'')
      else (case fold (\<lambda>(_, tx). tx_reqs tx) (fe_txs (fst st)) st of
        (e, cs) \<Rightarrow> Inr (e\<lparr>reqs_computed := True\<rparr>, cs)))"

definition log_reqs_invalid :: "('pk, 'sig) account_filter_entry \<Rightarrow> ('pk, 'sig) account_filter_entry" where
  "log_reqs_invalid e = e\<lparr>checked_reqs_cached := True, found_invalid_reqs := True\<rparr>"

definition log_reqs_checked :: "('pk, 'sig) account_filter_entry \<Rightarrow> ('pk, 'sig) account_filter_entry" where
  "log_reqs_checked e = e\<lparr>checked_reqs_cached := True\<rparr>"

definition insert_tx ::
  "('pk, 'sig) signed_transaction \<Rightarrow> ('pk, 'sig) account_filter_entry \<Rightarrow> ('pk, 'sig) account_filter_entry" where
  "insert_tx tx e =
     (let seqno = sequenceNumber (metadata (stx tx))
      in if seqno \<le> min_seq_no e then e
         else case map_of (fe_txs e) seqno of
           None \<Rightarrow> e\<lparr>fe_txs := smap_put seqno tx (fe_txs e)\<rparr>
         | Some tx_old \<Rightarrow> if tx_old \<noteq> tx then e\<lparr>found_bad_duplicate := True\<rparr> else e)"

definition add_tx ::
  "('pk, 't) memory_database \<Rightarrow> ('pk, 'sig) signed_transaction \<Rightarrow> ('pk, 'sig) account_filter_entry
     \<Rightarrow> ('pk, 'sig) account_filter_entry" where
  "add_tx db tx e =
     (if found_error e then e
      else if min_seq_no e = UINT64_MAX
      then (case db_lookup_user (fe_account e) db of
              None \<Rightarrow> log_reqs_invalid e
            | Some acc \<Rightarrow> insert_tx tx (e\<lparr>min_seq_no := db_get_last_committed_seq_number acc db\<rparr>))
      else insert_tx tx e)"

definition compute_validity ::
  "('pk, 't) memory_database \<Rightarrow> ('pk, 'sig) account_filter_entry \<times> created_counts
     \<Rightarrow> (('pk, 'sig) account_filter_entry \<times> created_counts) result" where
  "compute_validity db st =
     (if checked_reqs_cached (fst st) then Inl (RuntimeError ''double check valid'')
      else if found_error (fst st) then Inr (log_reqs_checked (fst st), snd st)
      else if \<not> initialized (fst st) then Inl (RuntimeError ''uninit'')
      else bind_result (compute_reqs st) (\<lambda>(e, cs).
        case db_lookup_user (fe_account e) db of
          None \<Rightarrow> Inr (e\<lparr>found_account_nexist := True\<rparr>, cs)
        | Some acc \<Rightarrow>
            if list_ex (\<lambda>(asset, req). db_lookup_available_balance acc asset db < req) (required_assets e)
            then Inr (log_reqs_invalid e, cs) else Inr (log_reqs_checked e, cs)))"

definition check_valid :: "('pk, 'sig) account_filter_entry \<Rightarrow> filter_result result" where
  "check_valid e =
     (if \<not> checked_reqs_cached e then Inl (RuntimeError ''check before computing valid or not'')
      else if found_bad_duplicate e then Inr INVALID_DUPLICATE
      else if found_account_nexist e then Inr ACCOUNT_NEXIST
      else if found_invalid_reqs e then Inr MISSING_REQUIREMENT
      else if overflow_req e then Inr OVERFLOW_REQ
      else Inr VALID_HAS_TXS)"

text \<open>
  \<^verbatim>\<open>txs.merge(other.txs)\<close> moves the transactions whose number is not yet there; the others are
  compared.
\<close>

definition merge_in ::
  "('pk, 'sig) account_filter_entry \<Rightarrow> ('pk, 'sig) account_filter_entry \<Rightarrow> ('pk, 'sig) account_filter_entry result" where
  "merge_in e other =
     (let e1 = e\<lparr>min_seq_no := min (min_seq_no e) (min_seq_no other),
                 found_bad_duplicate := found_bad_duplicate e \<or> found_bad_duplicate other,
                 found_invalid_reqs := found_invalid_reqs e \<or> found_invalid_reqs other,
                 found_account_nexist := found_account_nexist e \<or> found_account_nexist other,
                 overflow_req := overflow_req e \<or> overflow_req other\<rparr>
      in if found_error e1 then Inr e1
         else if \<not> initialized other then Inl (RuntimeError ''uninit'')
         else if initialized e1 \<and> fe_account other \<noteq> fe_account e1 then Inl (RuntimeError ''invalid merge'')
         else if reqs_computed other \<or> reqs_computed e1 then Inl (RuntimeError ''improper merge'')
         else if checked_reqs_cached e1 then Inl (RuntimeError ''improper merge in post check'')
         else (let (left, moved) = partition (\<lambda>(seqno, _). map_of (fe_txs e1) seqno \<noteq> None) (fe_txs other);
                   e2 = e1\<lparr>initialized := True, fe_txs := fold (\<lambda>(seqno, tx). smap_put seqno tx) moved (fe_txs e1)\<rparr>
               in if list_ex (\<lambda>(seqno, tx). map_of (fe_txs e2) seqno \<noteq> Some tx) left
                  then Inr (e2\<lparr>found_bad_duplicate := True\<rparr>) else Inr e2))"

section \<open>The log of all accounts\<close>

record ('pk, 'sig) filter_log =
  fl_entries :: "(account_id \<times> ('pk, 'sig) account_filter_entry) list"
  created_counts :: created_counts

definition local_insert ::
  "('pk, 't) memory_database \<Rightarrow> ('pk, 'sig) signed_transaction \<Rightarrow> (account_id \<times> ('pk, 'sig) account_filter_entry) list
     \<Rightarrow> (account_id \<times> ('pk, 'sig) account_filter_entry) list" where
  "local_insert db tx log =
     (let a = sourceAccount (metadata (stx tx));
          e = (case map_of log a of None \<Rightarrow> new_entry a | Some e \<Rightarrow> e)
      in smap_put a (add_tx db tx e) log)"

fun merge_log ::
  "(account_id \<times> ('pk, 'sig) account_filter_entry) list \<Rightarrow> (account_id \<times> ('pk, 'sig) account_filter_entry) list
     \<Rightarrow> (account_id \<times> ('pk, 'sig) account_filter_entry) list result" where
  "merge_log main [] = Inr main"
| "merge_log main ((a, from) # log) =
     (case map_of main a of
        None \<Rightarrow> merge_log (smap_put a from main) log
      | Some into \<Rightarrow> bind_result (merge_in into from) (\<lambda>e. merge_log (smap_put a e main) log))"

fun merge_logs where
  "merge_logs main [] = Inr main"
| "merge_logs main (log # logs) = bind_result (merge_log main log) (\<lambda>main'. merge_logs main' logs)"

fun validate_entries ::
  "('pk, 't) memory_database \<Rightarrow> (account_id \<times> ('pk, 'sig) account_filter_entry) list \<Rightarrow> created_counts
     \<Rightarrow> ((account_id \<times> ('pk, 'sig) account_filter_entry) list \<times> created_counts) result" where
  "validate_entries db [] cs = Inr ([], cs)"
| "validate_entries db ((a, e) # es) cs =
     bind_result (compute_validity db (e, cs)) (\<lambda>(e', cs').
       bind_result (validate_entries db es cs') (\<lambda>(es', cs''). Inr ((a, e') # es', cs'')))"

text \<open>\<open>parts\<close> are the transactions that each thread inserts, in its order.\<close>

definition add_txs ::
  "('pk, 't) memory_database \<Rightarrow> ('pk, 'sig) signed_transaction list list \<Rightarrow> ('pk, 'sig) filter_log \<Rightarrow> ('pk, 'sig) filter_log result" where
  "add_txs db parts fl =
     bind_result (merge_logs (fl_entries fl) (map (\<lambda>part. fold (local_insert db) part []) parts)) (\<lambda>es.
     bind_result (validate_entries db es (created_counts fl)) (\<lambda>(es', cs). Inr \<lparr>fl_entries = es', created_counts = cs\<rparr>))"

definition check_valid_account :: "account_id \<Rightarrow> ('pk, 'sig) filter_log \<Rightarrow> filter_result result" where
  "check_valid_account a fl = (case map_of (fl_entries fl) a of None \<Rightarrow> Inr VALID_NO_TXS | Some e \<Rightarrow> check_valid e)"

definition is_valid_account_creation :: "account_id \<Rightarrow> created_counts \<Rightarrow> bool" where
  "is_valid_account_creation a cs = (case map_of cs a of None \<Rightarrow> True | Some n \<Rightarrow> n = 1)"

definition creations_valid :: "('pk, 'sig) signed_transaction \<Rightarrow> created_counts \<Rightarrow> bool" where
  "creations_valid tx cs =
     list_all (\<lambda>op. case op of CREATE_ACCOUNT c \<Rightarrow> is_valid_account_creation (newAccountId c) cs | _ \<Rightarrow> True) (operations (stx tx))"

fun is_failure :: "filter_result \<Rightarrow> bool" where
  "is_failure VALID_NO_TXS = False" | "is_failure VALID_HAS_TXS = False" | "is_failure _ = True"

definition check_valid_tx :: "('pk, 'sig) signed_transaction \<Rightarrow> ('pk, 'sig) filter_log \<Rightarrow> bool result" where
  "check_valid_tx tx fl =
     bind_result (check_valid_account (sourceAccount (metadata (stx tx))) fl) (\<lambda>r.
       if is_failure r then Inr False else Inr (creations_valid tx (created_counts fl)))"

definition fl_clear :: "('pk, 'sig) filter_log \<Rightarrow> ('pk, 'sig) filter_log" where
  "fl_clear fl = fl\<lparr>fl_entries := [], created_counts := []\<rparr>"

section \<open>What an entry has collected\<close>

abbreviation seqno_of :: "('pk, 'sig) signed_transaction \<Rightarrow> nat" where
  "seqno_of tx \<equiv> sequenceNumber (metadata (stx tx))"

abbreviation source_of :: "('pk, 'sig) signed_transaction \<Rightarrow> account_id" where
  "source_of tx \<equiv> sourceAccount (metadata (stx tx))"

definition conflict :: "nat \<Rightarrow> ('pk, 'sig) signed_transaction set \<Rightarrow> bool" where
  "conflict lst X \<longleftrightarrow> (\<exists>t\<in>X. \<exists>u\<in>X. t \<noteq> u \<and> seqno_of t = seqno_of u \<and> lst < seqno_of t)"

text \<open>
  The entry of account \<open>a\<close> after the transactions \<open>X\<close>: it is flagged iff two of them differ and have the same
  live sequence number, and otherwise it holds exactly the live ones.
\<close>

definition entry_of ::
  "account_id \<Rightarrow> nat \<Rightarrow> (nat \<times> ('pk, 'sig) signed_transaction) list \<Rightarrow> bool \<Rightarrow> ('pk, 'sig) account_filter_entry" where
  "entry_of a n ts bad = (new_entry a)\<lparr>min_seq_no := n, fe_txs := ts, found_bad_duplicate := bad\<rparr>"

lemma entry_of_simps [simp]:
  "fe_account (entry_of a n ts bad) = a" "min_seq_no (entry_of a n ts bad) = n" "initialized (entry_of a n ts bad)"
  "\<not> reqs_computed (entry_of a n ts bad)" "fe_txs (entry_of a n ts bad) = ts" "found_bad_duplicate (entry_of a n ts bad) = bad"
  "found_error (entry_of a n ts bad) = bad" "\<not> checked_reqs_cached (entry_of a n ts bad)" "\<not> double_cancel (entry_of a n ts bad)"
  "\<not> found_invalid_reqs (entry_of a n ts bad)" "\<not> found_account_nexist (entry_of a n ts bad)" "\<not> overflow_req (entry_of a n ts bad)"
  "required_assets (entry_of a n ts bad) = []" "consumed_cancel_ids (entry_of a n ts bad) = {}"
  "(entry_of a n ts bad)\<lparr>fe_txs := ts'\<rparr> = entry_of a n ts' bad" "(entry_of a n ts bad)\<lparr>found_bad_duplicate := bad'\<rparr> = entry_of a n ts bad'"
  "(entry_of a n ts bad)\<lparr>min_seq_no := n'\<rparr> = entry_of a n' ts bad"
  "(entry_of a n ts bad)\<lparr>found_invalid_reqs := False\<rparr> = entry_of a n ts bad" "(entry_of a n ts bad)\<lparr>found_account_nexist := False\<rparr> = entry_of a n ts bad"
  "(entry_of a n ts bad)\<lparr>overflow_req := False\<rparr> = entry_of a n ts bad" "(entry_of a n ts bad)\<lparr>initialized := True\<rparr> = entry_of a n ts bad"
  by (simp_all add: entry_of_def new_entry_def found_error_def)

definition holds_live :: "nat \<Rightarrow> ('pk, 'sig) signed_transaction set \<Rightarrow> (nat \<times> ('pk, 'sig) signed_transaction) list \<Rightarrow> bool" where
  "holds_live lst X ts \<longleftrightarrow> (\<forall>n t. map_of ts n = Some t \<longleftrightarrow> t \<in> X \<and> seqno_of t = n \<and> lst < n)"

definition collects :: "nat \<Rightarrow> account_id \<Rightarrow> ('pk, 'sig) signed_transaction set \<Rightarrow> ('pk, 'sig) account_filter_entry \<Rightarrow> bool" where
  "collects lst a X e \<longleftrightarrow> (\<exists>ts. e = entry_of a (if X = {} then UINT64_MAX else lst) ts (conflict lst X)
     \<and> smap_ok ts \<and> (conflict lst X \<or> holds_live lst X ts))"

lemma collects_new: "collects lst a {} (new_entry a)"
  unfolding collects_def by (rule exI [of _ "[]"]) (simp add: entry_of_def new_entry_def conflict_def holds_live_def)

lemma conflict_insert:
  "conflict lst (insert t X) \<longleftrightarrow> conflict lst X \<or> (\<exists>u\<in>X. u \<noteq> t \<and> seqno_of u = seqno_of t \<and> lst < seqno_of t)"
  (is "?l \<longleftrightarrow> ?r")
proof
  show "?l \<Longrightarrow> ?r" by (auto simp: conflict_def)
  show "?r \<Longrightarrow> ?l" unfolding conflict_def by (metis insert_iff)
qed

lemma collects_add:
  assumes c: "collects lst a X e" and acc: "db_lookup_user a db = Some i" "db_get_last_committed_seq_number i db = lst" and lst: "lst < UINT64_MAX"
  shows "collects lst a (insert t X) (add_tx db t e)"
proof -
  obtain ts where e: "e = entry_of a (if X = {} then UINT64_MAX else lst) ts (conflict lst X)" "smap_ok ts" "conflict lst X \<or> holds_live lst X ts"
    using c by (auto simp: collects_def)
  show ?thesis
  proof (cases "conflict lst X")
    case True
    moreover have "X \<noteq> {}" using True by (auto simp: conflict_def)
    ultimately show ?thesis using e by (auto simp: collects_def conflict_insert add_tx_def intro!: exI [of _ ts])
  next
    case False
    then have live: "holds_live lst X ts" using e by blast
    have add: "add_tx db t e = insert_tx t (entry_of a lst ts False)"
      using e False acc lst by (auto simp: add_tx_def)
    have keep: "conflict lst (insert t X) \<longleftrightarrow> (\<exists>u. map_of ts (seqno_of t) = Some u \<and> u \<noteq> t)"
      using False live by (auto simp: conflict_insert holds_live_def)
    show ?thesis
    proof (cases "seqno_of t \<le> lst")
      case True
      then show ?thesis using e live keep False unfolding add
        by (auto simp: insert_tx_def collects_def holds_live_def intro!: exI [of _ ts])
    next
      case gt: False
      show ?thesis
      proof (cases "map_of ts (seqno_of t)")
        case None
        have "u \<notin> X" if "seqno_of u = seqno_of t" for u
          using live None gt that unfolding holds_live_def by (metis not_le option.distinct(1))
        then have "holds_live lst (insert t X) (smap_put (seqno_of t) t ts)"
          using live gt by (auto simp: holds_live_def)
        then show ?thesis using e None gt keep unfolding add
          by (auto simp: insert_tx_def collects_def intro!: exI [of _ "smap_put (seqno_of t) t ts"])
      next
        case (Some u)
        then have "u = t \<Longrightarrow> holds_live lst (insert t X) ts" using live by (auto simp: holds_live_def)
        then show ?thesis using e Some gt keep unfolding add
          by (auto simp: insert_tx_def collects_def intro!: exI [of _ ts])
      qed
    qed
  qed
qed

lemma fold_put:
  assumes "distinct (map fst xs)"
  shows "map_of (fold (\<lambda>(k, v). smap_put k v) xs ys) n = Some t
    \<longleftrightarrow> (n, t) \<in> set xs \<or> n \<notin> fst ` set xs \<and> map_of ys n = Some t"
  using assms
proof (induction xs arbitrary: ys)
  case (Cons p xs)
  obtain k v where p: "p = (k, v)" by fastforce
  have "(k, t) \<notin> set xs" using Cons.prems by (auto simp: p image_iff)
  then show ?case using Cons by (auto simp: p)
qed simp

lemma smap_ok_fold_put: "smap_ok ys \<Longrightarrow> smap_ok (fold (\<lambda>(k, v). smap_put k v) xs ys)"
  by (induction xs arbitrary: ys) (auto split: prod.splits)

definition merged :: "(nat \<times> 'v) list \<Rightarrow> (nat \<times> 'v) list \<Rightarrow> (nat \<times> 'v) list" where
  "merged ts us = fold (\<lambda>(k, v). smap_put k v) (filter (\<lambda>(k, _). map_of ts k = None) us) ts"

lemma merged_lookup:
  assumes "smap_ok us"
  shows "map_of (merged ts us) n = Some t \<longleftrightarrow> map_of ts n = Some t \<or> map_of ts n = None \<and> (n, t) \<in> set us"
proof -
  have "distinct (map fst (filter (\<lambda>(k, _). map_of ts k = None) us))"
    using smap_ok_distinct [OF assms] by (rule distinct_map_filter)
  then show ?thesis unfolding merged_def by (simp add: fold_put image_iff) auto
qed

lemma merge_in_entry:
  assumes "smap_ok us"
  shows "merge_in (entry_of a n ts b) (entry_of a n us c) = Inr (if b \<or> c then entry_of a n ts True
     else entry_of a n (merged ts us) (\<exists>(k, v)\<in>set us. \<exists>w. map_of ts k = Some w \<and> w \<noteq> v))"
proof -
  have "map_of (merged ts us) k = Some w" if "map_of ts k = Some w" for k w
    using that merged_lookup [OF assms] by blast
  then have ex: "list_ex (\<lambda>(k, v). map_of (merged ts us) k \<noteq> Some v) (filter (\<lambda>(k, _). map_of ts k \<noteq> None) us)
      \<longleftrightarrow> (\<exists>(k, v)\<in>set us. \<exists>w. map_of ts k = Some w \<and> w \<noteq> v)"
    unfolding list_ex_iff by fastforce
  have part: "partition (\<lambda>(k, _). map_of ts k \<noteq> None) us
      = (filter (\<lambda>(k, _). map_of ts k \<noteq> None) us, filter (\<lambda>(k, _). map_of ts k = None) us)"
    by (simp add: comp_def case_prod_unfold)
  show ?thesis
    by (cases "b \<or> c") (simp_all add: merge_in_def Let_def part ex merged_def [symmetric] del: partition_filter_conv not_None_eq)
qed

lemma conflict_Un:
  assumes "\<not> conflict lst X" "\<not> conflict lst Y"
  shows "conflict lst (X \<union> Y) \<longleftrightarrow> (\<exists>t\<in>X. \<exists>u\<in>Y. t \<noteq> u \<and> seqno_of t = seqno_of u \<and> lst < seqno_of t)"
    (is "?l \<longleftrightarrow> ?r")
proof
  show "?l \<Longrightarrow> ?r" using assms unfolding conflict_def by (metis Un_iff)
  show "?r \<Longrightarrow> ?l" unfolding conflict_def by (metis Un_iff)
qed

lemma collects_merge:
  assumes "collects lst a X e" "collects lst a Y e2" "X \<noteq> {}" "Y \<noteq> {}"
  shows "\<exists>e'. merge_in e e2 = Inr e' \<and> collects lst a (X \<union> Y) e'"
proof -
  obtain ts where e: "e = entry_of a lst ts (conflict lst X)" "smap_ok ts" "conflict lst X \<or> holds_live lst X ts"
    using assms by (auto simp: collects_def)
  obtain us where o: "e2 = entry_of a lst us (conflict lst Y)" "smap_ok us" "conflict lst Y \<or> holds_live lst Y us"
    using assms by (auto simp: collects_def)
  note m = merge_in_entry [OF o(2), of a lst ts "conflict lst X" "conflict lst Y"]
  show ?thesis
  proof (cases "conflict lst X \<or> conflict lst Y")
    case True
    then have "conflict lst (X \<union> Y)" unfolding conflict_def by (metis Un_iff)
    then show ?thesis using True e o assms(3) m by (auto simp: collects_def)
  next
    case False
    have l: "holds_live lst X ts" "holds_live lst Y us" using False e o by blast+
    have us: "(k, v) \<in> set us \<longleftrightarrow> v \<in> Y \<and> seqno_of v = k \<and> lst < k" for k v
      using l(2) map_of_eq_Some_iff [OF smap_ok_distinct [OF o(2)], of k v] by (simp add: holds_live_def)
    have ts: "map_of ts k = Some v \<longleftrightarrow> v \<in> X \<and> seqno_of v = k \<and> lst < k" for k v
      using l(1) by (simp add: holds_live_def)
    have bad: "(\<exists>(k, v)\<in>set us. \<exists>w. map_of ts k = Some w \<and> w \<noteq> v) = conflict lst (X \<union> Y)"
    proof
      assume "\<exists>(k, v)\<in>set us. \<exists>w. map_of ts k = Some w \<and> w \<noteq> v"
      then obtain k v w where "(k, v) \<in> set us" "map_of ts k = Some w" "w \<noteq> v" by blast
      then have "v \<in> X \<union> Y" "w \<in> X \<union> Y" "seqno_of w = seqno_of v" "lst < seqno_of w" using us ts by simp_all
      then show "conflict lst (X \<union> Y)" using \<open>w \<noteq> v\<close> unfolding conflict_def by blast
    next
      assume "conflict lst (X \<union> Y)"
      then obtain t u where tu: "t \<in> X" "u \<in> Y" "t \<noteq> u" "seqno_of t = seqno_of u" "lst < seqno_of t"
        using False by (auto simp: conflict_Un)
      then have "(seqno_of u, u) \<in> set us" "map_of ts (seqno_of u) = Some t" using us ts by simp_all
      then show "\<exists>(k, v)\<in>set us. \<exists>w. map_of ts k = Some w \<and> w \<noteq> v" using tu(3) by blast
    qed
    have "holds_live lst (X \<union> Y) (merged ts us)" if nc: "\<not> conflict lst (X \<union> Y)"
    proof -
      have "t = u" if "t \<in> X" "u \<in> Y" "seqno_of t = seqno_of u" "lst < seqno_of t" for t u
        using nc that unfolding conflict_def by (metis Un_iff)
      moreover have "map_of ts n = None \<longleftrightarrow> (\<forall>t\<in>X. seqno_of t = n \<longrightarrow> \<not> lst < n)" for n
        using ts [of n] by (metis option.distinct(1) option.exhaust)
      ultimately show ?thesis unfolding holds_live_def merged_lookup [OF o(2)] us ts by (metis Un_iff)
    qed
    then show ?thesis using False e o assms(3) smap_ok_fold_put [OF e(2)] m
      by (auto simp: collects_def bad merged_def)
  qed
qed

section \<open>Logs\<close>

definition known :: "('pk, 't) memory_database \<Rightarrow> account_id \<Rightarrow> nat \<Rightarrow> bool" where
  "known db a lst \<longleftrightarrow> (\<exists>i. db_lookup_user a db = Some i \<and> db_get_last_committed_seq_number i db = lst) \<and> lst < UINT64_MAX"

definition committed_seq :: "('pk, 't) memory_database \<Rightarrow> account_id \<Rightarrow> nat" where
  "committed_seq db a = (case db_lookup_user a db of None \<Rightarrow> 0 | Some i \<Rightarrow> db_get_last_committed_seq_number i db)"

definition log_collects ::
  "('pk, 't) memory_database \<Rightarrow> (account_id \<Rightarrow> ('pk, 'sig) signed_transaction set)
     \<Rightarrow> (account_id \<times> ('pk, 'sig) account_filter_entry) list \<Rightarrow> bool" where
  "log_collects db F log \<longleftrightarrow> smap_ok log
     \<and> (\<forall>a. case map_of log a of None \<Rightarrow> F a = {} | Some e \<Rightarrow> F a \<noteq> {} \<and> collects (committed_seq db a) a (F a) e)"

definition by_source :: "('pk, 'sig) signed_transaction set \<Rightarrow> account_id \<Rightarrow> ('pk, 'sig) signed_transaction set" where
  "by_source X a = {t \<in> X. source_of t = a}"

definition sources_ok :: "('pk, 't) memory_database \<Rightarrow> ('pk, 'sig) signed_transaction set \<Rightarrow> bool" where
  "sources_ok db X \<longleftrightarrow> (\<forall>t\<in>X. known db (source_of t) (committed_seq db (source_of t)))"

lemma log_collects_put:
  assumes "log_collects db F log" and "collects (committed_seq db a) a Y e" and "Y \<noteq> {}"
  shows "log_collects db (F(a := Y)) (smap_put a e log)"
proof -
  have "case map_of (smap_put a e log) b of None \<Rightarrow> (F(a := Y)) b = {}
      | Some x \<Rightarrow> (F(a := Y)) b \<noteq> {} \<and> collects (committed_seq db b) b ((F(a := Y)) b) x" for b
    using assms by (cases "b = a"; cases "map_of log b") (auto simp: log_collects_def dest!: spec [of _ b])
  then show ?thesis using assms(1) by (simp add: log_collects_def)
qed

lemma log_collects_insert:
  assumes log: "log_collects db F log" and k: "known db (source_of t) (committed_seq db (source_of t))"
  shows "log_collects db (F(source_of t := insert t (F (source_of t)))) (local_insert db t log)"
proof -
  let ?a = "source_of t"
  let ?e = "case map_of log ?a of None \<Rightarrow> new_entry ?a | Some e \<Rightarrow> e"
  have "collects (committed_seq db ?a) ?a (F ?a) ?e"
    using log unfolding log_collects_def by (auto simp: collects_new split: option.split dest: spec [of _ ?a])
  then have "collects (committed_seq db ?a) ?a (insert t (F ?a)) (add_tx db t ?e)"
    using k by (auto simp: known_def intro: collects_add)
  then show ?thesis using log_collects_put [OF log] by (simp add: local_insert_def Let_def)
qed

lemma log_collects_part:
  "sources_ok db (set part) \<Longrightarrow> log_collects db F log
   \<Longrightarrow> log_collects db (\<lambda>a. F a \<union> by_source (set part) a) (fold (local_insert db) part log)"
proof (induction part arbitrary: F log)
  case Nil
  then show ?case by (simp add: by_source_def)
next
  case (Cons t part)
  have step: "log_collects db (F(source_of t := insert t (F (source_of t)))) (local_insert db t log)"
    using Cons.prems by (intro log_collects_insert) (auto simp: sources_ok_def)
  have eq: "(\<lambda>a. (F(source_of t := insert t (F (source_of t)))) a \<union> by_source (set part) a)
      = (\<lambda>a. F a \<union> by_source (set (t # part)) a)"
    by (auto simp: by_source_def fun_eq_iff)
  have "sources_ok db (set part)" using Cons.prems(1) by (simp add: sources_ok_def)
  from Cons.IH [OF this step] show ?case unfolding eq by simp
qed

lemma merge_log_collects:
  assumes "distinct (map fst log)" and "\<forall>(a, e)\<in>set log. G a \<noteq> {} \<and> collects (committed_seq db a) a (G a) e" and "log_collects db F main"
  shows "\<exists>main'. merge_log main log = Inr main' \<and> log_collects db (\<lambda>a. if a \<in> fst ` set log then F a \<union> G a else F a) main'"
  using assms
proof (induction log arbitrary: main F)
  case Nil
  then show ?case by simp
next
  case (Cons p log)
  obtain a e where p: "p = (a, e)" by fastforce
  have e: "G a \<noteq> {}" "collects (committed_seq db a) a (G a) e" and a: "a \<notin> fst ` set log" using Cons.prems by (auto simp: p)
  let ?F = "F(a := F a \<union> G a)"
  have "\<exists>e'. (case map_of main a of None \<Rightarrow> Inr e | Some into \<Rightarrow> merge_in into e) = Inr e' \<and> collects (committed_seq db a) a (F a \<union> G a) e'"
    using Cons.prems(3) e collects_merge [of "committed_seq db a" a "F a" _ "G a" e]
    by (auto simp: log_collects_def split: option.split dest: spec [of _ a])
  then obtain e' where e': "(case map_of main a of None \<Rightarrow> Inr e | Some into \<Rightarrow> merge_in into e) = Inr e'" "log_collects db ?F (smap_put a e' main)"
    using log_collects_put [OF Cons.prems(3)] e(1) by blast
  have "merge_log main (p # log) = merge_log (smap_put a e' main) log"
    using e'(1) by (auto simp: p split: option.splits)
  moreover have "(\<lambda>b. if b \<in> fst ` set log then ?F b \<union> G b else ?F b) = (\<lambda>b. if b \<in> fst ` set (p # log) then F b \<union> G b else F b)"
    using a by (auto simp: p fun_eq_iff)
  ultimately show ?case using Cons.IH [OF _ _ e'(2)] Cons.prems(1,2) by simp
qed

lemma merge_logs_collects:
  assumes "\<forall>part\<in>set parts. sources_ok db (set part)" and "log_collects db F main"
  shows "\<exists>main'. merge_logs main (map (\<lambda>part. fold (local_insert db) part []) parts) = Inr main'
    \<and> log_collects db (\<lambda>a. F a \<union> by_source (set (concat parts)) a) main'"
  using assms
proof (induction parts arbitrary: main F)
  case Nil
  then show ?case by (simp add: by_source_def)
next
  case (Cons part parts)
  let ?log = "fold (local_insert db) part []"
  have log: "log_collects db (by_source (set part)) ?log"
    using log_collects_part [of db part "\<lambda>_. {}" "[]"] Cons.prems(1) by (simp add: log_collects_def)
  then have "distinct (map fst ?log)" by (simp add: log_collects_def smap_ok_distinct)
  moreover have "\<forall>(a, e)\<in>set ?log. by_source (set part) a \<noteq> {} \<and> collects (committed_seq db a) a (by_source (set part) a) e"
    using log map_of_is_SomeI [OF calculation] by (fastforce simp: log_collects_def dest: spec split: option.splits)
  ultimately obtain main' where m: "merge_log main ?log = Inr main'"
      "log_collects db (\<lambda>a. if a \<in> fst ` set ?log then F a \<union> by_source (set part) a else F a) main'"
    using merge_log_collects [OF _ _ Cons.prems(2)] by blast
  have "by_source (set part) a = {}" if "a \<notin> fst ` set ?log" for a
    using that log by (auto simp: log_collects_def map_of_eq_None_iff [symmetric] dest!: spec [of _ a])
  then have "(\<lambda>a. if a \<in> fst ` set ?log then F a \<union> by_source (set part) a else F a) = (\<lambda>a. F a \<union> by_source (set part) a)" by (intro ext) simp
  then have "log_collects db (\<lambda>a. F a \<union> by_source (set part) a) main'" using m(2) by simp
  moreover have "(\<lambda>a. (F a \<union> by_source (set part) a) \<union> by_source (set (concat parts)) a) = (\<lambda>a. F a \<union> by_source (set (concat (part # parts))) a)"
    by (auto simp: by_source_def fun_eq_iff)
  ultimately show ?case using Cons.IH [of "\<lambda>a. F a \<union> by_source (set part) a" main'] Cons.prems(1) m(1) by simp
qed

section \<open>Verdicts\<close>

text \<open>Two entries that lead to the same verdict.\<close>

definition same_verdict :: "('pk, 'sig) account_filter_entry \<Rightarrow> ('pk, 'sig) account_filter_entry \<Rightarrow> bool" where
  "same_verdict e e' \<longleftrightarrow> e = e' \<or> found_bad_duplicate e \<and> found_bad_duplicate e' \<and> checked_reqs_cached e = checked_reqs_cached e'"

lemma collects_same:
  assumes "collects lst a X e" "collects lst a X e'"
  shows "same_verdict e e'"
proof -
  obtain ts us where e: "e = entry_of a (if X = {} then UINT64_MAX else lst) ts (conflict lst X)"
      "e' = entry_of a (if X = {} then UINT64_MAX else lst) us (conflict lst X)" and ok: "smap_ok ts" "smap_ok us"
    and l: "conflict lst X \<or> holds_live lst X ts" "conflict lst X \<or> holds_live lst X us"
    using assms by (auto simp: collects_def)
  show ?thesis
  proof (cases "conflict lst X")
    case False
    then have "map_of ts n = Some t \<longleftrightarrow> map_of us n = Some t" for n t using l by (simp add: holds_live_def)
    then have "map_of ts = map_of us" by (metis ext not_None_eq)
    then show ?thesis using smap_eqI [OF ok] e by (simp add: same_verdict_def)
  qed (simp add: e same_verdict_def)
qed

lemma compute_validity_total:
  assumes "collects lst a X e"
  shows "\<exists>e' cs'. compute_validity db (e, cs) = Inr (e', cs') \<and> (found_bad_duplicate e \<longrightarrow> e' = log_reqs_checked e \<and> cs' = cs)"
  using assms by (auto simp: collects_def compute_validity_def compute_reqs_def split: option.split prod.split)

lemma log_collects_same:
  assumes "log_collects db F log" "log_collects db F log'"
  shows "list_all2 (\<lambda>(a, e) (b, e'). a = b \<and> same_verdict e e' \<and> (\<exists>X. collects (committed_seq db a) a X e) \<and> (\<exists>X. collects (committed_seq db a) a X e')) log log'"
proof -
  have ok: "smap_ok log" "smap_ok log'" using assms by (simp_all add: log_collects_def)
  have dom: "a \<in> fst ` set log \<longleftrightarrow> F a \<noteq> {}" "a \<in> fst ` set log' \<longleftrightarrow> F a \<noteq> {}" for a
    using assms map_of_eq_None_iff [of log a] map_of_eq_None_iff [of log' a]
    by (auto simp: log_collects_def dest!: spec [of _ a] split: option.splits)
  have keys: "map fst log = map fst log'"
  proof (rule sorted_distinct_set_unique)
    have "fst ` set log = fst ` set log'" using dom by blast
    then show "set (map fst log) = set (map fst log')" by simp
  qed (use ok in \<open>simp_all add: smap_ok_def strict_sorted_iff\<close>)
  have "same_verdict (snd (log ! i)) (snd (log' ! i)) \<and> (\<exists>X. collects (committed_seq db (fst (log ! i))) (fst (log ! i)) X (snd (log ! i)))
      \<and> (\<exists>X. collects (committed_seq db (fst (log ! i))) (fst (log ! i)) X (snd (log' ! i)))" if i: "i < length log" for i
  proof -
    let ?a = "fst (log ! i)"
    have len: "length log' = length log" using keys by (metis length_map)
    have "fst (log' ! i) = ?a" using keys i len by (metis nth_map)
    then have "map_of log ?a = Some (snd (log ! i))" "map_of log' ?a = Some (snd (log' ! i))"
      using i len ok smap_ok_distinct by (metis map_of_is_SomeI nth_mem prod.collapse)+
    then have "collects (committed_seq db ?a) ?a (F ?a) (snd (log ! i))" "collects (committed_seq db ?a) ?a (F ?a) (snd (log' ! i))"
      using assms by (auto simp: log_collects_def dest!: spec [of _ ?a])
    then show ?thesis using collects_same by blast
  qed
  then show ?thesis using keys by (auto simp: list_all2_conv_all_nth case_prod_unfold list_eq_iff_nth_eq)
qed

lemma validate_entries_same:
  "list_all2 (\<lambda>(a, e) (b, e'). a = b \<and> same_verdict e e' \<and> (\<exists>X. collects (committed_seq db a) a X e) \<and> (\<exists>X. collects (committed_seq db a) a X e')) log log'
   \<Longrightarrow> \<exists>es es' cs'. validate_entries db log cs = Inr (es, cs') \<and> validate_entries db log' cs = Inr (es', cs')
      \<and> list_all2 (\<lambda>(a, e) (b, e'). a = b \<and> same_verdict e e') es es'"
proof (induction log log' arbitrary: cs rule: list_all2_induct)
  case Nil
  then show ?case by simp
next
  case (Cons p log q log')
  obtain a e e' where pq: "p = (a, e)" "q = (a, e')" and sv: "same_verdict e e'"
    and c: "\<exists>X. collects (committed_seq db a) a X e" "\<exists>X. collects (committed_seq db a) a X e'"
    using Cons.hyps by auto
  obtain X Y where XY: "collects (committed_seq db a) a X e" "collects (committed_seq db a) a Y e'" using c by (elim exE)
  obtain f cs1 where f: "compute_validity db (e, cs) = Inr (f, cs1)" "found_bad_duplicate e \<longrightarrow> f = log_reqs_checked e \<and> cs1 = cs"
    using compute_validity_total [OF XY(1), of db cs] by (elim exE conjE)
  obtain f' cs1' where f': "compute_validity db (e', cs) = Inr (f', cs1')" "found_bad_duplicate e' \<longrightarrow> f' = log_reqs_checked e' \<and> cs1' = cs"
    using compute_validity_total [OF XY(2), of db cs] by (elim exE conjE)
  have r: "same_verdict f f'" "cs1' = cs1" using sv f f' by (auto simp: same_verdict_def log_reqs_checked_def)
  obtain es es' cs' where "validate_entries db log cs1 = Inr (es, cs')" "validate_entries db log' cs1 = Inr (es', cs')"
      "list_all2 (\<lambda>(a, e) (b, e'). a = b \<and> same_verdict e e') es es'"
    using Cons.IH by blast
  then show ?case using f(1) f'(1) r by (auto simp: pq)
qed

lemma same_verdict_check: "same_verdict e e' \<Longrightarrow> check_valid e = check_valid e'"
  by (auto simp: same_verdict_def check_valid_def)

definition empty_filter :: "('pk, 'sig) filter_log" where
  "empty_filter = \<lparr>fl_entries = [], created_counts = []\<rparr>"

lemma add_txs_collects:
  assumes "sources_ok db (set (concat parts))"
  obtains es where "merge_logs [] (map (\<lambda>part. fold (local_insert db) part []) parts) = Inr es"
    and "log_collects db (by_source (set (concat parts))) es"
proof -
  have "\<forall>part\<in>set parts. sources_ok db (set part)" using assms by (auto simp: sources_ok_def)
  moreover have "log_collects db (\<lambda>_. {}) []" by (simp add: log_collects_def)
  ultimately show ?thesis using merge_logs_collects [of parts db "\<lambda>_. {}" "[]"] that by auto
qed

lemma map_of_same:
  "list_all2 (\<lambda>(a, e) (b, e'). a = b \<and> same_verdict e e') es es'
   \<Longrightarrow> rel_option same_verdict (map_of es a) (map_of es' a)"
  by (induction es es' rule: list_all2_induct) auto

section \<open>Costs\<close>

fun op_cost :: "'pk operation \<Rightarrow> asset_id \<Rightarrow> int" where
  "op_cost (CREATE_ACCOUNT op) k = (if k = NATIVE_ASSET then max 0 (startingBalance op) else 0)"
| "op_cost (CREATE_SELL_OFFER op) k = (if k = sellAsset (cso_category op) then max 0 (cso_amount op) else 0)"
| "op_cost (CANCEL_SELL_OFFER op) k = 0"
| "op_cost (PAYMENT op) k = (if k = pay_asset op then max 0 (pay_amount op) else 0)"
| "op_cost (MONEY_PRINTER op) k = 0"

definition tx_cost :: "('pk, 'sig) signed_transaction \<Rightarrow> asset_id \<Rightarrow> int" where
  "tx_cost tx k = (\<Sum>op\<leftarrow>operations (stx tx). op_cost op k) + (if k = NATIVE_ASSET then int (maxFee (stx tx)) else 0)"

text \<open>Unless an error is found, the requirements grow by the cost.\<close>

definition counts :: "(asset_id \<Rightarrow> int) \<Rightarrow> ('pk, 'sig) account_filter_entry \<Rightarrow> ('pk, 'sig) account_filter_entry \<Rightarrow> bool" where
  "counts c e e' \<longleftrightarrow> (found_error e \<longrightarrow> found_error e') \<and> fe_account e' = fe_account e \<and> fe_txs e' = fe_txs e
     \<and> checked_reqs_cached e' = checked_reqs_cached e
     \<and> (\<not> found_error e' \<longrightarrow> (\<forall>k. req_of k (required_assets e') = req_of k (required_assets e) + c k))"

lemma counts_trans: "counts c e e' \<Longrightarrow> counts d e' e'' \<Longrightarrow> counts (\<lambda>k. c k + d k) e e''"
  by (auto simp: counts_def)

lemma counts_add_req: "counts (\<lambda>k. if k = asset then max 0 amt else 0) e (add_req asset amt e)"
  by (auto simp: counts_def add_req_def Let_def found_error_def req_of_def)

lemma counts_op: "counts (op_cost op) e (fst (op_reqs op (e, cs)))"
  using counts_add_req by (cases op) (auto simp: counts_def add_cancel_id_def found_error_def)

lemma counts_ops: "counts (\<lambda>k. \<Sum>op\<leftarrow>ops. op_cost op k) e (fst (fold op_reqs ops (e, cs)))"
proof (induction ops arbitrary: e cs)
  case Nil
  show ?case by (simp add: counts_def)
next
  case (Cons op ops)
  obtain e' cs' where s: "op_reqs op (e, cs) = (e', cs')" by fastforce
  have "counts (op_cost op) e e'" using counts_op [of op e cs] by (simp add: s)
  from counts_trans [OF this Cons.IH [of e' cs']] show ?case by (simp add: s)
qed

lemma counts_tx: "counts (tx_cost tx) e (fst (tx_reqs tx (e, cs)))"
proof -
  obtain e' cs' where s: "fold op_reqs (operations (stx tx)) (e, cs) = (e', cs')" by fastforce
  have "counts (\<lambda>k. \<Sum>op\<leftarrow>operations (stx tx). op_cost op k) e e'" using counts_ops [of "operations (stx tx)" e cs] by (simp add: s)
  from counts_trans [OF this counts_add_req [of NATIVE_ASSET "int (maxFee (stx tx))" e']] show ?thesis
    by (simp add: s tx_reqs_def tx_cost_def [abs_def] max_absorb2 cong: if_cong)
qed

lemma counts_txs: "counts (\<lambda>k. \<Sum>(_, tx)\<leftarrow>txs. tx_cost tx k) e (fst (fold (\<lambda>(_, tx). tx_reqs tx) txs (e, cs)))"
proof (induction txs arbitrary: e cs)
  case Nil
  show ?case by (simp add: counts_def)
next
  case (Cons p txs)
  obtain n tx where p: "p = (n, tx)" by fastforce
  obtain e' cs' where s: "tx_reqs tx (e, cs) = (e', cs')" by fastforce
  have "counts (tx_cost tx) e e'" using counts_tx [of tx e cs] by (simp add: s)
  from counts_trans [OF this Cons.IH [of e' cs']] show ?case by (simp add: p s)
qed

lemma compute_validity_covers:
  assumes run: "compute_validity db (e, cs) = Inr (e', cs')" and clean: "required_assets e = []" 
    and ok: "check_valid e' = Inr VALID_HAS_TXS" and dc: "\<not> double_cancel e'"
  shows "\<exists>i. db_lookup_user (fe_account e) db = Some i \<and> (\<forall>k. 0 < (\<Sum>(_, tx)\<leftarrow>fe_txs e. tx_cost tx k)
      \<longrightarrow> (\<Sum>(_, tx)\<leftarrow>fe_txs e. tx_cost tx k) \<le> db_lookup_available_balance i k db)"
proof -
  obtain e1 cs1 where f: "fold (\<lambda>(_, tx). tx_reqs tx) (fe_txs e) (e, cs) = (e1, cs1)" by fastforce
  have c: "counts (\<lambda>k. \<Sum>(_, tx)\<leftarrow>fe_txs e. tx_cost tx k) e e1" using counts_txs [of "fe_txs e" e cs] by (simp add: f)
  have ne: "\<not> found_error e'" using ok dc by (auto simp: check_valid_def found_error_def split: if_splits)
  have "\<not> found_error e" "\<not> reqs_computed e" "initialized e"
    using run ne by (auto simp: compute_validity_def compute_reqs_def log_reqs_checked_def found_error_def split: if_splits)
  then obtain i where i: "db_lookup_user (fe_account e) db = Some i"
    and e': "e' = log_reqs_checked (e1\<lparr>reqs_computed := True\<rparr>)"
    and cover: "\<not> list_ex (\<lambda>(asset, req). db_lookup_available_balance i asset db < req) (required_assets e1)"
    using run ne c by (auto simp: compute_validity_def compute_reqs_def f counts_def log_reqs_invalid_def found_error_def split: if_splits option.splits)
  have "\<not> found_error e1" using ne by (auto simp: e' log_reqs_checked_def found_error_def)
  then have req: "req_of k (required_assets e1) = (\<Sum>(_, tx)\<leftarrow>fe_txs e. tx_cost tx k)" for k
    using c clean by (simp add: counts_def req_of_def)
  have "(\<Sum>(_, tx)\<leftarrow>fe_txs e. tx_cost tx k) \<le> db_lookup_available_balance i k db" if "0 < (\<Sum>(_, tx)\<leftarrow>fe_txs e. tx_cost tx k)" for k
    using that cover unfolding req [symmetric] by (fastforce simp: req_of_def list_ex_iff split: option.splits dest: map_of_SomeD)
  then show ?thesis using i by blast
qed

lemma validate_entries_lookup:
  assumes "validate_entries db log cs = Inr (es, cs')" and "map_of es a = Some e'"
  shows "\<exists>e cs1 cs2. map_of log a = Some e \<and> compute_validity db (e, cs1) = Inr (e', cs2)"
  using assms
proof (induction log arbitrary: cs es)
  case (Cons p log)
  then show ?case by (cases p) (fastforce simp: bind_result_Inr split: if_splits)
qed simp

lemma sum_live:
  assumes "smap_ok ts" and "holds_live lst X ts"
  shows "(\<Sum>(_, tx)\<leftarrow>ts. f tx) = (\<Sum>t\<in>{t \<in> X. lst < seqno_of t}. f t)"
proof -
  have d: "distinct (map fst ts)" using assms(1) by (rule smap_ok_distinct)
  have in_ts: "(n, t) \<in> set ts \<longleftrightarrow> t \<in> X \<and> seqno_of t = n \<and> lst < n" for n t
    using assms(2) map_of_eq_Some_iff [OF d, of n t] by (simp add: holds_live_def)
  have "inj_on snd (set ts)" unfolding inj_on_def using in_ts by (metis prod.collapse)
  moreover have "snd ` set ts = {t \<in> X. lst < seqno_of t}" using in_ts by force
  ultimately have "(\<Sum>t\<in>{t \<in> X. lst < seqno_of t}. f t) = (\<Sum>p\<in>set ts. f (snd p))" using sum.reindex [of snd "set ts" f] by simp
  also have "\<dots> = (\<Sum>p\<leftarrow>ts. f (snd p))" using d by (intro sum.distinct_set_conv_list) (simp add: distinct_map)
  finally show ?thesis by (simp add: case_prod_unfold)
qed

text \<open>The offer ids that operations cancel, in order.\<close>

fun cancel_ids :: "'pk operation list \<Rightarrow> nat list" where
  "cancel_ids [] = []"
| "cancel_ids (CANCEL_SELL_OFFER op # ops) = can_offerId op # cancel_ids ops"
| "cancel_ids (_ # ops) = cancel_ids ops"

lemma op_cost_nonneg: "0 \<le> op_cost op k"
  by (cases op) simp_all

lemma ops_cost_nonneg: "0 \<le> (\<Sum>op\<leftarrow>ops. op_cost op k)"
  by (rule sum_list_nonneg) (auto simp: op_cost_nonneg)

definition accumulates :: "('pk, 'sig) account_filter_entry \<Rightarrow> bool" where
  "accumulates e \<longleftrightarrow> \<not> found_error e \<and> smap_ok (required_assets e) \<and> (\<forall>k. 0 \<le> req_of k (required_assets e))"

text \<open>Operations without overflow and without a repeated cancellation add up their costs.\<close>

lemma add_req_fits:
  assumes e: "accumulates e" and fits: "req_of asset (required_assets e) + max 0 amt < 2 ^ 63"
  shows "\<exists>R. add_req asset amt e = e\<lparr>required_assets := R\<rparr> \<and> smap_ok R
    \<and> (\<forall>k. req_of k R = req_of k (required_assets e) + (if k = asset then max 0 amt else 0))"
proof (cases "amt < 0")
  case True
  then show ?thesis using e by (intro exI [of _ "required_assets e"]) (simp add: add_req_def accumulates_def)
next
  case False
  let ?R = "smap_put asset (req_of asset (required_assets e) + amt) (required_assets e)"
  have "0 \<le> req_of asset (required_assets e)" using e by (simp add: accumulates_def)
  then have "in_i64 (amt + req_of asset (required_assets e))" using fits False by (simp add: in_i64_def)
  then show ?thesis using e False by (intro exI [of _ ?R]) (simp add: add_req_def accumulates_def Let_def req_of_def)
qed

lemma op_reqs_fits:
  assumes e: "accumulates e" and fits: "\<forall>k. req_of k (required_assets e) + op_cost op k < 2 ^ 63"
    and ids: "set (cancel_ids [op]) \<inter> consumed_cancel_ids e = {}"
  shows "\<exists>R cs'. op_reqs op (e, cs) = (e\<lparr>required_assets := R, consumed_cancel_ids := consumed_cancel_ids e \<union> set (cancel_ids [op])\<rparr>, cs')
    \<and> smap_ok R \<and> (\<forall>k. req_of k R = req_of k (required_assets e) + op_cost op k)"
proof -
  have same: "e\<lparr>consumed_cancel_ids := consumed_cancel_ids e\<rparr> = e" "e\<lparr>required_assets := required_assets e\<rparr> = e" by simp_all
  have fit: "\<exists>R. add_req asset amt e = e\<lparr>required_assets := R, consumed_cancel_ids := consumed_cancel_ids e\<rparr> \<and> smap_ok R
      \<and> (\<forall>k. req_of k R = req_of k (required_assets e) + (if k = asset then max 0 amt else 0))"
    if "op_cost op asset = max 0 amt" for asset amt
  proof -
    have "req_of asset (required_assets e) + max 0 amt < 2 ^ 63" using fits that by metis
    then obtain R where "add_req asset amt e = e\<lparr>required_assets := R\<rparr>" "smap_ok R"
        "\<forall>k. req_of k R = req_of k (required_assets e) + (if k = asset then max 0 amt else 0)"
      using add_req_fits [OF e] by blast
    then show ?thesis by (intro exI [of _ R]) simp
  qed
  show ?thesis
  proof (cases op)
    case (CREATE_ACCOUNT c)
    then show ?thesis using fit [of NATIVE_ASSET "startingBalance c"] by (fastforce simp: if_distrib)
  next
    case (CREATE_SELL_OFFER c)
    then show ?thesis using fit [of "sellAsset (cso_category c)" "cso_amount c"] by fastforce
  next
    case (CANCEL_SELL_OFFER c)
    then show ?thesis using e ids by (auto simp: add_cancel_id_def accumulates_def intro!: exI [of _ "required_assets e"])
  next
    case (PAYMENT c)
    then show ?thesis using fit [of "pay_asset c" "pay_amount c"] by fastforce
  next
    case (MONEY_PRINTER c)
    then show ?thesis using e by (auto simp: accumulates_def intro!: exI [of _ "required_assets e"])
  qed
qed

lemma ops_reqs_fit:
  "accumulates e \<Longrightarrow> \<forall>k. req_of k (required_assets e) + (\<Sum>op\<leftarrow>ops. op_cost op k) < 2 ^ 63 \<Longrightarrow> distinct (cancel_ids ops) \<Longrightarrow>
   set (cancel_ids ops) \<inter> consumed_cancel_ids e = {} \<Longrightarrow>
   \<exists>R cs'. fold op_reqs ops (e, cs) = (e\<lparr>required_assets := R, consumed_cancel_ids := consumed_cancel_ids e \<union> set (cancel_ids ops)\<rparr>, cs')
    \<and> smap_ok R \<and> (\<forall>k. req_of k R = req_of k (required_assets e) + (\<Sum>op\<leftarrow>ops. op_cost op k))"
proof (induction ops arbitrary: e cs)
  case Nil
  then show ?case by (auto simp: accumulates_def intro!: exI [of _ "required_assets e"])
next
  case (Cons op ops)
  have ids: "cancel_ids (op # ops) = cancel_ids [op] @ cancel_ids ops" by (cases op) simp_all
  have "req_of k (required_assets e) + op_cost op k < 2 ^ 63" for k
    using Cons.prems(2) ops_cost_nonneg [of k ops] by (auto dest!: spec [of _ k])
  then obtain R1 cs1 where r: "op_reqs op (e, cs) = (e\<lparr>required_assets := R1, consumed_cancel_ids := consumed_cancel_ids e \<union> set (cancel_ids [op])\<rparr>, cs1)"
      "smap_ok R1" "\<And>k. req_of k R1 = req_of k (required_assets e) + op_cost op k"
    using op_reqs_fits [OF Cons.prems(1), of op cs] Cons.prems(4) by (auto simp: ids Int_Un_distrib2)
  let ?e1 = "e\<lparr>required_assets := R1, consumed_cancel_ids := consumed_cancel_ids e \<union> set (cancel_ids [op])\<rparr>"
  have "accumulates ?e1" using Cons.prems(1) r(2,3) op_cost_nonneg by (auto simp: accumulates_def found_error_def intro!: add_nonneg_nonneg)
  moreover have "\<forall>k. req_of k (required_assets ?e1) + (\<Sum>op\<leftarrow>ops. op_cost op k) < 2 ^ 63" using Cons.prems(2) by (simp add: r(3) add.assoc)
  moreover have "distinct (cancel_ids ops)" "set (cancel_ids ops) \<inter> consumed_cancel_ids ?e1 = {}" using Cons.prems(3,4) by (auto simp: ids)
  ultimately obtain R cs' where "fold op_reqs ops (?e1, cs1) = (?e1\<lparr>required_assets := R, consumed_cancel_ids := consumed_cancel_ids ?e1 \<union> set (cancel_ids ops)\<rparr>, cs')"
      "smap_ok R" "\<And>k. req_of k R = req_of k R1 + (\<Sum>op\<leftarrow>ops. op_cost op k)"
    using Cons.IH [of ?e1 cs1] by auto
  then show ?case using r by (intro exI [of _ R] exI [of _ cs']) (simp add: ids Un_assoc add.assoc)
qed

text \<open>The requirements that are too high, in terms of the costs they add up.\<close>

lemma requirements_checked:
  assumes "smap_ok R" "\<forall>k. req_of k R = c k" "\<forall>k. 0 \<le> b k"
  shows "list_ex (\<lambda>(asset, req). b asset < req) R \<longleftrightarrow> (\<exists>k. b k < (c k :: int))"
proof -
  have d: "distinct (map fst R)" using assms(1) by (rule smap_ok_distinct)
  have "b k < c k \<longleftrightarrow> (\<exists>r. (k, r) \<in> set R \<and> b k < r)" for k
  proof (cases "map_of R k")
    case None
    then have "c k = 0" using assms(2) [rule_format, of k] by (simp add: req_of_def)
    moreover have "\<forall>r. (k, r) \<notin> set R" using None by (auto simp: map_of_eq_None_iff rev_image_eqI)
    ultimately show ?thesis using assms(3) [rule_format, of k] by simp
  next
    case (Some r)
    then have "c k = r" using assms(2) [rule_format, of k] by (simp add: req_of_def)
    moreover have "(k, r') \<in> set R \<longleftrightarrow> r' = r" for r' using Some map_of_eq_Some_iff [OF d, of k r'] by auto
    ultimately show ?thesis by simp
  qed
  then show ?thesis by (auto simp: list_ex_iff)
qed

lemma double_cancel_ops:
  "double_cancel e \<Longrightarrow> \<exists>S cs'. fold op_reqs ops (e, cs) = (e\<lparr>consumed_cancel_ids := S\<rparr>, cs')"
proof (induction ops arbitrary: e cs)
  case Nil
  show ?case by (auto intro!: exI [of _ "consumed_cancel_ids e"])
next
  case (Cons op ops)
  have "\<exists>S cs'. op_reqs op (e, cs) = (e\<lparr>consumed_cancel_ids := S\<rparr>, cs')"
    using Cons.prems by (cases op) (auto simp: add_req_def add_cancel_id_def found_error_def intro: exI [of _ "consumed_cancel_ids e"])
  then obtain S cs' where s: "op_reqs op (e, cs) = (e\<lparr>consumed_cancel_ids := S\<rparr>, cs')" by blast
  show ?case using Cons.IH [of "e\<lparr>consumed_cancel_ids := S\<rparr>" cs'] Cons.prems by (simp add: s)
qed

definition sample_payment :: "nat \<Rightarrow> int \<Rightarrow> (unit, unit) signed_transaction" where
  "sample_payment sn x = \<lparr>stx = \<lparr>metadata = \<lparr>sourceAccount = 7, sequenceNumber = sn\<rparr>,
     operations = [PAYMENT \<lparr>receiver = 8, pay_asset = 0, pay_amount = x\<rparr>], maxFee = 20\<rparr>, signature = ()\<rparr>"

lemma sample_committed: "committed_seq (sample_db sample_account) 7 = 0"
  by (simp add: committed_seq_def db_get_last_committed_seq_number_def get_last_committed_seq_number_def sample_account_def
      ut_produce_commitment_def ut_init_def)

lemma sample_sources: "\<forall>t\<in>X. source_of t = 7 \<Longrightarrow> sources_ok (sample_db sample_account) X"
  using sample_committed by (auto simp: sources_ok_def known_def committed_seq_def)

text \<open>
  A transaction from an account that does not exist marks its entry as already checked, and the check that follows throws.
\<close>

lemma unknown_source_aborts:
  "db_lookup_user (source_of tx) db = None \<Longrightarrow> add_txs db [[tx]] empty_filter = Inl (RuntimeError ''double check valid'')"
  by (simp add: add_txs_def empty_filter_def local_insert_def Let_def add_tx_def new_entry_def found_error_def log_reqs_invalid_def
      compute_validity_def)

section \<open>Properties\<close>

text \<open>
  Property C18. The filter is deterministic: however the transactions of a batch are distributed over the
  threads and in whatever order each thread adds its share, the filter accepts and rejects the
  same transactions. (Every source account exists; for one that does not, see
  \<open>unknown_source_aborts\<close>.)
\<close>

theorem filter_partition_independent:
  assumes "sources_ok db (set (concat parts))" and "set (concat parts') = set (concat parts)"
  shows "\<exists>fl fl'. add_txs db parts empty_filter = Inr fl \<and> add_txs db parts' empty_filter = Inr fl'
    \<and> (\<forall>tx. check_valid_tx tx fl = check_valid_tx tx fl')"
proof -
  obtain es where es: "merge_logs [] (map (\<lambda>part. fold (local_insert db) part []) parts) = Inr es"
    "log_collects db (by_source (set (concat parts))) es" using add_txs_collects [OF assms(1)] .
  obtain es' where es': "merge_logs [] (map (\<lambda>part. fold (local_insert db) part []) parts') = Inr es'"
    "log_collects db (by_source (set (concat parts))) es'"
    using add_txs_collects [of db parts'] assms by metis
  obtain vs vs' cs where v: "validate_entries db es [] = Inr (vs, cs)" "validate_entries db es' [] = Inr (vs', cs)"
    "list_all2 (\<lambda>(a, e) (b, e'). a = b \<and> same_verdict e e') vs vs'"
    using validate_entries_same [OF log_collects_same [OF es(2) es'(2)]] by blast
  have "check_valid_account a \<lparr>fl_entries = vs, created_counts = cs\<rparr> = check_valid_account a \<lparr>fl_entries = vs', created_counts = cs\<rparr>" for a
    using map_of_same [OF v(3), of a] same_verdict_check by (auto simp: check_valid_account_def option_rel_Some1 option_rel_Some2 split: option.splits)
  then have "check_valid_tx tx \<lparr>fl_entries = vs, created_counts = cs\<rparr> = check_valid_tx tx \<lparr>fl_entries = vs', created_counts = cs\<rparr>" for tx
    by (simp add: check_valid_tx_def cong: if_cong)
  then show ?thesis using es(1) es'(1) v(1,2) by (simp add: add_txs_def empty_filter_def)
qed

theorem filter_partition_independent_witness:
  "\<exists>fl fl'. add_txs (sample_db sample_account) [[sample_payment 256 5], [sample_payment 512 5, sample_payment 256 6]] empty_filter = Inr fl
    \<and> add_txs (sample_db sample_account) [[sample_payment 256 6, sample_payment 256 5, sample_payment 512 5]] empty_filter = Inr fl'
    \<and> (\<forall>tx. check_valid_tx tx fl = check_valid_tx tx fl')"
  by (rule filter_partition_independent) (auto simp: sample_payment_def intro: sample_sources)

text \<open>
  Property C19. An accepted account can pay for everything it submitted: if the filter returns
  \<open>VALID_HAS_TXS\<close> for an account and no offer was cancelled twice, then for every asset the amounts that all live
  transactions of the account may take (fees, payments, offers, new accounts) add up, without
  wrap-around, to at most its available balance.
\<close>

theorem filter_covers_costs:
  assumes "sources_ok db (set (concat parts))" and "add_txs db parts empty_filter = Inr fl"
    and "map_of (fl_entries fl) a = Some e" and "check_valid e = Inr VALID_HAS_TXS" and "\<not> double_cancel e"
    and "live = {t \<in> set (concat parts). source_of t = a \<and> committed_seq db a < seqno_of t}"
  shows "\<exists>i. db_lookup_user a db = Some i
    \<and> (\<forall>k. 0 < (\<Sum>t\<in>live. tx_cost t k) \<longrightarrow> (\<Sum>t\<in>live. tx_cost t k) \<le> db_lookup_available_balance i k db)"
proof -
  obtain es where es: "merge_logs [] (map (\<lambda>part. fold (local_insert db) part []) parts) = Inr es"
    "log_collects db (by_source (set (concat parts))) es" using add_txs_collects [OF assms(1)] .
  obtain cs where v: "validate_entries db es [] = Inr (fl_entries fl, cs)"
    using assms(2) es(1) by (auto simp: add_txs_def empty_filter_def bind_result_Inr)
  obtain e0 cs1 cs2 where e0: "map_of es a = Some e0" "compute_validity db (e0, cs1) = Inr (e, cs2)"
    using validate_entries_lookup [OF v assms(3)] by blast
  then have "collects (committed_seq db a) a (by_source (set (concat parts)) a) e0"
    using es(2) by (auto simp: log_collects_def dest!: spec [of _ a])
  then obtain n ts bad where c: "e0 = entry_of a n ts bad" "smap_ok ts"
    "bad = conflict (committed_seq db a) (by_source (set (concat parts)) a)" "bad \<or> holds_live (committed_seq db a) (by_source (set (concat parts)) a) ts"
    unfolding collects_def by blast
  have "\<not> bad" using e0(2) assms(4) by (auto simp: c(1) compute_validity_def log_reqs_checked_def check_valid_def split: if_splits)
  then have live: "holds_live (committed_seq db a) (by_source (set (concat parts)) a) ts" using c(4) by blast
  have sum: "(\<Sum>(_, tx)\<leftarrow>ts. tx_cost tx k) = (\<Sum>t\<in>live. tx_cost t k)" for k
  proof -
    have "live = {t \<in> by_source (set (concat parts)) a. committed_seq db a < seqno_of t}" by (auto simp: assms(6) by_source_def)
    then show ?thesis using sum_live [OF c(2) live, of "\<lambda>t. tx_cost t k"] by simp
  qed
  from compute_validity_covers [OF e0(2) _ assms(4,5)] show ?thesis by (simp add: c(1) sum)
qed

theorem filter_covers_costs_witness:
  "\<exists>fl e i. add_txs (sample_db sample_account) [[sample_payment 256 300]] empty_filter = Inr fl
    \<and> map_of (fl_entries fl) 7 = Some e \<and> check_valid e = Inr VALID_HAS_TXS \<and> db_lookup_user 7 (sample_db sample_account) = Some i
    \<and> 320 \<le> db_lookup_available_balance i 0 (sample_db sample_account)"
proof -
  let ?t = "sample_payment 256 300" let ?e = "(new_entry 7)\<lparr>min_seq_no := 0, fe_txs := [(256, sample_payment 256 300)], reqs_computed := True,
    required_assets := [(0, 320)], checked_reqs_cached := True\<rparr> :: (unit, unit) account_filter_entry"
  have lst: "db_get_last_committed_seq_number 0 (sample_db sample_account) = 0" using sample_committed by (simp add: committed_seq_def)
  have add: "add_tx (sample_db sample_account) ?t (new_entry 7) = entry_of 7 0 [(256, ?t)] False"
    by (simp add: add_tx_def new_entry_def found_error_def entry_of_def insert_tx_def lst) (simp add: sample_payment_def)
  have "compute_validity (sample_db sample_account) (entry_of 7 0 [(256, ?t)] False, []) = Inr (?e, [])"
    by (simp add: compute_validity_def compute_reqs_def tx_reqs_def)
      (simp add: sample_payment_def add_req_def found_error_def entry_of_def new_entry_def req_of_def in_i64_def NATIVE_ASSET_def
        db_lookup_available_balance_def ua_lookup_available_balance_def sample_account_def ra_lookup_available_balance_def log_reqs_checked_def Let_def)
  then have run: "add_txs (sample_db sample_account) [[?t]] empty_filter = Inr \<lparr>fl_entries = [(7, ?e)], created_counts = []\<rparr>"
    using add by (simp add: add_txs_def empty_filter_def local_insert_def Let_def) (simp add: sample_payment_def)
  have "\<exists>i. db_lookup_user 7 (sample_db sample_account) = Some i
    \<and> (\<forall>k. 0 < (\<Sum>t\<in>{?t}. tx_cost t k) \<longrightarrow> (\<Sum>t\<in>{?t}. tx_cost t k) \<le> db_lookup_available_balance i k (sample_db sample_account))"
    by (rule filter_covers_costs [OF _ run, of 7 ?e])
      (auto simp: sample_payment_def check_valid_def new_entry_def sample_committed intro: sample_sources)
  then show ?thesis using run
    by (auto simp: tx_cost_def sample_payment_def check_valid_def new_entry_def NATIVE_ASSET_def dest!: spec [of _ 0])
qed

text \<open>
  Property C38. Cancelling the same offer id twice hides costs: the flag \<open>double_cancel\<close> stops the accumulation
  of requirements and is then ignored by \<open>check_valid\<close>. For one new transaction of an existing account whose operations are \<open>before\<close>, then the first
  cancellation of an id that \<open>before\<close> cancels already, then \<open>after\<close> (the costs of \<open>before\<close> sum to
  less than \<open>2 ^ 63\<close> in every asset, and no balance is negative), the verdict depends on the costs of \<open>before\<close> only:
  the account is accepted exactly when it can pay for \<open>before\<close>, whatever the operations of \<open>after\<close> and the fee cost.
\<close>

theorem double_cancel_hides_costs:
  assumes "db_lookup_user (source_of tx) db = Some i" and "db_get_last_committed_seq_number i db < seqno_of tx"
    and "operations (stx tx) = before @ CANCEL_SELL_OFFER c # after" and "distinct (cancel_ids before)" and "can_offerId c \<in> set (cancel_ids before)"
    and "\<forall>k. (\<Sum>op\<leftarrow>before. op_cost op k) < 2 ^ 63" and "\<forall>k. 0 \<le> db_lookup_available_balance i k db"
  shows "\<exists>fl. add_txs db [[tx]] empty_filter = Inr fl \<and> check_valid_account (source_of tx) fl
    = Inr (if \<forall>k. (\<Sum>op\<leftarrow>before. op_cost op k) \<le> db_lookup_available_balance i k db then VALID_HAS_TXS else MISSING_REQUIREMENT)"
proof -
  define ok where "ok \<longleftrightarrow> (\<forall>k. (\<Sum>op\<leftarrow>before. op_cost op k) \<le> db_lookup_available_balance i k db)"
  let ?a = "source_of tx" let ?e0 = "entry_of ?a (db_get_last_committed_seq_number i db) [(seqno_of tx, tx)] False"
  have add: "add_tx db tx (new_entry ?a) = ?e0"
    using assms(1,2) by (simp add: add_tx_def new_entry_def found_error_def entry_of_def insert_tx_def)
  have "accumulates ?e0" by (simp add: accumulates_def req_of_def)
  then obtain R cs1 where r: "fold op_reqs before (?e0, []) = (?e0\<lparr>required_assets := R, consumed_cancel_ids := set (cancel_ids before)\<rparr>, cs1)"
      "smap_ok R" "\<forall>k. req_of k R = (\<Sum>op\<leftarrow>before. op_cost op k)"
    using ops_reqs_fit [of ?e0 before "[]"] assms(4,6) by (auto simp: req_of_def)
  let ?e1 = "?e0\<lparr>required_assets := R, consumed_cancel_ids := set (cancel_ids before), double_cancel := True\<rparr>"
  have "double_cancel ?e1" by simp
  from double_cancel_ops [OF this, of after cs1] obtain S cs
    where f: "fold op_reqs after (?e1, cs1) = (?e1\<lparr>consumed_cancel_ids := S\<rparr>, cs)" by blast
  let ?final = "?e1\<lparr>consumed_cancel_ids := S, reqs_computed := True\<rparr>"
  have "compute_reqs (?e0, []) = Inr (?final, cs)"
    using f r(1) assms(3,5) by (simp add: compute_reqs_def tx_reqs_def add_req_def add_cancel_id_def found_error_def)
  moreover have "list_ex (\<lambda>(asset, req). db_lookup_available_balance i asset db < req) R
      \<longleftrightarrow> \<not> ok"
    using requirements_checked [OF r(2,3) assms(7)] by (simp add: ok_def not_le)
  ultimately have "compute_validity db (?e0, []) = Inr (if ok then log_reqs_checked ?final else log_reqs_invalid ?final, cs)"
    using assms(1) by (cases ok) (simp_all add: compute_validity_def)
  then have "add_txs db [[tx]] empty_filter
      = Inr \<lparr>fl_entries = [(?a, if ok then log_reqs_checked ?final else log_reqs_invalid ?final)], created_counts = cs\<rparr>"
    by (simp add: add_txs_def empty_filter_def local_insert_def Let_def add del: if_split)
  then show ?thesis by (cases ok) (simp_all add: check_valid_account_def check_valid_def log_reqs_checked_def log_reqs_invalid_def flip: ok_def)
qed

definition twice_cancelling :: "unit operation list \<Rightarrow> unit operation list \<Rightarrow> (unit, unit) signed_transaction" where
  "twice_cancelling before after =
     (let cancel = CANCEL_SELL_OFFER \<lparr>can_category = \<lparr>sellAsset = 0, buyAsset = 1, cat_type = SELL\<rparr>, can_offerId = 5, can_minPrice = 1\<rparr>
      in \<lparr>stx = \<lparr>metadata = \<lparr>sourceAccount = 7, sequenceNumber = 256\<rparr>, operations = before @ [cancel, cancel] @ after, maxFee = 20\<rparr>, signature = ()\<rparr>)"

lemma sample_balance: "db_lookup_available_balance 0 k (sample_db sample_account) = (if k = 0 then 1000 else 0)"
  by (simp add: db_lookup_available_balance_def ua_lookup_available_balance_def sample_account_def ra_lookup_available_balance_def)

text \<open>A payment of 1000000 from a balance of 1000: accepted after the second cancellation, refused before it.\<close>

theorem double_cancel_hides_costs_witness:
  "(\<exists>fl. add_txs (sample_db sample_account) [[twice_cancelling [] [PAYMENT \<lparr>receiver = 8, pay_asset = 0, pay_amount = 1000000\<rparr>]]] empty_filter = Inr fl
     \<and> check_valid_account 7 fl = Inr VALID_HAS_TXS)
   \<and> (\<exists>fl. add_txs (sample_db sample_account) [[twice_cancelling [PAYMENT \<lparr>receiver = 8, pay_asset = 0, pay_amount = 1000000\<rparr>] []]] empty_filter = Inr fl
     \<and> check_valid_account 7 fl = Inr MISSING_REQUIREMENT)"
proof -
  let ?cancel = "\<lparr>can_category = \<lparr>sellAsset = 0, buyAsset = 1, cat_type = SELL\<rparr>, can_offerId = 5, can_minPrice = 1\<rparr>"
  have run: "\<exists>fl. add_txs (sample_db sample_account) [[twice_cancelling xs ys]] empty_filter = Inr fl
      \<and> check_valid_account 7 fl = Inr (if x \<le> 1000 then VALID_HAS_TXS else MISSING_REQUIREMENT)"
    if "\<forall>k. (\<Sum>op\<leftarrow>xs. op_cost op k) = (if k = 0 then x else 0)" "x < 2 ^ 63" "cancel_ids (xs @ [CANCEL_SELL_OFFER ?cancel]) = [5]" for xs ys x
  proof -
    have "(\<forall>k::nat. (if k = 0 then x else 0) \<le> (if k = 0 then 1000 else 0 :: int)) \<longleftrightarrow> x \<le> 1000" by auto
    then show ?thesis
      using double_cancel_hides_costs [of "twice_cancelling xs ys" "sample_db sample_account" 0 "xs @ [CANCEL_SELL_OFFER ?cancel]" ?cancel ys]
        sample_committed that
      by (simp add: twice_cancelling_def sample_balance committed_seq_def Let_def)
  qed
  have "\<exists>fl. add_txs (sample_db sample_account) [[twice_cancelling [] ys]] empty_filter = Inr fl \<and> check_valid_account 7 fl = Inr VALID_HAS_TXS" for ys
    using run [of "[]" 0 ys] by simp
  moreover have "\<exists>fl. add_txs (sample_db sample_account) [[twice_cancelling [PAYMENT \<lparr>receiver = 8, pay_asset = 0, pay_amount = 1000000\<rparr>] ys]] empty_filter
      = Inr fl \<and> check_valid_account 7 fl = Inr MISSING_REQUIREMENT" for ys
  proof -
    have "\<forall>k. (\<Sum>op\<leftarrow>[PAYMENT \<lparr>receiver = 8, pay_asset = 0, pay_amount = 1000000\<rparr>]. op_cost op k) = (if k = 0 then 1000000 else 0)"
      by (simp split: if_splits)
    from run [OF this, of ys] show ?thesis by simp
  qed
  ultimately show ?thesis by blast
qed

end
