(* ===== verification/Mempool.thy ===== *)
theory Mempool
  imports Memory_Database "HOL-Library.Multiset"
begin

text \<open>
  The mempool (\<^verbatim>\<open>mempool/mempool.{h,cc}\<close>, \<^verbatim>\<open>mempool/mempool_transaction_filter.cc\<close>,
  \<^verbatim>\<open>mempool/mempool_cleaner.cc\<close>, \<^verbatim>\<open>mempool/mempool_structures.h\<close>): chunks of transactions with flags for those that can be
  dropped, a buffer of new chunks, and two counters. Removal moves the last element into the hole. A chunk whose
  flags do not fit its transactions leads to an access out of range, which is undefined. The
  lemmas show that the operations, in the order \<^verbatim>\<open>MempoolStructures\<close> calls them, never do that, keep the counters exact and lose nothing but what they
  are asked to remove.
\<close>

section \<open>Chunks\<close>

record 'tx mempool_chunk =
  ch_txs :: "'tx list"
  confirmed_txs_to_remove :: "bool list"

definition new_chunk :: "'tx list \<Rightarrow> 'tx mempool_chunk" where
  "new_chunk txs = \<lparr>ch_txs = txs, confirmed_txs_to_remove = []\<rparr>"

definition swap_remove :: "nat \<Rightarrow> 'a list \<Rightarrow> 'a list" where
  "swap_remove i xs = butlast (xs[i := last xs])"

function remove_loop :: "nat \<Rightarrow> nat \<Rightarrow> 'tx mempool_chunk \<Rightarrow> (nat \<times> 'tx mempool_chunk) result" where
  "remove_loop num_removed i c =
     (if i < length (confirmed_txs_to_remove c)
      then (if confirmed_txs_to_remove c ! i
            then (if i < length (ch_txs c)
                  then remove_loop (u64 (num_removed + 1)) i
                         (c\<lparr>ch_txs := swap_remove i (ch_txs c), confirmed_txs_to_remove := swap_remove i (confirmed_txs_to_remove c)\<rparr>)
                  else Inl UndefinedBehaviour)
            else remove_loop num_removed (i + 1) c)
      else Inr (num_removed, c))"
  by pat_completeness auto

lemma length_swap_remove [simp]: "length (swap_remove i xs) = length xs - 1"
  by (simp add: swap_remove_def)

termination remove_loop
  by (relation "measure (\<lambda>(n, i, c). length (confirmed_txs_to_remove c) - i)") auto

declare remove_loop.simps [simp del]

definition ch_remove_confirmed_txs :: "'tx mempool_chunk \<Rightarrow> (nat \<times> 'tx mempool_chunk) result" where
  "ch_remove_confirmed_txs c = remove_loop 0 0 c"

function filter_loop :: "('tx \<Rightarrow> bool) \<Rightarrow> nat \<Rightarrow> nat \<Rightarrow> 'tx list \<Rightarrow> nat \<times> 'tx list" where
  "filter_loop check num_removed i txs =
     (if i < length txs
      then (if check (txs ! i) then filter_loop check (u64 (num_removed + 1)) i (swap_remove i txs)
            else filter_loop check num_removed (i + 1) txs)
      else (num_removed, txs))"
  by pat_completeness auto

termination filter_loop
  by (relation "measure (\<lambda>(p, n, i, txs). length txs - i)") auto

declare filter_loop.simps [simp del]

definition ch_filter :: "('tx \<Rightarrow> bool) \<Rightarrow> 'tx mempool_chunk \<Rightarrow> nat \<times> 'tx mempool_chunk" where
  "ch_filter check c = (case filter_loop check 0 0 (ch_txs c) of (n, txs) \<Rightarrow> (n, c\<lparr>ch_txs := txs\<rparr>))"

definition clear_confirmed_txs_bitmap :: "'tx mempool_chunk \<Rightarrow> 'tx mempool_chunk" where
  "clear_confirmed_txs_bitmap c = c\<lparr>confirmed_txs_to_remove := []\<rparr>"

definition set_confirmed_txs :: "bool list \<Rightarrow> 'tx mempool_chunk \<Rightarrow> 'tx mempool_chunk result" where
  "set_confirmed_txs bitmap c =
     (if length bitmap \<noteq> length (ch_txs c) then Inl (RuntimeError ''size mismatch: bitmap vs txs'')
      else Inr (c\<lparr>confirmed_txs_to_remove := bitmap\<rparr>))"

definition join_chunk :: "'tx mempool_chunk \<Rightarrow> 'tx mempool_chunk \<Rightarrow> 'tx mempool_chunk" where
  "join_chunk c other = \<lparr>ch_txs = ch_txs c @ ch_txs other,
     confirmed_txs_to_remove = confirmed_txs_to_remove c @ confirmed_txs_to_remove other\<rparr>"

text \<open>\<^verbatim>\<open>MempoolTransactionFilter::check_transaction\<close>: true to remove.\<close>

definition check_transaction :: "('pk, 't) memory_database \<Rightarrow> ('pk, 'sig) signed_transaction \<Rightarrow> bool" where
  "check_transaction db tx =
     (case db_lookup_user (sourceAccount (metadata (stx tx))) db of
        None \<Rightarrow> False
      | Some idx \<Rightarrow> db_get_last_committed_seq_number idx db \<ge> sequenceNumber (metadata (stx tx)))"

section \<open>The pool\<close>

record 'tx mempool =
  chunks :: "'tx mempool_chunk list"
  buffered_mempool :: "'tx mempool_chunk list"
  mempool_size :: nat
  buffer_size :: nat
  TARGET_CHUNK_SIZE :: nat
  MAX_MEMPOOL_SIZE :: nat

definition mempool_init :: "nat \<Rightarrow> nat \<Rightarrow> 'tx mempool" where
  "mempool_init target_chunk_size max_mempool_size =
     \<lparr>chunks = [], buffered_mempool = [], mempool_size = 0, buffer_size = 0,
      TARGET_CHUNK_SIZE = target_chunk_size, MAX_MEMPOOL_SIZE = max_mempool_size\<rparr>"

definition add_to_mempool_buffer_nolock :: "'tx list \<Rightarrow> 'tx mempool \<Rightarrow> 'tx mempool" where
  "add_to_mempool_buffer_nolock chunk mp =
     mp\<lparr>buffer_size := u64 (buffer_size mp + length chunk), buffered_mempool := buffered_mempool mp @ [new_chunk chunk]\<rparr>"

definition chunk_at :: "nat \<Rightarrow> 'tx list \<Rightarrow> nat \<Rightarrow> 'tx list" where
  "chunk_at target txs i =
     (let min_idx = i * target; max_idx = min (length txs) ((i + 1) * target) in drop min_idx (take max_idx txs))"

definition chunkify_and_add_to_mempool_buffer :: "'tx list \<Rightarrow> 'tx mempool \<Rightarrow> 'tx mempool result" where
  "chunkify_and_add_to_mempool_buffer txs mp =
     (if TARGET_CHUNK_SIZE mp = 0 then Inl UndefinedBehaviour
      else Inr (fold (\<lambda>i. add_to_mempool_buffer_nolock (chunk_at (TARGET_CHUNK_SIZE mp) txs i))
                  [0..<Suc (length txs div TARGET_CHUNK_SIZE mp)] mp))"

text \<open>The loop of \<^verbatim>\<open>push_mempool_buffer_to_mempool\<close>, by recursion on the buffered chunks.\<close>

fun push_loop :: "'tx mempool_chunk list \<Rightarrow> 'tx mempool \<Rightarrow> 'tx mempool" where
  "push_loop [] mp = mp\<lparr>buffered_mempool := []\<rparr>"
| "push_loop (c # cs) mp =
     (let cur_sz = mempool_size mp;
          mp1 = mp\<lparr>mempool_size := u64 (cur_sz + length (ch_txs c)), buffer_size := sub64 (buffer_size mp) (length (ch_txs c)),
                   chunks := chunks mp @ [c], buffered_mempool := cs\<rparr>
      in if cur_sz > MAX_MEMPOOL_SIZE mp then mp1 else push_loop cs mp1)"

definition push_mempool_buffer_to_mempool :: "'tx mempool \<Rightarrow> 'tx mempool" where
  "push_mempool_buffer_to_mempool mp = push_loop (buffered_mempool mp) mp"

text \<open>\<^verbatim>\<open>mempool[i+1] = std::move(mempool.back()); mempool.pop_back();\<close>\<close>

function join_loop :: "nat \<Rightarrow> nat \<Rightarrow> 'tx mempool_chunk list \<Rightarrow> 'tx mempool_chunk list" where
  "join_loop target i cs =
     (if i < length cs - 1
      then (if length (ch_txs (cs ! i)) + length (ch_txs (cs ! (i + 1))) < target
            then join_loop target i (swap_remove (i + 1) (cs[i := join_chunk (cs ! i) (cs ! (i + 1))]))
            else join_loop target (i + 1) cs)
      else cs)"
  by pat_completeness auto

termination join_loop
  by (relation "measure (\<lambda>(t, i, cs). length cs - i)") auto

declare join_loop.simps [simp del]

definition join_small_chunks :: "'tx mempool \<Rightarrow> 'tx mempool" where
  "join_small_chunks mp =
     (if chunks mp = [] then mp else mp\<lparr>chunks := join_loop (TARGET_CHUNK_SIZE mp) 0 (chunks mp)\<rparr>)"

definition log_tx_removal :: "nat \<Rightarrow> 'tx mempool \<Rightarrow> 'tx mempool" where
  "log_tx_removal removed_count mp = mp\<lparr>mempool_size := sub64 (mempool_size mp) removed_count\<rparr>"

fun remove_in_chunks :: "'tx mempool_chunk list \<Rightarrow> (nat \<times> 'tx mempool_chunk list) result" where
  "remove_in_chunks [] = Inr (0, [])"
| "remove_in_chunks (c # cs) =
     bind_result (ch_remove_confirmed_txs c) (\<lambda>(n, c').
       bind_result (remove_in_chunks cs) (\<lambda>(m, cs'). Inr (u64 (n + m), c' # cs')))"

definition remove_confirmed_txs :: "'tx mempool \<Rightarrow> 'tx mempool result" where
  "remove_confirmed_txs mp =
     bind_result (remove_in_chunks (chunks mp)) (\<lambda>(deleted, cs). Inr (log_tx_removal deleted (mp\<lparr>chunks := cs\<rparr>)))"

fun drop_loop :: "nat \<Rightarrow> nat \<Rightarrow> 'tx mempool_chunk list \<Rightarrow> nat \<times> 'tx mempool_chunk list" where
  "drop_loop num_to_drop dropped [] = (dropped, [])"
| "drop_loop num_to_drop dropped (c # cs) =
     (if dropped < num_to_drop then drop_loop num_to_drop (u64 (dropped + length (ch_txs c))) cs else (dropped, c # cs))"

definition drop_txs :: "nat \<Rightarrow> 'tx mempool \<Rightarrow> 'tx mempool" where
  "drop_txs num_to_drop mp =
     (case drop_loop num_to_drop 0 (chunks mp) of (dropped, cs) \<Rightarrow> log_tx_removal dropped (mp\<lparr>chunks := cs\<rparr>))"

text \<open>
  The background filter can be cancelled while it runs; \<open>go i\<close> says whether it got to chunk \<open>i\<close>.
\<close>

fun filter_chunks :: "('tx \<Rightarrow> bool) \<Rightarrow> (nat \<Rightarrow> bool) \<Rightarrow> nat \<Rightarrow> 'tx mempool_chunk list \<Rightarrow> nat \<times> 'tx mempool_chunk list" where
  "filter_chunks check go i [] = (0, [])"
| "filter_chunks check go i (c # cs) =
     (let (n, c') = (if go i then ch_filter check c else (0, c)); (m, cs') = filter_chunks check go (i + 1) cs
      in (u64 (n + m), c' # cs'))"

definition run_filter :: "('tx \<Rightarrow> bool) \<Rightarrow> (nat \<Rightarrow> bool) \<Rightarrow> 'tx mempool \<Rightarrow> 'tx mempool" where
  "run_filter check go mp =
     (case filter_chunks check go 0 (chunks mp) of (n, cs) \<Rightarrow> log_tx_removal n (mp\<lparr>chunks := cs\<rparr>))"

definition do_mempool_cleaning :: "'tx mempool \<Rightarrow> 'tx mempool result" where
  "do_mempool_cleaning mp = bind_result (remove_confirmed_txs mp) (\<lambda>mp'. Inr (join_small_chunks mp'))"

section \<open>Removal\<close>

lemma nth_swap_remove: "j < length xs - 1 \<Longrightarrow> i < length xs \<Longrightarrow> swap_remove i xs ! j = (if j = i then last xs else xs ! j)"
  by (simp add: swap_remove_def nth_butlast)

lemma mset_swap_remove:
  assumes "i < length xs"
  shows "add_mset (xs ! i) (mset (swap_remove i xs)) = mset xs"
proof -
  have "xs \<noteq> []" using assms by auto
  then obtain ys y where xs: "xs = ys @ [y]" by (metis append_butlast_last_id)
  show ?thesis
  proof (cases "i = length ys")
    case True
    then show ?thesis by (simp add: swap_remove_def xs)
  next
    case False
    then have i: "i < length ys" using assms xs by simp
    then have "swap_remove i xs = ys[i := y]" by (simp add: swap_remove_def xs list_update_append butlast_append)
    then show ?thesis using i by (simp add: xs mset_update nth_append)
  qed
qed

lemma zip_swap_remove: "length xs = length ys \<Longrightarrow> i < length xs \<Longrightarrow> zip (swap_remove i xs) (swap_remove i ys) = swap_remove i (zip xs ys)"
  by (rule nth_equalityI) (cases "xs = []"; cases "ys = []"; auto simp: nth_swap_remove last_zip)+

lemma flags_nth: "j < length xs - 1 \<Longrightarrow> i < length xs \<Longrightarrow> \<forall>k < i. \<not> xs ! k \<Longrightarrow> j < i \<Longrightarrow> \<not> swap_remove i xs ! j"
  by (simp add: nth_swap_remove)

lemma remove_loop_correct:
  assumes "length (confirmed_txs_to_remove c) = length (ch_txs c)" "\<forall>j < i. \<not> confirmed_txs_to_remove c ! j" "i \<le> length (ch_txs c)"
    "n + length (ch_txs c) < 2 ^ 64"
  shows "\<exists>c'. remove_loop n i c = Inr (n + size {#p \<in># mset (zip (ch_txs c) (confirmed_txs_to_remove c)). snd p#}, c')
    \<and> True \<notin> set (confirmed_txs_to_remove c')
    \<and> mset (ch_txs c') = image_mset fst {#p \<in># mset (zip (ch_txs c) (confirmed_txs_to_remove c)). \<not> snd p#}"
  using assms
proof (induction n i c rule: remove_loop.induct)
  case (1 n i c)
  let ?z = "zip (ch_txs c) (confirmed_txs_to_remove c)"
  consider "i \<ge> length (ch_txs c)" | "i < length (ch_txs c)" "confirmed_txs_to_remove c ! i" | "i < length (ch_txs c)" "\<not> confirmed_txs_to_remove c ! i"
    by linarith
  then show ?case
  proof cases
    case 1
    have all: "\<not> snd p" if "p \<in> set ?z" for p using that "1.prems" 1 by (auto simp: set_zip)
    have "{#p \<in># mset ?z. snd p#} = {#}" "{#p \<in># mset ?z. \<not> snd p#} = mset ?z"
      using all by (simp_all add: filter_mset_eq_conv)
    moreover have "True \<notin> set (confirmed_txs_to_remove c)" using "1.prems" 1 by (auto simp: in_set_conv_nth)
    moreover have "image_mset fst (mset ?z) = mset (ch_txs c)" using "1.prems"(1) by (metis map_fst_zip mset_map)
    ultimately show ?thesis using 1 "1.prems" by (subst remove_loop.simps) simp
  next
    case 2
    let ?c = "c\<lparr>ch_txs := swap_remove i (ch_txs c), confirmed_txs_to_remove := swap_remove i (confirmed_txs_to_remove c)\<rparr>"
    have z: "zip (ch_txs ?c) (confirmed_txs_to_remove ?c) = swap_remove i ?z" using "1.prems" 2 by (simp add: zip_swap_remove)
    have m: "mset ?z = add_mset (ch_txs c ! i, True) (mset (swap_remove i ?z))"
      using mset_swap_remove [of i ?z] "1.prems" 2 by simp
    have pre: "length (confirmed_txs_to_remove ?c) = length (ch_txs ?c)" "\<forall>j < i. \<not> confirmed_txs_to_remove ?c ! j" "i \<le> length (ch_txs ?c)"
      "n + 1 + length (ch_txs ?c) < 2 ^ 64"
      using "1.prems" 2 flags_nth [of _ "confirmed_txs_to_remove c" i] by auto
    have "remove_loop n i c = remove_loop (n + 1) i ?c"
      using "1.prems" 2 by (subst remove_loop.simps) simp
    moreover note "1.IH"(1) [OF _ 2(2) 2(1)]
    ultimately show ?thesis using "1.prems" 2 pre unfolding m by (simp add: z [simplified])
  next
    case 3
    have "remove_loop n i c = remove_loop n (i + 1) c" using "1.prems" 3 by (subst remove_loop.simps) simp
    moreover have "\<forall>j < i + 1. \<not> confirmed_txs_to_remove c ! j" using "1.prems"(2) 3 less_Suc_eq by auto
    ultimately show ?thesis using "1.IH"(2) "1.prems" 3 by simp
  qed
qed

lemma remove_loop_clean: "True \<notin> set (confirmed_txs_to_remove c) \<Longrightarrow> remove_loop n i c = Inr (n, c)"
proof (induction n i c rule: remove_loop.induct)
  case (1 n i c)
  have "\<not> confirmed_txs_to_remove c ! i" if "i < length (confirmed_txs_to_remove c)" using "1.prems" that nth_mem by fastforce
  then show ?case using "1.IH"(2) "1.prems" by (subst remove_loop.simps) auto
qed

text \<open>A chunk is ready for cleaning if its flags fit its transactions or none is set.\<close>

definition flags_ok :: "'tx mempool_chunk \<Rightarrow> bool" where
  "flags_ok c \<longleftrightarrow> length (confirmed_txs_to_remove c) = length (ch_txs c) \<or> True \<notin> set (confirmed_txs_to_remove c)"

definition flagged :: "'tx mempool_chunk \<Rightarrow> 'tx multiset" where
  "flagged c = image_mset fst {#p \<in># mset (zip (ch_txs c) (confirmed_txs_to_remove c)). snd p#}"

lemma flagged_clean: "True \<notin> set (confirmed_txs_to_remove c) \<Longrightarrow> flagged c = {#}"
proof -
  assume "True \<notin> set (confirmed_txs_to_remove c)"
  then have "{#p \<in># mset (zip (ch_txs c) (confirmed_txs_to_remove c)). snd p#} = {#}"
    by (auto simp: filter_mset_eq_conv dest: set_zip_rightD)
  then show ?thesis by (simp add: flagged_def)
qed

lemma remove_confirmed_chunk:
  assumes "flags_ok c" and "length (ch_txs c) < 2 ^ 64"
  shows "\<exists>c'. ch_remove_confirmed_txs c = Inr (size (flagged c), c') \<and> True \<notin> set (confirmed_txs_to_remove c')
    \<and> mset (ch_txs c') + flagged c = mset (ch_txs c)"
proof (cases "True \<in> set (confirmed_txs_to_remove c)")
  case True
  then have len: "length (confirmed_txs_to_remove c) = length (ch_txs c)" using assms(1) by (simp add: flags_ok_def)
  let ?z = "mset (zip (ch_txs c) (confirmed_txs_to_remove c))"
  obtain c' where c': "remove_loop 0 0 c = Inr (size {#p \<in># ?z. snd p#}, c')" "True \<notin> set (confirmed_txs_to_remove c')"
    "mset (ch_txs c') = image_mset fst {#p \<in># ?z. \<not> snd p#}"
    using remove_loop_correct [OF len, of 0 0] assms(2) by auto
  have "mset (ch_txs c') + flagged c = image_mset fst ({#p \<in># ?z. \<not> snd p#} + {#p \<in># ?z. snd p#})"
    by (simp only: c'(3) flagged_def image_mset_union)
  also have "{#p \<in># ?z. \<not> snd p#} + {#p \<in># ?z. snd p#} = ?z" using multiset_partition [of ?z snd] by (metis union_commute)
  also have "image_mset fst ?z = mset (ch_txs c)" using len by (metis map_fst_zip mset_map)
  finally show ?thesis using c' by (simp add: ch_remove_confirmed_txs_def flagged_def)
next
  case False
  then show ?thesis using remove_loop_clean [OF False] flagged_clean [OF False] by (simp add: ch_remove_confirmed_txs_def)
qed

lemma filter_loop_correct:
  assumes "\<forall>j < i. \<not> check (txs ! j)" "i \<le> length txs" "n + length txs < 2 ^ 64"
  shows "fst (filter_loop check n i txs) = n + size {#t \<in># mset txs. check t#}
    \<and> mset (snd (filter_loop check n i txs)) = {#t \<in># mset txs. \<not> check t#}"
  using assms
proof (induction check n i txs rule: filter_loop.induct)
  case (1 check n i txs)
  consider "i \<ge> length txs" | "i < length txs" "check (txs ! i)" | "i < length txs" "\<not> check (txs ! i)" by linarith
  then show ?case
  proof cases
    case 1
    then have "\<forall>t\<in>set txs. \<not> check t" using "1.prems" by (auto simp: in_set_conv_nth)
    then have "{#t \<in># mset txs. check t#} = {#}" "{#t \<in># mset txs. \<not> check t#} = mset txs" by (simp_all add: filter_mset_eq_conv)
    then show ?thesis using 1 by (subst filter_loop.simps, subst (2) filter_loop.simps) simp
  next
    case 2
    have m: "mset txs = add_mset (txs ! i) (mset (swap_remove i txs))" using mset_swap_remove [of i txs] 2 by simp
    have "filter_loop check n i txs = filter_loop check (n + 1) i (swap_remove i txs)"
      using "1.prems" 2 by (subst filter_loop.simps) simp
    moreover have "\<forall>j < i. \<not> check (swap_remove i txs ! j)" using "1.prems" 2 by (auto simp: nth_swap_remove)
    ultimately show ?thesis using "1.IH"(1) [OF 2] "1.prems" 2 unfolding m by simp
  next
    case 3
    have "filter_loop check n i txs = filter_loop check n (i + 1) txs" using 3 by (subst filter_loop.simps) simp
    moreover have "\<forall>j < i + 1. \<not> check (txs ! j)" using "1.prems"(1) 3 less_Suc_eq by auto
    ultimately show ?thesis using "1.IH"(2) "1.prems" 3 by simp
  qed
qed

section \<open>Contents of the pool\<close>

definition txs_of :: "'tx mempool_chunk list \<Rightarrow> 'tx multiset" where
  "txs_of cs = (\<Sum>c\<in>#mset cs. mset (ch_txs c))"

lemma txs_of_simps [simp]:
  "txs_of [] = {#}" "txs_of (c # cs) = mset (ch_txs c) + txs_of cs" "txs_of (cs @ ds) = txs_of cs + txs_of ds"
  by (simp_all add: txs_of_def)

definition clean :: "'tx mempool_chunk list \<Rightarrow> bool" where
  "clean cs \<longleftrightarrow> (\<forall>c\<in>set cs. True \<notin> set (confirmed_txs_to_remove c))"

lemma remove_in_chunks_correct:
  assumes "\<forall>c\<in>set cs. flags_ok c" and "size (txs_of cs) < 2 ^ 64"
  shows "\<exists>cs'. remove_in_chunks cs = Inr (size (\<Sum>c\<in>#mset cs. flagged c), cs') \<and> clean cs'
    \<and> txs_of cs' + (\<Sum>c\<in>#mset cs. flagged c) = txs_of cs"
  using assms
proof (induction cs)
  case Nil
  show ?case by (simp add: clean_def)
next
  case (Cons c cs)
  obtain c' where c: "ch_remove_confirmed_txs c = Inr (size (flagged c), c')" "True \<notin> set (confirmed_txs_to_remove c')"
    "mset (ch_txs c') + flagged c = mset (ch_txs c)"
    using remove_confirmed_chunk [of c] Cons.prems by auto
  obtain cs' where cs: "remove_in_chunks cs = Inr (size (\<Sum>c\<in>#mset cs. flagged c), cs')" "clean cs'"
    "txs_of cs' + (\<Sum>c\<in>#mset cs. flagged c) = txs_of cs"
    using Cons by auto
  have "size (flagged c) + size (\<Sum>c\<in>#mset cs. flagged c) \<le> size (txs_of (c # cs))"
    using c(3) cs(3) by (metis add_mono le_add2 size_union txs_of_simps(2))
  then have "u64 (size (flagged c) + size (\<Sum>c\<in>#mset cs. flagged c)) = size (flagged c) + size (\<Sum>c\<in>#mset cs. flagged c)"
    using Cons.prems(2) by (intro u64_id) linarith
  moreover have "txs_of (c' # cs') + (\<Sum>c\<in>#mset (c # cs). flagged c) = txs_of (c # cs)"
    using c(3) cs(3) by (simp add: ac_simps flip: c(3) cs(3))
  ultimately show ?case using c cs by (auto simp: clean_def)
qed

lemma swap_join:
  assumes "i < length cs - 1"
  defines "ds \<equiv> swap_remove (i + 1) (cs[i := join_chunk (cs ! i) (cs ! (i + 1))])"
  shows "txs_of ds = txs_of cs" and "clean cs \<Longrightarrow> clean ds"
proof -
  let ?j = "join_chunk (cs ! i) (cs ! (i + 1))" let ?cs = "cs[i := ?j]"
  have m: "add_mset (cs ! (i + 1)) (mset ds) = mset ?cs"
    using mset_swap_remove [of "i + 1" ?cs] assms by simp
  have u: "add_mset (cs ! i) (mset ?cs) = add_mset ?j (mset cs)"
    using assms by (simp add: mset_update)
  have "txs_of ds + mset (ch_txs (cs ! (i + 1))) + mset (ch_txs (cs ! i)) = txs_of cs + mset (ch_txs ?j)"
    using arg_cong [OF m, of "\<lambda>M. \<Sum>c\<in>#M. mset (ch_txs c)"] arg_cong [OF u, of "\<lambda>M. \<Sum>c\<in>#M. mset (ch_txs c)"]
    by (simp add: txs_of_def ac_simps)
  then show "txs_of ds = txs_of cs" by (simp add: join_chunk_def ac_simps)
  assume c: "clean cs"
  have "set ds \<subseteq> set ?cs" using arg_cong [OF m, of set_mset] by auto
  moreover have "clean ?cs" using c assms set_update_subset_insert [of cs i ?j]
    by (auto simp: clean_def join_chunk_def dest!: subsetD)
  ultimately show "clean ds" by (auto simp: clean_def)
qed

lemma join_loop_keeps:
  "txs_of (join_loop target i cs) = txs_of cs \<and> (clean cs \<longrightarrow> clean (join_loop target i cs))"
proof (induction target i cs rule: join_loop.induct)
  case (1 target i cs)
  then show ?case using swap_join [of i cs] by (subst join_loop.simps, subst (2) join_loop.simps) auto
qed

lemma join_loop_full:
  assumes "\<forall>j < i. target \<le> length (ch_txs (cs ! j)) + length (ch_txs (cs ! (j + 1)))"
  shows "\<forall>j < length (join_loop target i cs) - 1.
    target \<le> length (ch_txs (join_loop target i cs ! j)) + length (ch_txs (join_loop target i cs ! (j + 1)))"
  using assms
proof (induction target i cs rule: join_loop.induct)
  case (1 target i cs)
  show ?case
  proof (cases "i < length cs - 1")
    case False
    then show ?thesis using "1.prems" by (subst join_loop.simps, subst (2) join_loop.simps, subst (3) join_loop.simps) auto
  next
    case i: True
    let ?ds = "swap_remove (i + 1) (cs[i := join_chunk (cs ! i) (cs ! (i + 1))])"
    show ?thesis
    proof (cases "length (ch_txs (cs ! i)) + length (ch_txs (cs ! (i + 1))) < target")
      case True
      have "target \<le> length (ch_txs (?ds ! j)) + length (ch_txs (?ds ! (j + 1)))" if j: "j < i" for j
      proof -
        have "?ds ! j = cs ! j" using i j by (simp add: nth_swap_remove)
        moreover have "?ds ! (j + 1) = (if j + 1 = i then join_chunk (cs ! i) (cs ! (i + 1)) else cs ! (j + 1))"
          using i j by (simp add: nth_swap_remove)
        ultimately show ?thesis using "1.prems" j by (auto simp: join_chunk_def dest: spec [of _ j])
      qed
      moreover have "join_loop target i cs = join_loop target i ?ds" using i True by (subst join_loop.simps) simp
      ultimately show ?thesis using "1.IH"(1) [OF i True] by simp
    next
      case False
      have "join_loop target i cs = join_loop target (i + 1) cs" using i False by (subst join_loop.simps) simp
      moreover have "\<forall>j < i + 1. target \<le> length (ch_txs (cs ! j)) + length (ch_txs (cs ! (j + 1)))"
        using "1.prems" False less_Suc_eq by auto
      ultimately show ?thesis using "1.IH"(2) [OF i False] by simp
    qed
  qed
qed

section \<open>The operations, as the rest of the system calls them\<close>

text \<open>
  Block production flags transactions of the chunks it reached (\<open>sel i j\<close> for transaction \<open>j\<close> of chunk
  \<open>i\<close>) and starts the cleaner, which removes and then joins.
\<close>

fun flag_chunks :: "(nat \<Rightarrow> bool) \<Rightarrow> (nat \<Rightarrow> nat \<Rightarrow> bool) \<Rightarrow> nat \<Rightarrow> 'tx mempool_chunk list \<Rightarrow> 'tx mempool_chunk list result" where
  "flag_chunks reached sel i [] = Inr []"
| "flag_chunks reached sel i (c # cs) =
     bind_result (if reached i then set_confirmed_txs (map (sel i) [0..<length (ch_txs c)]) c else Inr c) (\<lambda>c'.
       bind_result (flag_chunks reached sel (i + 1) cs) (\<lambda>cs'. Inr (c' # cs')))"

datatype 'tx pool_op =
    Add "'tx list" | Push | Produce "nat \<Rightarrow> bool" "nat \<Rightarrow> nat \<Rightarrow> bool" | Clean | Filter "'tx \<Rightarrow> bool" "nat \<Rightarrow> bool" | Drop nat

fun pool_step :: "'tx pool_op \<Rightarrow> 'tx mempool \<Rightarrow> 'tx mempool result" where
  "pool_step (Add txs) mp = chunkify_and_add_to_mempool_buffer txs mp"
| "pool_step Push mp = Inr (push_mempool_buffer_to_mempool mp)"
| "pool_step (Produce reached sel) mp =
     bind_result (flag_chunks reached sel 0 (chunks mp)) (\<lambda>cs. do_mempool_cleaning (mp\<lparr>chunks := cs\<rparr>))"
| "pool_step Clean mp = do_mempool_cleaning mp"
| "pool_step (Filter check go) mp = Inr (run_filter check go mp)"
| "pool_step (Drop n) mp = Inr (drop_txs n mp)"

text \<open>What an operation adds and what it removes.\<close>

fun added :: "'tx pool_op \<Rightarrow> 'tx multiset" where
  "added (Add txs) = mset txs" | "added _ = {#}"

fun flagged_from :: "(nat \<Rightarrow> bool) \<Rightarrow> (nat \<Rightarrow> nat \<Rightarrow> bool) \<Rightarrow> nat \<Rightarrow> 'tx mempool_chunk list \<Rightarrow> 'tx multiset" where
  "flagged_from reached sel i [] = {#}"
| "flagged_from reached sel i (c # cs) =
     (if reached i then mset (map ((!) (ch_txs c)) (filter (sel i) [0..<length (ch_txs c)])) else {#}) + flagged_from reached sel (i + 1) cs"

fun filtered_from :: "('tx \<Rightarrow> bool) \<Rightarrow> (nat \<Rightarrow> bool) \<Rightarrow> nat \<Rightarrow> 'tx mempool_chunk list \<Rightarrow> 'tx multiset" where
  "filtered_from check go i [] = {#}"
| "filtered_from check go i (c # cs) =
     (if go i then {#t \<in># mset (ch_txs c). check t#} else {#}) + filtered_from check go (i + 1) cs"

fun removed :: "'tx pool_op \<Rightarrow> 'tx mempool \<Rightarrow> 'tx multiset" where
  "removed (Produce reached sel) mp = flagged_from reached sel 0 (chunks mp)"
| "removed (Filter check go) mp = filtered_from check go 0 (chunks mp)"
| "removed (Drop n) mp = txs_of (chunks mp) - txs_of (snd (drop_loop n 0 (chunks mp)))"
| "removed _ mp = {#}"

definition pool_txs :: "'tx mempool \<Rightarrow> 'tx multiset" where
  "pool_txs mp = txs_of (chunks mp) + txs_of (buffered_mempool mp)"

definition pool_ok :: "'tx mempool \<Rightarrow> bool" where
  "pool_ok mp \<longleftrightarrow> 0 < TARGET_CHUNK_SIZE mp \<and> mempool_size mp = size (txs_of (chunks mp))
     \<and> buffer_size mp = size (txs_of (buffered_mempool mp)) \<and> clean (chunks mp) \<and> clean (buffered_mempool mp)"

lemma sub64_add [simp]: "b < 2 ^ 64 \<Longrightarrow> a + b < 2 ^ 64 \<Longrightarrow> sub64 (a + b) b = a"
  by (simp add: sub64_def)

lemma flag_chunks_correct:
  "clean cs \<Longrightarrow> \<exists>cs'. flag_chunks reached sel i cs = Inr cs' \<and> (\<forall>c\<in>set cs'. flags_ok c) \<and> txs_of cs' = txs_of cs
     \<and> (\<Sum>c\<in>#mset cs'. flagged c) = flagged_from reached sel i cs"
proof (induction cs arbitrary: i)
  case (Cons c cs)
  obtain cs' where cs: "flag_chunks reached sel (i + 1) cs = Inr cs'" "\<forall>c\<in>set cs'. flags_ok c" "txs_of cs' = txs_of cs"
    "(\<Sum>c\<in>#mset cs'. flagged c) = flagged_from reached sel (i + 1) cs"
    using Cons.IH [of "i + 1"] Cons.prems by (auto simp: clean_def)
  let ?c = "c\<lparr>confirmed_txs_to_remove := map (sel i) [0..<length (ch_txs c)]\<rparr>"
  have "zip (ch_txs c) (map (sel i) [0..<length (ch_txs c)]) = map (\<lambda>j. (ch_txs c ! j, sel i j)) [0..<length (ch_txs c)]"
    by (rule nth_equalityI) simp_all
  then have f: "flagged ?c = mset (map ((!) (ch_txs c)) (filter (sel i) [0..<length (ch_txs c)]))"
    by (simp add: flagged_def filter_map comp_def flip: mset_filter mset_map)
  have "flagged c = {#}" using Cons.prems by (simp add: flagged_clean clean_def)
  then show ?case using cs f Cons.prems by (auto simp: set_confirmed_txs_def flags_ok_def clean_def)
qed simp

lemma cleaning_correct:
  assumes "\<forall>c\<in>set (chunks mp). flags_ok c" and "mempool_size mp = size (txs_of (chunks mp))" and "size (txs_of (chunks mp)) < 2 ^ 64"
  shows "\<exists>mp'. do_mempool_cleaning mp = Inr mp' \<and> clean (chunks mp') \<and> mempool_size mp' = size (txs_of (chunks mp'))
    \<and> txs_of (chunks mp') + (\<Sum>c\<in>#mset (chunks mp). flagged c) = txs_of (chunks mp)
    \<and> buffered_mempool mp' = buffered_mempool mp \<and> buffer_size mp' = buffer_size mp \<and> TARGET_CHUNK_SIZE mp' = TARGET_CHUNK_SIZE mp"
proof -
  obtain cs where r: "remove_in_chunks (chunks mp) = Inr (size (\<Sum>c\<in>#mset (chunks mp). flagged c), cs)" "clean cs"
    and t: "txs_of cs + (\<Sum>c\<in>#mset (chunks mp). flagged c) = txs_of (chunks mp)"
    using remove_in_chunks_correct [OF assms(1,3)] by blast
  have "size (txs_of cs) + size (\<Sum>c\<in>#mset (chunks mp). flagged c) = mempool_size mp" by (simp add: assms(2) flip: t)
  then have "sub64 (mempool_size mp) (size (\<Sum>c\<in>#mset (chunks mp). flagged c)) = size (txs_of cs)"
    using assms(2,3) sub64_add by (metis add_lessD1 add.commute)
  then show ?thesis using r t join_loop_keeps [of _ 0 cs]
    by (auto simp: do_mempool_cleaning_def remove_confirmed_txs_def log_tx_removal_def join_small_chunks_def)
qed

lemma txs_of_chunkify: "txs_of (map (\<lambda>i. new_chunk (chunk_at t txs i)) [0..<n]) = mset (take (n * t) txs)"
proof (induction n)
  case (Suc n)
  have "chunk_at t txs n = take t (drop (n * t) txs)"
    by (simp add: chunk_at_def Let_def drop_take min_def)
  then have "take (Suc n * t) txs = take (n * t) txs @ chunk_at t txs n"
    using take_add [of "n * t" t txs] by (simp add: add.commute)
  then show ?case using Suc by (simp add: new_chunk_def)
qed simp

lemma add_fold:
  assumes "size (txs_of (map (\<lambda>i. new_chunk (f i)) is)) + buffer_size mp < 2 ^ 64"
  shows "fold (\<lambda>i. add_to_mempool_buffer_nolock (f i)) is mp
    = mp\<lparr>buffered_mempool := buffered_mempool mp @ map (\<lambda>i. new_chunk (f i)) is,
         buffer_size := buffer_size mp + size (txs_of (map (\<lambda>i. new_chunk (f i)) is))\<rparr>"
  using assms by (induction "is" arbitrary: mp) (simp_all add: add_to_mempool_buffer_nolock_def new_chunk_def add.commute add.left_commute)

lemma push_loop_correct:
  assumes "mempool_size mp = size (txs_of (chunks mp))" "buffer_size mp = size (txs_of cs)" "size (txs_of (chunks mp)) + size (txs_of cs) < 2 ^ 64"
    "clean (chunks mp)" "clean cs"
  shows "mempool_size (push_loop cs mp) = size (txs_of (chunks (push_loop cs mp)))
    \<and> buffer_size (push_loop cs mp) = size (txs_of (buffered_mempool (push_loop cs mp)))
    \<and> txs_of (chunks (push_loop cs mp)) + txs_of (buffered_mempool (push_loop cs mp)) = txs_of (chunks mp) + txs_of cs
    \<and> clean (chunks (push_loop cs mp)) \<and> clean (buffered_mempool (push_loop cs mp)) \<and> TARGET_CHUNK_SIZE (push_loop cs mp) = TARGET_CHUNK_SIZE mp"
  using assms
proof (induction cs arbitrary: mp)
  case (Cons c cs)
  let ?mp = "mp\<lparr>mempool_size := u64 (mempool_size mp + length (ch_txs c)), buffer_size := sub64 (buffer_size mp) (length (ch_txs c)),
                   chunks := chunks mp @ [c], buffered_mempool := cs\<rparr>"
  have "sub64 (buffer_size mp) (length (ch_txs c)) = size (txs_of cs)"
    using Cons.prems sub64_add [of "length (ch_txs c)" "size (txs_of cs)"] by (simp add: add.commute)
  moreover have "u64 (mempool_size mp + length (ch_txs c)) = size (txs_of (chunks mp @ [c]))" using Cons.prems by simp
  ultimately have pre: "mempool_size ?mp = size (txs_of (chunks ?mp))" "buffer_size ?mp = size (txs_of cs)"
    "size (txs_of (chunks ?mp)) + size (txs_of cs) < 2 ^ 64" "clean (chunks ?mp)" "clean cs"
    using Cons.prems by (simp_all add: clean_def)
  have same: "txs_of (chunks ?mp) + txs_of cs = txs_of (chunks mp) + txs_of (c # cs)" by simp
  show ?case
  proof (cases "mempool_size mp > MAX_MEMPOOL_SIZE mp")
    case True
    then have "push_loop (c # cs) mp = ?mp" by (simp add: Let_def)
    then show ?thesis using pre same by simp
  next
    case False
    then have "push_loop (c # cs) mp = push_loop cs ?mp" by (simp add: Let_def)
    then show ?thesis using Cons.IH [OF pre] same by simp
  qed
qed simp

lemma filter_chunks_correct:
  assumes "size (txs_of cs) < 2 ^ 64" and "clean cs"
  shows "fst (filter_chunks check go i cs) = size (filtered_from check go i cs)
    \<and> txs_of (snd (filter_chunks check go i cs)) + filtered_from check go i cs = txs_of cs \<and> clean (snd (filter_chunks check go i cs))"
  using assms
proof (induction cs arbitrary: i)
  case (Cons c cs)
  obtain n txs where f: "filter_loop check 0 0 (ch_txs c) = (n, txs)" by fastforce
  have n: "n = size {#t \<in># mset (ch_txs c). check t#}" "mset txs = {#t \<in># mset (ch_txs c). \<not> check t#}"
    using filter_loop_correct [of 0 check "ch_txs c" 0] Cons.prems by (simp_all add: f)
  have split: "mset txs + {#t \<in># mset (ch_txs c). check t#} = mset (ch_txs c)" using multiset_partition [of "mset (ch_txs c)" check] n(2) by (simp add: ac_simps)
  have IH: "fst (filter_chunks check go (i + 1) cs) = size (filtered_from check go (i + 1) cs)"
    "txs_of (snd (filter_chunks check go (i + 1) cs)) + filtered_from check go (i + 1) cs = txs_of cs" "clean (snd (filter_chunks check go (i + 1) cs))"
    using Cons by (auto simp: clean_def)
  have le: "size {#t \<in># mset (ch_txs c). check t#} + size (filtered_from check go (i + 1) cs) < 2 ^ 64"
    using Cons.prems(1) arg_cong [OF split, of size] arg_cong [OF IH(2), of size] by simp
  have le2: "size (filtered_from check go (i + 1) cs) < 2 ^ 64" using le by simp
  obtain m cs' where r: "filter_chunks check go (i + 1) cs = (m, cs')" by fastforce
  note IH' = IH [unfolded r fst_conv snd_conv]
  show ?case
  proof (cases "go i")
    case True
    have "txs_of (c\<lparr>ch_txs := txs\<rparr> # cs') + filtered_from check go i (c # cs)
        = (mset txs + {#t \<in># mset (ch_txs c). check t#}) + (txs_of cs' + filtered_from check go (i + 1) cs)"
      using True by (simp add: ac_simps)
    then show ?thesis using True r IH' le n(1) Cons.prems(2) unfolding split IH'(2) by (simp add: ch_filter_def f clean_def)
  next
    case False
    then show ?thesis using r IH' le2 Cons.prems(2) by (simp add: clean_def)
  qed
qed (simp add: clean_def)

lemma drop_loop_correct:
  assumes "d + size (txs_of cs) < 2 ^ 64" and "clean cs"
  shows "fst (drop_loop n d cs) + size (txs_of (snd (drop_loop n d cs))) = d + size (txs_of cs)
    \<and> txs_of (snd (drop_loop n d cs)) \<subseteq># txs_of cs \<and> clean (snd (drop_loop n d cs))"
  using assms
proof (induction n d cs rule: drop_loop.induct)
  case (2 n d c cs)
  then show ?case by (auto simp: clean_def intro: subset_mset.order_trans)
qed simp

section \<open>Properties\<close>

text \<open>
  Property C26. Every operation of the mempool runs without touching a position that does not
  exist, keeps both size counters equal to the number of stored transactions, and changes the stored
  transactions by exactly what it is asked to: a batch is added once, block production removes exactly the
  flagged transactions, the filter exactly the stale ones it reached, cleaning, joining and pushing the buffer nothing.
\<close>

theorem mempool_step_exact:
  assumes "pool_ok mp" and "size (pool_txs mp) + size (added op) < 2 ^ 64"
  shows "\<exists>mp'. pool_step op mp = Inr mp' \<and> pool_ok mp' \<and> pool_txs mp' + removed op mp = pool_txs mp + added op"
proof -
  have ok: "0 < TARGET_CHUNK_SIZE mp" "mempool_size mp = size (txs_of (chunks mp))" "buffer_size mp = size (txs_of (buffered_mempool mp))"
    "clean (chunks mp)" "clean (buffered_mempool mp)" and sz: "size (txs_of (chunks mp)) + size (txs_of (buffered_mempool mp)) + size (added op) < 2 ^ 64"
    using assms by (simp_all add: pool_ok_def pool_txs_def)
  have fl: "\<forall>c\<in>set (chunks mp). flags_ok c" using ok(4) by (simp add: clean_def flags_ok_def)
  show ?thesis
  proof (cases op)
    case (Add txs)
    let ?t = "TARGET_CHUNK_SIZE mp"
    let ?new = "map (\<lambda>i. new_chunk (chunk_at ?t txs i)) [0..<Suc (length txs div ?t)]"
    have "length txs \<le> Suc (length txs div ?t) * ?t" using ok(1) by (metis dividend_less_div_times less_imp_le add.commute mult_Suc)
    then have new: "txs_of ?new = mset txs" using txs_of_chunkify [of ?t txs "Suc (length txs div ?t)"] by (simp only: take_all)
    have "pool_step op mp = Inr (mp\<lparr>buffered_mempool := buffered_mempool mp @ ?new, buffer_size := buffer_size mp + size (txs_of ?new)\<rparr>)"
      using ok(1,3) sz new add_fold [of "chunk_at ?t txs" "[0..<Suc (length txs div ?t)]" mp]
      by (simp only: Add pool_step.simps chunkify_and_add_to_mempool_buffer_def added.simps size_mset) simp
    moreover have "clean ?new" by (simp add: clean_def new_chunk_def)
    ultimately show ?thesis using ok new Add by (auto simp: pool_ok_def pool_txs_def clean_def simp del: upt_Suc)
  next
    case Push
    then show ?thesis using push_loop_correct [OF ok(2,3) _ ok(4,5)] sz ok(1)
      by (auto simp: push_mempool_buffer_to_mempool_def pool_ok_def pool_txs_def)
  next
    case (Produce reached sel)
    obtain cs where cs: "flag_chunks reached sel 0 (chunks mp) = Inr cs" "\<forall>c\<in>set cs. flags_ok c" "txs_of cs = txs_of (chunks mp)"
      "(\<Sum>c\<in>#mset cs. flagged c) = flagged_from reached sel 0 (chunks mp)"
      using flag_chunks_correct [OF ok(4)] by blast
    then show ?thesis using cleaning_correct [of "mp\<lparr>chunks := cs\<rparr>"] ok sz Produce
      by (auto simp: pool_ok_def pool_txs_def ac_simps)
  next
    case Clean
    have none: "(\<Sum>c\<in>#mset (chunks mp). flagged c) = {#}" using ok(4) by (simp add: clean_def flagged_clean)
    show ?thesis using cleaning_correct [OF fl ok(2), unfolded none] ok sz Clean by (auto simp: pool_ok_def pool_txs_def)
  next
    case (Filter check go)
    obtain n cs where r: "filter_chunks check go 0 (chunks mp) = (n, cs)" by fastforce
    have f: "n = size (filtered_from check go 0 (chunks mp))" "txs_of cs + filtered_from check go 0 (chunks mp) = txs_of (chunks mp)" "clean cs"
      using filter_chunks_correct [of "chunks mp" check go 0] ok sz by (simp_all add: r)
    have "sub64 (mempool_size mp) n = size (txs_of cs)"
      using f(1) arg_cong [OF f(2), of size] ok(2) sz sub64_add [of n "size (txs_of cs)"] by simp
    moreover have "txs_of cs + txs_of (buffered_mempool mp) + filtered_from check go 0 (chunks mp) = pool_txs mp"
      by (simp add: pool_txs_def ac_simps flip: f(2))
    ultimately show ?thesis using f ok Filter by (simp add: run_filter_def r log_tx_removal_def pool_ok_def pool_txs_def)
  next
    case (Drop n)
    obtain d cs where r: "drop_loop n 0 (chunks mp) = (d, cs)" by fastforce
    have f: "d + size (txs_of cs) = size (txs_of (chunks mp))" "txs_of cs \<subseteq># txs_of (chunks mp)" "clean cs"
      using drop_loop_correct [of 0 "chunks mp" n] ok sz by (simp_all add: r)
    have "sub64 (mempool_size mp) d = size (txs_of cs)"
      using f(1) ok(2) sz sub64_add [of d "size (txs_of cs)"] by (simp add: add.commute)
    moreover have "txs_of cs + txs_of (buffered_mempool mp) + (txs_of (chunks mp) - txs_of cs)
        = (txs_of cs + (txs_of (chunks mp) - txs_of cs)) + txs_of (buffered_mempool mp)" by (simp only: ac_simps)
    moreover have "txs_of cs + (txs_of (chunks mp) - txs_of cs) = txs_of (chunks mp)" using f(2) by simp
    ultimately show ?thesis using f ok Drop by (simp add: drop_txs_def r log_tx_removal_def pool_ok_def pool_txs_def)
  qed
qed

theorem mempool_step_exact_witness:
  "\<exists>mp'. pool_step (Produce (\<lambda>_. True) (\<lambda>_ j. j = 0)) (push_mempool_buffer_to_mempool (add_to_mempool_buffer_nolock [1::nat, 2, 3] (mempool_init 4 100)))
       = Inr mp' \<and> pool_ok mp' \<and> pool_txs mp' + {#1#} = {#1, 2, 3#}"
proof -
  let ?mp = "push_mempool_buffer_to_mempool (add_to_mempool_buffer_nolock [1::nat, 2, 3] (mempool_init 4 100))"
  have mp: "?mp = (mempool_init 4 100)\<lparr>chunks := [new_chunk [1, 2, 3]], mempool_size := 3\<rparr>"
    by (simp add: push_mempool_buffer_to_mempool_def add_to_mempool_buffer_nolock_def mempool_init_def new_chunk_def Let_def sub64_def)
  have "pool_ok ?mp" unfolding mp by (simp add: pool_ok_def mempool_init_def new_chunk_def clean_def)
  moreover have "removed (Produce (\<lambda>_. True) (\<lambda>_ j. j = 0)) ?mp = {#1#}" "pool_txs ?mp = {#1, 2, 3#}"
    unfolding mp by (simp_all add: mempool_init_def new_chunk_def pool_txs_def upt_rec)
  ultimately show ?thesis using mempool_step_exact [of ?mp "Produce (\<lambda>_. True) (\<lambda>_ j. j = 0)"] by simp
qed

end
