(* ===== verification/Block_Processing.thy ===== *)
theory Block_Processing
  imports Transaction_Processor Offer_Book Mempool
begin

text \<open>
  Block production from the mempool and block validation (\<^verbatim>\<open>block_processing/block_producer.cc\<close>,
  \<^verbatim>\<open>block_processing/block_validator.cc\<close>). The tasks of the parallel loops run one after the other in an order that is an argument;
  every task names the thread-local processor it uses. The atomic counters that reserve space in the block
  are also modelled step by step, for any interleaving of threads. The lemmas bound the size of a
  block when tasks do not overlap and show an interleaving in which the bound fails.
\<close>

section \<open>Which transactions leave the mempool\<close>

fun delete_tx_from_mempool :: "tx_status \<Rightarrow> bool" where
  "delete_tx_from_mempool SEQ_NUM_TOO_HIGH = False"
| "delete_tx_from_mempool SEQ_NUM_TEMP_IN_USE = False"
| "delete_tx_from_mempool NEW_ACCOUNT_TEMP_RESERVED = False"
| "delete_tx_from_mempool _ = True"

section \<open>Block production\<close>

record ('pk, 'sig, 't, 'ht) production =
  remaining_block_space :: int
  total_block_size :: nat
  pr_manager :: "'t orderbook_manager"
  pr_processors :: "'t serial_manager list"
  pr_db :: "('pk, 'ht) memory_database"
  pr_stats :: block_state_update_stats
  pr_clear_log :: self_log
  pr_log :: "('pk, 'sig) tx_log_event list"
  status_counts :: "(tx_status \<times> nat) list"

definition count_status :: "tx_status \<Rightarrow> (tx_status \<times> nat) list \<Rightarrow> (tx_status \<times> nat) list" where
  "count_status s cs = AList.update s (u64 ((case map_of cs s of None \<Rightarrow> 0 | Some n \<Rightarrow> n) + 1)) cs"

text \<open>The inner loop over the transactions of a chunk; it returns the flags and the number added to the block.\<close>

fun process_chunk ::
  "'t offer_trie \<Rightarrow> (offer_key \<Rightarrow> nat \<Rightarrow> nat \<Rightarrow> offer_key) \<Rightarrow> ('pk transaction \<Rightarrow> 'sig \<Rightarrow> 'pk \<Rightarrow> bool) \<Rightarrow> bool \<Rightarrow> nat
     \<Rightarrow> ('pk, 'sig) signed_transaction list \<Rightarrow> ('pk, 'sig, 't, 'ht) production
     \<Rightarrow> (bool list \<times> nat \<times> ('pk, 'sig, 't, 'ht) production) result" where
  "process_chunk T wr8 sig_check check_sigs p [] pr = Inr ([], 0, pr)"
| "process_chunk T wr8 sig_check check_sigs p (tx # txs) pr =
     bind_result (process_transaction T wr8 sig_check check_sigs tx
         ((pr_manager pr, pr_processors pr ! p), pr_db pr, pr_stats pr, pr_clear_log pr, pr_log pr))
       (\<lambda>(status, (om, sm), db, stats, clear_log, log).
          bind_result (process_chunk T wr8 sig_check check_sigs p txs
              (pr\<lparr>pr_manager := om, pr_processors := (pr_processors pr)[p := sm], pr_db := db, pr_stats := stats,
                  pr_clear_log := clear_log, pr_log := log, status_counts := count_status status (status_counts pr)\<rparr>))
            (\<lambda>(bitmap, elts, pr').
               Inr ((status = SUCCESS \<or> delete_tx_from_mempool status) # bitmap,
                    (if status = SUCCESS then elts + 1 else elts), pr')))"

text \<open>
  One iteration of the outer loop: space is reserved for the whole chunk, given back where it
  exceeds what is left, and given back for the transactions that failed. The flag tells whether the task goes on.
\<close>

definition produce_chunk ::
  "'t offer_trie \<Rightarrow> (offer_key \<Rightarrow> nat \<Rightarrow> nat \<Rightarrow> offer_key) \<Rightarrow> ('pk transaction \<Rightarrow> 'sig \<Rightarrow> 'pk \<Rightarrow> bool) \<Rightarrow> bool \<Rightarrow> nat
     \<Rightarrow> ('pk, 'sig) signed_transaction mempool_chunk \<Rightarrow> ('pk, 'sig, 't, 'ht) production
     \<Rightarrow> (bool \<times> ('pk, 'sig) signed_transaction mempool_chunk \<times> ('pk, 'sig, 't, 'ht) production) result" where
  "produce_chunk T wr8 sig_check check_sigs p chunk pr =
     (let chunk_sz = int (length (ch_txs chunk));
          remaining_space = remaining_block_space pr;
          pr1 = pr\<lparr>remaining_block_space := i64 (remaining_space - chunk_sz)\<rparr>;
          (chunk_sz, pr2) =
            (if remaining_space < chunk_sz
             then (remaining_space, pr1\<lparr>remaining_block_space := i64 (remaining_block_space pr1 + (chunk_sz - remaining_space))\<rparr>)
             else (chunk_sz, pr1))
      in if chunk_sz \<le> 0 \<and> remaining_space < int (length (ch_txs chunk)) then Inr (False, chunk, pr2)
         else
           bind_result (process_chunk T wr8 sig_check check_sigs p (take (nat chunk_sz) (ch_txs chunk)) pr2)
             (\<lambda>(flags, elts_added_to_block, pr3).
                bind_result (set_confirmed_txs (flags @ replicate (length (ch_txs chunk) - length flags) False) chunk)
                  (\<lambda>chunk'.
                     let post_check = remaining_block_space pr3;
                         pr4 = pr3\<lparr>remaining_block_space := i64 (post_check + (chunk_sz - int elts_added_to_block)),
                                   total_block_size := u64 (total_block_size pr3 + elts_added_to_block)\<rparr>
                     in Inr (post_check > 0, chunk', pr4))))"

fun produce_task ::
  "'t offer_trie \<Rightarrow> (offer_key \<Rightarrow> nat \<Rightarrow> nat \<Rightarrow> offer_key) \<Rightarrow> ('pk transaction \<Rightarrow> 'sig \<Rightarrow> 'pk \<Rightarrow> bool) \<Rightarrow> bool \<Rightarrow> nat
     \<Rightarrow> nat list \<Rightarrow> ('pk, 'sig) signed_transaction mempool_chunk list \<times> ('pk, 'sig, 't, 'ht) production
     \<Rightarrow> (('pk, 'sig) signed_transaction mempool_chunk list \<times> ('pk, 'sig, 't, 'ht) production) result" where
  "produce_task T wr8 sig_check check_sigs p [] st = Inr st"
| "produce_task T wr8 sig_check check_sigs p (i # is) (cs, pr) =
     bind_result (vec_at cs i) (\<lambda>chunk.
     bind_result (produce_chunk T wr8 sig_check check_sigs p chunk pr) (\<lambda>(go, chunk', pr').
       if go then produce_task T wr8 sig_check check_sigs p is (cs[i := chunk'], pr') else Inr (cs[i := chunk'], pr')))"

fun produce_tasks ::
  "'t offer_trie \<Rightarrow> (offer_key \<Rightarrow> nat \<Rightarrow> nat \<Rightarrow> offer_key) \<Rightarrow> ('pk transaction \<Rightarrow> 'sig \<Rightarrow> 'pk \<Rightarrow> bool) \<Rightarrow> bool
     \<Rightarrow> (nat \<times> nat list) list \<Rightarrow> ('pk, 'sig) signed_transaction mempool_chunk list \<times> ('pk, 'sig, 't, 'ht) production
     \<Rightarrow> (('pk, 'sig) signed_transaction mempool_chunk list \<times> ('pk, 'sig, 't, 'ht) production) result" where
  "produce_tasks T wr8 sig_check check_sigs [] st = Inr st"
| "produce_tasks T wr8 sig_check check_sigs ((p, is) # tasks) st =
     bind_result (produce_task T wr8 sig_check check_sigs p is st) (produce_tasks T wr8 sig_check check_sigs tasks)"

text \<open>Merging the new offers of all processors, book by book.\<close>

fun finish_processors ::
  "'t main_manager \<Rightarrow> nat \<Rightarrow> nat list \<Rightarrow> 't orderbook_manager \<times> 't serial_manager list
     \<Rightarrow> ('t orderbook_manager \<times> 't serial_manager list) result" where
  "finish_processors M i [] st = Inr st"
| "finish_processors M i (j # js) (om, sms) =
     bind_result (partial_finish M i (om, sms ! j)) (\<lambda>(om', sm'). finish_processors M i js (om', sms[j := sm']))"

fun finish_books ::
  "'t main_manager \<Rightarrow> nat list \<Rightarrow> 't orderbook_manager \<times> 't serial_manager list
     \<Rightarrow> ('t orderbook_manager \<times> 't serial_manager list) result" where
  "finish_books M [] st = Inr st"
| "finish_books M (i # is) st =
     bind_result (finish_processors M i [0..<length (snd st)] st) (finish_books M is)"

definition build_block ::
  "'t offer_trie \<Rightarrow> (offer_key \<Rightarrow> nat \<Rightarrow> nat \<Rightarrow> offer_key) \<Rightarrow> ('pk transaction \<Rightarrow> 'sig \<Rightarrow> 'pk \<Rightarrow> bool) \<Rightarrow> bool
     \<Rightarrow> (nat \<times> nat list) list \<Rightarrow> int \<Rightarrow> ('pk, 'sig) signed_transaction mempool \<Rightarrow> ('pk, 'sig, 't, 'ht) production
     \<Rightarrow> (nat \<times> ('pk, 'sig) signed_transaction mempool \<times> ('pk, 'sig, 't, 'ht) production) result" where
  "build_block T wr8 sig_check check_sigs tasks max_block_size mp pr =
     (if pr_log pr \<noteq> [] then Inl (RuntimeError ''forgot to clear mod log'')
      else
        bind_result (produce_tasks T wr8 sig_check check_sigs tasks
            (chunks mp, pr\<lparr>remaining_block_space := max_block_size, total_block_size := 0\<rparr>))
          (\<lambda>(cs, pr1).
             bind_result (finish_books (direct_manager T) [0..<get_num_orderbooks (pr_manager pr1)] (pr_manager pr1, pr_processors pr1))
               (\<lambda>(om, sms).
                  Inr (total_block_size pr1, mp\<lparr>chunks := cs\<rparr>,
                       pr1\<lparr>pr_manager := om, pr_processors := map sm_clear sms\<rparr>))))"

section \<open>Block validation\<close>

text \<open>
  The block is a list of items, the transactions that are validated together: one transaction in
  a \<^verbatim>\<open>SignedTransactionList\<close>, all transactions of an account in an \<^verbatim>\<open>AccountModificationBlock\<close>.
\<close>

record ('pk, 'sig, 't, 'ht) validation =
  va_manager :: "'t orderbook_manager"
  va_validators :: "'t serial_manager list"
  va_db :: "('pk, 'ht) memory_database"
  va_stats :: block_state_update_stats
  va_clear_log :: self_log
  va_log :: "('pk, 'sig) tx_log_event list"

definition validate_one ::
  "('pk, 'pk account_creation_view \<times> ('pk, 'ht) memory_database) view_ops
     \<Rightarrow> ('pk account_creation_view \<times> ('pk, 'ht) memory_database, 't managers) manager_ops
     \<Rightarrow> ('pk transaction \<Rightarrow> 'sig \<Rightarrow> 'pk \<Rightarrow> bool) \<Rightarrow> bool \<Rightarrow> nat \<Rightarrow> ('pk, 'sig) signed_transaction \<Rightarrow> ('pk, 'sig, 't, 'ht) validation
     \<Rightarrow> (bool \<times> ('pk, 'sig, 't, 'ht) validation) result" where
  "validate_one V M sig_check check_sigs p tx va =
     bind_result (validate_transaction V M sig_check check_sigs tx
         ((va_manager va, va_validators va ! p), va_db va, va_stats va, va_clear_log va, va_log va))
       (\<lambda>(ok, (om, sm), db, stats, clear_log, log).
          Inr (ok, va\<lparr>va_manager := om, va_validators := (va_validators va)[p := sm], va_db := db, va_stats := stats,
                   va_clear_log := clear_log, va_log := log\<rparr>))"

fun validate_item where
  "validate_item V M sig_check check_sigs p [] va = Inr (True, va)"
| "validate_item V M sig_check check_sigs p (tx # txs) va =
     bind_result (validate_one V M sig_check check_sigs p tx va) (\<lambda>(ok, va1).
       bind_result (validate_item V M sig_check check_sigs p txs va1) (\<lambda>(ok', va2). Inr (ok \<and> ok', va2)))"

text \<open>\<^verbatim>\<open>ParallelValidate::operator()\<close> on one range, which stops at the first item that fails.\<close>

fun validate_range where
  "validate_range V M sig_check check_sigs p [] va = Inr (True, va)"
| "validate_range V M sig_check check_sigs p (item # items) va =
     bind_result (validate_item V M sig_check check_sigs p item va) (\<lambda>(ok, va1).
       if \<not> ok then Inr (False, va1) else validate_range V M sig_check check_sigs p items va1)"

text \<open>The ranges one body gets; it ignores those after a failure.\<close>

fun validate_body where
  "validate_body V M sig_check check_sigs p [] va = Inr (True, va)"
| "validate_body V M sig_check check_sigs p (r # rs) va =
     bind_result (validate_range V M sig_check check_sigs p r va) (\<lambda>(ok, va1).
       if \<not> ok then Inr (False, va1) else validate_body V M sig_check check_sigs p rs va1)"

fun validate_bodies where
  "validate_bodies V M sig_check check_sigs [] va = Inr (True, va)"
| "validate_bodies V M sig_check check_sigs ((p, rs) # bodies) va =
     bind_result (validate_body V M sig_check check_sigs p rs va) (\<lambda>(ok, va1).
       bind_result (validate_bodies V M sig_check check_sigs bodies va1) (\<lambda>(ok', va2). Inr (ok \<and> ok', va2)))"

text \<open>The accounts of the modification log.\<close>

fun event_account :: "('pk, 'sig) tx_log_event \<Rightarrow> account_id" where
  "event_account (NewSelfTransaction tx) = sourceAccount (metadata (stx tx))"
| "event_account (OtherModification src op_id target) = target"

definition dirty_accounts :: "self_log \<Rightarrow> ('pk, 'sig) tx_log_event list \<Rightarrow> account_id list" where
  "dirty_accounts clear_log log = map fst clear_log @ map event_account log"

fun conclude_all :: "'t serial_manager list \<Rightarrow> validation_statistics \<Rightarrow> 't serial_manager list \<times> validation_statistics" where
  "conclude_all [] main_stats = ([], main_stats)"
| "conclude_all (sm # sms) main_stats =
     (let (sm', main1) = vm_partial_finish_conclude sm main_stats; (sms', main2) = conclude_all sms main1 in (sm' # sms', main2))"

definition validate_transaction_block ::
  "('pk, 'pk account_creation_view \<times> ('pk, 'ht) memory_database) view_ops
     \<Rightarrow> ('pk account_creation_view \<times> ('pk, 'ht) memory_database, 't managers) manager_ops \<Rightarrow> 't main_manager
     \<Rightarrow> ('pk transaction \<Rightarrow> 'sig \<Rightarrow> 'pk \<Rightarrow> bool) \<Rightarrow> bool
     \<Rightarrow> (nat \<times> ('pk, 'sig) signed_transaction list list list) list \<Rightarrow> ('pk, 'sig, 't, 'ht) validation \<times> validation_statistics
     \<Rightarrow> (bool \<times> ('pk, 'sig, 't, 'ht) validation \<times> validation_statistics) result" where
  "validate_transaction_block V M MM sig_check check_sigs bodies st =
     (case st of (va, main_stats) \<Rightarrow>
      if va_log va \<noteq> [] then Inl (RuntimeError ''forgot to clear mod log'')
      else
        bind_result (validate_bodies V M sig_check check_sigs bodies va) (\<lambda>(ok, va1).
          if \<not> ok then Inr (False, va1\<lparr>va_stats := va_stats va\<rparr>, main_stats)
          else
            bind_result (finish_books MM [0..<get_num_orderbooks (va_manager va1)] (va_manager va1, va_validators va1))
              (\<lambda>(om, sms).
                 let (sms', main_stats') = conclude_all sms main_stats; va2 = va1\<lparr>va_manager := om, va_validators := sms'\<rparr>
                 in Inr (check_valid_state (dirty_accounts (va_clear_log va2) (va_log va2)) (va_db va2), va2, main_stats'))))"

text \<open>
  Replaying a block that was accepted before: every range has a validator of its own, whose results are
  ignored and whose offers are merged at the end of the range.
\<close>

fun replay_txs where
  "replay_txs V M sig_check check_sigs [] st = Inr st"
| "replay_txs V M sig_check check_sigs (tx # txs) st =
     bind_result (validate_transaction V M sig_check check_sigs tx st) (\<lambda>(ok, st'). replay_txs V M sig_check check_sigs txs st')"

fun replay_ranges ::
  "('pk, 'pk account_creation_view \<times> ('pk, 'ht) memory_database) view_ops
     \<Rightarrow> ('pk account_creation_view \<times> ('pk, 'ht) memory_database, 't managers) manager_ops \<Rightarrow> 't main_manager
     \<Rightarrow> ('pk transaction \<Rightarrow> 'sig \<Rightarrow> 'pk \<Rightarrow> bool) \<Rightarrow> bool
     \<Rightarrow> ('pk, 'sig) signed_transaction list list \<Rightarrow> 't orderbook_manager \<times> ('pk, 'ht) memory_database
     \<Rightarrow> ('t orderbook_manager \<times> ('pk, 'ht) memory_database) result" where
  "replay_ranges V M MM sig_check check_sigs [] st = Inr st"
| "replay_ranges V M MM sig_check check_sigs (txs # ranges) (om, db) =
     bind_result (replay_txs V M sig_check check_sigs txs ((om, sm_init), db, empty_stats, [], []))
       (\<lambda>((om1, sm1), db1, _).
          bind_result (finish_merge MM (om1, sm1)) (\<lambda>(om2, _). replay_ranges V M MM sig_check check_sigs ranges (om2, db1)))"

definition replay_trusted_block ::
  "(account_id \<Rightarrow> nat) \<Rightarrow> 't offer_trie \<Rightarrow> 't main_manager \<Rightarrow> (offer_key \<Rightarrow> nat \<Rightarrow> nat \<Rightarrow> offer_key) \<Rightarrow> 'h commitment_checker
     \<Rightarrow> (uptr, 'pk account_creation_view \<times> ('pk, 'ht) memory_database) transfer
     \<Rightarrow> nat \<Rightarrow> ('pk transaction \<Rightarrow> 'sig \<Rightarrow> 'pk \<Rightarrow> bool) \<Rightarrow> bool
     \<Rightarrow> ('pk, 'sig) signed_transaction list list \<Rightarrow> 't orderbook_manager \<times> ('pk, 'ht) memory_database
     \<Rightarrow> ('t orderbook_manager \<times> ('pk, 'ht) memory_database) result" where
  "replay_trusted_block persisted T MM wr8 ck transfer blk sig_check check_sigs ranges st =
     replay_ranges (lmdb_view_ops persisted blk) (validating_manager T MM False wr8 ck transfer) MM sig_check check_sigs ranges st"

section \<open>The size of a block\<close>

lemma process_chunk_counts:
  "process_chunk T wr8 sig_check check_sigs p txs pr = Inr (flags, elts, pr')
   \<Longrightarrow> length flags = length txs \<and> elts \<le> length txs
     \<and> remaining_block_space pr' = remaining_block_space pr \<and> total_block_size pr' = total_block_size pr"
proof (induction txs arbitrary: pr flags elts pr')
  case (Cons tx txs)
  then show ?case by (fastforce simp: bind_result_Inr split: if_splits)
qed simp

text \<open>The space that is left and the size reached add up to the limit.\<close>

definition space_ok :: "int \<Rightarrow> ('pk, 'sig, 't, 'ht) production \<Rightarrow> bool" where
  "space_ok limit pr \<longleftrightarrow> 0 \<le> remaining_block_space pr \<and> remaining_block_space pr + int (total_block_size pr) = limit"

lemma produce_chunk_cases:
  assumes r: "0 \<le> remaining_block_space pr" "remaining_block_space pr < 2 ^ 63" and sz: "length (ch_txs chunk) < 2 ^ 63"
    and run: "produce_chunk T wr8 sig_check check_sigs p chunk pr = Inr (go, chunk', pr')"
    and n: "n = (if remaining_block_space pr < int (length (ch_txs chunk)) then remaining_block_space pr else int (length (ch_txs chunk)))"
  obtains (full) "remaining_block_space pr = 0" "0 < length (ch_txs chunk)" "pr' = pr"
  | (added) elts where "remaining_block_space pr < int (length (ch_txs chunk)) \<longrightarrow> 0 < remaining_block_space pr" "int elts \<le> n"
      "remaining_block_space pr' = remaining_block_space pr - int elts"
      "total_block_size pr' = u64 (total_block_size pr + elts)"
proof -
  let ?c = "int (length (ch_txs chunk))" let ?r = "remaining_block_space pr"
  have i: "i64 (?r - ?c) = ?r - ?c" using r sz by (intro i64_id) (simp add: in_i64_def)
  have z: "i64 0 = 0" by (simp add: in_i64_def)
  let ?pr2 = "pr\<lparr>remaining_block_space := ?r - n\<rparr>"
  show ?thesis
  proof (cases "?r \<le> 0 \<and> ?r < ?c")
    case True
    then have "pr' = ?pr2" using run by (simp add: produce_chunk_def Let_def i z n)
    moreover have "?r = 0" "0 < length (ch_txs chunk)" using True r(1) by auto
    ultimately show ?thesis using full by (cases pr) (simp add: n)
  next
    case False
    have run': "bind_result (process_chunk T wr8 sig_check check_sigs p (take (nat n) (ch_txs chunk)) ?pr2)
             (\<lambda>(flags, elts, pr3). bind_result (set_confirmed_txs (flags @ replicate (length (ch_txs chunk) - length flags) False) chunk)
                  (\<lambda>chunk'. Inr (remaining_block_space pr3 > 0, chunk',
                       pr3\<lparr>remaining_block_space := i64 (remaining_block_space pr3 + (n - int elts)), total_block_size := u64 (total_block_size pr3 + elts)\<rparr>)))
         = Inr (go, chunk', pr')"
      using run False by (cases "?r < ?c") (simp_all add: produce_chunk_def Let_def i z n)
    then obtain flags elts pr3 where pc: "process_chunk T wr8 sig_check check_sigs p (take (nat n) (ch_txs chunk)) ?pr2 = Inr (flags, elts, pr3)"
      and pr': "pr' = pr3\<lparr>remaining_block_space := i64 (remaining_block_space pr3 + (n - int elts)), total_block_size := u64 (total_block_size pr3 + elts)\<rparr>"
      by (auto simp: bind_result_Inr)
    have "0 \<le> n" using r by (simp add: n)
    then have e: "int elts \<le> n" "remaining_block_space pr3 = ?r - n" "total_block_size pr3 = total_block_size pr"
      using process_chunk_counts [OF pc] by auto
    have "n \<le> ?r" by (simp add: n)
    then have "i64 (?r - n + (n - int elts)) = ?r - int elts" using e r by (intro trans [OF i64_id]) (auto simp: in_i64_def)
    then show ?thesis using added [of elts] e pr' False by auto
  qed
qed

lemma produce_chunk_space:
  assumes lim: "limit < 2 ^ 63" and sz: "length (ch_txs chunk) < 2 ^ 63" and ok: "space_ok limit pr"
    and run: "produce_chunk T wr8 sig_check check_sigs p chunk pr = Inr (go, chunk', pr')"
  shows "space_ok limit pr'"
proof -
  have r: "0 \<le> remaining_block_space pr" "remaining_block_space pr < 2 ^ 63" "remaining_block_space pr + int (total_block_size pr) = limit"
    using ok lim by (simp_all add: space_ok_def)
  show ?thesis
  proof (rule produce_chunk_cases [OF r(1,2) sz run refl])
    fix elts
    assume e: "int elts \<le> (if remaining_block_space pr < int (length (ch_txs chunk)) then remaining_block_space pr else int (length (ch_txs chunk)))"
      "remaining_block_space pr' = remaining_block_space pr - int elts" "total_block_size pr' = u64 (total_block_size pr + elts)"
    have "u64 (total_block_size pr + elts) = total_block_size pr + elts" using e(1) r lim by (intro u64_id) (auto split: if_splits)
    then show ?thesis using e r by (simp add: space_ok_def split: if_splits)
  qed (use ok in simp)
qed

lemma produce_task_space:
  assumes "limit < 2 ^ 63" and "\<forall>c\<in>set cs. length (ch_txs c) < 2 ^ 63" and "space_ok limit pr"
    and "produce_task T wr8 sig_check check_sigs p is (cs, pr) = Inr (cs', pr')"
  shows "space_ok limit pr' \<and> (\<forall>c\<in>set cs'. length (ch_txs c) < 2 ^ 63)"
  using assms(2-4)
proof (induction "is" arbitrary: cs pr)
  case (Cons i "is")
  obtain go chunk' pr1 where i: "i < length cs" and run: "produce_chunk T wr8 sig_check check_sigs p (cs ! i) pr = Inr (go, chunk', pr1)"
    using Cons.prems(3) by (auto simp: bind_result_Inr vec_at_Inr)
  have sp: "space_ok limit pr1" using produce_chunk_space [OF assms(1) _ Cons.prems(2) run] Cons.prems(1) i by simp
  have "ch_txs chunk' = ch_txs (cs ! i)"
    using run by (auto simp: produce_chunk_def Let_def bind_result_Inr set_confirmed_txs_def split: if_splits)
  then have "\<forall>c\<in>set (cs[i := chunk']). length (ch_txs c) < 2 ^ 63"
    using Cons.prems(1) i set_update_subset_insert [of cs i chunk'] by auto
  then show ?case using Cons.IH [of "cs[i := chunk']" pr1] Cons.prems(3) run i sp by (cases go) (auto simp: vec_at_def)
qed simp

lemma produce_tasks_space:
  assumes "limit < 2 ^ 63" and "\<forall>c\<in>set cs. length (ch_txs c) < 2 ^ 63" and "space_ok limit pr"
    and "produce_tasks T wr8 sig_check check_sigs tasks (cs, pr) = Inr (cs', pr')"
  shows "space_ok limit pr'"
  using assms(2-4)
proof (induction tasks arbitrary: cs pr)
  case (Cons task tasks)
  obtain p "is" where t: "task = (p, is)" by fastforce
  obtain cs1 pr1 where run: "produce_task T wr8 sig_check check_sigs p is (cs, pr) = Inr (cs1, pr1)"
    using Cons.prems(3) by (auto simp: t bind_result_Inr)
  show ?case using produce_task_space [OF assms(1) Cons.prems(1,2) run] Cons.IH [of cs1 pr1] Cons.prems(3) run by (simp add: t)
qed simp

section \<open>The counters under concurrency\<close>

text \<open>
  The atomic steps of one task on the two counters. \<open>Work n\<close>: the task may add up to \<open>n\<close> transactions to the
  block.
\<close>

datatype reserve_pc = Start int | Fix int int | Work int | AddBack int int | AddTotal int | Finished

record reserve_state =
  rs_remaining :: int
  rs_total :: int
  rs_pc :: "nat \<Rightarrow> reserve_pc"

inductive reserve_step :: "reserve_state \<Rightarrow> reserve_state \<Rightarrow> bool" where
  fetch_sub: "rs_pc s t = Start c
    \<Longrightarrow> reserve_step s (s\<lparr>rs_remaining := rs_remaining s - c, rs_pc := (rs_pc s)(t := if rs_remaining s < c then Fix c (rs_remaining s) else Work c)\<rparr>)"
| fix_up: "rs_pc s t = Fix c r
    \<Longrightarrow> reserve_step s (s\<lparr>rs_remaining := rs_remaining s + (c - r), rs_pc := (rs_pc s)(t := if r \<le> 0 then Finished else Work r)\<rparr>)"
| work: "rs_pc s t = Work n \<Longrightarrow> 0 \<le> e \<Longrightarrow> e \<le> n \<Longrightarrow> reserve_step s (s\<lparr>rs_pc := (rs_pc s)(t := AddBack n e)\<rparr>)"
| add_back: "rs_pc s t = AddBack n e
    \<Longrightarrow> reserve_step s (s\<lparr>rs_remaining := rs_remaining s + (n - e), rs_pc := (rs_pc s)(t := AddTotal e)\<rparr>)"
| add_total: "rs_pc s t = AddTotal e
    \<Longrightarrow> reserve_step s (s\<lparr>rs_total := rs_total s + e, rs_pc := (rs_pc s)(t := Finished)\<rparr>)"

definition reserve_start :: "int \<Rightarrow> (nat \<Rightarrow> int) \<Rightarrow> reserve_state" where
  "reserve_start limit sizes = \<lparr>rs_remaining = limit, rs_total = 0, rs_pc = (\<lambda>t. Start (sizes t))\<rparr>"

lemma step_then: "reserve_step s s' \<Longrightarrow> reserve_step\<^sup>*\<^sup>* s' s'' \<Longrightarrow> reserve_step\<^sup>*\<^sup>* s s''"
  by (rule converse_rtranclp_into_rtranclp)

lemma task_adds:
  assumes "rs_pc s t = Work n" and "0 \<le> e" "e \<le> n"
  shows "reserve_step\<^sup>*\<^sup>* s (s\<lparr>rs_remaining := rs_remaining s + (n - e), rs_total := rs_total s + e, rs_pc := (rs_pc s)(t := Finished)\<rparr>)"
proof -
  let ?s1 = "s\<lparr>rs_pc := (rs_pc s)(t := AddBack n e)\<rparr>"
  let ?s2 = "?s1\<lparr>rs_remaining := rs_remaining ?s1 + (n - e), rs_pc := (rs_pc ?s1)(t := AddTotal e)\<rparr>"
  let ?s3 = "?s2\<lparr>rs_total := rs_total ?s2 + e, rs_pc := (rs_pc ?s2)(t := Finished)\<rparr>"
  have a1: "reserve_step s ?s1" by (rule work [OF assms])
  have a2: "reserve_step ?s1 ?s2" by (rule add_back) simp
  have a3: "reserve_step ?s2 ?s3" by (rule add_total) simp
  show ?thesis using step_then [OF a1 step_then [OF a2 step_then [OF a3 rtranclp.rtrancl_refl]]] by simp
qed

text \<open>\<open>produce_chunk\<close> performs the steps of one task without interruption.\<close>

lemma produce_chunk_steps:
  assumes "rs_pc s t = Start (int (length (ch_txs chunk)))" and "rs_remaining s = remaining_block_space pr"
    and "0 \<le> remaining_block_space pr" "remaining_block_space pr < 2 ^ 63" "length (ch_txs chunk) < 2 ^ 63"
    and "total_block_size pr + length (ch_txs chunk) < 2 ^ 64" "rs_total s = int (total_block_size pr)"
    and run: "produce_chunk T wr8 sig_check check_sigs p chunk pr = Inr (go, chunk', pr')"
  shows "\<exists>s'. reserve_step\<^sup>*\<^sup>* s s' \<and> rs_pc s' = (rs_pc s)(t := Finished)
    \<and> rs_remaining s' = remaining_block_space pr' \<and> rs_total s' = int (total_block_size pr')"
proof -
  let ?c = "int (length (ch_txs chunk))" let ?r = "remaining_block_space pr"
  let ?n = "if ?r < ?c then ?r else ?c"
  let ?s1 = "s\<lparr>rs_remaining := ?r - ?c, rs_pc := (rs_pc s)(t := if ?r < ?c then Fix ?c ?r else Work ?c)\<rparr>"
  have s1: "reserve_step s ?s1" using fetch_sub [OF assms(1)] unfolding assms(2) .
  have s2: "reserve_step\<^sup>*\<^sup>* s (s\<lparr>rs_remaining := ?r - ?n, rs_pc := (rs_pc s)(t := if ?r < ?c \<and> ?r \<le> 0 then Finished else Work ?n)\<rparr>)"
  proof (cases "?r < ?c")
    case True
    have "reserve_step ?s1 (?s1\<lparr>rs_remaining := rs_remaining ?s1 + (?c - ?r), rs_pc := (rs_pc ?s1)(t := if ?r \<le> 0 then Finished else Work ?r)\<rparr>)"
      using True by (intro fix_up) simp
    from step_then [OF s1 step_then [OF this rtranclp.rtrancl_refl]] show ?thesis using True by (cases "?r \<le> 0") simp_all
  next
    case False
    then show ?thesis using step_then [OF s1 rtranclp.rtrancl_refl] by simp
  qed
  show ?thesis
  proof (rule produce_chunk_cases [OF assms(3-5) run refl])
    assume "?r = 0" "0 < length (ch_txs chunk)" "pr' = pr"
    then show ?thesis using s2 assms(7) by (intro exI) (rule conjI, assumption, simp)
  next
    fix elts
    assume e: "?r < ?c \<longrightarrow> 0 < ?r" "int elts \<le> ?n" "remaining_block_space pr' = ?r - int elts" "total_block_size pr' = u64 (total_block_size pr + elts)"
    let ?u = "s\<lparr>rs_remaining := ?r - ?n, rs_pc := (rs_pc s)(t := Work ?n)\<rparr>"
    have u: "reserve_step\<^sup>*\<^sup>* s ?u" using s2 e(1) by (cases "?r < ?c") simp_all
    have "rs_pc ?u t = Work ?n" by simp
    note w = rtranclp_trans [OF u task_adds [OF this _ e(2)]]
    have "u64 (total_block_size pr + elts) = total_block_size pr + elts" using e(2) assms(6) by (intro u64_id) (auto split: if_splits)
    then show ?thesis using w e(3,4) assms(7) by (intro exI) (rule conjI, rule w, simp_all)
  qed
qed

section \<open>Properties\<close>

text \<open>
  Property C24. A block never exceeds its size limit when the tasks of block production do not
  overlap in time: whatever the order of the tasks and the outcome of the transactions, the block has
  at most \<open>max_block_size\<close> transactions, and the space left and the size add up to the limit.
\<close>

theorem block_size_bounded:
  assumes "0 \<le> max_block_size" and "max_block_size < 2 ^ 63" and "\<forall>c\<in>set (chunks mp). length (ch_txs c) < 2 ^ 63"
    and "build_block T wr8 sig_check check_sigs tasks max_block_size mp pr = Inr (block_size, mp', pr')"
  shows "int block_size \<le> max_block_size \<and> remaining_block_space pr' + int block_size = max_block_size"
proof -
  let ?pr = "pr\<lparr>remaining_block_space := max_block_size, total_block_size := 0\<rparr>"
  obtain cs pr1 om sms where run: "produce_tasks T wr8 sig_check check_sigs tasks (chunks mp, ?pr) = Inr (cs, pr1)"
    and out: "block_size = total_block_size pr1" "pr' = pr1\<lparr>pr_manager := om, pr_processors := map sm_clear sms\<rparr>"
    using assms(4) by (auto simp: build_block_def bind_result_Inr split: if_splits)
  have "space_ok max_block_size ?pr" using assms(1) by (simp add: space_ok_def)
  from produce_tasks_space [OF assms(2,3) this run] show ?thesis by (simp add: space_ok_def out)
qed

theorem block_size_bounded_witness:
  "\<exists>block_size mp' pr'. build_block list_trie be8_writer (\<lambda>_ _ _. True) True [(0, [0])] 5
      ((mempool_init 4 100)\<lparr>chunks := [new_chunk [\<lparr>stx = \<lparr>metadata = \<lparr>sourceAccount = 7, sequenceNumber = 1\<rparr>, operations = [], maxFee = 20\<rparr>, signature = ()\<rparr>]]\<rparr>)
      \<lparr>remaining_block_space = 0, total_block_size = 0, pr_manager = \<lparr>orderbooks = [], num_assets = 0\<rparr>, pr_processors = [sm_init],
        pr_db = sample_db sample_account, pr_stats = empty_stats, pr_clear_log = [], pr_log = [], status_counts = []\<rparr>
      = Inr (block_size, mp', pr') \<and> int block_size \<le> 5 \<and> remaining_block_space pr' + int block_size = 5"
proof -
  let ?mp = "(mempool_init 4 100)\<lparr>chunks := [new_chunk [\<lparr>stx = \<lparr>metadata = \<lparr>sourceAccount = 7, sequenceNumber = 1\<rparr>, operations = [], maxFee = 20\<rparr>, signature = ()\<rparr>]]\<rparr>
    :: (unit, unit) signed_transaction mempool"
  let ?pr = "\<lparr>remaining_block_space = 0, total_block_size = 0, pr_manager = \<lparr>orderbooks = [], num_assets = 0\<rparr>, pr_processors = [sm_init],
        pr_db = sample_db sample_account, pr_stats = empty_stats, pr_clear_log = [], pr_log = [], status_counts = []\<rparr>
    :: (unit, unit, book, unit) production"
  obtain n mp' pr' where run: "build_block list_trie be8_writer (\<lambda>_ _ _. True) True [(0, [0])] 5 ?mp ?pr = Inr (n, mp', pr')"
    by (simp add: build_block_def produce_chunk_def Let_def new_chunk_def mempool_init_def vec_at_def process_transaction_def
        check_tx_format_parameters_def RESERVED_SEQUENCE_NUM_LOWBITS_def set_confirmed_txs_def in_i64_def get_num_orderbooks_def
        num_orderbooks_eq)
  have "\<forall>c\<in>set (chunks ?mp). length (ch_txs c) < 2 ^ 63" by (simp add: new_chunk_def)
  then show ?thesis using block_size_bounded [OF _ _ _ run] run by auto
qed

text \<open>
  Property C39. With overlapping tasks the limit does not hold: for every positive limit there are three tasks and
  an interleaving of their atomic steps after which twice the limit has been added to the block.
  A task that finds too little space gives back what the other tasks took in the meantime.
\<close>

theorem block_limit_can_be_exceeded:
  assumes "0 < limit"
  shows "\<exists>sizes s. reserve_step\<^sup>*\<^sup>* (reserve_start limit sizes) s \<and> rs_total s = 2 * limit"
proof -
  let ?sizes = "\<lambda>t::nat. if t = 0 then 2 * limit else if t = 1 then 1 else limit"
  let ?s0 = "reserve_start limit ?sizes"
  let ?s1 = "?s0\<lparr>rs_remaining := - limit, rs_pc := (rs_pc ?s0)(0 := Fix (2 * limit) limit)\<rparr>"
  let ?s2 = "?s1\<lparr>rs_remaining := - limit - 1, rs_pc := (rs_pc ?s1)(1 := Fix 1 (- limit))\<rparr>"
  let ?s3 = "?s2\<lparr>rs_remaining := 0, rs_pc := (rs_pc ?s2)(1 := Finished)\<rparr>"
  let ?s4 = "?s3\<lparr>rs_remaining := limit, rs_pc := (rs_pc ?s3)(0 := Work limit)\<rparr>"
  let ?s5 = "?s4\<lparr>rs_remaining := limit, rs_total := limit, rs_pc := (rs_pc ?s4)(0 := Finished)\<rparr>"
  let ?s6 = "?s5\<lparr>rs_remaining := 0, rs_pc := (rs_pc ?s5)(2 := Work limit)\<rparr>"
  let ?s7 = "?s6\<lparr>rs_total := 2 * limit, rs_pc := (rs_pc ?s6)(2 := Finished)\<rparr>"
  have a1: "reserve_step ?s0 ?s1" using fetch_sub [of ?s0 0 "2 * limit"] assms by (simp add: reserve_start_def)
  have a2: "reserve_step ?s1 ?s2" using fetch_sub [of ?s1 1 1] assms by (simp add: reserve_start_def)
  have a3: "reserve_step ?s2 ?s3" using fix_up [of ?s2 1 1 "- limit"] assms by simp
  have a4: "reserve_step ?s3 ?s4" using fix_up [of ?s3 0 "2 * limit" limit] assms by simp
  have a5: "reserve_step\<^sup>*\<^sup>* ?s4 ?s5" using task_adds [of ?s4 0 limit limit] assms by (simp add: reserve_start_def)
  have a6: "reserve_step ?s5 ?s6" using fetch_sub [of ?s5 2 limit] assms by (simp add: reserve_start_def)
  have a7: "reserve_step\<^sup>*\<^sup>* ?s6 ?s7" using task_adds [of ?s6 2 limit limit] assms by (simp add: reserve_start_def)
  have "reserve_step\<^sup>*\<^sup>* ?s0 ?s7"
    by (rule step_then [OF a1 step_then [OF a2 step_then [OF a3 step_then [OF a4 rtranclp_trans [OF a5 step_then [OF a6 a7]]]]]])
  then show ?thesis by (intro exI [of _ ?sizes] exI [of _ ?s7]) simp
qed

theorem block_limit_can_be_exceeded_witness:
  "\<exists>sizes s. reserve_step\<^sup>*\<^sup>* (reserve_start 1000 sizes) s \<and> rs_total s = 2000"
  using block_limit_can_be_exceeded [of 1000] by simp

end
