(* ===== verification/Modification_Log.thy ===== *)
theory Modification_Log
  imports Block_Processing Account_Filter
begin

text \<open>
  The log of modified accounts (\<^verbatim>\<open>modlog/log_entry_fns.{h,cc}\<close>, \<^verbatim>\<open>modlog/account_modification_entry.{h,cc}\<close>,
  \<^verbatim>\<open>modlog/account_modification_log.{h,cc}\<close>): every thread logs into a trie of its own, the tries are
  merged, the entries are brought into a canonical form when the log is hashed, and the entries are
  the block that is sent to other nodes. The trie of the submodule is the argument \<open>log_trie\<close>. The
  lemmas show that block and hash do not depend on the threads, that the block has exactly the
  transactions that were logged, and that the two representations of an entry serialize alike
  when nothing was logged twice.
\<close>

section \<open>Entries as lists\<close>

datatype tx_identifier = TxIdentifier (ti_owner: account_id) (ti_sequence_number: nat)

text \<open>The order of \<^verbatim>\<open>operator<=>\<close> and of \<^verbatim>\<open>TxIdentifierCompareFn\<close>.\<close>

instantiation tx_identifier :: linorder
begin

definition less_tx_identifier :: "tx_identifier \<Rightarrow> tx_identifier \<Rightarrow> bool" where
  "a < b \<longleftrightarrow> ti_owner a < ti_owner b \<or> ti_owner a = ti_owner b \<and> ti_sequence_number a < ti_sequence_number b"

definition less_eq_tx_identifier :: "tx_identifier \<Rightarrow> tx_identifier \<Rightarrow> bool" where
  "a \<le> b \<longleftrightarrow> a < b \<or> a = (b :: tx_identifier)"

instance
  by standard (auto simp: less_tx_identifier_def less_eq_tx_identifier_def tx_identifier.expand intro: ccontr dest: antisym_conv3)

end

record ('pk, 'sig) account_modification_tx_list =
  tl_owner :: account_id
  new_transactions_self :: "('pk, 'sig) signed_transaction list"
  identifiers_self :: "nat list"
  identifiers_others :: "tx_identifier list"

datatype ('pk, 'sig) log_value =
    SelfSequenceNumber nat
  | OtherIdentifier tx_identifier
  | SelfTransaction "('pk, 'sig) signed_transaction"

definition tl_new_value :: "account_id \<Rightarrow> ('pk, 'sig) account_modification_tx_list" where
  "tl_new_value a = \<lparr>tl_owner = a, new_transactions_self = [], identifiers_self = [], identifiers_others = []\<rparr>"

fun tl_value_insert ::
  "('pk, 'sig) log_value \<Rightarrow> ('pk, 'sig) account_modification_tx_list \<Rightarrow> ('pk, 'sig) account_modification_tx_list" where
  "tl_value_insert (SelfSequenceNumber n) v = v\<lparr>identifiers_self := identifiers_self v @ [n]\<rparr>"
| "tl_value_insert (OtherIdentifier i) v = v\<lparr>identifiers_others := identifiers_others v @ [i]\<rparr>"
| "tl_value_insert (SelfTransaction tx) v = v\<lparr>new_transactions_self := new_transactions_self v @ [tx]\<rparr>"

definition key_only_insert :: "('pk, 'sig) account_modification_tx_list \<Rightarrow> ('pk, 'sig) account_modification_tx_list" where
  "key_only_insert v = v"

definition tl_value_merge ::
  "('pk, 'sig) account_modification_tx_list \<Rightarrow> ('pk, 'sig) account_modification_tx_list
     \<Rightarrow> ('pk, 'sig) account_modification_tx_list result" where
  "tl_value_merge v w =
     (let v1 = v\<lparr>new_transactions_self := new_transactions_self v @ new_transactions_self w,
                 identifiers_self := identifiers_self v @ identifiers_self w,
                 identifiers_others := identifiers_others v @ identifiers_others w\<rparr>
      in if tl_owner v \<noteq> tl_owner w then Inl (RuntimeError ''owner mismatch when merging logs!!!'') else Inr v1)"

text \<open>
  The loops that remove duplicates: the index is advanced by the loop header and once more when
  nothing is erased.
\<close>

function dedup_loop :: "('a \<Rightarrow> 'a \<Rightarrow> bool) \<Rightarrow> nat \<Rightarrow> 'a list \<Rightarrow> 'a list" where
  "dedup_loop eq i xs =
     (if i < length xs
      then (if eq (xs ! i) (xs ! (i - 1)) then dedup_loop eq (i + 1) (take i xs @ drop (Suc i) xs)
            else dedup_loop eq (i + 2) xs)
      else xs)"
  by pat_completeness auto

termination dedup_loop
  by (relation "measure (\<lambda>(eq, i, xs). length xs - i)") auto

declare dedup_loop.simps [simp del]

definition dedup :: "('a \<Rightarrow> 'a \<Rightarrow> bool) \<Rightarrow> 'a list \<Rightarrow> 'a list" where
  "dedup eq xs = dedup_loop eq 1 xs"

definition tx_identifier_eq :: "tx_identifier \<Rightarrow> tx_identifier \<Rightarrow> bool" where
  "tx_identifier_eq a b \<longleftrightarrow> ti_owner a = ti_owner b \<and> ti_sequence_number a = ti_sequence_number b"

abbreviation seq_of :: "('pk, 'sig) signed_transaction \<Rightarrow> nat" where
  "seq_of tx \<equiv> sequenceNumber (metadata (stx tx))"

abbreviation src_of :: "('pk, 'sig) signed_transaction \<Rightarrow> account_id" where
  "src_of tx \<equiv> sourceAccount (metadata (stx tx))"

definition transaction_eq :: "('pk, 'sig) signed_transaction \<Rightarrow> ('pk, 'sig) signed_transaction \<Rightarrow> bool" where
  "transaction_eq a b \<longleftrightarrow> seq_of a = seq_of b"

text \<open>
  \<^verbatim>\<open>LogNormalizeFn::apply_to_value\<close>. \<^verbatim>\<open>std::sort\<close> may put transactions with one sequence number
  in any order, so the sort of transactions is an argument.
\<close>

definition sorts_txs :: "(('pk, 'sig) signed_transaction list \<Rightarrow> ('pk, 'sig) signed_transaction list) \<Rightarrow> bool" where
  "sorts_txs srt \<longleftrightarrow> (\<forall>txs. mset (srt txs) = mset txs \<and> sorted (map seq_of (srt txs)))"

definition log_normalize ::
  "(('pk, 'sig) signed_transaction list \<Rightarrow> ('pk, 'sig) signed_transaction list)
     \<Rightarrow> ('pk, 'sig) account_modification_tx_list \<Rightarrow> ('pk, 'sig) account_modification_tx_list" where
  "log_normalize srt v =
     v\<lparr>identifiers_self := dedup (=) (sort (identifiers_self v)),
       identifiers_others := dedup tx_identifier_eq (sort (identifiers_others v)),
       new_transactions_self := dedup transaction_eq (srt (new_transactions_self v))\<rparr>"

section \<open>Entries as sets\<close>

record ('pk, 'sig) account_modification_entry =
  en_owner :: "account_id option"
  en_identifiers_self :: "nat set"
  en_identifiers_other :: "tx_identifier set"
  en_new_transactions_self :: "(nat \<times> ('pk, 'sig) signed_transaction) list"

definition en_new_value :: "account_id \<Rightarrow> ('pk, 'sig) account_modification_entry" where
  "en_new_value a = \<lparr>en_owner = Some a, en_identifiers_self = {}, en_identifiers_other = {}, en_new_transactions_self = []\<rparr>"

definition add_identifier_self :: "nat \<Rightarrow> ('pk, 'sig) account_modification_entry \<Rightarrow> ('pk, 'sig) account_modification_entry" where
  "add_identifier_self i e = e\<lparr>en_identifiers_self := insert i (en_identifiers_self e)\<rparr>"

definition add_identifier_other ::
  "tx_identifier \<Rightarrow> ('pk, 'sig) account_modification_entry \<Rightarrow> ('pk, 'sig) account_modification_entry" where
  "add_identifier_other i e = e\<lparr>en_identifiers_other := insert i (en_identifiers_other e)\<rparr>"

text \<open>A set ordered by sequence number keeps the transaction it has.\<close>

definition txset_insert ::
  "('pk, 'sig) signed_transaction \<Rightarrow> (nat \<times> ('pk, 'sig) signed_transaction) list \<Rightarrow> (nat \<times> ('pk, 'sig) signed_transaction) list" where
  "txset_insert tx s = (if map_of s (seq_of tx) = None then smap_put (seq_of tx) tx s else s)"

definition add_tx_self ::
  "('pk, 'sig) signed_transaction \<Rightarrow> ('pk, 'sig) account_modification_entry \<Rightarrow> ('pk, 'sig) account_modification_entry" where
  "add_tx_self tx e = e\<lparr>en_new_transactions_self := txset_insert tx (en_new_transactions_self e)\<rparr>"

fun en_value_insert ::
  "('pk, 'sig) log_value \<Rightarrow> ('pk, 'sig) account_modification_entry \<Rightarrow> ('pk, 'sig) account_modification_entry" where
  "en_value_insert (SelfSequenceNumber n) e = add_identifier_self n e"
| "en_value_insert (OtherIdentifier i) e = add_identifier_other i e"
| "en_value_insert (SelfTransaction tx) e = add_tx_self tx e"

text \<open>
  \<^verbatim>\<open>merge_value\<close> moves what is missing; the transactions that stay behind in the other entry are an error.
\<close>

definition txset_left ::
  "(nat \<times> ('pk, 'sig) signed_transaction) list \<Rightarrow> (nat \<times> ('pk, 'sig) signed_transaction) list \<Rightarrow> (nat \<times> ('pk, 'sig) signed_transaction) list" where
  "txset_left s other = filter (\<lambda>(k, _). map_of s k \<noteq> None) other"

definition merge_value ::
  "('pk, 'sig) account_modification_entry \<Rightarrow> ('pk, 'sig) account_modification_entry \<Rightarrow> ('pk, 'sig) account_modification_entry result" where
  "merge_value e other =
     (let e1 = e\<lparr>en_identifiers_self := en_identifiers_self e \<union> en_identifiers_self other,
                 en_identifiers_other := en_identifiers_other e \<union> en_identifiers_other other,
                 en_new_transactions_self :=
                   fold (\<lambda>(_, tx). txset_insert tx) (en_new_transactions_self other) (en_new_transactions_self e)\<rparr>
      in if en_owner e \<noteq> en_owner other then Inl (RuntimeError ''log entry merge_value owner mismatch'')
         else if txset_left (en_new_transactions_self e) (en_new_transactions_self other) \<noteq> []
         then Inl (RuntimeError ''seqno error: tx showed up in multiple values'')
         else Inr e1)"

definition num_txs :: "('pk, 'sig) account_modification_entry \<Rightarrow> int" where
  "num_txs e = (int (length (en_new_transactions_self e)) + 2 ^ 31) mod 2 ^ 32 - 2 ^ 31"

text \<open>The merge function of the trie returns the change of the transaction count.\<close>

definition en_value_merge ::
  "('pk, 'sig) account_modification_entry \<Rightarrow> ('pk, 'sig) account_modification_entry
     \<Rightarrow> (int \<times> ('pk, 'sig) account_modification_entry) result" where
  "en_value_merge e other = bind_result (merge_value e other) (\<lambda>e'. Inr (num_txs other, e'))"

definition en_accumulate :: "('pk, 'sig) account_modification_entry \<Rightarrow> ('pk, 'sig) signed_transaction list" where
  "en_accumulate e = map snd (en_new_transactions_self e)"

record ('pk, 'sig) xdr_put =
  put_u32 :: "nat \<Rightarrow> nat list"
  put_u64 :: "nat \<Rightarrow> nat list"
  put_tx :: "('pk, 'sig) signed_transaction \<Rightarrow> nat list"
  put_tx_identifier :: "tx_identifier \<Rightarrow> nat list"

definition serialize_xdr :: "('pk, 'sig) xdr_put \<Rightarrow> ('pk, 'sig) account_modification_entry \<Rightarrow> nat list result" where
  "serialize_xdr p e =
     (case en_owner e of
        None \<Rightarrow> Inl (RuntimeError ''owner not set prior to serialization'')
      | Some a \<Rightarrow>
          Inr (put_u64 p a
               @ put_u32 p (u32 (length (en_new_transactions_self e))) @ concat (map (put_tx p \<circ> snd) (en_new_transactions_self e))
               @ put_u32 p (u32 (card (en_identifiers_self e))) @ concat (map (put_u64 p) (sorted_list_of_set (en_identifiers_self e)))
               @ put_u32 p (u32 (card (en_identifiers_other e)))
               @ concat (map (put_tx_identifier p) (sorted_list_of_set (en_identifiers_other e)))))"

section \<open>The trie of entries\<close>

text \<open>
  The trie of the submodule, by what it documents: an insertion applies \<^verbatim>\<open>value_insert\<close> to the entry of the key or to a new
  one, a batch merge combines the entries of one key in some order, hashing first normalizes every
  entry, and the entries are accumulated in the order of their keys.
\<close>

record ('v, 't, 'h) log_trie =
  lt_empty :: 't
  lt_insert :: "('v \<Rightarrow> 'v) \<Rightarrow> (account_id \<Rightarrow> 'v) \<Rightarrow> account_id \<Rightarrow> 't \<Rightarrow> 't"
  lt_batch_merge_in :: "('v \<Rightarrow> 'v \<Rightarrow> 'v result) \<Rightarrow> 't list \<Rightarrow> 't \<Rightarrow> ('t list \<times> 't) result"
  lt_hash :: "('v \<Rightarrow> 'v) \<Rightarrow> 't \<Rightarrow> 'h \<times> 't"
  lt_entries :: "'t \<Rightarrow> (account_id \<times> 'v) list"

fun merge_values :: "('v \<Rightarrow> 'v \<Rightarrow> 'v result) \<Rightarrow> 'v \<Rightarrow> 'v list \<Rightarrow> 'v result" where
  "merge_values f v [] = Inr v"
| "merge_values f v (w # ws) = bind_result (f v w) (\<lambda>v'. merge_values f v' ws)"

definition values_at :: "('v, 't, 'h) log_trie \<Rightarrow> account_id \<Rightarrow> 't list \<Rightarrow> 'v list" where
  "values_at T k ts = concat (map (\<lambda>t. case map_of (lt_entries T t) k of None \<Rightarrow> [] | Some v \<Rightarrow> [v]) ts)"

definition merged_at :: "('v \<Rightarrow> 'v \<Rightarrow> 'v result) \<Rightarrow> 'v list \<Rightarrow> 'v option \<Rightarrow> bool" where
  "merged_at f vs r \<longleftrightarrow>
     (if vs = [] then r = None
      else \<exists>w ws v. mset (w # ws) = mset vs \<and> merge_values f w ws = Inr v \<and> r = Some v)"

definition log_trie_ok :: "('v, 't, 'h) log_trie \<Rightarrow> ((account_id \<times> 'v) list \<Rightarrow> 'h) \<Rightarrow> bool" where
  "log_trie_ok T hf \<longleftrightarrow>
     (\<forall>t. smap_ok (lt_entries T t)) \<and> lt_entries T (lt_empty T) = [] \<and>
     (\<forall>f nv k t. map_of (lt_entries T (lt_insert T f nv k t)) =
        (map_of (lt_entries T t))(k \<mapsto> f (case map_of (lt_entries T t) k of None \<Rightarrow> nv k | Some v \<Rightarrow> v))) \<and>
     (\<forall>f ts t. (\<forall>k w ws. mset (w # ws) = mset (values_at T k (t # ts)) \<longrightarrow> (\<exists>v. merge_values f w ws = Inr v)) \<longrightarrow>
        (\<exists>ts' t'. lt_batch_merge_in T f ts t = Inr (ts', t') \<and>
           (\<forall>k. merged_at f (values_at T k (t # ts)) (map_of (lt_entries T t') k)))) \<and>
     (\<forall>f t. \<exists>t'. lt_hash T f t = (hf (lt_entries T t'), t') \<and> lt_entries T t' = map (\<lambda>(k, v). (k, f v)) (lt_entries T t))"

section \<open>The log\<close>

type_synonym ('pk, 'sig, 't, 'h) tl_trie = "(('pk, 'sig) account_modification_tx_list, 't, 'h) log_trie"

record ('pk, 'sig, 't) account_modification_log =
  ml_cache :: "'t list"
  ml_trie :: 't
  persistable_block :: "('pk, 'sig) account_modification_tx_list list"

definition new_log :: "('pk, 'sig, 't, 'h) tl_trie \<Rightarrow> nat \<Rightarrow> ('pk, 'sig, 't) account_modification_log" where
  "new_log T num_threads = \<lparr>ml_cache = replicate num_threads (lt_empty T), ml_trie = lt_empty T, persistable_block = []\<rparr>"

definition log_insert ::
  "('pk, 'sig, 't, 'h) tl_trie \<Rightarrow> bool \<Rightarrow> account_id \<Rightarrow> ('pk, 'sig) log_value \<Rightarrow> 't \<Rightarrow> 't" where
  "log_insert T detailed a v t =
     lt_insert T (if detailed then tl_value_insert v else key_only_insert) tl_new_value a t"

definition log_self_modification :: "('pk, 'sig, 't, 'h) tl_trie \<Rightarrow> bool \<Rightarrow> account_id \<Rightarrow> nat \<Rightarrow> 't \<Rightarrow> 't" where
  "log_self_modification T detailed own sn t = log_insert T detailed own (SelfSequenceNumber sn) t"

definition log_other_modification :: "('pk, 'sig, 't, 'h) tl_trie \<Rightarrow> bool \<Rightarrow> account_id \<Rightarrow> nat \<Rightarrow> account_id \<Rightarrow> 't \<Rightarrow> 't" where
  "log_other_modification T detailed tx_owner sn modified_account t =
     log_insert T detailed modified_account (OtherIdentifier (TxIdentifier tx_owner sn)) t"

definition log_new_self_transaction :: "('pk, 'sig, 't, 'h) tl_trie \<Rightarrow> bool \<Rightarrow> ('pk, 'sig) signed_transaction \<Rightarrow> 't \<Rightarrow> 't" where
  "log_new_self_transaction T detailed tx t = log_insert T detailed (src_of tx) (SelfTransaction tx) t"

definition merge_in_log_batch ::
  "('pk, 'sig, 't, 'h) tl_trie \<Rightarrow> ('pk, 'sig, 't) account_modification_log \<Rightarrow> ('pk, 'sig, 't) account_modification_log result" where
  "merge_in_log_batch T ml =
     bind_result (lt_batch_merge_in T tl_value_merge (ml_cache ml) (ml_trie ml))
       (\<lambda>(cache, t). Inr (ml\<lparr>ml_cache := cache, ml_trie := t\<rparr>))"

definition ml_hash ::
  "('pk, 'sig, 't, 'h) tl_trie \<Rightarrow> (('pk, 'sig) signed_transaction list \<Rightarrow> ('pk, 'sig) signed_transaction list)
     \<Rightarrow> ('pk, 'sig, 't) account_modification_log \<Rightarrow> 'h \<times> ('pk, 'sig, 't) account_modification_log" where
  "ml_hash T srt ml =
     (case lt_hash T (log_normalize srt) (ml_trie ml) of (h, t) \<Rightarrow>
        (h, ml\<lparr>ml_trie := t, persistable_block := map snd (lt_entries T t)\<rparr>))"

definition detached_clear :: "('pk, 'sig, 't, 'h) tl_trie \<Rightarrow> ('pk, 'sig, 't) account_modification_log \<Rightarrow> ('pk, 'sig, 't) account_modification_log" where
  "detached_clear T ml = \<lparr>ml_cache = map (\<lambda>_. lt_empty T) (ml_cache ml), ml_trie = lt_empty T, persistable_block = []\<rparr>"

definition persist_block ::
  "('pk, 'sig, 't, 'h) tl_trie \<Rightarrow> bool \<Rightarrow> bool \<Rightarrow> ('pk, 'sig, 't) account_modification_log
     \<Rightarrow> (('pk, 'sig) account_modification_tx_list list option \<times> ('pk, 'sig, 't) account_modification_log) result" where
  "persist_block T return_block persist ml =
     (let ml1 = (if (persist \<or> return_block) \<and> persistable_block ml = [] \<and> lt_entries T (ml_trie ml) \<noteq> []
                 then ml\<lparr>persistable_block := map snd (lt_entries T (ml_trie ml))\<rparr> else ml)
      in if persist then Inl (RuntimeError ''dead code path'')
         else if return_block then Inr (Some (persistable_block ml1), ml1\<lparr>persistable_block := []\<rparr>)
         else Inr (None, ml1))"

definition parallel_accumulate_keys :: "('pk, 'sig, 't, 'h) tl_trie \<Rightarrow> ('pk, 'sig, 't) account_modification_log \<Rightarrow> account_id list" where
  "parallel_accumulate_keys T ml = map fst (lt_entries T (ml_trie ml))"

text \<open>The calls of worker threads, in the order in which they happen.\<close>

datatype ('pk, 'sig) log_call =
    LogSelf account_id nat
  | LogOther account_id nat account_id
  | LogTx "('pk, 'sig) signed_transaction"

fun log_call_apply :: "('pk, 'sig, 't, 'h) tl_trie \<Rightarrow> bool \<Rightarrow> ('pk, 'sig) log_call \<Rightarrow> 't \<Rightarrow> 't" where
  "log_call_apply T d (LogSelf own sn) t = log_self_modification T d own sn t"
| "log_call_apply T d (LogOther tx_owner sn a) t = log_other_modification T d tx_owner sn a t"
| "log_call_apply T d (LogTx tx) t = log_new_self_transaction T d tx t"

definition log_at ::
  "('pk, 'sig, 't, 'h) tl_trie \<Rightarrow> bool \<Rightarrow> nat \<times> ('pk, 'sig) log_call \<Rightarrow> ('pk, 'sig, 't) account_modification_log
     \<Rightarrow> ('pk, 'sig, 't) account_modification_log" where
  "log_at T d c ml = (case c of (i, call) \<Rightarrow> ml\<lparr>ml_cache := (ml_cache ml)[i := log_call_apply T d call (ml_cache ml ! i)]\<rparr>)"

definition close_log ::
  "('pk, 'sig, 't, 'h) tl_trie \<Rightarrow> (('pk, 'sig) signed_transaction list \<Rightarrow> ('pk, 'sig) signed_transaction list)
     \<Rightarrow> ('pk, 'sig, 't) account_modification_log \<Rightarrow> ('h \<times> ('pk, 'sig, 't) account_modification_log) result" where
  "close_log T srt ml = bind_result (merge_in_log_batch T ml) (\<lambda>ml'. Inr (ml_hash T srt ml'))"

section \<open>The canonical block of a set of calls\<close>

fun call_account :: "('pk, 'sig) log_call \<Rightarrow> account_id" where
  "call_account (LogSelf own sn) = own"
| "call_account (LogOther tx_owner sn a) = a"
| "call_account (LogTx tx) = src_of tx"

fun call_value :: "('pk, 'sig) log_call \<Rightarrow> ('pk, 'sig) log_value" where
  "call_value (LogSelf own sn) = SelfSequenceNumber sn"
| "call_value (LogOther tx_owner sn a) = OtherIdentifier (TxIdentifier tx_owner sn)"
| "call_value (LogTx tx) = SelfTransaction tx"

fun self_numbers :: "('pk, 'sig) log_value \<Rightarrow> nat list" where
  "self_numbers (SelfSequenceNumber n) = [n]" | "self_numbers _ = []"

fun other_ids :: "('pk, 'sig) log_value \<Rightarrow> tx_identifier list" where
  "other_ids (OtherIdentifier i) = [i]" | "other_ids _ = []"

fun self_txs :: "('pk, 'sig) log_value \<Rightarrow> ('pk, 'sig) signed_transaction list" where
  "self_txs (SelfTransaction tx) = [tx]" | "self_txs _ = []"

definition values_of :: "bool \<Rightarrow> ('pk, 'sig) log_call list \<Rightarrow> account_id \<Rightarrow> ('pk, 'sig) log_value list" where
  "values_of d calls a = (if d then map call_value (filter (\<lambda>c. call_account c = a) calls) else [])"

definition raw_entry :: "account_id \<Rightarrow> ('pk, 'sig) log_value list \<Rightarrow> ('pk, 'sig) account_modification_tx_list" where
  "raw_entry a vs = \<lparr>tl_owner = a, new_transactions_self = List.maps self_txs vs,
     identifiers_self = List.maps self_numbers vs, identifiers_others = List.maps other_ids vs\<rparr>"

definition canonical_entry :: "account_id \<Rightarrow> ('pk, 'sig) log_value list \<Rightarrow> ('pk, 'sig) account_modification_tx_list" where
  "canonical_entry a vs = \<lparr>tl_owner = a, new_transactions_self = sort_key seq_of (List.maps self_txs vs),
     identifiers_self = dedup (=) (sort (List.maps self_numbers vs)),
     identifiers_others = dedup tx_identifier_eq (sort (List.maps other_ids vs))\<rparr>"

definition canonical_log :: "bool \<Rightarrow> ('pk, 'sig) log_call list \<Rightarrow> (account_id \<times> ('pk, 'sig) account_modification_tx_list) list" where
  "canonical_log d calls =
     map (\<lambda>a. (a, canonical_entry a (values_of d calls a))) (sorted_list_of_set (call_account ` set calls))"

definition logged_once :: "('pk, 'sig) log_call list \<Rightarrow> bool" where
  "logged_once calls \<longleftrightarrow> distinct (map (\<lambda>tx. (src_of tx, seq_of tx)) (List.maps self_txs (map call_value calls)))"

section \<open>Independence of the threads\<close>

lemma mset_maps: "mset (List.maps f xs) = (\<Sum>x\<in>#mset xs. mset (f x))"
  by (induction xs) simp_all

lemma maps_mset_cong: "mset xs = mset ys \<Longrightarrow> mset (List.maps f xs) = mset (List.maps f ys)"
  by (simp add: mset_maps [simplified])

lemma sort_mset_cong: "mset xs = mset ys \<Longrightarrow> sort xs = sort ys"
  by (metis properties_for_sort mset_sort sorted_sort)

lemma mset_map_eq:
  assumes "mset ys = mset (map f xs)"
  obtains xs' where "ys = map f xs'" "mset xs' = mset xs"
proof -
  have "\<exists>xs'. ys = map f xs' \<and> mset xs' = mset xs"
    using assms
  proof (induction ys arbitrary: xs)
    case (Cons y ys)
    then have "y \<in> set (map f xs)" by (metis list.set_intros(1) set_mset_mset)
    then obtain x where x: "x \<in> set xs" "y = f x" by auto
    have "add_mset (f x) (image_mset f (mset (remove1 x xs))) = image_mset f (mset xs)"
      using x by (metis image_mset_add_mset insert_DiffM mset_remove1 set_mset_mset)
    then have "mset ys = mset (map f (remove1 x xs))" using Cons.prems x by (metis add_mset_add_mset_same_iff mset.simps(2) mset_map)
    then obtain zs where zs: "ys = map f zs" "mset zs = mset (remove1 x xs)" using Cons.IH by blast
    have "y # ys = map f (x # zs) \<and> mset (x # zs) = mset xs" using x zs by simp
    then show ?case by (rule exI)
  qed simp
  then show ?thesis using that by blast
qed

lemma raw_entry_new: "tl_new_value a = raw_entry a []"
  by (simp add: tl_new_value_def raw_entry_def)

lemma raw_entry_insert: "tl_value_insert v (raw_entry a us) = raw_entry a (us @ [v])"
  by (cases v) (simp_all add: raw_entry_def)

lemma merge_raw: "merge_values tl_value_merge (raw_entry a us) (map (raw_entry a) vss) = Inr (raw_entry a (us @ concat vss))"
proof (induction vss arbitrary: us)
  case (Cons vs vss)
  have "tl_value_merge (raw_entry a us) (raw_entry a vs) = Inr (raw_entry a (us @ vs))"
    by (simp add: tl_value_merge_def raw_entry_def)
  then show ?case using Cons by simp
qed simp

lemma values_of_outside: "a \<notin> call_account ` set calls \<Longrightarrow> values_of d calls a = []"
  by (auto simp: values_of_def filter_empty_conv)

lemma log_call_insert: "log_call_apply T d c t = log_insert T d (call_account c) (call_value c) t"
  by (cases c) (simp_all add: log_self_modification_def log_other_modification_def log_new_self_transaction_def)

lemma trie_of_calls:
  assumes "log_trie_ok T hf"
  shows "map_of (lt_entries T (fold (log_call_apply T d) cs (lt_empty T))) k =
    (if k \<in> call_account ` set cs then Some (raw_entry k (values_of d cs k)) else None)"
proof (induction cs rule: rev_induct)
  case Nil
  show ?case using assms by (simp add: log_trie_ok_def)
next
  case (snoc c cs)
  let ?t = "fold (log_call_apply T d) cs (lt_empty T)"
  have ins: "map_of (lt_entries T (lt_insert T f nv a ?t)) =
      (map_of (lt_entries T ?t))(a \<mapsto> f (case map_of (lt_entries T ?t) a of None \<Rightarrow> nv a | Some v \<Rightarrow> v))" for f nv a
    using assms by (simp add: log_trie_ok_def)
  show ?case
  proof (cases "k = call_account c")
    case True
    have base: "(case map_of (lt_entries T ?t) k of None \<Rightarrow> tl_new_value k | Some v \<Rightarrow> v) = raw_entry k (values_of d cs k)"
      by (simp add: snoc raw_entry_new values_of_outside)
    have "log_call_apply T d c ?t =
        lt_insert T (if d then tl_value_insert (call_value c) else key_only_insert) tl_new_value k ?t"
      using True by (simp add: log_call_insert [of _ _ c] log_insert_def)
    then have "map_of (lt_entries T (fold (log_call_apply T d) (cs @ [c]) (lt_empty T))) k =
        Some ((if d then tl_value_insert (call_value c) else key_only_insert) (raw_entry k (values_of d cs k)))"
      by (simp only: fold_append fold_simps comp_apply ins base fun_upd_same)
    then show ?thesis using True by (simp add: raw_entry_insert key_only_insert_def values_of_def)
  next
    case False
    then show ?thesis by (simp add: log_call_insert [of _ _ c] log_insert_def ins snoc values_of_def)
  qed
qed

text \<open>The calls of thread \<open>i\<close> in a schedule.\<close>

definition calls_of_thread :: "nat \<Rightarrow> (nat \<times> ('pk, 'sig) log_call) list \<Rightarrow> ('pk, 'sig) log_call list" where
  "calls_of_thread i sched = map snd (filter (\<lambda>c. fst c = i) sched)"

lemma log_at_fields [simp]:
  "ml_trie (fold (log_at T d) sched ml) = ml_trie ml"
  "length (ml_cache (fold (log_at T d) sched ml)) = length (ml_cache ml)"
  by (induction sched arbitrary: ml) (simp_all add: log_at_def split: prod.splits)

lemma log_at_cache:
  assumes "\<forall>c\<in>set sched. fst c < length (ml_cache ml)" "i < length (ml_cache ml)"
  shows "ml_cache (fold (log_at T d) sched ml) ! i = fold (log_call_apply T d) (calls_of_thread i sched) (ml_cache ml ! i)"
  using assms by (induction sched arbitrary: ml) (auto simp: log_at_def calls_of_thread_def nth_list_update split: prod.splits)

lemma values_of_threads:
  assumes "\<forall>c\<in>set sched. fst c < n"
  shows "mset (concat (map (\<lambda>i. values_of d (calls_of_thread i sched) k) [0..<n])) = mset (values_of d (map snd sched) k)"
  using assms
proof (induction sched)
  case Nil
  show ?case by (simp add: calls_of_thread_def values_of_def comp_def)
next
  case (Cons c sched)
  have step: "mset (values_of d (calls_of_thread i (c # sched)) k) =
      (if i = fst c then mset (values_of d [snd c] k) else {#}) + mset (values_of d (calls_of_thread i sched) k)" for i
    by (simp add: calls_of_thread_def values_of_def)
  have sums: "mset (concat (map g [0..<n])) = (\<Sum>i<n. mset (g i))" for g :: "nat \<Rightarrow> 'x list"
    by (induction n) simp_all
  have "mset (concat (map (\<lambda>i. values_of d (calls_of_thread i (c # sched)) k) [0..<n])) =
      mset (values_of d [snd c] k) + (\<Sum>i<n. mset (values_of d (calls_of_thread i sched) k))"
    using Cons.prems by (simp only: sums step sum.distrib) (simp add: sum.delta)
  also have "\<dots> = mset (values_of d (map snd (c # sched)) k)"
    using Cons by (simp add: sums values_of_def)
  finally show ?case .
qed

lemma values_of_mset: "mset calls = mset calls' \<Longrightarrow> mset (values_of d calls k) = mset (values_of d calls' k)"
  by (simp add: values_of_def)

text \<open>The entries of one account over all threads.\<close>

lemma values_at_threads:
  fixes d :: bool
  assumes T: "log_trie_ok T hf" and thr: "\<forall>c\<in>set sched. fst c < n"
  defines "ml \<equiv> fold (log_at T d) sched (new_log T n)"
  shows "\<exists>vss. values_at T k (ml_trie ml # ml_cache ml) = map (raw_entry k) vss \<and>
    mset (concat vss) = mset (values_of d (map snd sched) k) \<and> (vss = [] \<longleftrightarrow> k \<notin> call_account ` snd ` set sched)"
proof -
  let ?in = "\<lambda>i. k \<in> call_account ` set (calls_of_thread i sched)"
  let ?vss = "map (\<lambda>i. values_of d (calls_of_thread i sched) k) (filter ?in [0..<n])"
  have cache: "ml_cache ml = map (\<lambda>i. fold (log_call_apply T d) (calls_of_thread i sched) (lt_empty T)) [0..<n]"
    by (rule nth_equalityI) (use thr in \<open>simp_all add: ml_def new_log_def log_at_cache\<close>)
  have main: "ml_trie ml = lt_empty T" "map_of (lt_entries T (lt_empty T)) k = None"
    using T by (simp_all add: ml_def new_log_def log_trie_ok_def)
  have "values_at T k (ml_cache ml) = map (raw_entry k) ?vss"
    unfolding cache values_at_def by (induction n) (simp_all add: trie_of_calls [OF T] comp_def)
  then have eq: "values_at T k (ml_trie ml # ml_cache ml) = map (raw_entry k) ?vss"
    by (simp add: values_at_def main)
  have "concat ?vss = concat (map (\<lambda>i. values_of d (calls_of_thread i sched) k) [0..<n])"
    by (induction n) (simp_all add: values_of_outside)
  then have ms: "mset (concat ?vss) = mset (values_of d (map snd sched) k)"
    using values_of_threads [OF thr, of d k] by simp
  have "(?vss = []) \<longleftrightarrow> (\<forall>i<n. \<not> ?in i)" by (auto simp: filter_empty_conv)
  also have "\<dots> \<longleftrightarrow> k \<notin> call_account ` snd ` set sched"
  proof
    assume "\<forall>i<n. \<not> ?in i"
    moreover have "?in (fst c)" if "c \<in> set sched" "k = call_account (snd c)" for c
      using that by (auto simp: calls_of_thread_def intro!: image_eqI)
    ultimately show "k \<notin> call_account ` snd ` set sched" using thr by blast
  qed (auto simp: calls_of_thread_def)
  finally show ?thesis using eq ms by blast
qed

lemma dedup_distinct:
  assumes "\<And>i. 0 < i \<Longrightarrow> i < length xs \<Longrightarrow> \<not> eq (xs ! i) (xs ! (i - 1))"
  shows "0 < i \<Longrightarrow> dedup_loop eq i xs = xs"
  using assms
proof (induction eq i xs rule: dedup_loop.induct)
  case (1 eq i xs)
  then show ?case by (subst dedup_loop.simps) simp
qed

lemma sorted_txs_unique:
  assumes srt: "sorts_txs srt" and ms: "mset us = mset vs" and d: "distinct (map seq_of vs)"
  shows "srt us = sort_key seq_of vs"
proof (rule map_sorted_distinct_set_unique [of seq_of])
  have m: "mset (srt us) = mset vs" using srt ms by (simp add: sorts_txs_def)
  have s: "set (srt us) = set vs" using m by (metis set_mset_mset)
  show "set (srt us) = set (sort_key seq_of vs)" by (simp add: s)
  show "inj_on seq_of (set (srt us) \<union> set (sort_key seq_of vs))" using d by (simp add: s distinct_map)
  show "sorted (map seq_of (srt us))" using srt by (simp add: sorts_txs_def)
  have "mset (map seq_of (srt us)) = mset (map seq_of vs)" using m by simp
  then show "distinct (map seq_of (srt us))" using d by (metis mset_eq_imp_distinct_iff)
  have "mset (map seq_of (sort_key seq_of vs)) = mset (map seq_of vs)" by simp
  then show "distinct (map seq_of (sort_key seq_of vs))" using d by (metis mset_eq_imp_distinct_iff)
qed simp

lemma normalize_canonical:
  assumes srt: "sorts_txs srt" and ms: "mset us = mset vs" and d: "distinct (map seq_of (List.maps self_txs vs))"
  shows "log_normalize srt (raw_entry a us) = canonical_entry a vs"
proof -
  let ?xs = "sort_key seq_of (List.maps self_txs vs)"
  have "distinct (map seq_of ?xs)" using d by (metis distinct_map distinct_sort set_sort)
  then have "dedup transaction_eq ?xs = ?xs"
    unfolding dedup_def
    by (intro dedup_distinct) (auto simp: transaction_eq_def distinct_conv_nth)
  then show ?thesis
    using sorted_txs_unique [OF srt maps_mset_cong [OF ms] d]
      sort_mset_cong [OF maps_mset_cong [OF ms, of self_numbers]] sort_mset_cong [OF maps_mset_cong [OF ms, of other_ids]]
    by (simp add: log_normalize_def raw_entry_def canonical_entry_def)
qed

lemma logged_once_account:
  assumes "logged_once calls"
  shows "distinct (map seq_of (List.maps self_txs (values_of d calls a)))"
proof -
  let ?all = "List.maps self_txs (map call_value calls)"
  have sub: "List.maps self_txs (values_of True calls a) = filter (\<lambda>tx. src_of tx = a) ?all"
  proof (induction calls)
    case (Cons c calls)
    then show ?case by (cases c) (simp_all add: values_of_def)
  qed (simp add: values_of_def)
  have "distinct (map seq_of (filter (\<lambda>tx. src_of tx = a) xs))"
    if "distinct (map (\<lambda>tx. (src_of tx, seq_of tx)) xs)" for xs :: "('a, 'b) signed_transaction list"
    using that by (induction xs) (auto intro: rev_image_eqI)
  then show ?thesis using assms sub by (cases d) (simp_all add: logged_once_def values_of_def [of False])
qed

lemma canonical_log_ok: "smap_ok (canonical_log d calls)"
  by (simp add: canonical_log_def smap_ok_def comp_def)

lemma canonical_log_lookup:
  "map_of (canonical_log d calls) k =
     (if k \<in> call_account ` set calls then Some (canonical_entry k (values_of d calls k)) else None)"
  by (simp add: canonical_log_def map_of_map_restrict restrict_map_def)

lemma close_log_canonical:
  fixes d :: bool
  assumes T: "log_trie_ok T hf" and srt: "sorts_txs srt" and thr: "\<forall>c\<in>set sched. fst c < n"
    and once: "logged_once calls" and ms: "mset (map snd sched) = mset calls"
  shows "\<exists>ml. close_log T srt (fold (log_at T d) sched (new_log T n)) = Inr (hf (canonical_log d calls), ml) \<and>
    persistable_block ml = map snd (canonical_log d calls) \<and> parallel_accumulate_keys T ml = map fst (canonical_log d calls)"
proof -
  let ?ml = "fold (log_at T d) sched (new_log T n)"
  note va = values_at_threads [OF T thr, where d = d]
  have raw: "merge_values tl_value_merge w ws = Inr (raw_entry k (concat vss)) \<and> mset (concat vss) = mset (values_of d calls k)"
    if "w # ws = map (raw_entry k) vss" "mset vss = mset vss'" "mset (concat vss') = mset (values_of d (map snd sched) k)"
    for k w ws vss vss'
    using that merge_raw [of k "hd vss" "tl vss"] maps_mset_cong [OF that(2), of id] values_of_mset [OF ms, of d k]
    by (cases vss) simp_all
  have merges: "\<exists>vss. w # ws = map (raw_entry k) vss \<and> merge_values tl_value_merge w ws = Inr (raw_entry k (concat vss)) \<and>
      mset (concat vss) = mset (values_of d calls k)"
    if "mset (w # ws) = mset (values_at T k (ml_trie ?ml # ml_cache ?ml))" for k w ws
  proof -
    from va [of k] obtain vss where vss: "values_at T k (ml_trie ?ml # ml_cache ?ml) = map (raw_entry k) vss"
      "mset (concat vss) = mset (values_of d (map snd sched) k)" by blast
    from that obtain vss' where "w # ws = map (raw_entry k) vss'" "mset vss' = mset vss"
      unfolding vss(1) by (rule mset_map_eq)
    then show ?thesis using raw [of w ws k vss' vss] vss(2) by (intro exI [of _ vss']) simp
  qed
  then have "\<forall>k w ws. mset (w # ws) = mset (values_at T k (ml_trie ?ml # ml_cache ?ml)) \<longrightarrow>
      (\<exists>v. merge_values tl_value_merge w ws = Inr v)" by blast
  then obtain ts' t' where m: "lt_batch_merge_in T tl_value_merge (ml_cache ?ml) (ml_trie ?ml) = Inr (ts', t')"
      and at: "\<And>k. merged_at tl_value_merge (values_at T k (ml_trie ?ml # ml_cache ?ml)) (map_of (lt_entries T t') k)"
    using T unfolding log_trie_ok_def by blast
  from T obtain t where h: "lt_hash T (log_normalize srt) t' = (hf (lt_entries T t), t)"
      and e: "lt_entries T t = map (\<lambda>(k, v). (k, log_normalize srt v)) (lt_entries T t')"
    unfolding log_trie_ok_def by blast
  have acc: "k \<in> call_account ` snd ` set sched \<longleftrightarrow> k \<in> call_account ` set calls" for k
    using ms by (metis list.set_map set_mset_mset)
  have "map_of (lt_entries T t) k = map_of (canonical_log d calls) k" for k
  proof (cases "k \<in> call_account ` set calls")
    case True
    then have "values_at T k (ml_trie ?ml # ml_cache ?ml) \<noteq> []" using va [of k] acc by (metis map_is_Nil_conv)
    then obtain w ws v where "mset (w # ws) = mset (values_at T k (ml_trie ?ml # ml_cache ?ml))"
        "merge_values tl_value_merge w ws = Inr v" "map_of (lt_entries T t') k = Some v"
      using at [of k] by (auto simp: merged_at_def)
    then obtain us where "map_of (lt_entries T t') k = Some (raw_entry k us)" "mset us = mset (values_of d calls k)"
      using merges by (metis Inr_inject)
    then show ?thesis
      using True normalize_canonical [OF srt _ logged_once_account [OF once]] by (simp add: e map_of_map canonical_log_lookup)
  next
    case False
    then have "values_at T k (ml_trie ?ml # ml_cache ?ml) = []" using va [of k] acc by (metis map_is_Nil_conv)
    then have "map_of (lt_entries T t') k = None" using at [of k] by (simp add: merged_at_def)
    then show ?thesis using False by (simp add: e map_of_map canonical_log_lookup)
  qed
  then have "lt_entries T t = canonical_log d calls"
    using T canonical_log_ok by (intro smap_eqI) (auto simp: log_trie_ok_def)
  then show ?thesis by (simp add: close_log_def merge_in_log_batch_def m [simplified] ml_hash_def h parallel_accumulate_keys_def)
qed

lemma values_of_accounts:
  assumes "distinct as" "call_account ` set calls \<subseteq> set as"
  shows "mset (List.maps (values_of True calls) as) = mset (map call_value calls)"
  using assms(2)
proof (induction calls)
  case (Cons c calls)
  have "mset (List.maps (values_of True (c # calls)) bs) =
      (if call_account c \<in> set bs then {#call_value c#} else {#}) + mset (List.maps (values_of True calls) bs)"
    if "distinct bs" for bs
    using that by (induction bs) (auto simp: values_of_def)
  then show ?case using Cons assms(1) by simp
qed (simp add: values_of_def)

lemma maps_canonical:
  "mset (List.maps new_transactions_self (map snd (map (\<lambda>a. (a, canonical_entry a (f a))) as))) =
     mset (List.maps self_txs (List.maps f as))"
  by (induction as) (simp_all add: canonical_entry_def)

lemma canonical_log_txs:
  "mset (List.maps new_transactions_self (map snd (canonical_log True calls))) = mset (List.maps self_txs (map call_value calls))"
proof -
  let ?as = "sorted_list_of_set (call_account ` set calls)"
  have "mset (List.maps new_transactions_self (map snd (canonical_log True calls))) =
      mset (List.maps self_txs (List.maps (values_of True calls) ?as))"
    unfolding canonical_log_def
    by (rule maps_canonical)
  also have "\<dots> = mset (List.maps self_txs (map call_value calls))"
    by (rule maps_mset_cong, rule values_of_accounts) simp_all
  finally show ?thesis .
qed

section \<open>The two representations\<close>

lemma tl_fold: "fold tl_value_insert vs (tl_new_value a) = raw_entry a vs"
  by (induction vs rule: rev_induct) (simp_all add: raw_entry_new raw_entry_insert)

lemma en_fold:
  fixes a :: account_id
  assumes "distinct (map seq_of (List.maps self_txs vs))"
  defines "e \<equiv> fold en_value_insert vs (en_new_value a)"
  shows "en_owner e = Some a" "en_identifiers_self e = set (List.maps self_numbers vs)"
    "en_identifiers_other e = set (List.maps other_ids vs)"
    "smap_ok (en_new_transactions_self e)"
    "set (en_new_transactions_self e) = (\<lambda>tx. (seq_of tx, tx)) ` set (List.maps self_txs vs)"
proof -
  have "en_owner e = Some a \<and> en_identifiers_self e = set (List.maps self_numbers vs) \<and>
    en_identifiers_other e = set (List.maps other_ids vs) \<and> smap_ok (en_new_transactions_self e) \<and>
    set (en_new_transactions_self e) = (\<lambda>tx. (seq_of tx, tx)) ` set (List.maps self_txs vs)"
    using assms(1) unfolding e_def
  proof (induction vs rule: rev_induct)
    case (snoc v vs)
    let ?e = "fold en_value_insert vs (en_new_value a)"
    show ?case
    proof (cases v)
      case (SelfTransaction tx)
      have ih: "smap_ok (en_new_transactions_self ?e)"
        "set (en_new_transactions_self ?e) = (\<lambda>tx. (seq_of tx, tx)) ` set (List.maps self_txs vs)"
        using snoc SelfTransaction by simp_all
      have "seq_of tx \<notin> seq_of ` set (List.maps self_txs vs)" using snoc.prems SelfTransaction by simp
      then have new: "seq_of tx \<notin> fst ` set (en_new_transactions_self ?e)" unfolding ih(2) by (simp add: image_image)
      have put: "set (smap_put k w xs) = insert (k, w) (set xs)" if "k \<notin> fst ` set xs" for k and w :: "('a, 'b) signed_transaction" and xs
        using that by (induction k w xs rule: smap_put.induct) auto
      show ?thesis
        using snoc SelfTransaction new put [OF new] ih by (simp add: add_tx_self_def txset_insert_def map_of_eq_None_iff)
    qed (use snoc in \<open>simp_all add: add_identifier_self_def add_identifier_other_def\<close>)
  qed (simp add: en_new_value_def)
  then show "en_owner e = Some a" "en_identifiers_self e = set (List.maps self_numbers vs)"
    "en_identifiers_other e = set (List.maps other_ids vs)"
    "smap_ok (en_new_transactions_self e)"
    "set (en_new_transactions_self e) = (\<lambda>tx. (seq_of tx, tx)) ` set (List.maps self_txs vs)" by blast+
qed

lemma sort_distinct_set: "distinct xs \<Longrightarrow> sort xs = sorted_list_of_set (set xs)"
  by (simp add: sorted_list_of_set_sort_remdups distinct_remdups_id)

lemma dedup_sort:
  assumes "distinct xs" "\<And>x y. eq x y \<longleftrightarrow> x = y"
  shows "dedup eq (sort xs) = sort xs"
  unfolding dedup_def
proof (rule dedup_distinct)
  have "distinct (sort xs)" using assms(1) by simp
  then show "\<not> eq (sort xs ! i) (sort xs ! (i - 1))" if "0 < i" "i < length (sort xs)" for i
    using that by (subst assms(2)) (simp add: distinct_conv_nth del: distinct_sort)
qed simp

lemma en_txs_sorted:
  assumes d: "distinct (map seq_of (List.maps self_txs vs))"
  shows "map snd (en_new_transactions_self (fold en_value_insert vs (en_new_value a))) = sort_key seq_of (List.maps self_txs vs)"
proof -
  let ?xs = "en_new_transactions_self (fold en_value_insert vs (en_new_value a))" and ?txs = "List.maps self_txs vs"
  note ef = en_fold [OF d, of a]
  have keys: "map seq_of (map snd ?xs) = map fst ?xs" using ef(5) by auto
  show ?thesis
  proof (rule map_sorted_distinct_set_unique [of seq_of])
    have s: "set (map snd ?xs) = set ?txs" using ef(5) by (simp add: image_image)
    then show "set (map snd ?xs) = set (sort_key seq_of ?txs)" by simp
    show "inj_on seq_of (set (map snd ?xs) \<union> set (sort_key seq_of ?txs))" using d by (simp only: s set_sort Un_absorb distinct_map)
    show "sorted (map seq_of (map snd ?xs))" "distinct (map seq_of (map snd ?xs))"
      unfolding keys using ef(4) by (simp_all add: smap_ok_def strict_sorted_iff)
    show "distinct (map seq_of (sort_key seq_of ?txs))" using d by (metis distinct_map distinct_sort set_sort)
  qed simp
qed

section \<open>An instance of the trie\<close>

definition norm_entries :: "(account_id \<times> 'v) list \<Rightarrow> (account_id \<times> 'v) list" where
  "norm_entries t = (if smap_ok t then t else [])"

definition all_keys :: "(account_id \<times> 'v) list list \<Rightarrow> account_id list" where
  "all_keys ts = sorted_list_of_set (\<Union>t\<in>set ts. fst ` set (norm_entries t))"

definition list_values :: "(account_id \<times> 'v) list list \<Rightarrow> account_id \<Rightarrow> 'v list" where
  "list_values ts k = concat (map (\<lambda>t. case map_of (norm_entries t) k of None \<Rightarrow> [] | Some v \<Rightarrow> [v]) ts)"

definition list_log_trie :: "('v, (account_id \<times> 'v) list, (account_id \<times> 'v) list) log_trie" where
  "list_log_trie =
     \<lparr>lt_empty = [],
      lt_insert = (\<lambda>f nv k t. smap_put k (f (case map_of (norm_entries t) k of None \<Rightarrow> nv k | Some v \<Rightarrow> v)) (norm_entries t)),
      lt_batch_merge_in = (\<lambda>f ts t.
        let ks = all_keys (t # ts); r = (\<lambda>k. let vs = list_values (t # ts) k in merge_values f (hd vs) (tl vs))
        in case find (\<lambda>k. isl (r k)) ks of
             Some k \<Rightarrow> Inl (projl (r k))
           | None \<Rightarrow> Inr (map (\<lambda>_. []) ts, map (\<lambda>k. (k, projr (r k))) ks)),
      lt_hash = (\<lambda>f t. let t' = map (\<lambda>(k, v). (k, f v)) (norm_entries t) in (t', t')),
      lt_entries = norm_entries\<rparr>"

lemma smap_ok_norm [simp]: "smap_ok (norm_entries t)" "smap_ok t \<Longrightarrow> norm_entries t = t"
  by (simp_all add: norm_entries_def)

lemma list_values_at: "values_at list_log_trie k ts = list_values ts k"
  by (simp add: values_at_def list_values_def list_log_trie_def)

lemma all_keys_ok: "smap_ok (map (\<lambda>k. (k, g k)) (all_keys ts))"
  by (simp add: all_keys_def smap_ok_def comp_def)

lemma all_keys_values: "k \<in> set (all_keys ts) \<longleftrightarrow> list_values ts k \<noteq> []"
  by (auto simp: all_keys_def list_values_def map_of_eq_None_iff split: option.splits)

lemma list_merge_ok:
  assumes ok: "\<forall>k w ws. mset (w # ws) = mset (values_at list_log_trie k (t # ts)) \<longrightarrow> (\<exists>v. merge_values f w ws = Inr v)"
  shows "\<exists>ts' t'. lt_batch_merge_in list_log_trie f ts t = Inr (ts', t') \<and>
    (\<forall>k. merged_at f (values_at list_log_trie k (t # ts)) (map_of (lt_entries list_log_trie t') k))"
proof -
  let ?vs = "list_values (t # ts)" and ?ks = "all_keys (t # ts)"
  let ?r = "\<lambda>k. merge_values f (hd (?vs k)) (tl (?vs k))"
  let ?t' = "map (\<lambda>k. (k, projr (?r k))) ?ks"
  have r: "\<exists>v. ?r k = Inr v" if "?vs k \<noteq> []" for k
    using that ok [unfolded list_values_at, rule_format, of "hd (?vs k)" "tl (?vs k)" k] by simp
  have "find (\<lambda>k. isl (?r k)) ?ks = None" using r by (fastforce simp: find_None_iff all_keys_values)
  then have m: "lt_batch_merge_in list_log_trie f ts t = Inr (map (\<lambda>_. []) ts, ?t')"
    by (simp add: list_log_trie_def Let_def)
  have "merged_at f (?vs k) (map_of ?t' k)" for k
  proof (cases "?vs k = []")
    case True
    then have "k \<notin> set ?ks" by (simp add: all_keys_values)
    then show ?thesis using True by (simp add: merged_at_def map_of_map_restrict)
  next
    case False
    then have "map_of ?t' k = Some (projr (?r k))" "mset (hd (?vs k) # tl (?vs k)) = mset (?vs k)"
      by (simp_all add: map_of_map_restrict all_keys_values)
    moreover obtain v where "?r k = Inr v" using r [OF False] by blast
    ultimately have "mset (hd (?vs k) # tl (?vs k)) = mset (?vs k) \<and> ?r k = Inr v \<and> map_of ?t' k = Some v" by simp
    then show ?thesis unfolding merged_at_def using False by (simp only: if_False) blast
  qed
  then show ?thesis using m by (simp add: list_values_at) (simp add: list_log_trie_def all_keys_ok)
qed

lemma list_log_trie_ok: "log_trie_ok list_log_trie id"
  unfolding log_trie_ok_def
proof (intro conjI allI)
  fix f :: "'a \<Rightarrow> 'a" and t :: "(account_id \<times> 'a) list"
  have "smap_ok (map (\<lambda>(k, v). (k, f v)) (norm_entries t))"
    using smap_ok_norm(1) [of t] by (simp add: smap_ok_def comp_def split_def)
  then show "\<exists>t'. lt_hash list_log_trie f t = (id (lt_entries list_log_trie t'), t') \<and>
      lt_entries list_log_trie t' = map (\<lambda>(k, v). (k, f v)) (lt_entries list_log_trie t)"
    by (simp add: list_log_trie_def Let_def)
next
  show "(\<forall>k w ws. mset (w # ws) = mset (values_at list_log_trie k (t # ts)) \<longrightarrow> (\<exists>v. merge_values f w ws = Inr v)) \<longrightarrow>
      (\<exists>ts' t'. lt_batch_merge_in list_log_trie f ts t = Inr (ts', t') \<and>
         (\<forall>k. merged_at f (values_at list_log_trie k (t # ts)) (map_of (lt_entries list_log_trie t') k)))"
    for f :: "'a \<Rightarrow> 'a \<Rightarrow> 'a result" and ts t
    using list_merge_ok by blast
qed (simp_all add: list_log_trie_def)

section \<open>Properties\<close>

lemma sort_key_sorts: "sorts_txs (sort_key seq_of)"
  by (simp add: sorts_txs_def)

text \<open>
  Property C27. Two runs in which worker threads log the same calls, on any number of threads and in any order, end
  with the same hash and the same block. The block has one entry per modified account, in the
  order of the accounts, and together the entries have exactly the logged transactions.
\<close>

theorem modlog_thread_independent:
  assumes "log_trie_ok T hf" "sorts_txs srt"
    and "\<forall>c\<in>set sched. fst c < n" "\<forall>c\<in>set sched'. fst c < n'"
    and "mset (map snd sched) = mset (map snd sched')" "logged_once (map snd sched)"
  shows "\<exists>h ml ml'. close_log T srt (fold (log_at T True) sched (new_log T n)) = Inr (h, ml) \<and>
    close_log T srt (fold (log_at T True) sched' (new_log T n')) = Inr (h, ml') \<and>
    persistable_block ml' = persistable_block ml \<and>
    map tl_owner (persistable_block ml) = sorted_list_of_set (call_account ` snd ` set sched) \<and>
    mset (List.maps new_transactions_self (persistable_block ml)) = mset (List.maps self_txs (map (call_value \<circ> snd) sched))"
proof -
  let ?calls = "map snd sched"
  have own: "map tl_owner (map snd (canonical_log True ?calls)) = sorted_list_of_set (call_account ` snd ` set sched)"
    by (simp add: canonical_log_def canonical_entry_def comp_def)
  from close_log_canonical [OF assms(1,2,3,6) refl, of True] close_log_canonical [OF assms(1,2,4,6), of True] assms(5)
  obtain ml ml' where "close_log T srt (fold (log_at T True) sched (new_log T n)) = Inr (hf (canonical_log True ?calls), ml)"
      "persistable_block ml = map snd (canonical_log True ?calls)"
      "close_log T srt (fold (log_at T True) sched' (new_log T n')) = Inr (hf (canonical_log True ?calls), ml')"
      "persistable_block ml' = map snd (canonical_log True ?calls)"
    by auto
  then show ?thesis using own canonical_log_txs [of ?calls] by auto
qed

definition sample_tx :: "nat \<Rightarrow> nat \<Rightarrow> (unit, unit) signed_transaction" where
  "sample_tx a sn = \<lparr>stx = \<lparr>metadata = \<lparr>sourceAccount = a, sequenceNumber = sn\<rparr>, operations = [], maxFee = 0\<rparr>, signature = ()\<rparr>"

theorem modlog_thread_independent_witness:
  "\<exists>h ml ml'. close_log list_log_trie (sort_key seq_of)
      (fold (log_at list_log_trie True) [(0, LogTx (sample_tx 4 512)), (1, LogOther 4 512 7), (0, LogTx (sample_tx 4 256))]
         (new_log list_log_trie 2)) = Inr (h, ml) \<and>
    close_log list_log_trie (sort_key seq_of)
      (fold (log_at list_log_trie True) [(0, LogTx (sample_tx 4 256)), (0, LogTx (sample_tx 4 512)), (0, LogOther 4 512 7)]
         (new_log list_log_trie 1)) = Inr (h, ml') \<and>
    persistable_block ml' = persistable_block ml \<and> map tl_owner (persistable_block ml) = [4, 7] \<and>
    mset (List.maps new_transactions_self (persistable_block ml)) = {#sample_tx 4 256, sample_tx 4 512#}"
  using modlog_thread_independent [OF list_log_trie_ok sort_key_sorts,
      of "[(0, LogTx (sample_tx 4 512)), (1, LogOther 4 512 7), (0, LogTx (sample_tx 4 256))]" 2
         "[(0, LogTx (sample_tx 4 256)), (0, LogTx (sample_tx 4 512)), (0, LogOther 4 512 7)]" 1]
  by (simp add: logged_once_def sample_tx_def add_mset_commute insert_Diff_if)

text \<open>The encoding of the list representation that the XDR library generates: fields in their order, arrays after their length.\<close>

definition xdr_list_ok :: "('pk, 'sig) xdr_put \<Rightarrow> (('pk, 'sig) account_modification_tx_list \<Rightarrow> nat list) \<Rightarrow> bool" where
  "xdr_list_ok p xdr_to_opaque \<longleftrightarrow>
     (\<forall>v. xdr_to_opaque v = put_u64 p (tl_owner v)
        @ put_u32 p (u32 (length (new_transactions_self v))) @ concat (map (put_tx p) (new_transactions_self v))
        @ put_u32 p (u32 (length (identifiers_self v))) @ concat (map (put_u64 p) (identifiers_self v))
        @ put_u32 p (u32 (length (identifiers_others v))) @ concat (map (put_tx_identifier p) (identifiers_others v)))"

text \<open>
  When nothing is logged twice, the set representation of an entry serializes to the
  same bytes as the list representation after its normalization, whatever was logged in which order.
\<close>

theorem entry_representations_agree:
  assumes enc: "xdr_list_ok p xdr_to_opaque" and srt: "sorts_txs srt"
    and d: "distinct (map seq_of (List.maps self_txs vs))" "distinct (List.maps self_numbers vs)" "distinct (List.maps other_ids vs)"
  shows "serialize_xdr p (fold en_value_insert vs (en_new_value a)) =
    Inr (xdr_to_opaque (log_normalize srt (fold tl_value_insert vs (tl_new_value a))))"
proof -
  note ef = en_fold [OF d(1), of a]
  let ?e = "fold en_value_insert vs (en_new_value a)"
  have txs: "en_new_transactions_self ?e = xs \<Longrightarrow> concat (map (put_tx p \<circ> snd) xs) = concat (map (put_tx p) (sort_key seq_of (List.maps self_txs vs)))
      \<and> length xs = length (List.maps self_txs vs)" for xs
    using en_txs_sorted [OF d(1), of a] by (metis length_map length_sort map_map)
  have eq: "tx_identifier_eq x y \<longleftrightarrow> x = y" for x y by (auto simp: tx_identifier_eq_def tx_identifier.expand)
  have "log_normalize srt (fold tl_value_insert vs (tl_new_value a)) = canonical_entry a vs"
    by (simp only: tl_fold normalize_canonical [OF srt refl d(1)])
  then show ?thesis
    using enc txs [OF refl] dedup_sort [OF d(2), of "(=)"] dedup_sort [OF d(3) eq] sort_distinct_set [OF d(2)] sort_distinct_set [OF d(3)]
      distinct_card [OF d(2)] distinct_card [OF d(3)]
    by (simp add: serialize_xdr_def ef xdr_list_ok_def canonical_entry_def)
qed

theorem entry_representations_agree_witness:
  "serialize_xdr \<lparr>put_u32 = (\<lambda>n. [n]), put_u64 = (\<lambda>n. [n]), put_tx = (\<lambda>tx. [seq_of tx]), put_tx_identifier = (\<lambda>i. [ti_owner i, ti_sequence_number i])\<rparr>
     (fold en_value_insert [SelfSequenceNumber 5, SelfTransaction (sample_tx 1 512), SelfSequenceNumber 2] (en_new_value 1)) =
   Inr [1, 1, 512, 2, 2, 5, 0]"
proof -
  let ?p = "\<lparr>put_u32 = (\<lambda>n. [n]), put_u64 = (\<lambda>n. [n]), put_tx = (\<lambda>tx. [seq_of tx]), put_tx_identifier = (\<lambda>i. [ti_owner i, ti_sequence_number i])\<rparr>
    :: (unit, unit) xdr_put"
  let ?enc = "\<lambda>v. [tl_owner v] @ [u32 (length (new_transactions_self v))] @ map seq_of (new_transactions_self v)
    @ [u32 (length (identifiers_self v))] @ identifiers_self v
    @ [u32 (length (identifiers_others v))] @ List.maps (\<lambda>i. [ti_owner i, ti_sequence_number i]) (identifiers_others v)"
  have singles: "concat (map (\<lambda>x. [f x]) xs) = map f xs" for f :: "'x \<Rightarrow> nat" and xs by (induction xs) simp_all
  have "xdr_list_ok ?p ?enc" by (simp add: xdr_list_ok_def singles [of "\<lambda>n. n"] singles)
  from entry_representations_agree [OF this sort_key_sorts,
      of "[SelfSequenceNumber 5, SelfTransaction (sample_tx 1 512), SelfSequenceNumber 2]" 1]
  show ?thesis
    by (simp add: sample_tx_def tl_new_value_def log_normalize_def dedup_def dedup_loop.simps u32_def)
qed

text \<open>
  The normalization does not remove a duplicate that follows a different number: the
  numbers x, y, y stay as they are, where the set representation has x and y only.
\<close>

theorem normalize_keeps_duplicates:
  assumes "x < y"
  shows "identifiers_self (log_normalize srt (fold tl_value_insert (map SelfSequenceNumber [x, y, y]) (tl_new_value a))) = [x, y, y] \<and>
    en_identifiers_self (fold en_value_insert (map SelfSequenceNumber [x, y, y]) (en_new_value a)) = {x, y}"
  using assms
  by (simp add: log_normalize_def tl_new_value_def dedup_def dedup_loop.simps en_new_value_def add_identifier_self_def insert_commute)

theorem normalize_keeps_duplicates_witness:
  "identifiers_self (log_normalize (sort_key seq_of) (fold tl_value_insert (map SelfSequenceNumber [1, 2, 2]) (tl_new_value 9))) = [1, 2, 2] \<and>
   en_identifiers_self (fold en_value_insert (map SelfSequenceNumber [1, 2, 2]) (en_new_value 9)) = {1, 2}"
  using normalize_keeps_duplicates [of 1 2 "sort_key seq_of" 9] by simp

end
