(* ===== verification/Orderbook_Persistence.thy ===== *)
theory Orderbook_Persistence
  imports Clearing_Agreement
begin

text \<open>
  Writing the thunks of several blocks to disk (\<^verbatim>\<open>orderbook/lmdb.{h,cc}\<close>). Disk contents are a
  key-ordered table of offers; the LMDB library is the argument \<open>I\<close>, a record of its operations, with
  the documented behaviour \<open>offer_dbi_ok\<close>. \<open>write_thunks\<close> persists a batch of blocks at once in five phases; \<open>after_block\<close>
  says what one block does to a book. The lemmas show that the batch leaves the same table as its blocks one after the other,
  provided that either every block or no block of the batch has a partially executed offer and that no offer is created and cancelled within
  the batch; without these conditions offers are lost or come back.
\<close>

section \<open>The table on disk\<close>

record 'd offer_dbi =
  dbi_entries :: "'d \<Rightarrow> (offer_key \<times> offer) list"
  dbi_put :: "offer_key \<Rightarrow> offer \<Rightarrow> 'd \<Rightarrow> 'd"
  dbi_del :: "offer_key \<Rightarrow> 'd \<Rightarrow> bool \<times> 'd"
  dbi_open :: "'d \<Rightarrow> bool"

definition dbi_get :: "'d offer_dbi \<Rightarrow> offer_key \<Rightarrow> 'd \<Rightarrow> offer option" where
  "dbi_get I k d = map_of (dbi_entries I d) k"

definition offer_dbi_ok :: "'d offer_dbi \<Rightarrow> bool" where
  "offer_dbi_ok I \<longleftrightarrow>
     (\<forall>k v d. dbi_entries I (dbi_put I k v d) = ins k v (dbi_entries I d)) \<and>
     (\<forall>k d. fst (dbi_del I k d) = (k \<in> fst ` set (dbi_entries I d)) \<and> dbi_entries I (snd (dbi_del I k d)) = del k (dbi_entries I d))"

definition list_dbi :: "((offer_key \<times> offer) list) offer_dbi" where
  "list_dbi = \<lparr>dbi_entries = (\<lambda>d. d), dbi_put = ins, dbi_del = (\<lambda>k d. (k \<in> fst ` set d, del k d)),
     dbi_open = (\<lambda>d. True)\<rparr>"

lemma list_dbi_ok: "offer_dbi_ok list_dbi"
  by (simp add: offer_dbi_ok_def list_dbi_def)

section \<open>Writing thunks\<close>

text \<open>
  A commit adds its thunk at the end (\<^verbatim>\<open>add_new_thunk_nolock\<close>, called by \<open>tentative_commit_for_validation\<close>); block numbers that do
  not grow are refused. The commit itself is modelled for the calls that are not refused.
\<close>

definition add_new_thunk_nolock :: "'t offer_trie \<Rightarrow> nat \<Rightarrow> 't thunk list \<Rightarrow> 't thunk list result" where
  "add_new_thunk_nolock T n ths =
     (if ths \<noteq> [] \<and> u64 (current_block_number (last ths) + 1) > n then Inl (RuntimeError ''thunks in the wrong order!'')
      else Inr (ths @ [new_thunk T n]))"

text \<open>Phase 1: deletions of each thunk. Keys that are not on disk yet are collected.\<close>

fun delete_keys :: "'d offer_dbi \<Rightarrow> offer_key list \<Rightarrow> 'd \<times> offer_key set \<Rightarrow> 'd \<times> offer_key set" where
  "delete_keys I [] st = st"
| "delete_keys I (k # ks) (d, later) =
     (case dbi_del I k d of (found, d') \<Rightarrow> delete_keys I ks (d', if found then later else insert k later))"

fun phase1 :: "'d offer_dbi \<Rightarrow> 't thunk list \<Rightarrow> 'd \<times> offer_key set \<Rightarrow> 'd \<times> offer_key set" where
  "phase1 I [] st = st"
| "phase1 I (th # ths) st = phase1 I ths (delete_keys I (map fst (deleted_keys th)) st)"

text \<open>The highest threshold key of the thunks with a partially executed offer, if there is one.\<close>

fun max_exec_key :: "'t thunk list \<Rightarrow> bool \<times> offer_key \<Rightarrow> bool \<times> offer_key" where
  "max_exec_key [] st = st"
| "max_exec_key (th # ths) (key_set, key_buf) =
     max_exec_key ths
       (if exists_partial_exec th
        then (True, if key_lt key_buf (partial_exec_key th) then partial_exec_key th else key_buf)
        else (key_set, key_buf))"

text \<open>
  Phase 2: the cursor is an index into the table. It is set to the least key that is not below the threshold and moved
  back by one, or to the last entry when no threshold is set or nothing is at or above it; then everything from
  there downwards is deleted. \<open>n\<close> is the number of entries up to the cursor.
\<close>

definition set_range :: "'d offer_dbi \<Rightarrow> offer_key \<Rightarrow> 'd \<Rightarrow> nat" where
  "set_range I lower d = length (takeWhile (\<lambda>e. key_lt (fst e) lower) (dbi_entries I d))"

fun cursor_delete :: "'d offer_dbi \<Rightarrow> nat \<Rightarrow> 'd \<Rightarrow> 'd" where
  "cursor_delete I 0 d = d"
| "cursor_delete I (Suc n) d = cursor_delete I n (snd (dbi_del I (fst (dbi_entries I d ! n)) d))"

definition phase2 :: "'d offer_dbi \<Rightarrow> bool \<times> offer_key \<Rightarrow> 'd \<Rightarrow> 'd" where
  "phase2 I mk d =
     (case mk of (key_set, key_buf) \<Rightarrow>
        let pos = set_range I key_buf d
        in if \<not> key_set \<or> pos = length (dbi_entries I d) then cursor_delete I (length (dbi_entries I d)) d
           else cursor_delete I pos d)"

text \<open>Phase 3: from the last thunk to the first, put its new offers from the highest key down to the threshold.\<close>

fun put_offers ::
  "'d offer_dbi \<Rightarrow> (offer_key \<Rightarrow> nat \<Rightarrow> nat \<Rightarrow> offer_key) \<Rightarrow> offer_key set \<Rightarrow> offer_key \<Rightarrow> offer list \<Rightarrow> 'd \<Rightarrow> 'd result" where
  "put_offers I wr8 later key_buf [] d = Inr d"
| "put_offers I wr8 later key_buf (off # offs) d =
     (let min_exec_price = read_price_big_endian key_buf; k = offer_key_of wr8 off
      in if amount off = 0 then Inl (RuntimeError ''tried to persist an amount 0 offer!'')
         else if minPrice off \<ge> min_exec_price \<and> (minPrice off > min_exec_price \<or> \<not> key_lt k key_buf) \<and> k \<notin> later
         then put_offers I wr8 later key_buf offs (dbi_put I k off d)
         else Inr d)"

fun phase3 ::
  "'d offer_dbi \<Rightarrow> (offer_key \<Rightarrow> nat \<Rightarrow> nat \<Rightarrow> offer_key) \<Rightarrow> offer_key set \<Rightarrow> 't thunk list \<Rightarrow> offer_key \<Rightarrow> 'd \<Rightarrow> 'd result" where
  "phase3 I wr8 later [] key_buf d = Inr d"
| "phase3 I wr8 later (th # ths) key_buf d =
     (let key_buf' = (if key_lt key_buf (partial_exec_key th) then partial_exec_key th else key_buf)
      in bind_result (put_offers I wr8 later key_buf' (rev (uncommitted_offers_vec th)) d) (phase3 I wr8 later ths key_buf'))"

text \<open>Phase 4: reduce the partially executed offers, in the order of the blocks.\<close>

definition partial_exec_step :: "'d offer_dbi \<Rightarrow> 't thunk \<Rightarrow> 'd \<Rightarrow> 'd result" where
  "partial_exec_step I th d =
     (if \<not> exists_partial_exec th then Inr d
      else case dbi_get I (partial_exec_key th) d of
        None \<Rightarrow> Inr d
      | Some off \<Rightarrow>
          if partial_exec_amount th < 0 then Inl (RuntimeError ''invalid thunks[i].partial_exec_amount'')
          else if to_u64 (partial_exec_amount th) > amount off
          then Inl (RuntimeError ''cant have partial exec offer.amount < thunk[i].partial_exec_amount'')
          else (let off' = off\<lparr>amount := sub64 (amount off) (to_u64 (partial_exec_amount th))\<rparr>
                in if amount off' > 0 then Inr (dbi_put I (partial_exec_key th) off' d)
                   else Inr (snd (dbi_del I (partial_exec_key th) d))))"

fun phase4 :: "'d offer_dbi \<Rightarrow> 't thunk list \<Rightarrow> 'd \<Rightarrow> 'd result" where
  "phase4 I [] d = Inr d"
| "phase4 I (th # ths) d = bind_result (partial_exec_step I th d) (phase4 I ths)"

text \<open>Phase 5: delete a threshold offer that is below the threshold of a later block.\<close>

fun phase5 :: "'d offer_dbi \<Rightarrow> 't thunk list \<Rightarrow> 'd \<Rightarrow> 'd" where
  "phase5 I [] d = d"
| "phase5 I (th # ths) d =
     phase5 I ths
       (if exists_partial_exec th \<and> list_ex (\<lambda>future. key_lt (partial_exec_key th) (partial_exec_key future)) ths
        then snd (dbi_del I (partial_exec_key th) d) else d)"

definition write_phases :: "'d offer_dbi \<Rightarrow> (offer_key \<Rightarrow> nat \<Rightarrow> nat \<Rightarrow> offer_key) \<Rightarrow> 't thunk list \<Rightarrow> 'd \<Rightarrow> 'd result" where
  "write_phases I wr8 ths d =
     (let (d1, later) = phase1 I ths (d, {}); mk = max_exec_key ths (False, zero_key)
      in bind_result (phase3 I wr8 later (rev ths) zero_key (phase2 I mk d1))
           (\<lambda>d3. bind_result (phase4 I ths d3) (\<lambda>d4. Inr (phase5 I ths d4))))"

text \<open>
  \<^verbatim>\<open>write_thunks\<close> takes the thunks up to a block out of the list; the second component are those that stay.
\<close>

definition write_thunks ::
  "'d offer_dbi \<Rightarrow> (offer_key \<Rightarrow> nat \<Rightarrow> nat \<Rightarrow> offer_key) \<Rightarrow> nat \<Rightarrow> nat \<Rightarrow> 't thunk list \<Rightarrow> 'd \<Rightarrow> ('d \<times> 't thunk list) result" where
  "write_thunks I wr8 persisted_round n ths d =
     (let relevant = filter (\<lambda>th. current_block_number th \<le> n) ths; kept = filter (\<lambda>th. \<not> current_block_number th \<le> n) ths
      in if relevant = [] then Inr (d, kept)
         else if current_block_number (hd relevant) < u64 (persisted_round + 1)
         then Inl (RuntimeError ''too small current_block_number'')
         else bind_result (write_phases I wr8 relevant d) (\<lambda>d'. Inr (d', kept)))"

text \<open>
  \<^verbatim>\<open>OrderbookManager::persist_lmdb\<close>: all books in one write transaction, whose commit sets the persisted round. A book
  whose table is not open keeps its thunks.
\<close>

fun persist_books ::
  "'d offer_dbi \<Rightarrow> (offer_key \<Rightarrow> nat \<Rightarrow> nat \<Rightarrow> offer_key) \<Rightarrow> nat \<Rightarrow> nat \<Rightarrow> ('t orderbook \<times> 'd) list \<Rightarrow> ('t orderbook \<times> 'd) list result" where
  "persist_books I wr8 persisted_round n [] = Inr []"
| "persist_books I wr8 persisted_round n ((ob, d) # obs) =
     bind_result (if dbi_open I d then write_thunks I wr8 persisted_round n (thunks ob) d else Inr (d, thunks ob))
       (\<lambda>(d', kept). bind_result (persist_books I wr8 persisted_round n obs) (\<lambda>obs'. Inr ((ob\<lparr>thunks := kept\<rparr>, d') # obs')))"

definition om_persist_lmdb ::
  "'d offer_dbi \<Rightarrow> (offer_key \<Rightarrow> nat \<Rightarrow> nat \<Rightarrow> offer_key) \<Rightarrow> nat \<Rightarrow> ('t orderbook \<times> 'd) list \<times> nat \<Rightarrow> (('t orderbook \<times> 'd) list \<times> nat) result" where
  "om_persist_lmdb I wr8 n st =
     (case st of (obs, persisted_round) \<Rightarrow>
        bind_result (persist_books I wr8 persisted_round n obs) (\<lambda>obs'. Inr (obs', n)))"

definition om_persist_lmdb_for_loading ::
  "'d offer_dbi \<Rightarrow> (offer_key \<Rightarrow> nat \<Rightarrow> nat \<Rightarrow> offer_key) \<Rightarrow> nat \<Rightarrow> ('t orderbook \<times> 'd) list \<times> nat \<Rightarrow> (('t orderbook \<times> 'd) list \<times> nat) result" where
  "om_persist_lmdb_for_loading I wr8 n st = (if snd st < n then om_persist_lmdb I wr8 n st else Inr st)"

section \<open>What a block does to a book\<close>

definition new_offers_of :: "(offer_key \<Rightarrow> nat \<Rightarrow> nat \<Rightarrow> offer_key) \<Rightarrow> 't thunk \<Rightarrow> (offer_key \<times> offer) list" where
  "new_offers_of wr8 th = map (\<lambda>off. (offer_key_of wr8 off, off)) (uncommitted_offers_vec th)"

definition reduce :: "int \<Rightarrow> offer option \<Rightarrow> offer option" where
  "reduce amt s = Option.bind s (\<lambda>off. if amount off \<le> nat amt then None else Some (off\<lparr>amount := amount off - nat amt\<rparr>))"

text \<open>The entry of a key after cancellations and new offers, and after the clearing of the block.\<close>

definition opened :: "(offer_key \<Rightarrow> nat \<Rightarrow> nat \<Rightarrow> offer_key) \<Rightarrow> 't thunk \<Rightarrow> offer_key \<Rightarrow> offer option \<Rightarrow> offer option" where
  "opened wr8 th k s =
     (case map_of (new_offers_of wr8 th) k of
        Some off \<Rightarrow> Some off
      | None \<Rightarrow> if k \<in> fst ` set (deleted_keys th) then None else s)"

definition after_block :: "(offer_key \<Rightarrow> nat \<Rightarrow> nat \<Rightarrow> offer_key) \<Rightarrow> 't thunk \<Rightarrow> (offer_key \<rightharpoonup> offer) \<Rightarrow> offer_key \<rightharpoonup> offer" where
  "after_block wr8 th B k =
     (if \<not> exists_partial_exec th \<or> key_lt k (partial_exec_key th) then None
      else if k = partial_exec_key th then reduce (partial_exec_amount th) (opened wr8 th k (B k))
      else opened wr8 th k (B k))"

section \<open>Byte keys\<close>

definition key22 :: "offer_key \<Rightarrow> bool" where
  "key22 k \<longleftrightarrow> length k = ORDERBOOK_KEY_LEN \<and> bytes k"

lemma key_lt_be: "key22 k \<Longrightarrow> key22 l \<Longrightarrow> key_lt k l \<longleftrightarrow> be_value k < be_value l"
  using memcmp_be_value [of k l] by (simp add: key22_def key_lt_def)

lemma key22_inj: "key22 k \<Longrightarrow> key22 l \<Longrightarrow> be_value k = be_value l \<Longrightarrow> k = l"
  using memcmp_be_value [of k l] memcmp_be_value [of l k] memcmp_swap [of k l] by (auto simp: key22_def)

lemma key22_zero [simp]: "key22 zero_key" "be_value zero_key = 0"
proof -
  have "be_value (replicate n 0) = 0" for n by (induction n) simp_all
  then show "be_value zero_key = 0" by (simp add: zero_key_def)
qed (simp add: key22_def zero_key_def bytes_def)

definition offer_ok :: "offer \<Rightarrow> bool" where
  "offer_ok off \<longleftrightarrow> 0 < amount off \<and> minPrice off \<le> MAX_PRICE"

text \<open>Comparing prices first and then keys is comparing keys.\<close>

lemma threshold_test:
  assumes wr: "writes_be8 wr8" and off: "offer_ok off" and kb: "key22 kb"
  shows "key22 (offer_key_of wr8 off)"
    and "minPrice off \<ge> read_price_big_endian kb \<and>
      (minPrice off > read_price_big_endian kb \<or> \<not> key_lt (offer_key_of wr8 off) kb)
      \<longleftrightarrow> \<not> key_lt (offer_key_of wr8 off) kb"
proof -
  let ?rest = "be_bytes 8 (owner off) @ be_bytes 8 (offerId off)"
  have k: "offer_key_of wr8 off = be_bytes 6 (minPrice off) @ ?rest"
    unfolding offer_key_of_def offer_trie_key_def by (rule generate_key_eq [OF wr]) simp
  show k22: "key22 (offer_key_of wr8 off)"
    unfolding k key22_def using bytes_be_bytes by (auto simp: ORDERBOOK_KEY_LEN_def bytes_def simp del: be_bytes.simps)
  have p48: "minPrice off mod 2 ^ 48 = minPrice off" using off by (simp add: offer_ok_def price_consts)
  have kl: "length kb = 22" "bytes kb" using kb by (simp_all add: key22_def ORDERBOOK_KEY_LEN_def)
  have rd: "read_price_big_endian kb = be_value (take 6 kb)"
    using kl read_price_loop_eq [of 6 kb 0] by (auto simp: read_price_big_endian_def bytes_def dest: in_set_takeD)
  have low: "be_value ?rest < 256 ^ 16" "be_value (drop 6 kb) < 256 ^ 16"
    using be_value_less [of ?rest] be_value_less [of "drop 6 kb"] kl bytes_be_bytes
    by (auto simp: bytes_def dest: in_set_dropD simp del: be_bytes.simps)
  have vk: "be_value (offer_key_of wr8 off) = minPrice off * 256 ^ 16 + be_value ?rest"
    unfolding k be_value_append be_value_be_bytes using p48 by (simp del: be_bytes.simps)
  have vb: "be_value kb = read_price_big_endian kb * 256 ^ 16 + be_value (drop 6 kb)"
    using kl rd be_value_append [of "take 6 kb" "drop 6 kb"] by simp
  have lt: "key_lt (offer_key_of wr8 off) kb \<longleftrightarrow>
      minPrice off * 256 ^ 16 + be_value ?rest < read_price_big_endian kb * 256 ^ 16 + be_value (drop 6 kb)"
    by (simp only: key_lt_be [OF k22 kb] vk vb)
  have mono: "a * B + x < b * B + y" if "a < b" "x < B" for a b x y B :: nat
  proof -
    have "a * B + x < (a + 1) * B" using that by simp
    also have "\<dots> \<le> b * B" using that by (intro mult_le_mono1) simp
    finally show ?thesis by simp
  qed
  show "minPrice off \<ge> read_price_big_endian kb \<and>
      (minPrice off > read_price_big_endian kb \<or> \<not> key_lt (offer_key_of wr8 off) kb)
      \<longleftrightarrow> \<not> key_lt (offer_key_of wr8 off) kb"
    unfolding lt
    using mono [OF _ low(1), of "minPrice off" "read_price_big_endian kb" "be_value (drop 6 kb)"]
      mono [OF _ low(2), of "read_price_big_endian kb" "minPrice off" "be_value ?rest"]
    by (meson leI less_asym)
qed

section \<open>The phases\<close>

lemma map_of_ins [simp]: "map_of (ins k v xs) = (map_of xs)(k \<mapsto> v)"
  by (induction k v xs rule: ins.induct) (auto simp: fun_eq_iff)

lemma map_of_del [simp]: "map_of (del k xs) = (map_of xs)(k := None)"
  by (induction xs) (auto simp: del_def fun_eq_iff)

definition table :: "'d offer_dbi \<Rightarrow> 'd \<Rightarrow> offer_key \<rightharpoonup> offer" where
  "table I d = map_of (dbi_entries I d)"

definition table_ok :: "'d offer_dbi \<Rightarrow> 'd \<Rightarrow> bool" where
  "table_ok I d \<longleftrightarrow> (\<forall>e\<in>set (dbi_entries I d). key22 (fst e)) \<and> sorted_wrt key_lt (map fst (dbi_entries I d))"

lemma table_update:
  assumes "offer_dbi_ok I"
  shows "table I (dbi_put I k v d) = (table I d)(k \<mapsto> v)" "table I (snd (dbi_del I k d)) = (table I d)(k := None)"
    "dbi_get I k d = table I d k"
  using assms by (simp_all add: offer_dbi_ok_def table_def dbi_get_def)

lemma table_ok_del: "offer_dbi_ok I \<Longrightarrow> table_ok I d \<Longrightarrow> table_ok I (snd (dbi_del I k d))"
  by (auto simp: table_ok_def offer_dbi_ok_def del_def sorted_wrt_map sorted_wrt_filter)

lemma phase1_deletes:
  assumes I: "offer_dbi_ok I"
  shows "table_ok I d \<Longrightarrow> delete_keys I ks (d, later) = (d', later') \<Longrightarrow>
      table_ok I d' \<and> (\<forall>k. table I d' k = (if k \<in> set ks then None else table I d k)) \<and> later' \<subseteq> later \<union> set ks"
    and "table_ok I d \<Longrightarrow> phase1 I ths (d, later) = (d', later') \<Longrightarrow>
      table_ok I d' \<and> (\<forall>k. table I d' k = (if \<exists>th\<in>set ths. k \<in> fst ` set (deleted_keys th) then None else table I d k))
      \<and> later' \<subseteq> later \<union> (\<Union>th\<in>set ths. fst ` set (deleted_keys th))"
proof -
  show del: "table_ok I d \<Longrightarrow> delete_keys I ks (d, later) = (d', later') \<Longrightarrow>
      table_ok I d' \<and> (\<forall>k. table I d' k = (if k \<in> set ks then None else table I d k)) \<and> later' \<subseteq> later \<union> set ks"
    for ks d later d' later'
  proof (induction ks arbitrary: d later)
    case (Cons k ks)
    obtain f d1 where d1: "dbi_del I k d = (f, d1)" by (cases "dbi_del I k d")
    have d1': "table_ok I d1" "table I d1 = (table I d)(k := None)"
      using table_ok_del [OF I Cons.prems(1), of k] table_update(2) [OF I, of k d] d1 by simp_all
    have "delete_keys I ks (d1, if f then later else insert k later) = (d', later')" using Cons.prems d1 by simp
    from Cons.IH [OF d1'(1) this] show ?case using d1'(2) by (auto split: if_splits)
  qed simp
  show "table_ok I d \<Longrightarrow> phase1 I ths (d, later) = (d', later') \<Longrightarrow>
      table_ok I d' \<and> (\<forall>k. table I d' k = (if \<exists>th\<in>set ths. k \<in> fst ` set (deleted_keys th) then None else table I d k))
      \<and> later' \<subseteq> later \<union> (\<Union>th\<in>set ths. fst ` set (deleted_keys th))"
  proof (induction ths arbitrary: d later)
    case (Cons th ths)
    obtain d1 l1 where d1: "delete_keys I (map fst (deleted_keys th)) (d, later) = (d1, l1)" by fastforce
    note D = del [OF Cons.prems(1) d1]
    have "phase1 I ths (d1, l1) = (d', later')" using Cons.prems(2) d1 by simp
    from Cons.IH [OF _ this] D show ?case by auto
  qed simp
qed

text \<open>The cursor deletes a prefix of the table.\<close>

lemma del_nth:
  assumes "distinct (map fst xs)" "n < length xs"
  shows "del (fst (xs ! n)) xs = take n xs @ drop (Suc n) xs"
proof -
  have other: "fst e \<noteq> fst (xs ! n)" if "e \<in> set (take n xs) \<union> set (drop (Suc n) xs)" for e
    using that assms by (auto simp: in_set_conv_nth distinct_conv_nth)
  have "xs = take n xs @ xs ! n # drop (Suc n) xs" using assms(2) by (rule id_take_nth_drop)
  then have "del (fst (xs ! n)) xs = del (fst (xs ! n)) (take n xs @ xs ! n # drop (Suc n) xs)" by simp
  also have "\<dots> = filter (\<lambda>e. fst e \<noteq> fst (xs ! n)) (take n xs) @ filter (\<lambda>e. fst e \<noteq> fst (xs ! n)) (drop (Suc n) xs)"
    by (simp add: del_def)
  also have "\<dots> = take n xs @ drop (Suc n) xs"
    using other by (intro arg_cong2 [where f = append]) (auto simp: filter_id_conv)
  finally show ?thesis .
qed

lemma cursor_delete_drop:
  assumes I: "offer_dbi_ok I"
  shows "distinct (map fst (dbi_entries I d)) \<Longrightarrow> n \<le> length (dbi_entries I d) \<Longrightarrow>
    dbi_entries I (cursor_delete I n d) = drop n (dbi_entries I d)"
proof (induction n arbitrary: d)
  case (Suc n)
  let ?es = "dbi_entries I d"
  have e: "dbi_entries I (snd (dbi_del I (fst (?es ! n)) d)) = take n ?es @ drop (Suc n) ?es"
    using I Suc.prems by (simp add: offer_dbi_ok_def del_nth)
  have "distinct (map fst (take n ?es @ drop (Suc n) ?es))"
    using Suc.prems by (simp flip: e) (metis I distinct_map_filter del_def offer_dbi_ok_def)
  then show ?case using Suc.IH [of "snd (dbi_del I (fst (?es ! n)) d)"] Suc.prems by (simp add: e)
qed simp

lemma sorted_keys_distinct:
  assumes "\<forall>k\<in>set ks. key22 k" "sorted_wrt key_lt ks"
  shows "distinct ks"
  using assms
proof (induction ks)
  case (Cons k ks)
  then have "k \<notin> set ks" using key_lt_be [of k k] by auto
  then show ?case using Cons by simp
qed simp

lemma table_ok_distinct: "table_ok I d \<Longrightarrow> distinct (map fst (dbi_entries I d))"
  by (rule sorted_keys_distinct) (simp_all add: table_ok_def)

lemma take_while_sorted:
  assumes "\<forall>e\<in>set es. key22 (fst e)" "sorted_wrt key_lt (map fst es)" "key22 l"
  shows "drop (length (takeWhile (\<lambda>e. key_lt (fst e) l) es)) es = filter (\<lambda>e. \<not> key_lt (fst e) l) es"
  using assms
proof (induction es)
  case (Cons e es)
  show ?case
  proof (cases "key_lt (fst e) l")
    case True
    then show ?thesis using Cons by simp
  next
    case False
    then have "\<forall>x\<in>set es. \<not> key_lt (fst x) l"
      using Cons.prems by (auto simp: key_lt_be)
    then show ?thesis using False by (simp add: filter_id_conv)
  qed
qed simp

text \<open>What phase 2 leaves.\<close>

lemma phase2_table:
  assumes I: "offer_dbi_ok I" and ok: "table_ok I d" and l: "key22 l"
  shows "table I (phase2 I (True, l) d) k = (if key_lt k l then None else table I d k)"
    and "table I (phase2 I (False, l) d) k = None"
proof -
  let ?es = "dbi_entries I d"
  note cur = cursor_delete_drop [OF I table_ok_distinct [OF ok]]
  have "dbi_entries I (phase2 I (True, l) d) = drop (set_range I l d) ?es"
  proof -
    have "set_range I l d \<le> length ?es" by (simp add: set_range_def length_takeWhile_le)
    then show ?thesis by (simp add: phase2_def cur Let_def)
  qed
  then have e: "dbi_entries I (phase2 I (True, l) d) = filter (\<lambda>e. \<not> key_lt (fst e) l) ?es"
    using take_while_sorted [of ?es l] ok l by (simp add: set_range_def table_ok_def)
  have "map_of (filter (\<lambda>e. \<not> P (fst e)) xs) k = (if P k then None else map_of xs k)" for P and xs :: "(offer_key \<times> offer) list"
    by (induction xs) auto
  from this [of "\<lambda>k. key_lt k l" ?es] show "table I (phase2 I (True, l) d) k = (if key_lt k l then None else table I d k)"
    by (simp add: table_def e)
  show "table I (phase2 I (False, l) d) k = None" by (simp add: phase2_def table_def cur Let_def)
qed

text \<open>The highest threshold of a list of thunks, as a number.\<close>

definition top_key :: "'t thunk list \<Rightarrow> nat" where
  "top_key ths = foldr (\<lambda>th. max (be_value (partial_exec_key th))) ths 0"

lemma top_key_simps [simp]:
  "top_key [] = 0" "top_key (th # ths) = max (be_value (partial_exec_key th)) (top_key ths)"
  by (simp_all add: top_key_def)

lemma top_key_append [simp]: "top_key (xs @ ys) = max (top_key xs) (top_key ys)"
  by (induction xs) (simp_all add: max.assoc)

lemma top_key_rev [simp]: "top_key (rev xs) = top_key xs"
  by (induction xs) (simp_all add: max.commute)

lemma max_exec_key_top:
  assumes "\<forall>th\<in>set ths. exists_partial_exec th \<and> key22 (partial_exec_key th)" "key22 k0"
  shows "\<exists>k. max_exec_key ths (b, k0) = (b \<or> ths \<noteq> [], k) \<and> key22 k \<and> be_value k = max (be_value k0) (top_key ths)"
  using assms
proof (induction ths arbitrary: b k0)
  case (Cons th ths)
  let ?k = "if key_lt k0 (partial_exec_key th) then partial_exec_key th else k0"
  have "key22 ?k" "be_value ?k = max (be_value k0) (be_value (partial_exec_key th))"
    using Cons.prems by (auto simp: key_lt_be)
  then show ?case using Cons.IH [of ?k True] Cons.prems by (auto simp: max.assoc)
qed simp

lemma max_exec_key_none: "\<forall>th\<in>set ths. \<not> exists_partial_exec th \<Longrightarrow> max_exec_key ths st = st"
  by (induction ths arbitrary: st) auto

definition offers_ok :: "(offer_key \<Rightarrow> nat \<Rightarrow> nat \<Rightarrow> offer_key) \<Rightarrow> 't thunk \<Rightarrow> bool" where
  "offers_ok wr8 th \<longleftrightarrow> list_all offer_ok (uncommitted_offers_vec th) \<and> sorted_wrt key_lt (map fst (new_offers_of wr8 th))"

lemma put_offers_table:
  assumes I: "offer_dbi_ok I" and wr: "writes_be8 wr8" and kb: "key22 kb"
  shows "list_all offer_ok offs \<Longrightarrow> sorted_wrt (\<lambda>k l. key_lt l k) (map (offer_key_of wr8) offs) \<Longrightarrow>
    \<forall>off\<in>set offs. offer_key_of wr8 off \<notin> later \<Longrightarrow>
    \<exists>d'. put_offers I wr8 later kb offs d = Inr d' \<and>
      (\<forall>k. table I d' k = (case map_of (map (\<lambda>off. (offer_key_of wr8 off, off)) offs) k of
         Some off \<Rightarrow> if be_value k < be_value kb then table I d k else Some off | None \<Rightarrow> table I d k))"
proof (induction offs arbitrary: d)
  case (Cons off offs)
  let ?k = "offer_key_of wr8 off"
  note tt = threshold_test [OF wr _ kb]
  have ok: "offer_ok off" "0 < amount off" and nl: "?k \<notin> later" using Cons.prems by (simp_all add: offer_ok_def)
  have k22: "\<forall>off\<in>set offs. key22 (offer_key_of wr8 off)" using Cons.prems(1) tt(1) by (auto simp: list_all_iff)
  have k: "key22 ?k" using tt(1) ok by blast
  have below: "\<forall>off\<in>set offs. be_value (offer_key_of wr8 off) < be_value ?k"
    using Cons.prems(2) k22 k by (auto simp: key_lt_be)
  show ?case
  proof (cases "key_lt ?k kb")
    case True
    then have "put_offers I wr8 later kb (off # offs) d = Inr d" using tt(2) ok nl by (auto simp: Let_def)
    moreover have "be_value k < be_value kb" if "map_of (map (\<lambda>off. (offer_key_of wr8 off, off)) (off # offs)) k = Some x" for k x
      using map_of_SomeD [OF that] below True k kb by (auto simp: key_lt_be)
    ultimately show ?thesis by (auto split: option.splits)
  next
    case False
    have fresh: "map_of (map (\<lambda>off. (offer_key_of wr8 off, off)) offs) ?k = None"
      using below by (auto simp: map_of_eq_None_iff)
    have "put_offers I wr8 later kb (off # offs) d = put_offers I wr8 later kb offs (dbi_put I ?k off d)"
      using tt(2) ok nl False by (auto simp: Let_def)
    moreover from Cons.IH [of "dbi_put I ?k off d"] Cons.prems obtain d' where "put_offers I wr8 later kb offs (dbi_put I ?k off d) = Inr d'"
      and t: "\<And>k. table I d' k = (case map_of (map (\<lambda>off. (offer_key_of wr8 off, off)) offs) k of
         Some x \<Rightarrow> if be_value k < be_value kb then table I (dbi_put I ?k off d) k else Some x | None \<Rightarrow> table I (dbi_put I ?k off d) k)" by auto
    moreover have "\<not> be_value ?k < be_value kb" using False k kb by (simp add: key_lt_be)
    ultimately show ?thesis
      using fresh by (intro exI [of _ d']) (auto simp: t table_update [OF I] simp del: put_offers.simps split: option.splits)
  qed
qed simp

text \<open>The offer that phase 3 puts under a key: thunks are visited in the order of the list.\<close>

fun put_value :: "(offer_key \<Rightarrow> nat \<Rightarrow> nat \<Rightarrow> offer_key) \<Rightarrow> offer_key \<Rightarrow> 't thunk list \<Rightarrow> nat \<Rightarrow> offer option" where
  "put_value wr8 k [] bound = None"
| "put_value wr8 k (th # ths) bound =
     (let bound' = max bound (be_value (partial_exec_key th))
      in case map_of (new_offers_of wr8 th) k of
           Some off \<Rightarrow> if be_value k < bound' then None else Some off
         | None \<Rightarrow> put_value wr8 k ths bound')"

definition created :: "(offer_key \<Rightarrow> nat \<Rightarrow> nat \<Rightarrow> offer_key) \<Rightarrow> offer_key \<Rightarrow> 't thunk list \<Rightarrow> bool" where
  "created wr8 k ths \<longleftrightarrow> (\<exists>th\<in>set ths. k \<in> fst ` set (new_offers_of wr8 th))"

lemma created_simps [simp]:
  "\<not> created wr8 k []" "created wr8 k (th # ths) \<longleftrightarrow> k \<in> fst ` set (new_offers_of wr8 th) \<or> created wr8 k ths"
  "created wr8 k (rev ths) \<longleftrightarrow> created wr8 k ths"
  by (simp_all add: created_def)

lemma put_value_not_created: "\<not> created wr8 k ths \<Longrightarrow> put_value wr8 k ths b = None"
proof (induction ths arbitrary: b)
  case (Cons th ths)
  then have "map_of (new_offers_of wr8 th) k = None" by (simp add: map_of_eq_None_iff)
  then show ?case using Cons by (simp add: Let_def)
qed simp

lemma put_value_append:
  "put_value wr8 k (xs @ ys) b = (if created wr8 k xs then put_value wr8 k xs b else put_value wr8 k ys (max b (top_key xs)))"
proof (induction xs arbitrary: b)
  case (Cons th xs)
  have "map_of (new_offers_of wr8 th) k = None \<longleftrightarrow> k \<notin> fst ` set (new_offers_of wr8 th)" by (simp add: map_of_eq_None_iff)
  then show ?case using Cons by (auto simp: Let_def max.assoc split: option.splits)
qed simp

definition created_once :: "(offer_key \<Rightarrow> nat \<Rightarrow> nat \<Rightarrow> offer_key) \<Rightarrow> 't thunk list \<Rightarrow> bool" where
  "created_once wr8 ths \<longleftrightarrow> distinct (List.maps (\<lambda>th. map fst (new_offers_of wr8 th)) ths)"

lemma created_once_Cons: "created_once wr8 (th # ths) \<Longrightarrow>
    created_once wr8 ths \<and> (\<forall>k. k \<in> fst ` set (new_offers_of wr8 th) \<longrightarrow> \<not> created wr8 k ths)"
  by (auto simp: created_once_def created_def)

lemma created_once_rev: "created_once wr8 (rev ths) = created_once wr8 ths"
proof -
  have "mset (List.maps (\<lambda>th. map fst (new_offers_of wr8 th)) (rev ths)) = mset (List.maps (\<lambda>th. map fst (new_offers_of wr8 th)) ths)"
    by (induction ths) simp_all
  then show ?thesis unfolding created_once_def by (metis mset_eq_imp_distinct_iff)
qed

lemma phase3_table:
  assumes I: "offer_dbi_ok I" and wr: "writes_be8 wr8"
  shows "key22 kb \<Longrightarrow> \<forall>th\<in>set ths. key22 (partial_exec_key th) \<and> offers_ok wr8 th \<Longrightarrow> created_once wr8 ths \<Longrightarrow>
    \<forall>k. created wr8 k ths \<longrightarrow> k \<notin> later \<Longrightarrow>
    \<exists>d'. phase3 I wr8 later ths kb d = Inr d' \<and>
      (\<forall>k. table I d' k = (case put_value wr8 k ths (be_value kb) of Some off \<Rightarrow> Some off | None \<Rightarrow> table I d k))"
proof (induction ths arbitrary: kb d)
  case (Cons th ths)
  let ?kb = "if key_lt kb (partial_exec_key th) then partial_exec_key th else kb"
  have kb: "key22 ?kb" "be_value ?kb = max (be_value kb) (be_value (partial_exec_key th))"
    using Cons.prems by (auto simp: key_lt_be)
  have ok: "list_all offer_ok (rev (uncommitted_offers_vec th))"
    "sorted_wrt (\<lambda>k l. key_lt l k) (map (offer_key_of wr8) (rev (uncommitted_offers_vec th)))"
    "\<forall>off\<in>set (rev (uncommitted_offers_vec th)). offer_key_of wr8 off \<notin> later"
  proof -
    show "list_all offer_ok (rev (uncommitted_offers_vec th))" using Cons.prems by (simp add: offers_ok_def)
    have "sorted_wrt key_lt (map (offer_key_of wr8) (uncommitted_offers_vec th))"
      using Cons.prems by (simp add: offers_ok_def new_offers_of_def comp_def)
    then show "sorted_wrt (\<lambda>k l. key_lt l k) (map (offer_key_of wr8) (rev (uncommitted_offers_vec th)))"
      by (simp only: sorted_wrt_rev rev_map [symmetric])
    have "offer_key_of wr8 off \<in> fst ` set (new_offers_of wr8 th)" if "off \<in> set (uncommitted_offers_vec th)" for off
      using that by (force simp: new_offers_of_def)
    then show "\<forall>off\<in>set (rev (uncommitted_offers_vec th)). offer_key_of wr8 off \<notin> later"
      using Cons.prems(4) by simp
  qed
  from put_offers_table [OF I wr kb(1) ok] obtain d1 where d1: "put_offers I wr8 later ?kb (rev (uncommitted_offers_vec th)) d = Inr d1"
    and t1: "\<And>k. table I d1 k = (case map_of (map (\<lambda>off. (offer_key_of wr8 off, off)) (rev (uncommitted_offers_vec th))) k of
         Some off \<Rightarrow> if be_value k < be_value ?kb then table I d k else Some off | None \<Rightarrow> table I d k)" by blast
  have once: "created_once wr8 ths" "\<And>k. k \<in> fst ` set (new_offers_of wr8 th) \<Longrightarrow> \<not> created wr8 k ths"
    using created_once_Cons [OF Cons.prems(3)] by blast+
  have "distinct (map fst (new_offers_of wr8 th))" using Cons.prems(3) by (simp add: created_once_def)
  then have rv: "map_of (map (\<lambda>off. (offer_key_of wr8 off, off)) (rev (uncommitted_offers_vec th))) = map_of (new_offers_of wr8 th)"
    by (simp add: rev_map [symmetric] new_offers_of_def [symmetric] map_of_inject_set distinct_map)
  from Cons.IH [OF kb(1), of d1] Cons.prems once(1)
  obtain d' where d': "phase3 I wr8 later ths ?kb d1 = Inr d'"
    and t': "\<And>k. table I d' k = (case put_value wr8 k ths (be_value ?kb) of Some off \<Rightarrow> Some off | None \<Rightarrow> table I d1 k)" by auto
  have "table I d' k = (case put_value wr8 k (th # ths) (be_value kb) of Some off \<Rightarrow> Some off | None \<Rightarrow> table I d k)" for k
  proof (cases "map_of (new_offers_of wr8 th) k")
    case None
    then have "table I d1 k = table I d k" by (simp only: t1 rv option.case)
    then show ?thesis using None by (simp add: t' kb(2) Let_def split: option.split)
  next
    case (Some off)
    then have "put_value wr8 k ths b = None" for b
      using once(2) [of k] put_value_not_created by (force dest: map_of_SomeD)
    then show ?thesis using Some by (simp add: t' t1 rv kb(2) Let_def)
  qed
  then show ?case using d1 d' by (simp add: Let_def)
qed simp

section \<open>A batch is its blocks one after the other\<close>

definition cancelled :: "offer_key \<Rightarrow> 't thunk list \<Rightarrow> bool" where
  "cancelled k ths \<longleftrightarrow> (\<exists>th\<in>set ths. k \<in> fst ` set (deleted_keys th))"

lemma cancelled_simps [simp]:
  "\<not> cancelled k []" "cancelled k (th # ths) \<longleftrightarrow> k \<in> fst ` set (deleted_keys th) \<or> cancelled k ths"
  by (simp_all add: cancelled_def)

text \<open>The entry of a key when phase 4 starts, for the rest of the batch and the entry before it.\<close>

definition seed :: "(offer_key \<Rightarrow> nat \<Rightarrow> nat \<Rightarrow> offer_key) \<Rightarrow> 't thunk list \<Rightarrow> offer_key \<Rightarrow> offer option \<Rightarrow> offer option" where
  "seed wr8 ths k s =
     (if created wr8 k ths then put_value wr8 k (rev ths) 0
      else if cancelled k ths \<or> be_value k < top_key ths then None else s)"

lemma seed_Nil [simp]: "seed wr8 [] k s = s"
  by (simp add: seed_def)

text \<open>
  A batch that the orderbook can have produced from the book \<open>B\<close>: offers are created once and with fresh keys, and the
  partially executed offer of a block is in the book and large enough.
\<close>

fun partials_ok :: "(offer_key \<Rightarrow> nat \<Rightarrow> nat \<Rightarrow> offer_key) \<Rightarrow> 't thunk list \<Rightarrow> (offer_key \<rightharpoonup> offer) \<Rightarrow> bool" where
  "partials_ok wr8 [] B = True"
| "partials_ok wr8 (th # ths) B =
     ((exists_partial_exec th \<longrightarrow>
         0 \<le> partial_exec_amount th \<and>
         (case opened wr8 th (partial_exec_key th) (B (partial_exec_key th)) of
            None \<Rightarrow> False
          | Some off \<Rightarrow> partial_exec_amount th \<le> int (amount off) \<and> amount off < 2 ^ 63)) \<and>
      partials_ok wr8 ths (after_block wr8 th B))"

definition fresh_keys :: "(offer_key \<Rightarrow> nat \<Rightarrow> nat \<Rightarrow> offer_key) \<Rightarrow> 't thunk list \<Rightarrow> (offer_key \<rightharpoonup> offer) \<Rightarrow> bool" where
  "fresh_keys wr8 ths B \<longleftrightarrow> created_once wr8 ths \<and> (\<forall>k. created wr8 k ths \<longrightarrow> B k = None \<and> key22 k)"

lemma opened_new: "map_of (new_offers_of wr8 th) k = Some off \<Longrightarrow> opened wr8 th k s = Some off"
  by (simp add: opened_def)

lemma opened_old: "k \<notin> fst ` set (new_offers_of wr8 th) \<Longrightarrow> opened wr8 th k s = (if k \<in> fst ` set (deleted_keys th) then None else s)"
  using map_of_eq_None_iff [of "new_offers_of wr8 th" k] by (simp add: opened_def)

lemma reduce_None [simp]: "reduce amt None = None"
  by (simp add: reduce_def)

lemma fresh_after_block:
  assumes "fresh_keys wr8 (th # ths) B"
  shows "fresh_keys wr8 ths (after_block wr8 th B)"
proof -
  have once: "created_once wr8 ths" "\<And>k. created wr8 k ths \<Longrightarrow> k \<notin> fst ` set (new_offers_of wr8 th)"
    using assms created_once_Cons [of wr8 th ths] by (auto simp: fresh_keys_def)
  have "after_block wr8 th B k = None" if "created wr8 k ths" for k
    using that opened_old [OF once(2) [OF that], of "B k"] assms by (auto simp: after_block_def fresh_keys_def)
  then show ?thesis using once assms by (simp add: fresh_keys_def)
qed

text \<open>One block keeps the relation between the book and the table of phase 4.\<close>

lemma seed_step:
  assumes fresh: "fresh_keys wr8 (th # ths) B" and nc: "\<forall>k. created wr8 k (th # ths) \<longrightarrow> \<not> cancelled k (th # ths)"
    and p: "exists_partial_exec th" "key22 (partial_exec_key th)" and k: "key22 k"
    and pok: "partials_ok wr8 (th # ths) B"
  shows "seed wr8 ths k (after_block wr8 th B k) =
      (if k = partial_exec_key th then reduce (partial_exec_amount th) (seed wr8 (th # ths) k (B k)) else seed wr8 (th # ths) k (B k))"
    and "k = partial_exec_key th \<Longrightarrow> seed wr8 (th # ths) k (B k) \<in> {None, opened wr8 th k (B k)}"
proof -
  let ?p = "partial_exec_key th"
  have lt: "key_lt k ?p \<longleftrightarrow> be_value k < be_value ?p" using key_lt_be [OF k p(2)] .
  have eq: "be_value k < be_value ?p \<Longrightarrow> k \<noteq> ?p" by auto
  have both: "seed wr8 ths k (after_block wr8 th B k) =
      (if k = ?p then reduce (partial_exec_amount th) (seed wr8 (th # ths) k (B k)) else seed wr8 (th # ths) k (B k))
    \<and> (k = ?p \<longrightarrow> seed wr8 (th # ths) k (B k) \<in> {None, opened wr8 th k (B k)})"
  proof (cases "created wr8 k ths")
    case True
    have n: "k \<notin> fst ` set (new_offers_of wr8 th)" "B k = None"
      using fresh True created_once_Cons [of wr8 th ths] by (auto simp: fresh_keys_def)
    then have "opened wr8 th k (B k) = None" by (simp add: opened_old)
    then have "k \<noteq> ?p" using pok p by auto
    moreover have "seed wr8 (th # ths) k (B k) = seed wr8 ths k s" for s
      using True by (simp add: seed_def put_value_append)
    ultimately show ?thesis by metis
  next
    case False
    then have rest: "seed wr8 ths k s = (if cancelled k ths \<or> be_value k < top_key ths then None else s)" for s
      by (simp add: seed_def)
    show ?thesis
    proof (cases "k \<in> fst ` set (new_offers_of wr8 th)")
      case True
      then obtain off where off: "map_of (new_offers_of wr8 th) k = Some off" by (cases "map_of (new_offers_of wr8 th) k") (auto simp: map_of_eq_None_iff)
      have c: "\<not> cancelled k ths" using nc True by auto
      have "seed wr8 (th # ths) k (B k) = (if be_value k < max (top_key ths) (be_value ?p) then None else Some off)"
        using True False off by (simp add: seed_def put_value_append)
      then show ?thesis using opened_new [OF off] c lt p(1) eq by (auto simp: rest after_block_def)
    next
      case new: False
      then have "seed wr8 (th # ths) k (B k) =
          (if k \<in> fst ` set (deleted_keys th) \<or> cancelled k ths \<or> be_value k < max (be_value ?p) (top_key ths) then None else B k)"
        using False by (auto simp: seed_def)
      then show ?thesis using opened_old [OF new] lt p(1) eq by (auto simp: rest after_block_def)
    qed
  qed
  then show "seed wr8 ths k (after_block wr8 th B k) =
      (if k = ?p then reduce (partial_exec_amount th) (seed wr8 (th # ths) k (B k)) else seed wr8 (th # ths) k (B k))" by blast
  show "k = ?p \<Longrightarrow> seed wr8 (th # ths) k (B k) \<in> {None, opened wr8 th k (B k)}" using both by simp
qed

lemma after_block_key22:
  assumes "\<forall>k. B k \<noteq> None \<longrightarrow> key22 k" "fresh_keys wr8 (th # ths) B"
  shows "after_block wr8 th B k \<noteq> None \<Longrightarrow> key22 k"
proof -
  assume a: "after_block wr8 th B k \<noteq> None"
  then have "opened wr8 th k (B k) \<noteq> None" by (cases "opened wr8 th k (B k)") (auto simp: after_block_def split: if_splits)
  then show ?thesis
    using assms opened_old [of k wr8 th "B k"] by (cases "k \<in> fst ` set (new_offers_of wr8 th)") (auto simp: fresh_keys_def split: if_splits)
qed

lemma partial_exec_step_table:
  assumes I: "offer_dbi_ok I" and p: "exists_partial_exec th"
    and amt: "0 \<le> partial_exec_amount th"
    and le: "\<And>off. table I d (partial_exec_key th) = Some off \<Longrightarrow> partial_exec_amount th \<le> int (amount off) \<and> amount off < 2 ^ 63"
  shows "\<exists>d'. partial_exec_step I th d = Inr d' \<and>
    table I d' = (table I d)(partial_exec_key th := reduce (partial_exec_amount th) (table I d (partial_exec_key th)))"
proof (cases "table I d (partial_exec_key th)")
  case None
  then have "(table I d)(partial_exec_key th := None) = table I d" by auto
  then show ?thesis using None p by (simp add: partial_exec_step_def table_update [OF I])
next
  case (Some off)
  have u: "to_u64 (partial_exec_amount th) = nat (partial_exec_amount th)"
    using amt le [OF Some] by (simp add: to_u64_def)
  have n: "nat (partial_exec_amount th) \<le> amount off" using amt le [OF Some] by linarith
  then have "sub64 (amount off) (nat (partial_exec_amount th)) = amount off - nat (partial_exec_amount th)"
    using le [OF Some] by (intro sub64_id) simp_all
  then show ?thesis
    using Some p amt n by (auto simp: partial_exec_step_def table_update [OF I] u Let_def reduce_def)
qed

lemma phase4_table:
  assumes I: "offer_dbi_ok I"
  shows "fresh_keys wr8 ths B \<Longrightarrow> \<forall>k. created wr8 k ths \<longrightarrow> \<not> cancelled k ths \<Longrightarrow>
    \<forall>th\<in>set ths. exists_partial_exec th \<and> key22 (partial_exec_key th) \<Longrightarrow> partials_ok wr8 ths B \<Longrightarrow>
    \<forall>k. B k \<noteq> None \<longrightarrow> key22 k \<Longrightarrow> \<forall>k. table I d k = seed wr8 ths k (B k) \<Longrightarrow>
    \<exists>d'. phase4 I ths d = Inr d' \<and> table I d' = fold (after_block wr8) ths B"
proof (induction ths arbitrary: B d)
  case Nil
  then show ?case by auto
next
  case (Cons th ths)
  let ?p = "partial_exec_key th"
  have p: "exists_partial_exec th" "key22 ?p" using Cons.prems by simp_all
  note step = seed_step [OF Cons.prems(1,2) p _ Cons.prems(4)]
  obtain off where off: "opened wr8 th ?p (B ?p) = Some off" "0 \<le> partial_exec_amount th"
      "partial_exec_amount th \<le> int (amount off)" "amount off < 2 ^ 63"
    using Cons.prems(4) p(1) by (auto split: option.splits)
  have "table I d ?p \<in> {None, Some off}" using step(2) [OF p(2) refl] Cons.prems(6) off(1) by simp
  then obtain d1 where d1: "partial_exec_step I th d = Inr d1"
      "table I d1 = (table I d)(?p := reduce (partial_exec_amount th) (table I d ?p))"
    using partial_exec_step_table [OF I p(1) off(2), of d] off(3,4) by auto
  have t1: "table I d1 k = seed wr8 ths k (after_block wr8 th B k)" for k
  proof (cases "key22 k")
    case True
    then show ?thesis using step(1) [OF True] d1(2) Cons.prems(6) by simp
  next
    case False
    then have nc: "\<not> created wr8 k (th # ths)" using Cons.prems(1) by (auto simp: fresh_keys_def)
    have "after_block wr8 th B k = None" "B k = None"
      using after_block_key22 [OF Cons.prems(5,1), of k] False Cons.prems(5) by blast+
    then show ?thesis using d1(2) Cons.prems(6) nc False p(2) by (auto simp: seed_def)
  qed
  have "\<exists>d'. phase4 I ths d1 = Inr d' \<and> table I d' = fold (after_block wr8) ths (after_block wr8 th B)"
  proof (rule Cons.IH)
    show "fresh_keys wr8 ths (after_block wr8 th B)" using fresh_after_block [OF Cons.prems(1)] .
    show "\<forall>k. after_block wr8 th B k \<noteq> None \<longrightarrow> key22 k" using after_block_key22 [OF Cons.prems(5,1)] by blast
  qed (use Cons.prems t1 in auto)
  then show ?case using d1(1) by simp
qed

text \<open>A key below a later threshold that is not created again is gone at the end.\<close>

lemma fold_stays_none:
  "\<not> created wr8 k ths \<Longrightarrow> B k = None \<Longrightarrow> fold (after_block wr8) ths B k = None"
proof (induction ths arbitrary: B)
  case (Cons th ths)
  then have "opened wr8 th k (B k) = None" using opened_old [of k wr8 th "B k"] by simp
  then have "after_block wr8 th B k = None" by (auto simp: after_block_def)
  then show ?case using Cons by simp
qed simp

lemma fold_below_threshold:
  assumes "\<not> created wr8 k ths" "\<exists>th\<in>set ths. key_lt k (partial_exec_key th)"
  shows "fold (after_block wr8) ths B k = None"
  using assms
proof (induction ths arbitrary: B)
  case (Cons th ths)
  show ?case
  proof (cases "key_lt k (partial_exec_key th)")
    case True
    then have "after_block wr8 th B k = None" by (simp add: after_block_def)
    then show ?thesis using fold_stays_none [of wr8 k ths "after_block wr8 th B"] Cons.prems(1) by simp
  next
    case False
    then show ?thesis using Cons by simp
  qed
qed simp

lemma phase5_table:
  assumes I: "offer_dbi_ok I"
  shows "fresh_keys wr8 ths B \<Longrightarrow> partials_ok wr8 ths B \<Longrightarrow> table I d = fold (after_block wr8) ths B \<Longrightarrow>
    table I (phase5 I ths d) = fold (after_block wr8) ths B"
proof (induction ths arbitrary: B d)
  case (Cons th ths)
  let ?p = "partial_exec_key th"
  let ?d = "if exists_partial_exec th \<and> list_ex (\<lambda>future. key_lt ?p (partial_exec_key future)) ths then snd (dbi_del I ?p d) else d"
  have "table I ?d = table I d"
  proof (cases "exists_partial_exec th \<and> list_ex (\<lambda>future. key_lt ?p (partial_exec_key future)) ths")
    case True
    then have "opened wr8 th ?p (B ?p) \<noteq> None" using Cons.prems(2) by (auto split: option.splits)
    then have "?p \<in> fst ` set (new_offers_of wr8 th) \<or> B ?p \<noteq> None"
      using opened_old [of ?p wr8 th "B ?p"] by metis
    then have "\<not> created wr8 ?p ths"
      using Cons.prems(1) created_once_Cons [of wr8 th ths] by (auto simp: fresh_keys_def)
    then have "fold (after_block wr8) ths (after_block wr8 th B) ?p = None"
      using True by (intro fold_below_threshold) (auto simp: list_ex_iff)
    then have "table I d ?p = None" using Cons.prems(3) by simp
    then show ?thesis using True by (auto simp: table_update [OF I])
  qed (simp only: if_False)
  then show ?case using Cons.IH [of "after_block wr8 th B" ?d] Cons.prems fresh_after_block [OF Cons.prems(1)] by simp
qed simp

text \<open>The conditions under which a batch is written correctly.\<close>

definition max_key :: offer_key where "max_key = replicate ORDERBOOK_KEY_LEN 255"

definition all_or_none :: "'t thunk list \<Rightarrow> bool" where
  "all_or_none ths \<longleftrightarrow>
     list_all (\<lambda>th. exists_partial_exec th \<and> key22 (partial_exec_key th)) ths \<or>
     list_all (\<lambda>th. \<not> exists_partial_exec th \<and> partial_exec_key th = max_key) ths"

definition batch_ok :: "(offer_key \<Rightarrow> nat \<Rightarrow> nat \<Rightarrow> offer_key) \<Rightarrow> 't thunk list \<Rightarrow> (offer_key \<rightharpoonup> offer) \<Rightarrow> bool" where
  "batch_ok wr8 ths B \<longleftrightarrow>
     fresh_keys wr8 ths B \<and> partials_ok wr8 ths B \<and> list_all (offers_ok wr8) ths \<and>
     (\<forall>k. created wr8 k ths \<longrightarrow> k \<noteq> max_key)"

definition never_cancelled :: "(offer_key \<Rightarrow> nat \<Rightarrow> nat \<Rightarrow> offer_key) \<Rightarrow> 't thunk list \<Rightarrow> bool" where
  "never_cancelled wr8 ths \<longleftrightarrow> (\<forall>k. created wr8 k ths \<longrightarrow> \<not> cancelled k ths)"

lemma table_key22: "table_ok I d \<Longrightarrow> table I d k \<noteq> None \<Longrightarrow> key22 k"
  by (force simp: table_ok_def table_def dest: map_of_SomeD)

lemma write_phases_partial:
  assumes I: "offer_dbi_ok I" and wr: "writes_be8 wr8" and ok: "table_ok I d" and ne: "ths \<noteq> []"
    and batch: "batch_ok wr8 ths (table I d)" and nc: "never_cancelled wr8 ths"
    and part: "\<forall>th\<in>set ths. exists_partial_exec th \<and> key22 (partial_exec_key th)"
  shows "\<exists>d'. write_phases I wr8 ths d = Inr d' \<and> table I d' = fold (after_block wr8) ths (table I d)"
proof -
  let ?B = "table I d"
  obtain d1 later where d1: "phase1 I ths (d, {}) = (d1, later)" by fastforce
  note P1 = phase1_deletes(2) [OF I ok d1]
  obtain K where K: "max_exec_key ths (False, zero_key) = (True, K)" "key22 K" "be_value K = top_key ths"
    using max_exec_key_top [OF part, of zero_key False] ne by auto
  let ?d2 = "phase2 I (True, K) d1"
  have t2: "table I ?d2 k = (if cancelled k ths \<or> key_lt k K then None else ?B k)" for k
    using P1 phase2_table(1) [OF I _ K(2), of d1 k] by (auto simp: cancelled_def)
  have later: "\<forall>k. created wr8 k (rev ths) \<longrightarrow> k \<notin> later"
    using P1 nc unfolding never_cancelled_def cancelled_def created_simps by blast
  have fr: "fresh_keys wr8 ths ?B" "partials_ok wr8 ths ?B" using batch by (simp_all add: batch_ok_def)
  obtain d3 where d3: "phase3 I wr8 later (rev ths) zero_key ?d2 = Inr d3"
      and t3: "\<And>k. table I d3 k = (case put_value wr8 k (rev ths) 0 of Some off \<Rightarrow> Some off | None \<Rightarrow> table I ?d2 k)"
    using phase3_table [OF I wr key22_zero(1), of "rev ths" later ?d2] batch part later
    by (auto simp: batch_ok_def fresh_keys_def created_once_rev list_all_iff)
  have s3: "table I d3 k = seed wr8 ths k (?B k)" for k
  proof (cases "created wr8 k ths")
    case True
    then have "?B k = None" using fr by (simp add: fresh_keys_def)
    then show ?thesis using True by (simp add: t3 t2 seed_def split: option.split)
  next
    case False
    then have pv: "put_value wr8 k (rev ths) 0 = None" by (simp add: put_value_not_created)
    show ?thesis
    proof (cases "key22 k")
      case True
      then show ?thesis using False pv key_lt_be [OF True K(2)] K(3) by (simp add: t3 t2 seed_def)
    next
      case nk: False
      then have "?B k = None" using table_key22 [OF ok, of k] by blast
      then show ?thesis using False pv by (simp add: t3 t2 seed_def)
    qed
  qed
  have "\<forall>k. ?B k \<noteq> None \<longrightarrow> key22 k" using table_key22 [OF ok] by blast
  then obtain d4 where d4: "phase4 I ths d3 = Inr d4" "table I d4 = fold (after_block wr8) ths ?B"
    using phase4_table [OF I fr(1) _ part fr(2)] nc s3 unfolding never_cancelled_def by blast
  have "table I (phase5 I ths d4) = fold (after_block wr8) ths ?B" using phase5_table [OF I fr d4(2)] .
  then show ?thesis by (simp add: write_phases_def d1 K(1) d3 d4(1))
qed

lemma write_phases_none:
  assumes I: "offer_dbi_ok I" and wr: "writes_be8 wr8" and ok: "table_ok I d" and ne: "ths \<noteq> []"
    and batch: "batch_ok wr8 ths (table I d)" and nc: "never_cancelled wr8 ths"
    and none: "\<forall>th\<in>set ths. \<not> exists_partial_exec th \<and> partial_exec_key th = max_key"
  shows "\<exists>d'. write_phases I wr8 ths d = Inr d' \<and> table I d' = fold (after_block wr8) ths (table I d)"
proof -
  obtain d1 later where d1: "phase1 I ths (d, {}) = (d1, later)" by fastforce
  note P1 = phase1_deletes(2) [OF I ok d1]
  have m22: "key22 max_key" by (simp add: key22_def max_key_def bytes_def)
  let ?d2 = "phase2 I (False, zero_key) d1"
  have later: "\<forall>k. created wr8 k (rev ths) \<longrightarrow> k \<notin> later"
    using P1 nc unfolding never_cancelled_def cancelled_def created_simps by blast
  obtain d3 where d3: "phase3 I wr8 later (rev ths) zero_key ?d2 = Inr d3"
      and t3: "\<And>k. table I d3 k = (case put_value wr8 k (rev ths) 0 of Some off \<Rightarrow> Some off | None \<Rightarrow> table I ?d2 k)"
    using phase3_table [OF I wr key22_zero(1), of "rev ths" later ?d2] batch none later m22
    by (auto simp: batch_ok_def fresh_keys_def created_once_rev list_all_iff)
  have pv: "put_value wr8 k ths' b = None" if "set ths' \<subseteq> set ths" for k ths' b
    using that
  proof (induction ths' arbitrary: b)
    case (Cons th ths')
    have "be_value k < be_value (partial_exec_key th)" if "map_of (new_offers_of wr8 th) k = Some off" for off
    proof -
      have "k \<in> fst ` set (new_offers_of wr8 th)" using map_of_SomeD [OF that] by force
      then have "created wr8 k ths" using Cons.prems by (auto simp: created_def)
      then have k: "key22 k" "k \<noteq> max_key" using batch by (auto simp: batch_ok_def fresh_keys_def)
      have "be_value k \<le> be_value max_key"
      proof -
        have "be_value (replicate n 255) + 1 = 256 ^ n" for n by (induction n) simp_all
        from this [of ORDERBOOK_KEY_LEN] show ?thesis using be_value_less [of k] k by (simp add: key22_def max_key_def)
      qed
      then show ?thesis using key22_inj [OF k(1) m22] k(2) none Cons.prems by fastforce
    qed
    then show ?case using Cons by (cases "map_of (new_offers_of wr8 th) k") (auto simp: Let_def)
  qed simp
  have t3': "table I d3 k = None" for k
    using P1 phase2_table(2) [OF I _ key22_zero(1), of d1] pv [of "rev ths"] by (simp add: t3)
  have p4: "phase4 I ths' d3 = Inr d3" "phase5 I ths' d3 = d3" if "set ths' \<subseteq> set ths" for ths'
    using that none by (induction ths') (auto simp: partial_exec_step_def)
  have "fold (after_block wr8) ths (table I d) = (\<lambda>_. None)"
    using ne none by (induction ths rule: rev_induct) (auto simp: after_block_def fun_eq_iff)
  moreover have "table I d3 = (\<lambda>_. None)" using t3' by blast
  ultimately show ?thesis
    using none by (simp add: write_phases_def d1 max_exec_key_none d3 p4)
qed

lemma write_phases_exact:
  assumes "offer_dbi_ok I" "writes_be8 wr8" "table_ok I d" "ths \<noteq> []" "batch_ok wr8 ths (table I d)" "never_cancelled wr8 ths" "all_or_none ths"
  shows "\<exists>d'. write_phases I wr8 ths d = Inr d' \<and> table I d' = fold (after_block wr8) ths (table I d)"
  using write_phases_partial [OF assms(1-6)] write_phases_none [OF assms(1-6)] assms(7)
  by (auto simp: all_or_none_def list_all_iff)

section \<open>The thunks of the orderbook\<close>

lemma process_partial_thunk:
  assumes T: "offer_trie_ok T bk" and book: "entries (bk (committed_offers ob)) = (k, v) # rest"
    and fresh: "del k ((k, v) # rest) = rest" and th: "thunks ob \<noteq> []"
    and r: "r < 2 ^ 128" "cdiv r 1024 \<le> amount v" "amount v < 2 ^ 63"
    and run: "process_partial T D p q tax r k (ob, (db, lg), com, stats) = Inr (ob', dl', com', stats')"
  shows "thunks ob' = butlast (thunks ob) @ [set_partial_exec k (int (cdiv r 1024)) v (last (thunks ob))]"
proof -
  obtain c where del: "ot_perform_deletion T k (committed_offers ob) = (c, Some v)"
    using deletion_book [OF T, of k "committed_offers ob"] book fresh by auto
  obtain idx where idx: "cd_lookup_user D (owner v) db = Some idx"
    using run del by (auto simp: process_partial_def Let_def split: option.splits)
  then obtain db' sell buy
    where part: "clear_offer_partial (cd_transfer D) v p q tax r idx db = Some (db', sell, buy)"
    using run del by (auto simp: process_partial_def Let_def bind_result_Inr)
  have "cdiv r 1024 < 2 ^ 63" using r by linarith
  then have sell: "sell = int (cdiv r 1024)" using clear_offer_partial_ceil [OF part r(1)] by blast
  show ?thesis
    using run del idx part th
    by (auto simp: process_partial_def Let_def on_top_thunk_eq sell split: if_splits)
qed

definition book_map :: "('t \<Rightarrow> book) \<Rightarrow> 't orderbook \<Rightarrow> offer_key \<rightharpoonup> offer" where
  "book_map bk ob = map_of (entries (bk (committed_offers ob)))"

lemma fold_ins_map: "map_of (fold (\<lambda>(k, v). ins k v) xs ys) = map_of ys ++ map_of (rev xs)"
proof (induction xs arbitrary: ys)
  case (Cons x xs)
  then show ?case by (cases x) (auto simp: map_add_def fun_eq_iff split: option.split)
qed simp

text \<open>The book when clearing starts, in terms of the thunk the commit made.\<close>

lemma commit_opens:
  fixes n :: nat
  assumes T: "offer_trie_ok T bk"
    and keys: "\<forall>e\<in>set (entries (bk (uncommitted_offers ob))). fst e = offer_key_of wr8 (snd e)"
    and dist: "distinct (map fst (entries (bk (uncommitted_offers ob))))"
  defines "ob1 \<equiv> commit_for_production T n ob"
  shows "\<exists>th. thunks ob1 = thunks ob @ [th] \<and> ob_category ob1 = ob_category ob \<and> current_block_number th = n \<and>
    new_offers_of wr8 th = entries (bk (uncommitted_offers ob)) \<and>
    (\<forall>k. book_map bk ob1 k = opened wr8 th k (book_map bk ob k))"
proof -
  obtain c del where del: "ot_perform_marked_deletions T (committed_offers ob) = (c, del)" by fastforce
  have "bk_fst bk (c, del) = b_perform_marked_deletions (bk (committed_offers ob))" using T del trie_eqs(4) by metis
  then have c: "entries (bk c) = filter (\<lambda>e. fst e \<notin> marks (bk (committed_offers ob))) (entries (bk (committed_offers ob)))"
      "del = filter (\<lambda>e. fst e \<in> marks (bk (committed_offers ob))) (entries (bk (committed_offers ob)))"
    by (auto simp: bk_fst_def b_perform_marked_deletions_def dest: arg_cong [where f = entries])
  let ?new = "entries (bk (uncommitted_offers ob))"
  define th where "th = (new_thunk T n)\<lparr>uncommitted_offers_vec := ot_values T (uncommitted_offers ob), deleted_keys := del\<rparr>"
  have ob1: "thunks ob1 = thunks ob @ [th]" "ob_category ob1 = ob_category ob"
      "committed_offers ob1 = ot_merge_in T (uncommitted_offers ob) c"
    by (simp_all add: ob1_def commit_for_production_def generate_metadata_index_def tentative_commit_for_validation_def del add_new_thunk_def th_def)
  have th: "deleted_keys th = del" "current_block_number th = n" by (simp_all add: th_def new_thunk_def)
  have new: "new_offers_of wr8 th = ?new"
    using keys by (auto simp: th_def new_offers_of_def trie_eqs [OF T] prod_eq_iff intro!: map_idI)
  have mem: "k \<in> fst ` set del \<longleftrightarrow> k \<in> marks (bk (committed_offers ob)) \<and> map_of (entries (bk (committed_offers ob))) k \<noteq> None" for k
    by (auto simp: c(2) map_of_eq_None_iff)
  have filt: "map_of (filter (\<lambda>e. fst e \<notin> M) xs) k = (if k \<in> M then None else map_of xs k)" for M and xs :: "(offer_key \<times> offer) list" and k
    by (induction xs) auto
  have rv: "map_of (rev ?new) = map_of ?new" using dist by (simp add: map_of_inject_set distinct_map)
  have "book_map bk ob1 k = (case map_of ?new k of Some off \<Rightarrow> Some off | None \<Rightarrow> if k \<in> marks (bk (committed_offers ob)) then None else book_map bk ob k)" for k
    by (simp add: book_map_def ob1(3) trie_eqs [OF T] b_merge_in_def fold_ins_map rv c(1) filt map_add_def split: option.split)
  moreover have "opened wr8 th k (book_map bk ob k) = (case map_of ?new k of Some off \<Rightarrow> Some off | None \<Rightarrow> if k \<in> marks (bk (committed_offers ob)) then None else book_map bk ob k)" for k
    using mem [of k] by (auto simp: opened_def new th(1) book_map_def split: option.split)
  ultimately show ?thesis using ob1 new th by auto
qed

lemma set_partial_exec_fields [simp]:
  "new_offers_of wr8 (set_partial_exec k a v th) = new_offers_of wr8 th" "opened wr8 (set_partial_exec k a v th) = opened wr8 th"
  "new_offers_of wr8 (set_no_partial_exec th) = new_offers_of wr8 th" "opened wr8 (set_no_partial_exec th) = opened wr8 th"
  "new_offers_of wr8 (th\<lparr>cleared_offers := fc\<rparr>) = new_offers_of wr8 th" "opened wr8 (th\<lparr>cleared_offers := fc\<rparr>) = opened wr8 th"
  by (simp_all add: new_offers_of_def opened_def set_partial_exec_def set_no_partial_exec_def fun_eq_iff)

text \<open>Clearing follows the thunk.\<close>

lemma clearing_follows_thunk:
  assumes T: "offer_trie_ok T bk" and ok: "book_ok (entries (bk (committed_offers ob)))"
    and th: "thunks ob = ths @ [th]" and s: "s < 2 ^ 128"
    and opened: "\<forall>k. book_map bk ob k = opened wr8 th k (B k)"
    and run: "process_clear_offers T D wr s prices tax (ob, dl, com, stats) = Inr (ob', dl', com', stats')"
  shows "\<exists>th'. thunks ob' = ths @ [th'] \<and> new_offers_of wr8 th' = new_offers_of wr8 th \<and> current_block_number th' = current_block_number th \<and>
    book_map bk ob' = after_block wr8 th' B \<and> partials_ok wr8 [th'] B \<and>
    (if exists_partial_exec th' then key22 (partial_exec_key th') else partial_exec_key th' = max_key)"
proof -
  let ?es = "entries (bk (committed_offers ob))"
  obtain pre rest where split: "split_at (s div 1024) ?es = (pre, rest)" by fastforce
  have es: "?es = pre @ rest" and le: "sold pre \<le> s div 1024" using split_at_append [OF split] by auto
  have ne: "thunks ob \<noteq> []" using th by simp
  obtain db lg where dl: "dl = (db, lg)" by fastforce
  from process_clear_offers_outcome [OF T ok ne s split refl refl run]
  obtain dl1 ob1 fc where ob1: "thunks ob1 = ths @ [th\<lparr>cleared_offers := fc\<rparr>]" "entries (bk (committed_offers ob1)) = rest"
      and fin: "if rest = [] then entries (bk (committed_offers ob')) = [] \<and> thunks ob' = butlast (thunks ob1) @ [set_no_partial_exec (last (thunks ob1))]
       else process_partial T D (prices ! sellAsset (ob_category ob)) (prices ! buyAsset (ob_category ob)) tax (s - sold pre * 1024) (fst (hd rest))
         (ob1, dl1, com\<lparr>fractionalSupplyActivated_bytes := wr s, partialExecOfferActivationAmount_bytes := wr (s - sold pre * 1024)\<rparr>,
          count_full (length pre) stats) = Inr (ob', dl', com', stats')"
    using th by (cases "rest = []") auto
  show ?thesis
  proof (cases "rest = []")
    case True
    then have "thunks ob' = ths @ [set_no_partial_exec (th\<lparr>cleared_offers := fc\<rparr>)]" "book_map bk ob' = (\<lambda>_. None)"
      using fin ob1 by (simp_all add: book_map_def)
    then show ?thesis by (auto simp: set_no_partial_exec_def after_block_def fun_eq_iff max_key_def new_offers_of_def)
  next
    case False
    then obtain k v rs where rest: "rest = (k, v) # rs" by (cases rest) auto
    have ok': "book_ok (pre @ (k, v) # rs)" using ok es rest by simp
    then have "book_ok ((k, v) # rs)" using book_ok_append by blast
    then have fresh: "del k ((k, v) # rs) = rs" using book_at_threshold(2) [of "[]" k v rs] by simp
    have bound: "amount v < 2 ^ 63" using ok' by (simp add: book_ok_def)
    let ?r = "s - sold pre * 1024" and ?c = "cdiv (s - sold pre * 1024) 1024"
    have r: "?r < 2 ^ 128" "?c \<le> amount v"
      using s remaining_le_amount [OF split_at_next [OF split [unfolded rest], unfolded snd_conv] le] by auto
    obtain db1 lg1 where dl1: "dl1 = (db1, lg1)" by fastforce
    have run': "process_partial T D (prices ! sellAsset (ob_category ob)) (prices ! buyAsset (ob_category ob)) tax ?r k
         (ob1, (db1, lg1), com\<lparr>fractionalSupplyActivated_bytes := wr s, partialExecOfferActivationAmount_bytes := wr ?r\<rparr>,
          count_full (length pre) stats) = Inr (ob', dl', com', stats')"
      using fin rest dl1 by simp
    have ne1: "thunks ob1 \<noteq> []" using ob1 by simp
    note out = process_partial_outcome [OF T ob1(2) [unfolded rest] fresh ne1 r bound run']
      process_partial_thunk [OF T ob1(2) [unfolded rest] fresh ne1 r bound run']
    let ?th = "set_partial_exec k (int ?c) v (th\<lparr>cleared_offers := fc\<rparr>)"
    have thunk': "thunks ob' = ths @ [?th]" using out(2) ob1 by simp
    have flds: "exists_partial_exec ?th" "partial_exec_key ?th = k" "partial_exec_amount ?th = int ?c" by (simp_all add: set_partial_exec_def)
    have book': "entries (bk (committed_offers ob')) = after_partial k v ?c rs" using out(1) by blast
    note sp = book_ok_split [OF ok'] and at = book_at_threshold [OF ok']
    have op: "opened wr8 th x (B x) = map_of (pre @ (k, v) # rs) x" for x
      using opened es rest by (simp add: book_map_def)
    have bm: "book_map bk ob' x = after_block wr8 ?th B x" for x
    proof (cases "x = k")
      case True
      have "map_of rs k = None" using sp(6) by (simp add: map_of_eq_None_iff)
      then show ?thesis
        using True at(4) op [of k] key_lt_irrefl [OF sp(3)] r(2)
        by (auto simp: book_map_def book' after_partial_def after_block_def flds reduce_def)
    next
      case False
      have "book_map bk ob' x = map_of rs x" using False by (simp add: book_map_def book' after_partial_def)
      moreover have "map_of rs x = (if key_lt x k then None else map_of (pre @ (k, v) # rs) x)"
      proof (cases "key_lt x k")
        case True
        then have "x \<notin> fst ` set rs" using sp(2) by auto
        then show ?thesis using True by (simp add: map_of_eq_None_iff)
      next
        case nlt: False
        then have "x \<notin> fst ` set pre" using sp(1) by auto
        then have "map_of pre x = None" by (simp add: map_of_eq_None_iff)
        then show ?thesis using nlt False by (auto simp: map_add_def split: option.split)
      qed
      ultimately show ?thesis using False op [of x] by (simp add: after_block_def flds)
    qed
    have "key22 k" using sp(3) by (simp add: key_ok_def key22_def)
    moreover have "partials_ok wr8 [?th] B"
      using op [of k] at(4) r(2) bound by (simp add: flds)
    moreover have "current_block_number ?th = current_block_number th" by (simp add: set_partial_exec_def)
    ultimately show ?thesis using thunk' bm flds by (intro exI [of _ ?th]) auto
  qed
qed

section \<open>The table stays ordered\<close>

lemma keys_ins: "fst ` set (ins k v xs) = insert k (fst ` set xs)"
  by (induction k v xs rule: ins.induct) auto

lemma sorted_ins:
  assumes "\<forall>e\<in>set xs. key22 (fst e)" "sorted_wrt key_lt (map fst xs)" "key22 k"
  shows "sorted_wrt key_lt (map fst (ins k v xs))"
  using assms
proof (induction k v xs rule: ins.induct)
  case (2 k v l w xs)
  have l: "key22 l" "\<forall>e\<in>set xs. key22 (fst e)" "\<forall>x\<in>fst ` set xs. key_lt l x" using "2.prems" by auto
  show ?case
  proof (cases "k = l \<or> key_lt k l")
    case True
    have "key_lt k x" if "key_lt k l" "x \<in> fst ` set xs" for x
    proof -
      have "key22 x" "key_lt l x" using that(2) l by auto
      then show ?thesis using that(1) l(1) "2.prems"(3) by (simp add: key_lt_be)
    qed
    then show ?thesis using True "2.prems" by auto
  next
    case False
    then have "key_lt l k" using l(1) "2.prems"(3) key22_inj [of k l] by (auto simp: key_lt_be not_less_iff_gr_or_eq)
    moreover have "sorted_wrt key_lt (map fst (ins k v xs))" using False "2.IH" "2.prems" by auto
    moreover have "\<forall>x\<in>fst ` set (ins k v xs). key_lt l x" using l(3) \<open>key_lt l k\<close> by (simp add: keys_ins)
    ultimately show ?thesis using False by simp
  qed
qed simp

lemma table_ok_put: "offer_dbi_ok I \<Longrightarrow> table_ok I d \<Longrightarrow> key22 k \<Longrightarrow> table_ok I (dbi_put I k v d)"
proof -
  assume a: "offer_dbi_ok I" "table_ok I d" "key22 k"
  have "\<forall>x\<in>fst ` set (ins k v (dbi_entries I d)). key22 x" using a by (auto simp: keys_ins table_ok_def simp del: image_iff)
  then show "table_ok I (dbi_put I k v d)"
    using a sorted_ins [of "dbi_entries I d" k v] by (simp add: table_ok_def offer_dbi_ok_def)
qed

lemma table_ok_phase2: "offer_dbi_ok I \<Longrightarrow> table_ok I d \<Longrightarrow> table_ok I (phase2 I mk d)"
proof -
  assume I: "offer_dbi_ok I"
  have "table_ok I d \<Longrightarrow> table_ok I (cursor_delete I n d)" for n and d
    by (induction n arbitrary: d) (simp_all add: table_ok_del [OF I])
  then show "table_ok I d \<Longrightarrow> table_ok I (phase2 I mk d)" by (simp add: phase2_def Let_def split: prod.split)
qed

lemma table_ok_put_offers:
  assumes I: "offer_dbi_ok I" and wr: "writes_be8 wr8"
  shows "table_ok I d \<Longrightarrow> list_all offer_ok offs \<Longrightarrow> put_offers I wr8 later kb offs d = Inr d' \<Longrightarrow> table_ok I d'"
proof (induction offs arbitrary: d)
  case (Cons off offs)
  have "key22 (offer_key_of wr8 off)" using threshold_test(1) [OF wr _ key22_zero(1), of off] Cons.prems(2) by simp
  then show ?case using Cons table_ok_put [OF I, of d "offer_key_of wr8 off" off] by (auto simp: Let_def split: if_splits)
qed simp

lemma table_ok_phase3:
  assumes I: "offer_dbi_ok I" and wr: "writes_be8 wr8"
  shows "table_ok I d \<Longrightarrow> list_all (offers_ok wr8) ths \<Longrightarrow> phase3 I wr8 later ths kb d = Inr d' \<Longrightarrow> table_ok I d'"
proof (induction ths arbitrary: kb d)
  case (Cons th ths)
  let ?kb = "if key_lt kb (partial_exec_key th) then partial_exec_key th else kb"
  obtain d1 where d1: "put_offers I wr8 later ?kb (rev (uncommitted_offers_vec th)) d = Inr d1" "phase3 I wr8 later ths ?kb d1 = Inr d'"
    using Cons.prems(3) by (auto simp: Let_def bind_result_Inr)
  then show ?case using Cons table_ok_put_offers [OF I wr Cons.prems(1) _ d1(1)] by (auto simp: offers_ok_def)
qed simp

lemma table_ok_phase45:
  assumes I: "offer_dbi_ok I" and p: "\<forall>th\<in>set ths. exists_partial_exec th \<longrightarrow> key22 (partial_exec_key th)"
  shows "table_ok I d \<Longrightarrow> phase4 I ths d = Inr d' \<Longrightarrow> table_ok I d'" "table_ok I d \<Longrightarrow> table_ok I (phase5 I ths d)"
proof -
  have step: "table_ok I d1" if "table_ok I d" "exists_partial_exec th \<longrightarrow> key22 (partial_exec_key th)" "partial_exec_step I th d = Inr d1" for th d d1
    using that table_ok_put [OF I] table_ok_del [OF I] by (auto simp: partial_exec_step_def Let_def split: if_splits option.splits)
  show "table_ok I d \<Longrightarrow> phase4 I ths d = Inr d' \<Longrightarrow> table_ok I d'"
    using p by (induction ths arbitrary: d) (auto simp: bind_result_Inr dest: step)
  show "table_ok I d \<Longrightarrow> table_ok I (phase5 I ths d)"
    using p by (induction ths arbitrary: d) (auto simp: table_ok_del [OF I])
qed

lemma write_phases_ordered:
  assumes I: "offer_dbi_ok I" and wr: "writes_be8 wr8" and ok: "table_ok I d" and offs: "list_all (offers_ok wr8) ths"
    and p: "\<forall>th\<in>set ths. exists_partial_exec th \<longrightarrow> key22 (partial_exec_key th)" and run: "write_phases I wr8 ths d = Inr d'"
  shows "table_ok I d'"
proof -
  obtain d1 later where d1: "phase1 I ths (d, {}) = (d1, later)" by fastforce
  from run obtain d3 d4 where d3: "phase3 I wr8 later (rev ths) zero_key (phase2 I (max_exec_key ths (False, zero_key)) d1) = Inr d3"
      "phase4 I ths d3 = Inr d4" "d' = phase5 I ths d4"
    by (auto simp: write_phases_def d1 Let_def bind_result_Inr)
  have "table_ok I d1" using phase1_deletes(2) [OF I ok d1] by blast
  then have "table_ok I d3" using table_ok_phase3 [OF I wr _ _ d3(1)] table_ok_phase2 [OF I] offs by simp
  then show ?thesis using table_ok_phase45 [OF I p] d3 by blast
qed

section \<open>Reading the table back\<close>

definition keyed :: "(offer_key \<Rightarrow> nat \<Rightarrow> nat \<Rightarrow> offer_key) \<Rightarrow> (offer_key \<rightharpoonup> offer) \<Rightarrow> bool" where
  "keyed wr8 B \<longleftrightarrow> (\<forall>k off. B k = Some off \<longrightarrow> k = offer_key_of wr8 off \<and> 0 < amount off)"

lemma keyed_after_block:
  assumes "keyed wr8 B" "offers_ok wr8 th"
  shows "keyed wr8 (after_block wr8 th B)"
proof -
  have "k = offer_key_of wr8 off \<and> 0 < amount off" if "opened wr8 th k (B k) = Some off" for k off
    using that assms by (auto simp: opened_def keyed_def offers_ok_def list_all_iff offer_ok_def new_offers_of_def
        split: option.splits if_splits dest!: map_of_SomeD)
  then show ?thesis
    by (auto simp: keyed_def after_block_def reduce_def offer_key_of_def offer_trie_key_def split: if_splits bind_splits)
qed

lemma keyed_fold: "keyed wr8 B \<Longrightarrow> list_all (offers_ok wr8) ths \<Longrightarrow> keyed wr8 (fold (after_block wr8) ths B)"
  by (induction ths arbitrary: B) (simp_all add: keyed_after_block)

lemma load_offers_map:
  assumes T: "offer_trie_ok T bk"
  shows "\<forall>e\<in>set es. fst e = offer_key_of wr8 (snd e) \<and> 0 < amount (snd e) \<Longrightarrow>
    \<exists>t'. load_offers T wr8 (map snd es) t = Inr t' \<and> map_of (entries (bk t')) = map_of (entries (bk t)) ++ map_of (rev es)"
proof (induction es arbitrary: t)
  case (Cons e es)
  let ?t = "ot_insert T (offer_key_of wr8 (snd e)) (snd e) t"
  have t: "map_of (entries (bk ?t)) = (map_of (entries (bk t)))(fst e \<mapsto> snd e)"
    using Cons.prems by (simp add: trie_eqs [OF T] b_insert_def)
  obtain t' where t': "load_offers T wr8 (map snd es) ?t = Inr t'" "map_of (entries (bk t')) = map_of (entries (bk ?t)) ++ map_of (rev es)"
    using Cons.IH [of ?t] Cons.prems by auto
  then have "map_of (entries (bk t')) = map_of (entries (bk t)) ++ map_of (rev (e # es))"
    using t by (cases e) (simp add: map_add_def fun_eq_iff split: option.split)
  then show ?case using t'(1) Cons.prems by auto
qed simp

section \<open>Runs of blocks\<close>

text \<open>
  The blocks a producer adds to a book: transactions leave the committed offers and the thunks alone (they mark
  committed offers and add uncommitted ones), the commit merges both, and clearing executes the block's supply.
\<close>

inductive blocks_run ::
  "'t offer_trie \<Rightarrow> ('t \<Rightarrow> book) \<Rightarrow> ('p, 'db) clearing_db \<Rightarrow> (nat \<Rightarrow> nat list) \<Rightarrow> (offer_key \<Rightarrow> nat \<Rightarrow> nat \<Rightarrow> offer_key)
     \<Rightarrow> 't orderbook \<Rightarrow> 't orderbook \<Rightarrow> 't thunk list \<Rightarrow> bool"
  for T bk D wr wr8 ob0 where
  start: "blocks_run T bk D wr wr8 ob0 ob0 []"
| block: "blocks_run T bk D wr wr8 ob0 ob ths \<Longrightarrow> add_new_thunk_nolock T n (thunks ob) = Inr ths2 \<Longrightarrow>
    thunks ob2 = thunks ob \<Longrightarrow> entries (bk (committed_offers ob2)) = entries (bk (committed_offers ob)) \<Longrightarrow>
    \<forall>e\<in>set (entries (bk (uncommitted_offers ob2))). fst e = offer_key_of wr8 (snd e) \<Longrightarrow>
    distinct (map fst (entries (bk (uncommitted_offers ob2)))) \<Longrightarrow>
    book_ok (entries (bk (committed_offers (commit_for_production T n ob2)))) \<Longrightarrow> s < 2 ^ 128 \<Longrightarrow>
    process_clear_offers T D wr s prices tax (commit_for_production T n ob2, dl, com :: nat list single_orderbook_state_commitment, stats) = Inr (ob3, dl', com', stats') \<Longrightarrow>
    blocks_run T bk D wr wr8 ob0 ob3 (ths @ [last (thunks ob3)])"

lemma partials_ok_append [simp]:
  "partials_ok wr8 (xs @ ys) B \<longleftrightarrow> partials_ok wr8 xs B \<and> partials_ok wr8 ys (fold (after_block wr8) xs B)"
  by (induction xs arbitrary: B) auto

definition threshold_ok :: "'t thunk \<Rightarrow> bool" where
  "threshold_ok th \<longleftrightarrow> (if exists_partial_exec th then key22 (partial_exec_key th) else partial_exec_key th = max_key)"

lemma blocks_run_effect:
  assumes T: "offer_trie_ok T bk"
  shows "blocks_run T bk D wr wr8 ob0 ob ths \<Longrightarrow>
    thunks ob = thunks ob0 @ ths \<and> book_map bk ob = fold (after_block wr8) ths (book_map bk ob0) \<and>
    partials_ok wr8 ths (book_map bk ob0) \<and> list_all threshold_ok ths"
proof (induction rule: blocks_run.induct)
  case (block ob ths n ths2 ob2 s prices tax dl com stats ob3 dl' com' stats')
  let ?B = "book_map bk ob"
  let ?ob1 = "commit_for_production T n ob2"
  have B: "book_map bk ob2 = ?B" using block.hyps(4) by (simp add: book_map_def)
  obtain th where th: "thunks ?ob1 = thunks ob2 @ [th]" "\<forall>k. book_map bk ?ob1 k = opened wr8 th k (?B k)"
    using commit_opens [OF T block.hyps(5,6), of n] B by auto
  from clearing_follows_thunk [OF T block.hyps(7) th(1) block.hyps(8) th(2) block.hyps(9)]
  obtain th' where th': "thunks ob3 = thunks ob2 @ [th']" "book_map bk ob3 = after_block wr8 th' ?B" "partials_ok wr8 [th'] ?B" "threshold_ok th'"
    unfolding threshold_ok_def by blast
  then show ?case using block.IH block.hyps(3) by auto
qed simp

lemma all_or_none_thresholds:
  "list_all threshold_ok ths \<Longrightarrow> list_all exists_partial_exec ths \<or> list_all (\<lambda>th. \<not> exists_partial_exec th) ths \<Longrightarrow> all_or_none ths"
  by (auto simp: all_or_none_def list_all_iff threshold_ok_def)

lemma load_restores:
  assumes T: "offer_trie_ok T bk" and ok: "table_ok I d" and keyed: "keyed wr8 (table I d)"
  shows "\<exists>ob. load_lmdb_contents_to_memory T wr8 (map snd (dbi_entries I d)) (ob_init T c) = Inr ob \<and> book_map bk ob = table I d"
proof -
  let ?es = "dbi_entries I d"
  have dist: "distinct (map fst ?es)" by (rule table_ok_distinct [OF ok])
  have "\<forall>e\<in>set ?es. fst e = offer_key_of wr8 (snd e) \<and> 0 < amount (snd e)"
    using keyed dist by (auto simp: keyed_def table_def)
  from load_offers_map [OF T this, of "ot_new T"]
  obtain t' where t': "load_offers T wr8 (map snd ?es) (ot_new T) = Inr t'" "map_of (entries (bk t')) = map_of (rev ?es)"
    by (auto simp: trie_eqs(1) [OF T] empty_book_def)
  have "map_of (rev ?es) = map_of ?es" using dist by (simp add: map_of_inject_set distinct_map)
  then show ?thesis
    using t' by (simp add: load_lmdb_contents_to_memory_def ob_init_def generate_metadata_index_def book_map_def table_def)
qed

section \<open>Batches outside the conditions\<close>

text \<open>What the phases leave alone, for any batch; \<open>submap\<close> is for those that only delete.\<close>

lemma put_offers_other:
  assumes I: "offer_dbi_ok I" and k: "k \<notin> offer_key_of wr8 ` set offs"
  shows "put_offers I wr8 later kb offs d = Inr d' \<Longrightarrow> table I d' k = table I d k"
  using k by (induction offs arbitrary: d) (auto simp: Let_def table_update [OF I] split: if_splits)

lemma new_keys: "fst ` set (new_offers_of wr8 th) = offer_key_of wr8 ` set (uncommitted_offers_vec th)"
  by (force simp: new_offers_of_def)

lemma phase3_other:
  assumes I: "offer_dbi_ok I"
  shows "phase3 I wr8 later ths kb d = Inr d' \<Longrightarrow> \<not> created wr8 k ths \<Longrightarrow> table I d' k = table I d k"
proof (induction ths arbitrary: kb d)
  case (Cons th ths)
  then show ?case using put_offers_other [OF I, of k wr8 "rev (uncommitted_offers_vec th)"]
    by (fastforce simp: Let_def bind_result_Inr new_keys)
qed simp

lemma partial_exec_step_other:
  assumes I: "offer_dbi_ok I" and run: "partial_exec_step I th d = Inr d'"
  shows "exists_partial_exec th \<longrightarrow> partial_exec_key th \<noteq> k \<Longrightarrow> table I d' k = table I d k"
    and "table I d k = None \<Longrightarrow> table I d' k = None"
  using run by (auto simp: partial_exec_step_def table_update [OF I] Let_def split: if_splits option.splits)

lemma phase4_other:
  assumes I: "offer_dbi_ok I"
  shows "phase4 I ths d = Inr d' \<Longrightarrow> \<forall>th\<in>set ths. exists_partial_exec th \<longrightarrow> partial_exec_key th \<noteq> k \<Longrightarrow> table I d' k = table I d k"
    and "phase4 I ths d = Inr d' \<Longrightarrow> table I d k = None \<Longrightarrow> table I d' k = None"
  using partial_exec_step_other [OF I] by (induction ths arbitrary: d) (fastforce simp: bind_result_Inr)+

lemma phase5_other:
  assumes I: "offer_dbi_ok I"
  shows "\<forall>th\<in>set ths. exists_partial_exec th \<longrightarrow> partial_exec_key th \<noteq> k \<Longrightarrow> table I (phase5 I ths d) k = table I d k"
    and "table I d k = None \<Longrightarrow> table I (phase5 I ths d) k = None"
    and "table I (phase5 I ths d) k \<in> {None, table I d k}"
proof -
  show "\<forall>th\<in>set ths. exists_partial_exec th \<longrightarrow> partial_exec_key th \<noteq> k \<Longrightarrow> table I (phase5 I ths d) k = table I d k"
    by (induction ths arbitrary: d) (auto simp: table_update [OF I])
  show sub: "table I (phase5 I ths d) k \<in> {None, table I d k}"
  proof (induction ths arbitrary: d)
    case (Cons th ths)
    show ?case using Cons.IH [of "if exists_partial_exec th \<and> list_ex (\<lambda>future. key_lt (partial_exec_key th) (partial_exec_key future)) ths
        then snd (dbi_del I (partial_exec_key th) d) else d"] by (auto simp: table_update [OF I] split: if_splits)
  qed simp
  then show "table I d k = None \<Longrightarrow> table I (phase5 I ths d) k = None" by auto
qed

lemma max_exec_key_mixed:
  "max_exec_key ths (b, k0) = (b', kx) \<Longrightarrow> (b' \<longleftrightarrow> b \<or> (\<exists>th\<in>set ths. exists_partial_exec th))
    \<and> (kx = k0 \<or> (\<exists>th\<in>set ths. exists_partial_exec th \<and> kx = partial_exec_key th))"
  by (induction ths arbitrary: b k0) (auto split: if_splits)

text \<open>Every phase writes an offer under its own key.\<close>

lemma keyed_put_offers:
  assumes I: "offer_dbi_ok I"
  shows "keyed wr8 (table I d) \<Longrightarrow> put_offers I wr8 later kb offs d = Inr d' \<Longrightarrow> keyed wr8 (table I d')"
proof (induction offs arbitrary: d)
  case (Cons off offs)
  have "keyed wr8 (table I (dbi_put I (offer_key_of wr8 off) off d))" if "amount off \<noteq> 0"
    using Cons.prems(1) that by (simp add: keyed_def table_update [OF I])
  then show ?case using Cons by (auto simp: Let_def split: if_splits)
qed simp

lemma keyed_phase3:
  assumes I: "offer_dbi_ok I"
  shows "keyed wr8 (table I d) \<Longrightarrow> phase3 I wr8 later ths kb d = Inr d' \<Longrightarrow> keyed wr8 (table I d')"
  by (induction ths arbitrary: kb d) (auto simp: Let_def bind_result_Inr dest: keyed_put_offers [OF I])

lemma keyed_step:
  assumes I: "offer_dbi_ok I" and keyed: "keyed wr8 (table I d)" and run: "partial_exec_step I th d = Inr d'"
  shows "keyed wr8 (table I d')"
proof -
  have same: "offer_key_of wr8 (off\<lparr>amount := x\<rparr>) = offer_key_of wr8 off" for off x
    by (simp add: offer_key_of_def offer_trie_key_def)
  show ?thesis
    using keyed run same
    by (auto simp: partial_exec_step_def keyed_def table_update [OF I] Let_def split: if_splits option.splits)
qed

lemma keyed_phase4:
  assumes I: "offer_dbi_ok I"
  shows "keyed wr8 (table I d) \<Longrightarrow> phase4 I ths d = Inr d' \<Longrightarrow> keyed wr8 (table I d')"
  by (induction ths arbitrary: d) (auto simp: bind_result_Inr dest: keyed_step [OF I])

text \<open>A batch in its five phases, with what they keep.\<close>

lemma write_phases_split:
  assumes I: "offer_dbi_ok I" and ok: "table_ok I d" and p: "\<forall>th\<in>set ths. exists_partial_exec th \<longrightarrow> key22 (partial_exec_key th)"
    and run: "write_phases I wr8 ths d = Inr d'"
  obtains d1 later b kx d3 d4 where "phase1 I ths (d, {}) = (d1, later)" "table_ok I d1"
    "\<And>k. table I d1 k = (if cancelled k ths then None else table I d k)"
    "max_exec_key ths (False, zero_key) = (b, kx)" "key22 kx"
    "phase3 I wr8 later (rev ths) zero_key (phase2 I (b, kx) d1) = Inr d3" "phase4 I ths d3 = Inr d4" "d' = phase5 I ths d4"
    "\<And>k. table I (phase2 I (b, kx) d1) k = (if \<not> b \<or> key_lt k kx then None else table I d1 k)"
proof -
  obtain d1 later where d1: "phase1 I ths (d, {}) = (d1, later)" by fastforce
  note P1 = phase1_deletes(2) [OF I ok d1]
  obtain b kx where mk: "max_exec_key ths (False, zero_key) = (b, kx)" by fastforce
  then have kx: "key22 kx" using max_exec_key_mixed [OF mk] p by auto
  from run obtain d3 d4 where d3: "phase3 I wr8 later (rev ths) zero_key (phase2 I (b, kx) d1) = Inr d3"
      "phase4 I ths d3 = Inr d4" "d' = phase5 I ths d4"
    by (auto simp: write_phases_def d1 mk Let_def bind_result_Inr)
  have "table I (phase2 I (b, kx) d1) k = (if \<not> b \<or> key_lt k kx then None else table I d1 k)" for k
    using phase2_table [OF I _ kx, of d1 k] P1 by (cases b) simp_all
  then show ?thesis using that [OF d1 _ _ mk kx d3] P1 by (simp add: cancelled_def)
qed

lemma write_phases_keyed:
  assumes I: "offer_dbi_ok I" and ok: "table_ok I d" and p: "\<forall>th\<in>set ths. exists_partial_exec th \<longrightarrow> key22 (partial_exec_key th)"
    and keyed: "keyed wr8 (table I d)" and run: "write_phases I wr8 ths d = Inr d'"
  shows "keyed wr8 (table I d')"
proof -
  have sub: "keyed wr8 B'" if "keyed wr8 B" "\<And>k. B' k \<in> {None, B k}" for B B' :: "offer_key \<rightharpoonup> offer"
    unfolding keyed_def
  proof (intro allI impI)
    fix k off assume "B' k = Some off"
    then have "B k = Some off" using that(2) [of k] by auto
    then show "k = offer_key_of wr8 off \<and> 0 < amount off" using that(1) by (simp add: keyed_def)
  qed
  show ?thesis
  proof (rule write_phases_split [OF I ok p run])
    fix d1 later b kx d3 d4
    assume a: "\<And>k. table I d1 k = (if cancelled k ths then None else table I d k)"
      "phase3 I wr8 later (rev ths) zero_key (phase2 I (b, kx) d1) = Inr d3" "phase4 I ths d3 = Inr d4" "d' = phase5 I ths d4"
      "\<And>k. table I (phase2 I (b, kx) d1) k = (if \<not> b \<or> key_lt k kx then None else table I d1 k)"
    have "keyed wr8 (table I (phase2 I (b, kx) d1))" using sub [OF keyed] by (simp add: a(1,5))
    then have "keyed wr8 (table I d4)" using keyed_phase3 [OF I _ a(2)] keyed_phase4 [OF I _ a(3)] by blast
    then show "keyed wr8 (table I d')" unfolding a(4) using sub phase5_other(3) [OF I] by blast
  qed
qed

text \<open>A key above all thresholds that the batch neither creates nor cancels keeps its entry, whatever the other blocks did.\<close>

lemma write_phases_untouched:
  assumes I: "offer_dbi_ok I" and ok: "table_ok I d" and p: "\<forall>th\<in>set ths. exists_partial_exec th \<longrightarrow> key22 (partial_exec_key th)"
    and run: "write_phases I wr8 ths d = Inr d'"
    and k: "key22 k" "\<not> created wr8 k ths" "\<not> cancelled k ths"
    and some: "\<exists>th\<in>set ths. exists_partial_exec th" and above: "\<forall>th\<in>set ths. exists_partial_exec th \<longrightarrow> key_lt (partial_exec_key th) k"
  shows "table I d' k = table I d k"
proof -
  have neq: "\<forall>th\<in>set ths. exists_partial_exec th \<longrightarrow> partial_exec_key th \<noteq> k" using above k(1) by (auto simp: key_lt_be)
  show ?thesis
  proof (rule write_phases_split [OF I ok p run])
    fix d1 later b kx d3 d4
    assume a: "\<And>k. table I d1 k = (if cancelled k ths then None else table I d k)" "max_exec_key ths (False, zero_key) = (b, kx)" "key22 kx"
      "phase3 I wr8 later (rev ths) zero_key (phase2 I (b, kx) d1) = Inr d3" "phase4 I ths d3 = Inr d4" "d' = phase5 I ths d4"
      "\<And>k. table I (phase2 I (b, kx) d1) k = (if \<not> b \<or> key_lt k kx then None else table I d1 k)"
    have b: "b" and kx: "kx = zero_key \<or> (\<exists>th\<in>set ths. exists_partial_exec th \<and> kx = partial_exec_key th)"
      using max_exec_key_mixed [OF a(2)] some by auto
    have "be_value kx \<le> be_value k" using kx above p k(1) by (auto simp: key_lt_be less_imp_le)
    then have "\<not> key_lt k kx" using key_lt_be [OF k(1) a(3)] by simp
    then have "table I (phase2 I (b, kx) d1) k = table I d k" using b k(3) a(1) [of k] a(7) [of k] by simp
    moreover have "table I d3 k = table I (phase2 I (b, kx) d1) k" using phase3_other [OF I a(4), of k] k(2) by simp
    ultimately show "table I d' k = table I d k"
      using phase4_other(1) [OF I a(5) neq] phase5_other(1) [OF I neq] by (simp add: a(6))
  qed
qed

text \<open>A block without a partially executed offer executes the whole book.\<close>

lemma clearing_empties:
  assumes "th \<in> set ths" "\<not> exists_partial_exec th" "\<not> created wr8 k ths"
  shows "fold (after_block wr8) ths B k = None"
proof -
  obtain pre post where ths: "ths = pre @ th # post" using split_list [OF assms(1)] by blast
  have "after_block wr8 th B' k = None" for B' using assms(2) by (simp add: after_block_def)
  moreover have "\<not> created wr8 k post" using assms(3) by (simp add: ths created_def)
  ultimately show ?thesis by (simp add: ths fold_stays_none)
qed

text \<open>Writing the new offers of a block stops at an offer that a later deletion is waiting for.\<close>

lemma put_offers_stops:
  assumes I: "offer_dbi_ok I" and l: "l \<in> later" "l \<in> offer_key_of wr8 ` set offs" and k: "key_lt k l"
    and keys: "\<forall>off\<in>set offs. key22 (offer_key_of wr8 off)" "key22 k"
  shows "sorted_wrt (\<lambda>k l. key_lt l k) (map (offer_key_of wr8) offs) \<Longrightarrow> put_offers I wr8 later kb offs d = Inr d' \<Longrightarrow> table I d' k = table I d k"
  using l keys
proof (induction offs arbitrary: d)
  case (Cons off offs)
  let ?o = "offer_key_of wr8 off"
  show ?case
  proof (cases "?o = l")
    case True
    then show ?thesis using Cons.prems by (auto simp: Let_def split: if_splits)
  next
    case False
    then have "l \<in> offer_key_of wr8 ` set offs" using Cons.prems by auto
    then have lo: "key22 l" "be_value l < be_value ?o" using Cons.prems by (auto simp: key_lt_be)
    then have "k \<noteq> ?o" using k Cons.prems(6) by (auto simp: key_lt_be)
    then show ?thesis
      using Cons.IH [of "dbi_put I ?o off d"] Cons.prems False
      by (auto simp: Let_def table_update [OF I] split: if_splits)
  qed
qed simp

lemma phase3_stops:
  assumes I: "offer_dbi_ok I" and wr: "writes_be8 wr8" and l: "l \<in> later" and k: "key_lt k l" "key22 k"
  shows "phase3 I wr8 later ths kb d = Inr d' \<Longrightarrow> list_all (offers_ok wr8) ths \<Longrightarrow>
    \<forall>th\<in>set ths. k \<in> fst ` set (new_offers_of wr8 th) \<longrightarrow> l \<in> fst ` set (new_offers_of wr8 th) \<Longrightarrow> table I d' k = table I d k"
proof (induction ths arbitrary: kb d)
  case (Cons th ths)
  let ?kb = "if key_lt kb (partial_exec_key th) then partial_exec_key th else kb"
  obtain d1 where d1: "put_offers I wr8 later ?kb (rev (uncommitted_offers_vec th)) d = Inr d1" "phase3 I wr8 later ths ?kb d1 = Inr d'"
    using Cons.prems(1) by (auto simp: Let_def bind_result_Inr)
  have offs: "list_all offer_ok (uncommitted_offers_vec th)" "sorted_wrt key_lt (map (offer_key_of wr8) (uncommitted_offers_vec th))"
    using Cons.prems(2) by (simp_all add: offers_ok_def new_offers_of_def comp_def)
  have "table I d1 k = table I d k"
  proof (cases "k \<in> fst ` set (new_offers_of wr8 th)")
    case True
    then have l_in: "l \<in> offer_key_of wr8 ` set (rev (uncommitted_offers_vec th))" using Cons.prems(3) by (simp add: new_keys)
    have "\<forall>off\<in>set (rev (uncommitted_offers_vec th)). key22 (offer_key_of wr8 off)"
      using offs(1) threshold_test(1) [OF wr _ key22_zero(1)] by (auto simp: list_all_iff)
    moreover have "sorted_wrt (\<lambda>k l. key_lt l k) (map (offer_key_of wr8) (rev (uncommitted_offers_vec th)))"
      using offs(2) by (simp only: sorted_wrt_rev rev_map [symmetric])
    ultimately show ?thesis using put_offers_stops [OF I l l_in k(1) _ k(2) _ d1(1)] by blast
  next
    case False
    then show ?thesis using put_offers_other [OF I _ d1(1)] by (simp add: new_keys)
  qed
  then show ?case using Cons.IH [OF d1(2)] Cons.prems by simp
qed simp

lemma phase1_later:
  assumes I: "offer_dbi_ok I"
  shows "phase1 I ths (d, later) = (d', later') \<Longrightarrow> table I d l = None \<Longrightarrow> cancelled l ths \<or> l \<in> later \<Longrightarrow> l \<in> later'"
proof -
  have del: "delete_keys I ks (d, later) = (d', later') \<Longrightarrow> table I d l = None \<Longrightarrow>
      table I d' l = None \<and> (l \<in> set ks \<or> l \<in> later \<longrightarrow> l \<in> later')" for ks d later d' later'
  proof (induction ks arbitrary: d later)
    case (Cons k ks)
    obtain f d1 where d1: "dbi_del I k d = (f, d1)" by (cases "dbi_del I k d")
    have "table I d1 = (table I d)(k := None)" using table_update(2) [OF I, of k d] d1 by simp
    moreover have "f \<longleftrightarrow> k \<in> fst ` set (dbi_entries I d)" using I d1 unfolding offer_dbi_ok_def by (metis fst_conv)
    then have "f \<longleftrightarrow> table I d k \<noteq> None" by (simp add: table_def map_of_eq_None_iff)
    ultimately show ?case using Cons.IH [of d1 "if f then later else insert k later"] Cons.prems d1 by (auto split: if_splits)
  qed simp
  show "phase1 I ths (d, later) = (d', later') \<Longrightarrow> table I d l = None \<Longrightarrow> cancelled l ths \<or> l \<in> later \<Longrightarrow> l \<in> later'"
  proof (induction ths arbitrary: d later)
    case (Cons th ths)
    obtain d1 l1 where d1: "delete_keys I (map fst (deleted_keys th)) (d, later) = (d1, l1)" by fastforce
    show ?case using Cons.IH [of d1 l1] del [OF d1 Cons.prems(2)] Cons.prems d1 by auto
  qed simp
qed

text \<open>Writing the whole batch of a run, and reading it back.\<close>

lemma created_by_one:
  assumes "created_once wr8 ths" "th \<in> set ths" "th' \<in> set ths" "k \<in> fst ` set (new_offers_of wr8 th)" "k \<in> fst ` set (new_offers_of wr8 th')"
  shows "th' = th"
proof -
  obtain xs ys where ths: "ths = xs @ th # ys" using split_list [OF assms(2)] by blast
  let ?keys = "\<lambda>ths. set (List.maps (\<lambda>th. map fst (new_offers_of wr8 th)) ths)"
  have "List.maps f (xs @ th # ys) = List.maps f xs @ f th @ List.maps f ys" for f :: "'a thunk \<Rightarrow> offer_key list" by simp
  then have d: "?keys xs \<inter> (set (map fst (new_offers_of wr8 th)) \<union> ?keys ys) = {}" "set (map fst (new_offers_of wr8 th)) \<inter> ?keys ys = {}"
    using assms(1) by (simp_all only: ths created_once_def distinct_append set_append)
  have "k \<in> set (map fst (new_offers_of wr8 th))" using assms(4) by simp
  then have "k \<notin> ?keys xs" "k \<notin> ?keys ys" using d by blast+
  moreover have "k \<in> ?keys us" if "th' \<in> set us" for us using that assms(5) by (induction us) auto
  ultimately have "th' \<notin> set xs" "th' \<notin> set ys" by blast+
  then show ?thesis using assms(3) ths by auto
qed

lemma write_run:
  assumes I: "offer_dbi_ok I" and T: "offer_trie_ok T bk" and wr: "writes_be8 wr8" and d: "table_ok I d" "keyed wr8 (table I d)"
    and run: "thunks ob0 = []" "blocks_run T bk D wr wr8 ob0 ob ths" "ths \<noteq> []" "list_all (offers_ok wr8) ths"
    and n: "\<forall>th\<in>set ths. current_block_number th \<le> n"
    and wrote: "write_thunks I wr8 persisted_round n (thunks ob) d = Inr (d', kept)"
  shows "kept = []" "write_phases I wr8 ths d = Inr d'" "\<forall>th\<in>set ths. exists_partial_exec th \<longrightarrow> key22 (partial_exec_key th)"
    and "\<exists>ob'. load_lmdb_contents_to_memory T wr8 (map snd (dbi_entries I d')) (ob_init T c) = Inr ob' \<and> book_map bk ob' = table I d'"
proof -
  have eff: "thunks ob = ths" "list_all threshold_ok ths" using blocks_run_effect [OF T run(2)] run(1) by auto
  show p: "\<forall>th\<in>set ths. exists_partial_exec th \<longrightarrow> key22 (partial_exec_key th)" using eff(2) by (auto simp: list_all_iff threshold_ok_def)
  have "filter (\<lambda>th. current_block_number th \<le> n) ths = ths" "filter (\<lambda>th. \<not> current_block_number th \<le> n) ths = []"
    using n by (auto simp: filter_empty_conv)
  then show w: "kept = []" "write_phases I wr8 ths d = Inr d'"
    using wrote run(3) by (auto simp: write_thunks_def eff(1) bind_result_Inr Let_def split: if_splits)
  show "\<exists>ob'. load_lmdb_contents_to_memory T wr8 (map snd (dbi_entries I d')) (ob_init T c) = Inr ob' \<and> book_map bk ob' = table I d'"
    using load_restores [OF T write_phases_ordered [OF I wr d(1) run(4) p w(2)] write_phases_keyed [OF I d(1) p d(2) w(2)]] .
qed

section \<open>Properties\<close>

text \<open>
  Property C23. Persisting and loading are inverse. Let the table on disk hold the book \<open>ob0\<close>, and let a producer
  run any sequence of blocks on it, each block with transactions, commit and clearing, ending with the book \<open>ob\<close>.
  If either every block or no block of the sequence has a partially executed offer, new offers have fresh keys and no offer
  is created and cancelled within the sequence, then writing all thunks at once succeeds, leaves no thunk behind, makes the table
  equal to the book in memory, and a restart that loads the table into an empty orderbook gets that book back.
\<close>

theorem persisted_batch_restores:
  assumes "offer_dbi_ok I" and "offer_trie_ok T bk" and "writes_be8 wr8"
    and "table_ok I d" and "keyed wr8 (table I d)" and "table I d = book_map bk ob0" and "thunks ob0 = []"
    and "blocks_run T bk D wr wr8 ob0 ob ths" and "ths \<noteq> []"
    and "\<forall>th\<in>set ths. current_block_number th \<le> n" and "u64 (persisted_round + 1) \<le> current_block_number (hd ths)"
    and "fresh_keys wr8 ths (table I d)" and "list_all (offers_ok wr8) ths" and "\<not> created wr8 max_key ths"
    and "never_cancelled wr8 ths" and "list_all exists_partial_exec ths \<or> list_all (\<lambda>th. \<not> exists_partial_exec th) ths"
  shows "\<exists>d' ob'. write_thunks I wr8 persisted_round n (thunks ob) d = Inr (d', []) \<and> table I d' = book_map bk ob \<and>
    load_lmdb_contents_to_memory T wr8 (map snd (dbi_entries I d')) (ob_init T c) = Inr ob' \<and> book_map bk ob' = book_map bk ob"
proof -
  have eff: "thunks ob = ths" "book_map bk ob = fold (after_block wr8) ths (table I d)" "partials_ok wr8 ths (table I d)" "list_all threshold_ok ths"
    using blocks_run_effect [OF assms(2,8)] assms(6,7) by auto
  have batch: "batch_ok wr8 ths (table I d)" using assms(12-14) eff(3) by (auto simp: batch_ok_def)
  obtain d' where d': "write_phases I wr8 ths d = Inr d'" "table I d' = book_map bk ob"
    using write_phases_exact [OF assms(1,3,4,9) batch assms(15) all_or_none_thresholds [OF eff(4) assms(16)]] eff(2) by auto
  have "\<forall>th\<in>set ths. exists_partial_exec th \<longrightarrow> key22 (partial_exec_key th)" using eff(4) by (auto simp: list_all_iff threshold_ok_def)
  then have ok': "table_ok I d'" by (rule write_phases_ordered [OF assms(1,3,4,13) _ d'(1)])
  have "keyed wr8 (table I d')" using keyed_fold [OF assms(5,13)] d'(2) eff(2) by simp
  from load_restores [OF assms(2) ok' this] obtain ob'
    where "load_lmdb_contents_to_memory T wr8 (map snd (dbi_entries I d')) (ob_init T c) = Inr ob'" "book_map bk ob' = book_map bk ob"
    using d'(2) by auto
  moreover have "filter (\<lambda>th. current_block_number th \<le> n) ths = ths" "filter (\<lambda>th. \<not> current_block_number th \<le> n) ths = []"
    using assms(10) by (auto simp: filter_empty_conv)
  ultimately show ?thesis
    using d' assms(9,11) by (intro exI [of _ d'] exI [of _ ob']) (simp add: write_thunks_def eff(1))
qed

text \<open>Two kinds of blocks on a small book: one that executes nothing, and one that clears the only offer.\<close>

lemma idle_block:
  assumes "entries (committed_offers ob) = (k, example_offer i 10 p) # rest" and "k \<notin> fst ` set rest"
    and "thunks ob = ths @ [th]" and "ob_category ob = \<lparr>sellAsset = 0, buyAsset = 1, cat_type = SELL\<rparr>"
  shows "\<exists>ob' dl' com' stats' fc. process_clear_offers list_trie memory_db (be_bytes 16) 0 [PRICE_ONE, PRICE_ONE] 10
      (ob, (one_account_db, []), com, stats) = Inr (ob', dl', com', stats')
    \<and> thunks ob' = ths @ [set_partial_exec k 0 (example_offer i 10 p) (th\<lparr>cleared_offers := fc\<rparr>)]
    \<and> entries (committed_offers ob') = ins k (example_offer i 10 p) rest \<and> marks (committed_offers ob') \<subseteq> marks (committed_offers ob) - {k}
    \<and> uncommitted_offers ob' = uncommitted_offers ob \<and> ob_category ob' = ob_category ob"
proof -
  have l: "db_lookup_user 7 one_account_db = Some 0" by (simp add: db_lookup_user_def one_account_db_facts)
  have tax: "taxed_buy_amount 0 16777216 16777216 10 = Some 0"
    by (simp add: taxed_buy_amount_def wide_multiply_val_by_a_over_b_def price_consts Let_def fp_from_raw_def
      fp_tax_and_round_def tax_amount_def get_lowbits_mask_def sub128_def FRACTIONAL_RADIX_def)
  have z: "fa_from_integral 0 = 0" "fa_sub 0 0 = 0" "fa_ceil 0 = 0"
    by (simp_all add: fp_from_integral_def FRACTIONAL_RADIX_def fp_sub_def sub128_def fp_ceil_def fp_floor_def)
  have nd: "filter (\<lambda>e. fst e \<noteq> k) rest = rest" using assms(2) by (auto simp: filter_id_conv)
  show ?thesis
    using assms
    by (simp add: process_clear_offers_def process_partial_def floor_split list_trie_def b_endow_split_def b_insert_def
        example_offer_def memory_db_def l clear_offer_partial_def z tax price_consts u128_def i64_def nd
        log_self_def on_top_thunk_eq to_u128_def b_perform_deletion_def del_def to_u64_def sub64_def Let_def) blast
qed

lemma clearing_block:
  assumes "entries (committed_offers ob) = [(k, example_offer i 10 p)]" and "p \<le> PRICE_ONE"
    and "thunks ob = ths @ [th]" and "ob_category ob = \<lparr>sellAsset = 0, buyAsset = 1, cat_type = SELL\<rparr>"
  shows "\<exists>ob' dl' com' stats' fc. process_clear_offers list_trie memory_db (be_bytes 16) 10240 [PRICE_ONE, PRICE_ONE] 10
      (ob, (one_account_db, []), com, stats) = Inr (ob', dl', com', stats')
    \<and> thunks ob' = ths @ [set_no_partial_exec (th\<lparr>cleared_offers := fc\<rparr>)]
    \<and> entries (committed_offers ob') = [] \<and> uncommitted_offers ob' = uncommitted_offers ob \<and> ob_category ob' = ob_category ob"
proof -
  have l: "db_lookup_user 7 one_account_db = Some 0" by (simp add: db_lookup_user_def one_account_db_facts)
  have z: "fa_from_integral 10 = 10240" "fa_from_integral 0 = 0" "fa_sub 10240 10240 = 0"
    by (simp_all add: fp_from_integral_def FRACTIONAL_RADIX_def fp_sub_def sub128_def)
  show ?thesis
    using assms
    by (simp add: process_clear_offers_def floor_split list_trie_def b_endow_split_def complete_clearing_def clear_offer_full_def
        example_offer_def memory_db_def l z example_taxed a_over_b_lt_c_def price_consts u128_def i64_def
        log_self_def on_top_thunk_eq to_u128_def Let_def) blast
qed

lemma commit_list:
  "thunks (commit_for_production list_trie n ob) = thunks ob @
     [(new_thunk list_trie n)\<lparr>uncommitted_offers_vec := map snd (entries (uncommitted_offers ob)),
        deleted_keys := filter (\<lambda>e. fst e \<in> marks (committed_offers ob)) (entries (committed_offers ob))\<rparr>]"
  "entries (committed_offers (commit_for_production list_trie n ob)) =
     fold (\<lambda>(k, v). ins k v) (entries (uncommitted_offers ob)) (filter (\<lambda>e. fst e \<notin> marks (committed_offers ob)) (entries (committed_offers ob)))"
  "uncommitted_offers (commit_for_production list_trie n ob) = empty_book"
  "ob_category (commit_for_production list_trie n ob) = ob_category ob"
  by (simp_all add: commit_for_production_def generate_metadata_index_def tentative_commit_for_validation_def list_trie_def
      b_perform_marked_deletions_def b_merge_in_def add_new_thunk_def Let_def new_thunk_def)

definition key_at :: "nat \<Rightarrow> price \<Rightarrow> offer_key" where
  "key_at i p = be_bytes 6 p @ be_bytes 8 7 @ be_bytes 8 i"

lemma key_at_offer: "offer_key_of be8_writer (example_offer i a p) = key_at i p"
  unfolding offer_key_of_def offer_trie_key_def key_at_def
  by (subst generate_key_eq [OF writes_be8_be8_writer]) (simp_all add: example_offer_def)

lemma be_bytes_small: "v < 256 \<Longrightarrow> be_bytes (Suc k) v = replicate k 0 @ [v]"
proof (induction k)
  case (Suc k)
  have "v div 256 ^ Suc k = 0" using Suc.prems less_le_trans [of v 256 "256 ^ Suc k"] by simp
  then show ?case using Suc by (simp del: power_Suc)
qed simp

lemma key_at_small: "i < 256 \<Longrightarrow> p < 256 \<Longrightarrow> key_at i p = replicate 5 0 @ [p] @ replicate 7 0 @ [7] @ replicate 7 0 @ [i]"
  using be_bytes_small [of p 5] be_bytes_small [of 7 7] be_bytes_small [of i 7] by (simp add: key_at_def del: be_bytes.simps)

lemma read_price_key_at: "i < 256 \<Longrightarrow> p < 256 \<Longrightarrow> read_price_big_endian (key_at i p) = p"
proof -
  assume "i < 256" "p < 256"
  moreover have "be_value (replicate n 0 @ [p]) = p" for n by (induction n) simp_all
  moreover have "take 6 (key_at i p) = replicate 5 0 @ [p]" "bytes (replicate 5 0 @ [p])" "6 \<le> length (key_at i p)"
    using \<open>i < 256\<close> \<open>p < 256\<close> by (simp_all add: key_at_small bytes_def)
  ultimately show ?thesis
    using read_price_loop_eq [of 6 "key_at i p" 0] by (simp add: read_price_big_endian_def)
qed

lemma zero_key_split: "zero_key = replicate 5 0 @ 0 # replicate 16 0"
  by (simp add: zero_key_def ORDERBOOK_KEY_LEN_def replicate_add [symmetric] flip: replicate_Suc)

lemma key_at_facts:
  "key_ok (key_at 4 5)" "key_ok (key_at 2 3)" "key_lt (key_at 2 3) (key_at 4 5)" "\<not> key_lt (key_at 4 5) (key_at 2 3)"
  "key_at 4 5 \<noteq> key_at 2 3" "key_at 2 3 \<noteq> key_at 4 5" "read_price_big_endian (key_at 2 3) = 3"
  "\<not> key_lt (key_at 2 3) (key_at 2 3)" "key_lt zero_key (key_at 2 3)" "\<not> key_lt (key_at 2 3) zero_key"
  by (simp_all only: read_price_key_at)
    (simp_all add: key_ok_def key_lt_def key_at_small zero_key_split ORDERBOOK_KEY_LEN_def bytes_def memcmp_same_prefix)

definition empty_orderbook :: "book orderbook" where
  "empty_orderbook = ob_init list_trie \<lparr>sellAsset = 0, buyAsset = 1, cat_type = SELL\<rparr>"

abbreviation high_offer :: offer where "high_offer \<equiv> example_offer 4 10 5"
abbreviation low_offer :: offer where "low_offer \<equiv> example_offer 2 10 3"

abbreviation book_run :: "book orderbook \<Rightarrow> book orderbook \<Rightarrow> book thunk list \<Rightarrow> bool" where
  "book_run \<equiv> blocks_run list_trie (\<lambda>b. b)
     (memory_db :: (nat, (unit, account_id \<rightharpoonup> unit account_commitment) memory_database) clearing_db) (be_bytes 16) be8_writer"

definition sample_commitment :: "nat list single_orderbook_state_commitment" where
  "sample_commitment = \<lparr>rootHash = [], fractionalSupplyActivated_bytes = [], partialExecThresholdKey = zero_key,
      thresholdKeyIsNull = 0, partialExecOfferActivationAmount_bytes = []\<rparr>"

lemma idle_run:
  assumes run: "book_run ob0 ob ths" and later: "\<forall>th\<in>set (thunks ob). u64 (current_block_number th + 1) \<le> n"
    and ob2: "thunks ob2 = thunks ob" "entries (committed_offers ob2) = entries (committed_offers ob)"
    and keys: "\<forall>e\<in>set (entries (uncommitted_offers ob2)). fst e = offer_key_of be8_writer (snd e)" "distinct (map fst (entries (uncommitted_offers ob2)))"
    and after: "fold (\<lambda>(k, v). ins k v) (entries (uncommitted_offers ob2)) (filter (\<lambda>e. fst e \<notin> marks (committed_offers ob2)) (entries (committed_offers ob2)))
      = (k, example_offer i 10 p) # rest" and ok: "book_ok ((k, example_offer i 10 p) # rest)"
    and cat: "ob_category ob2 = \<lparr>sellAsset = 0, buyAsset = 1, cat_type = SELL\<rparr>"
  shows "\<exists>ob3 th. book_run ob0 ob3 (ths @ [th]) \<and> thunks ob3 = thunks ob @ [th] \<and>
    entries (committed_offers ob3) = (k, example_offer i 10 p) # rest \<and> uncommitted_offers ob3 = empty_book \<and>
    ob_category ob3 = \<lparr>sellAsset = 0, buyAsset = 1, cat_type = SELL\<rparr> \<and>
    marks (committed_offers ob3) \<subseteq> marks (committed_offers (commit_for_production list_trie n ob2)) \<and>
    exists_partial_exec th \<and> partial_exec_key th = k \<and> partial_exec_amount th = 0 \<and> current_block_number th = n \<and>
    uncommitted_offers_vec th = map snd (entries (uncommitted_offers ob2)) \<and>
    deleted_keys th = filter (\<lambda>e. fst e \<in> marks (committed_offers ob2)) (entries (committed_offers ob2))"
proof -
  let ?ob1 = "commit_for_production list_trie n ob2"
  have e1: "entries (committed_offers ?ob1) = (k, example_offer i 10 p) # rest" using after by (simp add: commit_list)
  have fresh: "k \<notin> fst ` set rest"
    using book_ok_split(6) [of "[]" k "example_offer i 10 p" rest] ok by simp
  have i: "ins k (example_offer i 10 p) rest = (k, example_offer i 10 p) # rest"
    using ok fresh by (cases rest) (auto simp: book_ok_def)
  obtain ob3 dl' com' stats' fc where run3:
    "process_clear_offers list_trie memory_db (be_bytes 16) 0 [PRICE_ONE, PRICE_ONE] 10
      (?ob1, (one_account_db, []), sample_commitment, empty_stats) = Inr (ob3, dl', com', stats')"
    and ob3: "thunks ob3 = thunks ob2 @ [set_partial_exec k 0 (example_offer i 10 p)
        ((new_thunk list_trie n)\<lparr>uncommitted_offers_vec := map snd (entries (uncommitted_offers ob2)),
        deleted_keys := filter (\<lambda>e. fst e \<in> marks (committed_offers ob2)) (entries (committed_offers ob2)), cleared_offers := fc\<rparr>)]"
      "entries (committed_offers ob3) = (k, example_offer i 10 p) # rest" "marks (committed_offers ob3) \<subseteq> marks (committed_offers ?ob1) - {k}"
      "uncommitted_offers ob3 = empty_book" "ob_category ob3 = \<lparr>sellAsset = 0, buyAsset = 1, cat_type = SELL\<rparr>"
    using idle_block [OF e1 fresh commit_list(1) [unfolded commit_list(4)], of sample_commitment empty_stats] cat i by (auto simp: commit_list)
  have nx: "add_new_thunk_nolock list_trie n (thunks ob) = Inr (thunks ob @ [new_thunk list_trie n])"
    using later by (cases "thunks ob" rule: rev_cases) (auto simp: add_new_thunk_nolock_def not_less)
  have "book_run ob0 ob3 (ths @ [last (thunks ob3)])"
    by (rule blocks_run.block [where bk = "\<lambda>b. b", OF run nx ob2 keys _ _ run3]) (simp_all add: e1 ok)
  then show ?thesis using ob3 ob2 by (intro exI [of _ ob3] exI [of _ "last (thunks ob3)"]) (auto simp: set_partial_exec_def new_thunk_def)
qed

lemma example_offer_fields: "amount (example_offer i a p) = a" "minPrice (example_offer i a p) = p"
  by (simp_all add: example_offer_def)

lemma sample_books:
  "book_ok [(key_at 2 3, low_offer)]" "book_ok [(key_at 2 3, low_offer), (key_at 4 5, high_offer)]" "book_ok [(key_at 4 5, high_offer)]"
  by (simp_all add: book_ok_def key_at_facts example_offer_def)

lemma empty_orderbook_fields:
  "thunks empty_orderbook = []" "committed_offers empty_orderbook = empty_book"
  "ob_category empty_orderbook = \<lparr>sellAsset = 0, buyAsset = 1, cat_type = SELL\<rparr>"
  "entries empty_book = []" "marks empty_book = {}"
  by (simp_all add: empty_orderbook_def ob_init_def list_trie_def empty_book_def)

abbreviation both_offers :: "(offer_key \<times> offer) list" where
  "both_offers \<equiv> [(key_at 2 3, low_offer), (key_at 4 5, high_offer)]"

lemma opening_block:
  "\<exists>ob1 t1. book_run empty_orderbook ob1 [t1] \<and> thunks ob1 = [t1] \<and> entries (committed_offers ob1) = both_offers \<and>
     marks (committed_offers ob1) = {} \<and> uncommitted_offers ob1 = empty_book \<and>
     ob_category ob1 = \<lparr>sellAsset = 0, buyAsset = 1, cat_type = SELL\<rparr> \<and>
     exists_partial_exec t1 \<and> partial_exec_key t1 = key_at 2 3 \<and> partial_exec_amount t1 = 0 \<and> current_block_number t1 = 1 \<and>
     uncommitted_offers_vec t1 = [low_offer, high_offer] \<and> deleted_keys t1 = []"
proof -
  let ?ob2 = "empty_orderbook\<lparr>uncommitted_offers := empty_book\<lparr>entries := both_offers\<rparr>\<rparr>"
  show ?thesis
    using idle_run [OF blocks_run.start, of empty_orderbook 1 ?ob2 "key_at 2 3" 2 3 "[(key_at 4 5, high_offer)]"]
    by (fastforce simp: empty_orderbook_fields key_at_facts key_at_offer sample_books
        commit_for_production_def generate_metadata_index_def tentative_commit_for_validation_def list_trie_def
        b_perform_marked_deletions_def b_merge_in_def add_new_thunk_def)
qed

text \<open>
  Property C35. Writing a batch can lose an offer. Let a producer run any sequence of blocks on the book on disk, with fresh keys for
  new offers, such that one block creates offers under the keys \<open>k\<close> and \<open>l\<close>, \<open>k\<close> below \<open>l\<close>, and a block of the
  sequence cancels \<open>l\<close>. Whenever the sequence is persisted as one batch, the offer under \<open>k\<close> is not on disk, although it is in
  the book in memory (it was never cancelled nor executed): writing the new offers of a block, from the highest key down, stops
  at the cancelled one. A restart loses the offer.
\<close>

theorem batch_cancel_drops_offer:
  assumes "offer_dbi_ok I" and "offer_trie_ok T bk" and "writes_be8 wr8"
    and "table_ok I d" and "keyed wr8 (table I d)" and "table I d = book_map bk ob0" and "thunks ob0 = []"
    and "blocks_run T bk D wr wr8 ob0 ob ths" and "list_all (offers_ok wr8) ths" and "fresh_keys wr8 ths (table I d)"
    and "th \<in> set ths" and "k \<in> fst ` set (new_offers_of wr8 th)" and "l \<in> fst ` set (new_offers_of wr8 th)"
    and "key_lt k l" and "cancelled l ths"
    and "book_map bk ob k = Some off" and "\<forall>th\<in>set ths. current_block_number th \<le> n"
    and "write_thunks I wr8 persisted_round n (thunks ob) d = Inr (d', kept)"
  shows "kept = [] \<and> table I d' k = None
    \<and> (\<exists>ob'. load_lmdb_contents_to_memory T wr8 (map snd (dbi_entries I d')) (ob_init T c) = Inr ob' \<and> book_map bk ob' k = None)"
proof -
  have ne: "ths \<noteq> []" using assms(11) by auto
  note w = write_run [OF assms(1-5,7,8) ne assms(9,17,18)]
  have cr: "created wr8 k ths" "created wr8 l ths" using assms(11-13) by (auto simp: created_def)
  then have k: "table I d k = None" "key22 k" and l: "table I d l = None" using assms(10) by (auto simp: fresh_keys_def)
  have only: "\<forall>th\<in>set (rev ths). k \<in> fst ` set (new_offers_of wr8 th) \<longrightarrow> l \<in> fst ` set (new_offers_of wr8 th)"
  proof (intro ballI impI)
    fix th' assume "th' \<in> set (rev ths)" "k \<in> fst ` set (new_offers_of wr8 th')"
    then have "th' = th" using created_by_one [OF _ assms(11) _ assms(12)] assms(10) by (simp add: fresh_keys_def)
    then show "l \<in> fst ` set (new_offers_of wr8 th')" using assms(13) by simp
  qed
  have "table I d' k = None"
  proof (rule write_phases_split [OF assms(1,4) w(3,2)])
    fix d1 later b kx d3 d4
    assume a: "phase1 I ths (d, {}) = (d1, later)" "\<And>k. table I d1 k = (if cancelled k ths then None else table I d k)"
      "phase3 I wr8 later (rev ths) zero_key (phase2 I (b, kx) d1) = Inr d3" "phase4 I ths d3 = Inr d4" "d' = phase5 I ths d4"
      "\<And>k. table I (phase2 I (b, kx) d1) k = (if \<not> b \<or> key_lt k kx then None else table I d1 k)"
    have "l \<in> later" using phase1_later [OF assms(1) a(1) l] assms(15) by blast
    then have "table I d3 k = table I (phase2 I (b, kx) d1) k"
      using phase3_stops [OF assms(1,3) _ assms(14) k(2) a(3) _ only] assms(9) by simp
    then have "table I d3 k = None" using k(1) by (simp add: a(2,6))
    then show "table I d' k = None" unfolding a(5) using phase4_other(2) [OF assms(1) a(4)] phase5_other(2) [OF assms(1)] by blast
  qed
  then show ?thesis using w(1,4) by metis
qed

theorem batch_cancel_drops_offer_witness:
  "\<exists>ob ths d' ob'. book_run empty_orderbook ob ths \<and> book_map (\<lambda>b. b) ob (key_at 2 3) = Some low_offer
   \<and> write_thunks list_dbi be8_writer 0 2 (thunks ob) [] = Inr (d', [])
   \<and> load_lmdb_contents_to_memory list_trie be8_writer (map snd (dbi_entries list_dbi d')) empty_orderbook = Inr ob' \<and> book_map (\<lambda>b. b) ob' (key_at 2 3) = None"
proof -
  obtain ob1 t1 where b1: "book_run empty_orderbook ob1 [t1]" "thunks ob1 = [t1]" "entries (committed_offers ob1) = both_offers"
      "uncommitted_offers ob1 = empty_book" "ob_category ob1 = \<lparr>sellAsset = 0, buyAsset = 1, cat_type = SELL\<rparr>"
      "marks (committed_offers ob1) = {}"
      "exists_partial_exec t1" "partial_exec_key t1 = key_at 2 3" "partial_exec_amount t1 = 0" "current_block_number t1 = 1"
      "uncommitted_offers_vec t1 = [low_offer, high_offer]" "deleted_keys t1 = []"
    using opening_block by blast
  let ?ob3 = "ob1\<lparr>committed_offers := fst (ot_mark_for_deletion list_trie (key_at 4 5) (committed_offers ob1))\<rparr>"
  have m: "entries (committed_offers ?ob3) = both_offers" "marks (committed_offers ?ob3) = {key_at 4 5}"
    using b1 by (simp_all add: list_trie_def b_mark_def)
  obtain ob2 t2 where b2: "book_run empty_orderbook ob2 [t1, t2]" "thunks ob2 = [t1, t2]" "entries (committed_offers ob2) = [(key_at 2 3, low_offer)]"
      "exists_partial_exec t2" "partial_exec_key t2 = key_at 2 3" "partial_exec_amount t2 = 0" "current_block_number t2 = 2"
      "uncommitted_offers_vec t2 = []" "deleted_keys t2 = [(key_at 4 5, high_offer)]"
    using idle_run [OF b1(1), of 2 ?ob3 "key_at 2 3" 2 3 "[]"] b1 m by (auto simp: u64_def empty_orderbook_fields key_at_facts sample_books)
  have wrote: "write_thunks list_dbi be8_writer 0 2 (thunks ob2) [] = Inr ([], [])"
    using b1 b2 key_at_facts
    by (simp add: write_thunks_def write_phases_def list_dbi_def del_def phase2_def set_range_def key_at_offer
        partial_exec_step_def dbi_get_def example_offer_fields u64_def Let_def)
  have new: "new_offers_of be8_writer t1 = both_offers" "new_offers_of be8_writer t2 = []"
    using b1 b2 by (simp_all add: new_offers_of_def key_at_offer)
  have k22: "key22 (key_at 4 5)" "key22 (key_at 2 3)" using key_at_facts(1,2) by (simp_all add: key_ok_def key22_def)
  have offs: "list_all (offers_ok be8_writer) [t1, t2]"
    using new b1 b2 key_at_facts by (simp add: offers_ok_def offer_ok_def example_offer_fields price_consts)
  have fresh: "fresh_keys be8_writer [t1, t2] (table list_dbi [])"
    using new k22 key_at_facts(5,6) by (auto simp: fresh_keys_def created_once_def created_def table_def list_dbi_def)
  have tok: "table_ok list_dbi []" "keyed be8_writer (table list_dbi [])" "table list_dbi [] = book_map (\<lambda>b. b) empty_orderbook"
    by (simp_all add: table_ok_def keyed_def table_def list_dbi_def book_map_def empty_orderbook_fields)
  have le: "\<forall>th\<in>set [t1, t2]. current_block_number th \<le> 2" and canc: "cancelled (key_at 4 5) [t1, t2]" using b1 b2 by simp_all
  have book: "book_map (\<lambda>b. b) ob2 (key_at 2 3) = Some low_offer" using b2(3) by (simp add: book_map_def)
  have "\<exists>ob'. load_lmdb_contents_to_memory list_trie be8_writer (map snd (dbi_entries list_dbi [])) empty_orderbook = Inr ob' \<and> book_map (\<lambda>b. b) ob' (key_at 2 3) = None"
    using batch_cancel_drops_offer [OF list_dbi_ok list_trie_ok writes_be8_be8_writer tok empty_orderbook_fields(1) b2(1) offs fresh _ _ _
        key_at_facts(3) canc book le wrote, of t1 "\<lparr>sellAsset = 0, buyAsset = 1, cat_type = SELL\<rparr>"] new
    by (simp add: empty_orderbook_def)
  then show ?thesis using b2(1) book wrote by blast
qed

lemma clearing_run:
  assumes ob2: "entries (committed_offers ob0) = [(k, example_offer i 10 p)]" "marks (committed_offers ob0) = {}" "uncommitted_offers ob0 = empty_book"
    and thunks: "thunks ob0 = []" and ok: "book_ok [(k, example_offer i 10 p)]" and p: "p \<le> PRICE_ONE"
    and cat: "ob_category ob0 = \<lparr>sellAsset = 0, buyAsset = 1, cat_type = SELL\<rparr>"
  shows "\<exists>ob3 th. book_run ob0 ob3 [th] \<and> thunks ob3 = [th] \<and> entries (committed_offers ob3) = [] \<and> uncommitted_offers ob3 = empty_book \<and>
    ob_category ob3 = \<lparr>sellAsset = 0, buyAsset = 1, cat_type = SELL\<rparr> \<and>
    \<not> exists_partial_exec th \<and> partial_exec_key th = max_key \<and> current_block_number th = n \<and>
    uncommitted_offers_vec th = [] \<and> deleted_keys th = []"
proof -
  let ?ob1 = "commit_for_production list_trie n ob0"
  have e1: "entries (committed_offers ?ob1) = [(k, example_offer i 10 p)]" using ob2 by (simp add: commit_list empty_orderbook_fields)
  obtain ob3 dl' com' stats' fc where run3:
    "process_clear_offers list_trie memory_db (be_bytes 16) 10240 [PRICE_ONE, PRICE_ONE] 10
      (?ob1, (one_account_db, []), sample_commitment, empty_stats) = Inr (ob3, dl', com', stats')"
    and ob3: "thunks ob3 = [set_no_partial_exec ((new_thunk list_trie n)\<lparr>uncommitted_offers_vec := [], deleted_keys := [], cleared_offers := fc\<rparr>)]"
      "entries (committed_offers ob3) = []" "uncommitted_offers ob3 = empty_book" "ob_category ob3 = \<lparr>sellAsset = 0, buyAsset = 1, cat_type = SELL\<rparr>"
    using clearing_block [OF e1 p commit_list(1) [unfolded commit_list(4)], of sample_commitment empty_stats] cat ob2 thunks
    by (auto simp: commit_list empty_orderbook_fields)
  have "book_run ob0 ob3 ([] @ [last (thunks ob3)])"
    by (rule blocks_run.block [where bk = "\<lambda>b. b", OF blocks_run.start _ refl refl _ _ _ _ run3])
      (simp_all add: ob2 thunks add_new_thunk_nolock_def e1 ok empty_orderbook_fields)
  then show ?thesis
    using ob3 by (intro exI [of _ ob3] exI [of _ "last (thunks ob3)"]) (auto simp: set_no_partial_exec_def new_thunk_def max_key_def)
qed

text \<open>
  Property C34. Writing a batch can bring an executed offer back. Let a producer run any sequence of blocks on the book on disk
  in which one block executes the whole book and another leaves a partially executed offer, and let \<open>k\<close> be the key of an offer
  that was on disk before, that no block cancels or creates again, and that lies above all partially executed offers. Whenever
  the sequence is persisted as one batch, the offer is still on disk and a restart puts it back into the book, although
  the book in memory does not hold it any more: it was executed. The deletion on disk goes by the thresholds of the
  blocks with a partially executed offer only.
\<close>

theorem batch_clearing_resurrects_offer:
  assumes "offer_dbi_ok I" and "offer_trie_ok T bk" and "writes_be8 wr8"
    and "table_ok I d" and "keyed wr8 (table I d)" and "table I d = book_map bk ob0" and "thunks ob0 = []"
    and "blocks_run T bk D wr wr8 ob0 ob ths" and "list_all (offers_ok wr8) ths"
    and "clearing \<in> set ths" and "\<not> exists_partial_exec clearing" and "partial \<in> set ths" and "exists_partial_exec partial"
    and "book_map bk ob0 k = Some off" and "\<not> created wr8 k ths" and "\<not> cancelled k ths"
    and "\<forall>th\<in>set ths. exists_partial_exec th \<longrightarrow> key_lt (partial_exec_key th) k"
    and "\<forall>th\<in>set ths. current_block_number th \<le> n"
    and "write_thunks I wr8 persisted_round n (thunks ob) d = Inr (d', kept)"
  shows "book_map bk ob k = None \<and> kept = [] \<and> table I d' k = Some off
    \<and> (\<exists>ob'. load_lmdb_contents_to_memory T wr8 (map snd (dbi_entries I d')) (ob_init T c) = Inr ob' \<and> book_map bk ob' k = Some off)"
proof -
  have ne: "ths \<noteq> []" using assms(10) by auto
  note w = write_run [OF assms(1-5,7,8) ne assms(9,18,19)]
  have "book_map bk ob = fold (after_block wr8) ths (book_map bk ob0)" using blocks_run_effect [OF assms(2,8)] by blast
  then have gone: "book_map bk ob k = None" using clearing_empties [OF assms(10,11,15)] by simp
  have "key22 k" using table_key22 [OF assms(4), of k] assms(6,14) by simp
  moreover have "\<exists>th\<in>set ths. exists_partial_exec th" using assms(12,13) by blast
  ultimately have "table I d' k = Some off"
    using write_phases_untouched [OF assms(1,4) w(3,2) _ assms(15,16) _ assms(17)] assms(6,14) by simp
  then show ?thesis using gone w(1,4) by metis
qed

theorem batch_clearing_resurrects_offer_witness:
  "\<exists>ob0 ob ths d' ob'. table list_dbi [(key_at 4 5, high_offer)] = book_map (\<lambda>b. b) ob0 \<and> book_run ob0 ob ths
   \<and> book_map (\<lambda>b. b) ob (key_at 4 5) = None
   \<and> write_thunks list_dbi be8_writer 0 2 (thunks ob) [(key_at 4 5, high_offer)] = Inr (d', [])
   \<and> load_lmdb_contents_to_memory list_trie be8_writer (map snd (dbi_entries list_dbi d')) empty_orderbook = Inr ob'
   \<and> book_map (\<lambda>b. b) ob' (key_at 4 5) = Some high_offer"
proof -
  let ?ob0 = "empty_orderbook\<lparr>committed_offers := empty_book\<lparr>entries := [(key_at 4 5, high_offer)]\<rparr>\<rparr>"
  obtain ob1 t1 where b1: "book_run ?ob0 ob1 [t1]" "thunks ob1 = [t1]" "entries (committed_offers ob1) = []"
      "uncommitted_offers ob1 = empty_book" "ob_category ob1 = \<lparr>sellAsset = 0, buyAsset = 1, cat_type = SELL\<rparr>"
      "\<not> exists_partial_exec t1" "partial_exec_key t1 = max_key" "current_block_number t1 = 1" "uncommitted_offers_vec t1 = []" "deleted_keys t1 = []"
    using clearing_run [of ?ob0 "key_at 4 5" 4 5 1] sample_books(3)
    by (fastforce simp: empty_orderbook_fields price_consts empty_orderbook_def ob_init_def list_trie_def)
  let ?ob2 = "ob1\<lparr>uncommitted_offers := empty_book\<lparr>entries := [(key_at 2 3, low_offer)]\<rparr>\<rparr>"
  obtain ob2 t2 where b2: "book_run ?ob0 ob2 [t1, t2]" "thunks ob2 = [t1, t2]" "entries (committed_offers ob2) = [(key_at 2 3, low_offer)]"
      "exists_partial_exec t2" "partial_exec_key t2 = key_at 2 3" "partial_exec_amount t2 = 0" "current_block_number t2 = 2"
      "uncommitted_offers_vec t2 = [low_offer]" "deleted_keys t2 = []"
    using idle_run [OF b1(1), of 2 ?ob2 "key_at 2 3" 2 3 "[]"] b1 by (auto simp: u64_def empty_orderbook_fields key_at_facts key_at_offer sample_books)
  have wrote: "write_thunks list_dbi be8_writer 0 2 (thunks ob2) [(key_at 4 5, high_offer)] = Inr (both_offers, [])"
    using b1 b2 key_at_facts
    by (simp add: write_thunks_def write_phases_def list_dbi_def del_def phase2_def set_range_def key_at_offer
        partial_exec_step_def dbi_get_def example_offer_fields u64_def to_u64_def sub64_def Let_def)
  have new: "new_offers_of be8_writer t1 = []" "new_offers_of be8_writer t2 = [(key_at 2 3, low_offer)]"
    using b1 b2 by (simp_all add: new_offers_of_def key_at_offer)
  have k22: "key22 (key_at 4 5)" using key_at_facts(1) by (simp add: key_ok_def key22_def)
  have offs: "list_all (offers_ok be8_writer) [t1, t2]"
    using new b1 b2 key_at_facts by (simp add: offers_ok_def offer_ok_def example_offer_fields price_consts)
  have tok: "table_ok list_dbi [(key_at 4 5, high_offer)]" "keyed be8_writer (table list_dbi [(key_at 4 5, high_offer)])"
    "table list_dbi [(key_at 4 5, high_offer)] = book_map (\<lambda>b. b) ?ob0" "thunks ?ob0 = []"
    using k22 by (auto simp: table_ok_def keyed_def table_def list_dbi_def book_map_def empty_orderbook_fields key_at_offer example_offer_fields split: if_splits)
  have part: "exists_partial_exec t2" "\<not> created be8_writer (key_at 4 5) [t1, t2]" "\<not> cancelled (key_at 4 5) [t1, t2]"
    "\<forall>th\<in>set [t1, t2]. exists_partial_exec th \<longrightarrow> key_lt (partial_exec_key th) (key_at 4 5)" "\<forall>th\<in>set [t1, t2]. current_block_number th \<le> 2"
    using b1 b2 new key_at_facts by simp_all
  have old: "book_map (\<lambda>b. b) ?ob0 (key_at 4 5) = Some high_offer" by (simp add: book_map_def)
  have res: "book_map (\<lambda>b. b) ob2 (key_at 4 5) = None \<and> ([] :: book thunk list) = [] \<and> table list_dbi both_offers (key_at 4 5) = Some high_offer
    \<and> (\<exists>ob'. load_lmdb_contents_to_memory list_trie be8_writer (map snd (dbi_entries list_dbi both_offers)) empty_orderbook = Inr ob'
      \<and> book_map (\<lambda>b. b) ob' (key_at 4 5) = Some high_offer)"
    unfolding empty_orderbook_def
    by (rule batch_clearing_resurrects_offer [OF list_dbi_ok list_trie_ok writes_be8_be8_writer tok b2(1) offs _ b1(6) _ part(1) old part(2-5) wrote]) simp_all
  then show ?thesis using b2(1) tok(3) wrote by blast
qed

theorem persisted_batch_restores_witness:
  "\<exists>ob ths d' ob'. book_run empty_orderbook ob ths \<and> entries (committed_offers ob) = both_offers
   \<and> write_thunks list_dbi be8_writer 0 1 (thunks ob) [] = Inr (d', []) \<and> table list_dbi d' = book_map (\<lambda>b. b) ob
   \<and> load_lmdb_contents_to_memory list_trie be8_writer (map snd (dbi_entries list_dbi d')) empty_orderbook = Inr ob'
   \<and> book_map (\<lambda>b. b) ob' = map_of both_offers"
proof -
  obtain ob1 t1 where b1: "book_run empty_orderbook ob1 [t1]" "thunks ob1 = [t1]" "entries (committed_offers ob1) = both_offers"
      "exists_partial_exec t1" "current_block_number t1 = 1" "uncommitted_offers_vec t1 = [low_offer, high_offer]" "deleted_keys t1 = []"
    using opening_block by blast
  have new: "new_offers_of be8_writer t1 = both_offers" using b1 by (simp add: new_offers_of_def key_at_offer)
  have k22: "key22 (key_at 4 5)" "key22 (key_at 2 3)" using key_at_facts(1,2) by (simp_all add: key_ok_def key22_def)
  have mk: "max_key \<noteq> key_at 4 5" "max_key \<noteq> key_at 2 3" by (simp_all add: key_at_small max_key_def ORDERBOOK_KEY_LEN_def numeral_eq_Suc)
  have fresh: "fresh_keys be8_writer [t1] (table list_dbi [])"
    using new k22 key_at_facts(5,6) by (auto simp: fresh_keys_def created_once_def created_def table_def list_dbi_def)
  have offs: "list_all (offers_ok be8_writer) [t1]" using new b1 key_at_facts by (simp add: offers_ok_def offer_ok_def example_offer_fields price_consts)
  have cm: "\<not> created be8_writer max_key [t1]" using new mk by (auto simp: created_def)
  have nc: "never_cancelled be8_writer [t1]" using b1 by (simp add: never_cancelled_def)
  have tok: "table_ok list_dbi []" "keyed be8_writer (table list_dbi [])" "table list_dbi [] = book_map (\<lambda>b. b) empty_orderbook"
    by (simp_all add: table_ok_def keyed_def table_def list_dbi_def book_map_def empty_orderbook_fields)
  have round: "u64 (0 + 1) \<le> current_block_number (hd [t1])" using b1 by (simp add: u64_def)
  have le: "\<forall>th\<in>set [t1]. current_block_number th \<le> 1" and part: "list_all exists_partial_exec [t1] \<or> list_all (\<lambda>th. \<not> exists_partial_exec th) [t1]"
    using b1 by simp_all
  show ?thesis
    using persisted_batch_restores [OF list_dbi_ok list_trie_ok writes_be8_be8_writer tok empty_orderbook_fields(1) b1(1) _ le round fresh offs cm nc part,
        of "\<lparr>sellAsset = 0, buyAsset = 1, cat_type = SELL\<rparr>"] b1 unfolding empty_orderbook_def [symmetric]
    by (fastforce simp: book_map_def)
qed

end
