(* ===== verification/Account_Persistence.thy ===== *)
theory Account_Persistence
  imports Memory_Database
begin

text \<open>
  Persistence of the account database (\<^verbatim>\<open>memory_database/account_lmdb.{h,cc}\<close>, \<^verbatim>\<open>memory_database/thunk.{h,cc}\<close> and the second
  half of \<^verbatim>\<open>memory_database/memory_database.cc\<close>). Accounts are spread over sixteen LMDB instances by a keyed
  hash. Every block leaves a thunk with the commitments of the accounts it modified; thunks are written later, by one
  worker per shard. LMDB's tables are maps, \<open>cursor\<close> lists one in the order of its cursor; the keyed
  hash \<open>H\<close>, the XDR codec \<open>enc\<close>, \<open>dec\<close> and the tries are arguments. The theorems treat a crash while the shards are
  being written, a restart from disk, and the rewinding of blocks that were not confirmed.
\<close>

section \<open>Shards\<close>

definition NUM_ACCOUNT_DB_SHARDS :: nat where "NUM_ACCOUNT_DB_SHARDS = 16"

type_synonym hash_key = "nat list"

definition crypto_shorthash_KEYBYTES :: nat where "crypto_shorthash_KEYBYTES = 16"

record db_persistence_thunk =
  kvs :: "(account_id \<times> nat list) list"
  pt_block_number :: nat

text \<open>\<open>sh_saved_key\<close> is the entry \<^verbatim>\<open>hash key\<close> of the shard's metadata on disk.\<close>

record account_lmdb_shard =
  sh_data :: "account_id \<rightharpoonup> nat list"
  sh_round :: nat
  sh_hash_key :: hash_key
  sh_saved_key :: "hash_key option"

record account_lmdb =
  shards :: "account_lmdb_shard list"
  lmdb_opened :: bool
  lmdb_hash_key :: hash_key
  min_persisted_round_number :: nat
  max_persisted_round_number :: nat

definition get_shard :: "(hash_key \<Rightarrow> account_id \<Rightarrow> nat) \<Rightarrow> account_id \<Rightarrow> hash_key \<Rightarrow> nat" where
  "get_shard H account k = (H k account mod 2 ^ 32) * NUM_ACCOUNT_DB_SHARDS div 2 ^ 32"

definition owns_account :: "(hash_key \<Rightarrow> account_id \<Rightarrow> nat) \<Rightarrow> nat \<Rightarrow> account_lmdb_shard \<Rightarrow> account_id \<Rightarrow> bool" where
  "owns_account H idx sh account \<longleftrightarrow> get_shard H account (sh_hash_key sh) = idx"

fun put_kvs ::
  "(account_id \<Rightarrow> bool) \<Rightarrow> (account_id \<times> nat list) list \<Rightarrow> (account_id \<rightharpoonup> nat list) \<Rightarrow> (account_id \<rightharpoonup> nat list) result" where
  "put_kvs owns [] d = Inr d"
| "put_kvs owns ((k, msg) # rest) d =
     (if \<not> owns k then put_kvs owns rest d
      else if msg = [] then Inl (RuntimeError ''failed to accumulate value in persistence thunk'')
      else put_kvs owns rest (d(k \<mapsto> msg)))"

definition exec_one_thunk ::
  "(account_id \<Rightarrow> bool) \<Rightarrow> db_persistence_thunk \<Rightarrow> (account_id \<rightharpoonup> nat list) \<times> nat \<Rightarrow> ((account_id \<rightharpoonup> nat list) \<times> nat) result" where
  "exec_one_thunk owns th st =
     (case st of (d, current) \<Rightarrow>
        if pt_block_number th < u64 (current + 1) \<and> current \<noteq> 0
        then Inl (RuntimeError ''cant persist blocks in wrong order!!!'')
        else bind_result (put_kvs owns (kvs th) d) (\<lambda>d'. Inr (d', pt_block_number th)))"

fun exec_thunks_loop ::
  "(account_id \<Rightarrow> bool) \<Rightarrow> bool \<Rightarrow> nat \<Rightarrow> db_persistence_thunk list \<Rightarrow> (account_id \<rightharpoonup> nat list) \<times> nat
     \<Rightarrow> ((account_id \<rightharpoonup> nat list) \<times> nat) result" where
  "exec_thunks_loop owns ignore_too_low starting [] st = Inr st"
| "exec_thunks_loop owns ignore_too_low starting (th # ths) st =
     (if ignore_too_low \<and> pt_block_number th \<le> starting \<and> \<not> (pt_block_number th = 0 \<and> starting = 0)
      then exec_thunks_loop owns ignore_too_low starting ths st
      else bind_result (exec_one_thunk owns th st) (exec_thunks_loop owns ignore_too_low starting ths))"

definition exec_thunks ::
  "(hash_key \<Rightarrow> account_id \<Rightarrow> nat) \<Rightarrow> nat \<Rightarrow> db_persistence_thunk list \<Rightarrow> nat \<Rightarrow> bool \<Rightarrow> account_lmdb_shard \<Rightarrow> account_lmdb_shard result" where
  "exec_thunks H idx ths max_round ignore_too_low sh =
     bind_result (exec_thunks_loop (owns_account H idx sh) ignore_too_low (sh_round sh) ths (sh_data sh, sh_round sh))
       (\<lambda>(d, current).
          if current > max_round then Inl (RuntimeError ''invalid persist max_round_number'')
          else Inr (sh\<lparr>sh_data := d, sh_round := max_round\<rparr>))"

text \<open>All workers, each on its own shard.\<close>

fun run_workers ::
  "(hash_key \<Rightarrow> account_id \<Rightarrow> nat) \<Rightarrow> db_persistence_thunk list \<Rightarrow> nat \<Rightarrow> bool \<Rightarrow> nat \<Rightarrow> account_lmdb_shard list
     \<Rightarrow> account_lmdb_shard list result" where
  "run_workers H ths max_round ignore_too_low idx [] = Inr []"
| "run_workers H ths max_round ignore_too_low idx (sh # shs) =
     bind_result (exec_thunks H idx ths max_round ignore_too_low sh)
       (\<lambda>sh'. bind_result (run_workers H ths max_round ignore_too_low (Suc idx) shs) (\<lambda>shs'. Inr (sh' # shs')))"

definition persist_thunks ::
  "(hash_key \<Rightarrow> account_id \<Rightarrow> nat) \<Rightarrow> db_persistence_thunk list \<Rightarrow> nat \<Rightarrow> bool \<Rightarrow> account_lmdb \<Rightarrow> account_lmdb result" where
  "persist_thunks H ths max_round ignore_too_low L =
     bind_result (run_workers H ths max_round ignore_too_low 0 (shards L))
       (\<lambda>shs. Inr (L\<lparr>shards := shs,
          min_persisted_round_number := max (min_persisted_round_number L) max_round,
          max_persisted_round_number := max (max_persisted_round_number L) max_round\<rparr>))"

section \<open>Opening and creating\<close>

definition sh_create_db :: "hash_key \<Rightarrow> account_lmdb_shard" where
  "sh_create_db k = \<lparr>sh_data = Map.empty, sh_round = 0, sh_hash_key = k, sh_saved_key = None\<rparr>"

definition load_hash_key :: "account_lmdb_shard \<Rightarrow> account_lmdb_shard result" where
  "load_hash_key sh =
     (case sh_saved_key sh of
        None \<Rightarrow> Inl (RuntimeError ''failed to load hash key from lmdb'')
      | Some k \<Rightarrow>
          if length k \<noteq> crypto_shorthash_KEYBYTES then Inl (RuntimeError ''saved key has wrong length'')
          else Inr (sh\<lparr>sh_hash_key := k\<rparr>))"

definition create_db :: "hash_key \<Rightarrow> account_lmdb" where
  "create_db fresh_key =
     \<lparr>shards = replicate NUM_ACCOUNT_DB_SHARDS (sh_create_db fresh_key), lmdb_opened = True, lmdb_hash_key = fresh_key,
      min_persisted_round_number = 0, max_persisted_round_number = 0\<rparr>"

definition get_min_max_persisted_round_numbers_direct :: "account_lmdb \<Rightarrow> nat \<times> nat" where
  "get_min_max_persisted_round_numbers_direct L =
     fold (\<lambda>sh (mn, mx). (min mn (sh_round sh), max mx (sh_round sh))) (shards L) (2 ^ 64 - 1, 0)"

fun open_shards :: "account_lmdb_shard list \<Rightarrow> account_lmdb_shard list result" where
  "open_shards [] = Inr []"
| "open_shards (sh # shs) = bind_result (load_hash_key sh) (\<lambda>sh'. bind_result (open_shards shs) (\<lambda>shs'. Inr (sh' # shs')))"

definition open_db :: "account_lmdb \<Rightarrow> account_lmdb result" where
  "open_db L =
     bind_result (open_shards (shards L))
       (\<lambda>shs. case shs of
          [] \<Rightarrow> Inl OutOfRange
        | sh # _ \<Rightarrow>
            (let (mn, mx) = get_min_max_persisted_round_numbers_direct (L\<lparr>shards := shs\<rparr>)
             in Inr (L\<lparr>shards := shs, lmdb_hash_key := sh_hash_key sh, lmdb_opened := True,
                    min_persisted_round_number := mn, max_persisted_round_number := mx\<rparr>)))"

definition get_persisted_round_number_by_account :: "(hash_key \<Rightarrow> account_id \<Rightarrow> nat) \<Rightarrow> account_id \<Rightarrow> account_lmdb \<Rightarrow> nat result" where
  "get_persisted_round_number_by_account H account L =
     bind_result (vec_at (shards L) (get_shard H account (lmdb_hash_key L))) (\<lambda>sh. Inr (sh_round sh))"

definition assert_snapshot_and_get_persisted_round_number :: "account_lmdb \<Rightarrow> nat result" where
  "assert_snapshot_and_get_persisted_round_number L =
     (if min_persisted_round_number L \<noteq> max_persisted_round_number L then Inl (RuntimeError ''shorn read'')
      else Inr (min_persisted_round_number L))"

definition rtxn_get :: "(hash_key \<Rightarrow> account_id \<Rightarrow> nat) \<Rightarrow> account_id \<Rightarrow> account_lmdb \<Rightarrow> nat list option result" where
  "rtxn_get H account L =
     bind_result (vec_at (shards L) (get_shard H account (lmdb_hash_key L))) (\<lambda>sh. Inr (sh_data sh account))"

section \<open>The database with its thunks\<close>

record ('pk, 't) persistent_db =
  mem :: "('pk, 't) memory_database"
  persistence_thunks :: "db_persistence_thunk list"
  account_lmdb_instance :: account_lmdb

text \<open>\<^verbatim>\<open>KVAssignment::operator=\<close> for every account of the log, in the order the log accumulates its keys.\<close>

fun kv_assignments ::
  "('pk account_commitment \<Rightarrow> nat list) \<Rightarrow> account_id list \<Rightarrow> ('pk, 't) memory_database \<Rightarrow> (account_id \<times> nat list) list result" where
  "kv_assignments enc [] db = Inr []"
| "kv_assignments enc (own # owns) db =
     (case db_lookup_user own db of
        None \<Rightarrow> Inl (RuntimeError ''cant commit invalid account'')
      | Some idx \<Rightarrow>
          bind_result (from_loop (ua_produce_commitment (db_account idx db)))
            (\<lambda>c. bind_result (kv_assignments enc owns db) (\<lambda>rest. Inr ((own, enc c) # rest))))"

definition add_persistence_thunk ::
  "('pk account_commitment \<Rightarrow> nat list) \<Rightarrow> nat \<Rightarrow> account_id list \<Rightarrow> ('pk, 't) persistent_db \<Rightarrow> ('pk, 't) persistent_db result" where
  "add_persistence_thunk enc current_block_number log st =
     bind_result (kv_assignments enc log (mem st))
       (\<lambda>es. Inr (st\<lparr>persistence_thunks := persistence_thunks st @ [\<lparr>kvs = es, pt_block_number = current_block_number\<rparr>]\<rparr>))"

definition commit_persistence_thunks ::
  "(hash_key \<Rightarrow> account_id \<Rightarrow> nat) \<Rightarrow> nat \<Rightarrow> ('pk, 't) persistent_db \<Rightarrow> ('pk, 't) persistent_db result" where
  "commit_persistence_thunks H max_round_number st =
     (let thunks_to_commit = filter (\<lambda>th. pt_block_number th \<le> max_round_number) (persistence_thunks st);
          st1 = st\<lparr>persistence_thunks := filter (\<lambda>th. \<not> pt_block_number th \<le> max_round_number) (persistence_thunks st)\<rparr>
      in bind_result
           (if lmdb_opened (account_lmdb_instance st1)
            then persist_thunks H thunks_to_commit max_round_number False (account_lmdb_instance st1)
            else Inr (account_lmdb_instance st1))
           (\<lambda>L. Inr (st1\<lparr>account_lmdb_instance := L,
              mem := (mem st1)\<lparr>account_creation_thunks :=
                filter (\<lambda>th. \<not> thunk_block_number th \<le> max_round_number) (account_creation_thunks (mem st1))\<rparr>\<rparr>)))"

fun all_assignments ::
  "('pk account_commitment \<Rightarrow> nat list) \<Rightarrow> 'pk user_account list \<Rightarrow> (account_id \<times> nat list) list result" where
  "all_assignments enc [] = Inr []"
| "all_assignments enc (a # as) =
     bind_result (from_loop (ua_produce_commitment a))
       (\<lambda>c. bind_result (all_assignments enc as) (\<lambda>rest. Inr ((acct_owner a, enc c) # rest)))"

definition db_persist_lmdb ::
  "(hash_key \<Rightarrow> account_id \<Rightarrow> nat) \<Rightarrow> ('pk account_commitment \<Rightarrow> nat list) \<Rightarrow> nat \<Rightarrow> ('pk, 't) persistent_db \<Rightarrow> ('pk, 't) persistent_db result" where
  "db_persist_lmdb H enc current_block_number st =
     bind_result (all_assignments enc (map (\<lambda>i. db_account i (mem st)) [0..<av_size (database (mem st))]))
       (\<lambda>es. bind_result
          (persist_thunks H [\<lparr>kvs = es, pt_block_number = current_block_number\<rparr>] current_block_number True (account_lmdb_instance st))
          (\<lambda>L. Inr (st\<lparr>account_lmdb_instance := L\<rparr>)))"

text \<open>
  \<^verbatim>\<open>_produce_state_commitment\<close>: every range of the parallel loop builds a trie of its own and merges it. The
  empty trie and the merge are arguments.
\<close>

record 't trie_merge =
  tm_new :: 't
  tm_merge_in :: "'t \<Rightarrow> 't \<Rightarrow> 't"

definition trie_merge_ok :: "'t trie_merge \<Rightarrow> ('t \<Rightarrow> account_id \<rightharpoonup> 'v) \<Rightarrow> bool" where
  "trie_merge_ok M entries \<longleftrightarrow>
     entries (tm_new M) = Map.empty
     \<and> (\<forall>other t. dom (entries other) \<inter> dom (entries t) = {} \<longrightarrow> entries (tm_merge_in M other t) = entries t ++ entries other)"

fun commit_range ::
  "('t, 'pk account_commitment, 'h) trie_ops \<Rightarrow> nat list \<Rightarrow> ('pk, 't) memory_database \<Rightarrow> 't \<Rightarrow> 't result" where
  "commit_range T [] db local_trie = Inr local_trie"
| "commit_range T (i # is) db local_trie =
     bind_result (from_loop (ua_produce_commitment (db_account i db)))
       (\<lambda>c. commit_range T is db (t_insert T (acct_owner (db_account i db)) c local_trie))"

fun produce_all ::
  "('t, 'pk account_commitment, 'h) trie_ops \<Rightarrow> 't trie_merge \<Rightarrow> nat list list \<Rightarrow> ('pk, 't) memory_database \<Rightarrow> ('pk, 't) memory_database result" where
  "produce_all T M [] db = Inr db"
| "produce_all T M (r # rs) db =
     bind_result (commit_range T r db (tm_new M))
       (\<lambda>local_trie. produce_all T M rs (db\<lparr>commitment_trie := tm_merge_in M local_trie (commitment_trie db)\<rparr>))"

section \<open>Loading\<close>

fun load_entries ::
  "(nat list \<Rightarrow> 'pk account_commitment option) \<Rightarrow> 'pk \<Rightarrow> (account_id \<times> nat list) list \<Rightarrow> ('pk, 't) memory_database \<Rightarrow> ('pk, 't) memory_database result" where
  "load_entries dec default_pk [] db = Inr db"
| "load_entries dec default_pk ((account_owner, msg) # rest) db =
     (case dec msg of
        None \<Rightarrow> Inl (RuntimeError ''xdr'')
      | Some c \<Rightarrow>
          if account_owner \<noteq> ac_owner c then Inl (RuntimeError ''key read error'')
          else bind_result (account_from_commitment c) (\<lambda>a.
            case av_emplace_back (blank_account default_pk) a (database db) of
              None \<Rightarrow> Inl UndefinedBehaviour
            | Some (acct, v) \<Rightarrow>
                load_entries dec default_pk rest
                  (db\<lparr>database := v,
                      user_id_to_idx_map := (case user_id_to_idx_map db (ac_owner c) of
                         None \<Rightarrow> (user_id_to_idx_map db)(ac_owner c \<mapsto> acct) | Some _ \<Rightarrow> user_id_to_idx_map db)\<rparr>)))"

fun load_shards ::
  "((account_id \<rightharpoonup> nat list) \<Rightarrow> (account_id \<times> nat list) list) \<Rightarrow> (nat list \<Rightarrow> 'pk account_commitment option) \<Rightarrow> 'pk
     \<Rightarrow> account_lmdb_shard list \<Rightarrow> ('pk, 't) memory_database \<Rightarrow> ('pk, 't) memory_database result" where
  "load_shards cursor dec default_pk [] db = Inr db"
| "load_shards cursor dec default_pk (sh # shs) db =
     bind_result (load_entries dec default_pk (cursor (sh_data sh)) db) (load_shards cursor dec default_pk shs)"

text \<open>\<open>ranges\<close> is the partition of the indices that the parallel loop chooses for a table of a given size.\<close>

definition db_load_lmdb_contents_to_memory ::
  "((account_id \<rightharpoonup> nat list) \<Rightarrow> (account_id \<times> nat list) list) \<Rightarrow> (nat list \<Rightarrow> 'pk account_commitment option) \<Rightarrow> 'pk
     \<Rightarrow> ('t, 'pk account_commitment, 'h) trie_ops \<Rightarrow> 't trie_merge \<Rightarrow> (nat \<Rightarrow> nat list list) \<Rightarrow> ('pk, 't) persistent_db \<Rightarrow> ('pk, 't) persistent_db result" where
  "db_load_lmdb_contents_to_memory cursor dec default_pk T M ranges st =
     bind_result (load_shards cursor dec default_pk (shards (account_lmdb_instance st)) (mem st))
       (\<lambda>db. bind_result (produce_all T M (ranges (av_size (database db))) db) (\<lambda>db'. Inr (st\<lparr>mem := db'\<rparr>)))"

section \<open>Rewinding\<close>

fun reload_accounts ::
  "(hash_key \<Rightarrow> account_id \<Rightarrow> nat) \<Rightarrow> (nat list \<Rightarrow> 'pk account_commitment option) \<Rightarrow> account_lmdb \<Rightarrow> account_id list
     \<Rightarrow> ('pk, 't) memory_database \<Rightarrow> ('pk, 't) memory_database result" where
  "reload_accounts H dec L [] db = Inr db"
| "reload_accounts H dec L (k # ks) db =
     bind_result (rtxn_get H k L) (\<lambda>res.
       case res of
         None \<Rightarrow> reload_accounts H dec L ks db
       | Some msg \<Rightarrow>
           (case dec msg of
              None \<Rightarrow> Inl (RuntimeError ''xdr'')
            | Some c \<Rightarrow>
                (case user_id_to_idx_map db k of
                   None \<Rightarrow> Inl (RuntimeError ''invalid lookup to user_id_to_idx_map!'')
                 | Some idx \<Rightarrow>
                     bind_result (account_from_commitment c)
                       (\<lambda>a. reload_accounts H dec L ks (db_modify idx (\<lambda>_. a) db)))))"

fun reload_thunks ::
  "(hash_key \<Rightarrow> account_id \<Rightarrow> nat) \<Rightarrow> (nat list \<Rightarrow> 'pk account_commitment option) \<Rightarrow> account_lmdb \<Rightarrow> nat \<Rightarrow> db_persistence_thunk list
     \<Rightarrow> ('pk, 't) memory_database \<Rightarrow> ('pk, 't) memory_database result" where
  "reload_thunks H dec L n [] db = Inr db"
| "reload_thunks H dec L n (th # ths) db =
     bind_result (if pt_block_number th > n then reload_accounts H dec L (map fst (kvs th)) db else Inr db)
       (reload_thunks H dec L n ths)"

definition clear_persistence_thunks_and_reload ::
  "(hash_key \<Rightarrow> account_id \<Rightarrow> nat) \<Rightarrow> (nat list \<Rightarrow> 'pk account_commitment option) \<Rightarrow> ('t, 'pk account_commitment, 'h) trie_ops
     \<Rightarrow> nat \<Rightarrow> ('pk, 't) persistent_db \<Rightarrow> ('pk, 't) persistent_db result" where
  "clear_persistence_thunks_and_reload H dec T n st =
     bind_result (assert_snapshot_and_get_persisted_round_number (account_lmdb_instance st)) (\<lambda>round.
       if n \<noteq> round then Inl (RuntimeError ''mismatch between expected round in db and actual persisted round in db'')
       else bind_result (from_ub (rollback_new_accounts T n (mem st))) (\<lambda>db.
         bind_result (reload_thunks H dec (account_lmdb_instance st) n (rev (persistence_thunks st)) db)
           (\<lambda>db'. Inr (st\<lparr>mem := db', persistence_thunks := []\<rparr>))))"

section \<open>Genesis\<close>

fun install_range ::
  "('t, 'pk account_commitment, 'h) trie_ops \<Rightarrow> ('pk user_account \<Rightarrow> 'pk user_account) \<Rightarrow> account_id list \<Rightarrow> 'pk list \<Rightarrow> nat list
     \<Rightarrow> ('pk, 't) memory_database \<times> (account_id \<rightharpoonup> nat) \<times> 't \<Rightarrow> (('pk, 't) memory_database \<times> (account_id \<rightharpoonup> nat) \<times> 't) result" where
  "install_range T account_init id_list pk_list [] st = Inr st"
| "install_range T account_init id_list pk_list (idx # is) (db, local_id_map, local_trie) =
     (if length id_list \<le> idx \<or> length pk_list \<le> idx then Inl UndefinedBehaviour
      else (let id = id_list ! idx; db' = db_modify idx (\<lambda>a. account_init (set_owner id (pk_list ! idx) 0 a)) db
            in bind_result (from_loop (ua_produce_commitment (db_account idx db')))
                 (\<lambda>c. install_range T account_init id_list pk_list is
                    (db', case local_id_map id of None \<Rightarrow> local_id_map(id \<mapsto> idx) | Some _ \<Rightarrow> local_id_map,
                     t_insert T id c local_trie))))"

fun install_ranges ::
  "('t, 'pk account_commitment, 'h) trie_ops \<Rightarrow> 't trie_merge \<Rightarrow> ('pk user_account \<Rightarrow> 'pk user_account) \<Rightarrow> account_id list \<Rightarrow> 'pk list
     \<Rightarrow> nat list list \<Rightarrow> ('pk, 't) memory_database \<Rightarrow> ('pk, 't) memory_database result" where
  "install_ranges T M account_init id_list pk_list [] db = Inr db"
| "install_ranges T M account_init id_list pk_list (r # rs) db =
     bind_result (install_range T account_init id_list pk_list r (db, Map.empty, tm_new M))
       (\<lambda>(db', local_id_map, local_trie).
          install_ranges T M account_init id_list pk_list rs
            (db'\<lparr>commitment_trie := tm_merge_in M local_trie (commitment_trie db'),
                 user_id_to_idx_map := local_id_map ++ user_id_to_idx_map db'\<rparr>))"

definition install_initial_accounts_and_commit ::
  "('t, 'pk account_commitment, 'h) trie_ops \<Rightarrow> 't trie_merge \<Rightarrow> 'pk \<Rightarrow> ('pk user_account \<Rightarrow> 'pk user_account) \<Rightarrow> account_id list \<Rightarrow> 'pk list
     \<Rightarrow> (nat \<Rightarrow> nat list list) \<Rightarrow> ('pk, 't) memory_database \<Rightarrow> ('pk, 't) memory_database result" where
  "install_initial_accounts_and_commit T M default_pk account_init id_list pk_list ranges db =
     (if av_size (database db) \<noteq> 0 then Inl (RuntimeError ''database reinitialization attempted'')
      else bind_result (av_resize (blank_account default_pk) (length id_list) (database db))
        (\<lambda>v. install_ranges T M account_init id_list pk_list (ranges (length id_list)) (db\<lparr>database := v\<rparr>)))"

section \<open>One shard\<close>

lemma get_shard_less: "get_shard H a k < NUM_ACCOUNT_DB_SHARDS"
  by (simp add: get_shard_def NUM_ACCOUNT_DB_SHARDS_def less_mult_imp_div_less)

definition msgs_ok :: "db_persistence_thunk list \<Rightarrow> bool" where
  "msgs_ok ths \<longleftrightarrow> (\<forall>th\<in>set ths. \<forall>e\<in>set (kvs th). snd e \<noteq> [])"

lemma put_kvs_eq:
  "\<forall>e\<in>set es. snd e \<noteq> [] \<Longrightarrow> put_kvs owns es d = Inr (d ++ map_of (rev (filter (\<lambda>e. owns (fst e)) es)))"
proof (induction es arbitrary: d)
  case (Cons e es)
  then show ?case by (cases e) (auto simp: map_add_def fun_eq_iff split: option.split)
qed simp

text \<open>What a list of thunks writes to a table, restricted to the accounts of a shard.\<close>

definition written :: "(account_id \<Rightarrow> bool) \<Rightarrow> db_persistence_thunk list \<Rightarrow> (account_id \<rightharpoonup> nat list) \<Rightarrow> account_id \<rightharpoonup> nat list" where
  "written owns ths d = d ++ map_of (rev (filter (\<lambda>e. owns (fst e)) (concat (map kvs ths))))"

lemma written_simps [simp]:
  "written owns [] d = d"
  "written owns (th # ths) d = written owns ths (d ++ map_of (rev (filter (\<lambda>e. owns (fst e)) (kvs th))))"
  by (simp_all add: written_def)

definition ascending_from :: "nat \<Rightarrow> nat \<Rightarrow> db_persistence_thunk list \<Rightarrow> bool" where
  "ascending_from lo hi ths \<longleftrightarrow>
     sorted_wrt (<) (map pt_block_number ths) \<and> (\<forall>th\<in>set ths. lo < pt_block_number th \<and> pt_block_number th \<le> hi) \<and> lo \<le> hi \<and> hi < 2 ^ 64 - 1"

lemma exec_loop_all:
  "msgs_ok ths \<Longrightarrow> ascending_from cur hi ths \<Longrightarrow> (ig \<longrightarrow> (\<forall>th\<in>set ths. starting < pt_block_number th)) \<Longrightarrow>
   exec_thunks_loop owns ig starting ths (d, cur) = Inr (written owns ths d, if ths = [] then cur else pt_block_number (last ths))"
proof (induction ths arbitrary: d cur)
  case (Cons th ths)
  have u: "u64 (cur + 1) = cur + 1" using Cons.prems(2) by (simp add: ascending_from_def u64_def)
  have "ascending_from (pt_block_number th) hi ths"
    using Cons.prems(2) by (auto simp: ascending_from_def)
  then show ?case
    using Cons.IH [of "pt_block_number th"] Cons.prems u put_kvs_eq [of "kvs th" owns d]
    by (auto simp: exec_one_thunk_def msgs_ok_def ascending_from_def)
qed simp

lemma exec_loop_skip:
  "\<forall>th\<in>set ths. pt_block_number th \<le> starting \<Longrightarrow> 0 < starting \<Longrightarrow> exec_thunks_loop owns True starting ths st = Inr st"
  by (induction ths) auto

definition shard_after :: "(hash_key \<Rightarrow> account_id \<Rightarrow> nat) \<Rightarrow> db_persistence_thunk list \<Rightarrow> nat \<Rightarrow> nat \<Rightarrow> account_lmdb_shard \<Rightarrow> account_lmdb_shard" where
  "shard_after H ths n i sh = sh\<lparr>sh_data := written (owns_account H i sh) ths (sh_data sh), sh_round := n\<rparr>"

lemma exec_thunks_fresh:
  assumes "msgs_ok ths" "ascending_from (sh_round sh) n ths"
  shows "exec_thunks H i ths n ig sh = Inr (shard_after H ths n i sh)"
proof -
  have "(if ths = [] then sh_round sh else pt_block_number (last ths)) \<le> n"
    using assms(2) by (auto simp: ascending_from_def)
  moreover have "ig \<longrightarrow> (\<forall>th\<in>set ths. sh_round sh < pt_block_number th)" using assms(2) by (simp add: ascending_from_def)
  ultimately show ?thesis
    using exec_loop_all [OF assms, of ig "sh_round sh" "owns_account H i sh" "sh_data sh"]
    by (auto simp: exec_thunks_def shard_after_def)
qed

lemma exec_thunks_done:
  assumes "ascending_from lo n ths" "sh_round sh = n" "lo < n"
  shows "exec_thunks H i ths n True sh = Inr sh"
  using assms exec_loop_skip [of ths n "owns_account H i sh"]
  by (auto simp: exec_thunks_def ascending_from_def)

lemma run_workers_Inr:
  "(\<And>i. i < length shs \<Longrightarrow> exec_thunks H (idx + i) ths n ig (shs ! i) = Inr (f i)) \<Longrightarrow>
   run_workers H ths n ig idx shs = Inr (map f [0..<length shs])"
proof (induction shs arbitrary: idx f)
  case (Cons sh shs)
  have "run_workers H ths n ig (Suc idx) shs = Inr (map (\<lambda>i. f (Suc i)) [0..<length shs])"
    using Cons.prems [of "Suc _"] by (intro Cons.IH) simp
  moreover have "map f [0..<length (sh # shs)] = f 0 # map (\<lambda>i. f (Suc i)) [0..<length shs]"
    by (simp add: upt_conv_Cons map_Suc_upt [symmetric] del: upt_Suc)
  ultimately show ?case using Cons.prems [of 0] by simp
qed simp

section \<open>Crashes while the shards are written\<close>

text \<open>
  Every worker commits its shard in one transaction. The relation collects what the disk can hold after any
  number of workers have committed, before and after any number of crashes: a shard is written again with or
  without ignoring thunks it already has.
\<close>

inductive shard_commits :: "(hash_key \<Rightarrow> account_id \<Rightarrow> nat) \<Rightarrow> db_persistence_thunk list \<Rightarrow> nat \<Rightarrow> account_lmdb_shard list \<Rightarrow> account_lmdb_shard list \<Rightarrow> bool"
  for H ths n shs where
  none: "shard_commits H ths n shs shs"
| commit: "shard_commits H ths n shs shs1 \<Longrightarrow> i < length shs1 \<Longrightarrow> exec_thunks H i ths n ig (shs1 ! i) = Inr sh \<Longrightarrow>
    shard_commits H ths n shs (shs1[i := sh])"

lemma shard_commits_old_or_new:
  assumes ok: "msgs_ok ths" "ths \<noteq> []" and asc: "\<forall>sh\<in>set shs. sh_round sh < n \<and> ascending_from (sh_round sh) n ths"
  shows "shard_commits H ths n shs shs1 \<Longrightarrow>
    length shs1 = length shs \<and> (\<forall>i<length shs. shs1 ! i = shs ! i \<or> shs1 ! i = shard_after H ths n i (shs ! i))"
proof (induction rule: shard_commits.induct)
  case (commit shs1 i ig sh)
  then have i: "i < length shs" by simp
  then have lo: "sh_round (shs ! i) < n" "ascending_from (sh_round (shs ! i)) n ths" using asc by auto
  have "sh = shard_after H ths n i (shs ! i)"
  proof (cases "shs1 ! i = shs ! i")
    case True
    then show ?thesis using commit.hyps(3) exec_thunks_fresh [OF ok(1) lo(2), of H i ig] by simp
  next
    case False
    then have new: "shs1 ! i = shard_after H ths n i (shs ! i)" using commit.IH i by blast
    have r: "sh_round (shs1 ! i) = n" using new by (simp add: shard_after_def)
    show ?thesis
    proof (cases ig)
      case True
      then show ?thesis using commit.hyps(3) exec_thunks_done [OF lo(2) r lo(1), of H i] new by simp
    next
      case False
      obtain th rest where ths: "ths = th # rest" using ok(2) by (cases ths) auto
      have "pt_block_number th < u64 (n + 1)" "n \<noteq> 0" using lo ths by (auto simp: ascending_from_def u64_def)
      then show ?thesis using commit.hyps(3) False r by (simp add: exec_thunks_def ths exec_one_thunk_def)
    qed
  qed
  then show ?case using commit.IH i by (auto simp: nth_list_update)
qed simp

definition reopened :: "account_lmdb_shard list \<Rightarrow> account_lmdb \<Rightarrow> account_lmdb" where
  "reopened shs L =
     (let (mn, mx) = get_min_max_persisted_round_numbers_direct (L\<lparr>shards := shs\<rparr>)
      in L\<lparr>shards := shs, min_persisted_round_number := mn, max_persisted_round_number := mx\<rparr>)"

lemma min_max_rounds:
  assumes "shards L \<noteq> []" "\<forall>sh\<in>set (shards L). sh_round sh \<le> n" "n < 2 ^ 64"
  shows "fst (get_min_max_persisted_round_numbers_direct L) \<le> n" "snd (get_min_max_persisted_round_numbers_direct L) \<le> n"
proof -
  have f: "fold (\<lambda>sh (mn, mx). (min mn (sh_round sh), max mx (sh_round sh))) xs (a, b)
      = (fold (\<lambda>sh m. min m (sh_round sh)) xs a, fold (\<lambda>sh m. max m (sh_round sh)) xs b)" for xs and a b :: nat
    by (induction xs arbitrary: a b) simp_all
  have mx: "fold (\<lambda>sh m. max m (sh_round sh)) xs b \<le> n" if "b \<le> n" "\<forall>sh\<in>set xs. sh_round sh \<le> n" for xs and b :: nat
    using that by (induction xs arbitrary: b) simp_all
  have mn: "fold (\<lambda>sh m. min m (sh_round sh)) xs a \<le> n" if "a \<le> n" for xs and a :: nat
    using that by (induction xs arbitrary: a) (simp_all add: min.coboundedI1)
  obtain sh xs where "shards L = sh # xs" using assms(1) by (cases "shards L") auto
  then show "fst (get_min_max_persisted_round_numbers_direct L) \<le> n" "snd (get_min_max_persisted_round_numbers_direct L) \<le> n"
    using assms(2) mx [of 0 "shards L"] mn [of "min (2 ^ 64 - 1) (sh_round sh)" xs]
    by (simp_all add: get_min_max_persisted_round_numbers_direct_def f min.coboundedI2)
qed

lemma persist_thunks_fresh:
  assumes "msgs_ok ths" "\<forall>sh\<in>set (shards L). ascending_from (sh_round sh) n ths"
  shows "persist_thunks H ths n ig L = Inr (L\<lparr>shards := map (\<lambda>i. shard_after H ths n i (shards L ! i)) [0..<length (shards L)],
    min_persisted_round_number := max (min_persisted_round_number L) n, max_persisted_round_number := max (max_persisted_round_number L) n\<rparr>)"
  using run_workers_Inr [of "shards L" H 0 ths n ig "\<lambda>i. shard_after H ths n i (shards L ! i)"] exec_thunks_fresh [OF assms(1)] assms(2)
  by (simp add: persist_thunks_def)

lemma recovery_completes:
  assumes ok: "msgs_ok ths" "ths \<noteq> []" and ne: "shards L \<noteq> []"
    and asc: "\<forall>sh\<in>set (shards L). sh_round sh < n \<and> ascending_from (sh_round sh) n ths"
    and run: "shard_commits H ths n (shards L) shs"
  shows "\<exists>L1 L2. persist_thunks H ths n False L = Inr L1 \<and> persist_thunks H ths n True (reopened shs L) = Inr L2 \<and>
    shards L2 = shards L1 \<and> assert_snapshot_and_get_persisted_round_number L2 = Inr n"
proof -
  let ?new = "\<lambda>i. shard_after H ths n i (shards L ! i)"
  note st = shard_commits_old_or_new [OF ok asc run]
  have ex: "exec_thunks H i ths n True (shs ! i) = Inr (?new i)" if "i < length (shards L)" for i
  proof -
    have lo: "sh_round (shards L ! i) < n" "ascending_from (sh_round (shards L ! i)) n ths" using that asc by auto
    show ?thesis
    proof (cases "shs ! i = shards L ! i")
      case True
      then show ?thesis using exec_thunks_fresh [OF ok(1) lo(2)] by simp
    next
      case False
      then have "shs ! i = ?new i" using st that by blast
      then show ?thesis using exec_thunks_done [OF lo(2) _ lo(1), of "?new i" H i] by (simp add: shard_after_def)
    qed
  qed
  have "sh_round sh \<le> n" if sh: "sh \<in> set shs" for sh
  proof -
    obtain i where i: "i < length (shards L)" "shs ! i = sh" using sh st by (auto simp: in_set_conv_nth)
    then have "sh = shards L ! i \<or> sh = ?new i" "sh_round (shards L ! i) < n" using st asc by auto
    then show ?thesis by (auto simp: shard_after_def)
  qed
  moreover have "shs \<noteq> []" using st ne by auto
  moreover have "n < 2 ^ 64" using ne asc by (cases "shards L") (auto simp: ascending_from_def)
  ultimately have mm: "min_persisted_round_number (reopened shs L) \<le> n" "max_persisted_round_number (reopened shs L) \<le> n"
    using min_max_rounds [of "L\<lparr>shards := shs\<rparr>" n] by (auto simp: reopened_def split: prod.split)
  have "run_workers H ths n True 0 shs = Inr (map ?new [0..<length (shards L)])"
    using run_workers_Inr [of shs H 0 ths n True ?new] ex st by simp
  moreover have "shards (reopened shs L) = shs" by (simp add: reopened_def split: prod.split)
  ultimately show ?thesis
    using persist_thunks_fresh [OF ok(1), of L n H False] asc mm
    by (simp add: persist_thunks_def [of H ths n True] assert_snapshot_and_get_persisted_round_number_def)
qed

section \<open>Blocks and their thunks\<close>

text \<open>The committed state of every account, as it is hashed and written.\<close>

definition commits :: "('pk, 't) memory_database \<Rightarrow> account_id \<rightharpoonup> 'pk account_commitment" where
  "commits db a = Option.bind (user_id_to_idx_map db a) (\<lambda>i. ua_produce_commitment (db_account i db))"

definition image_of :: "('pk account_commitment \<Rightarrow> nat list) \<Rightarrow> ('pk, 't) memory_database \<Rightarrow> account_id \<rightharpoonup> nat list" where
  "image_of enc db a = map_option enc (commits db a)"

text \<open>Processing transactions and clearing offers change only the uncommitted state of accounts.\<close>

definition quiet :: "('pk, 't) memory_database \<Rightarrow> ('pk, 't) memory_database \<Rightarrow> bool" where
  "quiet db db' \<longleftrightarrow> db_wf db' \<and> user_id_to_idx_map db' = user_id_to_idx_map db \<and> commitment_trie db' = commitment_trie db \<and>
     account_creation_thunks db' = account_creation_thunks db \<and> length (contents db') = length (contents db) \<and>
     (\<forall>p<length (contents db). ua_produce_commitment (contents db' ! p) = ua_produce_commitment (contents db ! p))"

definition creations_ok :: "('pk, 't) memory_database \<Rightarrow> bool" where
  "creations_ok db \<longleftrightarrow> distinct (map acct_owner (uncommitted_db db)) \<and>
     acct_owner ` set (uncommitted_db db) \<inter> dom (user_id_to_idx_map db) = {} \<and>
     list_all (\<lambda>a. length (all_assets a) < 256) (uncommitted_db db) \<and> av_size (database db) + length (uncommitted_db db) < 2 ^ 64"

definition in_range_accounts :: "('pk, 't) memory_database \<Rightarrow> bool" where
  "in_range_accounts db \<longleftrightarrow> list_all (\<lambda>a. list_all (\<lambda>x. in_i64 (committed_available x)) (owned_assets a)) (contents db)"

text \<open>
  A block of the producer: transactions, creation of the new accounts, clearing, commit of the values of the
  logged accounts, state commitment, and the thunk. New accounts are logged.
\<close>

inductive db_blocks ::
  "('t, 'pk account_commitment, 'h) trie_ops \<Rightarrow> ('pk account_commitment \<Rightarrow> nat list) \<Rightarrow> 'pk
     \<Rightarrow> ('pk, 't) persistent_db \<Rightarrow> ('pk, 't) persistent_db \<Rightarrow> db_persistence_thunk list \<Rightarrow> bool"
  for T enc dpk s0 where
  start: "db_blocks T enc dpk s0 s0 []"
| block: "db_blocks T enc dpk s0 s ths \<Longrightarrow> quiet (mem s) m1 \<Longrightarrow> creations_ok m1 \<Longrightarrow> commit_new_accounts T dpk mn n m1 = Inr m2 \<Longrightarrow>
    quiet m2 m3 \<Longrightarrow> distinct log \<Longrightarrow> acct_owner ` set (uncommitted_db m1) \<subseteq> set log \<Longrightarrow>
    commit_values_log log m3 = Inr m4 \<Longrightarrow> produce_state_commitment T log m4 = Inr (h, m5) \<Longrightarrow> in_range_accounts m5 \<Longrightarrow>
    add_persistence_thunk enc n log (s\<lparr>mem := m5\<rparr>) = Inr s' \<Longrightarrow>
    db_blocks T enc dpk s0 s' (ths @ [last (persistence_thunks s')])"

lemma commits_contents:
  assumes "db_wf db"
  shows "commits db a = (case user_id_to_idx_map db a of None \<Rightarrow> None | Some p \<Rightarrow> ua_produce_commitment (contents db ! p))"
proof (cases "user_id_to_idx_map db a")
  case (Some p)
  then have "p < length (contents db)" using assms unfolding db_wf_def by blast
  then show ?thesis using Some db_account_nth [of p db] by (simp add: commits_def)
qed (simp add: commits_def)

lemma quiet_commits:
  assumes "quiet db db'" "db_wf db"
  shows "commits db' = commits db"
proof
  fix a
  have wf: "db_wf db'" "user_id_to_idx_map db' = user_id_to_idx_map db" using assms by (simp_all add: quiet_def)
  show "commits db' a = commits db a"
  proof (cases "user_id_to_idx_map db a")
    case (Some p)
    then have "p < length (contents db)" using assms(2) unfolding db_wf_def by blast
    then show ?thesis using Some assms(1) wf(2) commits_contents [OF wf(1), of a] commits_contents [OF assms(2), of a] by (simp add: quiet_def)
  qed (simp add: commits_contents [OF wf(1)] commits_contents [OF assms(2)] wf)
qed

lemma owners_of_map:
  assumes "db_wf db" "db_wf db'" "user_id_to_idx_map db' = user_id_to_idx_map db" "length (contents db') = length (contents db)"
  shows "map acct_owner (contents db') = map acct_owner (contents db)"
proof (rule nth_equalityI)
  fix i assume "i < length (map acct_owner (contents db'))"
  then have i: "i < length (contents db)" using assms(4) by simp
  then have "user_id_to_idx_map db (acct_owner (contents db ! i)) = Some i" using assms(1) unfolding db_wf_def by blast
  then have "user_id_to_idx_map db' (acct_owner (contents db ! i)) = Some i" using assms(3) by simp
  then have "acct_owner (contents db' ! i) = acct_owner (contents db ! i)" using assms(2) unfolding db_wf_def by blast
  then show "map acct_owner (contents db') ! i = map acct_owner (contents db) ! i" using i assms(4) by simp
qed (use assms in simp)

subsection \<open>The steps of a block\<close>

lemma commit_values_log_run:
  "commit_values_log log db = Inr db' \<Longrightarrow> set log \<subseteq> dom (user_id_to_idx_map db) \<and> account_creation_thunks db' = account_creation_thunks db"
proof (induction log arbitrary: db)
  case (Cons own log)
  then obtain p where p: "user_id_to_idx_map db own = Some p" "commit_values_log log (db_modify p ua_commit db) = Inr db'"
    by (auto simp: db_lookup_user_def split: option.splits)
  then show ?case using Cons.IH [OF p(2)] by (auto simp: db_modify_def)
qed simp

lemma set_trie_commitments_run:
  assumes ok: "commitment_trie_ok T entries"
  shows "set_trie_commitments T f log db = Inr db' \<Longrightarrow> set log \<subseteq> dom (entries (commitment_trie db)) \<Longrightarrow>
    (\<exists>t. db' = db\<lparr>commitment_trie := t\<rparr>) \<and>
    (\<forall>own. entries (commitment_trie db') own =
      (if own \<in> set log then Option.bind (user_id_to_idx_map db own) (\<lambda>i. f (db_account i db)) else entries (commitment_trie db) own)) \<and>
    (\<forall>own\<in>set log. Option.bind (user_id_to_idx_map db own) (\<lambda>i. f (db_account i db)) \<noteq> None)"
proof (induction log arbitrary: db)
  case Nil
  then show ?case by (auto intro: exI [of _ "commitment_trie db"])
next
  case (Cons own log)
  obtain idx where idx: "user_id_to_idx_map db own = Some idx"
    using Cons.prems(1) by (cases "user_id_to_idx_map db own") auto
  obtain c where c: "f (db_account idx db) = Some c"
    using Cons.prems(1) idx by (cases "f (db_account idx db)") (auto simp: from_loop_def)
  let ?d = "db\<lparr>commitment_trie := t_modify_value T own c (commitment_trie db)\<rparr>"
  have tr: "entries (commitment_trie ?d) = (entries (commitment_trie db))(own \<mapsto> c)"
    using ok Cons.prems(2) by (auto simp: commitment_trie_ok_def)
  have same: "db_account i ?d = db_account i db" for i by (simp add: db_account_def)
  have "set_trie_commitments T f log ?d = Inr db'" using Cons.prems(1) idx c by simp
  moreover have "set log \<subseteq> dom (entries (commitment_trie ?d))" unfolding tr using Cons.prems(2) by auto
  ultimately have IH: "(\<exists>t. db' = ?d\<lparr>commitment_trie := t\<rparr>) \<and>
    (\<forall>o'. entries (commitment_trie db') o' =
      (if o' \<in> set log then Option.bind (user_id_to_idx_map db o') (\<lambda>i. f (db_account i db)) else entries (commitment_trie ?d) o')) \<and>
    (\<forall>o'\<in>set log. Option.bind (user_id_to_idx_map db o') (\<lambda>i. f (db_account i db)) \<noteq> None)"
    using Cons.IH [of ?d] same by simp
  then show ?case using idx c tr by (auto simp: fun_eq_iff)
qed

lemma kv_assignments_run:
  "kv_assignments enc log db = Inr es \<Longrightarrow> es = map (\<lambda>own. (own, enc (the (commits db own)))) log \<and> (\<forall>own\<in>set log. commits db own \<noteq> None)"
proof (induction log arbitrary: es)
  case (Cons own log)
  obtain idx where idx: "user_id_to_idx_map db own = Some idx"
    using Cons.prems by (cases "user_id_to_idx_map db own") (auto simp: db_lookup_user_def)
  obtain c where c: "ua_produce_commitment (db_account idx db) = Some c"
    using Cons.prems idx by (cases "ua_produce_commitment (db_account idx db)") (auto simp: from_loop_def db_lookup_user_def)
  obtain rest where "kv_assignments enc log db = Inr rest" "es = (own, enc c) # rest"
    using Cons.prems idx c by (auto simp: db_lookup_user_def bind_result_Inr)
  then show ?case using Cons.IH idx c by (auto simp: commits_def)
qed simp

text \<open>The state between two blocks: table and trie agree.\<close>

definition settled :: "('t \<Rightarrow> account_id \<rightharpoonup> 'pk account_commitment) \<Rightarrow> ('pk, 't) memory_database \<Rightarrow> bool" where
  "settled entries db \<longleftrightarrow> db_wf db \<and> entries (commitment_trie db) = commits db \<and> dom (commits db) = dom (user_id_to_idx_map db) \<and>
     in_range_accounts db"

lemma new_accounts_effect:
  assumes ok: "commitment_trie_ok T entries" and wf: "db_wf db" and dom: "dom (entries (commitment_trie db)) = dom (user_id_to_idx_map db)"
    and cr: "creations_ok db" and run: "commit_new_accounts T dpk mn n db = Inr db'"
  shows "db_wf db' \<and> contents db' = contents db @ map ua_commit (uncommitted_db db) \<and>
    account_creation_thunks db' = account_creation_thunks db @ [\<lparr>thunk_block_number = n, num_accounts_created = length (uncommitted_db db)\<rparr>] \<and>
    dom (entries (commitment_trie db')) = dom (user_id_to_idx_map db') \<and>
    (\<forall>own. own \<notin> acct_owner ` set (uncommitted_db db) \<longrightarrow>
       entries (commitment_trie db') own = entries (commitment_trie db) own \<and> user_id_to_idx_map db' own = user_id_to_idx_map db own)"
proof -
  let ?us = "uncommitted_db db"
  have c: "distinct (map acct_owner ?us)" "acct_owner ` set ?us \<inter> dom (user_id_to_idx_map db) = {}"
      "list_all (\<lambda>a. length (all_assets a) < 256) ?us" "av_size (database db) + length ?us < 2 ^ 64"
    using cr by (simp_all add: creations_ok_def)
  from commit_accounts_loop_correct [OF ok wf c(1,2) dom c(3,4), of dpk]
  obtain d where d: "commit_accounts_loop T dpk ?us db = Inr d" "db_wf d" "contents d = contents db @ map ua_commit ?us"
      "account_creation_thunks d = account_creation_thunks db" "dom (entries (commitment_trie d)) = dom (user_id_to_idx_map d)"
      "\<forall>own. own \<notin> acct_owner ` set ?us \<longrightarrow> entries (commitment_trie d) own = entries (commitment_trie db) own"
    by blast
  have db': "db' = clear_internal_data_structures (d\<lparr>account_creation_thunks := account_creation_thunks d @
      [\<lparr>thunk_block_number = n, num_accounts_created = length ?us\<rparr>]\<rparr>)"
    using run d(1) by (auto simp: commit_new_accounts_def Let_def split: if_splits)
  have map: "user_id_to_idx_map d own = user_id_to_idx_map db own" if own: "own \<notin> acct_owner ` set ?us" for own
  proof (rule option_eqI)
    fix p
    have "user_id_to_idx_map d own = Some p \<longleftrightarrow> p < length (contents d) \<and> acct_owner (contents d ! p) = own"
      using d(2) unfolding db_wf_def by blast
    also have "\<dots> \<longleftrightarrow> p < length (contents db) \<and> acct_owner (contents db ! p) = own"
    proof -
      have "acct_owner (map ua_commit ?us ! (p - length (contents db))) \<noteq> own" if "p < length (contents d)" "\<not> p < length (contents db)"
      proof -
        have i: "p - length (contents db) < length ?us" using that arg_cong [OF d(3), of length] by simp
        then have "acct_owner (?us ! (p - length (contents db))) \<in> acct_owner ` set ?us" by auto
        then show ?thesis using i own by auto
      qed
      then show ?thesis unfolding d(3) by (auto simp: nth_append)
    qed
    also have "\<dots> \<longleftrightarrow> user_id_to_idx_map db own = Some p" using wf unfolding db_wf_def by blast
    finally show "user_id_to_idx_map d own = Some p \<longleftrightarrow> user_id_to_idx_map db own = Some p" .
  qed
  show ?thesis using d map unfolding db' by (auto simp: clear_internal_data_structures_def db_wf_def)
qed

lemma commits_cong:
  assumes "db_wf db" "db_wf db'" "user_id_to_idx_map db' a = user_id_to_idx_map db a"
    "\<And>p. p < length (contents db) \<Longrightarrow> acct_owner (contents db ! p) = a \<Longrightarrow> ua_produce_commitment (contents db' ! p) = ua_produce_commitment (contents db ! p)"
  shows "commits db' a = commits db a"
proof (cases "user_id_to_idx_map db a")
  case (Some p)
  then have "p < length (contents db)" "acct_owner (contents db ! p) = a" using assms(1) unfolding db_wf_def by blast+
  then show ?thesis
    using assms(3,4) Some by (simp add: commits_contents [OF assms(1)] commits_contents [OF assms(2)])
qed (simp add: commits_contents [OF assms(1)] commits_contents [OF assms(2)] assms(3))

lemma block_effect:
  assumes ok: "commitment_trie_ok T entries" and inv: "settled entries (mem s)"
    and m1: "quiet (mem s) m1" and cr: "creations_ok m1" and m2: "commit_new_accounts T dpk mn n m1 = Inr m2" and m3: "quiet m2 m3"
    and log: "distinct log" "acct_owner ` set (uncommitted_db m1) \<subseteq> set log" and m4: "commit_values_log log m3 = Inr m4"
    and m5: "produce_state_commitment T log m4 = Inr (h, m5)" and range: "in_range_accounts m5"
    and th: "add_persistence_thunk enc n log (s\<lparr>mem := m5\<rparr>) = Inr s'"
  shows "settled entries (mem s') \<and> (\<forall>a. a \<notin> set log \<longrightarrow> commits (mem s') a = commits (mem s) a) \<and>
    map acct_owner (contents (mem s')) = map acct_owner (contents (mem s)) @ map acct_owner (uncommitted_db m1) \<and>
    account_creation_thunks (mem s') = account_creation_thunks (mem s) @ [\<lparr>thunk_block_number = n, num_accounts_created = length (uncommitted_db m1)\<rparr>] \<and>
    persistence_thunks s' = persistence_thunks s @ [\<lparr>kvs = map (\<lambda>own. (own, enc (the (commits (mem s') own)))) log, pt_block_number = n\<rparr>] \<and>
    account_lmdb_instance s' = account_lmdb_instance s \<and> set log \<subseteq> dom (commits (mem s'))"
proof -
  have inv': "db_wf (mem s)" "entries (commitment_trie (mem s)) = commits (mem s)" "dom (commits (mem s)) = dom (user_id_to_idx_map (mem s))"
    using inv by (simp_all add: settled_def)
  have w1: "db_wf m1" "user_id_to_idx_map m1 = user_id_to_idx_map (mem s)" "commitment_trie m1 = commitment_trie (mem s)"
      "account_creation_thunks m1 = account_creation_thunks (mem s)" "length (contents m1) = length (contents (mem s))"
    using m1 by (simp_all add: quiet_def)
  have "dom (entries (commitment_trie m1)) = dom (user_id_to_idx_map m1)" using w1 inv' by simp
  note n2 = new_accounts_effect [OF ok w1(1) this cr m2]
  have w3: "db_wf m3" "user_id_to_idx_map m3 = user_id_to_idx_map m2" "commitment_trie m3 = commitment_trie m2"
      "account_creation_thunks m3 = account_creation_thunks m2" "length (contents m3) = length (contents m2)"
    using m3 by (simp_all add: quiet_def)
  note r4 = commit_values_log_run [OF m4]
  have w4: "db_wf m4" "user_id_to_idx_map m4 = user_id_to_idx_map m3" "commitment_trie m4 = commitment_trie m3" "length (contents m4) = length (contents m3)"
      "\<forall>p<length (contents m3). contents m4 ! p = (if acct_owner (contents m3 ! p) \<in> set log then ua_commit (contents m3 ! p) else contents m3 ! p)"
    using commit_values_log_correct [OF w3(1) log(1)] r4 m4 by auto
  have sub: "set log \<subseteq> dom (entries (commitment_trie m4))" using r4 w3 w4 n2 by auto
  have m5t: "set_trie_commitments T ua_produce_commitment log m4 = Inr m5" using m5
    by (auto simp: produce_state_commitment_def bind_result_Inr)
  from set_trie_commitments_run [OF ok m5t sub] obtain t where t: "m5 = m4\<lparr>commitment_trie := t\<rparr>"
    "\<forall>own. entries (commitment_trie m5) own = (if own \<in> set log then commits m4 own else entries (commitment_trie m4) own)"
    "\<forall>own\<in>set log. commits m4 own \<noteq> None"
    unfolding commits_def by blast
  have w5: "db_wf m5" "contents m5 = contents m4" "user_id_to_idx_map m5 = user_id_to_idx_map m4" "commits m5 = commits m4"
    "account_creation_thunks m5 = account_creation_thunks m4"
    using w4(1) unfolding t(1) by (simp_all add: db_wf_def fun_eq_iff commits_def db_account_def)
  obtain es where es: "kv_assignments enc log m5 = Inr es"
      "s' = s\<lparr>mem := m5, persistence_thunks := persistence_thunks s @ [\<lparr>kvs = es, pt_block_number = n\<rparr>]\<rparr>"
    using th by (auto simp: add_persistence_thunk_def bind_result_Inr)
  note es' = kv_assignments_run [OF es(1)]
  have out: "commits m5 a = commits (mem s) a" "user_id_to_idx_map m5 a = user_id_to_idx_map (mem s) a" if "a \<notin> set log" for a
  proof -
    have nw: "a \<notin> acct_owner ` set (uncommitted_db m1)" using that log(2) by blast
    have map21: "user_id_to_idx_map m2 a = user_id_to_idx_map m1 a" using n2 nw by blast
    show "user_id_to_idx_map m5 a = user_id_to_idx_map (mem s) a" using map21 w1 w3 w4 w5 by simp
    have "commits m4 a = commits m3 a" using w3(1) w4 that by (intro commits_cong) auto
    also have "\<dots> = commits m2 a" using quiet_commits [OF m3] n2 by simp
    also have "\<dots> = commits m1 a"
      using w1(1) n2 map21 by (intro commits_cong) (auto simp: nth_append)
    also have "\<dots> = commits (mem s) a" using quiet_commits [OF m1 inv'(1)] by simp
    finally show "commits m5 a = commits (mem s) a" using w5 by simp
  qed
  have trie: "entries (commitment_trie m5) = commits m5"
  proof
    fix own
    show "entries (commitment_trie m5) own = commits m5 own"
    proof (cases "own \<in> set log")
      case False
      then have "own \<notin> acct_owner ` set (uncommitted_db m1)" using log(2) by blast
      then have "entries (commitment_trie m4) own = commits (mem s) own" using n2 w1 w3 w4 inv' by simp
      then show ?thesis using t(2) False out by simp
    qed (use t(2) w5 in simp)
  qed
  have "(own \<in> dom (commits m5)) = (own \<in> dom (user_id_to_idx_map m5))" for own
  proof (cases "own \<in> set log")
    case True
    then show ?thesis using t(3) w5 r4 w4 by (auto simp: dom_def)
  next
    case False
    then show ?thesis using out [OF False] inv'(3) by (auto simp: dom_def fun_eq_iff set_eq_iff)
  qed
  then have "settled entries m5" using w5(1) trie range by (auto simp: settled_def)
  moreover have "map acct_owner (contents m5) = map acct_owner (contents (mem s)) @ map acct_owner (uncommitted_db m1)"
  proof -
    have "map acct_owner (contents m5) = map acct_owner (contents m3)" using owners_of_map [OF w3(1) w5(1)] w5 w4 by simp
    also have "\<dots> = map acct_owner (contents m2)" using owners_of_map [OF _ w3(1,2,5)] n2 by blast
    also have "\<dots> = map acct_owner (contents m1) @ map acct_owner (uncommitted_db m1)" using n2 by (simp add: comp_def)
    finally show ?thesis using owners_of_map [OF inv'(1) w1(1,2,5)] by simp
  qed
  ultimately show ?thesis using out es es' n2 w1 w3 w5 r4 t(3) unfolding es(2) by auto
qed

subsection \<open>Sequences of blocks\<close>

definition touched :: "db_persistence_thunk list \<Rightarrow> account_id set" where
  "touched ths = fst ` set (concat (map kvs ths))"

lemma touched_simps [simp]: "touched [] = {}" "touched (xs @ ys) = touched xs \<union> touched ys" "touched [th] = fst ` set (kvs th)"
  by (simp_all add: touched_def image_Un)

lemma written_append: "written owns (xs @ ys) d = written owns ys (written owns xs d)"
  by (induction xs arbitrary: d) simp_all

lemma map_of_rev_image: "map_of (rev (map (\<lambda>k. (k, f k)) ks)) a = (if a \<in> set ks then Some (f a) else None)"
proof (induction ks)
  case (Cons k ks)
  then show ?case by (auto simp: map_add_def split: option.split)
qed simp

definition created_count :: "account_creation_thunk list \<Rightarrow> nat" where
  "created_count cts = sum_list (map num_accounts_created cts)"

lemma db_blocks_effect:
  assumes ok: "commitment_trie_ok T entries" and inv: "settled entries (mem s0)"
  shows "db_blocks T enc dpk s0 s ths \<Longrightarrow>
    settled entries (mem s) \<and> persistence_thunks s = persistence_thunks s0 @ ths \<and> account_lmdb_instance s = account_lmdb_instance s0 \<and>
    written (\<lambda>_. True) ths (image_of enc (mem s0)) = image_of enc (mem s) \<and>
    (\<forall>a. a \<notin> touched ths \<longrightarrow> commits (mem s) a = commits (mem s0) a) \<and> touched ths \<subseteq> dom (user_id_to_idx_map (mem s)) \<and>
    (\<exists>news cts. map acct_owner (contents (mem s)) = map acct_owner (contents (mem s0)) @ news \<and>
       account_creation_thunks (mem s) = account_creation_thunks (mem s0) @ cts \<and>
       map thunk_block_number cts = map pt_block_number ths \<and> created_count cts = length news \<and> set news \<subseteq> touched ths)"
proof (induction rule: db_blocks.induct)
  case start
  show ?case using inv by (auto simp: created_count_def)
next
  case (block s ths m1 mn n m2 m3 log m4 h m5 s')
  let ?th = "\<lparr>kvs = map (\<lambda>own. (own, enc (the (commits (mem s') own)))) log, pt_block_number = n\<rparr>"
  have "settled entries (mem s)" using block.IH by blast
  note e = block_effect [OF ok this block.hyps(2-11)]
  have th: "last (persistence_thunks s') = ?th" using e by simp
  have tt: "fst ` set (kvs ?th) = set log" by force
  have w: "written (\<lambda>_. True) [?th] (image_of enc (mem s)) = image_of enc (mem s')"
  proof
    fix a
    have "a \<in> set log \<Longrightarrow> commits (mem s') a \<noteq> None" using e by blast
    then show "written (\<lambda>_. True) [?th] (image_of enc (mem s)) a = image_of enc (mem s') a"
      using e by (auto simp: written_def map_add_def map_of_rev_image image_of_def)
  qed
  obtain news cts where nc: "map acct_owner (contents (mem s)) = map acct_owner (contents (mem s0)) @ news"
      "account_creation_thunks (mem s) = account_creation_thunks (mem s0) @ cts"
      "map thunk_block_number cts = map pt_block_number ths" "created_count cts = length news" "set news \<subseteq> touched ths"
    using block.IH by blast
  have doms: "dom (user_id_to_idx_map (mem s)) \<subseteq> dom (user_id_to_idx_map (mem s'))"
    using e block.IH db_wf_dom [of "mem s"] db_wf_dom [of "mem s'"] unfolding settled_def
    by (metis image_set map_append set_append sup.cobounded1)
  have "set log \<subseteq> dom (user_id_to_idx_map (mem s'))" using e by (auto simp: settled_def)
  moreover have "touched ths \<subseteq> dom (user_id_to_idx_map (mem s'))" using block.IH doms by (meson subset_trans)
  ultimately have sub: "touched (ths @ [?th]) \<subseteq> dom (user_id_to_idx_map (mem s'))" unfolding touched_simps tt by blast
  have un: "\<forall>a. a \<notin> touched (ths @ [?th]) \<longrightarrow> commits (mem s') a = commits (mem s0) a" using e block.IH tt by auto
  let ?news = "news @ map acct_owner (uncommitted_db m1)"
  let ?cts = "cts @ [\<lparr>thunk_block_number = n, num_accounts_created = length (uncommitted_db m1)\<rparr>]"
  have "map acct_owner (contents (mem s')) = map acct_owner (contents (mem s0)) @ ?news"
    "account_creation_thunks (mem s') = account_creation_thunks (mem s0) @ ?cts"
    "map thunk_block_number ?cts = map pt_block_number (ths @ [?th])" "created_count ?cts = length ?news"
    using e nc by (simp_all add: created_count_def)
  moreover have "set ?news \<subseteq> touched (ths @ [?th])" using nc(5) block.hyps(7) tt by auto
  moreover have "persistence_thunks s' = persistence_thunks s0 @ ths @ [?th]" "account_lmdb_instance s' = account_lmdb_instance s0"
    "written (\<lambda>_. True) (ths @ [?th]) (image_of enc (mem s0)) = image_of enc (mem s')" "settled entries (mem s')"
    using e block.IH w by (simp_all add: written_append)
  ultimately show ?case unfolding th using sub un by blast
qed

section \<open>The disk after persisting\<close>

definition xdr_ok :: "('pk account_commitment \<Rightarrow> nat list) \<Rightarrow> (nat list \<Rightarrow> 'pk account_commitment option) \<Rightarrow> bool" where
  "xdr_ok enc dec \<longleftrightarrow> (\<forall>c. enc c \<noteq> [] \<and> dec (enc c) = Some c)"

definition lmdb_ok :: "(hash_key \<Rightarrow> account_id \<Rightarrow> nat) \<Rightarrow> account_lmdb \<Rightarrow> bool" where
  "lmdb_ok H L \<longleftrightarrow> length (shards L) = NUM_ACCOUNT_DB_SHARDS \<and> lmdb_opened L \<and>
     (\<forall>i<length (shards L). sh_hash_key (shards L ! i) = lmdb_hash_key L \<and> finite (dom (sh_data (shards L ! i))) \<and>
        (\<forall>a\<in>dom (sh_data (shards L ! i)). get_shard H a (lmdb_hash_key L) = i))"

definition on_disk :: "(hash_key \<Rightarrow> account_id \<Rightarrow> nat) \<Rightarrow> account_lmdb \<Rightarrow> account_id \<rightharpoonup> nat list" where
  "on_disk H L a = sh_data (shards L ! get_shard H a (lmdb_hash_key L)) a"

lemma map_of_owned: "map_of (filter (\<lambda>e. owns (fst e)) es) a = (if owns a then map_of es a else None)"
  by (induction es) auto

lemma written_restrict: "written owns ths d a = (if owns a then written (\<lambda>_. True) ths d a else d a)"
proof (induction ths arbitrary: d)
  case (Cons th ths)
  have "map_of (rev (filter (\<lambda>e. owns (fst e)) (kvs th))) a = (if owns a then map_of (rev (kvs th)) a else None)"
    by (simp add: rev_filter map_of_owned)
  then show ?case
    using Cons [of "d ++ map_of (rev (filter (\<lambda>e. owns (fst e)) (kvs th)))"]
    by (auto simp: written_def map_add_def split: option.split)
qed simp

lemma written_cong: "d a = d' a \<Longrightarrow> written owns ths d a = written owns ths d' a"
  by (simp add: written_def map_add_def split: option.split)

lemma finite_written: "finite (dom d) \<Longrightarrow> finite (dom (written owns ths d))"
  by (simp add: written_def finite_dom_map_of)

lemma persisted_disk:
  assumes ok: "lmdb_ok H L" and msgs: "msgs_ok ths" and asc: "\<forall>sh\<in>set (shards L). ascending_from (sh_round sh) n ths"
  shows "\<exists>L'. persist_thunks H ths n ig L = Inr L' \<and> lmdb_ok H L' \<and> on_disk H L' = written (\<lambda>_. True) ths (on_disk H L) \<and>
    min_persisted_round_number L' = max (min_persisted_round_number L) n \<and> max_persisted_round_number L' = max (max_persisted_round_number L) n"
proof -
  let ?L = "L\<lparr>shards := map (\<lambda>i. shard_after H ths n i (shards L ! i)) [0..<length (shards L)],
    min_persisted_round_number := max (min_persisted_round_number L) n, max_persisted_round_number := max (max_persisted_round_number L) n\<rparr>"
  have len: "length (shards L) = NUM_ACCOUNT_DB_SHARDS" using ok by (simp add: lmdb_ok_def)
  have key: "sh_hash_key (shards L ! i) = lmdb_hash_key L" if "i < length (shards L)" for i using ok that by (simp add: lmdb_ok_def)
  have data: "sh_data (shard_after H ths n i (shards L ! i)) a =
      (if get_shard H a (lmdb_hash_key L) = i then written (\<lambda>_. True) ths (sh_data (shards L ! i)) a else sh_data (shards L ! i) a)"
    if "i < length (shards L)" for i a
    using written_restrict [of "owns_account H i (shards L ! i)" ths "sh_data (shards L ! i)" a] key [OF that]
    by (simp add: shard_after_def owns_account_def)
  have "on_disk H ?L a = written (\<lambda>_. True) ths (on_disk H L) a" for a
  proof -
    have i: "get_shard H a (lmdb_hash_key L) < length (shards L)" using get_shard_less [of H a] len by simp
    then have "on_disk H ?L a = written (\<lambda>_. True) ths (sh_data (shards L ! get_shard H a (lmdb_hash_key L))) a"
      using data [OF i, of a] by (simp add: on_disk_def)
    also have "\<dots> = written (\<lambda>_. True) ths (on_disk H L) a" by (rule written_cong) (simp add: on_disk_def)
    finally show ?thesis .
  qed
  moreover have "lmdb_ok H ?L"
  proof -
    have "get_shard H a (lmdb_hash_key L) = i" if "i < length (shards L)" "sh_data (shard_after H ths n i (shards L ! i)) a \<noteq> None" for i a
    proof (rule ccontr)
      assume ne: "get_shard H a (lmdb_hash_key L) \<noteq> i"
      then have "a \<in> dom (sh_data (shards L ! i))" using that data [of i a] by auto
      then show False using ok that(1) ne unfolding lmdb_ok_def by blast
    qed
    then show ?thesis using ok by (auto simp: lmdb_ok_def shard_after_def finite_written)
  qed
  ultimately show ?thesis using persist_thunks_fresh [OF msgs asc, of H ig] by (intro exI [of _ ?L]) auto
qed

lemma db_blocks_msgs:
  "db_blocks T enc dpk s0 s ths \<Longrightarrow> \<forall>c. enc c \<noteq> [] \<Longrightarrow> msgs_ok ths"
proof (induction rule: db_blocks.induct)
  case (block s ths m1 mn n m2 m3 log m4 h m5 s')
  obtain es where es: "kv_assignments enc log m5 = Inr es" "last (persistence_thunks s') = \<lparr>kvs = es, pt_block_number = n\<rparr>"
    using block.hyps(11) by (auto simp: add_persistence_thunk_def bind_result_Inr)
  have "\<forall>e\<in>set es. snd e \<noteq> []" using kv_assignments_run [OF es(1)] block.prems by auto
  then show ?case using block.IH block.prems es(2) by (auto simp: msgs_ok_def)
qed (simp add: msgs_ok_def)

text \<open>
  The situation before blocks are persisted: the disk holds the state of \<open>s0\<close>, blocks up to \<open>n\<close> lead to \<open>sn\<close>,
  and further blocks lead to \<open>s\<close>.
\<close>

definition pending_blocks ::
  "(hash_key \<Rightarrow> account_id \<Rightarrow> nat) \<Rightarrow> ('t, 'pk account_commitment, 'h) trie_ops \<Rightarrow> ('t \<Rightarrow> account_id \<rightharpoonup> 'pk account_commitment)
     \<Rightarrow> ('pk account_commitment \<Rightarrow> nat list) \<Rightarrow> 'pk \<Rightarrow> nat \<Rightarrow> ('pk, 't) persistent_db \<Rightarrow> ('pk, 't) persistent_db \<Rightarrow> ('pk, 't) persistent_db \<Rightarrow> bool" where
  "pending_blocks H T entries enc dpk n s0 sn s \<longleftrightarrow>
     settled entries (mem s0) \<and> persistence_thunks s0 = [] \<and> lmdb_ok H (account_lmdb_instance s0) \<and>
     on_disk H (account_lmdb_instance s0) = image_of enc (mem s0) \<and>
     min_persisted_round_number (account_lmdb_instance s0) \<le> n \<and> max_persisted_round_number (account_lmdb_instance s0) \<le> n \<and>
     (\<forall>th\<in>set (account_creation_thunks (mem s0)). thunk_block_number th \<le> n) \<and>
     (\<exists>ths later. db_blocks T enc dpk s0 sn ths \<and> db_blocks T enc dpk sn s later \<and>
        (\<forall>sh\<in>set (shards (account_lmdb_instance s0)). ascending_from (sh_round sh) n ths) \<and> (\<forall>th\<in>set later. n < pt_block_number th))"

lemma committed_disk:
  assumes ok: "commitment_trie_ok T entries" and xdr: "\<forall>c. enc c \<noteq> []" and p: "pending_blocks H T entries enc dpk n s0 sn s"
  shows "\<exists>s'. commit_persistence_thunks H n s = Inr s' \<and> lmdb_ok H (account_lmdb_instance s') \<and>
    on_disk H (account_lmdb_instance s') = image_of enc (mem sn) \<and>
    assert_snapshot_and_get_persisted_round_number (account_lmdb_instance s') = Inr n \<and>
    (\<exists>later. db_blocks T enc dpk sn s later \<and> persistence_thunks s' = later \<and> (\<forall>th\<in>set later. n < pt_block_number th)) \<and>
    mem s' = (mem s)\<lparr>account_creation_thunks := filter (\<lambda>th. n < thunk_block_number th) (account_creation_thunks (mem s))\<rparr>"
proof -
  let ?L = "account_lmdb_instance s0"
  obtain ths later where r: "db_blocks T enc dpk s0 sn ths" "db_blocks T enc dpk sn s later"
      "\<forall>sh\<in>set (shards ?L). ascending_from (sh_round sh) n ths" "\<forall>th\<in>set later. n < pt_block_number th"
    using p by (auto simp: pending_blocks_def)
  have s0: "settled entries (mem s0)" "persistence_thunks s0 = []" "lmdb_ok H ?L" "on_disk H ?L = image_of enc (mem s0)"
    using p by (simp_all add: pending_blocks_def)
  note e1 = db_blocks_effect [OF ok s0(1) r(1)]
  then have "settled entries (mem sn)" by blast
  note e2 = db_blocks_effect [OF ok this r(2)]
  have thunks: "persistence_thunks s = ths @ later" "account_lmdb_instance s = ?L" using e1 e2 s0(2) by auto
  have "shards ?L \<noteq> []" using s0(3) by (auto simp: lmdb_ok_def NUM_ACCOUNT_DB_SHARDS_def)
  then have le: "\<forall>th\<in>set ths. pt_block_number th \<le> n" using r(3) by (cases "shards ?L") (auto simp: ascending_from_def)
  have f: "filter (\<lambda>th. pt_block_number th \<le> n) ths = ths" "filter (\<lambda>th. \<not> pt_block_number th \<le> n) ths = []"
      "filter (\<lambda>th. pt_block_number th \<le> n) later = []" "filter (\<lambda>th. \<not> pt_block_number th \<le> n) later = later"
    using le r(4) by (auto simp: filter_empty_conv filter_id_conv)
  obtain L' where L': "persist_thunks H ths n False ?L = Inr L'" "lmdb_ok H L'" "on_disk H L' = written (\<lambda>_. True) ths (on_disk H ?L)"
      "min_persisted_round_number L' = max (min_persisted_round_number ?L) n" "max_persisted_round_number L' = max (max_persisted_round_number ?L) n"
    using persisted_disk [OF s0(3) db_blocks_msgs [OF r(1) xdr] r(3)] by blast
  have "assert_snapshot_and_get_persisted_round_number L' = Inr n"
    using p L'(4,5) by (simp add: assert_snapshot_and_get_persisted_round_number_def pending_blocks_def)
  moreover have "on_disk H L' = image_of enc (mem sn)" using L'(3) s0(4) e1 by simp
  moreover have "lmdb_opened ?L" using s0(3) by (simp add: lmdb_ok_def)
  ultimately show ?thesis
    using L'(1,2) r(2,4) by (simp add: commit_persistence_thunks_def thunks f not_le [symmetric])
qed

section \<open>Loading the disk\<close>

lemma commitment_loads:
  assumes c: "ua_produce_commitment a = Some c" and range: "list_all (\<lambda>x. in_i64 (committed_available x)) (owned_assets a)"
  shows "\<exists>b. account_from_commitment c = Inr b \<and> ua_produce_commitment b = Some c \<and> acct_owner b = acct_owner a \<and> ac_owner c = acct_owner a"
proof -
  let ?b = "\<lparr>owned_assets = map (\<lambda>x. asset_init (committed_available x)) (owned_assets a), uncommitted_assets = [],
    seq_tracker = ut_init (ut_produce_commitment (seq_tracker a)), acct_owner = acct_owner a, pk = pk a\<rparr>"
  have len: "length (owned_assets a) < 256"
    using c commitment_loop_diverges [of "owned_assets a" 0 ra_produce_commitment "[]"] by (fastforce simp: ua_produce_commitment_def)
  have "ra_produce_commitment j (map (\<lambda>x. asset_init (committed_available x)) (owned_assets a) ! j) = ra_produce_commitment j (owned_assets a ! j)"
    if "j < length (owned_assets a)" for j
    using that by (simp add: ra_produce_commitment_def asset_init_def)
  then have same: "ua_produce_commitment ?b = ua_produce_commitment a"
    using len by (simp add: ua_produce_commitment_def commitment_loop_eq ut_produce_commitment_def ut_init_def)
  have "clean_account ?b" using range by (auto simp: clean_account_def list_all_iff asset_init_def ut_init_def)
  then have "account_from_commitment c = Inr ?b" using account_commitment_roundtrip [of ?b] len same c by auto
  moreover have "ac_owner c = acct_owner a" using c len by (auto simp: ua_produce_commitment_def commitment_loop_eq)
  ultimately show ?thesis using same c by auto
qed

definition entry_loads :: "(nat list \<Rightarrow> 'pk account_commitment option) \<Rightarrow> account_id \<times> nat list \<Rightarrow> bool" where
  "entry_loads dec e \<longleftrightarrow> (\<exists>c b. dec (snd e) = Some c \<and> ac_owner c = fst e \<and> account_from_commitment c = Inr b \<and>
     ua_produce_commitment b = Some c \<and> acct_owner b = fst e)"

definition decoded :: "(nat list \<Rightarrow> 'pk account_commitment option) \<Rightarrow> (account_id \<rightharpoonup> nat list) \<Rightarrow> account_id \<rightharpoonup> 'pk account_commitment" where
  "decoded dec d a = Option.bind (d a) dec"

lemma load_entries_append:
  "load_entries dec dpk (xs @ ys) db = bind_result (load_entries dec dpk xs db) (load_entries dec dpk ys)"
proof (induction xs arbitrary: db)
  case (Cons x xs)
  then show ?case
    by (cases x) (auto simp: bind_result_def split: option.split sum.split)
qed simp

lemma load_shards_concat:
  "load_shards cursor dec dpk shs db = load_entries dec dpk (concat (map (\<lambda>sh. cursor (sh_data sh)) shs)) db"
proof (induction shs arbitrary: db)
  case (Cons sh shs)
  show ?case by (auto simp: load_entries_append Cons.IH bind_result_def split: sum.split)
qed simp

lemma commits_append:
  assumes wf: "db_wf db" "db_wf db'" and c: "contents db' = contents db @ [a]"
    and map: "user_id_to_idx_map db' = (user_id_to_idx_map db)(acct_owner a \<mapsto> length (contents db))"
    and prod: "ua_produce_commitment a = Some c"
  shows "commits db' = (commits db)(acct_owner a \<mapsto> c)"
proof
  fix x
  show "commits db' x = ((commits db)(acct_owner a \<mapsto> c)) x"
  proof (cases "x = acct_owner a")
    case True
    have "contents db' ! length (contents db) = a" unfolding c by (rule nth_append_length)
    then show ?thesis using True prod by (simp add: commits_contents [OF wf(2)] map)
  next
    case False
    then show ?thesis using map c by (simp del: length_av_contents) (intro commits_cong [OF wf], auto simp: nth_append)
  qed
qed

lemma load_entries_effect:
  "\<forall>e\<in>set es. entry_loads dec e \<Longrightarrow> distinct (map fst es) \<Longrightarrow> db_wf db \<Longrightarrow> fst ` set es \<inter> dom (user_id_to_idx_map db) = {} \<Longrightarrow>
   av_size (database db) + length es < 2 ^ 64 \<Longrightarrow>
   \<exists>db'. load_entries dec dpk es db = Inr db' \<and> db_wf db' \<and> commitment_trie db' = commitment_trie db \<and>
     commits db' = commits db ++ decoded dec (map_of es) \<and> dom (user_id_to_idx_map db') = dom (user_id_to_idx_map db) \<union> fst ` set es"
proof (induction es arbitrary: db)
  case Nil
  then show ?case by (auto simp: decoded_def map_add_def)
next
  case (Cons e es)
  obtain k v where e: "e = (k, v)" by (cases e)
  obtain c b where cb: "dec v = Some c" "ac_owner c = k" "account_from_commitment c = Inr b" "ua_produce_commitment b = Some c" "acct_owner b = k"
    using Cons.prems(1) by (auto simp: entry_loads_def e)
  obtain w where w: "av_emplace_back (blank_account dpk) b (database db) = Some (length (contents db), w)" "av_wf w" "av_contents w = contents db @ [b]"
    using av.emplace [of "database db" "blank_account dpk" b] Cons.prems(3,5) by (auto simp: db_wf_def)
  have fresh: "user_id_to_idx_map db k = None" "k \<notin> dom (user_id_to_idx_map db)" using Cons.prems(4) by (auto simp: e)
  let ?db = "db\<lparr>database := w, user_id_to_idx_map := (user_id_to_idx_map db)(k \<mapsto> length (contents db))\<rparr>"
  have wf: "db_wf ?db"
    using db_wf_append [OF Cons.prems(3) w(2,3), of "commitment_trie db"] Cons.prems(5) fresh cb(5) by simp
  have com: "commits ?db = (commits db)(k \<mapsto> c)"
    using commits_append [OF Cons.prems(3) wf _ _ cb(4)] w(3) cb(5) by simp
  have sz: "av_size (database ?db) = Suc (av_size (database db))" using arg_cong [OF w(3), of length] by simp
  have k: "k \<notin> fst ` set es" using Cons.prems(2) by (simp add: e)
  have "\<exists>db'. load_entries dec dpk es ?db = Inr db' \<and> db_wf db' \<and> commitment_trie db' = commitment_trie ?db \<and>
     commits db' = commits ?db ++ decoded dec (map_of es) \<and> dom (user_id_to_idx_map db') = dom (user_id_to_idx_map ?db) \<union> fst ` set es"
  proof (rule Cons.IH [OF _ _ wf])
    show "fst ` set es \<inter> dom (user_id_to_idx_map ?db) = {}" using Cons.prems(4) k by (auto simp: e)
    show "av_size (database ?db) + length es < 2 ^ 64" using Cons.prems(5) sz by simp
  qed (use Cons.prems in simp_all)
  then obtain db' where db': "load_entries dec dpk es ?db = Inr db'" "db_wf db'" "commitment_trie db' = commitment_trie db"
      "commits db' = commits ?db ++ decoded dec (map_of es)" "dom (user_id_to_idx_map db') = insert k (dom (user_id_to_idx_map db)) \<union> fst ` set es"
    by auto
  have "map_of es k = None" using k by (simp add: map_of_eq_None_iff)
  then have "commits db' = commits db ++ decoded dec (map_of (e # es))"
    unfolding db'(4) com using cb(1) by (auto simp: e decoded_def map_add_def fun_eq_iff split: option.split)
  moreover have "load_entries dec dpk (e # es) db = Inr db'" using db'(1) cb w(1) fresh(1) by (simp add: e)
  moreover have "dom (user_id_to_idx_map db') = dom (user_id_to_idx_map db) \<union> fst ` set (e # es)" using db'(5) by (auto simp: e)
  ultimately show ?case using db'(2,3) by blast
qed

definition cursor_ok :: "((account_id \<rightharpoonup> nat list) \<Rightarrow> (account_id \<times> nat list) list) \<Rightarrow> bool" where
  "cursor_ok cursor \<longleftrightarrow> (\<forall>m. finite (dom m) \<longrightarrow> distinct (map fst (cursor m)) \<and> map_of (cursor m) = m)"

lemma shard_lists:
  assumes cur: "cursor_ok cursor" and ok: "lmdb_ok H L"
  defines "es \<equiv> concat (map (\<lambda>sh. cursor (sh_data sh)) (shards L))"
  shows "distinct (map fst es)" "map_of es = on_disk H L"
proof -
  let ?sh = "\<lambda>i. sh_data (shards L ! i)"
  have c: "distinct (map fst (cursor (?sh i)))" "map_of (cursor (?sh i)) = ?sh i" if "i < length (shards L)" for i
    using cur ok that by (simp_all add: cursor_ok_def lmdb_ok_def)
  have keys: "fst ` set (cursor (?sh i)) = dom (?sh i)" if "i < length (shards L)" for i
    using c(2) [OF that] by (metis dom_map_of_conv_image_fst)
  have own: "get_shard H a (lmdb_hash_key L) = i" if "i < length (shards L)" "a \<in> dom (?sh i)" for i a
    using ok that unfolding lmdb_ok_def by blast
  have es: "es = concat (map (\<lambda>i. cursor (?sh i)) [0..<length (shards L)])"
    unfolding es_def by (rule arg_cong [of _ _ concat]) (auto intro: nth_equalityI)
  have "distinct (map fst (concat (map (\<lambda>i. cursor (?sh i)) is)))" if "distinct is" "\<forall>i\<in>set is. i < length (shards L)" for "is"
    using that
  proof (induction "is")
    case (Cons i "is")
    have "fst ` set (cursor (?sh i)) \<inter> fst ` set (cursor (?sh j)) = {}" if "j \<in> set is" for j
    proof -
      have ij: "i < length (shards L)" "j < length (shards L)" "i \<noteq> j" using Cons.prems that by auto
      show ?thesis unfolding keys [OF ij(1)] keys [OF ij(2)] using own [OF ij(1)] own [OF ij(2)] ij(3) by blast
    qed
    then have "fst ` set (cursor (?sh i)) \<inter> fst ` set (concat (map (\<lambda>i. cursor (?sh i)) is)) = {}" by auto
    then show ?case using Cons c(1) [of i] by (simp add: Int_commute)
  qed simp
  then show d: "distinct (map fst es)" unfolding es by simp
  show "map_of es = on_disk H L"
  proof (rule ext, rule option_eqI)
    fix a v
    let ?i = "get_shard H a (lmdb_hash_key L)"
    have i: "?i < length (shards L)" using get_shard_less [of H a] ok by (simp add: lmdb_ok_def)
    have "map_of es a = Some v \<longleftrightarrow> (a, v) \<in> set es" using d by simp
    also have "\<dots> \<longleftrightarrow> (\<exists>j<length (shards L). (a, v) \<in> set (cursor (?sh j)))" unfolding es by auto
    also have "\<dots> \<longleftrightarrow> (\<exists>j<length (shards L). ?sh j a = Some v)" using c map_of_eq_Some_iff by (metis (no_types, lifting))
    also have "\<dots> \<longleftrightarrow> ?sh ?i a = Some v" using own i by blast
    finally show "map_of es a = Some v \<longleftrightarrow> on_disk H L a = Some v" by (simp add: on_disk_def)
  qed
qed

text \<open>What is on disk for a settled database can be loaded.\<close>

lemma image_loads:
  assumes st: "settled entries db" and xdr: "xdr_ok enc dec" and v: "image_of enc db a = Some v"
  shows "entry_loads dec (a, v)" "dec v = commits db a"
proof -
  obtain p c where p: "user_id_to_idx_map db a = Some p" "commits db a = Some c" "v = enc c"
  proof -
    obtain c where c: "commits db a = Some c" "v = enc c" using v by (auto simp: image_of_def)
    then have "a \<in> dom (user_id_to_idx_map db)" using st unfolding settled_def by blast
    then show thesis using that c by blast
  qed
  have wf: "db_wf db" using st by (simp add: settled_def)
  then have p': "p < length (contents db)" "acct_owner (contents db ! p) = a" using p(1) unfolding db_wf_def by blast+
  have c: "ua_produce_commitment (contents db ! p) = Some c" using p commits_contents [OF wf, of a] by simp
  have "contents db ! p \<in> set (contents db)" using p'(1) nth_mem by blast
  then have "list_all (\<lambda>x. in_i64 (committed_available x)) (owned_assets (contents db ! p))"
    using st by (auto simp: settled_def in_range_accounts_def list_all_iff)
  from commitment_loads [OF c this] show "entry_loads dec (a, v)"
    using p'(2) xdr p(3) by (auto simp: entry_loads_def xdr_ok_def)
  show "dec v = commits db a" using p xdr by (simp add: xdr_ok_def)
qed

lemma decoded_image: "settled entries db \<Longrightarrow> xdr_ok enc dec \<Longrightarrow> decoded dec (image_of enc db) = commits db"
  using image_loads(2) [of entries db enc dec] by (auto simp: fun_eq_iff decoded_def image_of_def xdr_ok_def bind_eq_None_conv split: bind_splits)

section \<open>The trie of all commitments\<close>

definition owners_at :: "nat list \<Rightarrow> ('pk, 't) memory_database \<Rightarrow> account_id set" where
  "owners_at is db = (\<lambda>i. acct_owner (contents db ! i)) ` set is"

lemma owners_at_simps [simp]:
  "owners_at [] db = {}" "owners_at (i # is) db = insert (acct_owner (contents db ! i)) (owners_at is db)"
  "owners_at (xs @ ys) db = owners_at xs db \<union> owners_at ys db"
  by (simp_all add: owners_at_def image_Un)

lemma owners_at_disjoint:
  assumes wf: "db_wf db" and len: "\<forall>i\<in>set (xs @ ys). i < length (contents db)" and dj: "set xs \<inter> set ys = {}"
  shows "owners_at xs db \<inter> owners_at ys db = {}"
proof -
  have False if "i \<in> set xs" "j \<in> set ys" "acct_owner (contents db ! i) = acct_owner (contents db ! j)" for i j
    using db_wf_distinct [OF wf, of i j] that len dj by auto
  then show ?thesis unfolding owners_at_def by blast
qed

lemma commit_range_effect:
  assumes ok: "commitment_trie_ok T entries" and wf: "db_wf db" and all: "dom (commits db) = dom (user_id_to_idx_map db)"
  shows "distinct is \<Longrightarrow> \<forall>i\<in>set is. i < length (contents db) \<Longrightarrow> dom (entries t) \<inter> owners_at is db = {} \<Longrightarrow>
    \<exists>t'. commit_range T is db t = Inr t' \<and> entries t' = (\<lambda>a. if a \<in> owners_at is db then commits db a else entries t a)"
proof (induction "is" arbitrary: t)
  case (Cons i "is")
  let ?a = "contents db ! i"
  have i: "i < length (contents db)" using Cons.prems by simp
  then have acc: "db_account i db = ?a" by (rule db_account_nth)
  have m: "user_id_to_idx_map db (acct_owner ?a) = Some i" using wf i unfolding db_wf_def by blast
  then obtain c where c: "commits db (acct_owner ?a) = Some c" using all by blast
  then have pc: "ua_produce_commitment ?a = Some c" using m commits_contents [OF wf, of "acct_owner ?a"] by simp
  have tr: "entries (t_insert T (acct_owner ?a) c t) = (entries t)(acct_owner ?a \<mapsto> c)"
  proof -
    have "acct_owner ?a \<in> owners_at (i # is) db" by (simp add: owners_at_def)
    then have "entries t (acct_owner ?a) = None" using Cons.prems(3) by blast
    then show ?thesis using ok by (simp add: commitment_trie_ok_def)
  qed
  have ne: "acct_owner ?a \<notin> owners_at is db"
    using owners_at_disjoint [OF wf, of "[i]" "is"] Cons.prems(1,2) by (simp add: owners_at_def)
  have d: "dom (entries (t_insert T (acct_owner ?a) c t)) \<inter> owners_at is db = {}" unfolding tr using Cons.prems(3) ne by auto
  have "distinct is" "\<forall>i\<in>set is. i < length (contents db)" using Cons.prems(1,2) by simp_all
  from Cons.IH [OF this d] obtain t' where t': "commit_range T is db (t_insert T (acct_owner ?a) c t) = Inr t'"
      "entries t' = (\<lambda>a. if a \<in> owners_at is db then commits db a else ((entries t)(acct_owner ?a \<mapsto> c)) a)"
    unfolding tr by blast
  then show ?case using acc pc c ne by (auto simp: fun_eq_iff)
qed simp

lemma produce_all_effect:
  assumes ok: "commitment_trie_ok T entries" "trie_merge_ok M entries"
  shows "db_wf db \<Longrightarrow> dom (commits db) = dom (user_id_to_idx_map db) \<Longrightarrow> distinct (concat rs) \<Longrightarrow> \<forall>i\<in>set (concat rs). i < length (contents db) \<Longrightarrow>
    dom (entries (commitment_trie db)) \<inter> owners_at (concat rs) db = {} \<Longrightarrow>
    \<exists>t. produce_all T M rs db = Inr (db\<lparr>commitment_trie := t\<rparr>) \<and>
      entries t = (\<lambda>a. if a \<in> owners_at (concat rs) db then commits db a else entries (commitment_trie db) a)"
proof (induction rs arbitrary: db)
  case Nil
  then show ?case by (auto intro: exI [of _ "commitment_trie db"])
next
  case (Cons r rs)
  have e: "entries (tm_new M) = Map.empty" using ok(2) by (simp add: trie_merge_ok_def)
  obtain lt where lt: "commit_range T r db (tm_new M) = Inr lt" "entries lt = (\<lambda>a. if a \<in> owners_at r db then commits db a else None)"
    using commit_range_effect [OF ok(1) Cons.prems(1,2), of r "tm_new M"] Cons.prems unfolding e by auto
  have dlt: "dom (entries lt) \<subseteq> owners_at r db" unfolding lt(2) by (auto simp: dom_def)
  have dj: "owners_at r db \<inter> owners_at (concat rs) db = {}"
    using owners_at_disjoint [OF Cons.prems(1), of r "concat rs"] Cons.prems(3,4) by simp
  let ?t = "tm_merge_in M lt (commitment_trie db)"
  let ?db = "db\<lparr>commitment_trie := ?t\<rparr>"
  have "dom (entries lt) \<inter> dom (entries (commitment_trie db)) = {}" using dlt Cons.prems(5) by (auto simp: owners_at_def)
  then have tr: "entries ?t = entries (commitment_trie db) ++ entries lt" using ok(2) by (simp add: trie_merge_ok_def)
  have db: "db_wf ?db" "commits ?db = commits db" "owners_at is ?db = owners_at is db" for "is"
    using Cons.prems(1) by (simp_all add: db_wf_def commits_def fun_eq_iff db_account_def owners_at_def)
  have "dom (entries (commitment_trie db)) \<inter> owners_at (concat rs) db = {}" using Cons.prems(5) by auto
  then have d: "dom (entries (commitment_trie ?db)) \<inter> owners_at (concat rs) ?db = {}"
    using dlt dj unfolding db(3) by (simp add: tr) blast
  have pr: "dom (commits ?db) = dom (user_id_to_idx_map ?db)" "distinct (concat rs)" "\<forall>i\<in>set (concat rs). i < length (contents ?db)"
    using Cons.prems(2-4) db(2) by simp_all
  have ct: "commitment_trie ?db = ?t" by simp
  from Cons.IH [OF db(1) pr d] obtain t' where t': "produce_all T M rs ?db = Inr (?db\<lparr>commitment_trie := t'\<rparr>)"
      "entries t' = (\<lambda>a. if a \<in> owners_at (concat rs) db then commits db a else entries ?t a)"
    unfolding db(2,3) ct by auto
  have "a \<notin> owners_at r db \<Longrightarrow> entries ?t a = entries (commitment_trie db) a" for a
    unfolding tr using lt(2) by (simp add: map_add_def)
  moreover have "a \<in> owners_at r db \<Longrightarrow> entries ?t a = commits db a" for a
    unfolding tr using lt(2) Cons.prems(5) by (auto simp: map_add_def owners_at_def split: option.split)
  ultimately show ?case using lt(1) t' by (auto simp: fun_eq_iff)
qed

definition splits_range :: "(nat \<Rightarrow> nat list list) \<Rightarrow> bool" where
  "splits_range ranges \<longleftrightarrow> (\<forall>k. distinct (concat (ranges k)) \<and> set (concat (ranges k)) = {..<k})"

lemma load_settled:
  assumes ok: "commitment_trie_ok T entries" "trie_merge_ok M entries" and xdr: "xdr_ok enc dec" and cur: "cursor_ok cursor"
    and st: "settled entries db" and L: "lmdb_ok H L" "on_disk H L = image_of enc db" and rg: "splits_range ranges"
  shows "\<exists>st'. db_load_lmdb_contents_to_memory cursor dec dpk T M ranges
      \<lparr>mem = db_init dpk (tm_new M), persistence_thunks = [], account_lmdb_instance = L\<rparr> = Inr st' \<and>
    db_wf (mem st') \<and> commits (mem st') = commits db \<and> entries (commitment_trie (mem st')) = commits db \<and> account_lmdb_instance st' = L"
proof -
  let ?es = "concat (map (\<lambda>sh. cursor (sh_data sh)) (shards L))"
  let ?db0 = "db_init dpk (tm_new M)"
  have es: "distinct (map fst ?es)" "map_of ?es = image_of enc db" using shard_lists [OF cur L(1)] L(2) by simp_all
  have doms: "dom (commits db) = dom (user_id_to_idx_map db)" and wf: "db_wf db" using st by (simp_all add: settled_def)
  have keys: "fst ` set ?es = dom (commits db)"
    unfolding dom_map_of_conv_image_fst [symmetric] es(2) by (auto simp: image_of_def dom_def)
  have "length ?es = card (fst ` set ?es)" using es(1) distinct_card [of "map fst ?es"] by simp
  also have "\<dots> \<le> length (contents db)"
    unfolding keys doms db_wf_dom [OF wf] using card_image_le [of "set (contents db)" acct_owner] card_length [of "contents db"] by (simp add: le_trans)
  finally have len: "length ?es < 2 ^ 64" using wf by (simp add: db_wf_def)
  have loads: "\<forall>e\<in>set ?es. entry_loads dec e"
  proof
    fix e assume "e \<in> set ?es"
    then have "image_of enc db (fst e) = Some (snd e)" using es by (metis map_of_is_SomeI prod.collapse)
    then show "entry_loads dec e" using image_loads(1) [OF st xdr, of "fst e" "snd e"] by simp
  qed
  have db0: "db_wf ?db0" "commits ?db0 = Map.empty" "user_id_to_idx_map ?db0 = Map.empty" "av_size (database ?db0) = 0" "commitment_trie ?db0 = tm_new M"
    using db_wf_init [of dpk "tm_new M"] by (simp_all add: db_init_def commits_def fun_eq_iff av_init_def)
  obtain db1 where db1: "load_entries dec dpk ?es ?db0 = Inr db1" "db_wf db1" "commitment_trie db1 = tm_new M"
      "commits db1 = decoded dec (image_of enc db)" "dom (user_id_to_idx_map db1) = dom (commits db)"
    using load_entries_effect [OF loads es(1) db0(1), of dpk] len keys es(2) db0 by auto
  have com: "commits db1 = commits db" using db1(4) decoded_image [OF st xdr] by simp
  let ?rs = "ranges (av_size (database db1))"
  have r: "distinct (concat ?rs)" "set (concat ?rs) = {..<length (contents db1)}" using rg by (simp_all add: splits_range_def)
  have own: "owners_at (concat ?rs) db1 = dom (user_id_to_idx_map db1)"
    unfolding owners_at_def r(2) db_wf_dom [OF db1(2)] by (auto simp: set_conv_nth)
  have pr: "dom (commits db1) = dom (user_id_to_idx_map db1)" "\<forall>i\<in>set (concat ?rs). i < length (contents db1)"
    "dom (entries (commitment_trie db1)) \<inter> owners_at (concat ?rs) db1 = {}"
    using com db1(5) r(2) db1(3) ok(2) by (simp_all add: trie_merge_ok_def)
  from produce_all_effect [OF ok db1(2) pr(1) r(1) pr(2,3)] obtain t where
    t: "produce_all T M ?rs db1 = Inr (db1\<lparr>commitment_trie := t\<rparr>)" "entries t = (\<lambda>a. if a \<in> dom (user_id_to_idx_map db1) then commits db1 a else entries (tm_new M) a)"
    unfolding own db1(3) by blast
  have "entries t a = commits db a" for a
  proof (cases "a \<in> dom (user_id_to_idx_map db1)")
    case False
    then have "a \<notin> dom (commits db)" "entries t a = None" using db1(5) t(2) ok(2) by (simp_all add: trie_merge_ok_def)
    then show ?thesis by (simp add: domIff)
  qed (use t(2) com in simp)
  then have "entries t = commits db" by blast
  moreover have "db_wf (db1\<lparr>commitment_trie := t\<rparr>)" "commits (db1\<lparr>commitment_trie := t\<rparr>) = commits db"
    using db1(2) com by (simp_all add: db_wf_def commits_def fun_eq_iff db_account_def)
  ultimately show ?thesis
    using db1(1) t(1) by (simp add: db_load_lmdb_contents_to_memory_def load_shards_concat)
qed

section \<open>Rewinding\<close>

lemma rtxn_get_disk: "lmdb_ok H L \<Longrightarrow> rtxn_get H a L = Inr (on_disk H L a)"
  using get_shard_less [of H a "lmdb_hash_key L"] by (simp add: rtxn_get_def on_disk_def lmdb_ok_def)

lemma reload_accounts_effect:
  assumes L: "lmdb_ok H L" and loads: "\<forall>k v. on_disk H L k = Some v \<longrightarrow> entry_loads dec (k, v)"
  shows "db_wf db \<Longrightarrow> \<forall>k\<in>set ks. on_disk H L k \<noteq> None \<longrightarrow> k \<in> dom (user_id_to_idx_map db) \<Longrightarrow>
    \<exists>db'. reload_accounts H dec L ks db = Inr db' \<and> db_wf db' \<and> user_id_to_idx_map db' = user_id_to_idx_map db \<and>
      commitment_trie db' = commitment_trie db \<and> account_creation_thunks db' = account_creation_thunks db \<and>
      (\<forall>a. commits db' a = (if a \<in> set ks \<and> on_disk H L a \<noteq> None then decoded dec (on_disk H L) a else commits db a))"
proof (induction ks arbitrary: db)
  case Nil
  then show ?case by auto
next
  case (Cons k ks)
  show ?case
  proof (cases "on_disk H L k")
    case None
    have "reload_accounts H dec L (k # ks) db = reload_accounts H dec L ks db" using None by (simp add: rtxn_get_disk [OF L])
    then show ?thesis using Cons.IH [OF Cons.prems(1)] Cons.prems(2) None by fastforce
  next
    case (Some v)
    obtain c b where cb: "dec v = Some c" "account_from_commitment c = Inr b" "ua_produce_commitment b = Some c" "acct_owner b = k"
      using loads [rule_format, OF Some] by (auto simp: entry_loads_def)
    obtain p where p: "user_id_to_idx_map db k = Some p" using Cons.prems(2) Some by auto
    then have p': "p < length (contents db)" "acct_owner (contents db ! p) = k" using Cons.prems(1) unfolding db_wf_def by blast+
    let ?db = "db_modify p (\<lambda>_. b) db"
    have con: "contents ?db = (contents db)[p := b]" using db_modify_contents(1) [OF Cons.prems(1) p'(1)] .
    have map: "user_id_to_idx_map ?db = user_id_to_idx_map db" "commitment_trie ?db = commitment_trie db"
        "account_creation_thunks ?db = account_creation_thunks db"
      by (simp_all add: db_modify_def)
    have own: "map acct_owner (contents ?db) = map acct_owner (contents db)"
      unfolding con using p' cb(4) by (simp add: map_update list_update_same_conv)
    have wf: "db_wf ?db"
    proof -
      have "p < length (contents ?db) \<and> acct_owner (contents ?db ! p) = x \<longleftrightarrow> p < length (contents db) \<and> acct_owner (contents db ! p) = x" for p x
        using arg_cong [OF own, of length] arg_cong [OF own, of "\<lambda>xs. xs ! p"] by auto
      then show ?thesis
        using Cons.prems(1) db_modify_contents(2) [OF Cons.prems(1) p'(1), of "\<lambda>_. b"] arg_cong [OF own, of length]
        unfolding db_wf_def map by simp
    qed
    have com: "commits ?db a = (if a = k then Some c else commits db a)" for a
    proof (cases "a = k")
      case True
      then show ?thesis using p cb(3) p'(1) by (simp add: commits_contents [OF wf] map con)
    next
      case False
      then have "contents ?db ! q = contents db ! q" if "acct_owner (contents db ! q) = a" for q
        using that p'(2) unfolding con by (metis nth_list_update_neq)
      then show ?thesis using False commits_cong [OF Cons.prems(1) wf, of a] map by simp
    qed
    have "\<forall>k\<in>set ks. on_disk H L k \<noteq> None \<longrightarrow> k \<in> dom (user_id_to_idx_map ?db)" using Cons.prems(2) map by simp
    from Cons.IH [OF wf this] obtain db' where db': "reload_accounts H dec L ks ?db = Inr db'" "db_wf db'"
        "user_id_to_idx_map db' = user_id_to_idx_map db" "commitment_trie db' = commitment_trie db" "account_creation_thunks db' = account_creation_thunks db"
        "\<forall>a. commits db' a = (if a \<in> set ks \<and> on_disk H L a \<noteq> None then decoded dec (on_disk H L) a else commits ?db a)"
      unfolding map by blast
    moreover have "reload_accounts H dec L (k # ks) db = Inr db'" using db'(1) Some cb p by (simp add: rtxn_get_disk [OF L])
    moreover have "decoded dec (on_disk H L) k = Some c" using Some cb by (simp add: decoded_def)
    ultimately show ?thesis using com Some by auto
  qed
qed

lemma reload_thunks_effect:
  assumes L: "lmdb_ok H L" and loads: "\<forall>k v. on_disk H L k = Some v \<longrightarrow> entry_loads dec (k, v)"
  shows "db_wf db \<Longrightarrow> \<forall>th\<in>set ths. n < pt_block_number th \<Longrightarrow> \<forall>k\<in>touched ths. on_disk H L k \<noteq> None \<longrightarrow> k \<in> dom (user_id_to_idx_map db) \<Longrightarrow>
    \<exists>db'. reload_thunks H dec L n ths db = Inr db' \<and> db_wf db' \<and> user_id_to_idx_map db' = user_id_to_idx_map db \<and> commitment_trie db' = commitment_trie db \<and>
      (\<forall>a. commits db' a = (if a \<in> touched ths \<and> on_disk H L a \<noteq> None then decoded dec (on_disk H L) a else commits db a))"
proof (induction ths arbitrary: db)
  case Nil
  then show ?case by auto
next
  case (Cons th ths)
  have t: "touched (th # ths) = set (map fst (kvs th)) \<union> touched ths" by (simp add: touched_def image_Un)
  have "\<forall>k\<in>set (map fst (kvs th)). on_disk H L k \<noteq> None \<longrightarrow> k \<in> dom (user_id_to_idx_map db)" using Cons.prems(3) t by blast
  from reload_accounts_effect [OF L loads Cons.prems(1) this] obtain d where
    d: "reload_accounts H dec L (map fst (kvs th)) db = Inr d" "db_wf d" "user_id_to_idx_map d = user_id_to_idx_map db" "commitment_trie d = commitment_trie db"
      "\<forall>a. commits d a = (if a \<in> set (map fst (kvs th)) \<and> on_disk H L a \<noteq> None then decoded dec (on_disk H L) a else commits db a)"
    by blast
  have "\<forall>th\<in>set ths. n < pt_block_number th" "\<forall>k\<in>touched ths. on_disk H L k \<noteq> None \<longrightarrow> k \<in> dom (user_id_to_idx_map d)"
    using Cons.prems(2,3) t d(3) by auto
  from Cons.IH [OF d(2) this] obtain db' where
    db': "reload_thunks H dec L n ths d = Inr db'" "db_wf db'" "user_id_to_idx_map db' = user_id_to_idx_map db" "commitment_trie db' = commitment_trie db"
      "\<forall>a. commits db' a = (if a \<in> touched ths \<and> on_disk H L a \<noteq> None then decoded dec (on_disk H L) a else commits d a)"
    unfolding d(3,4) by blast
  have "reload_thunks H dec L n (th # ths) db = Inr db'" using db'(1) d(1) Cons.prems(2) by simp
  then show ?case using db' d(5) unfolding t by auto
qed

lemma truncated_commits:
  assumes tr: "truncated entries k db db'" and wf: "db_wf db"
  shows "commits db' a = (if a \<in> acct_owner ` set (drop k (contents db)) then None else commits db a)"
proof (cases "a \<in> acct_owner ` set (drop k (contents db))")
  case True
  then show ?thesis using truncated_map [OF tr wf, of a] by (simp add: commits_def)
next
  case False
  have wf': "db_wf db'" "contents db' = take k (contents db)" using tr by (simp_all add: truncated_def)
  have "user_id_to_idx_map db' a = user_id_to_idx_map db a" using truncated_map [OF tr wf, of a] False by simp
  moreover have "contents db' ! p = contents db ! p" if "p < length (contents db)" "acct_owner (contents db ! p) = a" for p
  proof -
    have "p < k"
    proof (rule ccontr)
      assume "\<not> p < k"
      then have "a \<in> acct_owner ` set (drop k (contents db))" unfolding owner_in_drop using that by (intro exI [of _ p]) simp
      then show False using False by simp
    qed
    then show ?thesis using wf'(2) by simp
  qed
  ultimately show ?thesis using commits_cong [OF wf wf'(1), of a] False by simp
qed

lemma map_eq_all:
  assumes "map f xs = map g ys" "\<forall>y\<in>set ys. P (g y)"
  shows "\<forall>x\<in>set xs. P (f x)"
proof -
  have "\<forall>z\<in>set (map f xs). P z" unfolding assms(1) using assms(2) by simp
  then show ?thesis by simp
qed

lemma commits_None: "a \<notin> dom (user_id_to_idx_map db) \<Longrightarrow> commits db a = None"
  by (simp add: commits_def domIff)

lemma owners_distinct: "db_wf db \<Longrightarrow> distinct (map acct_owner (contents db))"
  using db_wf_distinct [of db] by (auto simp: distinct_conv_nth)

lemma owners_length: "db_wf db \<Longrightarrow> card (dom (user_id_to_idx_map db)) = length (contents db)"
  using distinct_card [OF owners_distinct [of db]] db_wf_dom [of db] by simp

text \<open>Undoing the creation of accounts, in terms of the owners of the table.\<close>

lemma rollback_creations:
  assumes ok: "commitment_trie_ok T entries" and wf: "db_wf db" and os: "map acct_owner (contents db) = os @ news"
    and cts: "created_count (account_creation_thunks db) = length news" "\<forall>th\<in>set (account_creation_thunks db). n < thunk_block_number th"
  shows "\<exists>d. rollback_new_accounts T n db = Some d \<and> db_wf d \<and> map acct_owner (contents d) = os \<and>
    (\<forall>a. commits d a = (if a \<in> set news then None else commits db a)) \<and>
    (\<forall>a. entries (commitment_trie d) a = (if a \<in> set news then None else entries (commitment_trie db) a))"
proof -
  let ?k = "length os"
  have len: "length (contents db) = ?k + length news" using arg_cong [OF os, of length] by simp
  have rolled: "rolled n (account_creation_thunks db) = length news"
    using cts by (simp add: rolled_def created_count_def filter_id_conv [THEN iffD2])
  then have "rolled n (account_creation_thunks db) \<le> length (contents db)" using len by simp
  from rollback_thunks_correct [OF ok wf this, of "[]"] obtain d where
    d: "rollback_thunks T n [] (account_creation_thunks db) db = Some d" "truncated entries ?k db d"
    unfolding rolled len by auto
  have gone: "acct_owner ` set (drop ?k (contents db)) = set news"
    unfolding set_map [symmetric] drop_map [symmetric] os by simp
  let ?d = "clear_internal_data_structures d"
  have wfd: "db_wf d" "contents d = take ?k (contents db)" using d(2) by (simp_all add: truncated_def)
  then have "db_wf ?d" "contents ?d = take ?k (contents db)" "commits ?d = commits d" "commitment_trie ?d = commitment_trie d"
    by (simp_all add: clear_internal_data_structures_def db_wf_def commits_def fun_eq_iff db_account_def)
  moreover have "map acct_owner (take ?k (contents db)) = os" unfolding take_map [symmetric] os by simp
  moreover have "commits d a = (if a \<in> set news then None else commits db a)" for a
    using truncated_commits [OF d(2) wf, of a] unfolding gone .
  moreover have "entries (commitment_trie d) a = (if a \<in> set news then None else entries (commitment_trie db) a)" for a
    using d(2) unfolding truncated_def gone by simp
  ultimately show ?thesis using d(1) by (simp add: rollback_new_accounts_def)
qed

text \<open>Reloading the accounts that later blocks touched.\<close>

lemma reload_restores:
  assumes xdr: "xdr_ok enc dec" and L: "lmdb_ok H L" "on_disk H L = image_of enc m" and m: "settled entries m"
    and d: "db_wf d" "map acct_owner (contents d) = map acct_owner (contents m)"
    and un: "\<forall>a. a \<notin> touched later \<longrightarrow> commits d a = commits m a" and num: "\<forall>th\<in>set later. n < pt_block_number th"
  shows "\<exists>d'. reload_thunks H dec L n (rev later) d = Inr d' \<and> commits d' = commits m \<and>
    map acct_owner (contents d') = map acct_owner (contents m) \<and> commitment_trie d' = commitment_trie d"
proof -
  have wf: "db_wf m" "dom (commits m) = dom (user_id_to_idx_map m)" using m by (simp_all add: settled_def)
  have dom: "dom (user_id_to_idx_map d) = dom (commits m)"
    using d(2) wf db_wf_dom [OF d(1)] db_wf_dom [OF wf(1)] by (metis list.set_map)
  have loads: "\<forall>k v. on_disk H L k = Some v \<longrightarrow> entry_loads dec (k, v)" unfolding L(2) using image_loads(1) [OF m xdr] by blast
  have on: "on_disk H L a \<noteq> None \<longleftrightarrow> a \<in> dom (commits m)" for a unfolding L(2) by (auto simp: image_of_def)
  have tl: "touched (rev later) = touched later" by (auto simp: touched_def)
  have "\<forall>k\<in>touched (rev later). on_disk H L k \<noteq> None \<longrightarrow> k \<in> dom (user_id_to_idx_map d)" unfolding on dom by blast
  moreover have "\<forall>th\<in>set (rev later). n < pt_block_number th" using num by simp
  ultimately obtain d' where d': "reload_thunks H dec L n (rev later) d = Inr d'" "db_wf d'" "user_id_to_idx_map d' = user_id_to_idx_map d"
      "commitment_trie d' = commitment_trie d"
      "\<forall>a. commits d' a = (if a \<in> touched later \<and> on_disk H L a \<noteq> None then decoded dec (on_disk H L) a else commits d a)"
    using reload_thunks_effect [OF L(1) loads d(1), of "rev later" n] unfolding tl by blast
  have "commits d' a = commits m a" for a
  proof -
    consider "a \<notin> dom (commits m)" | "a \<in> dom (commits m)" "a \<in> touched later" | "a \<in> dom (commits m)" "a \<notin> touched later" by blast
    then show ?thesis
    proof cases
      case 1
      then show ?thesis using d'(5) on [of a] commits_None [of a d] dom by (simp add: domIff)
    next
      case 2
      then show ?thesis using d'(5) on [of a] decoded_image [OF m xdr] unfolding L(2) by simp
    next
      case 3
      then show ?thesis using d'(5) un by simp
    qed
  qed
  moreover have "length (contents d') = length (contents d)"
    using owners_length [OF d'(2)] owners_length [OF d(1)] d'(3) by simp
  ultimately show ?thesis using d'(1,4) owners_of_map [OF d(1) d'(2,3)] d(2) by auto
qed

text \<open>Everything the rewinding does to the table, the thunks and the trie.\<close>

lemma rewind_effect:
  assumes ok: "commitment_trie_ok T entries" and xdr: "xdr_ok enc dec" and p: "pending_blocks H T entries enc dpk n s0 sn s"
  shows "\<exists>s1 s2. commit_persistence_thunks H n s = Inr s1 \<and> clear_persistence_thunks_and_reload H dec T n s1 = Inr s2 \<and>
    commits (mem s2) = commits (mem sn) \<and> map acct_owner (contents (mem s2)) = map acct_owner (contents (mem sn)) \<and> persistence_thunks s2 = [] \<and>
    (\<forall>a\<in>dom (commits (mem sn)). entries (commitment_trie (mem s2)) a = commits (mem s) a)"
proof -
  have xe: "\<forall>c. enc c \<noteq> []" using xdr by (simp add: xdr_ok_def)
  obtain s1 later where s1: "commit_persistence_thunks H n s = Inr s1" "lmdb_ok H (account_lmdb_instance s1)"
      "on_disk H (account_lmdb_instance s1) = image_of enc (mem sn)" "assert_snapshot_and_get_persisted_round_number (account_lmdb_instance s1) = Inr n"
      "db_blocks T enc dpk sn s later" "persistence_thunks s1 = later" "\<forall>th\<in>set later. n < pt_block_number th"
      "mem s1 = (mem s)\<lparr>account_creation_thunks := filter (\<lambda>th. n < thunk_block_number th) (account_creation_thunks (mem s))\<rparr>"
    using committed_disk [OF ok xe p] by blast
  obtain ths where ths: "db_blocks T enc dpk s0 sn ths" "\<forall>sh\<in>set (shards (account_lmdb_instance s0)). ascending_from (sh_round sh) n ths"
      "settled entries (mem s0)" "\<forall>th\<in>set (account_creation_thunks (mem s0)). thunk_block_number th \<le> n" "lmdb_ok H (account_lmdb_instance s0)"
    using p by (auto simp: pending_blocks_def)
  note e1 = db_blocks_effect [OF ok ths(3,1)]
  then have sn: "settled entries (mem sn)" by blast
  note e2 = db_blocks_effect [OF ok sn s1(5)]
  then have s: "settled entries (mem s)" by blast
  obtain news cts where nc: "map acct_owner (contents (mem s)) = map acct_owner (contents (mem sn)) @ news"
      "account_creation_thunks (mem s) = account_creation_thunks (mem sn) @ cts" "map thunk_block_number cts = map pt_block_number later"
      "created_count cts = length news" "set news \<subseteq> touched later"
    using e2 by blast
  have "shards (account_lmdb_instance s0) \<noteq> []" using ths(5) by (auto simp: lmdb_ok_def NUM_ACCOUNT_DB_SHARDS_def)
  then have "\<forall>th\<in>set ths. pt_block_number th \<le> n" using ths(2) by (cases "shards (account_lmdb_instance s0)") (auto simp: ascending_from_def)
  moreover obtain cts0 where "account_creation_thunks (mem sn) = account_creation_thunks (mem s0) @ cts0" "map thunk_block_number cts0 = map pt_block_number ths"
    using e1 by blast
  ultimately have old: "\<forall>th\<in>set (account_creation_thunks (mem sn)). thunk_block_number th \<le> n"
    using ths(4) map_eq_all [of thunk_block_number cts0 pt_block_number ths "\<lambda>b. b \<le> n"] by auto
  have new: "\<forall>th\<in>set cts. n < thunk_block_number th" by (rule map_eq_all [OF nc(3) s1(7)])
  have m: "account_creation_thunks (mem s1) = cts" "contents (mem s1) = contents (mem s)" "db_wf (mem s1)" "commits (mem s1) = commits (mem s)"
      "commitment_trie (mem s1) = commitment_trie (mem s)"
    using old new s by (simp_all add: s1(8) nc(2) filter_empty_conv filter_id_conv not_less settled_def db_wf_def commits_def fun_eq_iff db_account_def)
  obtain d where d: "rollback_new_accounts T n (mem s1) = Some d" "db_wf d" "map acct_owner (contents d) = map acct_owner (contents (mem sn))"
      "\<forall>a. commits d a = (if a \<in> set news then None else commits (mem s) a)"
      "\<forall>a. entries (commitment_trie d) a = (if a \<in> set news then None else commits (mem s) a)"
    using rollback_creations [OF ok m(3), of "map acct_owner (contents (mem sn))" news n] nc(1,4) new m s by (auto simp: settled_def)
  have "\<forall>a. a \<notin> touched later \<longrightarrow> commits d a = commits (mem sn) a" using d(4) e2 nc(5) by auto
  from reload_restores [OF xdr s1(2,3) sn d(2,3) this s1(7)] obtain d' where
    d': "reload_thunks H dec (account_lmdb_instance s1) n (rev later) d = Inr d'" "commits d' = commits (mem sn)"
      "map acct_owner (contents d') = map acct_owner (contents (mem sn))" "commitment_trie d' = commitment_trie d" by blast
  have "a \<notin> set news" if "a \<in> dom (commits (mem sn))" for a
    using that owners_distinct [of "mem s"] sn s db_wf_dom [of "mem sn"] unfolding settled_def nc(1) by auto
  moreover have "clear_persistence_thunks_and_reload H dec T n s1 = Inr (s1\<lparr>mem := d', persistence_thunks := []\<rparr>)"
    using d(1) d'(1) s1(4,6) by (simp add: clear_persistence_thunks_and_reload_def)
  ultimately show ?thesis using s1(1) d' d(5) by (intro exI [of _ s1] exI [of _ "s1\<lparr>mem := d', persistence_thunks := []\<rparr>"]) auto
qed

section \<open>Properties\<close>

text \<open>
  Property C21. A crash while account thunks are written is repaired by writing them again. Let any of the sixteen workers
  have committed their shards, in any order and over any number of crashes and restarts. Then the workers
  of a restarted node, told to ignore thunks a shard already has, all return, every shard ends exactly as in
  a run without a crash, and the shards are again a snapshot of one block.
\<close>

theorem crash_recovery_completes:
  assumes "msgs_ok ths" and "ths \<noteq> []" and "shards L \<noteq> []"
    and "\<forall>sh\<in>set (shards L). sh_round sh < n \<and> ascending_from (sh_round sh) n ths"
    and "shard_commits H ths n (shards L) shs"
  shows "\<exists>L1 L2. persist_thunks H ths n False L = Inr L1 \<and> persist_thunks H ths n True (reopened shs L) = Inr L2 \<and>
    shards L2 = shards L1 \<and> assert_snapshot_and_get_persisted_round_number L2 = Inr n"
  using assms by (rule recovery_completes)

text \<open>
  Property C20. A restart reproduces the state. Let the disk hold the state of some block, let the node run further blocks up to
  block \<open>n\<close> and then more, and let the thunks up to \<open>n\<close> be written. Loading the disk into an empty database
  succeeds, for every split of the parallel loop, every account has the committed state it had after block \<open>n\<close>,
  and the state hash is the hash of block \<open>n\<close>.
\<close>

theorem restart_restores_state:
  assumes "commitment_trie_ok T entries" and "trie_merge_ok M entries" and "xdr_ok enc dec" and "cursor_ok cursor"
    and "splits_range ranges" and "pending_blocks H T entries enc dpk n s0 sn s"
  shows "\<exists>s1 s2. commit_persistence_thunks H n s = Inr s1 \<and>
    db_load_lmdb_contents_to_memory cursor dec dpk T M ranges
      \<lparr>mem = db_init dpk (tm_new M), persistence_thunks = [], account_lmdb_instance = account_lmdb_instance s1\<rparr> = Inr s2 \<and>
    commits (mem s2) = commits (mem sn) \<and> t_hash T (commitment_trie (mem s2)) = t_hash T (commitment_trie (mem sn))"
proof -
  have xe: "\<forall>c. enc c \<noteq> []" using assms(3) by (simp add: xdr_ok_def)
  obtain s1 where s1: "commit_persistence_thunks H n s = Inr s1" "lmdb_ok H (account_lmdb_instance s1)"
      "on_disk H (account_lmdb_instance s1) = image_of enc (mem sn)"
    using committed_disk [OF assms(1) xe assms(6)] by blast
  have "\<exists>ths. db_blocks T enc dpk s0 sn ths" "settled entries (mem s0)" using assms(6) by (auto simp: pending_blocks_def)
  then have sn: "settled entries (mem sn)" using db_blocks_effect [OF assms(1)] by blast
  from load_settled [OF assms(1-4) sn s1(2,3) assms(5)] obtain s2 where
    s2: "db_load_lmdb_contents_to_memory cursor dec dpk T M ranges
      \<lparr>mem = db_init dpk (tm_new M), persistence_thunks = [], account_lmdb_instance = account_lmdb_instance s1\<rparr> = Inr s2"
      "commits (mem s2) = commits (mem sn)" "entries (commitment_trie (mem s2)) = commits (mem sn)" by blast
  have "entries (commitment_trie (mem s2)) = entries (commitment_trie (mem sn))" using s2(3) sn by (simp add: settled_def)
  then have "t_hash T (commitment_trie (mem s2)) = t_hash T (commitment_trie (mem sn))" using assms(1) by (metis commitment_trie_ok_def)
  then show ?thesis using s1(1) s2(1,2) by blast
qed

text \<open>
  Property C22. Rewinding undoes blocks that were not confirmed. After blocks up to \<open>n\<close> and then more, writing the thunks up to \<open>n\<close>
  and reloading leaves every account with the committed state it had after block \<open>n\<close>, the accounts created
  later are gone, and no thunk of an abandoned block is left.
\<close>

theorem rewind_restores_accounts:
  assumes "commitment_trie_ok T entries" and "xdr_ok enc dec" and "pending_blocks H T entries enc dpk n s0 sn s"
  shows "\<exists>s1 s2. commit_persistence_thunks H n s = Inr s1 \<and> clear_persistence_thunks_and_reload H dec T n s1 = Inr s2 \<and>
    commits (mem s2) = commits (mem sn) \<and> map acct_owner (contents (mem s2)) = map acct_owner (contents (mem sn)) \<and> persistence_thunks s2 = []"
  using rewind_effect [OF assms] by blast

text \<open>
  Property C32. Rewinding does not restore the state commitment. Accounts are reloaded from disk, but the trie
  that is hashed into block headers keeps the commitments of the abandoned blocks: for an account they changed, the trie
  and the account disagree after the rewinding.
\<close>

theorem rewind_keeps_abandoned_commitments:
  assumes "commitment_trie_ok T entries" and "xdr_ok enc dec" and "pending_blocks H T entries enc dpk n s0 sn s"
    and "a \<in> dom (commits (mem sn))" and "commits (mem s) a \<noteq> commits (mem sn) a"
  shows "\<exists>s1 s2. commit_persistence_thunks H n s = Inr s1 \<and> clear_persistence_thunks_and_reload H dec T n s1 = Inr s2 \<and>
    entries (commitment_trie (mem s2)) a = commits (mem s) a \<and> entries (commitment_trie (mem s2)) a \<noteq> commits (mem s2) a"
proof -
  obtain s1 s2 where "commit_persistence_thunks H n s = Inr s1" "clear_persistence_thunks_and_reload H dec T n s1 = Inr s2"
      "commits (mem s2) = commits (mem sn)" "\<forall>a\<in>dom (commits (mem sn)). entries (commitment_trie (mem s2)) a = commits (mem s) a"
    using rewind_effect [OF assms(1-3)] by blast
  then show ?thesis using assms(4,5) by (intro exI [of _ s1] exI [of _ s2]) simp
qed

text \<open>Databases that were created and then written any number of times.\<close>

inductive written_db :: "(hash_key \<Rightarrow> account_id \<Rightarrow> nat) \<Rightarrow> hash_key \<Rightarrow> account_lmdb \<Rightarrow> bool" for H k where
  created: "written_db H k (create_db k)"
| persisted: "written_db H k L \<Longrightarrow> persist_thunks H ths n ig L = Inr L' \<Longrightarrow> written_db H k L'"

lemma run_workers_keep:
  "run_workers H ths n ig i shs = Inr shs' \<Longrightarrow> map sh_saved_key shs' = map sh_saved_key shs"
proof (induction shs arbitrary: i shs')
  case (Cons sh shs)
  then show ?case by (auto simp: bind_result_Inr exec_thunks_def split: prod.splits if_splits)
qed simp

lemma written_db_keys: "written_db H k L \<Longrightarrow> map sh_saved_key (shards L) = replicate NUM_ACCOUNT_DB_SHARDS None"
proof (induction rule: written_db.induct)
  case (persisted L ths n ig L')
  then obtain shs where "run_workers H ths n ig 0 (shards L) = Inr shs" "shards L' = shs"
    by (auto simp: persist_thunks_def bind_result_Inr)
  then show ?case using persisted.IH run_workers_keep by metis
qed (simp add: create_db_def sh_create_db_def)

text \<open>
  Property C33. A database that was created cannot be opened again. Creating it never stores the hash key, so whatever is persisted
  afterwards, opening fails with the error for a missing key.
\<close>

theorem created_database_never_reopens:
  assumes "written_db H k L"
  shows "open_db L = Inl (RuntimeError ''failed to load hash key from lmdb'')"
proof -
  obtain sh shs where sh: "shards L = sh # shs" "sh_saved_key sh = None"
    using written_db_keys [OF assms] by (cases "shards L") (auto simp: NUM_ACCOUNT_DB_SHARDS_def numeral_eq_Suc)
  then show ?thesis by (simp add: open_db_def load_hash_key_def)
qed

theorem created_database_never_reopens_witness:
  "open_db (create_db (replicate 16 0)) = Inl (RuntimeError ''failed to load hash key from lmdb'')"
  by (rule created_database_never_reopens [OF written_db.created])

text \<open>A database with one account whose balance a block changes, used by the witnesses.\<close>

fun asset_pairs :: "nat list \<Rightarrow> asset_commitment list" where
  "asset_pairs (i # x # rest) = \<lparr>ac_asset = i, amount_available = x\<rparr> # asset_pairs rest"
| "asset_pairs xs = []"

definition sample_enc :: "unit account_commitment \<Rightarrow> nat list" where
  "sample_enc c = ac_owner c # ac_last_committed_id c # concat (map (\<lambda>x. [ac_asset x, amount_available x]) (assets c))"

fun sample_dec :: "nat list \<Rightarrow> unit account_commitment option" where
  "sample_dec (own # lst # rest) = Some \<lparr>ac_owner = own, assets = asset_pairs rest, ac_last_committed_id = lst, ac_pk = ()\<rparr>"
| "sample_dec xs = None"

lemma sample_xdr_ok: "xdr_ok sample_enc sample_dec"
proof -
  have "asset_pairs (concat (map (\<lambda>x. [ac_asset x, amount_available x]) xs)) = xs" for xs by (induction xs) simp_all
  then show ?thesis by (simp add: xdr_ok_def sample_enc_def)
qed

definition sample_cursor :: "(account_id \<rightharpoonup> nat list) \<Rightarrow> (account_id \<times> nat list) list" where
  "sample_cursor m = map (\<lambda>k. (k, the (m k))) (sorted_list_of_set (dom m))"

lemma sample_cursor_ok: "cursor_ok sample_cursor"
proof -
  have "map_of (map (\<lambda>k. (k, the (m k))) ks) a = (if a \<in> set ks then Some (the (m a)) else None)" for m :: "account_id \<rightharpoonup> nat list" and ks a
    by (induction ks) auto
  then show ?thesis by (auto simp: cursor_ok_def sample_cursor_def comp_def fun_eq_iff domIff)
qed

definition map_merge :: "(account_id \<rightharpoonup> 'v) trie_merge" where
  "map_merge = \<lparr>tm_new = Map.empty, tm_merge_in = (\<lambda>other t. t ++ other)\<rparr>"

lemma map_merge_ok: "trie_merge_ok map_merge (\<lambda>t. t)"
  by (simp add: trie_merge_ok_def map_merge_def)

lemma one_range: "splits_range (\<lambda>k. [[0..<k]])"
  by (auto simp: splits_range_def)

definition held :: "int \<Rightarrow> int \<Rightarrow> unit user_account" where
  "held avail com = \<lparr>owned_assets = [\<lparr>available = avail, committed_available = com\<rparr>], uncommitted_assets = [],
     seq_tracker = ut_init 0, acct_owner = 7, pk = ()\<rparr>"

definition held_commitment :: "nat \<Rightarrow> unit account_commitment" where
  "held_commitment x = \<lparr>ac_owner = 7, assets = [\<lparr>ac_asset = 0, amount_available = x\<rparr>], ac_last_committed_id = 0, ac_pk = ()\<rparr>"

definition holding_db :: "unit user_account \<Rightarrow> (account_id \<rightharpoonup> unit account_commitment) \<Rightarrow> account_creation_thunk list
    \<Rightarrow> (unit, account_id \<rightharpoonup> unit account_commitment) memory_database" where
  "holding_db a t cts = \<lparr>user_id_to_idx_map = [7 \<mapsto> 0], reserved_account_ids = {},
     database = \<lparr>accounts = [\<lparr>num_active_entries = 1, row = (\<lambda>_. blank_account ())(0 := a)\<rparr>], next_open_idx = 0, av_size = 1\<rparr>,
     uncommitted_db = [], commitment_trie = t, account_creation_thunks = cts\<rparr>"

lemma holding_db_simps:
  "db_account 0 (holding_db a t cts) = a" "db_modify 0 f (holding_db a t cts) = holding_db (f a) t cts"
  "user_id_to_idx_map (holding_db a t cts) = [7 \<mapsto> 0]" "contents (holding_db a t cts) = [a]" "uncommitted_db (holding_db a t cts) = []"
  "commitment_trie (holding_db a t cts) = t" "account_creation_thunks (holding_db a t cts) = cts" "av_size (database (holding_db a t cts)) = 1"
  by (simp_all add: holding_db_def db_account_def db_modify_def av_modify_def upd_at_def av_contents_def)

lemma holding_db_wf: "acct_owner a = 7 \<Longrightarrow> db_wf (holding_db a t cts)"
  unfolding db_wf_def holding_db_simps by (auto simp: holding_db_def av_wf_def ACCOUNTS_PER_ROW_def split: if_splits)

lemma held_facts:
  "acct_owner (held a x) = 7" "0 \<le> x \<Longrightarrow> x < 2 ^ 63 \<Longrightarrow> ua_produce_commitment (held a x) = Some (held_commitment (nat x))"
  "ua_transfer_available 0 5 (held 10 10) = held 15 10" "ua_commit (held 15 10) = held 15 15"
  by (simp_all add: held_def ua_produce_commitment_def commitment_loop_eq ra_produce_commitment_def ut_produce_commitment_def ut_init_def
      held_commitment_def ua_transfer_available_def operate_on_asset_def ra_transfer_available_def i64_def ua_commit_def ra_commit_def ut_commit_def
      uint64_get_seq_num_increment_def u64_def)

definition sample_lmdb :: account_lmdb where
  "sample_lmdb = \<lparr>shards = \<lparr>sh_data = [7 \<mapsto> sample_enc (held_commitment 10)], sh_round = 1, sh_hash_key = [], sh_saved_key = None\<rparr>
       # replicate 15 \<lparr>sh_data = Map.empty, sh_round = 1, sh_hash_key = [], sh_saved_key = None\<rparr>,
     lmdb_opened = True, lmdb_hash_key = [], min_persisted_round_number = 1, max_persisted_round_number = 1\<rparr>"

definition block_one :: account_creation_thunk where
  "block_one = \<lparr>thunk_block_number = 1, num_accounts_created = 1\<rparr>"

definition block_two :: account_creation_thunk where
  "block_two = \<lparr>thunk_block_number = 2, num_accounts_created = 0\<rparr>"

definition before_block :: "(unit, account_id \<rightharpoonup> unit account_commitment) persistent_db" where
  "before_block = \<lparr>mem = holding_db (held 10 10) [7 \<mapsto> held_commitment 10] [block_one], persistence_thunks = [], account_lmdb_instance = sample_lmdb\<rparr>"

definition after_payment :: "(unit, account_id \<rightharpoonup> unit account_commitment) persistent_db" where
  "after_payment = \<lparr>mem = holding_db (held 15 15) [7 \<mapsto> held_commitment 15] [block_one, block_two],
     persistence_thunks = [\<lparr>kvs = [(7, sample_enc (held_commitment 15))], pt_block_number = 2\<rparr>], account_lmdb_instance = sample_lmdb\<rparr>"

lemma commits_holding: "0 \<le> x \<Longrightarrow> x < 2 ^ 63 \<Longrightarrow> commits (holding_db (held a x) t cts) = [7 \<mapsto> held_commitment (nat x)]"
  by (auto simp: commits_def holding_db_simps held_facts fun_eq_iff)

lemma sample_block: "db_blocks map_trie sample_enc () before_block after_payment [last (persistence_thunks after_payment)]"
proof -
  let ?m = "mem before_block"
  let ?m2 = "holding_db (held 10 10) [7 \<mapsto> held_commitment 10] [block_one, block_two]"
  let ?m3 = "holding_db (held 15 10) [7 \<mapsto> held_commitment 10] [block_one, block_two]"
  let ?m4 = "holding_db (held 15 15) [7 \<mapsto> held_commitment 10] [block_one, block_two]"
  have "db_blocks map_trie sample_enc () before_block after_payment ([] @ [last (persistence_thunks after_payment)])"
  proof (rule db_blocks.block [OF db_blocks.start])
    show "quiet ?m ?m" by (simp add: quiet_def before_block_def holding_db_wf held_facts)
    show "creations_ok ?m" by (simp add: creations_ok_def before_block_def holding_db_simps)
    show "commit_new_accounts map_trie () 0 2 ?m = Inr ?m2"
      by (simp add: commit_new_accounts_def before_block_def holding_db_simps block_one_def block_two_def u64_def clear_internal_data_structures_def)
        (simp add: holding_db_def)
    show "quiet ?m2 ?m3" by (simp add: quiet_def holding_db_wf held_facts holding_db_simps)
    show "commit_values_log [7] ?m3 = Inr ?m4" by (simp add: db_lookup_user_def holding_db_simps held_facts)
    show "produce_state_commitment map_trie [7] ?m4 = Inr ([7 \<mapsto> held_commitment 15], mem after_payment)"
      by (simp add: produce_state_commitment_def holding_db_simps held_facts map_trie_def after_payment_def) (simp add: holding_db_def)
    show "in_range_accounts (mem after_payment)" by (simp add: in_range_accounts_def after_payment_def holding_db_simps held_def in_i64_def)
    show "add_persistence_thunk sample_enc 2 [7] (before_block\<lparr>mem := mem after_payment\<rparr>) = Inr after_payment"
      by (simp add: add_persistence_thunk_def before_block_def after_payment_def db_lookup_user_def holding_db_simps held_facts)
    show "acct_owner ` set (uncommitted_db ?m) \<subseteq> set [7]" by (simp add: before_block_def holding_db_simps)
  qed simp
  then show ?thesis by simp
qed

lemma sample_pending: "pending_blocks (\<lambda>k a. a) map_trie (\<lambda>t. t) sample_enc () 1 before_block before_block after_payment"
proof -
  have com: "commits (mem before_block) = [7 \<mapsto> held_commitment 10]" by (simp add: before_block_def commits_holding)
  have "settled (\<lambda>t. t) (mem before_block)"
    unfolding settled_def com by (simp add: before_block_def holding_db_wf held_facts holding_db_simps in_range_accounts_def) (simp add: held_def in_i64_def)
  moreover have "lmdb_ok (\<lambda>k a. a) sample_lmdb"
    by (auto simp: lmdb_ok_def sample_lmdb_def NUM_ACCOUNT_DB_SHARDS_def nth_Cons get_shard_def split: nat.splits)
  moreover have "on_disk (\<lambda>k a. a) sample_lmdb = image_of sample_enc (mem before_block)"
  proof
    fix a
    show "on_disk (\<lambda>k a. a) sample_lmdb a = image_of sample_enc (mem before_block) a"
    proof (cases "a = 7")
      case True
      then show ?thesis by (simp add: image_of_def com on_disk_def sample_lmdb_def get_shard_def NUM_ACCOUNT_DB_SHARDS_def)
    next
      case False
      have "get_shard (\<lambda>k a. a) a [] < 16" using get_shard_less [of "\<lambda>k a. a" a "[]"] by (simp add: NUM_ACCOUNT_DB_SHARDS_def)
      then show ?thesis using False by (cases "get_shard (\<lambda>k a. a) a []") (simp_all add: image_of_def com on_disk_def sample_lmdb_def)
    qed
  qed
  moreover have "\<exists>ths later. db_blocks map_trie sample_enc () before_block before_block ths \<and> db_blocks map_trie sample_enc () before_block after_payment later \<and>
      (\<forall>sh\<in>set (shards sample_lmdb). ascending_from (sh_round sh) 1 ths) \<and> (\<forall>th\<in>set later. 1 < pt_block_number th)"
    by (rule exI [of _ "[]"], rule exI [of _ "[last (persistence_thunks after_payment)]"])
      (use sample_block db_blocks.start in \<open>simp add: sample_lmdb_def ascending_from_def after_payment_def\<close>)
  moreover have "persistence_thunks before_block = []" "account_lmdb_instance before_block = sample_lmdb" "account_creation_thunks (mem before_block) = [block_one]"
    "thunk_block_number block_one = 1" "min_persisted_round_number sample_lmdb = 1" "max_persisted_round_number sample_lmdb = 1"
    by (simp_all add: before_block_def sample_lmdb_def holding_db_simps block_one_def)
  ultimately show ?thesis unfolding pending_blocks_def by simp
qed

theorem restart_restores_state_witness:
  "\<exists>s1 s2. commit_persistence_thunks (\<lambda>k a. a) 1 after_payment = Inr s1 \<and>
    db_load_lmdb_contents_to_memory sample_cursor sample_dec () map_trie map_merge (\<lambda>k. [[0..<k]])
      \<lparr>mem = db_init () (tm_new map_merge), persistence_thunks = [], account_lmdb_instance = account_lmdb_instance s1\<rparr> = Inr s2 \<and>
    commits (mem s2) = [7 \<mapsto> held_commitment 10] \<and> t_hash map_trie (commitment_trie (mem s2)) = [7 \<mapsto> held_commitment 10]"
proof -
  have "commits (mem before_block) = [7 \<mapsto> held_commitment 10]" "t_hash map_trie (commitment_trie (mem before_block)) = [7 \<mapsto> held_commitment 10]"
    by (simp_all add: before_block_def commits_holding holding_db_simps map_trie_def)
  then show ?thesis
    using restart_restores_state [OF map_trie_ok map_merge_ok sample_xdr_ok sample_cursor_ok one_range sample_pending] by simp
qed

theorem rewind_restores_accounts_witness:
  "\<exists>s1 s2. commit_persistence_thunks (\<lambda>k a. a) 1 after_payment = Inr s1 \<and>
    clear_persistence_thunks_and_reload (\<lambda>k a. a) sample_dec map_trie 1 s1 = Inr s2 \<and>
    commits (mem s2) = [7 \<mapsto> held_commitment 10] \<and> map acct_owner (contents (mem s2)) = [7] \<and> persistence_thunks s2 = []"
proof -
  have "commits (mem before_block) = [7 \<mapsto> held_commitment 10]" "map acct_owner (contents (mem before_block)) = [7]"
    by (simp_all add: before_block_def commits_holding holding_db_simps held_facts)
  then show ?thesis using rewind_restores_accounts [OF map_trie_ok sample_xdr_ok sample_pending] by simp
qed

theorem rewind_keeps_abandoned_commitments_witness:
  "\<exists>s1 s2. commit_persistence_thunks (\<lambda>k a. a) 1 after_payment = Inr s1 \<and>
    clear_persistence_thunks_and_reload (\<lambda>k a. a) sample_dec map_trie 1 s1 = Inr s2 \<and>
    commitment_trie (mem s2) 7 = Some (held_commitment 15) \<and> commitment_trie (mem s2) 7 \<noteq> commits (mem s2) 7"
proof -
  have c: "commits (mem before_block) = [7 \<mapsto> held_commitment 10]" "commits (mem after_payment) = [7 \<mapsto> held_commitment 15]"
    by (simp_all add: before_block_def after_payment_def commits_holding)
  then have d: "7 \<in> dom (commits (mem before_block))" "commits (mem after_payment) 7 \<noteq> commits (mem before_block) 7"
    by (simp_all add: held_commitment_def)
  show ?thesis using rewind_keeps_abandoned_commitments [OF map_trie_ok sample_xdr_ok sample_pending d] c(2) by simp
qed

theorem crash_recovery_completes_witness:
  "\<exists>L1 L2. persist_thunks (\<lambda>k a. a) [\<lparr>kvs = [(7, [1])], pt_block_number = 2\<rparr>] 2 False sample_lmdb = Inr L1 \<and>
    persist_thunks (\<lambda>k a. a) [\<lparr>kvs = [(7, [1])], pt_block_number = 2\<rparr>] 2 True
      (reopened ((shards sample_lmdb)[0 := \<lparr>sh_data = [7 \<mapsto> [1]], sh_round = 2, sh_hash_key = [], sh_saved_key = None\<rparr>]) sample_lmdb) = Inr L2 \<and>
    shards L2 = shards L1 \<and> assert_snapshot_and_get_persisted_round_number L2 = Inr 2"
proof -
  let ?ths = "[\<lparr>kvs = [(7, [1])], pt_block_number = 2\<rparr>]"
  have "shard_commits (\<lambda>k a. a) ?ths 2 (shards sample_lmdb) ((shards sample_lmdb)[0 := \<lparr>sh_data = [7 \<mapsto> [1]], sh_round = 2, sh_hash_key = [], sh_saved_key = None\<rparr>])"
    by (rule shard_commits.commit [OF shard_commits.none, of _ _ _ _ _ False])
      (simp_all add: sample_lmdb_def exec_thunks_def exec_one_thunk_def owns_account_def get_shard_def NUM_ACCOUNT_DB_SHARDS_def u64_def)
  then show ?thesis
    by (rule crash_recovery_completes [rotated 4]) (simp_all add: msgs_ok_def sample_lmdb_def ascending_from_def)
qed

end
