(* ===== verification/Header_Hash_Map.thy ===== *)
theory Header_Hash_Map
  imports Prelude "HOL-Library.List_Lexorder"
begin

text \<open>
  The map from block numbers to block hashes (\<^verbatim>\<open>header_hash/block_header_hash_map.{h,cc}\<close>): a Merkle trie in
  memory, a table on disk, and the number of the last block inserted. Trie, serialization, hash and LMDB are code
  outside the repository: the argument \<open>header_env\<close> holds their operations and \<open>header_env_ok\<close> what is
  documented of them. The lemmas show that the map implements a chain, a list of hashes with a persisted prefix.
\<close>

section \<open>The code outside the repository\<close>

record 'h header_hash_value =
  hv_hash :: 'h
  validation_success :: nat

text \<open>
  \<open>hx_write\<close> and \<open>hx_read\<close> are \<^verbatim>\<open>write_unsigned_big_endian\<close> and \<^verbatim>\<open>read_unsigned_big_endian\<close> on a trie
  key, \<open>hx_encode\<close> and \<open>hx_decode\<close> are the XDR form of a value, and \<open>hx_cursor\<close> lists a table in the
  order of an LMDB cursor.
\<close>

record ('t, 'h) header_env =
  hx_write :: "nat \<Rightarrow> nat list"
  hx_read :: "nat list \<Rightarrow> nat"
  hx_new :: 't
  hx_insert :: "nat list \<Rightarrow> 'h header_hash_value \<Rightarrow> 't \<Rightarrow> 't"
  hx_get_value :: "nat list \<Rightarrow> 't \<Rightarrow> 'h header_hash_value option"
  hx_perform_deletion :: "nat list \<Rightarrow> 't \<Rightarrow> bool \<times> 't"
  hx_hash :: "'t \<Rightarrow> 'h"
  hx_encode :: "'h header_hash_value \<Rightarrow> nat list"
  hx_decode :: "nat list \<Rightarrow> 'h header_hash_value option"
  hx_cursor :: "(nat list \<rightharpoonup> nat list) \<Rightarrow> (nat list \<times> nat list) list"

definition header_env_ok :: "('t, 'h) header_env \<Rightarrow> bool" where
  "header_env_ok X \<longleftrightarrow>
     (\<forall>n < 2 ^ 64. hx_read X (hx_write X n) = n)
     \<and> (\<forall>k. hx_get_value X k (hx_new X) = None)
     \<and> (\<forall>k v t. hx_get_value X k t = None \<longrightarrow> (\<forall>l. hx_get_value X l (hx_insert X k v t) = (if l = k then Some v else hx_get_value X l t)))
     \<and> (\<forall>k t. fst (hx_perform_deletion X k t) \<longleftrightarrow> hx_get_value X k t \<noteq> None)
     \<and> (\<forall>k l t. hx_get_value X l (snd (hx_perform_deletion X k t)) = (if l = k then None else hx_get_value X l t))
     \<and> (\<forall>t t'. (\<forall>k. hx_get_value X k t = hx_get_value X k t') \<longrightarrow> hx_hash X t = hx_hash X t')
     \<and> (\<forall>v. hx_decode X (hx_encode X v) = Some v)
     \<and> (\<forall>m. finite (dom m) \<longrightarrow> distinct (map fst (hx_cursor X m)) \<and> map_of (hx_cursor X m) = m)"

section \<open>State\<close>

text \<open>\<open>hl_open\<close> is \<^verbatim>\<open>operator bool\<close> of the LMDB instance.\<close>

record header_lmdb =
  hl_open :: bool
  hl_data :: "nat list \<rightharpoonup> nat list"
  hl_round :: nat

record 't header_map =
  block_map :: 't
  lmdb_instance :: header_lmdb
  last_committed_block_number :: nat

definition hm_init :: "('t, 'h) header_env \<Rightarrow> header_lmdb \<Rightarrow> 't header_map" where
  "hm_init X L = \<lparr>block_map = hx_new X, lmdb_instance = L, last_committed_block_number = 0\<rparr>"

definition hm_get_persisted_round_number :: "'t header_map \<Rightarrow> nat" where
  "hm_get_persisted_round_number hm = hl_round (lmdb_instance hm)"

definition hm_hash :: "('t, 'h) header_env \<Rightarrow> 't header_map \<Rightarrow> 'h" where
  "hm_hash X hm = hx_hash X (block_map hm)"

section \<open>Operations\<close>

text \<open>\<open>h\<close> is the hash of the block.\<close>

definition hm_insert :: "('t, 'h) header_env \<Rightarrow> nat \<Rightarrow> 'h \<Rightarrow> bool \<Rightarrow> 't header_map \<Rightarrow> 't header_map result" where
  "hm_insert X block_number h res hm =
     (if block_number = 0 then Inl (RuntimeError ''should never insert genesis hash!'')
      else if block_number \<noteq> u64 (last_committed_block_number hm + 1) then Inl (RuntimeError ''inserting wrong block number'')
      else Inr (hm\<lparr>block_map := hx_insert X (hx_write X block_number)
                     \<lparr>hv_hash = h, validation_success = (if res then 1 else 0)\<rparr> (block_map hm),
                   last_committed_block_number := block_number\<rparr>))"

fun hm_persist_loop :: "('t, 'h) header_env \<Rightarrow> nat list \<Rightarrow> 't \<Rightarrow> (nat list \<rightharpoonup> nat list) \<Rightarrow> (nat list \<rightharpoonup> nat list) result" where
  "hm_persist_loop X [] t data = Inr data"
| "hm_persist_loop X (i # is) t data =
     (if i = 0 then hm_persist_loop X is t data
      else case hx_get_value X (hx_write X i) t of
        None \<Rightarrow> Inl (RuntimeError ''did not find hash in hash_map!'')
      | Some v \<Rightarrow> hm_persist_loop X is t (data(hx_write X i \<mapsto> hx_encode X v)))"

definition hm_persist_lmdb :: "('t, 'h) header_env \<Rightarrow> nat \<Rightarrow> 't header_map \<Rightarrow> 't header_map result" where
  "hm_persist_lmdb X current_block_number hm =
     (let L = lmdb_instance hm
      in if \<not> hl_open L then Inr hm
         else bind_result (hm_persist_loop X [hl_round L..<Suc current_block_number] (block_map hm) (hl_data L))
           (\<lambda>data. Inr (hm\<lparr>lmdb_instance := L\<lparr>hl_data := data, hl_round := current_block_number\<rparr>\<rparr>)))"

fun hm_delete_loop :: "('t, 'h) header_env \<Rightarrow> nat list \<Rightarrow> 't \<Rightarrow> 't result" where
  "hm_delete_loop X [] t = Inr t"
| "hm_delete_loop X (i # is) t =
     (if i = 0 then hm_delete_loop X is t
      else case hx_perform_deletion X (hx_write X i) t of
        (deleted, t') \<Rightarrow>
          if \<not> deleted then Inl (RuntimeError ''error when deleting from header hash map'') else hm_delete_loop X is t')"

definition rollback_to_committed_round :: "('t, 'h) header_env \<Rightarrow> nat \<Rightarrow> 't header_map \<Rightarrow> 't header_map result" where
  "rollback_to_committed_round X committed_block_number hm =
     (if committed_block_number < hl_round (lmdb_instance hm) then Inl (RuntimeError ''cant rollback beyond lmdb persist'')
      else bind_result (hm_delete_loop X [u64 (committed_block_number + 1)..<Suc (last_committed_block_number hm)] (block_map hm))
        (\<lambda>t. Inr (hm\<lparr>block_map := t, last_committed_block_number := committed_block_number\<rparr>)))"

fun hm_load_loop :: "('t, 'h) header_env \<Rightarrow> nat \<Rightarrow> (nat list \<times> nat list) list \<Rightarrow> 't \<Rightarrow> 't result" where
  "hm_load_loop X persisted [] t = Inr t"
| "hm_load_loop X persisted ((k, msg) # kvs) t =
     (let round_number = hx_read X k
      in if round_number > persisted then Inl (RuntimeError ''lmdb contains round idx beyond committed max'')
         else case hx_decode X msg of
           None \<Rightarrow> Inl (RuntimeError ''xdr'')
         | Some v \<Rightarrow> hm_load_loop X persisted kvs (hx_insert X (hx_write X round_number) v t))"

definition hm_load_lmdb_contents_to_memory :: "('t, 'h) header_env \<Rightarrow> 't header_map \<Rightarrow> 't header_map result" where
  "hm_load_lmdb_contents_to_memory X hm =
     (let L = lmdb_instance hm
      in bind_result (hm_load_loop X (hl_round L) (hx_cursor X (hl_data L)) (block_map hm))
           (\<lambda>t. Inr (hm\<lparr>block_map := t, last_committed_block_number := hl_round L\<rparr>)))"

definition hm_get :: "('t, 'h) header_env \<Rightarrow> nat \<Rightarrow> 't header_map \<Rightarrow> 'h header_hash_value option result" where
  "hm_get X round_number hm =
     (if round_number > hm_get_persisted_round_number hm then Inr None
      else case hx_get_value X (hx_write X round_number) (block_map hm) of
        None \<Rightarrow> Inl (RuntimeError ''failed to load hash that lmdb should have'')
      | Some v \<Rightarrow> Inr (Some v))"

text \<open>While a block is replayed, the insertion happens only if the table on disk does not have it.\<close>

definition insert_for_loading ::
  "('t, 'h) header_env \<Rightarrow> nat \<Rightarrow> nat \<Rightarrow> 'h \<Rightarrow> bool \<Rightarrow> 't header_map \<Rightarrow> 't header_map result" where
  "insert_for_loading X current_block_number block_number h res hm =
     (if hm_get_persisted_round_number hm < current_block_number then hm_insert X block_number h res hm else Inr hm)"

section \<open>The abstract chain\<close>

text \<open>
  A chain is the list of the hashes of blocks \<open>1, 2, \<dots>\<close> and the number of those on disk. \<open>None\<close> stands for
  an exception. A restart forgets the memory and loads the disk.
\<close>

datatype 'h hm_op = Insert nat 'h bool | Persist nat | Rollback nat | Restart

type_synonym 'h chain = "'h header_hash_value list \<times> nat"

fun chain_exec :: "'h hm_op \<Rightarrow> 'h chain \<Rightarrow> 'h chain option" where
  "chain_exec (Insert n h res) (cs, p) =
     (if n = Suc (length cs) then Some (cs @ [\<lparr>hv_hash = h, validation_success = of_bool res\<rparr>], p) else None)"
| "chain_exec (Persist n) (cs, p) = (if n \<le> length cs then Some (cs, n) else None)"
| "chain_exec (Rollback n) (cs, p) = (if p \<le> n then Some (take n cs, p) else None)"
| "chain_exec Restart (cs, p) = Some (take p cs, p)"

text \<open>The callers persist forward, roll back to an existing block, and never reach the last block number.\<close>

fun chain_pre :: "'h hm_op \<Rightarrow> 'h chain \<Rightarrow> bool" where
  "chain_pre (Insert n h res) (cs, p) \<longleftrightarrow> Suc (Suc (length cs)) < 2 ^ 64"
| "chain_pre (Persist n) (cs, p) \<longleftrightarrow> p \<le> n"
| "chain_pre (Rollback n) (cs, p) \<longleftrightarrow> n \<le> length cs"
| "chain_pre Restart c \<longleftrightarrow> True"

fun hm_exec :: "('t, 'h) header_env \<Rightarrow> 'h hm_op \<Rightarrow> 't header_map \<Rightarrow> 't header_map result" where
  "hm_exec X (Insert n h res) hm = hm_insert X n h res hm"
| "hm_exec X (Persist n) hm = hm_persist_lmdb X n hm"
| "hm_exec X (Rollback n) hm = rollback_to_committed_round X n hm"
| "hm_exec X Restart hm = hm_load_lmdb_contents_to_memory X (hm_init X (lmdb_instance hm))"

fun hm_exec_all :: "('t, 'h) header_env \<Rightarrow> 'h hm_op list \<Rightarrow> 't header_map \<Rightarrow> 't header_map result" where
  "hm_exec_all X [] hm = Inr hm"
| "hm_exec_all X (o1 # os) hm = bind_result (hm_exec X o1 hm) (hm_exec_all X os)"

fun chain_exec_all :: "'h hm_op list \<Rightarrow> 'h chain \<Rightarrow> 'h chain option" where
  "chain_exec_all [] c = Some c"
| "chain_exec_all (o1 # os) c = Option.bind (chain_exec o1 c) (chain_exec_all os)"

fun chain_pre_all :: "'h hm_op list \<Rightarrow> 'h chain \<Rightarrow> bool" where
  "chain_pre_all [] c \<longleftrightarrow> True"
| "chain_pre_all (o1 # os) c \<longleftrightarrow> chain_pre o1 c \<and> (case chain_exec o1 c of None \<Rightarrow> True | Some c' \<Rightarrow> chain_pre_all os c')"

text \<open>The value at block \<open>n\<close> of a chain, and the two representations of it.\<close>

definition chain_at :: "'h header_hash_value list \<Rightarrow> nat \<Rightarrow> 'h header_hash_value option" where
  "chain_at cs n = (if 0 < n \<and> n \<le> length cs then Some (cs ! (n - 1)) else None)"

definition holds_chain :: "('t, 'h) header_env \<Rightarrow> 't \<Rightarrow> 'h header_hash_value list \<Rightarrow> bool" where
  "holds_chain X t cs \<longleftrightarrow> (\<forall>k. hx_get_value X k t =
     (if \<exists>n<2 ^ 64. k = hx_write X n then chain_at cs (hx_read X k) else None))"

definition stores_chain :: "('t, 'h) header_env \<Rightarrow> (nat list \<rightharpoonup> nat list) \<Rightarrow> 'h header_hash_value list \<Rightarrow> bool" where
  "stores_chain X data cs \<longleftrightarrow> (\<forall>k. data k =
     (if \<exists>n<2 ^ 64. k = hx_write X n then map_option (hx_encode X) (chain_at cs (hx_read X k)) else None))"

definition is_chain :: "('t, 'h) header_env \<Rightarrow> 't header_map \<Rightarrow> 'h chain \<Rightarrow> bool" where
  "is_chain X hm c \<longleftrightarrow> (case c of (cs, p) \<Rightarrow>
     length cs < 2 ^ 64 - 1 \<and> p \<le> length cs \<and> last_committed_block_number hm = length cs \<and> holds_chain X (block_map hm) cs
     \<and> hl_open (lmdb_instance hm) \<and> hl_round (lmdb_instance hm) = p \<and> stores_chain X (hl_data (lmdb_instance hm)) (take p cs))"

section \<open>The operations implement the chain\<close>

lemma chain_at_snoc: "chain_at (cs @ [v]) n = (if n = Suc (length cs) then Some v else chain_at cs n)"
  by (auto simp: chain_at_def nth_append)

lemma chain_at_take: "chain_at (take p cs) n = (if n \<le> p then chain_at cs n else None)"
  by (auto simp: chain_at_def)

lemma chain_at_zero [simp]: "chain_at cs 0 = None"
  by (simp add: chain_at_def)

lemma chain_at_None: "chain_at cs n = None \<longleftrightarrow> n = 0 \<or> length cs < n"
  by (auto simp: chain_at_def)

lemma read_write: "header_env_ok X \<Longrightarrow> n < 2 ^ 64 \<Longrightarrow> hx_read X (hx_write X n) = n"
  by (simp add: header_env_ok_def)

lemma write_inj: "header_env_ok X \<Longrightarrow> n < 2 ^ 64 \<Longrightarrow> m < 2 ^ 64 \<Longrightarrow> hx_write X n = hx_write X m \<longleftrightarrow> n = m"
  by (metis read_write)

lemma write_inj_on: "header_env_ok X \<Longrightarrow> inj_on (hx_write X) {..<2 ^ 64}"
  using write_inj by (metis inj_onI lessThan_iff)

lemma holds_at: "header_env_ok X \<Longrightarrow> holds_chain X t cs \<Longrightarrow> n < 2 ^ 64 \<Longrightarrow> hx_get_value X (hx_write X n) t = chain_at cs n"
  by (auto simp: holds_chain_def read_write)

lemma holds_new: "header_env_ok X \<Longrightarrow> holds_chain X (hx_new X) []"
  by (auto simp: holds_chain_def header_env_ok_def chain_at_def)

lemma holds_insert:
  assumes ok: "header_env_ok X" and h: "holds_chain X t cs" and n: "Suc (length cs) < 2 ^ 64"
  shows "holds_chain X (hx_insert X (hx_write X (Suc (length cs))) v t) (cs @ [v])"
proof -
  have "hx_get_value X (hx_write X (Suc (length cs))) t = None"
    using holds_at [OF ok h n] by (simp add: chain_at_None)
  then have "hx_get_value X l (hx_insert X (hx_write X (Suc (length cs))) v t)
      = (if l = hx_write X (Suc (length cs)) then Some v else hx_get_value X l t)" for l
    using ok by (simp add: header_env_ok_def)
  then show ?thesis
    using h n by (auto simp: holds_chain_def chain_at_snoc read_write [OF ok] write_inj [OF ok])
qed

lemma stores_put:
  assumes ok: "header_env_ok X" and st: "stores_chain X data (take q cs)"
    and i: "0 < i" "i \<le> Suc q" "i \<le> length cs" "i < 2 ^ 64"
  shows "stores_chain X (data(hx_write X i \<mapsto> hx_encode X (cs ! (i - 1)))) (take (max q i) cs)"
proof -
  have "chain_at cs i = Some (cs ! (i - 1))" using i by (simp add: chain_at_def)
  then show ?thesis
    using st i by (auto simp: stores_chain_def chain_at_take read_write [OF ok] write_inj [OF ok] max_def)
qed

lemma persist_loop_stores:
  assumes ok: "header_env_ok X" and h: "holds_chain X t cs" and n: "n \<le> length cs" and len: "length cs < 2 ^ 64"
  shows "i \<le> Suc q \<Longrightarrow> q \<le> n \<Longrightarrow> stores_chain X data (take q cs) \<Longrightarrow>
    \<exists>data'. hm_persist_loop X [i..<Suc n] t data = Inr data' \<and> stores_chain X data' (take (if i \<le> n then n else q) cs)"
proof (induction "Suc n - i" arbitrary: i q data)
  case (Suc d)
  then have up: "[i..<Suc n] = i # [Suc i..<Suc n]" and le: "i \<le> n" and d: "d = Suc n - Suc i"
    by (simp_all add: upt_conv_Cons del: upt_Suc)
  show ?case
  proof (cases "i = 0")
    case True
    then have "hm_persist_loop X [i..<Suc n] t data = hm_persist_loop X [Suc i..<Suc n] t data" by (subst up) (simp add: True del: upt_Suc)
    moreover have "(if Suc i \<le> n then n else q) = n" using Suc.prems(2) le True by auto
    ultimately show ?thesis using Suc.hyps(1) [of "Suc i" q data] Suc.prems Suc.hyps(2) le True by (simp del: upt_Suc)
  next
    case False
    then have i: "0 < i" "i \<le> length cs" "i < 2 ^ 64" using le n len by linarith+
    have v: "hx_get_value X (hx_write X i) t = Some (cs ! (i - 1))"
      using holds_at [OF ok h i(3)] i by (simp add: chain_at_def)
    have "stores_chain X (data(hx_write X i \<mapsto> hx_encode X (cs ! (i - 1)))) (take (max q i) cs)"
      using stores_put [OF ok] Suc.prems i by blast
    then obtain data' where "hm_persist_loop X [Suc i..<Suc n] t (data(hx_write X i \<mapsto> hx_encode X (cs ! (i - 1)))) = Inr data'"
        "stores_chain X data' (take (if Suc i \<le> n then n else max q i) cs)"
      using Suc.hyps(1) [OF d, of "max q i"] Suc.prems(1,2) le by (auto simp del: upt_Suc)
    moreover have "(if Suc i \<le> n then n else max q i) = n" using le Suc.prems by auto
    ultimately show ?thesis using le False by (simp add: up v del: upt_Suc)
  qed
qed simp

lemma persist_loop_missing:
  assumes ok: "header_env_ok X" and h: "holds_chain X t cs" and len: "length cs < 2 ^ 64 - 1"
  shows "i \<le> Suc (length cs) \<Longrightarrow> length cs < n \<Longrightarrow> \<exists>e. hm_persist_loop X [i..<Suc n] t data = Inl e"
proof (induction "Suc (length cs) - i" arbitrary: i data)
  case 0
  then have i: "i = Suc (length cs)" by simp
  then have "hx_get_value X (hx_write X i) t = None"
    using holds_at [OF ok h, of i] len by (simp add: chain_at_None)
  then show ?case using 0 i by (simp add: upt_conv_Cons del: upt_Suc)
next
  case (Suc d)
  then have up: "[i..<Suc n] = i # [Suc i..<Suc n]" by (simp add: upt_conv_Cons del: upt_Suc)
  have "\<forall>d'. \<exists>e. hm_persist_loop X [Suc i..<Suc n] t d' = Inl e" using Suc by (simp del: upt_Suc)
  then show ?case by (auto simp: up simp del: upt_Suc split: option.split)
qed

lemma delete_loop_effect:
  assumes ok: "header_env_ok X"
  shows "distinct is \<Longrightarrow> \<forall>i\<in>set is. 0 < i \<and> i < 2 ^ 64 \<and> hx_get_value X (hx_write X i) t \<noteq> None \<Longrightarrow>
    \<exists>t'. hm_delete_loop X is t = Inr t' \<and> (\<forall>l. hx_get_value X l t' = (if l \<in> hx_write X ` set is then None else hx_get_value X l t))"
proof (induction "is" arbitrary: t)
  case (Cons i "is")
  obtain d t1 where d: "hx_perform_deletion X (hx_write X i) t = (d, t1)" by fastforce
  have t1: "d" "hx_get_value X l t1 = (if l = hx_write X i then None else hx_get_value X l t)" for l
    using ok Cons.prems(2) d unfolding header_env_ok_def by (metis fst_conv list.set_intros(1), metis snd_conv)
  have "\<forall>j\<in>set is. 0 < j \<and> j < 2 ^ 64 \<and> hx_get_value X (hx_write X j) t1 \<noteq> None"
    using Cons.prems by (auto simp: t1(2) write_inj [OF ok, simplified])
  then obtain t' where "hm_delete_loop X is t1 = Inr t'"
      "\<forall>l. hx_get_value X l t' = (if l \<in> hx_write X ` set is then None else hx_get_value X l t1)"
    using Cons.IH [of t1] Cons.prems(1) by auto
  then show ?case using Cons.prems(2) t1(1) by (intro exI [of _ t']) (auto simp: d t1(2))
qed simp

lemma load_loop_effect:
  assumes ok: "header_env_ok X"
  shows "distinct (map fst kvs) \<Longrightarrow> \<forall>(k, msg)\<in>set kvs. (\<exists>n<2 ^ 64. n \<le> p \<and> k = hx_write X n) \<and> hx_decode X msg \<noteq> None \<Longrightarrow>
    \<forall>k\<in>fst ` set kvs. hx_get_value X k t = None \<Longrightarrow>
    \<exists>t'. hm_load_loop X p kvs t = Inr t' \<and>
      (\<forall>l. hx_get_value X l t' = (case map_of kvs l of None \<Rightarrow> hx_get_value X l t | Some msg \<Rightarrow> hx_decode X msg))"
proof (induction kvs arbitrary: t)
  case (Cons e kvs)
  obtain k msg where e: "e = (k, msg)" by fastforce
  obtain n v where n: "n < 2 ^ 64" "n \<le> p" "k = hx_write X n" and v: "hx_decode X msg = Some v"
    using Cons.prems(2) e by auto
  let ?t = "hx_insert X k v t"
  have g: "hx_get_value X l ?t = (if l = k then Some v else hx_get_value X l t)" for l
    using ok Cons.prems(3) e by (simp add: header_env_ok_def)
  have fresh: "\<forall>k\<in>fst ` set kvs. hx_get_value X k ?t = None" using Cons.prems(1,3) e by (auto simp: g)
  have "\<exists>t'. hm_load_loop X p kvs ?t = Inr t' \<and>
      (\<forall>l. hx_get_value X l t' = (case map_of kvs l of None \<Rightarrow> hx_get_value X l ?t | Some msg \<Rightarrow> hx_decode X msg))"
    using Cons.prems fresh by (intro Cons.IH) simp_all
  moreover have "map_of kvs k = None" using Cons.prems(1) e by (simp add: map_of_eq_None_iff)
  ultimately show ?case using n v by (auto simp: e read_write [OF ok, simplified] g [unfolded n(3)] split: option.split)
qed simp

lemma stores_finite: "stores_chain X data cs \<Longrightarrow> finite (dom data)"
proof -
  assume st: "stores_chain X data cs"
  have "dom data \<subseteq> hx_write X ` {..<2 ^ 64}" using st by (auto simp: stores_chain_def split: if_splits)
  then show ?thesis using finite_subset by blast
qed

lemma load_holds:
  assumes ok: "header_env_ok X" and st: "stores_chain X data cs" and len: "length cs \<le> p"
  shows "\<exists>t. hm_load_loop X p (hx_cursor X data) (hx_new X) = Inr t \<and> holds_chain X t cs"
proof -
  have new: "hx_get_value X k (hx_new X) = None" and dec: "hx_decode X (hx_encode X v) = Some v" for k v
    using ok by (simp_all add: header_env_ok_def)
  have cur: "distinct (map fst (hx_cursor X data))" "map_of (hx_cursor X data) = data"
    using ok stores_finite [OF st] by (simp_all add: header_env_ok_def)
  have "\<forall>(k, msg)\<in>set (hx_cursor X data). (\<exists>n<2 ^ 64. n \<le> p \<and> k = hx_write X n) \<and> hx_decode X msg \<noteq> None"
  proof (clarify, intro conjI)
    fix k msg assume "(k, msg) \<in> set (hx_cursor X data)"
    then have "data k = Some msg" using cur by (metis map_of_eq_Some_iff)
    then obtain n v where "n < 2 ^ 64" "k = hx_write X n" "chain_at cs n = Some v" "msg = hx_encode X v"
      using st by (auto simp: stores_chain_def read_write [OF ok, simplified] split: if_splits)
    then show "\<exists>n<2 ^ 64. n \<le> p \<and> k = hx_write X n" "hx_decode X msg \<noteq> None"
      using len dec by (auto simp: chain_at_def split: if_splits)
  qed
  from load_loop_effect [OF ok cur(1) this, of "hx_new X", unfolded cur(2)] new
  obtain t where t: "hm_load_loop X p (hx_cursor X data) (hx_new X) = Inr t"
      "\<forall>l. hx_get_value X l t = (case data l of None \<Rightarrow> hx_get_value X l (hx_new X) | Some msg \<Rightarrow> hx_decode X msg)"
    by metis
  have "holds_chain X t cs"
    unfolding holds_chain_def using st t(2) by (auto simp: stores_chain_def dec new split: option.split)
  then show ?thesis using t(1) by blast
qed

lemma rollback_holds:
  assumes ok: "header_env_ok X" and h: "holds_chain X t cs" and len: "length cs < 2 ^ 64 - 1" and n: "n \<le> length cs"
  shows "\<exists>t'. hm_delete_loop X [u64 (n + 1)..<Suc (length cs)] t = Inr t' \<and> holds_chain X t' (take n cs)"
proof -
  have u: "u64 (n + 1) = Suc n" using n len by simp
  have at: "hx_get_value X (hx_write X i) t = chain_at cs i" if "i \<le> length cs" for i
    using holds_at [OF ok h] that len by simp
  have "\<forall>i\<in>set [Suc n..<Suc (length cs)]. 0 < i \<and> i < 2 ^ 64 \<and> hx_get_value X (hx_write X i) t \<noteq> None"
    using len at by (auto simp: chain_at_def)
  then obtain t' where t': "hm_delete_loop X [Suc n..<Suc (length cs)] t = Inr t'"
      "\<forall>l. hx_get_value X l t' = (if l \<in> hx_write X ` set [Suc n..<Suc (length cs)] then None else hx_get_value X l t)"
    using delete_loop_effect [OF ok, of "[Suc n..<Suc (length cs)]" t] by (auto simp del: upt_Suc)
  have mem: "hx_write X i \<in> hx_write X ` set [Suc n..<Suc (length cs)] \<longleftrightarrow> n < i \<and> i \<le> length cs" if "i < 2 ^ 64" for i
  proof -
    have "set [Suc n..<Suc (length cs)] \<subseteq> {..<2 ^ 64}" using len by (auto simp del: upt_Suc)
    then show ?thesis using inj_on_image_mem_iff [OF write_inj_on [OF ok], of i] that by (auto simp del: upt_Suc)
  qed
  have "hx_get_value X k t' = (if \<exists>n<2 ^ 64. k = hx_write X n then chain_at (take n cs) (hx_read X k) else None)" for k
  proof (cases "\<exists>i<2 ^ 64. k = hx_write X i")
    case True
    then obtain i where i: "i < 2 ^ 64" "k = hx_write X i" by blast
    then show ?thesis
      using t'(2) mem [OF i(1)] holds_at [OF ok h i(1)] chain_at_None [of cs i] read_write [OF ok i(1)]
      by (auto simp: chain_at_take simp del: upt_Suc set_upt)
  next
    case False
    then have "hx_get_value X k t = None" using h by (auto simp: holds_chain_def)
    then show ?thesis using t'(2) False by (auto simp del: upt_Suc set_upt)
  qed
  then show ?thesis using t'(1) u by (auto simp: holds_chain_def simp del: upt_Suc)
qed

lemma hm_exec_refines:
  assumes ok: "header_env_ok X" and rel: "is_chain X hm c" and pre: "chain_pre op c"
  shows "case chain_exec op c of None \<Rightarrow> \<exists>e. hm_exec X op hm = Inl e
    | Some c' \<Rightarrow> \<exists>hm'. hm_exec X op hm = Inr hm' \<and> is_chain X hm' c'"
proof -
  obtain cs p where c: "c = (cs, p)" by fastforce
  note r = rel [unfolded is_chain_def c prod.case]
  show ?thesis
  proof (cases op)
    case (Insert n h res)
    have "u64 (length cs + 1) = Suc (length cs)" using r by simp
    moreover have "of_bool res = (if res then 1 else 0 :: nat)" by simp
    moreover have "stores_chain X (hl_data (lmdb_instance hm)) (take p (cs @ [v]))" for v using r by simp
    ultimately show ?thesis
      using r pre holds_insert [OF ok, of "block_map hm" cs]
      by (auto simp: Insert c hm_insert_def is_chain_def simp del: of_bool_eq_1_iff)
  next
    case (Persist n)
    then show ?thesis
      using r pre persist_loop_stores [OF ok, of "block_map hm" cs n p p "hl_data (lmdb_instance hm)"]
        persist_loop_missing [OF ok, of "block_map hm" cs p n "hl_data (lmdb_instance hm)"]
      by (auto simp: c hm_persist_lmdb_def is_chain_def not_le simp del: upt_Suc)
  next
    case (Rollback n)
    then show ?thesis
      using r pre rollback_holds [OF ok, of "block_map hm" cs n]
      by (auto simp: c rollback_to_committed_round_def is_chain_def min_def simp del: upt_Suc)
  next
    case Restart
    then show ?thesis
      using r load_holds [OF ok, of "hl_data (lmdb_instance hm)" "take p cs" p]
      by (auto simp: c hm_load_lmdb_contents_to_memory_def hm_init_def is_chain_def Let_def)
  qed
qed

section \<open>Properties\<close>

text \<open>
  Property C14. The header hash map implements a chain of block hashes with a persisted prefix. Take any sequence, started on
  an empty map, of insertions below the last block number of 64 bits, writes to disk that do not go below the persisted
  round, rollbacks to blocks that are not past the end of the chain, and restarts from disk. An operation throws exactly when
  it is refused on the chain (a block out of sequence, a write past the end of the chain, a rollback below the persisted
  prefix); otherwise memory and disk hold exactly the chain and its persisted prefix, and \<^verbatim>\<open>get\<close> returns the hash
  and the verdict of every persisted block and nothing for later ones.
\<close>

theorem header_map_refines_chain:
  assumes ok: "header_env_ok X" and pre: "chain_pre_all ops ([], 0)"
  shows "case chain_exec_all ops ([], 0) of
      None \<Rightarrow> \<exists>e. hm_exec_all X ops (hm_init X \<lparr>hl_open = True, hl_data = Map.empty, hl_round = 0\<rparr>) = Inl e
    | Some (cs, p) \<Rightarrow> \<exists>hm. hm_exec_all X ops (hm_init X \<lparr>hl_open = True, hl_data = Map.empty, hl_round = 0\<rparr>) = Inr hm
        \<and> is_chain X hm (cs, p)
        \<and> (\<forall>n. 0 < n \<longrightarrow> n < 2 ^ 64 \<longrightarrow> hm_get X n hm = Inr (if n \<le> p then Some (cs ! (n - 1)) else None))"
proof -
  have run: "is_chain X hm c \<Longrightarrow> chain_pre_all ops c \<Longrightarrow>
      case chain_exec_all ops c of None \<Rightarrow> \<exists>e. hm_exec_all X ops hm = Inl e
      | Some c' \<Rightarrow> \<exists>hm'. hm_exec_all X ops hm = Inr hm' \<and> is_chain X hm' c'" for hm c
  proof (induction ops arbitrary: hm c)
    case (Cons op ops)
    show ?case
    proof (cases "chain_exec op c")
      case None
      then show ?thesis using hm_exec_refines [OF ok Cons.prems(1), of op] Cons.prems(2) by auto
    next
      case (Some c1)
      then obtain hm1 where "hm_exec X op hm = Inr hm1" "is_chain X hm1 c1"
        using hm_exec_refines [OF ok Cons.prems(1), of op] Cons.prems(2) by auto
      then show ?thesis using Cons.IH [of hm1 c1] Cons.prems(2) Some by (auto split: option.splits)
    qed
  qed simp
  have get: "hm_get X n hm = Inr (if n \<le> p then Some (cs ! (n - 1)) else None)"
    if "is_chain X hm (cs, p)" "0 < n" "n < 2 ^ 64" for hm cs p n
    using that holds_at [OF ok _ that(3), of "block_map hm" cs]
    by (auto simp: hm_get_def hm_get_persisted_round_number_def is_chain_def chain_at_def)
  have "is_chain X (hm_init X \<lparr>hl_open = True, hl_data = Map.empty, hl_round = 0\<rparr>) ([], 0)"
    using holds_new [OF ok] by (auto simp: is_chain_def hm_init_def stores_chain_def chain_at_def)
  from run [OF this pre] show ?thesis using get by (auto split: option.splits)
qed

text \<open>Maps as trie and table, sorted keys as the order of a cursor, big-endian keys, and numbers as hashes.\<close>

definition sample_header_env :: "(nat list \<rightharpoonup> nat header_hash_value, nat) header_env" where
  "sample_header_env =
     \<lparr>hx_write = be_bytes 8, hx_read = be_value, hx_new = Map.empty,
      hx_insert = (\<lambda>k v t. t(k \<mapsto> v)), hx_get_value = (\<lambda>k t. t k),
      hx_perform_deletion = (\<lambda>k t. (t k \<noteq> None, t(k := None))), hx_hash = (\<lambda>t. 0),
      hx_encode = (\<lambda>v. [hv_hash v, validation_success v]),
      hx_decode = (\<lambda>bs. case bs of [h, s] \<Rightarrow> Some \<lparr>hv_hash = h, validation_success = s\<rparr> | _ \<Rightarrow> None),
      hx_cursor = (\<lambda>m. map (\<lambda>k. (k, the (m k))) (sorted_list_of_set (dom m)))\<rparr>"

lemma sample_header_env_ok: "header_env_ok sample_header_env"
proof -
  have "map_of (map (\<lambda>k. (k, the (m k))) (sorted_list_of_set (dom m))) k = m k" if "finite (dom m)" for m :: "nat list \<rightharpoonup> nat list" and k
    using that by (auto simp: map_of_map_keys map_of_eq_None_iff restrict_map_def domIff)
  then show ?thesis
    by (auto simp: header_env_ok_def sample_header_env_def be_value_be_bytes comp_def)
qed

theorem header_map_refines_chain_witness:
  "\<exists>hm. hm_exec_all sample_header_env [Insert 1 70 True, Insert 2 80 False, Persist 1, Insert 3 90 True, Rollback 2, Persist 2, Restart]
      (hm_init sample_header_env \<lparr>hl_open = True, hl_data = Map.empty, hl_round = 0\<rparr>) = Inr hm
    \<and> last_committed_block_number hm = 2
    \<and> hm_get sample_header_env 2 hm = Inr (Some \<lparr>hv_hash = 80, validation_success = 0\<rparr>)"
proof -
  let ?ops = "[Insert 1 70 True, Insert 2 80 False, Persist 1, Insert 3 90 True, Rollback 2, Persist 2, Restart]"
  have "chain_pre_all ?ops ([], 0)" by simp
  from header_map_refines_chain [OF sample_header_env_ok this] show ?thesis by (auto simp: is_chain_def)
qed

end
