(* ===== verification/Speedex_Operation.thy ===== *)
theory Speedex_Operation
  imports Modification_Log Orderbook_Persistence Account_Persistence Header_Hash_Map
begin

text \<open>
  A block of the exchange from end to end (\<^verbatim>\<open>speedex/speedex_operation.{h,cc}\<close>,
  \<^verbatim>\<open>speedex/autorollback_validation_structures.{h,cc}\<close>, \<^verbatim>\<open>speedex/speedex_management_structures.h\<close>,
  \<^verbatim>\<open>speedex/speedex_persistence.cc\<close>): the structures of a node, the structures that undo the changes of a block that
  is rejected, validation and production of a block. Everything outside the repository is in the argument
  \<open>speedex_env\<close>; the prices and the clearing parameters of price computation are arguments of block production. File
  descriptors of the log, measurements and diagnostic output are left out. The lemmas show what a rejected block
  leaves behind.
\<close>

section \<open>Blocks and the structures of a node\<close>

record 'h internal_hashes =
  dbHash :: 'h
  clearingDetails :: "'h single_orderbook_state_commitment list"
  modificationLogHash :: 'h
  blockMapHash :: 'h

record 'h block =
  prevBlockHash :: 'h
  blockNumber :: nat
  prices :: "price list"
  feeRate :: nat
  internalHashes :: "'h internal_hashes"

record 'h hashed_block =
  hb_block :: "'h block"
  hb_hash :: 'h

text \<open>
  The tries, serializers, hash functions and compile-time switches a node uses: \<open>se_log_detailed\<close> is
  \<^verbatim>\<open>DETAILED_MOD_LOGGING\<close>, \<open>se_check_sigs\<close> the run-time configuration.
\<close>

record ('pk, 'sig, 't, 'ht, 'lt, 'bt, 'h) speedex_env =
  se_offers :: "'t offer_trie"
  se_offer_hash :: "'t \<Rightarrow> 'h"
  se_wr8 :: "offer_key \<Rightarrow> nat \<Rightarrow> nat \<Rightarrow> offer_key"
  se_wr :: "nat \<Rightarrow> nat list"
  se_rd :: "nat list \<Rightarrow> nat"
  se_accounts :: "('ht, 'pk account_commitment, 'h) trie_ops"
  se_default_pk :: 'pk
  se_log :: "('pk, 'sig, 'lt, 'h) tl_trie"
  se_log_sort :: "('pk, 'sig) signed_transaction list \<Rightarrow> ('pk, 'sig) signed_transaction list"
  se_log_detailed :: bool
  se_header :: "('bt, 'h) header_env"
  se_hash_xdr :: "'h block \<Rightarrow> 'h"
  se_zero_hash :: 'h
  se_sig_check :: "'pk transaction \<Rightarrow> 'sig \<Rightarrow> 'pk \<Rightarrow> bool"
  se_check_sigs :: bool

record approximation_parameters =
  ap_tax_rate :: nat
  ap_smooth_mult :: nat

text \<open>The account modification log is the list of the calls made on it, of clearing and of transactions.\<close>

record ('pk, 'sig, 't, 'ht, 'bt) management_structures =
  ms_db :: "('pk, 'ht) persistent_db"
  ms_manager :: "'t orderbook_manager"
  ms_clear_log :: self_log
  ms_log :: "('pk, 'sig) tx_log_event list"
  ms_header_map :: "'bt header_map"
  ms_approx_params :: approximation_parameters

definition ms_set_mem ::
  "('pk, 'ht) memory_database \<Rightarrow> ('pk, 'sig, 't, 'ht, 'bt) management_structures \<Rightarrow> ('pk, 'sig, 't, 'ht, 'bt) management_structures" where
  "ms_set_mem db ms = ms\<lparr>ms_db := (ms_db ms)\<lparr>mem := db\<rparr>\<rparr>"

definition ms_clear_account_log ::
  "('pk, 'sig, 't, 'ht, 'bt) management_structures \<Rightarrow> ('pk, 'sig, 't, 'ht, 'bt) management_structures" where
  "ms_clear_account_log ms = ms\<lparr>ms_clear_log := [], ms_log := []\<rparr>"

section \<open>The account modification log of a node\<close>

fun event_call :: "('pk, 'sig) tx_log_event \<Rightarrow> ('pk, 'sig) log_call" where
  "event_call (NewSelfTransaction tx) = LogTx tx"
| "event_call (OtherModification src op_id target) = LogOther src op_id target"

definition log_calls ::
  "('pk, 'sig, 't, 'ht, 'bt) management_structures \<Rightarrow> ('pk, 'sig) log_call list" where
  "log_calls ms = map event_call (ms_log ms) @ map (\<lambda>(own, sn). LogSelf own sn) (ms_clear_log ms)"

text \<open>The log as one thread builds it; by \<open>modlog_thread_independent\<close> the threads do not matter.\<close>

definition closed_log ::
  "('pk, 'sig, 't, 'ht, 'lt, 'bt, 'h) speedex_env \<Rightarrow> ('pk, 'sig, 't, 'ht, 'bt) management_structures
     \<Rightarrow> ('h \<times> ('pk, 'sig, 'lt) account_modification_log) result" where
  "closed_log E ms =
     close_log (se_log E) (se_log_sort E)
       (fold (log_at (se_log E) (se_log_detailed E)) (map (Pair 0) (log_calls ms)) (new_log (se_log E) 1))"

text \<open>The keys of the log, in the order of its trie.\<close>

definition modified_accounts :: "('pk, 'sig, 't, 'ht, 'bt) management_structures \<Rightarrow> account_id list" where
  "modified_accounts ms = sort (remdups (dirty_accounts (ms_clear_log ms) (ms_log ms)))"

section \<open>Rollback when a block is rejected\<close>

text \<open>
  \<^verbatim>\<open>SpeedexManagementStructuresAutoRollback\<close>: the flags of its members, in the order of their declaration.
\<close>

record autorollback =
  ar_log_do_rollback :: bool
  ar_block_number :: nat
  ar_db_for_validation :: bool
  ar_db_produce_state_commitment :: bool
  ar_manager_for_validation :: bool

definition autorollback_init :: "nat \<Rightarrow> autorollback" where
  "autorollback_init blk =
     \<lparr>ar_log_do_rollback = True, ar_block_number = blk, ar_db_for_validation = False,
      ar_db_produce_state_commitment = False, ar_manager_for_validation = False\<rparr>"

definition ar_db_tentative_commit_for_validation ::
  "('pk, 'sig, 't, 'ht, 'lt, 'bt, 'h) speedex_env \<Rightarrow> autorollback \<times> ('pk, 'sig, 't, 'ht, 'bt) management_structures
     \<Rightarrow> (autorollback \<times> ('pk, 'sig, 't, 'ht, 'bt) management_structures) result" where
  "ar_db_tentative_commit_for_validation E st =
     (case st of (ar, ms) \<Rightarrow>
      bind_result (commit_new_accounts (se_accounts E) (se_default_pk E)
          (min_persisted_round_number (account_lmdb_instance (ms_db ms))) (ar_block_number ar) (mem (ms_db ms)))
        (\<lambda>db. Inr (ar\<lparr>ar_db_for_validation := True\<rparr>, ms_set_mem db ms)))"

definition ar_db_tentative_produce_state_commitment ::
  "('pk, 'sig, 't, 'ht, 'lt, 'bt, 'h) speedex_env \<Rightarrow> autorollback \<times> ('pk, 'sig, 't, 'ht, 'bt) management_structures
     \<Rightarrow> ('h \<times> autorollback \<times> ('pk, 'sig, 't, 'ht, 'bt) management_structures) result" where
  "ar_db_tentative_produce_state_commitment E st =
     (case st of (ar, ms) \<Rightarrow>
      bind_result (tentative_produce_state_commitment (se_accounts E) (modified_accounts ms) (mem (ms_db ms)))
        (\<lambda>(h, db). Inr (h, ar\<lparr>ar_db_produce_state_commitment := True\<rparr>, ms_set_mem db ms)))"

definition ar_db_finalize_commit ::
  "autorollback \<times> ('pk, 'sig, 't, 'ht, 'bt) management_structures
     \<Rightarrow> (autorollback \<times> ('pk, 'sig, 't, 'ht, 'bt) management_structures) result" where
  "ar_db_finalize_commit st =
     (case st of (ar, ms) \<Rightarrow>
      if \<not> ar_db_for_validation ar \<or> \<not> ar_db_produce_state_commitment ar
      then Inl (RuntimeError ''committing from invalid state'')
      else bind_result (commit_values_log (modified_accounts ms) (mem (ms_db ms)))
        (\<lambda>db. Inr (ar\<lparr>ar_db_for_validation := False, ar_db_produce_state_commitment := False\<rparr>, ms_set_mem db ms)))"

definition ar_db_destroy ::
  "('pk, 'sig, 't, 'ht, 'lt, 'bt, 'h) speedex_env \<Rightarrow> autorollback \<Rightarrow> ('pk, 'sig, 't, 'ht, 'bt) management_structures
     \<Rightarrow> ('pk, 'sig, 't, 'ht, 'bt) management_structures result" where
  "ar_db_destroy E ar ms =
     bind_result
       (if ar_db_for_validation ar
        then bind_result (from_ub (rollback_new_accounts (se_accounts E) (ar_block_number ar) (mem (ms_db ms))))
               (\<lambda>db. Inr (ms_set_mem (rollback_values db) ms))
        else Inr ms)
       (\<lambda>ms1.
          if ar_db_produce_state_commitment ar
          then bind_result (rollback_produce_state_commitment (se_accounts E) (modified_accounts ms1) (mem (ms_db ms1)))
                 (\<lambda>db. Inr (ms_set_mem db ms1))
          else Inr ms1)"

definition ar_manager_tentative_commit_for_validation ::
  "('pk, 'sig, 't, 'ht, 'lt, 'bt, 'h) speedex_env \<Rightarrow> autorollback \<times> ('pk, 'sig, 't, 'ht, 'bt) management_structures
     \<Rightarrow> autorollback \<times> ('pk, 'sig, 't, 'ht, 'bt) management_structures" where
  "ar_manager_tentative_commit_for_validation E st =
     (case st of (ar, ms) \<Rightarrow>
      (ar\<lparr>ar_manager_for_validation := True\<rparr>,
       ms\<lparr>ms_manager := commit_for_validation (se_offers E) (ar_block_number ar) (ms_manager ms)\<rparr>))"

definition ar_manager_tentative_clear_offers_for_validation ::
  "('pk, 'sig, 't, 'ht, 'lt, 'bt, 'h) speedex_env \<Rightarrow> nat list list \<Rightarrow> 'h commitment_checker
     \<Rightarrow> (autorollback \<times> ('pk, 'sig, 't, 'ht, 'bt) management_structures) \<times> validation_statistics \<times> block_state_update_stats
     \<Rightarrow> (bool \<times> (autorollback \<times> ('pk, 'sig, 't, 'ht, 'bt) management_structures) \<times> validation_statistics \<times> block_state_update_stats) result" where
  "ar_manager_tentative_clear_offers_for_validation E schedule ck st =
     (case st of ((ar, ms), vs, stats) \<Rightarrow>
      bind_result (om_tentative_clear_offers_for_validation (se_offers E) memory_db (se_rd E) schedule ck
          (ms_manager ms, (mem (ms_db ms), ms_clear_log ms), vs, stats))
        (\<lambda>(res, om, (db, lg), vs', stats').
           Inr (res, (ar\<lparr>ar_manager_for_validation := True\<rparr>, (ms_set_mem db ms)\<lparr>ms_manager := om, ms_clear_log := lg\<rparr>), vs', stats')))"

definition ar_manager_finalize_commit ::
  "('pk, 'sig, 't, 'ht, 'lt, 'bt, 'h) speedex_env \<Rightarrow> autorollback \<times> ('pk, 'sig, 't, 'ht, 'bt) management_structures
     \<Rightarrow> (autorollback \<times> ('pk, 'sig, 't, 'ht, 'bt) management_structures) result" where
  "ar_manager_finalize_commit E st =
     (case st of (ar, ms) \<Rightarrow>
      bind_result (om_finalize_validation (se_offers E) (ms_manager ms))
        (\<lambda>om. Inr (ar\<lparr>ar_manager_for_validation := False\<rparr>, ms\<lparr>ms_manager := om\<rparr>)))"

definition ar_manager_destroy ::
  "('pk, 'sig, 't, 'ht, 'lt, 'bt, 'h) speedex_env \<Rightarrow> autorollback \<Rightarrow> ('pk, 'sig, 't, 'ht, 'bt) management_structures
     \<Rightarrow> ('pk, 'sig, 't, 'ht, 'bt) management_structures result" where
  "ar_manager_destroy E ar ms =
     (if ar_manager_for_validation ar
      then bind_result (om_rollback_validation (se_offers E) (se_wr8 E) (ms_manager ms)) (\<lambda>om. Inr (ms\<lparr>ms_manager := om\<rparr>))
      else Inr ms)"

text \<open>Leaving the scope destroys the members, the last one first; the member for the header map does nothing.\<close>

definition autorollback_destroy ::
  "('pk, 'sig, 't, 'ht, 'lt, 'bt, 'h) speedex_env \<Rightarrow> autorollback \<times> ('pk, 'sig, 't, 'ht, 'bt) management_structures
     \<Rightarrow> ('pk, 'sig, 't, 'ht, 'bt) management_structures result" where
  "autorollback_destroy E st =
     (case st of (ar, ms) \<Rightarrow>
      bind_result (ar_manager_destroy E ar ms) (\<lambda>ms1.
      bind_result (ar_db_destroy E ar ms1) (\<lambda>ms2.
        Inr (if ar_log_do_rollback ar then ms_clear_account_log ms2 else ms2))))"

definition autorollback_finalize_commit ::
  "('pk, 'sig, 't, 'ht, 'lt, 'bt, 'h) speedex_env \<Rightarrow> autorollback \<times> ('pk, 'sig, 't, 'ht, 'bt) management_structures
     \<Rightarrow> (autorollback \<times> ('pk, 'sig, 't, 'ht, 'bt) management_structures) result" where
  "autorollback_finalize_commit E st =
     (case st of (ar, ms) \<Rightarrow>
      bind_result (ar_db_finalize_commit (ar\<lparr>ar_log_do_rollback := False\<rparr>, ms)) (ar_manager_finalize_commit E))"

section \<open>Validating a block\<close>

text \<open>\<^verbatim>\<open>transfer_available\<close> of the unbuffered view, as the validating manager view calls it.\<close>

definition ub_transfer :: "(uptr, 'pk account_creation_view \<times> ('pk, 'ht) memory_database) transfer" where
  "ub_transfer ptr asset change v = snd (ub_transfer_available ptr asset change (fst v) (snd v))"

definition validating_ops ::
  "('pk, 'sig, 't, 'ht, 'lt, 'bt, 'h) speedex_env \<Rightarrow> 'h commitment_checker
     \<Rightarrow> ('pk account_creation_view \<times> ('pk, 'ht) memory_database, 't managers) manager_ops" where
  "validating_ops E ck = validating_manager (se_offers E) (direct_manager (se_offers E)) True (se_wr8 E) ck ub_transfer"

text \<open>
  The call of the validator on the structures of the node: \<open>bodies\<close> is the division of the transactions into
  the tasks of the parallel loop, \<open>n\<close> the number of threads.
\<close>

definition run_validator ::
  "('pk, 'sig, 't, 'ht, 'lt, 'bt, 'h) speedex_env \<Rightarrow> nat \<Rightarrow> (nat \<times> ('pk, 'sig) signed_transaction list list list) list \<Rightarrow> 'h commitment_checker
     \<Rightarrow> ('pk, 'sig, 't, 'ht, 'bt) management_structures \<times> validation_statistics
     \<Rightarrow> (bool \<times> ('pk, 'sig, 't, 'ht, 'bt) management_structures \<times> validation_statistics \<times> block_state_update_stats) result" where
  "run_validator E n bodies ck st =
     (case st of (ms, vs) \<Rightarrow>
      bind_result (validate_transaction_block unbuffered_ops (validating_ops E ck) (direct_manager (se_offers E))
          (se_sig_check E) (se_check_sigs E) bodies
          (\<lparr>va_manager = ms_manager ms, va_validators = replicate n sm_init, va_db = mem (ms_db ms), va_stats = empty_stats,
            va_clear_log = ms_clear_log ms, va_log = ms_log ms\<rparr>, vs))
        (\<lambda>(res, va, vs').
           Inr (res, (ms_set_mem (va_db va) ms)\<lparr>ms_manager := va_manager va, ms_clear_log := va_clear_log va, ms_log := va_log va\<rparr>,
                vs', va_stats va)))"

definition checker_of :: "'h block \<Rightarrow> 'h commitment_checker" where
  "checker_of b = \<lparr>commitments = clearingDetails (internalHashes b), ck_prices = prices b, ck_tax_rate = u8 (feeRate b)\<rparr>"

text \<open>The checks of the header that come before any change; the first one that fails rejects the block.\<close>

definition header_ok ::
  "'h hashed_block \<Rightarrow> 'h hashed_block \<Rightarrow> ('pk, 'sig, 't, 'ht, 'bt) management_structures \<Rightarrow> bool" where
  "header_ok prev expected ms \<longleftrightarrow>
     u64 (blockNumber (hb_block prev) + 1) = blockNumber (hb_block expected)
     \<and> length (prices (hb_block expected)) = num_assets (ms_manager ms)
     \<and> length (clearingDetails (internalHashes (hb_block expected))) = get_num_orderbooks (ms_manager ms)
     \<and> \<not> u32 (feeRate (hb_block expected) + 1) < ap_tax_rate (ms_approx_params ms)
     \<and> prevBlockHash (hb_block expected) = hb_hash prev"

text \<open>\<^verbatim>\<open>debug_hash_discrepancy\<close> always throws; writing the log of a differing modification log throws before it.\<close>

definition debug_hash_discrepancy :: "'h hashed_block \<Rightarrow> 'h block \<Rightarrow> 'a result" where
  "debug_hash_discrepancy expected comparison =
     (if modificationLogHash (internalHashes comparison) \<noteq> modificationLogHash (internalHashes (hb_block expected))
      then Inl (RuntimeError ''dead code path'') else Inl (RuntimeError ''crash immediately on desync''))"

text \<open>From the tentative commit on; every way out goes through the destructor.\<close>

definition validate_state_changes ::
  "('pk, 'sig, 't, 'ht, 'lt, 'bt, 'h) speedex_env \<Rightarrow> nat list list \<Rightarrow> 'h hashed_block \<Rightarrow> 'h hashed_block
     \<Rightarrow> (autorollback \<times> ('pk, 'sig, 't, 'ht, 'bt) management_structures) \<times> validation_statistics \<times> block_state_update_stats
     \<Rightarrow> (bool \<times> ('pk, 'sig, 't, 'ht, 'bt) management_structures) result" where
  "validate_state_changes E schedule prev expected st =
     (case st of (arms, vs, stats) \<Rightarrow>
      let ck = checker_of (hb_block expected);
          reject = (\<lambda>arms. bind_result (autorollback_destroy E arms) (\<lambda>ms. Inr (False, ms)))
      in bind_result (ar_db_tentative_commit_for_validation E arms) (\<lambda>arms1.
         bind_result (ar_manager_tentative_clear_offers_for_validation E schedule ck
             (ar_manager_tentative_commit_for_validation E arms1, vs, stats)) (\<lambda>(clearings_valid, arms2, vs2, stats2).
         if \<not> clearings_valid then reject arms2
         else bind_result (snd (check_stats (se_rd E) ck vs2)) (\<lambda>stats_ok.
         if \<not> stats_ok then reject arms2
         else bind_result (ar_db_tentative_produce_state_commitment E arms2) (\<lambda>(db_hash, arms3).
              bind_result (closed_log E (snd arms3)) (\<lambda>(log_hash, _).
              let comparison = \<lparr>prevBlockHash = hb_hash prev, blockNumber = u64 (blockNumber (hb_block prev) + 1),
                     prices = prices (hb_block expected), feeRate = feeRate (hb_block expected),
                     internalHashes = \<lparr>dbHash = db_hash,
                       clearingDetails = om_hash (se_offer_hash E) (clearingDetails (internalHashes (hb_block expected))) (ms_manager (snd arms3)),
                       modificationLogHash = log_hash, blockMapHash = hm_hash (se_header E) (ms_header_map (snd arms3))\<rparr>\<rparr>
              in if se_hash_xdr E comparison \<noteq> hb_hash expected then debug_hash_discrepancy expected comparison
                 else bind_result (autorollback_finalize_commit E arms3) (\<lambda>arms4.
                      bind_result (autorollback_destroy E arms4) (\<lambda>ms. Inr (True, ms)))))))))"

definition validation_logic ::
  "('pk, 'sig, 't, 'ht, 'lt, 'bt, 'h) speedex_env \<Rightarrow> nat \<Rightarrow> (nat \<times> ('pk, 'sig) signed_transaction list list list) list \<Rightarrow> nat list list
     \<Rightarrow> 'h hashed_block \<Rightarrow> 'h hashed_block \<Rightarrow> ('pk, 'sig, 't, 'ht, 'bt) management_structures
     \<Rightarrow> (bool \<times> ('pk, 'sig, 't, 'ht, 'bt) management_structures) result" where
  "validation_logic E n bodies schedule prev expected ms =
     (if \<not> header_ok prev expected ms then Inr (False, ms)
      else
        let ck = checker_of (hb_block expected); ar = autorollback_init (u64 (blockNumber (hb_block prev) + 1));
            reject = (\<lambda>ms. bind_result (autorollback_destroy E (ar, ms)) (\<lambda>ms'. Inr (False, ms')))
        in bind_result (from_ub (ck_check_clearing (se_rd E) ck)) (\<lambda>clearing_param_res.
           if \<not> clearing_param_res then reject ms
           else bind_result (run_validator E n bodies ck (ms, make_minimum_size (get_num_orderbooks (ms_manager ms)) []))
             (\<lambda>(res, ms1, vs, stats).
                if \<not> res then reject ms1
                else validate_state_changes E schedule prev expected ((ar, ms1), vs, stats))))"

definition ensure_sequential_block_numbers :: "'h hashed_block \<Rightarrow> 'h hashed_block \<Rightarrow> 'h block" where
  "ensure_sequential_block_numbers prev expected = (hb_block expected)\<lparr>blockNumber := u64 (blockNumber (hb_block prev) + 1)\<rparr>"

definition speedex_block_validation_logic ::
  "('pk, 'sig, 't, 'ht, 'lt, 'bt, 'h) speedex_env \<Rightarrow> nat \<Rightarrow> (nat \<times> ('pk, 'sig) signed_transaction list list list) list \<Rightarrow> nat list list
     \<Rightarrow> 'h hashed_block \<Rightarrow> 'h hashed_block \<Rightarrow> ('pk, 'sig, 't, 'ht, 'bt) management_structures
     \<Rightarrow> (('h block \<times> bool) \<times> ('pk, 'sig, 't, 'ht, 'bt) management_structures) result" where
  "speedex_block_validation_logic E n bodies schedule prev expected ms =
     bind_result (validation_logic E n bodies schedule prev expected ms) (\<lambda>(res, ms1).
       let corrected_block = ensure_sequential_block_numbers prev expected
       in bind_result (hm_insert (se_header E) (blockNumber corrected_block) (se_hash_xdr E corrected_block) res (ms_header_map ms1))
            (\<lambda>hm. Inr ((corrected_block, res), ms1\<lparr>ms_header_map := hm\<rparr>)))"

section \<open>Producing a block\<close>

definition speedex_make_state_commitment ::
  "('pk, 'sig, 't, 'ht, 'lt, 'bt, 'h) speedex_env \<Rightarrow> 'h single_orderbook_state_commitment list
     \<Rightarrow> ('pk, 'sig, 't, 'ht, 'bt) management_structures
     \<Rightarrow> ('h internal_hashes \<times> ('pk, 'sig, 't, 'ht, 'bt) management_structures) result" where
  "speedex_make_state_commitment E details ms =
     bind_result (produce_state_commitment (se_accounts E) (modified_accounts ms) (mem (ms_db ms))) (\<lambda>(db_hash, db).
     bind_result (closed_log E ms) (\<lambda>(log_hash, _).
       Inr (\<lparr>dbHash = db_hash, clearingDetails = om_hash (se_offer_hash E) details (ms_manager ms),
             modificationLogHash = log_hash, blockMapHash = hm_hash (se_header E) (ms_header_map ms)\<rparr>, ms_set_mem db ms)))"

definition speedex_format_hashed_block ::
  "('pk, 'sig, 't, 'ht, 'lt, 'bt, 'h) speedex_env \<Rightarrow> 'h internal_hashes \<Rightarrow> 'h hashed_block \<Rightarrow> price list \<Rightarrow> nat \<Rightarrow> 'h hashed_block" where
  "speedex_format_hashed_block E hashes prev price_workspace tax =
     (let b = \<lparr>prevBlockHash = hb_hash prev, blockNumber = u64 (blockNumber (hb_block prev) + 1), prices = price_workspace,
               feeRate = tax, internalHashes = hashes\<rparr>
      in \<lparr>hb_block = b, hb_hash = se_hash_xdr E b\<rparr>)"

definition blank_commitment :: "'h \<Rightarrow> 'h single_orderbook_state_commitment" where
  "blank_commitment h =
     \<lparr>rootHash = h, fractionalSupplyActivated_bytes = replicate 16 0, partialExecThresholdKey = replicate ORDERBOOK_KEY_LEN 0,
      thresholdKeyIsNull = 0, partialExecOfferActivationAmount_bytes = replicate 16 0\<rparr>"

text \<open>
  \<open>price_workspace\<close> and \<open>lp_results\<close> are what price computation and the linear program return; \<open>schedule\<close> is
  the schedule of the parallel clearing loop.
\<close>

definition speedex_block_creation_logic ::
  "('pk, 'sig, 't, 'ht, 'lt, 'bt, 'h) speedex_env \<Rightarrow> nat list list \<Rightarrow> price list \<Rightarrow> clearing_params \<Rightarrow> 'h hashed_block
     \<Rightarrow> ('pk, 'sig, 't, 'ht, 'bt) management_structures \<times> block_state_update_stats
     \<Rightarrow> ('h hashed_block \<times> ('pk, 'sig, 't, 'ht, 'bt) management_structures \<times> block_state_update_stats) result" where
  "speedex_block_creation_logic E schedule price_workspace lp_results prev st =
     (case st of (ms, stats) \<Rightarrow>
      let blk = u64 (blockNumber (hb_block prev) + 1)
      in bind_result (commit_new_accounts (se_accounts E) (se_default_pk E)
             (min_persisted_round_number (account_lmdb_instance (ms_db ms))) blk (mem (ms_db ms))) (\<lambda>db1.
         let ms1 = (ms_set_mem db1 ms)\<lparr>ms_manager := om_commit_for_production (se_offers E) blk (ms_manager ms)\<rparr>
         in bind_result (from_ub (cp_check_clearing price_workspace lp_results)) (\<lambda>clearing_check.
            if \<not> clearing_check then Inl (RuntimeError ''The prices we computed did not result in clearing!!!'')
            else bind_result (clear_offers_for_production (se_offers E) memory_db (se_wr E) (blank_commitment (se_zero_hash E)) schedule
                lp_results price_workspace (ms_manager ms1, (mem (ms_db ms1), ms_clear_log ms1), [], stats))
              (\<lambda>(om, (db2, lg), details, stats').
                 let ms2 = (ms_set_mem db2 ms1)\<lparr>ms_manager := om, ms_clear_log := lg\<rparr>
                 in if \<not> check_valid_state (dirty_accounts (ms_clear_log ms2) (ms_log ms2)) db2
                    then Inl (RuntimeError ''DB left in invalid state!!!'')
                    else bind_result (commit_values_log (modified_accounts ms2) db2) (\<lambda>db3.
                         bind_result (speedex_make_state_commitment E details (ms_set_mem db3 ms2)) (\<lambda>(hashes, ms3).
                         let new_block = speedex_format_hashed_block E hashes prev price_workspace (tax_rate lp_results)
                         in bind_result (hm_insert (se_header E) (blockNumber (hb_block new_block)) (se_hash_xdr E (hb_block new_block)) True
                                (ms_header_map ms3)) (\<lambda>hm.
                            Inr (new_block, ms3\<lparr>ms_header_map := hm\<rparr>, stats'))))))))"

section \<open>Persisting a block\<close>

definition write_tx_data :: "('pk, 'sig) account_modification_tx_list list \<Rightarrow> ('pk, 'sig) signed_transaction list" where
  "write_tx_data block_in = concat (map new_transactions_self block_in)"

text \<open>\<^verbatim>\<open>persist_critical_round_data\<close> without writing the block to a file, as the virtual machine calls it.\<close>

definition persist_critical_round_data ::
  "('pk, 'sig, 't, 'ht, 'lt, 'bt, 'h) speedex_env \<Rightarrow> ('pk account_commitment \<Rightarrow> nat list) \<Rightarrow> 'h hashed_block \<Rightarrow> bool
     \<Rightarrow> ('pk, 'sig, 't, 'ht, 'bt) management_structures
     \<Rightarrow> (('pk, 'sig) signed_transaction list option \<times> ('pk, 'sig, 't, 'ht, 'bt) management_structures) result" where
  "persist_critical_round_data E enc header get_block ms =
     bind_result (closed_log E ms) (\<lambda>(_, ml).
     bind_result (persist_block (se_log E) get_block False ml) (\<lambda>(block_out, _).
     bind_result (add_persistence_thunk enc (blockNumber (hb_block header)) (modified_accounts ms) (ms_db ms)) (\<lambda>db.
       Inr (map_option write_tx_data block_out, ms_clear_account_log (ms\<lparr>ms_db := db\<rparr>)))))"

text \<open>
  The three phases of asynchronous persistence, which background threads run one after the other. Phase 2 forces
  the disk to synchronize and changes nothing in the model. The offer tables are \<open>dbs\<close>, one for each book, with the
  round they hold.
\<close>

definition persist_async_phase1 ::
  "(hash_key \<Rightarrow> account_id \<Rightarrow> nat) \<Rightarrow> nat \<Rightarrow> ('pk, 'sig, 't, 'ht, 'bt) management_structures
     \<Rightarrow> ('pk, 'sig, 't, 'ht, 'bt) management_structures result" where
  "persist_async_phase1 H blk ms = bind_result (commit_persistence_thunks H blk (ms_db ms)) (\<lambda>db. Inr (ms\<lparr>ms_db := db\<rparr>))"

definition persist_async_phase3 ::
  "('pk, 'sig, 't, 'ht, 'lt, 'bt, 'h) speedex_env \<Rightarrow> 'd offer_dbi \<Rightarrow> nat
     \<Rightarrow> ('pk, 'sig, 't, 'ht, 'bt) management_structures \<times> 'd list \<times> nat
     \<Rightarrow> (('pk, 'sig, 't, 'ht, 'bt) management_structures \<times> 'd list \<times> nat) result" where
  "persist_async_phase3 E I blk st =
     (case st of (ms, dbs, round) \<Rightarrow>
      bind_result (om_persist_lmdb I (se_wr8 E) blk (zip (orderbooks (ms_manager ms)) dbs, round)) (\<lambda>(obs, round').
      bind_result (hm_persist_lmdb (se_header E) blk (ms_header_map ms)) (\<lambda>hm.
        Inr (ms\<lparr>ms_manager := (ms_manager ms)\<lparr>orderbooks := map fst obs\<rparr>, ms_header_map := hm\<rparr>, map snd obs, round'))))"

definition persist_after_loading ::
  "('pk, 'sig, 't, 'ht, 'lt, 'bt, 'h) speedex_env \<Rightarrow> (hash_key \<Rightarrow> account_id \<Rightarrow> nat) \<Rightarrow> 'd offer_dbi \<Rightarrow> nat
     \<Rightarrow> ('pk, 'sig, 't, 'ht, 'bt) management_structures \<times> 'd list \<times> nat
     \<Rightarrow> (('pk, 'sig, 't, 'ht, 'bt) management_structures \<times> 'd list \<times> nat) result" where
  "persist_after_loading E H I blk st =
     (case st of (ms, dbs, round) \<Rightarrow>
      bind_result (persist_async_phase1 H blk ms) (\<lambda>ms1. persist_async_phase3 E I blk (ms1, dbs, round)))"

section \<open>The virtual machine\<close>

text \<open>
  \<^verbatim>\<open>speedex/vm/speedex_vm.cc\<close>, without the background threads that filter and clean the mempool, and without the
  measurements. A block identifier is the header it serializes.
\<close>

record ('pk, 'sig, 't, 'ht, 'bt, 'h, 'd) speedex_vm =
  vm_structures :: "('pk, 'sig, 't, 'ht, 'bt) management_structures"
  vm_offer_dbs :: "'d list"
  vm_offer_round :: nat
  proposal_base_block :: "'h hashed_block"
  last_committed_block :: "'h hashed_block"
  last_persisted_block_number :: nat
  PERSIST_BATCH :: nat
  pending_proposed_ids :: "'h hashed_block list"
  vm_mempool :: "('pk, 'sig) signed_transaction mempool"
  TARGET_BLOCK_SIZE :: int

definition exec_block ::
  "('pk, 'sig, 't, 'ht, 'lt, 'bt, 'h) speedex_env \<Rightarrow> ('pk account_commitment \<Rightarrow> nat list) \<Rightarrow> nat
     \<Rightarrow> (nat \<times> ('pk, 'sig) signed_transaction list list list) list \<Rightarrow> nat list list \<Rightarrow> 'h hashed_block
     \<Rightarrow> ('pk, 'sig, 't, 'ht, 'bt, 'h, 'd) speedex_vm \<Rightarrow> ('pk, 'sig, 't, 'ht, 'bt, 'h, 'd) speedex_vm result" where
  "exec_block E enc n bodies schedule new_header vm =
     (if u64 (blockNumber (hb_block (last_committed_block vm)) + 1) \<noteq> blockNumber (hb_block new_header) then Inr vm
      else bind_result (speedex_block_validation_logic E n bodies schedule (last_committed_block vm) new_header (vm_structures vm))
        (\<lambda>((corrected_next_block, res), ms).
           let committed = \<lparr>hb_block = corrected_next_block, hb_hash = se_hash_xdr E corrected_next_block\<rparr>;
               vm1 = vm\<lparr>vm_structures := ms, last_committed_block := committed,
                 proposal_base_block := (if blockNumber (hb_block (proposal_base_block vm)) < blockNumber (hb_block committed)
                   then committed else proposal_base_block vm)\<rparr>
           in if \<not> res then Inr vm1
              else bind_result (persist_critical_round_data E enc new_header False ms)
                (\<lambda>(_, ms'). Inr (vm1\<lparr>vm_structures := ms'\<rparr>))))"

text \<open>\<open>tasks\<close> is the division of the mempool into the tasks of the parallel loop, \<open>n\<close> the number of threads.\<close>

definition assemble_block ::
  "('pk, 'sig, 't, 'ht, 'lt, 'bt, 'h) speedex_env \<Rightarrow> nat \<Rightarrow> (nat \<times> nat list) list
     \<Rightarrow> ('pk, 'sig, 't, 'ht, 'bt, 'h, 'd) speedex_vm
     \<Rightarrow> (nat \<times> block_state_update_stats \<times> ('pk, 'sig, 't, 'ht, 'bt, 'h, 'd) speedex_vm) result" where
  "assemble_block E n tasks vm =
     (let ms = vm_structures vm
      in bind_result (build_block (se_offers E) (se_wr8 E) (se_sig_check E) (se_check_sigs E) tasks (TARGET_BLOCK_SIZE vm) (vm_mempool vm)
          \<lparr>remaining_block_space = 0, total_block_size = 0, pr_manager = ms_manager ms, pr_processors = replicate n sm_init,
           pr_db = mem (ms_db ms), pr_stats = empty_stats, pr_clear_log = ms_clear_log ms, pr_log = ms_log ms, status_counts = []\<rparr>)
        (\<lambda>(block_size, mp, pr).
           Inr (block_size, pr_stats pr,
                vm\<lparr>vm_structures := (ms_set_mem (pr_db pr) ms)\<lparr>ms_manager := pr_manager pr, ms_clear_log := pr_clear_log pr, ms_log := pr_log pr\<rparr>,
                   vm_mempool := mp\<rparr>)))"

definition propose ::
  "('pk, 'sig, 't, 'ht, 'lt, 'bt, 'h) speedex_env \<Rightarrow> ('pk account_commitment \<Rightarrow> nat list) \<Rightarrow> nat \<Rightarrow> (nat \<times> nat list) list \<Rightarrow> nat list list
     \<Rightarrow> price list \<Rightarrow> clearing_params \<Rightarrow> ('pk, 'sig, 't, 'ht, 'bt, 'h, 'd) speedex_vm
     \<Rightarrow> (('h hashed_block \<times> ('pk, 'sig) signed_transaction list) \<times> ('pk, 'sig, 't, 'ht, 'bt, 'h, 'd) speedex_vm) result" where
  "propose E enc n tasks schedule price_workspace lp_results vm =
     bind_result (assemble_block E n tasks vm) (\<lambda>(block_size, stats, vm1).
     bind_result (speedex_block_creation_logic E schedule price_workspace lp_results (proposal_base_block vm1) (vm_structures vm1, stats))
       (\<lambda>(new_block, ms, _).
          bind_result (persist_critical_round_data E enc new_block True ms) (\<lambda>(output_tx_block, ms').
            bind_result (from_ub output_tx_block) (\<lambda>txs.
              Inr ((new_block, txs),
                   vm1\<lparr>vm_structures := ms', proposal_base_block := new_block,
                      pending_proposed_ids := pending_proposed_ids vm1 @ [new_block]\<rparr>)))))"

text \<open>
  The loop drops pending proposals up to the one that was decided. Asynchronous persistence is modelled as done
  when the call returns.
\<close>

fun confirm_pending :: "'h hashed_block \<Rightarrow> 'h hashed_block list \<Rightarrow> 'h hashed_block option \<times> 'h hashed_block list" where
  "confirm_pending bid [] = (None, [])"
| "confirm_pending bid (front # rest) = (if front = bid then (Some bid, rest) else confirm_pending bid rest)"

definition log_commitment ::
  "('pk, 'sig, 't, 'ht, 'lt, 'bt, 'h) speedex_env \<Rightarrow> (hash_key \<Rightarrow> account_id \<Rightarrow> nat) \<Rightarrow> 'd offer_dbi \<Rightarrow> 'h hashed_block option
     \<Rightarrow> ('pk, 'sig, 't, 'ht, 'bt, 'h, 'd) speedex_vm \<Rightarrow> ('pk, 'sig, 't, 'ht, 'bt, 'h, 'd) speedex_vm result" where
  "log_commitment E H I id_opt vm =
     (case id_opt of
        None \<Rightarrow> Inr vm
      | Some bid \<Rightarrow>
          (case confirm_pending bid (pending_proposed_ids vm) of (found, rest) \<Rightarrow>
             let vm1 = vm\<lparr>pending_proposed_ids := rest,
                   last_committed_block := (case found of None \<Rightarrow> last_committed_block vm | Some b \<Rightarrow> b)\<rparr>;
                 blk = blockNumber (hb_block (last_committed_block vm1))
             in if blk \<ge> u64 (last_persisted_block_number vm1 + PERSIST_BATCH vm1)
                then bind_result (persist_after_loading E H I blk (vm_structures vm1, vm_offer_dbs vm1, vm_offer_round vm1))
                  (\<lambda>(ms, dbs, round). Inr (vm1\<lparr>vm_structures := ms, vm_offer_dbs := dbs, vm_offer_round := round,
                      last_persisted_block_number := blk\<rparr>))
                else Inr vm1))"

definition rewind_structs_to_committed_height ::
  "('pk, 'sig, 't, 'ht, 'lt, 'bt, 'h) speedex_env \<Rightarrow> (hash_key \<Rightarrow> account_id \<Rightarrow> nat) \<Rightarrow> (nat list \<Rightarrow> 'pk account_commitment option) \<Rightarrow> 'd offer_dbi
     \<Rightarrow> ('pk, 'sig, 't, 'ht, 'bt, 'h, 'd) speedex_vm \<Rightarrow> ('pk, 'sig, 't, 'ht, 'bt, 'h, 'd) speedex_vm result" where
  "rewind_structs_to_committed_height E H dec I vm =
     (let n = blockNumber (hb_block (last_committed_block vm)); ms = vm_structures vm
      in bind_result (commit_persistence_thunks H n (ms_db ms)) (\<lambda>db1.
         bind_result (clear_persistence_thunks_and_reload H dec (se_accounts E) n db1) (\<lambda>db2.
         bind_result (om_persist_lmdb I (se_wr8 E) n (zip (orderbooks (ms_manager ms)) (vm_offer_dbs vm), vm_offer_round vm)) (\<lambda>(obs, round).
         bind_result (om_rollback_thunks (se_offers E) (se_wr8 E) (\<lambda>_. round) n ((ms_manager ms)\<lparr>orderbooks := map fst obs\<rparr>)) (\<lambda>om.
         bind_result (hm_persist_lmdb (se_header E) n (ms_header_map ms)) (\<lambda>hm1.
         bind_result (rollback_to_committed_round (se_header E) n hm1) (\<lambda>hm2.
           Inr (vm\<lparr>vm_structures := ms_clear_account_log (ms\<lparr>ms_db := db2, ms_manager := om, ms_header_map := hm2\<rparr>),
                   vm_offer_dbs := map snd obs, vm_offer_round := round, proposal_base_block := last_committed_block vm\<rparr>))))))))"

end
