(* ===== verification/Block_Rejection.thy ===== *)
theory Block_Rejection
  imports Speedex_Operation
begin

text \<open>
  What validation of a block does to the accounts of a node. The lemmas show that transactions and clearing change
  only the uncommitted state of accounts and the list of created accounts, whatever their outcome; the properties
  say what is left behind when the block is rejected.
\<close>

section \<open>Uncommitted changes\<close>

definition same_committed :: "('pk, 't) memory_database \<Rightarrow> ('pk, 't) memory_database \<Rightarrow> bool" where
  "same_committed db db' \<longleftrightarrow>
     user_id_to_idx_map db' = user_id_to_idx_map db \<and> commitment_trie db' = commitment_trie db
     \<and> account_creation_thunks db' = account_creation_thunks db \<and> av_size (database db') = av_size (database db)
     \<and> (av_wf (database db) \<longrightarrow> av_wf (database db'))
     \<and> (\<forall>p. committed_part (db_account p db') = committed_part (db_account p db))"

lemma same_committed_refl [simp, intro]: "same_committed db db"
  by (simp add: same_committed_def)

lemma same_committed_trans [trans]: "same_committed a b \<Longrightarrow> same_committed b c \<Longrightarrow> same_committed a c"
  by (simp add: same_committed_def)

lemma db_account_modified:
  "db_account p (db_modify i f db) =
     (if p = i \<and> i div 2 ^ 16 < length (accounts (database db)) then f (db_account i db) else db_account p db)"
proof (cases "p div 2 ^ 16 = i div 2 ^ 16")
  case True
  then have "p mod 2 ^ 16 = i mod 2 ^ 16 \<longleftrightarrow> p = i" by (metis div_mult_mod_eq)
  then show ?thesis using True
    by (cases "i div 2 ^ 16 < length (accounts (database db))")
      (auto simp: db_account_def db_modify_def av_modify_def Let_def upd_at_def not_less list_update_beyond simp del: power_numeral)
next
  case False
  then show ?thesis by (auto simp: db_account_def db_modify_def av_modify_def Let_def upd_at_def)
qed

lemma same_committed_modify:
  assumes "committed_part (f (db_account i db)) = committed_part (db_account i db)"
  shows "same_committed db (db_modify i f db)"
proof -
  have "av_wf (database db) \<longrightarrow> av_wf (database (db_modify i f db))"
    by (auto simp: av_wf_def db_modify_def av_modify_def Let_def upd_at_nth)
  then show ?thesis using assms
    by (simp add: same_committed_def db_account_modified) (simp add: db_modify_def av_modify_def Let_def)
qed

lemma same_committed_lists [simp]:
  "same_committed db (db'\<lparr>uncommitted_db := us\<rparr>) = same_committed db db'"
  "same_committed db (db'\<lparr>reserved_account_ids := ids\<rparr>) = same_committed db db'"
  by (simp_all add: same_committed_def db_account_def)

lemmas committed_part_acts = committed_part_act [of "Transfer k x" for k x, simplified]
  committed_part_act [of "Escrow k x" for k x, simplified] committed_part_act [of "ReserveSeq sn" for sn, simplified]

section \<open>Transactions\<close>

lemma ub_transfer_same: "same_committed db (snd (snd (ub_transfer_available p k x acv db)))"
  by (auto simp: ub_transfer_available_def db_transfer_available_def committed_part_acts split: uptr.split intro: same_committed_modify)

lemma ub_escrow_same: "same_committed db (snd (snd (ub_escrow p k x acv db)))"
  by (auto simp: ub_escrow_def db_escrow_def committed_part_acts split: uptr.split intro: same_committed_modify)

lemma acv_create_same: "same_committed db (snd (snd (acv_create_new_account a k acv db)))"
  by (auto simp: acv_create_new_account_def reserve_account_creation_def Let_def)

lemma acv_reserve_same: "same_committed db (snd (snd (acv_reserve_sequence_number p sn acv db)))"
proof (cases p)
  case (DbPtr idx)
  have "committed_part (snd (ua_reserve_sequence_number sn (db_account idx db))) = committed_part (db_account idx db)"
    by (rule committed_part_acts)
  then show ?thesis
    by (auto simp: DbPtr acv_reserve_sequence_number_def db_reserve_sequence_number_def Let_def split: prod.splits intro: same_committed_modify)
qed (auto simp: acv_reserve_sequence_number_def Let_def split: prod.splits)

lemma acv_commit_same: "same_committed db (acv_commit acv db)"
proof -
  have new: "same_committed db (fold (\<lambda>(own, a). commit_account_creation own a) xs db)" for xs
  proof (induction xs arbitrary: db)
    case (Cons x xs)
    have "same_committed db (commit_account_creation (fst x) (snd x) db)" by (simp add: commit_account_creation_def)
    then show ?case using Cons by (auto simp: split_beta intro: same_committed_trans)
  qed simp
  have seq: "same_committed db (db_commit_sequence_number i sn db)" for i sn and db :: "('a, 'b) memory_database"
    unfolding db_commit_sequence_number_def
    by (rule same_committed_modify) (simp add: ua_commit_sequence_number_def ut_commit_sequence_number_def)
  have "same_committed db (fold (\<lambda>r db. case res_account r of DbPtr idx \<Rightarrow> db_commit_sequence_number idx (res_seqno r) db | NewPtr _ \<Rightarrow> db) rs db)"
    for rs and db :: "('a, 'b) memory_database"
  proof (induction rs arbitrary: db)
    case (Cons r rs)
    then show ?case by (cases "res_account r") (auto intro: same_committed_trans seq)
  qed simp
  then show ?thesis unfolding acv_commit_def Let_def using new same_committed_trans by blast
qed

text \<open>The calls of the unbuffered view, as introduction rules that walk back along the calls.\<close>

lemma unbuffered_same [intro]:
  "same_committed db (snd v) \<Longrightarrow> same_committed db (snd (snd (vo_transfer_available unbuffered_ops p k x v)))"
  "same_committed db (snd v) \<Longrightarrow> same_committed db (snd (snd (vo_escrow unbuffered_ops p k x v)))"
  "same_committed db (snd v) \<Longrightarrow> same_committed db (snd (snd (vo_create_new_account unbuffered_ops a pub v)))"
  "same_committed db (snd v) \<Longrightarrow> same_committed db (snd (snd (vo_reserve_sequence_number unbuffered_ops p sn v)))"
  "same_committed db db' \<Longrightarrow> same_committed db (acv_commit acv db')"
  using ub_transfer_same [of "snd v" p k x "fst v"] ub_escrow_same [of "snd v" p k x "fst v"]
    acv_create_same [of "snd v" a pub "fst v"] acv_reserve_same [of "snd v" p sn "fst v"] acv_commit_same [of db' acv]
  by (auto simp: unbuffered_ops_def on_pair_def intro: same_committed_trans)

lemma vm_add_offer_same:
  assumes "vm_add_offer T wr8 ck ub_transfer ptr src op_id idx off (sm, v, lg) = Inr (sm', v', lg')"
  shows "same_committed (snd v) (snd v')"
proof -
  have "clear_offer_full ub_transfer off sp bp tax ptr v = Some w \<Longrightarrow> same_committed (snd v) (snd w)" for sp bp tax w
    using ub_transfer_same [of "snd v" ptr] by (auto simp: clear_offer_full_def ub_transfer_def bind_eq_Some_conv Let_def)
  then have "vm_clear_now ub_transfer ptr src op_id tax sp bp idx off (s, v, l) = Inr (s', v', l') \<Longrightarrow> same_committed (snd v) (snd v')"
    for tax sp bp s l s' l'
    by (auto simp: vm_clear_now_def bind_result_Inr from_ub_def split: option.splits)
  then show ?thesis using assms
    by (auto simp: vm_add_offer_def bind_result_Inr Let_def split: if_splits)
qed

lemma validating_add_same:
  assumes "mo_add_offer (validating_ops E ck) ptr src op_id idx off (m, v, lg) = Inr (m', v', lg')"
  shows "same_committed (snd v) (snd v')"
  using assms by (auto simp: validating_ops_def validating_manager_def bind_result_Inr split: prod.splits dest: vm_add_offer_same)

text \<open>The database an operation leaves, in every branch.\<close>

lemma process_operation_same:
  assumes "process_operation unbuffered_ops (validating_ops E ck) md op (m, v, lg, stats) = Inr (status, m', v', lg', stats')"
  shows "same_committed (snd v) (snd v')"
proof (cases op)
  case (CREATE_ACCOUNT c)
  then show ?thesis using assms
    by (auto simp: process_create_account_def bind_result_Inr split_beta split: if_split_asm)
next
  case (CREATE_SELL_OFFER c)
  then show ?thesis using assms
    by (auto simp: process_create_sell_offer_def bind_result_Inr Let_def split_beta split: if_split_asm dest!: validating_add_same)
next
  case (CANCEL_SELL_OFFER c)
  then show ?thesis using assms
    by (auto simp: process_cancel_sell_offer_def bind_result_Inr split_beta option.case_eq_if split: if_split_asm)
next
  case (PAYMENT c)
  then show ?thesis using assms
    by (auto simp: process_payment_def Let_def split_beta split: if_split_asm option.split_asm)
next
  case (MONEY_PRINTER c)
  then show ?thesis using assms by (auto simp: process_money_printer_def split_beta split: if_split_asm)
qed

lemma process_ops_same:
  "process_ops unbuffered_ops (validating_ops E ck) md sn i ops (m, v, lg, stats) = Inr (status, j, m', v', lg', stats')
   \<Longrightarrow> same_committed (snd v) (snd v')"
proof (induction ops arbitrary: i m v lg stats)
  case (Cons op ops)
  then show ?case
    by (auto simp: bind_result_Inr split: if_splits prod.splits dest: process_operation_same intro: same_committed_trans)
qed simp

lemma validate_transaction_same:
  assumes "validate_transaction unbuffered_ops (validating_ops E ck) sig_check check_sigs tx (m, db, stats, lg, tlog)
    = Inr (ok, m', db', stats', lg', tlog')"
  shows "same_committed db db'"
proof -
  let ?v1 = "\<lambda>idx. snd (vo_reserve_sequence_number unbuffered_ops (DbPtr idx) (sequenceNumber (metadata (stx tx))) (acv_init, db))"
  let ?v2 = "\<lambda>idx. snd (vo_transfer_available unbuffered_ops (DbPtr idx) NATIVE_ASSET (i64 (- fee_required (length (operations (stx tx))))) (?v1 idx))"
  have start: "same_committed db (snd (?v1 idx))" "same_committed db (snd (?v2 idx))" for idx
    by (simp_all add: unbuffered_same)
  have ops: "same_committed db (snd v3)"
    if "process_ops unbuffered_ops (validating_ops E ck) md sn i txops (m, ?v2 idx, lg, st) = Inr (status, j, m3, v3, lg3, st3)"
    for idx md sn i txops st status j m3 v3 lg3 st3
    using process_ops_same [OF that] start(2) same_committed_trans by blast
  show ?thesis
    using assms start
    by (auto simp: validate_transaction_def bind_result_Inr Let_def split_beta split: if_split_asm option.split_asm dest!: ops [simplified])
qed

section \<open>Blocks of transactions\<close>

lemma validate_one_same:
  "validate_one unbuffered_ops (validating_ops E ck) sig_check check_sigs p tx va = Inr (ok, va') \<Longrightarrow> same_committed (va_db va) (va_db va')"
  by (auto simp: validate_one_def bind_result_Inr dest!: validate_transaction_same)

lemma validate_item_same:
  "validate_item unbuffered_ops (validating_ops E ck) sig_check check_sigs p txs va = Inr (ok, va') \<Longrightarrow> same_committed (va_db va) (va_db va')"
proof (induction txs arbitrary: va ok)
  case (Cons tx txs)
  then show ?case by (fastforce simp: bind_result_Inr dest: validate_one_same intro: same_committed_trans)
qed simp

lemma validate_range_same:
  "validate_range unbuffered_ops (validating_ops E ck) sig_check check_sigs p items va = Inr (ok, va') \<Longrightarrow> same_committed (va_db va) (va_db va')"
proof (induction items arbitrary: va ok)
  case (Cons item items)
  then show ?case
    by (fastforce simp: bind_result_Inr split: if_splits dest: validate_item_same intro: same_committed_trans)
qed simp

lemma validate_body_same:
  "validate_body unbuffered_ops (validating_ops E ck) sig_check check_sigs p rs va = Inr (ok, va') \<Longrightarrow> same_committed (va_db va) (va_db va')"
proof (induction rs arbitrary: va ok)
  case (Cons r rs)
  then show ?case
    by (fastforce simp: bind_result_Inr split: if_splits dest: validate_range_same intro: same_committed_trans)
qed simp

lemma validate_bodies_same:
  "validate_bodies unbuffered_ops (validating_ops E ck) sig_check check_sigs bodies va = Inr (ok, va') \<Longrightarrow> same_committed (va_db va) (va_db va')"
proof (induction bodies arbitrary: va ok)
  case (Cons b bodies)
  then show ?case
    by (cases b) (fastforce simp: bind_result_Inr dest: validate_body_same intro: same_committed_trans)
qed simp

lemma run_validator_same:
  assumes "run_validator E n bodies ck (ms, vs) = Inr (ok, ms', vs', stats)"
  shows "same_committed (mem (ms_db ms)) (mem (ms_db ms'))"
    and "account_lmdb_instance (ms_db ms') = account_lmdb_instance (ms_db ms)"
    and "ms_header_map ms' = ms_header_map ms"
  using assms
  by (auto simp: run_validator_def validate_transaction_block_def bind_result_Inr Let_def ms_set_mem_def
      split_beta split: if_split_asm dest!: validate_bodies_same)

section \<open>Clearing\<close>

lemma complete_clearing_same:
  "complete_clearing memory_db sp bp tax off (db, lg) = Inr (db', lg') \<Longrightarrow> same_committed db db'"
  by (auto simp: complete_clearing_def clear_offer_full_def bind_result_Inr from_ub_def memory_db_def db_transfer_available_def
      committed_part_acts Let_def bind_eq_Some_conv split: if_split_asm option.split_asm intro!: same_committed_modify)

lemma apply_clearing_same:
  "apply_clearing memory_db sp bp tax offs (db, lg) = Inr (db', lg') \<Longrightarrow> same_committed db db'"
proof (induction offs arbitrary: db lg)
  case (Cons off offs)
  then show ?case by (fastforce simp: bind_result_Inr dest: complete_clearing_same intro: same_committed_trans)
qed simp

lemma clear_partial_same:
  "clear_offer_partial db_transfer_available off sp bp tax r idx db = Some (db', x, y) \<Longrightarrow> same_committed db db'"
  by (auto simp: clear_offer_partial_def db_transfer_available_def committed_part_acts Let_def bind_eq_Some_conv intro!: same_committed_modify)

lemma validate_partial_same:
  assumes "validate_partial T memory_db rd sp bp ps tax com e off (ob, (db, lg), vs, stats) = Inr (res, ob', (db', lg'), vs', stats')"
  shows "same_committed db db'"
  using assms
  by (auto simp: validate_partial_def bind_result_Inr Let_def split_beta memory_db_def [THEN arg_cong, of cd_transfer, simplified]
      split: if_split_asm option.split_asm dest!: clear_partial_same apply_clearing_same intro: same_committed_trans)

lemma validate_all_same:
  assumes "validate_all T memory_db rd sp bp tax com (ob, (db, lg), vs, stats) = Inr (res, ob', (db', lg'), vs', stats')"
  shows "same_committed db db'"
  using assms by (auto simp: validate_all_def bind_result_Inr Let_def split: if_split_asm dest: apply_clearing_same)

lemma tentative_clear_same:
  assumes "tentative_clear_offers_for_validation T memory_db rd com ps tax (ob, (db, lg), vs, stats) = Inr (res, ob', (db', lg'), vs', stats')"
  shows "same_committed db db'"
  using assms
  by (auto simp: tentative_clear_offers_for_validation_def Let_def split_beta split: option.split_asm
      dest: validate_all_same validate_partial_same)

lemma clear_book_same:
  "clear_book_validation T memory_db rd ck i (om, (db, lg), vs, stats) = Inr (res, om', (db', lg'), vs', stats') \<Longrightarrow> same_committed db db'"
  by (auto simp: clear_book_validation_def bind_result_Inr dest!: tentative_clear_same)

lemma clear_range_same:
  "clear_range_validation T memory_db rd ck is (om, (db, lg), vs, stats) = Inr (res, om', (db', lg'), vs', stats') \<Longrightarrow> same_committed db db'"
proof (induction "is" arbitrary: om db lg vs stats)
  case (Cons i "is")
  then show ?case
    by (fastforce simp: bind_result_Inr split: if_splits dest: clear_book_same intro: same_committed_trans)
qed simp

lemma clear_ranges_same:
  "clear_ranges_validation T memory_db rd ck rs (ok, om, (db, lg), vs, stats) = Inr (res, om', (db', lg'), vs', stats') \<Longrightarrow> same_committed db db'"
proof (induction rs arbitrary: ok om db lg vs stats)
  case (Cons r rs)
  then show ?case by (fastforce simp: bind_result_Inr dest: clear_range_same intro: same_committed_trans)
qed simp

lemma om_clear_same:
  "om_tentative_clear_offers_for_validation T memory_db rd schedule ck (om, (db, lg), vs, stats) = Inr (res, om', (db', lg'), vs', stats')
   \<Longrightarrow> same_committed db db'"
  by (auto simp: om_tentative_clear_offers_for_validation_def bind_result_Inr dest!: clear_ranges_same)

section \<open>Commit and rollback of the database\<close>

lemma ua_rollback_commit: "ua_rollback (ua_commit a) = ua_commit a"
  by (auto simp: ua_rollback_def ua_commit_def ut_rollback_def ut_commit_def ra_rollback_def ra_commit_def asset_init_def comp_def)

lemma commit_accounts_loop_contents:
  "av_wf (database db) \<Longrightarrow> commit_accounts_loop T dpk us db = Inr db' \<Longrightarrow>
   av_wf (database db') \<and> contents db' = contents db @ map ua_commit us \<and> account_creation_thunks db' = account_creation_thunks db"
proof (induction us arbitrary: db)
  case (Cons u us)
  obtain i v where v: "av_emplace_back (blank_account dpk) (ua_commit u) (database db) = Some (i, v)"
      "av_wf v" "av_contents v = contents db @ [ua_commit u]"
    using av.emplace [OF Cons.prems(1), of "blank_account dpk" "ua_commit u"] by auto
  then obtain c where "commit_accounts_loop T dpk us
      (db\<lparr>database := v, commitment_trie := t_insert T (acct_owner (ua_commit u)) c (commitment_trie db),
          user_id_to_idx_map := (user_id_to_idx_map db)(acct_owner (ua_commit u) \<mapsto> i)\<rparr>) = Inr db'"
    using Cons.prems(2) by (auto simp: bind_result_Inr Let_def)
  from Cons.IH [OF _ this] show ?case using v(2,3) by simp
qed simp

lemma rollback_thunks_none:
  "list_all (\<lambda>th. thunk_block_number th \<le> b) ths \<Longrightarrow>
   rollback_thunks T b kept ths db = Some (db\<lparr>account_creation_thunks := kept @ ths\<rparr>)"
  by (induction ths arbitrary: kept) simp_all

lemma modify_fields:
  "database (db_modify i f db) = av_modify i f (database db)"
  "account_creation_thunks (db_modify i f db) = account_creation_thunks db"
  "user_id_to_idx_map (db_modify i f db) = user_id_to_idx_map db"
  by (simp_all add: db_modify_def)

lemma rollback_values_contents:
  assumes "av_wf (database db)"
  shows "contents (rollback_values db) = map ua_rollback (contents db)"
    and "account_creation_thunks (rollback_values db) = account_creation_thunks db"
    and "user_id_to_idx_map (rollback_values db) = user_id_to_idx_map db"
proof -
  let ?rb = "\<lambda>n. fold (\<lambda>i. db_modify i ua_rollback) [0..<n] db"
  have inv: "n \<le> length (contents db) \<Longrightarrow> av_wf (database (?rb n))
      \<and> contents (?rb n) = map ua_rollback (take n (contents db)) @ drop n (contents db)
      \<and> account_creation_thunks (?rb n) = account_creation_thunks db \<and> user_id_to_idx_map (?rb n) = user_id_to_idx_map db" for n
  proof (induction n)
    case (Suc n)
    let ?d = "?rb n"
    have ih: "av_wf (database ?d)" "contents ?d = map ua_rollback (take n (contents db)) @ drop n (contents db)"
        "account_creation_thunks ?d = account_creation_thunks db" "user_id_to_idx_map ?d = user_id_to_idx_map db"
      using Suc by simp_all
    have n: "n < length (contents db)" "drop n (contents db) = contents db ! n # drop (Suc n) (contents db)"
      using Suc.prems by (simp_all add: Cons_nth_drop_Suc)
    have "av_wf (av_modify n ua_rollback (database ?d)) \<and> av_contents (av_modify n ua_rollback (database ?d)) = (contents ?d)[n := ua_rollback (contents ?d ! n)]"
      using n(1) ih(1,2) by (intro av.modify) auto
    moreover have "?rb (Suc n) = db_modify n ua_rollback ?d" by simp
    ultimately show ?case
      using ih n by (simp only: modify_fields) (simp add: list_update_append nth_append take_Suc_conv_app_nth)
  qed (simp add: assms)
  have "av_size (database db) = length (contents db)" by simp
  then show "contents (rollback_values db) = map ua_rollback (contents db)"
    "account_creation_thunks (rollback_values db) = account_creation_thunks db"
    "user_id_to_idx_map (rollback_values db) = user_id_to_idx_map db"
    using inv [of "length (contents db)"] by (simp_all add: rollback_values_def)
qed

lemma same_committed_rollback:
  assumes wf: "av_wf (database db)" and same: "same_committed db db'"
  shows "map ua_rollback (contents db') = map ua_rollback (contents db)"
proof (rule nth_equalityI)
  show len: "length (map ua_rollback (contents db')) = length (map ua_rollback (contents db))"
    using same by (simp add: same_committed_def)
  fix p assume "p < length (map ua_rollback (contents db'))"
  then have p: "p < length (contents db')" "p < length (contents db)" using len by simp_all
  have "ua_rollback (db_account p db') = ua_rollback (db_account p db)"
    using same by (intro rollback_committed_part) (simp add: same_committed_def)
  then show "map ua_rollback (contents db') ! p = map ua_rollback (contents db) ! p"
    using p by (simp add: db_account_nth)
qed

lemma ar_destroy_db:
  assumes "autorollback_destroy E (ar, ms) = Inr ms'" and "ar_db_for_validation ar" "\<not> ar_db_produce_state_commitment ar" "ar_log_do_rollback ar"
    and wf: "av_wf (database (mem (ms_db ms)))"
    and old: "list_all (\<lambda>th. thunk_block_number th \<le> ar_block_number ar) (account_creation_thunks (mem (ms_db ms)))"
  shows "contents (mem (ms_db ms')) = map ua_rollback (contents (mem (ms_db ms)))"
    and "account_creation_thunks (mem (ms_db ms')) = account_creation_thunks (mem (ms_db ms))"
    and "ms_log ms' = []" "ms_clear_log ms' = []" "ms_header_map ms' = ms_header_map ms"
proof -
  let ?db = "mem (ms_db ms)"
  let ?cl = "clear_internal_data_structures ?db"
  have rb: "rollback_new_accounts (se_accounts E) (ar_block_number ar) ?db = Some ?cl"
    using old by (simp add: rollback_new_accounts_def rollback_thunks_none)
  have cl: "av_wf (database ?cl)" "contents ?cl = contents ?db" "account_creation_thunks ?cl = account_creation_thunks ?db"
    using wf by (simp_all add: clear_internal_data_structures_def)
  obtain om where "ms' = ms_clear_account_log (ms_set_mem (rollback_values ?cl) (ms\<lparr>ms_manager := om\<rparr>))"
    using assms(1-4) rb
    by (auto simp: autorollback_destroy_def ar_manager_destroy_def ar_db_destroy_def bind_result_Inr ms_set_mem_def split: if_split_asm)
      (metis management_structures.surjective management_structures.update_convs(2))
  then show "contents (mem (ms_db ms')) = map ua_rollback (contents ?db)"
    "account_creation_thunks (mem (ms_db ms')) = account_creation_thunks ?db"
    "ms_log ms' = []" "ms_clear_log ms' = []" "ms_header_map ms' = ms_header_map ms"
    using cl rollback_values_contents [OF cl(1)] by (simp_all add: ms_clear_account_log_def ms_set_mem_def)
qed

lemma tentative_commit_contents:
  assumes "ar_db_tentative_commit_for_validation E (ar, ms) = Inr (ar', ms')" and "av_wf (database (mem (ms_db ms)))"
  shows "ar' = ar\<lparr>ar_db_for_validation := True\<rparr>" and "av_wf (database (mem (ms_db ms')))"
    and "contents (mem (ms_db ms')) = contents (mem (ms_db ms)) @ map ua_commit (uncommitted_db (mem (ms_db ms)))"
    and "account_creation_thunks (mem (ms_db ms')) = account_creation_thunks (mem (ms_db ms)) @
      [\<lparr>thunk_block_number = ar_block_number ar, num_accounts_created = length (uncommitted_db (mem (ms_db ms)))\<rparr>]"
    and "ms_header_map ms' = ms_header_map ms"
proof -
  obtain db1 where loop: "commit_accounts_loop (se_accounts E) (se_default_pk E) (uncommitted_db (mem (ms_db ms))) (mem (ms_db ms)) = Inr db1"
    and res: "ar' = ar\<lparr>ar_db_for_validation := True\<rparr>"
      "ms' = ms_set_mem (clear_internal_data_structures (db1\<lparr>account_creation_thunks := account_creation_thunks db1 @
        [\<lparr>thunk_block_number = ar_block_number ar, num_accounts_created = length (uncommitted_db (mem (ms_db ms)))\<rparr>]\<rparr>)) ms"
    using assms(1) by (auto simp: ar_db_tentative_commit_for_validation_def commit_new_accounts_def bind_result_Inr Let_def split: if_split_asm)
  show "ar' = ar\<lparr>ar_db_for_validation := True\<rparr>" by (fact res(1))
  show "av_wf (database (mem (ms_db ms')))"
    "contents (mem (ms_db ms')) = contents (mem (ms_db ms)) @ map ua_commit (uncommitted_db (mem (ms_db ms)))"
    "account_creation_thunks (mem (ms_db ms')) = account_creation_thunks (mem (ms_db ms)) @
      [\<lparr>thunk_block_number = ar_block_number ar, num_accounts_created = length (uncommitted_db (mem (ms_db ms)))\<rparr>]"
    "ms_header_map ms' = ms_header_map ms"
    using commit_accounts_loop_contents [OF assms(2) loop]
    by (simp_all add: res(2) ms_set_mem_def clear_internal_data_structures_def)
qed

lemma clear_ar_same:
  assumes "ar_manager_tentative_clear_offers_for_validation E schedule ck ((ar, ms), vs, stats) = Inr (res, (ar', ms'), vs', stats')"
  shows "ar' = ar\<lparr>ar_manager_for_validation := True\<rparr>" "same_committed (mem (ms_db ms)) (mem (ms_db ms'))" "ms_header_map ms' = ms_header_map ms"
  using assms
  by (auto simp: ar_manager_tentative_clear_offers_for_validation_def bind_result_Inr ms_set_mem_def dest: om_clear_same)

text \<open>A block that is rejected after its transactions were accepted.\<close>

lemma validate_state_changes_reject:
  assumes run: "validate_state_changes E schedule prev expected ((autorollback_init blk, ms), vs, stats) = Inr (False, ms')"
    and wf: "av_wf (database (mem (ms_db ms)))"
    and old: "list_all (\<lambda>th. thunk_block_number th \<le> blk) (account_creation_thunks (mem (ms_db ms)))"
  shows "contents (mem (ms_db ms')) = map ua_rollback (contents (mem (ms_db ms))) @ map ua_commit (uncommitted_db (mem (ms_db ms)))"
    and "account_creation_thunks (mem (ms_db ms')) = account_creation_thunks (mem (ms_db ms)) @
      [\<lparr>thunk_block_number = blk, num_accounts_created = length (uncommitted_db (mem (ms_db ms)))\<rparr>]"
    and "ms_log ms' = []" "ms_clear_log ms' = []" "ms_header_map ms' = ms_header_map ms"
proof -
  let ?ck = "checker_of (hb_block expected)"
  obtain ar1 ms1 where c: "ar_db_tentative_commit_for_validation E (autorollback_init blk, ms) = Inr (ar1, ms1)"
    using run by (auto simp: validate_state_changes_def bind_result_Inr Let_def)
  note tc = tentative_commit_contents [OF c wf]
  let ?m = "ar_manager_tentative_commit_for_validation E (ar1, ms1)"
  obtain res ar2 ms2 vs2 stats2 where cl: "ar_manager_tentative_clear_offers_for_validation E schedule ?ck (?m, vs, stats) = Inr (res, (ar2, ms2), vs2, stats2)"
    using run by (auto simp: validate_state_changes_def bind_result_Inr Let_def c)
  have m: "?m = (ar1\<lparr>ar_manager_for_validation := True\<rparr>,
      ms1\<lparr>ms_manager := commit_for_validation (se_offers E) (ar_block_number ar1) (ms_manager ms1)\<rparr>)"
    by (simp add: ar_manager_tentative_commit_for_validation_def)
  have cs: "ar2 = ar1\<lparr>ar_manager_for_validation := True\<rparr>" "same_committed (mem (ms_db ms1)) (mem (ms_db ms2))" "ms_header_map ms2 = ms_header_map ms1"
    using clear_ar_same [OF cl [unfolded m]] by simp_all
  have d: "autorollback_destroy E (ar2, ms2) = Inr ms'"
    using run
    by (auto simp: validate_state_changes_def bind_result_Inr Let_def c cl debug_hash_discrepancy_def split: if_split_asm prod.split_asm)
  have ar2: "ar_db_for_validation ar2" "\<not> ar_db_produce_state_commitment ar2" "ar_log_do_rollback ar2" "ar_block_number ar2 = blk"
    by (simp_all add: cs(1) tc(1) autorollback_init_def)
  have wf2: "av_wf (database (mem (ms_db ms2)))" and th2: "account_creation_thunks (mem (ms_db ms2)) = account_creation_thunks (mem (ms_db ms1))"
    using cs(2) tc(2) by (simp_all add: same_committed_def)
  have ar0: "ar_block_number (autorollback_init blk) = blk" by (simp add: autorollback_init_def)
  have old2: "list_all (\<lambda>th. thunk_block_number th \<le> ar_block_number ar2) (account_creation_thunks (mem (ms_db ms2)))"
    using old by (simp add: th2 tc(4) ar2(4) ar0)
  note dd = ar_destroy_db [OF d ar2(1-3) wf2 old2]
  show "contents (mem (ms_db ms')) = map ua_rollback (contents (mem (ms_db ms))) @ map ua_commit (uncommitted_db (mem (ms_db ms)))"
    using dd(1) same_committed_rollback [OF tc(2) cs(2)] by (simp add: tc(3) ua_rollback_commit comp_def)
  show "account_creation_thunks (mem (ms_db ms')) = account_creation_thunks (mem (ms_db ms)) @
      [\<lparr>thunk_block_number = blk, num_accounts_created = length (uncommitted_db (mem (ms_db ms)))\<rparr>]"
    using dd(2) by (simp add: th2 tc(4) ar0)
  show "ms_log ms' = []" "ms_clear_log ms' = []" "ms_header_map ms' = ms_header_map ms" using dd(3-5) cs(3) tc(5) by simp_all
qed

section \<open>Rejection before the tentative commit\<close>

text \<open>The ways a block is rejected before the tentative commit.\<close>

definition rejected_early ::
  "('pk, 'sig, 't, 'ht, 'lt, 'bt, 'h) speedex_env \<Rightarrow> nat \<Rightarrow> (nat \<times> ('pk, 'sig) signed_transaction list list list) list
     \<Rightarrow> 'h hashed_block \<Rightarrow> 'h hashed_block \<Rightarrow> ('pk, 'sig, 't, 'ht, 'bt) management_structures \<Rightarrow> bool" where
  "rejected_early E n bodies prev expected ms \<longleftrightarrow>
     \<not> header_ok prev expected ms
     \<or> ck_check_clearing (se_rd E) (checker_of (hb_block expected)) = Some False
     \<or> ck_check_clearing (se_rd E) (checker_of (hb_block expected)) = Some True
       \<and> (case run_validator E n bodies (checker_of (hb_block expected)) (ms, make_minimum_size (get_num_orderbooks (ms_manager ms)) []) of
            Inl _ \<Rightarrow> False | Inr (ok, _) \<Rightarrow> \<not> ok)"

lemma early_destroy: "autorollback_destroy E (autorollback_init blk, ms) = Inr (ms_clear_account_log ms)"
  by (simp add: autorollback_destroy_def autorollback_init_def ar_manager_destroy_def ar_db_destroy_def)

lemma rejected_early_effect:
  assumes "rejected_early E n bodies prev expected ms"
  shows "\<exists>ms'. validation_logic E n bodies schedule prev expected ms = Inr (False, ms')
    \<and> account_creation_thunks (mem (ms_db ms')) = account_creation_thunks (mem (ms_db ms))
    \<and> account_lmdb_instance (ms_db ms') = account_lmdb_instance (ms_db ms) \<and> ms_header_map ms' = ms_header_map ms"
proof (cases "header_ok prev expected ms \<and> ck_check_clearing (se_rd E) (checker_of (hb_block expected)) \<noteq> Some False")
  case True
  then obtain ms1 vs stats where
      v: "run_validator E n bodies (checker_of (hb_block expected)) (ms, make_minimum_size (get_num_orderbooks (ms_manager ms)) [])
        = Inr (False, ms1, vs, stats)"
      and ck: "ck_check_clearing (se_rd E) (checker_of (hb_block expected)) = Some True"
    using assms by (auto simp: rejected_early_def split: sum.splits)
  then show ?thesis
    using True run_validator_same [OF v]
    by (simp add: validation_logic_def early_destroy ms_clear_account_log_def same_committed_def)
qed (auto simp: validation_logic_def early_destroy ms_clear_account_log_def)

lemma stale_creation_thunks:
  assumes run: "run_validator E n bodies (checker_of (hb_block b)) (ms, make_minimum_size (get_num_orderbooks (ms_manager ms)) [])
      = Inr (True, ms1, vs, stats)"
    and ok: "header_ok prev b ms" "ck_check_clearing (se_rd E) (checker_of (hb_block b)) = Some True"
    and num: "blockNumber (hb_block prev) = N + 1" "N + 2 < 2 ^ 64"
    and stale: "if account_creation_thunks (mem (ms_db ms)) = [] then min_persisted_round_number (account_lmdb_instance (ms_db ms)) = N
      else thunk_block_number (last (account_creation_thunks (mem (ms_db ms)))) = N"
  shows "validation_logic E n bodies schedule prev b ms = Inl (RuntimeError ''account creation thunks block number error'')"
proof -
  have th: "account_creation_thunks (mem (ms_db ms1)) = account_creation_thunks (mem (ms_db ms))"
    "account_lmdb_instance (ms_db ms1) = account_lmdb_instance (ms_db ms)"
    using run_validator_same [OF run] by (simp_all add: same_committed_def)
  have "commit_new_accounts (se_accounts E) (se_default_pk E) (min_persisted_round_number (account_lmdb_instance (ms_db ms1))) (N + 2)
      (mem (ms_db ms1)) = Inl (RuntimeError ''account creation thunks block number error'')"
    using stale num(2) by (auto simp: commit_new_accounts_def th Let_def)
  moreover have "u64 (blockNumber (hb_block prev) + 1) = N + 2" using num by simp
  ultimately show ?thesis
    using ok run by (simp add: validation_logic_def validate_state_changes_def ar_db_tentative_commit_for_validation_def autorollback_init_def Let_def)
qed

section \<open>A small node\<close>

definition constant_log :: "(unit, unit, (account_id \<times> (unit, unit) account_modification_tx_list) list, nat) tl_trie" where
  "constant_log = \<lparr>lt_empty = lt_empty list_log_trie, lt_insert = lt_insert list_log_trie, lt_batch_merge_in = lt_batch_merge_in list_log_trie,
     lt_hash = (\<lambda>f t. (0, snd (lt_hash list_log_trie f t))), lt_entries = lt_entries list_log_trie\<rparr>"

definition constant_trie :: "(account_id \<rightharpoonup> unit account_commitment, unit account_commitment, nat) trie_ops" where
  "constant_trie = \<lparr>t_insert = t_insert map_trie, t_perform_deletion = t_perform_deletion map_trie,
     t_modify_value = t_modify_value map_trie, t_hash = (\<lambda>t. 0)\<rparr>"

text \<open>Validation reads no table of the header map, so the cursor of this one is left empty.\<close>

definition small_header :: "(nat list \<rightharpoonup> nat header_hash_value, nat) header_env" where
  "small_header =
     \<lparr>hx_write = be_bytes 8, hx_read = be_value, hx_new = Map.empty, hx_insert = (\<lambda>k v t. t(k \<mapsto> v)), hx_get_value = (\<lambda>k t. t k),
      hx_perform_deletion = (\<lambda>k t. (t k \<noteq> None, t(k := None))), hx_hash = (\<lambda>t. 0),
      hx_encode = (\<lambda>v. [hv_hash v, validation_success v]), hx_decode = (\<lambda>bs. None), hx_cursor = (\<lambda>m. [])\<rparr>"

definition small_env :: "(unit, unit, book, account_id \<rightharpoonup> unit account_commitment,
    (account_id \<times> (unit, unit) account_modification_tx_list) list, nat list \<rightharpoonup> nat header_hash_value, nat) speedex_env" where
  "small_env = \<lparr>se_offers = list_trie, se_offer_hash = (\<lambda>t. 0), se_wr8 = be8_writer, se_wr = be_bytes 16, se_rd = be_value,
     se_accounts = constant_trie, se_default_pk = (), se_log = constant_log, se_log_sort = sort_key seq_of, se_log_detailed = False,
     se_header = small_header, se_hash_xdr = (\<lambda>b. 0), se_zero_hash = 0, se_sig_check = (\<lambda>tx s k. True), se_check_sigs = False\<rparr>"

definition small_manager :: "nat \<Rightarrow> book orderbook_manager" where
  "small_manager k = \<lparr>orderbooks = map (\<lambda>(s, b). ob_init list_trie \<lparr>sellAsset = s, buyAsset = b, cat_type = SELL\<rparr>) (if k = 2 then [(0, 1), (1, 0)] else []), num_assets = k\<rparr>"

definition small_node :: "nat \<Rightarrow> (unit, unit, book, account_id \<rightharpoonup> unit account_commitment, nat list \<rightharpoonup> nat header_hash_value) management_structures" where
  "small_node k =
     \<lparr>ms_db = \<lparr>mem = holding_db (held 1000 1000) Map.empty [block_one], persistence_thunks = [], account_lmdb_instance = sample_lmdb\<rparr>,
      ms_manager = small_manager k, ms_clear_log = [], ms_log = [],
      ms_header_map = \<lparr>block_map = Map.empty, lmdb_instance = \<lparr>hl_open = True, hl_data = Map.empty, hl_round = 0\<rparr>, last_committed_block_number = 1\<rparr>,
      ms_approx_params = \<lparr>ap_tax_rate = 15, ap_smooth_mult = 10\<rparr>\<rparr>"

text \<open>A header that activates nothing, with the given amount for a partial execution.\<close>

definition small_block :: "nat \<Rightarrow> nat \<Rightarrow> nat \<Rightarrow> nat \<Rightarrow> nat hashed_block" where
  "small_block number fee k partial =
     \<lparr>hb_block = \<lparr>prevBlockHash = 0, blockNumber = number, prices = replicate k (2 ^ 24), feeRate = fee,
        internalHashes = \<lparr>dbHash = 0, clearingDetails = replicate (k * (k - 1)) \<lparr>rootHash = 0, fractionalSupplyActivated_bytes = be_bytes 16 0,
          partialExecThresholdKey = zero_key, thresholdKeyIsNull = 1, partialExecOfferActivationAmount_bytes = be_bytes 16 partial\<rparr>,
          modificationLogHash = 0, blockMapHash = 0\<rparr>\<rparr>, hb_hash = 0\<rparr>"

definition small_tx :: "unit operation list \<Rightarrow> (unit, unit) signed_transaction" where
  "small_tx ops = \<lparr>stx = \<lparr>metadata = \<lparr>sourceAccount = 7, sequenceNumber = 256\<rparr>, operations = ops, maxFee = 100\<rparr>, signature = ()\<rparr>"


definition small_vm :: "nat \<Rightarrow> (unit, unit, book, account_id \<rightharpoonup> unit account_commitment, nat list \<rightharpoonup> nat header_hash_value, nat, (offer_key \<times> offer) list) speedex_vm" where
  "small_vm k = \<lparr>vm_structures = small_node k, vm_offer_dbs = [], vm_offer_round = 1, proposal_base_block = small_block 1 15 k 0,
     last_committed_block = small_block 1 15 k 0, last_persisted_block_number = 1, PERSIST_BATCH = 5, pending_proposed_ids = [],
     vm_mempool = mempool_init 10 10, TARGET_BLOCK_SIZE = 100\<rparr>"

definition creating_tx :: "(unit, unit) signed_transaction" where
  "creating_tx = small_tx [CREATE_ACCOUNT \<lparr>startingBalance = 500, newAccountId = 9, newAccountPublicKey = ()\<rparr>]"

definition created_account :: "unit user_account" where
  "created_account = \<lparr>owned_assets = [], uncommitted_assets = [\<lparr>available = 500, committed_available = 0\<rparr>],
     seq_tracker = ut_init 0, acct_owner = 9, pk = ()\<rparr>"

text \<open>The account of the source while the block runs, and the database with one account created.\<close>

definition paying :: "int \<Rightarrow> unit user_account" where
  "paying x = (held x 1000)\<lparr>seq_tracker := \<lparr>last_committed_id = 0, sequence_number_vec = 1\<rparr>\<rparr>"

definition created_view :: "unit user_account list \<Rightarrow> unit account_creation_view" where
  "created_view us = \<lparr>new_accounts = map (Pair 9) us, temporary_idxs = (if us = [] then Map.empty else [9 \<mapsto> NewPtr 0]),
     reservations = [\<lparr>res_account = DbPtr 0, res_seqno = 256\<rparr>]\<rparr>"

definition created_db :: "unit user_account \<Rightarrow> account_creation_thunk list \<Rightarrow> account_id set \<Rightarrow> unit user_account list
    \<Rightarrow> (unit, account_id \<rightharpoonup> unit account_commitment) memory_database" where
  "created_db a cts ids us = (holding_db a Map.empty cts)\<lparr>reserved_account_ids := ids, uncommitted_db := us\<rparr>"

lemma created_db_simps:
  "db_account 0 (created_db a cts ids us) = a" "db_modify 0 f (created_db a cts ids us) = created_db (f a) cts ids us"
  "user_id_to_idx_map (created_db a cts ids us) = [7 \<mapsto> 0]" "reserved_account_ids (created_db a cts ids us) = ids"
  "uncommitted_db (created_db a cts ids us) = us" "holding_db a Map.empty cts = created_db a cts {} []"
  "(created_db a cts ids us)\<lparr>reserved_account_ids := ids'\<rparr> = created_db a cts ids' us"
  "(created_db a cts ids us)\<lparr>uncommitted_db := us'\<rparr> = created_db a cts ids us'"
  by (simp_all add: created_db_def holding_db_def db_account_def db_modify_def av_modify_def upd_at_def)

lemma created_steps:
  "acv_reserve_sequence_number (DbPtr 0) 256 acv_init (created_db (held 1000 1000) cts {} []) =
     (SUCCESS, created_view [], created_db (paying 1000) cts {} [])"
  "ub_transfer_available (DbPtr 0) 0 (- 15) acv (created_db (paying 1000) cts ids us) = (SUCCESS, acv, created_db (paying 985) cts ids us)"
  "acv_create_new_account 9 () (created_view []) (created_db a cts {} []) =
     ((SUCCESS, Some (NewPtr 0)), created_view [new_account 9 ()], created_db a cts {9} [])"
  "ub_transfer_available (DbPtr 0) 0 (- 500) acv (created_db (paying 985) cts ids us) = (SUCCESS, acv, created_db (paying 485) cts ids us)"
  "ub_transfer_available (NewPtr 0) 0 500 (created_view [new_account 9 ()]) db = (SUCCESS, created_view [created_account], db)"
  "acv_commit (created_view us) (created_db (paying x) cts ids []) = created_db (paying x) cts ids us"
proof -
  show "acv_reserve_sequence_number (DbPtr 0) 256 acv_init (created_db (held 1000 1000) cts {} []) =
      (SUCCESS, created_view [], created_db (paying 1000) cts {} [])"
    by (simp add: acv_reserve_sequence_number_def db_reserve_sequence_number_def created_db_simps held_def ua_reserve_sequence_number_def
        ut_reserve_sequence_number_def ut_init_def Let_def paying_def created_view_def acv_init_def uint64_get_seq_num_offset_def sub64_def
        MAX_OPS_PER_TX_def u8_def)
  show "acv_create_new_account 9 () (created_view []) (created_db a cts {} []) =
      ((SUCCESS, Some (NewPtr 0)), created_view [new_account 9 ()], created_db a cts {9} [])"
    by (simp add: acv_create_new_account_def reserve_account_creation_def created_view_def created_db_simps Let_def)
  have grow: "grow_to 0 [] = [asset_init 0]" by (subst grow_to.simps, simp, subst grow_to.simps, simp)
  show "ub_transfer_available (NewPtr 0) 0 500 (created_view [new_account 9 ()]) db = (SUCCESS, created_view [created_account], db)"
    by (simp add: ub_transfer_available_def created_view_def acv_modify_new_def new_pos_def upd_at_def new_account_def
        created_account_def ua_transfer_available_def operate_on_asset_def ra_transfer_available_def i64_def Let_def grow asset_init_def)
  have "fold (\<lambda>(own, a). commit_account_creation own a) (map (Pair 9) us) (created_db (paying x) cts ids vs) = created_db (paying x) cts ids (vs @ us)" for vs
    by (induction us arbitrary: vs) (simp_all add: commit_account_creation_def created_db_simps)
  then show "acv_commit (created_view us) (created_db (paying x) cts ids []) = created_db (paying x) cts ids us"
    by (simp add: acv_commit_def created_view_def created_db_simps db_commit_sequence_number_def paying_def ua_commit_sequence_number_def
        ut_commit_sequence_number_def)
qed (simp_all add: ub_transfer_available_def db_transfer_available_def created_db_simps paying_def held_def ua_transfer_available_def
    operate_on_asset_def ra_transfer_available_def i64_def Let_def asset_init_def
        grow_to.simps [of 0 "[]"] grow_to.simps [of 0 "[asset_init 0]"])

lemma creating_tx_valid:
  "validate_transaction unbuffered_ops M sig_check False creating_tx (m, created_db (held 1000 1000) cts {} [], stats, lg, tlog)
   = Inr (True, m, created_db (paying 485) cts {9} [created_account], stats_add stats (empty_stats\<lparr>new_account_count := 1\<rparr>), lg,
       log_modified_accounts (mo_maintain_account_log M) creating_tx tlog)"
proof -
  have ops: "process_ops unbuffered_ops M \<lparr>tx_source = 7, source_account_idx = DbPtr 0, operation_id = 0\<rparr> 256 0 (operations (stx creating_tx))
      (m, (created_view [], created_db (paying 985) cts {} []), lg, empty_stats)
    = Inr (SUCCESS, 1, m, (created_view [created_account], created_db (paying 485) cts {9} []), lg, empty_stats\<lparr>new_account_count := 1\<rparr>)"
    by (simp add: created_steps creating_tx_def small_tx_def process_create_account_def unbuffered_ops_def on_pair_def CREATE_ACCOUNT_MIN_STARTING_BALANCE_def
       is_valid_amount_def NATIVE_ASSET_def i64_def u64_def u32_def from_ub_def empty_stats_def)
  have pay: "vo_transfer_available unbuffered_ops (DbPtr 0) NATIVE_ASSET (i64 (- 15)) (created_view [], created_db (paying 1000) cts {} [])
      = (SUCCESS, created_view [], created_db (paying 985) cts {} [])"
    "vo_reserve_sequence_number unbuffered_ops (DbPtr 0) 256 (acv_init, created_db (held 1000 1000) cts {} [])
      = (SUCCESS, created_view [], created_db (paying 1000) cts {} [])"
    by (simp_all add: created_steps unbuffered_ops_def on_pair_def NATIVE_ASSET_def i64_def)
  have tx: "metadata (stx creating_tx) = \<lparr>sourceAccount = 7, sequenceNumber = 256\<rparr>" "length (operations (stx creating_tx)) = 1"
    "maxFee (stx creating_tx) = 100" "check_tx_format_parameters (stx creating_tx)" "fee_required 1 = 15"
    by (simp_all add: creating_tx_def small_tx_def check_tx_format_parameters_def fee_required_def BASE_FEE_PER_TX_def FEE_PER_OP_def
        RESERVED_SEQUENCE_NUM_LOWBITS_def MAX_OPS_PER_TX_def in_i64_def u64_def)
  show ?thesis
    by (simp add: created_steps validate_transaction_def db_lookup_user_def created_db_simps tx [simplified] pay [simplified] ops)
qed

lemma small_node_simps:
  "mem (ms_db (small_node k)) = created_db (held 1000 1000) [block_one] {} []"
  "ms_log (small_node k) = []" "ms_clear_log (small_node k) = []"
  "get_num_orderbooks (small_manager 2) = 2" "ms_manager (small_node k) = small_manager k"
  by (simp_all add: small_node_def created_db_simps small_manager_def get_num_orderbooks_def get_num_orderbooks_by_asset_count_def NUM_OFFER_TYPES_def u32_def)

text \<open>The node once the block that creates an account has run.\<close>

definition small_logged :: "(unit, unit) tx_log_event list
    \<Rightarrow> (unit, unit, book, account_id \<rightharpoonup> unit account_commitment, nat list \<rightharpoonup> nat header_hash_value) management_structures" where
  "small_logged lg = (small_node 2)\<lparr>ms_db := (ms_db (small_node 2))\<lparr>mem := created_db (paying 485) [block_one] {9} [created_account]\<rparr>, ms_log := lg\<rparr>"

lemma small_processed:
  "\<exists>stats lg. run_validator small_env 1 [(0, [[[creating_tx]]])] (checker_of (hb_block (small_block 2 15 2 1)))
     (small_node 2, make_minimum_size (get_num_orderbooks (ms_manager (small_node 2))) [])
   = Inr (True, small_logged lg, replicate 3 svs_empty, stats)"
  by (simp add: run_validator_def validate_transaction_block_def small_node_simps)
    (simp add: small_env_def validate_one_def small_node_simps creating_tx_valid sm_init_def partial_finish_def,
     simp add: small_node_simps upt_rec numeral_2_eq_2 partial_finish_def vm_partial_finish_conclude_def vs_add_def svs_add_def
       make_minimum_size_def vs_resize_def check_valid_state_def created_db_simps db_lookup_user_def,
     simp add: numeral_3_eq_3 log_modified_accounts_def validating_ops_def validating_manager_def creating_tx_def small_tx_def dirty_accounts_def,
     simp add: small_logged_def ms_set_mem_def numeral_2_eq_2 small_node_def paying_def held_def created_account_def ua_in_valid_state_def
       ra_in_valid_state_def)

lemma created_db_wf: "av_wf (database (created_db a cts ids us))"
  by (auto simp: created_db_def holding_db_def av_wf_def ACCOUNTS_PER_ROW_def split: if_splits)

lemma small_committed:
  "\<exists>db. ar_db_tentative_commit_for_validation small_env (autorollback_init 2, small_logged lg)
     = Inr ((autorollback_init 2)\<lparr>ar_db_for_validation := True\<rparr>, ms_set_mem db (small_logged lg))"
proof -
  let ?db = "created_db (paying 485) [block_one] {9} [created_account]"
  obtain i v where "av_emplace_back (blank_account ()) (ua_commit created_account) (database ?db) = Some (i, v)"
    using av.emplace [OF created_db_wf] by metis
  moreover have "\<exists>c. ua_produce_commitment (ua_commit created_account) = Some c"
    by (simp add: created_account_def ua_commit_def ua_produce_commitment_def commitment_loop_eq ra_produce_commitment_def
        ra_commit_def asset_init_def ut_commit_def ut_init_def uint64_get_seq_num_increment_def ut_produce_commitment_def u64_def)
  moreover have "account_creation_thunks ?db = [block_one]" by (simp add: created_db_def holding_db_simps)
  ultimately show ?thesis
    by (auto simp: ar_db_tentative_commit_for_validation_def commit_new_accounts_def small_logged_def small_env_def autorollback_init_def
        block_one_def created_db_simps Let_def)
qed

text \<open>Validation of a book without offers fails when the header claims a partial execution.\<close>

definition bare_book :: "offer_category \<Rightarrow> book orderbook" where
  "bare_book c = tentative_commit_for_validation list_trie 2 (ob_init list_trie c)"

lemma bare_book_rejects:
  assumes "partialExecThresholdKey com = zero_key" "partialExecOfferActivationAmount rd com \<noteq> 0"
  shows "\<exists>ob vs'. tentative_clear_offers_for_validation list_trie D rd com ps tax (bare_book c, dl, vs, stats) = Inr (False, ob, dl, vs', stats)
    \<and> thunks ob \<noteq> []"
  using assms
  by (simp add: tentative_clear_offers_for_validation_def bare_book_def tentative_commit_for_validation_def ob_init_def list_trie_def
      empty_book_def b_perform_marked_deletions_def b_merge_in_def b_perform_deletion_def b_restrict_def del_def add_new_thunk_def
      validate_all_def memcmp_refl fp_from_integral_def u128_def Let_def)

lemma rollback_validation_ok: "thunks ob \<noteq> [] \<Longrightarrow> \<exists>ob'. rollback_validation T wr8 ob = Inr ob'"
  by (simp add: rollback_validation_def get_top_thunk_def pop_top_thunk_def Let_def)

lemma small_cleared:
  "\<exists>om vs' stats'. om_tentative_clear_offers_for_validation list_trie memory_db be_value [[0, 1]] (checker_of (hb_block (small_block 2 15 2 1)))
     (commit_for_validation list_trie 2 (small_manager 2), dl, replicate 3 svs_empty, stats) = Inr (False, om, dl, vs', stats')
     \<and> (\<exists>om'. om_rollback_validation list_trie be8_writer om = Inr om')"
proof -
  let ?c = "\<lambda>s b. \<lparr>sellAsset = s, buyAsset = b, cat_type = SELL\<rparr>"
  let ?com = "\<lparr>rootHash = 0, fractionalSupplyActivated_bytes = be_bytes 16 0, partialExecThresholdKey = zero_key,
      thresholdKeyIsNull = 1, partialExecOfferActivationAmount_bytes = be_bytes 16 1\<rparr> :: nat single_orderbook_state_commitment"
  let ?ck = "checker_of (hb_block (small_block 2 15 2 1))"
  have books: "orderbooks (commit_for_validation list_trie 2 (small_manager 2)) = [bare_book (?c 0 1), bare_book (?c 1 0)]"
    by (simp add: commit_for_validation_def generic_map_def small_manager_def bare_book_def)
  have coms: "commitments ?ck = [?com, ?com]"
    by (simp add: checker_of_def small_block_def numeral_2_eq_2 del: be_bytes.simps)
  have "partialExecOfferActivationAmount be_value ?com \<noteq> 0"
    by (simp add: partialExecOfferActivationAmount_def be_value_be_bytes fp_from_raw_def u128_def del: be_bytes.simps)
  then obtain ob vs' where ob: "tentative_clear_offers_for_validation list_trie memory_db be_value ?com (ck_prices ?ck) (ck_tax_rate ?ck)
        (bare_book (?c 0 1), dl, svs_empty, empty_stats) = Inr (False, ob, dl, vs', empty_stats)" "thunks ob \<noteq> []"
    using bare_book_rejects [of ?com be_value memory_db] by fastforce
  obtain b1 where b1: "rollback_validation list_trie be8_writer ob = Inr b1" using rollback_validation_ok [OF ob(2)] by blast
  have "thunks (bare_book (?c 1 0)) \<noteq> []"
    by (simp add: bare_book_def tentative_commit_for_validation_def add_new_thunk_def Let_def split_beta)
  then obtain b2 where b2: "rollback_validation list_trie be8_writer (bare_book (?c 1 0)) = Inr b2" using rollback_validation_ok by blast
  show ?thesis
    using b1 b2 ob(1)
    by (simp add: om_tentative_clear_offers_for_validation_def clear_book_validation_def vec_idx_def books coms make_minimum_size_def
       om_rollback_validation_def generic_map_result_def del: be_bytes.simps One_nat_def)
qed

lemma small_prev_ok:
  "header_ok (small_block 1 15 2 0) (small_block 2 15 2 1) (small_node 2)"
  "ck_check_clearing (se_rd small_env) (checker_of (hb_block (small_block 2 15 2 1))) = Some True"
proof -
  show "header_ok (small_block 1 15 2 0) (small_block 2 15 2 1) (small_node 2)"
    by (simp add: header_ok_def small_block_def small_node_def small_manager_def get_num_orderbooks_def get_num_orderbooks_by_asset_count_def
        NUM_OFFER_TYPES_def u32_def u64_def)
  have "clears 15 (replicate 2 (2 ^ 24)) [0, 0] = Some True"
    by (simp add: clears_def category_from_idx_def upd_at_def wide_multiply_val_by_a_over_b_def fp_ceil_def fp_floor_def fp_from_raw_def
        fp_add_def fp_tax_and_round_def tax_amount_def fp_from_integral_def get_lowbits_mask_def sub128_def u128_def numeral_2_eq_2 Let_def)
  moreover have "map (fractionalSupplyActivated be_value) (commitments (checker_of (hb_block (small_block 2 15 2 1)))) = [0, 0]"
    by (simp add: checker_of_def small_block_def fractionalSupplyActivated_def be_value_be_bytes fp_from_raw_def u128_def numeral_2_eq_2
        del: be_bytes.simps)
  ultimately show "ck_check_clearing (se_rd small_env) (checker_of (hb_block (small_block 2 15 2 1))) = Some True"
    by (simp add: ck_check_clearing_def small_env_def) (simp add: checker_of_def small_block_def u8_def)
qed

lemma small_rejected:
  "\<exists>ms'. validation_logic small_env 1 [(0, [[[creating_tx]]])] [[0, 1]] (small_block 1 15 2 0) (small_block 2 15 2 1) (small_node 2) = Inr (False, ms')"
proof -
  obtain stats lg where run: "run_validator small_env 1 [(0, [[[creating_tx]]])] (checker_of (hb_block (small_block 2 15 2 1)))
      (small_node 2, make_minimum_size (get_num_orderbooks (ms_manager (small_node 2))) []) = Inr (True, small_logged lg, replicate 3 svs_empty, stats)"
    using small_processed by blast
  obtain db where c: "ar_db_tentative_commit_for_validation small_env (autorollback_init 2, small_logged lg)
      = Inr ((autorollback_init 2)\<lparr>ar_db_for_validation := True\<rparr>, ms_set_mem db (small_logged lg))"
    using small_committed by blast
  have "mem (ms_db (small_logged lg)) = created_db (paying 485) [block_one] {9} [created_account]" by (simp add: small_logged_def)
  then have "account_creation_thunks db = [block_one, \<lparr>thunk_block_number = 2, num_accounts_created = 1\<rparr>]"
    using tentative_commit_contents(4) [OF c] created_db_wf
    by (simp add: ms_set_mem_def created_db_simps autorollback_init_def) (simp add: created_db_def holding_db_simps)
  then obtain db' where rb: "rollback_new_accounts (se_accounts small_env) 2 db = Some db'"
    by (simp add: rollback_new_accounts_def rollback_thunks_none block_one_def)
  obtain om vs' stats' om' where cl: "om_tentative_clear_offers_for_validation list_trie memory_db be_value [[0, 1]] (checker_of (hb_block (small_block 2 15 2 1)))
      (commit_for_validation list_trie 2 (small_manager 2), (db, []), replicate 3 svs_empty, stats) = Inr (False, om, (db, []), vs', stats')"
      "om_rollback_validation list_trie be8_writer om = Inr om'"
    using small_cleared by blast
  have env: "se_offers small_env = list_trie" "se_rd small_env = be_value" "se_wr8 small_env = be8_writer" by (simp_all add: small_env_def)
  have logged: "ms_manager (small_logged lg) = small_manager 2" "ms_clear_log (small_logged lg) = []"
    by (simp_all add: small_logged_def small_node_simps)
  have prev: "u64 (blockNumber (hb_block (small_block 1 15 2 0)) + 1) = 2" by (simp add: small_block_def u64_def)
  have "\<exists>ms'. validate_state_changes small_env [[0, 1]] (small_block 1 15 2 0) (small_block 2 15 2 1)
      ((autorollback_init 2, small_logged lg), replicate 3 svs_empty, stats) = Inr (False, ms')"
    using c cl rb
    by (simp add: validate_state_changes_def Let_def ar_manager_tentative_commit_for_validation_def
        ar_manager_tentative_clear_offers_for_validation_def env logged ms_set_mem_def autorollback_init_def autorollback_destroy_def
        ar_manager_destroy_def ar_db_destroy_def from_ub_def del: One_nat_def)
  then show ?thesis
    using small_prev_ok run prev by (simp add: validation_logic_def del: One_nat_def)
qed


lemma small_early: "rejected_early small_env 1 [] (small_block 1 15 1 0) (small_block 2 0 1 0) (small_node 1)"
  by (simp add: rejected_early_def header_ok_def small_block_def small_node_def small_manager_def u32_def)

text \<open>A block without transactions is always accepted by the validator of a node with one asset, which has no order books.\<close>

lemma run_no_transactions:
  assumes "ms_log ms = []" "ms_clear_log ms = []" "uncommitted_db (mem (ms_db ms)) = []" "num_assets (ms_manager ms) = 1"
  shows "\<exists>r. run_validator E n [] ck (ms, vs) = Inr (True, r)"
  using assms
  by (simp add: run_validator_def validate_transaction_block_def get_num_orderbooks_def get_num_orderbooks_by_asset_count_def check_valid_state_def dirty_accounts_def u32_def split_beta Let_def)

lemma small_next_ok:
  "header_ok (small_block 2 0 1 0) (small_block 3 15 1 0) (small_node 1)"
  "ck_check_clearing (se_rd small_env) (checker_of (hb_block (small_block 3 15 1 0))) = Some True"
proof -
  show "header_ok (small_block 2 0 1 0) (small_block 3 15 1 0) (small_node 1)"
    by (simp add: header_ok_def small_block_def small_node_def small_manager_def get_num_orderbooks_def get_num_orderbooks_by_asset_count_def u32_def u64_def)
  show "ck_check_clearing (se_rd small_env) (checker_of (hb_block (small_block 3 15 1 0))) = Some True"
    by (simp add: small_env_def small_block_def checker_of_def ck_check_clearing_def clears_def u8_def fp_tax_and_round_def tax_amount_def fp_from_integral_def
      get_lowbits_mask_def sub128_def u128_def)
qed

lemma small_first:
  "\<exists>hm. exec_block small_env (\<lambda>_. []) 1 [] [] (small_block 2 0 1 0) (small_vm 1)
     = Inr ((small_vm 1)\<lparr>vm_structures := (small_node 1)\<lparr>ms_header_map := hm\<rparr>, last_committed_block := small_block 2 0 1 0,
         proposal_base_block := small_block 2 0 1 0\<rparr>)"
  by (simp add: exec_block_def speedex_block_validation_logic_def validation_logic_def header_ok_def small_vm_def)
    (simp add: small_block_def u64_def u32_def small_node_def small_env_def early_destroy ensure_sequential_block_numbers_def
      ms_clear_account_log_def hm_insert_def Let_def)

section \<open>Properties\<close>

text \<open>
  Property C31. A block that is rejected after its transactions were accepted restores every account that existed before to
  its last committed state and empties the modification log; but the accounts its transactions created stay in the
  database, with the balances they were given, together with the record of their creation.
\<close>

theorem rejected_block_keeps_new_accounts:
  assumes "header_ok prev expected ms"
    and "ck_check_clearing (se_rd E) (checker_of (hb_block expected)) = Some True"
    and "run_validator E n bodies (checker_of (hb_block expected)) (ms, make_minimum_size (get_num_orderbooks (ms_manager ms)) [])
      = Inr (True, ms1, vs, stats)"
    and "validation_logic E n bodies schedule prev expected ms = Inr (False, ms')"
    and "av_wf (database (mem (ms_db ms)))" and "list_all clean_account (contents (mem (ms_db ms)))"
    and "list_all (\<lambda>th. thunk_block_number th \<le> blockNumber (hb_block prev)) (account_creation_thunks (mem (ms_db ms)))"
    and "blockNumber (hb_block prev) < 2 ^ 64 - 1"
  shows "contents (mem (ms_db ms')) = contents (mem (ms_db ms)) @ map ua_commit (uncommitted_db (mem (ms_db ms1)))
    \<and> account_creation_thunks (mem (ms_db ms')) = account_creation_thunks (mem (ms_db ms)) @
        [\<lparr>thunk_block_number = blockNumber (hb_block prev) + 1, num_accounts_created = length (uncommitted_db (mem (ms_db ms1)))\<rparr>]
    \<and> ms_log ms' = [] \<and> ms_clear_log ms' = [] \<and> ms_header_map ms' = ms_header_map ms"
proof -
  let ?blk = "blockNumber (hb_block prev) + 1"
  have blk: "u64 (blockNumber (hb_block prev) + 1) = ?blk" using assms(8) by simp
  have same: "same_committed (mem (ms_db ms)) (mem (ms_db ms1))" and hm: "ms_header_map ms1 = ms_header_map ms"
    using run_validator_same [OF assms(3)] by simp_all
  have run: "validate_state_changes E schedule prev expected ((autorollback_init ?blk, ms1), vs, stats) = Inr (False, ms')"
    using assms(1-4) blk by (simp add: validation_logic_def)
  have wf1: "av_wf (database (mem (ms_db ms1)))" and th1: "account_creation_thunks (mem (ms_db ms1)) = account_creation_thunks (mem (ms_db ms))"
    using same assms(5) by (simp_all add: same_committed_def)
  have old1: "list_all (\<lambda>th. thunk_block_number th \<le> ?blk) (account_creation_thunks (mem (ms_db ms1)))"
    using assms(7) unfolding th1 by (auto simp: list_all_iff)
  note r = validate_state_changes_reject [OF run wf1 old1]
  have "map ua_rollback (contents (mem (ms_db ms1))) = map ua_rollback (contents (mem (ms_db ms)))"
    by (rule same_committed_rollback [OF assms(5) same])
  also have "\<dots> = contents (mem (ms_db ms))"
    using assms(6) by (intro map_idI) (auto simp: list_all_iff rollback_clean)
  finally show ?thesis using r hm th1 by simp
qed

theorem rejected_block_keeps_new_accounts_witness:
  "\<exists>ms'. validation_logic small_env 1 [(0, [[[creating_tx]]])] [[0, 1]] (small_block 1 15 2 0) (small_block 2 15 2 1) (small_node 2) = Inr (False, ms')
     \<and> contents (mem (ms_db ms')) = [held 1000 1000, ua_commit created_account]
     \<and> account_creation_thunks (mem (ms_db ms')) = [block_one, \<lparr>thunk_block_number = 2, num_accounts_created = 1\<rparr>]"
proof -
  obtain ms' where rej: "validation_logic small_env 1 [(0, [[[creating_tx]]])] [[0, 1]] (small_block 1 15 2 0) (small_block 2 15 2 1) (small_node 2)
      = Inr (False, ms')"
    using small_rejected by blast
  obtain stats lg where run: "run_validator small_env 1 [(0, [[[creating_tx]]])] (checker_of (hb_block (small_block 2 15 2 1)))
      (small_node 2, make_minimum_size (get_num_orderbooks (ms_manager (small_node 2))) []) = Inr (True, small_logged lg, replicate 3 svs_empty, stats)"
    using small_processed by blast
  have db: "contents (mem (ms_db (small_node 2))) = [held 1000 1000]" "account_creation_thunks (mem (ms_db (small_node 2))) = [block_one]"
    "uncommitted_db (mem (ms_db (small_logged lg))) = [created_account]" "av_wf (database (mem (ms_db (small_node 2))))"
    by (simp_all add: small_node_simps created_db_wf) (simp_all add: small_logged_def created_db_def holding_db_simps)
  have blk: "blockNumber (hb_block (small_block n 15 2 0)) = n" for n by (simp add: small_block_def)
  have "clean_account (held 1000 1000)"
    by (simp add: clean_account_def held_def in_i64_def ut_init_def)
  then show ?thesis
    using rejected_block_keeps_new_accounts [OF small_prev_ok run rej db(4)] rej by (simp add: db blk) (simp add: block_one_def)
qed

text \<open>
  The call of \<open>log_commitment\<close> after a block was executed: when the block decided on is none of the node's own proposals
  and no batch is due for the disk, it only drops the pending proposals.
\<close>

definition nothing_due :: "'h hashed_block option \<Rightarrow> nat \<Rightarrow> ('pk, 'sig, 't, 'ht, 'bt, 'h, 'd) speedex_vm \<Rightarrow> bool" where
  "nothing_due bid n vm \<longleftrightarrow> (case bid of None \<Rightarrow> True
     | Some b \<Rightarrow> b \<notin> set (pending_proposed_ids vm) \<and> n < u64 (last_persisted_block_number vm + PERSIST_BATCH vm))"

lemma confirm_pending_foreign: "b \<notin> set ids \<Longrightarrow> confirm_pending b ids = (None, [])"
  by (induction ids) auto

lemma log_commitment_nothing_due:
  assumes "nothing_due bid (blockNumber (hb_block (last_committed_block vm))) vm"
  shows "log_commitment E H I bid vm = Inr (case bid of None \<Rightarrow> vm | Some b \<Rightarrow> vm\<lparr>pending_proposed_ids := []\<rparr>)"
  using assms by (cases bid) (simp_all add: log_commitment_def nothing_due_def confirm_pending_foreign Let_def)

text \<open>
  Property C30. A rejected block halts the node as long as the disk does not catch up. Let a node be in step: its newest record
  of created accounts (or, if it has none, its persisted round) is the last committed block. If a block is rejected before the
  tentative commit, the node counts it as committed and the records of created accounts stay as they were. If the following
  \<open>log_commitment\<close> is not for a proposal of the node and no batch is due for the disk (which would empty the records), the
  next block whose header and transactions are valid throws, whatever else it contains.
\<close>

theorem rejected_block_halts_node:
  assumes sync: "if account_creation_thunks (mem (ms_db (vm_structures vm))) = []
      then min_persisted_round_number (account_lmdb_instance (ms_db (vm_structures vm))) = N
      else thunk_block_number (last (account_creation_thunks (mem (ms_db (vm_structures vm))))) = N"
    and "blockNumber (hb_block (last_committed_block vm)) = N" "N + 2 < 2 ^ 64" "last_committed_block_number (ms_header_map (vm_structures vm)) = N"
    and "blockNumber (hb_block b1) = N + 1" "rejected_early E n1 bodies1 (last_committed_block vm) b1 (vm_structures vm)"
    and due: "nothing_due bid (N + 1) vm"
  shows "\<exists>vm1 vm2. exec_block E enc n1 bodies1 schedule1 b1 vm = Inr vm1 \<and> log_commitment E H I bid vm1 = Inr vm2
    \<and> blockNumber (hb_block (last_committed_block vm2)) = N + 1
    \<and> account_creation_thunks (mem (ms_db (vm_structures vm2))) = account_creation_thunks (mem (ms_db (vm_structures vm)))
    \<and> (\<forall>n2 bodies2 schedule2 b2 r. blockNumber (hb_block b2) = N + 2 \<longrightarrow> header_ok (last_committed_block vm2) b2 (vm_structures vm2)
        \<longrightarrow> ck_check_clearing (se_rd E) (checker_of (hb_block b2)) = Some True
        \<longrightarrow> run_validator E n2 bodies2 (checker_of (hb_block b2))
              (vm_structures vm2, make_minimum_size (get_num_orderbooks (ms_manager (vm_structures vm2))) []) = Inr (True, r)
        \<longrightarrow> exec_block E enc n2 bodies2 schedule2 b2 vm2 = Inl (RuntimeError ''account creation thunks block number error''))"
proof -
  let ?ms = "vm_structures vm" let ?prev = "last_committed_block vm"
  obtain ms' where v: "validation_logic E n1 bodies1 schedule1 ?prev b1 ?ms = Inr (False, ms')"
      "account_creation_thunks (mem (ms_db ms')) = account_creation_thunks (mem (ms_db ?ms))"
      "account_lmdb_instance (ms_db ms') = account_lmdb_instance (ms_db ?ms)" "ms_header_map ms' = ms_header_map ?ms"
    using rejected_early_effect [OF assms(6)] by blast
  have u: "u64 (N + 1) = N + 1" using assms(3) by simp
  let ?c = "ensure_sequential_block_numbers ?prev b1"
  have c: "blockNumber ?c = N + 1" using assms(2) u by (simp add: ensure_sequential_block_numbers_def)
  obtain hm where hm: "hm_insert (se_header E) (N + 1) (se_hash_xdr E ?c) False (ms_header_map ms') = Inr hm"
    using assms(4) v(4) u by (simp add: hm_insert_def)
  let ?vm1 = "vm\<lparr>vm_structures := ms'\<lparr>ms_header_map := hm\<rparr>, last_committed_block := \<lparr>hb_block = ?c, hb_hash = se_hash_xdr E ?c\<rparr>,
      proposal_base_block := (if blockNumber (hb_block (proposal_base_block vm)) < N + 1
        then \<lparr>hb_block = ?c, hb_hash = se_hash_xdr E ?c\<rparr> else proposal_base_block vm)\<rparr>"
  have run: "exec_block E enc n1 bodies1 schedule1 b1 vm = Inr ?vm1"
    using assms(2,5) u v(1) c hm by (simp add: exec_block_def speedex_block_validation_logic_def Let_def)
  define vm2 where "vm2 = (case bid of None \<Rightarrow> ?vm1 | Some b \<Rightarrow> ?vm1\<lparr>pending_proposed_ids := []\<rparr>)"
  have log: "log_commitment E H I bid ?vm1 = Inr vm2"
    using due c unfolding vm2_def by (intro log_commitment_nothing_due, cases bid) (simp_all add: nothing_due_def)
  have vm2: "vm_structures vm2 = ms'\<lparr>ms_header_map := hm\<rparr>" "last_committed_block vm2 = \<lparr>hb_block = ?c, hb_hash = se_hash_xdr E ?c\<rparr>"
    by (simp_all add: vm2_def split: option.split)
  have "exec_block E enc n2 bodies2 schedule2 b2 vm2 = Inl (RuntimeError ''account creation thunks block number error'')"
    if b2: "blockNumber (hb_block b2) = N + 2" "header_ok (last_committed_block vm2) b2 (vm_structures vm2)"
      "ck_check_clearing (se_rd E) (checker_of (hb_block b2)) = Some True"
      "run_validator E n2 bodies2 (checker_of (hb_block b2))
         (vm_structures vm2, make_minimum_size (get_num_orderbooks (ms_manager (vm_structures vm2))) []) = Inr (True, r)"
    for n2 bodies2 schedule2 b2 r
  proof -
    obtain ms2 vs stats where r: "r = (ms2, vs, stats)" by (cases r)
    have "validation_logic E n2 bodies2 schedule2 (last_committed_block vm2) b2 (vm_structures vm2)
        = Inl (RuntimeError ''account creation thunks block number error'')"
      using b2 c sync v(2,3) assms(3) by (intro stale_creation_thunks [OF b2(4) [unfolded r] b2(2,3), of N]) (simp_all add: vm2)
    moreover have "u64 (blockNumber ?c + 1) = N + 2" using assms(3) c by simp
    ultimately show ?thesis using b2(1) by (simp add: exec_block_def speedex_block_validation_logic_def vm2)
  qed
  with run log c v(2) show ?thesis by (intro exI [of _ ?vm1] exI [of _ vm2]) (auto simp: vm2)
qed

text \<open>The first block has fee rate 0 and is rejected for it; the second is empty and valid.\<close>

theorem rejected_block_halts_node_witness:
  "\<exists>vm1 vm2. exec_block small_env (\<lambda>_. []) 1 [] [] (small_block 2 0 1 0) (small_vm 1) = Inr vm1
     \<and> log_commitment small_env (\<lambda>_. id) list_dbi (Some (small_block 2 0 1 0)) vm1 = Inr vm2
     \<and> blockNumber (hb_block (last_committed_block vm2)) = 2
     \<and> account_creation_thunks (mem (ms_db (vm_structures vm2))) = [block_one]
     \<and> exec_block small_env (\<lambda>_. []) 1 [] [] (small_block 3 15 1 0) vm2 = Inl (RuntimeError ''account creation thunks block number error'')"
proof -
  have hyps: "(if account_creation_thunks (mem (ms_db (vm_structures (small_vm 1)))) = []
      then min_persisted_round_number (account_lmdb_instance (ms_db (vm_structures (small_vm 1)))) = 1
      else thunk_block_number (last (account_creation_thunks (mem (ms_db (vm_structures (small_vm 1)))))) = 1)"
    "blockNumber (hb_block (last_committed_block (small_vm 1))) = 1" "(1::nat) + 2 < 2 ^ 64"
    "last_committed_block_number (ms_header_map (vm_structures (small_vm 1))) = 1" "blockNumber (hb_block (small_block 2 0 1 0)) = 1 + 1"
    by (simp_all add: small_vm_def small_node_def holding_db_simps block_one_def small_block_def)
  have early: "rejected_early small_env 1 [] (last_committed_block (small_vm 1)) (small_block 2 0 1 0) (vm_structures (small_vm 1))"
    using small_early by (simp add: small_vm_def)
  have due: "nothing_due (Some (small_block 2 0 1 0)) (1 + 1) (small_vm 1)" by (simp add: nothing_due_def small_vm_def)
  obtain vm1 vm2 where vm1: "exec_block small_env (\<lambda>_. []) 1 [] [] (small_block 2 0 1 0) (small_vm 1) = Inr vm1"
      "log_commitment small_env (\<lambda>_. id) list_dbi (Some (small_block 2 0 1 0)) vm1 = Inr vm2" "blockNumber (hb_block (last_committed_block vm2)) = 1 + 1"
      "account_creation_thunks (mem (ms_db (vm_structures vm2))) = account_creation_thunks (mem (ms_db (vm_structures (small_vm 1))))"
    and then_throws: "\<And>n2 bodies2 schedule2 b2 r. blockNumber (hb_block b2) = 1 + 2 \<Longrightarrow> header_ok (last_committed_block vm2) b2 (vm_structures vm2)
        \<Longrightarrow> ck_check_clearing (se_rd small_env) (checker_of (hb_block b2)) = Some True
        \<Longrightarrow> run_validator small_env n2 bodies2 (checker_of (hb_block b2))
              (vm_structures vm2, make_minimum_size (get_num_orderbooks (ms_manager (vm_structures vm2))) []) = Inr (True, r)
        \<Longrightarrow> exec_block small_env (\<lambda>_. []) n2 bodies2 schedule2 b2 vm2 = Inl (RuntimeError ''account creation thunks block number error'')"
    using rejected_block_halts_node [OF hyps early due, of "\<lambda>_. []" "[]" "\<lambda>_. id" list_dbi] by blast
  obtain hm where "vm_structures vm1 = (small_node 1)\<lparr>ms_header_map := hm\<rparr>" "last_committed_block vm1 = small_block 2 0 1 0"
      "nothing_due (Some (small_block 2 0 1 0)) 2 vm1"
    using vm1(1) small_first due by (auto simp: nothing_due_def)
  then have vm2_is: "vm_structures vm2 = (small_node 1)\<lparr>ms_header_map := hm\<rparr>" "last_committed_block vm2 = small_block 2 0 1 0"
    using vm1(2) log_commitment_nothing_due [of "Some (small_block 2 0 1 0)" vm1 small_env "\<lambda>_. id" list_dbi]
    by (auto simp: small_block_def)
  have "\<exists>r. run_validator small_env 1 [] (checker_of (hb_block (small_block 3 15 1 0)))
      (vm_structures vm2, make_minimum_size (get_num_orderbooks (ms_manager (vm_structures vm2))) []) = Inr (True, r)"
    by (rule run_no_transactions) (simp_all add: vm2_is small_node_def small_manager_def holding_db_simps)
  then have "exec_block small_env (\<lambda>_. []) 1 [] [] (small_block 3 15 1 0) vm2 = Inl (RuntimeError ''account creation thunks block number error'')"
    using then_throws [of "small_block 3 15 1 0"] small_next_ok by (auto simp: vm2_is header_ok_def) (simp add: small_block_def)
  with vm1 show ?thesis by (auto simp: small_vm_def small_node_def holding_db_simps)
qed

end
