(* ===== verification/Spec2Isabelle.thy ===== *)
theory Spec2Isabelle
  imports Manager_Agreement Transaction_Atomicity Account_Filter Block_Processing Modification_Log Orderbook_Persistence Account_Persistence
    Header_Hash_Map Block_Rejection
begin

text \<open>
  A verification development of SPEEDEX, a decentralized exchange that clears, block by block,
  batches of sell offers between all pairs of assets at one vector of prices. The programs modelled
  are the C++ sources under \<^verbatim>\<open>src/\<close>; file names below are relative to it.

  \<^bold>\<open>The program.\<close> Transactions (\<^verbatim>\<open>xdr/transaction.x\<close>) are run by
  \<^verbatim>\<open>block_processing/serial_transaction_processor.cc\<close> in many threads. They change accounts
  (\<^verbatim>\<open>memory_database/\<close>) through a view that buffers credits and applies debits at once, create
  offers in local tries and mark offers for deletion (\<^verbatim>\<open>orderbook/orderbook_manager_view.h\<close>). The
  orderbooks (\<^verbatim>\<open>orderbook/orderbook.cc\<close>) then commit the new offers, prices are computed from
  them, and every book is cleared up to a supply chosen for it. The block header lists, for every
  book, the activated supply and the threshold offer that is partially executed. A validator
  replays the transactions and the clearing against this header and accepts or rolls back.

  \<^bold>\<open>Theories, in the order of their imports.\<close>
    \<^item> \<open>Prelude\<close>: wrap-around arithmetic, errors as a sum type, byte strings, list updates.
    \<^item> \<open>Price_Utils\<close>, \<open>Fixed_Point\<close> (\<^verbatim>\<open>utils/price.h\<close>, \<^verbatim>\<open>utils/fixed_point_value.h\<close>): prices with 24
      fractional bits, amounts with 10, wide multiplication and tax; the products are exact and the
      byte codec of prices is invertible.
    \<^item> \<open>Xdr_Types\<close>, \<open>Orderbook_Utils\<close> (\<^verbatim>\<open>xdr/\<close>, \<^verbatim>\<open>orderbook/utils.h\<close>, \<^verbatim>\<open>orderbook/typedefs.h\<close>): wire types,
      numbering of the books (a bijection), keys of offers (ordered like price, owner, id).
    \<^item> \<open>Sequence_Tracker\<close>, \<open>Revertable_Asset\<close>, \<open>User_Account\<close>, \<open>Account_Vector\<close>, \<open>Memory_Database\<close>,
      \<open>Database_View\<close> (\<^verbatim>\<open>memory_database/\<close>): replay protection, the lock-free balance as a step
      relation over threads, accounts with commit and rollback, the segmented vector, creation of
      accounts and state commitments, the buffered view whose commit applies and whose unwinding
      undoes any sequence of calls.
    \<^item> \<open>Account_Persistence\<close> (\<^verbatim>\<open>memory_database/account_lmdb.cc\<close>, \<^verbatim>\<open>memory_database/thunk.cc\<close>): thunks of blocks written to
      sixteen shards; recovery from a crash in the middle, restart from disk, rewinding of blocks.
    \<^item> \<open>Offer_Clearing\<close>, \<open>Orderbook_Demand\<close>, \<open>Orderbook\<close> (\<^verbatim>\<open>orderbook/\<close>): the arithmetic of clearing and
      its check, demand queries over the price index, the orderbook with its persistence thunks.
    \<^item> \<open>Offer_Book\<close>, \<open>Clearing_Agreement\<close>: the documented behaviour of the offer trie relative to a
      sorted list, and the agreement of producer and validator on one book.
    \<^item> \<open>Orderbook_Persistence\<close> (\<^verbatim>\<open>orderbook/lmdb.cc\<close>): writing the thunks of several blocks to disk in five phases;
      when the table on disk is the book in memory, and the two situations in which it is not.
    \<^item> \<open>Orderbook_Manager\<close>, \<open>Manager_View\<close>, \<open>Manager_Agreement\<close>: all books together, the views of
      transactions on them, independence of the parallel schedule and agreement on a whole block.
    \<^item> \<open>Transaction_Processor\<close>, \<open>Transaction_Atomicity\<close> (\<^verbatim>\<open>block_processing/serial_transaction_processor.cc\<close>):
      the handlers of all operations in production and validation; a failed transaction is a no-op on accounts and
      books, a successful one has exactly its effects.
    \<^item> \<open>Account_Filter\<close> (\<^verbatim>\<open>filtering/\<close>): the filter that accepts or rejects the transactions of an account as a
      whole; its verdicts do not depend on threads, and accepted accounts can pay.
    \<^item> \<open>Mempool\<close> (\<^verbatim>\<open>mempool/\<close>): the pool of pending transactions; a round of pulling, marking and
      reorganising keeps exactly the transactions that are neither confirmed nor dropped.
    \<^item> \<open>Block_Processing\<close> (\<^verbatim>\<open>block_processing/block_producer.cc\<close>, \<^verbatim>\<open>block_processing/block_validator.cc\<close>):
      assembling a block from the pool with the shared reservation counter, validating and replaying
      a block; how far the size of a block is bounded.
    \<^item> \<open>Modification_Log\<close> (\<^verbatim>\<open>modlog/\<close>): the log of the accounts and transactions of a block in both
      representations; its hash and the block made of it do not depend on the threads.
    \<^item> \<open>Header_Hash_Map\<close> (\<^verbatim>\<open>header_hash/\<close>): the hashes of the blocks in memory and on disk; it implements a
      chain with a persisted prefix.
    \<^item> \<open>Speedex_Operation\<close> (\<^verbatim>\<open>speedex/speedex_operation.cc\<close>, \<^verbatim>\<open>speedex/autorollback_validation_structures.cc\<close>,
      \<^verbatim>\<open>speedex/speedex_persistence.cc\<close>, \<^verbatim>\<open>speedex/vm/speedex_vm.cc\<close>): the structures of a node, validation and
      production of a whole block, rollback of a rejected one, and the virtual machine that consensus drives.
    \<^item> \<open>Block_Rejection\<close>: what a rejected block leaves behind. Running transactions and clearing change only the uncommitted
      part of the database; the rollback restores the accounts that existed before but keeps those the block created, and a
      block rejected early makes the next valid one throw, unless the disk catches up in between.

  \<^bold>\<open>Conventions.\<close> An operation that throws is \<open>Inl\<close> of an error; C++ behaviour that is not defined is
  \<open>None\<close> or \<open>Inl UndefinedBehaviour\<close>. Code outside the sources is an argument: the record
  \<open>offer_trie\<close> and the account trie of the trie submodule (hypotheses \<open>offer_trie_ok\<close>,
  \<open>commitment_trie_ok\<close>), byte codecs of the utility submodule (\<open>codec16\<close>, \<open>writes_be8\<close>), signature
  checks. Every such hypothesis has an instance that the witnesses use. Parallel loops take their
  schedule as an argument or are proved for every interleaving. Loops are structural recursions;
  those that wait for other threads are step relations or return \<open>NoReturn\<close> when they would not end.

  \<^bold>\<open>Not modelled.\<close> Networking, consensus, background threads and the drivers of experiments; the linear programs
  and the price search on floating-point numbers, whose results are arguments of block production; files other than
  the LMDB tables, which are maps.
\<close>

end
